(* ===== verification/C_Prelude.thy ===== *)
theory C_Prelude
  imports Main "HOL-Library.Word" "HOL-Library.Sublist"
begin

section \<open>The C fragment shared by all components\<close>

text \<open>
  What the programs under \<^verbatim>\<open>src/\<close> take from the C language and its standard library on
  x86-64 Linux: undefined behaviour as values, \<^verbatim>\<open>strtol\<close>/\<^verbatim>\<open>strtoll\<close>, the integer
  conversions of \<^verbatim>\<open>printf\<close>, \<^verbatim>\<open>strrchr\<close>, heap buffers with a capacity, and the byte
  image of a 64-bit integer in memory.

  A C string is an Isabelle \<open>string\<close> without its terminating NUL. A function that may run
  into undefined behaviour returns \<open>c_fault + 'a\<close>: \<open>Inl\<close> names the defect, \<open>Inr\<close> is
  the normal result. The collection \<open>c_ops\<close> holds the definitions of the library
  operations, so that component proofs unfold them with \<open>simp add: c_ops\<close>.
\<close>

named_theorems c_ops \<open>definitions of the modelled C library operations\<close>
named_theorems c_len \<open>length facts about strings and byte images\<close>

subsection \<open>Undefined behaviour as a value\<close>

datatype c_fault =
    NullDeref
  | OutOfBounds
  | BufferOverflow
  | SignedOverflow
  | DivByZero
  | UninitRead
  | BadConversion

type_synonym 'a cres = "c_fault + 'a"

definition bind_c :: "'a cres \<Rightarrow> ('a \<Rightarrow> 'b cres) \<Rightarrow> 'b cres" where
  "bind_c r f = (case r of Inl e \<Rightarrow> Inl e | Inr x \<Rightarrow> f x)"

lemma bind_c_simps [simp]:
  "bind_c (Inl e) f = Inl e"
  "bind_c (Inr x) f = f x"
  by (simp_all add: bind_c_def)

lemma bind_c_eq_Inr [simp]: "bind_c r f = Inr y \<longleftrightarrow> (\<exists>x. r = Inr x \<and> f x = Inr y)"
  by (cases r) auto

lemma bind_c_eq_Inl: "bind_c r f = Inl e \<longleftrightarrow> r = Inl e \<or> (\<exists>x. r = Inr x \<and> f x = Inl e)"
  by (cases r) auto

lemma bind_c_cong [fundef_cong]:
  "r = r' \<Longrightarrow> (\<And>x. r' = Inr x \<Longrightarrow> f x = g x) \<Longrightarrow> bind_c r f = bind_c r' g"
  by (cases r') auto

subsection \<open>Machine types and errno\<close>

type_synonym byte = "8 word"
type_synonym size_t = "64 word"
type_synonym i32 = "32 word"
type_synonym i64 = "64 word"

lemma unat_size_t: "n < 2 ^ 64 \<Longrightarrow> unat (word_of_nat n :: size_t) = n"
  by (simp add: unat_of_nat take_bit_nat_eq_self)

lemma unat_Suc_size_t: "unat (a :: size_t) < unat (b :: size_t) \<Longrightarrow> unat (a + 1) = Suc (unat a)"
  by unat_arith

text \<open>The errno values the sources name (Linux, x86-64).\<close>

definition EINVAL :: int where "EINVAL = 22"
definition ERANGE :: int where "ERANGE = 34"
definition EXIT_FAILURE :: int where "EXIT_FAILURE = 1"

definition PATH_MAX :: nat where "PATH_MAX = 4096"

definition INT_MIN :: int where "INT_MIN = - (2 ^ 31)"
definition INT_MAX :: int where "INT_MAX = 2 ^ 31 - 1"
definition LLONG_MIN :: int where "LLONG_MIN = - (2 ^ 63)"
definition LLONG_MAX :: int where "LLONG_MAX = 2 ^ 63 - 1"

lemmas c_limits = EINVAL_def ERANGE_def EXIT_FAILURE_def PATH_MAX_def INT_MIN_def INT_MAX_def
  LLONG_MIN_def LLONG_MAX_def

subsection \<open>Characters and digits\<close>

definition isspace_c :: "char \<Rightarrow> bool" where
  [c_ops]: "isspace_c c \<longleftrightarrow>
     (of_char c = (32::nat) \<or> (9 \<le> (of_char c :: nat) \<and> of_char c \<le> (13::nat)))"

text \<open>The value of an alphanumeric digit; 36, which no base accepts, for any other character.\<close>

definition digit_val :: "char \<Rightarrow> nat" where
  [c_ops]: "digit_val c =
     (let n = of_char c in
      if 48 \<le> n \<and> n \<le> 57 then n - 48
      else if 97 \<le> n \<and> n \<le> 122 then n - 87
      else if 65 \<le> n \<and> n \<le> 90 then n - 55
      else 36)"

definition digit_char :: "nat \<Rightarrow> char" where
  [c_ops]: "digit_char d = char_of (if d < 10 then 48 + d else 87 + d)"

lemma digit_val_digit_char: "d < 36 \<Longrightarrow> digit_val (digit_char d) = d"
  by (auto simp: digit_val_def digit_char_def Let_def of_char_of take_bit_eq_mod)

lemma digit_char_not_special:
  assumes "d < 36"
  shows "\<not> isspace_c (digit_char d)" and "digit_char d \<noteq> CHR ''-''" and "digit_char d \<noteq> CHR ''+''"
proof -
  have code: "of_char (digit_char d) = (if d < 10 then 48 + d else 87 + d)"
    using assms by (simp add: digit_char_def of_char_of take_bit_eq_mod)
  show "\<not> isspace_c (digit_char d)" using assms by (simp add: isspace_c_def code)
  have "of_char (digit_char d) \<noteq> (of_char (CHR ''-'') :: nat)"
    and "of_char (digit_char d) \<noteq> (of_char (CHR ''+'') :: nat)"
    using assms by (auto simp: code)
  then show "digit_char d \<noteq> CHR ''-''" and "digit_char d \<noteq> CHR ''+''" by metis+
qed

subsection \<open>strtol and strtoll\<close>

text \<open>
  \<open>digits_value b ds\<close> is the number a digit string denotes in base \<open>b\<close>.
  \<open>strtoll_c base s\<close> is the triple of the value, the string \<^verbatim>\<open>endptr\<close> points at, and
  whether \<^verbatim>\<open>errno\<close> was set to ERANGE: white space, an optional sign, the prefix
  \<^verbatim>\<open>0x\<close> in base 16 when a hexadecimal digit follows, the longest run of digits, and
  saturation at the ends of the range. Without a digit the value is 0 and \<^verbatim>\<open>endptr\<close> is
  the start of the string. On this platform \<^verbatim>\<open>long\<close> and \<^verbatim>\<open>long long\<close> are both 64 bits
  wide, so the same function models \<^verbatim>\<open>strtol\<close>.
\<close>

definition digits_value :: "nat \<Rightarrow> string \<Rightarrow> nat" where
  "digits_value b ds = foldl (\<lambda>a c. a * b + digit_val c) 0 ds"

definition hex_prefix :: "string \<Rightarrow> bool" where
  "hex_prefix s = (case s of c0 # c1 # c2 # r \<Rightarrow>
       c0 = CHR ''0'' \<and> (c1 = CHR ''x'' \<or> c1 = CHR ''X'') \<and> digit_val c2 < 16
     | _ \<Rightarrow> False)"

definition strtol_base :: "nat \<Rightarrow> string \<Rightarrow> nat" where
  "strtol_base base s =
     (if base = 0 then
        if hex_prefix s then 16
        else if (case s of c # _ \<Rightarrow> c = CHR ''0'' | [] \<Rightarrow> False) then 8 else 10
      else base)"

definition strtol_sign :: "string \<Rightarrow> bool \<times> string" where
  "strtol_sign s = (case s of
       [] \<Rightarrow> (False, [])
     | c # r \<Rightarrow> if c = CHR ''-'' then (True, r) else if c = CHR ''+'' then (False, r) else (False, s))"

definition saturate :: "int \<Rightarrow> int" where
  "saturate v = (if v < LLONG_MIN then LLONG_MIN else if LLONG_MAX < v then LLONG_MAX else v)"

definition strtoll_c :: "nat \<Rightarrow> string \<Rightarrow> int \<times> string \<times> bool" where
  "strtoll_c base s =
     (let (neg, s2) = strtol_sign (dropWhile isspace_c s);
          b = strtol_base base s2;
          s3 = (if b = 16 \<and> hex_prefix s2 then drop 2 s2 else s2);
          ds = takeWhile (\<lambda>c. digit_val c < b) s3;
          rest = dropWhile (\<lambda>c. digit_val c < b) s3;
          v = (if neg then - int (digits_value b ds) else int (digits_value b ds))
      in if ds = [] then (0, s, False)
         else (saturate v, rest, v < LLONG_MIN \<or> LLONG_MAX < v))"

lemmas strtol_eval = strtoll_c_def strtol_sign_def strtol_base_def hex_prefix_def digits_value_def
  saturate_def c_limits c_ops

lemma strtoll_c_range: "LLONG_MIN \<le> fst (strtoll_c base s) \<and> fst (strtoll_c base s) \<le> LLONG_MAX"
  by (auto simp: strtoll_c_def saturate_def c_limits Let_def split: prod.splits)

lemma strtol_sign_suffix: "strtol_sign s = (neg, t) \<Longrightarrow> suffix t s"
  by (auto simp: strtol_sign_def suffix_ConsI split: list.splits if_splits)

lemma strtoll_c_endptr_suffix: "suffix (fst (snd (strtoll_c base s))) s"
proof -
  obtain neg s2 where s2: "strtol_sign (dropWhile isspace_c s) = (neg, s2)" by force
  have "suffix s2 (dropWhile isspace_c s)"
    using s2 by (rule strtol_sign_suffix)
  then have s2s: "suffix s2 s"
    using suffix_dropWhile suffix_order.trans by blast
  let ?s3 = "if strtol_base base s2 = 16 \<and> hex_prefix s2 then drop 2 s2 else s2"
  have "suffix (dropWhile P ?s3) s" for P
    using s2s suffix_dropWhile suffix_drop suffix_order.trans by (metis (full_types))
  then show ?thesis by (simp add: strtoll_c_def s2 Let_def)
qed

subsection \<open>Integer conversions of printf\<close>

fun nat_digits :: "nat \<Rightarrow> nat \<Rightarrow> nat list" where
  "nat_digits b n = (if b < 2 \<or> n < b then [n] else nat_digits b (n div b) @ [n mod b])"

declare nat_digits.simps [simp del]

definition show_nat :: "nat \<Rightarrow> nat \<Rightarrow> string" where
  "show_nat b n = map digit_char (nat_digits b n)"

text \<open>\<^verbatim>\<open>%d\<close>, \<^verbatim>\<open>%ld\<close> and \<^verbatim>\<open>%lld\<close>; and \<^verbatim>\<open>%llx\<close>, which reads its argument as unsigned.\<close>

definition show_dec :: "int \<Rightarrow> string" where
  "show_dec v = (if v < 0 then CHR ''-'' # show_nat 10 (nat (- v)) else show_nat 10 (nat v))"

definition show_hex :: "i64 \<Rightarrow> string" where
  "show_hex w = show_nat 16 (unat w)"

lemma nat_digits_nonempty [simp]: "nat_digits b n \<noteq> []"
  by (subst nat_digits.simps) simp

lemma show_nat_nonempty [simp]: "show_nat b n \<noteq> []"
  by (simp add: show_nat_def)

lemma nat_digits_lt: "2 \<le> b \<Longrightarrow> d \<in> set (nat_digits b n) \<Longrightarrow> d < b"
proof (induction b n rule: nat_digits.induct)
  case (1 b n)
  show ?case
  proof (cases "n < b")
    case True
    with 1 show ?thesis by (simp add: nat_digits.simps [of b n])
  next
    case False
    with 1 show ?thesis by (auto simp: nat_digits.simps [of b n])
  qed
qed

lemma digits_value_snoc: "digits_value b (ds @ [c]) = digits_value b ds * b + digit_val c"
  by (simp add: digits_value_def)

lemma digits_value_show_nat: "2 \<le> b \<Longrightarrow> b \<le> 36 \<Longrightarrow> digits_value b (show_nat b n) = n"
proof (induction b n rule: nat_digits.induct)
  case (1 b n)
  show ?case
  proof (cases "n < b")
    case True
    with 1 show ?thesis
      by (simp add: show_nat_def nat_digits.simps [of b n] digits_value_def digit_val_digit_char)
  next
    case False
    with 1 have IH: "digits_value b (show_nat b (n div b)) = n div b" by simp
    have "n mod b < 36"
      using 1(2,3) mod_less_divisor [of b n] by linarith
    moreover have "show_nat b n = show_nat b (n div b) @ [digit_char (n mod b)]"
      using False 1(2) by (simp add: show_nat_def nat_digits.simps [of b n])
    ultimately show ?thesis using IH by (simp add: digits_value_snoc digit_val_digit_char)
  qed
qed

lemma show_nat_digits: "2 \<le> b \<Longrightarrow> b \<le> 36 \<Longrightarrow> c \<in> set (show_nat b n) \<Longrightarrow> digit_val c < b"
  by (auto simp: show_nat_def digit_val_digit_char dest!: nat_digits_lt)

lemma length_nat_digits_le: "2 \<le> b \<Longrightarrow> n < b ^ k \<Longrightarrow> 0 < k \<Longrightarrow> length (nat_digits b n) \<le> k"
proof (induction b n arbitrary: k rule: nat_digits.induct)
  case (1 b n)
  show ?case
  proof (cases "n < b")
    case True
    with 1 show ?thesis by (simp add: nat_digits.simps [of b n])
  next
    case False
    then obtain j where k: "k = Suc j" and "0 < j"
      using 1(3,4) by (cases k; cases "k = 1") auto
    have "n div b < b ^ j"
      using 1(2,3) k by (simp add: less_mult_imp_div_less mult.commute)
    with 1 False \<open>0 < j\<close> have "length (nat_digits b (n div b)) \<le> j" by simp
    with False k 1(2) show ?thesis by (simp add: nat_digits.simps [of b n])
  qed
qed

lemma length_nat_digits_gt: "2 \<le> b \<Longrightarrow> b ^ k \<le> n \<Longrightarrow> k < length (nat_digits b n)"
proof (induction b n arbitrary: k rule: nat_digits.induct)
  case (1 b n)
  show ?case
  proof (cases k)
    case 0
    then show ?thesis by simp
  next
    case (Suc j)
    have "b \<le> b ^ k" using 1(2) Suc by (intro self_le_power) auto
    then have "b \<le> n" using 1(3) by (rule order_trans)
    moreover have "b ^ j \<le> n div b"
      using 1(2,3) Suc by (simp add: less_eq_div_iff_mult_less_eq mult.commute)
    ultimately have "j < length (nat_digits b (n div b))" using 1 by simp
    with \<open>b \<le> n\<close> Suc 1(2) show ?thesis by (simp add: nat_digits.simps [of b n])
  qed
qed

lemma length_nat_digits_antimono:
  assumes "2 \<le> b" and "b \<le> c"
  shows "length (nat_digits c n) \<le> length (nat_digits b n)"
proof -
  have "n < b ^ length (nat_digits b n)"
    using length_nat_digits_gt [OF assms(1), of "length (nat_digits b n)" n] by (meson less_irrefl not_le)
  also have "\<dots> \<le> c ^ length (nat_digits b n)" using assms by (simp add: power_mono)
  finally show ?thesis using assms by (intro length_nat_digits_le) auto
qed

lemma digits_value_less:
  "\<forall>c \<in> set ds. digit_val c < b \<Longrightarrow> digits_value b ds < b ^ length ds"
proof (induction ds rule: rev_induct)
  case Nil
  then show ?case by (simp add: digits_value_def)
next
  case (snoc c ds)
  then have "digits_value b ds + 1 \<le> b ^ length ds" and "digit_val c < b" by simp_all
  then have "(digits_value b ds + 1) * b \<le> b ^ length ds * b" by (intro mult_right_mono) auto
  with \<open>digit_val c < b\<close> show ?case by (simp add: digits_value_snoc algebra_simps)
qed

text \<open>Printing a number in decimal and reading it back gives the number.\<close>

lemma show_nat_first:
  assumes "2 \<le> b" and "b \<le> 36"
  obtains c cs where "show_nat b n = c # cs" and "\<not> isspace_c c" and "c \<noteq> CHR ''-''" and "c \<noteq> CHR ''+''"
proof -
  obtain d ds where d: "nat_digits b n = d # ds" by (meson list.exhaust nat_digits_nonempty)
  then have "d < 36" using nat_digits_lt [of b d n] assms by simp
  with d that show thesis by (simp add: show_nat_def digit_char_not_special)
qed

lemma strtol_sign_show_dec:
  "strtol_sign (dropWhile isspace_c (show_dec v)) = (v < 0, show_nat 10 (nat \<bar>v\<bar>))"
proof (cases "v < 0")
  case True
  then show ?thesis
    by (simp add: show_dec_def strtol_sign_def isspace_c_def)
next
  case False
  obtain c cs where "show_nat 10 (nat v) = c # cs" "\<not> isspace_c c" "c \<noteq> CHR ''-''" "c \<noteq> CHR ''+''"
    by (rule show_nat_first [of 10 "nat v"]) auto
  with False show ?thesis by (simp add: show_dec_def strtol_sign_def)
qed

lemma strtoll_c_show_dec:
  assumes "LLONG_MIN \<le> v" and "v \<le> LLONG_MAX"
  shows "strtoll_c 10 (show_dec v) = (v, [], False)"
proof -
  have all: "\<forall>c \<in> set (show_nat 10 n). digit_val c < 10" for n
    using show_nat_digits [of 10] by simp
  have tw: "takeWhile (\<lambda>c. digit_val c < 10) (show_nat 10 n) = show_nat 10 n"
    and dw: "dropWhile (\<lambda>c. digit_val c < 10) (show_nat 10 n) = []" for n
    using all [of n] by (simp_all add: takeWhile_eq_all_conv dropWhile_eq_Nil_conv)
  from assms show ?thesis
    by (simp add: strtoll_c_def strtol_sign_show_dec strtol_base_def digits_value_show_nat
        saturate_def Let_def tw dw)
qed

text \<open>The same in front of other text.\<close>

lemma strtoll_c_show_dec_rest:
  assumes "0 \<le> v" and "v \<le> LLONG_MAX" and "\<not> digit_val c < 10"
  shows "strtoll_c 10 (show_dec v @ c # cs) = (v, c # cs, False)"
proof -
  let ?n = "show_nat 10 (nat v)"
  have all: "\<forall>c\<in>set ?n. digit_val c < 10" using show_nat_digits [of 10] by simp
  obtain x xs where x: "?n = x # xs" "\<not> isspace_c x" "x \<noteq> CHR ''-''" "x \<noteq> CHR ''+''" by (rule show_nat_first [of 10 "nat v"]) auto
  have "strtol_sign (dropWhile isspace_c (?n @ c # cs)) = (False, ?n @ c # cs)" using x by (simp add: strtol_sign_def)
  moreover have "takeWhile (\<lambda>c. digit_val c < 10) (?n @ c # cs) = ?n" "dropWhile (\<lambda>c. digit_val c < 10) (?n @ c # cs) = c # cs"
    using all assms(3) by (simp_all add: takeWhile_append2 dropWhile_append2)
  moreover have "int (digits_value 10 ?n) = v" using digits_value_show_nat [of 10 "nat v"] assms(1) by simp
  ultimately show ?thesis using assms(1,2) x(1) by (simp add: strtoll_c_def strtol_base_def show_dec_def saturate_def c_limits Let_def)
qed

lemma length_show_hex [c_len]: "length (show_hex w) \<le> 16"
proof -
  have "unat w < 16 ^ 16" using unsigned_less [of w] by simp
  then show ?thesis by (simp add: show_hex_def show_nat_def length_nat_digits_le)
qed

subsection \<open>Characters in strings: strrchr\<close>

text \<open>The suffix that starts at the last occurrence of a character, \<open>None\<close> for NULL.\<close>

definition strrchr_c :: "char \<Rightarrow> string \<Rightarrow> string option" where
  "strrchr_c c s = (if c \<in> set s then Some (c # rev (takeWhile (\<lambda>x. x \<noteq> c) (rev s))) else None)"

lemma strrchr_c_Some:
  "strrchr_c c s = Some t \<longleftrightarrow> (\<exists>pre u. s = pre @ t \<and> t = c # u \<and> c \<notin> set u)"
proof
  assume "strrchr_c c s = Some t"
  then have c: "c \<in> set (rev s)" and t: "t = c # rev (takeWhile (\<lambda>x. x \<noteq> c) (rev s))"
    by (auto simp: strrchr_c_def split: if_splits)
  let ?D = "dropWhile (\<lambda>x. x \<noteq> c) (rev s)"
  have "?D \<noteq> []" using c by (auto simp: dropWhile_eq_Nil_conv)
  then have "?D = c # tl ?D" using hd_dropWhile [of "\<lambda>x. x \<noteq> c" "rev s"] by (cases ?D) auto
  then have "rev s = takeWhile (\<lambda>x. x \<noteq> c) (rev s) @ c # tl ?D" by (metis takeWhile_dropWhile_id)
  then have "s = rev (tl ?D) @ t" unfolding t
    by (metis append.assoc append_Cons append_Nil rev.simps(2) rev_append rev_rev_ident)
  moreover have "c \<notin> set (takeWhile (\<lambda>x. x \<noteq> c) (rev s))" using set_takeWhileD by fastforce
  ultimately show "\<exists>pre u. s = pre @ t \<and> t = c # u \<and> c \<notin> set u" using t by (metis set_rev)
next
  assume "\<exists>pre u. s = pre @ t \<and> t = c # u \<and> c \<notin> set u"
  then obtain pre u where s: "s = pre @ c # u" and t: "t = c # u" and u: "c \<notin> set u" by auto
  have "takeWhile (\<lambda>x. x \<noteq> c) (rev s) = rev u"
    using u by (auto simp: s takeWhile_append takeWhile_eq_all_conv)
  then show "strrchr_c c s = Some t" by (simp add: strrchr_c_def s t)
qed

text \<open>
  The extension of a path as the sources compute it from \<^verbatim>\<open>strrchr\<close>: nothing when there is no dot
  or when the dot is the first character (the returned pointer equals the argument, that is, the suffix is the
  whole string).
\<close>

definition dot_ext :: "string \<Rightarrow> string" where
  "dot_ext filename = (case strrchr_c (CHR ''.'') filename of
       None \<Rightarrow> []
     | Some dot \<Rightarrow> if dot = filename then [] else dot)"

lemma dot_ext_eq_iff:
  assumes "CHR ''.'' \<notin> set u"
  shows "dot_ext f = CHR ''.'' # u \<longleftrightarrow> (\<exists>q. q \<noteq> [] \<and> f = q @ CHR ''.'' # u)"
proof
  assume "dot_ext f = CHR ''.'' # u"
  then have "strrchr_c (CHR ''.'') f = Some (CHR ''.'' # u)" and ne: "CHR ''.'' # u \<noteq> f"
    by (auto simp: dot_ext_def split: option.splits if_splits)
  then obtain q where "f = q @ CHR ''.'' # u" by (auto simp: strrchr_c_Some)
  with ne show "\<exists>q. q \<noteq> [] \<and> f = q @ CHR ''.'' # u" by (metis append_Nil)
next
  assume "\<exists>q. q \<noteq> [] \<and> f = q @ CHR ''.'' # u"
  then obtain q where q: "q \<noteq> []" "f = q @ CHR ''.'' # u" by blast
  with assms have "strrchr_c (CHR ''.'') f = Some (CHR ''.'' # u)" by (auto simp: strrchr_c_Some)
  with q show "dot_ext f = CHR ''.'' # u" by (simp add: dot_ext_def)
qed

subsection \<open>Heap buffers and string writes\<close>

text \<open>
  A heap block that holds a string: its capacity in bytes, fixed by the allocation, and its
  current contents up to the NUL. A write that does not fit, NUL included, is a
  \<^const>\<open>BufferOverflow\<close>.
\<close>

record cbuf =
  buf_cap :: nat
  buf_str :: string

definition strdup_c :: "string \<Rightarrow> cbuf" where
  "strdup_c s = \<lparr>buf_cap = length s + 1, buf_str = s\<rparr>"

definition sprintf_c :: "cbuf \<Rightarrow> nat \<Rightarrow> string \<Rightarrow> cbuf cres" where
  "sprintf_c b off s =
     (if off + length s + 1 \<le> buf_cap b then Inr (b\<lparr>buf_str := take off (buf_str b) @ s\<rparr>)
      else Inl BufferOverflow)"

text \<open>A buffer of fixed capacity filled by \<^verbatim>\<open>strcpy\<close> and \<^verbatim>\<open>strcat\<close>: what fits, or the overflow.\<close>

definition strcpy_c :: "nat \<Rightarrow> string \<Rightarrow> string cres" where
  "strcpy_c cap s = (if length s + 1 \<le> cap then Inr s else Inl BufferOverflow)"

definition strcat_c :: "nat \<Rightarrow> string \<Rightarrow> string \<Rightarrow> string cres" where
  "strcat_c cap s t = (if length s + length t + 1 \<le> cap then Inr (s @ t) else Inl BufferOverflow)"

subsection \<open>Memory images\<close>

text \<open>The eight bytes of a 64-bit integer, least significant first, and \<^verbatim>\<open>memcmp(a + off, b, n) == 0\<close>.\<close>

definition le_bytes :: "i64 \<Rightarrow> byte list" where
  "le_bytes w = map (\<lambda>i. ucast (drop_bit (8 * i) w)) [0..<8]"

definition memcmp_eq :: "byte list \<Rightarrow> nat \<Rightarrow> byte list \<Rightarrow> nat \<Rightarrow> bool cres" where
  "memcmp_eq a off b n =
     (if off + n \<le> length a \<and> n \<le> length b then Inr (take n (drop off a) = take n b)
      else Inl OutOfBounds)"

lemma length_le_bytes [simp, c_len]: "length (le_bytes w) = 8"
  by (simp add: le_bytes_def)

lemma nth_le_bytes: "i < 8 \<Longrightarrow> le_bytes w ! i = ucast (drop_bit (8 * i) w)"
  by (simp add: le_bytes_def)

lemma le_bytes_inject: "le_bytes v = le_bytes w \<longleftrightarrow> v = w"
proof
  assume eq: "le_bytes v = le_bytes w"
  show "v = w"
  proof (rule bit_word_eqI)
    fix n assume n: "n < LENGTH(64)"
    let ?i = "n div 8"
    have i: "?i < 8" using n by simp
    have "ucast (drop_bit (8 * ?i) v) = (ucast (drop_bit (8 * ?i) w) :: byte)"
      using eq i nth_le_bytes by metis
    then have "bit (ucast (drop_bit (8 * ?i) v) :: byte) (n mod 8)
        = bit (ucast (drop_bit (8 * ?i) w) :: byte) (n mod 8)" by simp
    then show "bit v n = bit w n" by (simp add: bit_simps)
  qed
qed simp

subsection \<open>Line and tab\<close>

definition nl :: string where "nl = [CHR 0x0A]"
definition tab :: string where "tab = [CHR 0x09]"

subsection \<open>Programs that call exit\<close>

text \<open>
  A step of a program goes on with a value, ends the process with \<^verbatim>\<open>exit\<close> or \<^verbatim>\<open>abort\<close>, or never returns; all of them may run into a fault instead.
\<close>

datatype 'a outcome = Done 'a | Exits int | Diverges

definition bind_e :: "'a outcome cres \<Rightarrow> ('a \<Rightarrow> 'b outcome cres) \<Rightarrow> 'b outcome cres" where
  "bind_e r f = (case r of Inl e \<Rightarrow> Inl e | Inr (Exits n) \<Rightarrow> Inr (Exits n) | Inr Diverges \<Rightarrow> Inr Diverges | Inr (Done x) \<Rightarrow> f x)"

lemma bind_e_simps [simp]:
  "bind_e (Inl e) f = Inl e" "bind_e (Inr (Exits n)) f = Inr (Exits n)" "bind_e (Inr Diverges) f = Inr Diverges"
  "bind_e (Inr (Done x)) f = f x"
  by (simp_all add: bind_e_def)

lemma bind_e_eq_Done [simp]: "bind_e r f = Inr (Done y) \<longleftrightarrow> (\<exists>x. r = Inr (Done x) \<and> f x = Inr (Done y))"
  by (auto simp: bind_e_def split: sum.splits outcome.splits)

lemma bind_e_cong [fundef_cong]:
  "r = r' \<Longrightarrow> (\<And>x. r' = Inr (Done x) \<Longrightarrow> f x = g x) \<Longrightarrow> bind_e r f = bind_e r' g"
  by (auto simp: bind_e_def split: sum.splits outcome.splits)

lemma bind_e_assoc: "bind_e (bind_e r f) g = bind_e r (\<lambda>x. bind_e (f x) g)"
  by (auto simp: bind_e_def split: sum.splits outcome.splits)

end
