(* ===== verification/Plugin_Api.thy ===== *)
theory Plugin_Api
  imports C_Prelude
begin

section \<open>The plugin interface\<close>

text \<open>
  The data types of \<^verbatim>\<open>plugin_api.h\<close>, the operating-system view a plugin has of a file, and
  the contract that the search program relies on, as the locale \<open>plugin_iface\<close>. Every plugin
  of the repository interprets it; the search program's lemmas use it through its
  predicate.
\<close>

subsection \<open>Structures of plugin_api.h\<close>

text \<open>
  \<^verbatim>\<open>struct option\<close> of getopt. The field \<^verbatim>\<open>flag\<close> carries the option's argument as a string
  buffer, the API's own convention; \<open>None\<close> is the null pointer.
\<close>

record c_option =
  opt_name :: string
  opt_has_arg :: nat
  opt_flag :: "cbuf option"
  opt_val :: int

record plugin_option =
  po_opt :: c_option
  po_descr :: string

text \<open>\<open>sup_opts_len\<close> is kept beside the array, as the structure keeps it.\<close>

record plugin_info =
  plugin_purpose :: string
  plugin_author :: string
  sup_opts_len :: nat
  sup_opts :: "plugin_option list"

definition no_argument :: nat where "no_argument = 0"
definition required_argument :: nat where "required_argument = 1"

text \<open>The structure a caller zeroes before it asks for the information.\<close>

definition zero_info :: plugin_info where
  "zero_info = \<lparr>plugin_purpose = [], plugin_author = [], sup_opts_len = 0, sup_opts = []\<rparr>"

subsection \<open>What a plugin sees of the system\<close>

text \<open>
  A file as the calls on it answer: the errno with which \<^verbatim>\<open>open\<close>, \<^verbatim>\<open>fstat\<close> or \<^verbatim>\<open>mmap\<close>
  fails (\<open>None\<close> when it succeeds) and the contents. A process has its \<^verbatim>\<open>errno\<close>, the number
  of descriptors it holds open and the number of live mappings.
\<close>

record vfile =
  vf_open :: "int option"
  vf_fstat :: "int option"
  vf_mmap :: "int option"
  vf_data :: "byte list"

type_synonym vfs = "string \<Rightarrow> vfile"

record proc =
  p_errno :: int
  p_fds :: nat
  p_maps :: nat

definition open_fd :: "proc \<Rightarrow> proc" where
  "open_fd p = p\<lparr>p_fds := p_fds p + 1\<rparr>"

definition close_fd :: "proc \<Rightarrow> proc" where
  "close_fd p = p\<lparr>p_fds := p_fds p - 1\<rparr>"

definition map_file :: "proc \<Rightarrow> proc" where
  "map_file p = p\<lparr>p_maps := p_maps p + 1\<rparr>"

definition unmap_file :: "proc \<Rightarrow> proc" where
  "unmap_file p = p\<lparr>p_maps := p_maps p - 1\<rparr>"

definition set_errno :: "int \<Rightarrow> proc \<Rightarrow> proc" where
  "set_errno e p = p\<lparr>p_errno := e\<rparr>"

lemmas proc_ops = open_fd_def close_fd_def map_file_def unmap_file_def set_errno_def

text \<open>
  The common frame of the plugins after their argument checks: open the file, ask for its size, refuse
  an empty one. \<open>finish ret e\<close> is the code at label \<^verbatim>\<open>END\<close>: close the descriptor and set errno.
\<close>

definition finish :: "int \<Rightarrow> int \<Rightarrow> c_option list \<Rightarrow> proc \<Rightarrow> int \<times> c_option list \<times> proc" where
  "finish ret e os p = (ret, os, set_errno e (close_fd p))"

definition with_file ::
    "vfile \<Rightarrow> c_option list \<Rightarrow> proc \<Rightarrow> (proc \<Rightarrow> (int \<times> c_option list \<times> proc) cres) \<Rightarrow>
     (int \<times> c_option list \<times> proc) cres" where
  "with_file f os p body =
     (case vf_open f of
        Some e \<Rightarrow> Inr (-1, os, set_errno e p)
      | None \<Rightarrow>
        let p1 = open_fd p in
        (case vf_fstat f of
          Some e \<Rightarrow> Inr (finish (-1) e os p1)
        | None \<Rightarrow> if length (vf_data f) = 0 then Inr (finish (-1) ERANGE os p1) else body p1))"

text \<open>
  The two entry points. \<^verbatim>\<open>plugin_get_info\<close> takes a pointer that may be null;
  \<^verbatim>\<open>plugin_process_file\<close> may write into the option buffers it is given and changes the
  process, so it returns both with its result.
\<close>

type_synonym pgi_func_t = "plugin_info option \<Rightarrow> int \<times> plugin_info option"
type_synonym ppf_result = "int \<times> c_option list \<times> proc"
type_synonym ppf_func_t = "vfs \<Rightarrow> string \<Rightarrow> c_option list \<Rightarrow> proc \<Rightarrow> ppf_result cres"

text \<open>Files on which every call succeeds, a process and a file for concrete instances.\<close>

definition readable :: "vfile \<Rightarrow> bool" where
  "readable f \<longleftrightarrow> vf_open f = None \<and> vf_fstat f = None \<and> vf_mmap f = None \<and>
     vf_data f \<noteq> [] \<and> length (vf_data f) < 2 ^ 63"

definition proc0 :: proc where "proc0 = \<lparr>p_errno = 0, p_fds = 3, p_maps = 0\<rparr>"

definition plain_file :: "byte list \<Rightarrow> vfile" where
  "plain_file d = \<lparr>vf_open = None, vf_fstat = None, vf_mmap = None, vf_data = d\<rparr>"

lemma readable_plain_file [simp]: "readable (plain_file d) \<longleftrightarrow> d \<noteq> [] \<and> length d < 2 ^ 63"
  by (simp add: readable_def plain_file_def)

lemma vf_data_plain_file [simp]: "vf_data (plain_file d) = d"
  by (simp add: plain_file_def)

lemma with_file_readable: "readable f \<Longrightarrow> with_file f os p body = body (open_fd p)"
  by (simp add: with_file_def readable_def)

lemma with_file_cases:
  assumes "with_file f os p body = Inr (r, os', p')"
  obtains (failed) "r = -1" "os' = os" "p_fds p' = p_fds p" "p_maps p' = p_maps p"
  | (opened) "body (open_fd p) = Inr (r, os', p')"
  using assms
  by (auto simp: with_file_def finish_def proc_ops Let_def split: option.splits if_splits)

subsection \<open>The contract\<close>

text \<open>
  What the search program needs from \<^verbatim>\<open>plugin_process_file\<close>: one of the three answers, the
  same options by name, no mapping left behind, at most the one descriptor it opened left
  open, and none left open when it gives an answer.
\<close>

locale plugin_iface =
  fixes process :: ppf_func_t
  assumes ret_range: "process fs f os p = Inr (r, os', p') \<Longrightarrow> r = -1 \<or> r = 0 \<or> r = 1"
    and names_kept: "process fs f os p = Inr (r, os', p') \<Longrightarrow> map opt_name os' = map opt_name os"
    and maps_balanced: "process fs f os p = Inr (r, os', p') \<Longrightarrow> p_maps p' = p_maps p"
    and fds_bounds: "process fs f os p = Inr (r, os', p') \<Longrightarrow>
      p_fds p \<le> p_fds p' \<and> p_fds p' \<le> Suc (p_fds p)"
    and fds_balanced: "process fs f os p = Inr (r, os', p') \<Longrightarrow> 0 \<le> r \<Longrightarrow> p_fds p' = p_fds p"
begin

lemma length_kept: "process fs f os p = Inr (r, os', p') \<Longrightarrow> length os' = length os"
  by (metis length_map names_kept)

lemma answer_cases:
  assumes "process fs f os p = Inr (r, os', p')"
  obtains (error) "r = -1" | (answer) "r = 0 \<or> r = 1" "p_fds p' = p_fds p"
  using assms ret_range fds_balanced by (metis zero_le_one order_refl)

end

text \<open>
  A plugin that closes its descriptor on every path, so that errors leak nothing either.
\<close>

locale plugin_leak_free = plugin_iface +
  assumes fds_always: "process fs f os p = Inr (r, os', p') \<Longrightarrow> p_fds p' = p_fds p"

text \<open>
  A plugin that, asked with options in the set \<open>good\<close>, answers the question \<open>ans\<close> about every readable file.
  Processing may rewrite the options, but only into options that ask the same question; it leaves the process as it
  was, apart from errno.
\<close>

locale plugin_answers =
  fixes process :: ppf_func_t and good :: "c_option list \<Rightarrow> bool" and ans :: "string \<Rightarrow> vfile \<Rightarrow> bool"
  assumes asked: "good os \<Longrightarrow> os \<noteq> []"
    and answered: "good os \<Longrightarrow> readable (fs f) \<Longrightarrow>
      \<exists>os'. process fs f os p = Inr (if ans f (fs f) then 1 else 0, os', p\<lparr>p_errno := 0\<rparr>) \<and> good os'"
begin

lemma answered_twice:
  assumes "good os" and "readable (fs f)" and "readable (fs g)" and "process fs f os p = Inr (r, os', p')"
  shows "map_sum id fst (process fs g os' p') = map_sum id fst (process fs g os p)"
proof -
  have "good os'" using answered [where fs = fs and f = f, OF assms(1,2), of p] assms(4) by auto
  then obtain os2 where "process fs g os' p' = Inr (if ans g (fs g) then 1 else 0, os2, p'\<lparr>p_errno := 0\<rparr>)"
    using answered [where fs = fs and f = g, OF _ assms(3), of os' p'] by blast
  moreover obtain os3 where "process fs g os p = Inr (if ans g (fs g) then 1 else 0, os3, p\<lparr>p_errno := 0\<rparr>)"
    using answered [where fs = fs and f = g, OF assms(1,3), of p] by blast
  ultimately show ?thesis by simp
qed

end

text \<open>The same for \<^verbatim>\<open>plugin_get_info\<close>: it refuses a null pointer and otherwise fills in an array
  whose length field is its length.\<close>

locale plugin_describes =
  fixes get_info :: pgi_func_t
  assumes null_refused: "get_info None = (-1, None)"
    and info_filled: "\<exists>q. get_info (Some pi) = (0, Some q) \<and> sup_opts_len q = length (sup_opts q) \<and>
      0 < sup_opts_len q"
begin

lemma info_ok: "fst (get_info (Some pi)) = 0"
  using info_filled [of pi] by auto

end

end
