(* ===== verification/Dir_Search.thy ===== *)
theory Dir_Search
  imports Plugin_Api
begin

section \<open>The directory loops of the search program\<close>

text \<open>
  The functions of \<^verbatim>\<open>src/lab1nhhN3249/lab1nhhN3249.c\<close> below \<^verbatim>\<open>main\<close>: counting and opening the shared
  libraries of the plugin directory, and the recursive search that asks every plugin about every regular file.
  The directory tree is a finite value, so the recursion of \<^verbatim>\<open>search_dir\<close> is structural. Allocation is
  assumed to succeed; diagnostics under \<^verbatim>\<open>LAB1DEBUG\<close> and the texts of \<^verbatim>\<open>perror\<close> are left out.
\<close>

subsection \<open>Directories, libraries, program state\<close>

text \<open>A directory entry by its \<^verbatim>\<open>d_type\<close>; a directory carries its own listing, \<open>None\<close> when
  \<^verbatim>\<open>opendir\<close> fails on it.\<close>

datatype dirent = Reg string | Dir string "dirent list option" | Other string

text \<open>What \<^verbatim>\<open>dlopen\<close> gives: the two symbols the program asks for, each of which may be missing.\<close>

record so_image =
  so_get_info :: "pgi_func_t option"
  so_process :: "ppf_func_t option"

text \<open>\<^verbatim>\<open>struct lib\<close>. The first \<^verbatim>\<open>opts_to_pass_len\<close> entries of \<^verbatim>\<open>opts_to_pass\<close> are the list, the array
  has room for \<^verbatim>\<open>longopts_len\<close> of them.\<close>

record lib =
  opts_to_pass :: "c_option list"
  longopts :: "c_option list"
  longopts_len :: nat
  ppf_func :: ppf_func_t
  pgi_info :: pgi_func_t

subsection \<open>Paths\<close>

definition get_abs_path :: "nat \<Rightarrow> string \<Rightarrow> string \<Rightarrow> string cres" where
  "get_abs_path cap dir fname =
     bind_c (strcpy_c cap dir) (\<lambda>s1. bind_c (strcat_c cap s1 ''/'') (\<lambda>s2. strcat_c cap s2 fname))"

definition get_filename_ext :: "string \<Rightarrow> string" where
  "get_filename_ext filename = dot_ext filename"

definition is_lib :: "string \<Rightarrow> bool" where
  "is_lib filename \<longleftrightarrow> get_filename_ext filename = ''.so''"

text \<open>The stack buffer of \<^verbatim>\<open>count_so\<close> and the heap buffer of the two other directory loops.\<close>

definition SO_PATH_CAP :: nat where "SO_PATH_CAP = 255"
definition FILE_PATH_CAP :: nat where "FILE_PATH_CAP = PATH_MAX * 2"

subsection \<open>count_so and get_lib\<close>

fun count_so_loop :: "string \<Rightarrow> dirent list \<Rightarrow> nat \<Rightarrow> nat cres" where
  "count_so_loop folder [] count_lib = Inr count_lib"
| "count_so_loop folder (Reg nm # es) count_lib =
     bind_c (get_abs_path SO_PATH_CAP folder nm) (\<lambda>file_name0.
       count_so_loop folder es (if is_lib file_name0 then count_lib + 1 else count_lib))"
| "count_so_loop folder (_ # es) count_lib = count_so_loop folder es count_lib"

definition count_so :: "string \<Rightarrow> dirent list option \<Rightarrow> nat \<Rightarrow> nat cres" where
  "count_so folder listing count_lib = (case listing of
       None \<Rightarrow> Inr count_lib
     | Some es \<Rightarrow> count_so_loop folder es count_lib)"

text \<open>The array \<^verbatim>\<open>dl\<close> of handles, null until written; writing past its end is a fault.\<close>

fun get_lib_loop ::
    "(string \<Rightarrow> so_image option) \<Rightarrow> string \<Rightarrow> dirent list \<Rightarrow> nat \<Rightarrow> so_image option list \<Rightarrow>
     (int \<times> so_image option list) cres" where
  "get_lib_loop dlopen folder [] i dl = Inr (0, dl)"
| "get_lib_loop dlopen folder (Reg nm # es) i dl =
     bind_c (get_abs_path FILE_PATH_CAP folder nm) (\<lambda>file_name0.
       if is_lib file_name0 then
         if i < length dl then
           case dlopen file_name0 of
             None \<Rightarrow> Inr (-1, dl[i := None])
           | Some im \<Rightarrow> get_lib_loop dlopen folder es (i + 1) (dl[i := Some im])
         else Inl OutOfBounds
       else get_lib_loop dlopen folder es i dl)"
| "get_lib_loop dlopen folder (_ # es) i dl = get_lib_loop dlopen folder es i dl"

definition get_lib ::
    "(string \<Rightarrow> so_image option) \<Rightarrow> string \<Rightarrow> dirent list option \<Rightarrow> so_image option list \<Rightarrow>
     (int \<times> so_image option list) cres" where
  "get_lib dlopen folder listing dl = (case listing of
       None \<Rightarrow> Inr (-1, dl)
     | Some es \<Rightarrow> get_lib_loop dlopen folder es 0 dl)"

subsection \<open>Asking the plugins about a file\<close>

text \<open>
  The loop over the plugins in \<^verbatim>\<open>search_dir\<close>: only those with options are called. The result is the
  counters \<^verbatim>\<open>call\<close> and \<^verbatim>\<open>return_true\<close>, or \<open>None\<close> when a plugin failed and the function returned.
\<close>

fun call_plugins ::
    "vfs \<Rightarrow> string \<Rightarrow> lib list \<Rightarrow> nat \<Rightarrow> nat \<Rightarrow> proc \<Rightarrow> (lib list \<times> (nat \<times> nat) option \<times> proc) cres" where
  "call_plugins fs path [] call rt p = Inr ([], Some (call, rt), p)"
| "call_plugins fs path (l # ls) call rt p =
     (if 0 < length (opts_to_pass l) then
        bind_c (ppf_func l fs path (opts_to_pass l) p) (\<lambda>(ret, os', p').
          let l' = l\<lparr>opts_to_pass := os'\<rparr> in
          if ret < 0 then Inr (l' # ls, None, p')
          else bind_c (call_plugins fs path ls (call + 1) (if ret = 1 then rt + 1 else rt) p') (\<lambda>(ls', out, p'').
            Inr (l' # ls', out, p'')))
      else bind_c (call_plugins fs path ls call rt p) (\<lambda>(ls', out, p'). Inr (l # ls', out, p')))"

text \<open>The chain of conditions that decides whether a file is reported.\<close>

definition reported :: "bool \<Rightarrow> bool \<Rightarrow> bool \<Rightarrow> nat \<Rightarrow> nat \<Rightarrow> bool" where
  "reported aflag oflag nflag call return_true \<longleftrightarrow>
     call \<noteq> 0 \<and>
     (if aflag \<and> return_true = call then True
      else if aflag \<and> nflag \<and> return_true < call then True
      else if oflag \<and> 0 < return_true then True
      else if oflag \<and> nflag \<and> return_true = 0 then True
      else \<not> aflag \<and> \<not> oflag \<and> \<not> aflag \<and> return_true = 1)"

subsection \<open>search_dir\<close>

record search_state =
  ss_libs :: "lib list"
  ss_proc :: proc
  ss_count :: nat
  ss_out :: "string list"

record search_env =
  se_vfs :: vfs
  se_aflag :: bool
  se_oflag :: bool
  se_nflag :: bool

definition on_proc :: "(proc \<Rightarrow> proc) \<Rightarrow> search_state \<Rightarrow> search_state" where
  "on_proc f st = st\<lparr>ss_proc := f (ss_proc st)\<rparr>"

text \<open>One regular file. The flag says whether the directory loop goes on.\<close>

definition search_file :: "search_env \<Rightarrow> string \<Rightarrow> search_state \<Rightarrow> (bool \<times> search_state) cres" where
  "search_file env file_name0 st =
     bind_c (call_plugins (se_vfs env) file_name0 (ss_libs st) 0 0 (set_errno 0 (ss_proc st)))
       (\<lambda>(libs', out, p'). case out of
          None \<Rightarrow> Inr (False, st\<lparr>ss_libs := libs', ss_proc := p'\<rparr>)
        | Some (call, return_true) \<Rightarrow>
            let st' = st\<lparr>ss_libs := libs', ss_proc := p'\<rparr> in
            if reported (se_aflag env) (se_oflag env) (se_nflag env) call return_true
            then Inr (True, st'\<lparr>ss_count := ss_count st' + 1, ss_out := ss_out st' @ [file_name0]\<rparr>)
            else Inr (True, st'))"

text \<open>
  The \<^verbatim>\<open>readdir\<close> loop of a directory. A subdirectory is searched with \<^verbatim>\<open>search_dir\<close>: \<^verbatim>\<open>opendir\<close>
  takes a descriptor, which \<^verbatim>\<open>closedir\<close> gives back when the loop ends and which the early return keeps.
\<close>

fun search_entries :: "search_env \<Rightarrow> string \<Rightarrow> dirent list \<Rightarrow> search_state \<Rightarrow> (bool \<times> search_state) cres" where
  "search_entries env folder [] st = Inr (True, st)"
| "search_entries env folder (Reg nm # es) st =
     bind_c (get_abs_path FILE_PATH_CAP folder nm) (\<lambda>file_name0.
     bind_c (search_file env file_name0 st) (\<lambda>(go, st').
       if go then search_entries env folder es st' else Inr (False, st')))"
| "search_entries env folder (Dir nm sub # es) st =
     (if nm \<noteq> ''.'' \<and> nm \<noteq> ''..'' then
        bind_c (get_abs_path FILE_PATH_CAP folder nm) (\<lambda>file_name0.
        bind_c (case sub of
            None \<Rightarrow> Inr (on_proc (set_errno EXIT_FAILURE) st)
          | Some es' \<Rightarrow> bind_c (search_entries env file_name0 es' (on_proc open_fd st))
              (\<lambda>(go, st'). Inr (if go then on_proc close_fd st' else st')))
          (\<lambda>st'. search_entries env folder es st'))
      else search_entries env folder es st)"
| "search_entries env folder (Other nm # es) st = search_entries env folder es st"

definition search_dir :: "search_env \<Rightarrow> string \<Rightarrow> dirent list option \<Rightarrow> search_state \<Rightarrow> search_state cres" where
  "search_dir env folder listing st = (case listing of
       None \<Rightarrow> Inr (on_proc (set_errno EXIT_FAILURE) st)
     | Some es \<Rightarrow> bind_c (search_entries env folder es (on_proc open_fd st))
         (\<lambda>(go, st'). Inr (if go then on_proc close_fd st' else st')))"

lemma search_entries_Dir:
  "search_entries env folder (Dir nm sub # es) st =
     (if nm \<noteq> ''.'' \<and> nm \<noteq> ''..'' then
        bind_c (get_abs_path FILE_PATH_CAP folder nm) (\<lambda>file_name0.
        bind_c (search_dir env file_name0 sub st) (search_entries env folder es))
      else search_entries env folder es st)"
  by (simp add: search_dir_def)

subsection \<open>Paths and extensions\<close>

lemma get_abs_path_eq:
  "get_abs_path cap dir fname =
     (if length dir + length fname + 1 < cap then Inr (dir @ ''/'' @ fname) else Inl BufferOverflow)"
  by (auto simp: get_abs_path_def strcpy_c_def strcat_c_def)

lemma is_lib_iff: "is_lib path \<longleftrightarrow> (\<exists>q. q \<noteq> [] \<and> path = q @ ''.so'')"
  using dot_ext_eq_iff [of "''so''" path] by (simp add: is_lib_def get_filename_ext_def)

text \<open>The paths of the regular files directly in a directory, and those of the libraries.\<close>

fun reg_paths :: "string \<Rightarrow> dirent list \<Rightarrow> string list" where
  "reg_paths folder [] = []"
| "reg_paths folder (Reg nm # es) = (folder @ ''/'' @ nm) # reg_paths folder es"
| "reg_paths folder (_ # es) = reg_paths folder es"

definition so_paths :: "string \<Rightarrow> dirent list \<Rightarrow> string list" where
  "so_paths folder es = filter is_lib (reg_paths folder es)"

lemma so_paths_simps [simp]:
  "so_paths folder [] = []"
  "so_paths folder (Reg nm # es) =
     (if is_lib (folder @ ''/'' @ nm) then [folder @ ''/'' @ nm] else []) @ so_paths folder es"
  "so_paths folder (Dir nm sub # es) = so_paths folder es"
  "so_paths folder (Other nm # es) = so_paths folder es"
  by (simp_all add: so_paths_def)

subsection \<open>Counting and opening the libraries\<close>

lemma count_so_loop_eq:
  "count_so_loop folder es k =
     (if list_all (\<lambda>path. length path < SO_PATH_CAP) (reg_paths folder es)
      then Inr (k + length (so_paths folder es)) else Inl BufferOverflow)"
  by (induction folder es k rule: count_so_loop.induct) (auto simp: get_abs_path_eq)

lemma get_lib_loop_eq:
  assumes "list_all (\<lambda>path. length path < FILE_PATH_CAP) (reg_paths folder es)"
    and "i + length (so_paths folder es) \<le> length dl"
  shows "\<exists>r dl'. get_lib_loop dlopen folder es i dl = Inr (r, dl') \<and> length dl' = length dl \<and>
    (if list_all (\<lambda>path. dlopen path \<noteq> None) (so_paths folder es)
     then r = 0 \<and> dl' = take i dl @ map dlopen (so_paths folder es) @ drop (i + length (so_paths folder es)) dl
     else r = -1)"
  using assms
proof (induction dlopen folder es i dl rule: get_lib_loop.induct)
  case (2 dlopen folder nm es i dl)
  show ?case
  proof (cases "is_lib (folder @ ''/'' @ nm)")
    case False
    then show ?thesis using 2(2) [of "folder @ ''/'' @ nm"] 2(3,4) by (auto simp: get_abs_path_eq split: if_splits)
  next
    case True
    show ?thesis
    proof (cases "dlopen (folder @ ''/'' @ nm)")
      case None
      then show ?thesis using 2(3,4) True by (simp add: get_abs_path_eq)
    next
      case (Some im)
      have lt: "i < length dl" using 2(4) True by simp
      then have "take (Suc i) (dl[i := Some im]) = take i dl @ [Some im]"
        by (simp add: take_Suc_conv_app_nth)
      then show ?thesis
        using 2(1) [of "folder @ ''/'' @ nm" im] 2(3,4) True Some lt by (auto simp: get_abs_path_eq split: if_splits)
    qed
  qed
qed (auto split: if_splits)

lemma FILE_PATH_CAP_ge: "SO_PATH_CAP \<le> FILE_PATH_CAP"
  by (simp add: SO_PATH_CAP_def FILE_PATH_CAP_def c_limits)

lemma get_lib_after_count:
  assumes "count_so folder listing 0 = Inr n"
  shows "\<exists>r dl. get_lib dlopen folder listing (replicate n None) = Inr (r, dl) \<and> length dl = n \<and>
    (\<forall>es. listing = Some es \<and> list_all (\<lambda>path. dlopen path \<noteq> None) (so_paths folder es) \<longrightarrow>
      r = 0 \<and> dl = map dlopen (so_paths folder es))"
proof (cases listing)
  case None
  with assms show ?thesis by (simp add: count_so_def get_lib_def)
next
  case (Some es)
  with assms have short: "list_all (\<lambda>path. length path < SO_PATH_CAP) (reg_paths folder es)"
    and n: "n = length (so_paths folder es)"
    by (auto simp: count_so_def count_so_loop_eq split: if_splits)
  have "list_all (\<lambda>path. length path < FILE_PATH_CAP) (reg_paths folder es)"
    using short FILE_PATH_CAP_ge by (auto simp: list_all_iff)
  then show ?thesis
    using get_lib_loop_eq [of folder es 0 "replicate n None" dlopen] n Some by (auto simp: get_lib_def split: if_splits)
qed

subsection \<open>The files of a tree\<close>

text \<open>
  The specification of the search: the regular files of the tree in the order in which \<^verbatim>\<open>readdir\<close> gives
  them, directories expanded in place, and the directories that are entered.
\<close>

fun files :: "string \<Rightarrow> dirent list \<Rightarrow> string list" where
  "files folder [] = []"
| "files folder (Reg nm # es) = (folder @ ''/'' @ nm) # files folder es"
| "files folder (Dir nm sub # es) =
     (if nm \<noteq> ''.'' \<and> nm \<noteq> ''..'' then
        (case sub of None \<Rightarrow> [] | Some es' \<Rightarrow> files (folder @ ''/'' @ nm) es')
      else []) @ files folder es"
| "files folder (Other nm # es) = files folder es"

fun paths_fit :: "string \<Rightarrow> dirent list \<Rightarrow> bool" where
  "paths_fit folder [] = True"
| "paths_fit folder (Reg nm # es) \<longleftrightarrow> length (folder @ ''/'' @ nm) < FILE_PATH_CAP \<and> paths_fit folder es"
| "paths_fit folder (Dir nm sub # es) \<longleftrightarrow>
     (nm \<noteq> ''.'' \<and> nm \<noteq> ''..'' \<longrightarrow> length (folder @ ''/'' @ nm) < FILE_PATH_CAP \<and>
        (case sub of None \<Rightarrow> True | Some es' \<Rightarrow> paths_fit (folder @ ''/'' @ nm) es')) \<and> paths_fit folder es"
| "paths_fit folder (Other nm # es) = paths_fit folder es"

subsection \<open>Every search, whatever the plugins do\<close>

text \<open>
  Counter and output stay in step, and the new output is a subsequence of the files of the tree: nothing is
  reported twice or out of order.
\<close>

definition grows :: "search_state \<Rightarrow> search_state \<Rightarrow> string list \<Rightarrow> bool" where
  "grows st st' fs \<longleftrightarrow> (\<exists>new. ss_out st' = ss_out st @ new \<and> ss_count st' = ss_count st + length new \<and> subseq new fs)"

lemma grows_refl [simp, intro]: "grows st st fs"
  by (auto simp: grows_def intro: exI [of _ "[]"])

lemma grows_trans: "grows st st' fs \<Longrightarrow> grows st' st'' gs \<Longrightarrow> grows st st'' (fs @ gs)"
  unfolding grows_def by (metis (no_types, lifting) add.assoc append.assoc length_append list_emb_append_mono)

lemma grows_more: "grows st st' fs \<Longrightarrow> grows st st' (fs @ gs)"
  using grows_trans [of st st' fs st' gs] by simp

lemma grows_on_proc [simp]: "grows st (on_proc h st') fs \<longleftrightarrow> grows st st' fs" "grows (on_proc h st) st' fs \<longleftrightarrow> grows st st' fs"
  by (simp_all add: grows_def on_proc_def)

lemma search_file_grows: "search_file env path st = Inr (go, st') \<Longrightarrow> grows st st' [path]"
proof -
  assume run: "search_file env path st = Inr (go, st')"
  obtain libs' out p' where "call_plugins (se_vfs env) path (ss_libs st) 0 0 (set_errno 0 (ss_proc st)) = Inr (libs', out, p')"
    using run by (auto simp: search_file_def)
  with run show ?thesis
    by (cases out) (auto simp: search_file_def grows_def Let_def intro: exI [of _ "[]"] split: if_splits)
qed

lemma search_dir_grows:
  assumes "\<And>es st go st'. listing = Some es \<Longrightarrow> search_entries env folder es st = Inr (go, st') \<Longrightarrow> grows st st' (files folder es)"
    and "search_dir env folder listing st = Inr st'"
  shows "grows st st' (case listing of None \<Rightarrow> [] | Some es \<Rightarrow> files folder es)"
  using assms(2) by (auto simp: search_dir_def split: option.splits dest!: assms(1))

lemma search_entries_grows: "search_entries env folder es st = Inr (go, st') \<Longrightarrow> grows st st' (files folder es)"
proof (induction folder es arbitrary: st go st' rule: files.induct)
  case (2 folder nm es)
  then obtain go1 st1 where one: "search_file env (folder @ ''/'' @ nm) st = Inr (go1, st1)"
    and rest: "(if go1 then search_entries env folder es st1 else Inr (False, st1)) = Inr (go, st')"
    by (auto simp: get_abs_path_eq split: if_splits)
  have "grows st1 st' (files folder es)" using rest by (cases go1) (auto intro: 2(1))
  with search_file_grows [OF one] show ?case using grows_trans by fastforce
next
  case (3 folder nm sub es)
  let ?path = "folder @ ''/'' @ nm"
  show ?case
  proof (cases "nm \<noteq> ''.'' \<and> nm \<noteq> ''..''")
    case False
    then show ?thesis using 3 by auto
  next
    case True
    with 3(3) obtain st1 where sub: "search_dir env ?path sub st = Inr st1"
      and rest: "search_entries env folder es st1 = Inr (go, st')"
      by (auto simp: search_entries_Dir get_abs_path_eq simp del: search_entries.simps split: if_splits)
    have "grows st st1 (case sub of None \<Rightarrow> [] | Some es' \<Rightarrow> files ?path es')"
      using sub by (rule search_dir_grows [rotated]) (use 3(1) True in blast)
    moreover have "grows st1 st' (files folder es)" using rest by (rule 3(2))
    ultimately show ?thesis using True grows_trans by fastforce
  qed
qed auto

subsection \<open>Searches with plugins that keep the contract\<close>

text \<open>
  Between two states of a search: the same plugins in the same order, with options of the same names, no mapping
  gained or lost, and no descriptor closed that was open before.
\<close>

definition same_lib :: "lib \<Rightarrow> lib \<Rightarrow> bool" where
  "same_lib l l' \<longleftrightarrow> ppf_func l' = ppf_func l \<and> longopts l' = longopts l \<and>
     map opt_name (opts_to_pass l') = map opt_name (opts_to_pass l)"

definition keeps :: "lib list \<times> proc \<Rightarrow> lib list \<times> proc \<Rightarrow> bool" where
  "keeps a b \<longleftrightarrow> list_all2 same_lib (fst a) (fst b) \<and> p_maps (snd b) = p_maps (snd a) \<and> p_fds (snd a) \<le> p_fds (snd b)"

abbreviation ss_view :: "search_state \<Rightarrow> lib list \<times> proc" where
  "ss_view st \<equiv> (ss_libs st, ss_proc st)"

definition contract_libs :: "lib list \<Rightarrow> bool" where
  "contract_libs ls \<longleftrightarrow> (\<forall>l \<in> set ls. plugin_iface (ppf_func l))"

lemma same_lib_refl [simp]: "same_lib l l"
  by (simp add: same_lib_def)

lemma keeps_refl [simp]: "keeps a a"
  by (simp add: keeps_def list_all2_refl)

lemma keeps_trans: "keeps a b \<Longrightarrow> keeps b c \<Longrightarrow> keeps a c"
  by (simp add: keeps_def same_lib_def list_all2_conv_all_nth)

lemma keeps_contract: "keeps a b \<Longrightarrow> contract_libs (fst a) \<Longrightarrow> contract_libs (fst b)"
  by (fastforce simp: keeps_def contract_libs_def same_lib_def all_set_conv_all_nth list_all2_conv_all_nth)

lemma call_plugins_keeps:
  "call_plugins fs path ls c rt p = Inr (ls', out, p') \<Longrightarrow> contract_libs ls \<Longrightarrow> keeps (ls, p) (ls', p')"
proof (induction ls arbitrary: c rt p ls' out p')
  case (Cons l ls)
  have rest: "contract_libs ls" using Cons.prems(2) by (simp add: contract_libs_def)
  show ?case
  proof (cases "opts_to_pass l = []")
    case True
    with Cons.prems(1) obtain ls1 where "call_plugins fs path ls c rt p = Inr (ls1, out, p')" and "ls' = l # ls1"
      by auto
    then show ?thesis using Cons.IH [OF _ rest] by (fastforce simp: keeps_def)
  next
    case False
    with Cons.prems(1) obtain ret os1 p1 where call: "ppf_func l fs path (opts_to_pass l) p = Inr (ret, os1, p1)"
      by auto
    have "plugin_iface (ppf_func l)" using Cons.prems(2) by (simp add: contract_libs_def)
    then have first: "same_lib l (l\<lparr>opts_to_pass := os1\<rparr>)" "p_maps p1 = p_maps p" "p_fds p \<le> p_fds p1"
      using plugin_iface.names_kept plugin_iface.maps_balanced plugin_iface.fds_bounds call
      by (fastforce simp: same_lib_def)+
    show ?thesis
    proof (cases "ret < 0")
      case True
      then show ?thesis using Cons.prems(1) False call first by (auto simp: keeps_def list_all2_refl)
    next
      case pos: False
      with Cons.prems(1) False call obtain ls1 where
        "call_plugins fs path ls (c + 1) (if ret = 1 then rt + 1 else rt) p1 = Inr (ls1, out, p')"
        and "ls' = l\<lparr>opts_to_pass := os1\<rparr> # ls1" by (auto simp: Let_def)
      then show ?thesis using Cons.IH [OF _ rest] first by (fastforce simp: keeps_def)
    qed
  qed
qed simp

lemma search_file_keeps:
  assumes "search_file env path st = Inr (go, st')" and "contract_libs (ss_libs st)"
  shows "keeps (ss_view st) (ss_view st')"
proof -
  obtain libs' out p' where run: "call_plugins (se_vfs env) path (ss_libs st) 0 0 (set_errno 0 (ss_proc st)) = Inr (libs', out, p')"
    using assms(1) by (auto simp: search_file_def)
  have "ss_view st' = (libs', p')"
    using assms(1) run by (cases out) (auto simp: search_file_def Let_def split: if_splits)
  then show ?thesis using call_plugins_keeps [OF run assms(2)] by (simp add: keeps_def set_errno_def)
qed

lemma search_dir_keeps:
  assumes "\<And>es st go st'. listing = Some es \<Longrightarrow> search_entries env folder es st = Inr (go, st') \<Longrightarrow>
      contract_libs (ss_libs st) \<Longrightarrow> keeps (ss_view st) (ss_view st')"
    and "search_dir env folder listing st = Inr st'" and "contract_libs (ss_libs st)"
  shows "keeps (ss_view st) (ss_view st')"
proof (cases listing)
  case None
  then show ?thesis using assms(2) by (auto simp: search_dir_def on_proc_def set_errno_def keeps_def list_all2_refl)
next
  case (Some es)
  with assms(2) obtain go st1 where run: "search_entries env folder es (on_proc open_fd st) = Inr (go, st1)"
    and st': "st' = (if go then on_proc close_fd st1 else st1)" by (auto simp: search_dir_def)
  have "keeps (ss_view (on_proc open_fd st)) (ss_view st1)"
    using Some run by (rule assms(1)) (simp add: on_proc_def assms(3))
  then show ?thesis using st' by (auto simp: keeps_def on_proc_def proc_ops)
qed

lemma search_entries_keeps:
  "search_entries env folder es st = Inr (go, st') \<Longrightarrow> contract_libs (ss_libs st) \<Longrightarrow> keeps (ss_view st) (ss_view st')"
proof (induction folder es arbitrary: st go st' rule: files.induct)
  case (2 folder nm es)
  then obtain go1 st1 where one: "search_file env (folder @ ''/'' @ nm) st = Inr (go1, st1)"
    and rest: "(if go1 then search_entries env folder es st1 else Inr (False, st1)) = Inr (go, st')"
    by (auto simp: get_abs_path_eq split: if_splits)
  have first: "keeps (ss_view st) (ss_view st1)" using one 2(3) by (rule search_file_keeps)
  then have "contract_libs (ss_libs st1)" using keeps_contract [OF first] 2(3) by simp
  then have "keeps (ss_view st1) (ss_view st')" using rest by (cases go1) (auto intro: 2(1))
  with first show ?case by (rule keeps_trans)
next
  case (3 folder nm sub es)
  let ?path = "folder @ ''/'' @ nm"
  show ?case
  proof (cases "nm \<noteq> ''.'' \<and> nm \<noteq> ''..''")
    case False
    then show ?thesis using 3 by auto
  next
    case True
    with 3(3) obtain st1 where sub: "search_dir env ?path sub st = Inr st1"
      and rest: "search_entries env folder es st1 = Inr (go, st')"
      by (auto simp: search_entries_Dir get_abs_path_eq simp del: search_entries.simps split: if_splits)
    have first: "keeps (ss_view st) (ss_view st1)"
      using _ sub 3(4) by (rule search_dir_keeps) (use 3(1) True in blast)
    then have "contract_libs (ss_libs st1)" using keeps_contract [OF first] 3(4) by simp
    then have "keeps (ss_view st1) (ss_view st')" using rest by (intro 3(2))
    with first show ?thesis by (rule keeps_trans)
  qed
qed auto

subsection \<open>Searches with plugins that answer\<close>

text \<open>
  What each plugin is asked: nothing when it was given no options, otherwise a question about the path and the file.
  \<open>selected\<close> is the specification of a report: the questions that hold are counted and the flags decide.
\<close>

type_synonym question = "string \<Rightarrow> vfile \<Rightarrow> bool"

definition queried :: "lib \<Rightarrow> question option \<Rightarrow> bool" where
  "queried l q = (case q of
       None \<Rightarrow> opts_to_pass l = []
     | Some ans \<Rightarrow> \<exists>good. plugin_answers (ppf_func l) good ans \<and> good (opts_to_pass l))"

definition questions :: "question option list \<Rightarrow> question list" where
  "questions qs = List.map_filter id qs"

definition selected :: "search_env \<Rightarrow> question option list \<Rightarrow> string \<Rightarrow> bool" where
  "selected env qs path = reported (se_aflag env) (se_oflag env) (se_nflag env) (length (questions qs))
     (length (filter (\<lambda>ans. ans path (se_vfs env path)) (questions qs)))"

lemma questions_simps [simp]:
  "questions [] = []" "questions (None # qs) = questions qs" "questions (Some a # qs) = a # questions qs"
  by (simp_all add: questions_def List.map_filter_simps)

lemma queried_intro: "plugin_answers (ppf_func l) good ans \<Longrightarrow> good (opts_to_pass l) \<Longrightarrow> queried l (Some ans)"
  by (auto simp: queried_def)

lemma queried_step:
  assumes "queried l (Some ans)" and "readable (fs path)"
  shows "\<exists>os'. ppf_func l fs path (opts_to_pass l) p = Inr (if ans path (fs path) then 1 else 0, os', p\<lparr>p_errno := 0\<rparr>) \<and>
    queried (l\<lparr>opts_to_pass := os'\<rparr>) (Some ans) \<and> opts_to_pass l \<noteq> []"
proof -
  from assms(1) obtain good where pa: "plugin_answers (ppf_func l) good ans" and "good (opts_to_pass l)"
    by (auto simp: queried_def)
  with plugin_answers.answered [OF pa this(2), of fs path p, OF assms(2)] plugin_answers.asked [OF pa]
  show ?thesis by (auto simp: queried_def)
qed

lemma call_plugins_answer:
  assumes "list_all2 queried ls qs" and "readable (fs path)"
  shows "\<exists>ls'. call_plugins fs path ls c rt p = Inr (ls',
      Some (c + length (questions qs), rt + length (filter (\<lambda>ans. ans path (fs path)) (questions qs))),
      if questions qs = [] then p else p\<lparr>p_errno := 0\<rparr>) \<and> list_all2 queried ls' qs"
  using assms(1)
proof (induction ls qs arbitrary: c rt p rule: list_all2_induct)
  case (Cons l ls q qs)
  show ?case
  proof (cases q)
    case None
    with Cons(1) have "opts_to_pass l = []" by (simp add: queried_def)
    with None Cons(1) Cons(3) [of c rt p] show ?thesis by auto
  next
    case (Some ans)
    obtain os' where "ppf_func l fs path (opts_to_pass l) p = Inr (if ans path (fs path) then 1 else 0, os', p\<lparr>p_errno := 0\<rparr>)"
      and "queried (l\<lparr>opts_to_pass := os'\<rparr>) (Some ans)" and "opts_to_pass l \<noteq> []"
      using queried_step [of l ans fs path p] Cons(1) Some assms(2) by blast
    with Some Cons(3) [of "Suc c" "if ans path (fs path) then Suc rt else rt" "p\<lparr>p_errno := 0\<rparr>"]
    show ?thesis by (cases "ans path (fs path)") (auto simp: Let_def)
  qed
qed simp

text \<open>The state after a search that found \<open>new\<close>, up to errno and the rewriting of options.\<close>

definition answered_state :: "question option list \<Rightarrow> search_state \<Rightarrow> string list \<Rightarrow> search_state \<Rightarrow> bool" where
  "answered_state qs st new st' \<longleftrightarrow> list_all2 queried (ss_libs st') qs \<and> ss_out st' = ss_out st @ new \<and>
     ss_count st' = ss_count st + length new \<and> p_fds (ss_proc st') = p_fds (ss_proc st) \<and>
     p_maps (ss_proc st') = p_maps (ss_proc st)"

lemma answered_state_trans:
  "answered_state qs st a st1 \<Longrightarrow> answered_state qs st1 b st2 \<Longrightarrow> answered_state qs st (a @ b) st2"
  by (simp add: answered_state_def)

lemma search_file_answer:
  assumes "list_all2 queried (ss_libs st) qs" and "readable (se_vfs env path)"
  shows "\<exists>st'. search_file env path st = Inr (True, st') \<and> answered_state qs st (filter (selected env qs) [path]) st'"
proof -
  obtain ls' where "call_plugins (se_vfs env) path (ss_libs st) 0 0 (set_errno 0 (ss_proc st)) = Inr (ls',
      Some (length (questions qs), length (filter (\<lambda>ans. ans path (se_vfs env path)) (questions qs))),
      if questions qs = [] then set_errno 0 (ss_proc st) else (set_errno 0 (ss_proc st))\<lparr>p_errno := 0\<rparr>)"
    and "list_all2 queried ls' qs"
    using call_plugins_answer [where fs = "se_vfs env" and path = path and c = 0 and rt = 0
        and p = "set_errno 0 (ss_proc st)", OF assms] by auto
  then show ?thesis
    by (simp add: search_file_def answered_state_def selected_def Let_def set_errno_def)
qed

lemma search_dir_answered:
  assumes "search_entries env folder es (on_proc open_fd st) = Inr (True, st1)"
    and "answered_state qs (on_proc open_fd st) new st1"
  shows "search_dir env folder (Some es) st = Inr (on_proc close_fd st1)"
    and "answered_state qs st new (on_proc close_fd st1)"
  using assms by (simp_all add: search_dir_def answered_state_def on_proc_def proc_ops)

lemma search_entries_answer:
  assumes "list_all2 queried (ss_libs st) qs" and "paths_fit folder es"
    and "\<forall>path \<in> set (files folder es). readable (se_vfs env path)"
  shows "\<exists>st'. search_entries env folder es st = Inr (True, st') \<and>
    answered_state qs st (filter (selected env qs) (files folder es)) st'"
  using assms
proof (induction folder es arbitrary: st rule: files.induct)
  case (2 folder nm es)
  let ?path = "folder @ ''/'' @ nm"
  obtain st1 where one: "search_file env ?path st = Inr (True, st1)"
    and a1: "answered_state qs st (filter (selected env qs) [?path]) st1"
    using search_file_answer [OF 2(2), of env ?path] 2(4) by auto
  then obtain st2 where "search_entries env folder es st1 = Inr (True, st2)"
    and a2: "answered_state qs st1 (filter (selected env qs) (files folder es)) st2"
    using 2(1) [of st1] 2(3,4) by (auto simp: answered_state_def)
  then show ?case
    using one answered_state_trans [OF a1 a2] 2(3) by (simp add: get_abs_path_eq split: if_splits)
next
  case (3 folder nm sub es)
  let ?path = "folder @ ''/'' @ nm"
  show ?case
  proof (cases "nm \<noteq> ''.'' \<and> nm \<noteq> ''..''")
    case False
    then have "search_entries env folder (Dir nm sub # es) st = search_entries env folder es st"
      and "files folder (Dir nm sub # es) = files folder es" by auto
    then show ?thesis using 3(2) [OF 3(3)] 3(4,5) by (metis paths_fit.simps(3))
  next
    case True
    let ?sub = "case sub of None \<Rightarrow> [] | Some es' \<Rightarrow> files ?path es'"
    have "\<exists>st1. search_dir env ?path sub st = Inr st1 \<and> answered_state qs st (filter (selected env qs) ?sub) st1"
    proof (cases sub)
      case None
      then show ?thesis using 3(3) by (simp add: search_dir_def answered_state_def on_proc_def set_errno_def)
    next
      case (Some es')
      then obtain st1 where "search_entries env ?path es' (on_proc open_fd st) = Inr (True, st1)"
        "answered_state qs (on_proc open_fd st) (filter (selected env qs) (files ?path es')) st1"
        using 3(1) [of es' "on_proc open_fd st"] 3(3,4,5) True by (auto simp: on_proc_def)
      then show ?thesis using Some search_dir_answered [of env ?path es' st st1] by auto
    qed
    then obtain st1 where run: "search_dir env ?path sub st = Inr st1"
      and a1: "answered_state qs st (filter (selected env qs) ?sub) st1" by blast
    have "list_all2 queried (ss_libs st1) qs" using a1 by (simp add: answered_state_def)
    moreover have "paths_fit folder es" using 3(4) by (simp only: paths_fit.simps)
    moreover have "\<forall>path \<in> set (files folder es). readable (se_vfs env path)"
      using 3(5) unfolding files.simps set_append ball_Un by blast
    ultimately obtain st2 where "search_entries env folder es st1 = Inr (True, st2)"
      and a2: "answered_state qs st1 (filter (selected env qs) (files folder es)) st2"
      using 3(2) by blast
    then show ?thesis
      using run answered_state_trans [OF a1 a2] 3(4) True
      by (simp add: search_entries_Dir get_abs_path_eq del: search_entries.simps)
  qed
qed (auto simp: answered_state_def)

lemma search_dir_answer:
  assumes "list_all2 queried (ss_libs st) qs" and "paths_fit folder es"
    and "\<forall>path \<in> set (files folder es). readable (se_vfs env path)"
  shows "\<exists>st'. search_dir env folder (Some es) st = Inr st' \<and>
    answered_state qs st (filter (selected env qs) (files folder es)) st'"
proof -
  have "list_all2 queried (ss_libs (on_proc open_fd st)) qs" using assms(1) by (simp add: on_proc_def)
  from search_entries_answer [OF this assms(2,3)] search_dir_answered show ?thesis by blast
qed

subsection \<open>Properties\<close>





text \<open>
  After a successful count of the libraries in a directory, opening them never writes outside the handle array,
  and when every library opens, the array holds exactly their handles in directory order.
\<close>

theorem get_lib_in_bounds:
  assumes "count_so folder (Some es) 0 = Inr n"
  shows "\<exists>r dl. get_lib dlopen folder (Some es) (replicate n None) = Inr (r, dl) \<and> length dl = n \<and>
    ((\<forall>path \<in> set (so_paths folder es). dlopen path \<noteq> None) \<longrightarrow> r = 0 \<and> dl = map dlopen (so_paths folder es))"
  using get_lib_after_count [OF assms, of dlopen] by (simp add: list_all_iff)

theorem get_lib_in_bounds_witness:
  "\<exists>r dl. get_lib (\<lambda>_. None) ''d'' (Some [Reg ''a.so'', Reg ''b'']) [None] = Inr (r, dl) \<and> length dl = 1"
  using get_lib_in_bounds [of "''d''" "[Reg ''a.so'', Reg ''b'']" 1 "\<lambda>_. None"]
  by (simp add: count_so_def get_abs_path_eq SO_PATH_CAP_def is_lib_def get_filename_ext_def dot_ext_def strrchr_c_def)

text \<open>
  Counting the libraries overruns its 255-byte stack buffer exactly when the directory has a regular file whose
  path, with the plugin directory in front, has 255 characters or more; otherwise the count is the number of regular
  files with the extension \<^verbatim>\<open>.so\<close>.
\<close>

theorem count_so_behaviour:
  "count_so folder (Some es) k =
     (if \<exists>path \<in> set (reg_paths folder es). 255 \<le> length path then Inl BufferOverflow
      else Inr (k + length (filter (\<lambda>path. \<exists>q. q \<noteq> [] \<and> path = q @ ''.so'') (reg_paths folder es))))"
  unfolding is_lib_iff [symmetric]
  by (auto simp: count_so_def count_so_loop_eq SO_PATH_CAP_def so_paths_def list_all_iff not_less)

text \<open>
  Which files the flags select, as the code decides it, when \<open>c\<close> plugins were asked and \<open>k\<close> of them said yes:
  \<^verbatim>\<open>-A\<close> all of them, \<^verbatim>\<open>-O\<close> one of them, both flags either; with \<^verbatim>\<open>-N\<close> beside \<^verbatim>\<open>-A\<close> or \<^verbatim>\<open>-O\<close> every
  file, the inversion of neither; with no flag or \<^verbatim>\<open>-N\<close> alone exactly one plugin must say yes, so that the default is
  not the conjunction.
\<close>

theorem reported_by_flags:
  assumes "k \<le> c" and "0 < c"
  shows "(reported True False False c k \<longleftrightarrow> k = c) \<and> (reported False True False c k \<longleftrightarrow> 0 < k) \<and>
    (reported True True False c k \<longleftrightarrow> 0 < k) \<and> reported True o1 True c k \<and> reported a True True c k \<and>
    (reported False False n c k \<longleftrightarrow> k = 1)"
  using assms by (auto simp: reported_def)

theorem reported_by_flags_witness:
  "reported True False False 2 2 \<and> \<not> reported True False False 2 1 \<and> reported True False True 2 1 \<and>
   reported True False True 2 2 \<and> \<not> reported False False False 2 2 \<and> reported False True False 2 1 \<and> reported True True False 2 1"
  using reported_by_flags [of 2 2] reported_by_flags [of 1 2] by simp

end
