(* ===== verification/Getopt.thy ===== *)
theory Getopt
  imports Plugin_Api
begin

section \<open>Option scanning with getopt and getopt_long_only\<close>

text \<open>
  The two calls of \<^verbatim>\<open>lab1nhhN3249.c\<close> on the argument vector, as the GNU C library documents them. The
  short-option call uses the string \<^verbatim>\<open>-AONvhP:\<close>, whose leading dash asks for the arguments in order: a
  non-option argument is returned as the character code 1. \<^verbatim>\<open>optind\<close> is reset to 1 and not to 0
  before the long-option calls, so the scanner keeps that ordering and permutes nothing. The results of
  the repeated calls are one list of events; the end of the list is the result -1.
\<close>

subsection \<open>Short options\<close>

datatype short_event =
    ShortOpt char
  | ShortArg char string
  | ShortNonOption string
  | ShortUnknown char
  | ShortMissing char

definition short_flags :: string where "short_flags = ''AONvh''"

text \<open>A cluster such as \<^verbatim>\<open>-AN\<close>: \<^verbatim>\<open>P\<close> takes the rest of the cluster or the next argument.\<close>

fun short_cluster :: "string \<Rightarrow> string list \<Rightarrow> short_event list \<times> string list" where
  "short_cluster [] rest = ([], rest)"
| "short_cluster (c # cs) rest =
     (if c = CHR ''P'' then
        if cs \<noteq> [] then ([ShortArg c cs], rest)
        else case rest of [] \<Rightarrow> ([ShortMissing c], []) | a # as \<Rightarrow> ([ShortArg c a], as)
      else case short_cluster cs rest of (evs, rest') \<Rightarrow>
        ((if c \<in> set short_flags then ShortOpt c else ShortUnknown c) # evs, rest'))"

lemma short_cluster_rest: "length (snd (short_cluster cs rest)) \<le> length rest"
  by (induction cs rest rule: short_cluster.induct) (auto split: list.splits prod.splits)

function getopt_short :: "string list \<Rightarrow> short_event list" where
  "getopt_short [] = []"
| "getopt_short (a # as) =
     (if a = ''--'' then []
      else if 2 \<le> length a \<and> hd a = CHR ''-'' then
        fst (short_cluster (tl a) as) @ getopt_short (snd (short_cluster (tl a) as))
      else ShortNonOption a # getopt_short as)"
  by pat_completeness auto
termination
  by (relation "measure length") (auto simp: short_cluster_rest le_imp_less_Suc)

subsection \<open>Long options\<close>

datatype long_event =
    LongMatch nat "string option"
  | LongOther

text \<open>An exact name wins; otherwise the argument must be a prefix of exactly one name.\<close>

definition exact_matches :: "c_option list \<Rightarrow> string \<Rightarrow> nat list" where
  "exact_matches lo nm = filter (\<lambda>i. opt_name (lo ! i) = nm) [0..<length lo]"

definition prefix_matches :: "c_option list \<Rightarrow> string \<Rightarrow> nat list" where
  "prefix_matches lo nm = filter (\<lambda>i. prefix nm (opt_name (lo ! i))) [0..<length lo]"

definition find_long :: "c_option list \<Rightarrow> string \<Rightarrow> nat option" where
  "find_long lo nm = (case exact_matches lo nm of
       i # _ \<Rightarrow> Some i
     | [] \<Rightarrow> (case prefix_matches lo nm of [i] \<Rightarrow> Some i | _ \<Rightarrow> None))"

text \<open>The return value is \<^verbatim>\<open>val\<close>; the program only acts on 0.\<close>

definition long_result :: "c_option \<Rightarrow> nat \<Rightarrow> string option \<Rightarrow> long_event" where
  "long_result o1 i arg = (if opt_val o1 = 0 then LongMatch i arg else LongOther)"

definition long_one :: "c_option list \<Rightarrow> string \<Rightarrow> string list \<Rightarrow> long_event \<times> string list" where
  "long_one lo nextchar rest =
     (let nm = takeWhile (\<lambda>c. c \<noteq> CHR ''='') nextchar; eq = dropWhile (\<lambda>c. c \<noteq> CHR ''='') nextchar in
      case find_long lo nm of
        None \<Rightarrow> (LongOther, rest)
      | Some i \<Rightarrow>
        let o1 = lo ! i in
        if eq \<noteq> [] then
          if opt_has_arg o1 \<noteq> 0 then (long_result o1 i (Some (tl eq)), rest) else (LongOther, rest)
        else if opt_has_arg o1 = 1 then
          (case rest of [] \<Rightarrow> (LongOther, []) | a # as \<Rightarrow> (long_result o1 i (Some a), as))
        else (long_result o1 i None, rest))"

lemma long_one_rest: "length (snd (long_one lo nc rest)) \<le> length rest"
  by (auto simp: long_one_def Let_def split: option.splits list.splits)

function getopt_long_only :: "c_option list \<Rightarrow> string list \<Rightarrow> long_event list" where
  "getopt_long_only lo [] = []"
| "getopt_long_only lo (a # as) =
     (if a = ''--'' then []
      else if 2 \<le> length a \<and> hd a = CHR ''-'' then
        (let r = long_one lo (if a ! 1 = CHR ''-'' then drop 2 a else drop 1 a) as
         in fst r # getopt_long_only lo (snd r))
      else LongOther # getopt_long_only lo as)"
  by pat_completeness auto
termination
  by (relation "measure (\<lambda>(lo, as). length as)") (auto simp: long_one_rest le_imp_less_Suc)

text \<open>
  The same scanner in its default mode, as \<^verbatim>\<open>lab1call.c\<close> uses it: arguments that are not options are moved to the end
  of the vector and give no event.
\<close>

function getopt_long_permute :: "c_option list \<Rightarrow> string list \<Rightarrow> long_event list" where
  "getopt_long_permute lo [] = []"
| "getopt_long_permute lo (a # as) =
     (if a = ''--'' then []
      else if 2 \<le> length a \<and> hd a = CHR ''-'' then
        (let r = long_one lo (if a ! 1 = CHR ''-'' then drop 2 a else drop 1 a) as
         in fst r # getopt_long_permute lo (snd r))
      else getopt_long_permute lo as)"
  by pat_completeness auto
termination
  by (relation "measure (\<lambda>(lo, as). length as)") (auto simp: long_one_rest le_imp_less_Suc)

subsection \<open>Facts about the scanners\<close>

lemma find_long_index: "find_long lo nm = Some i \<Longrightarrow> i < length lo"
proof -
  assume "find_long lo nm = Some i"
  then have "i \<in> set (exact_matches lo nm) \<or> i \<in> set (prefix_matches lo nm)"
    by (auto simp: find_long_def split: list.splits)
  then show ?thesis by (auto simp: exact_matches_def prefix_matches_def)
qed

lemma long_one_match:
  "fst (long_one lo nc rest) = LongMatch i arg \<Longrightarrow>
    i < length lo \<and> (opt_has_arg (lo ! i) = 1 \<longrightarrow> arg \<noteq> None)"
  by (auto simp: long_one_def long_result_def Let_def dest: find_long_index
      split: option.splits list.splits if_splits)

lemma getopt_long_only_match:
  "LongMatch i arg \<in> set (getopt_long_only lo as) \<Longrightarrow>
    i < length lo \<and> (opt_has_arg (lo ! i) = 1 \<longrightarrow> arg \<noteq> None)"
proof (induction lo as rule: getopt_long_only.induct)
  case (2 lo a as)
  then show ?case
    by (auto simp: Let_def split: if_splits dest!: long_one_match [OF sym])
qed simp

lemma getopt_short_non_options:
  "\<forall>a \<in> set as. \<not> (2 \<le> length a \<and> hd a = CHR ''-'') \<Longrightarrow> getopt_short as = map ShortNonOption as"
  by (induction as) auto

lemma getopt_long_only_non_options:
  "\<forall>a \<in> set as. \<not> (2 \<le> length a \<and> hd a = CHR ''-'') \<Longrightarrow>
    getopt_long_only lo as = replicate (length as) LongOther"
  by (induction as) auto

lemma getopt_long_permute_match:
  "LongMatch i arg \<in> set (getopt_long_permute lo as) \<Longrightarrow>
    i < length lo \<and> (opt_has_arg (lo ! i) = 1 \<longrightarrow> arg \<noteq> None)"
proof (induction lo as rule: getopt_long_permute.induct)
  case (2 lo a as)
  then show ?case
    by (auto simp: Let_def split: if_splits dest!: long_one_match [OF sym])
qed simp

end
