(* ===== verification/Lab1_Main.thy ===== *)
theory Lab1_Main
  imports Dir_Search Getopt
begin

section \<open>The main function of the search program\<close>

text \<open>
  \<^verbatim>\<open>main\<close> of \<^verbatim>\<open>src/lab1nhhN3249/lab1nhhN3249.c\<close>: the short options, the loading of the plugins, the version and
  help texts, the distribution of the long options among the plugins, the search and the clean-up.
  Allocation is assumed to succeed; diagnostics under \<^verbatim>\<open>LAB1DEBUG\<close> and the texts that
  \<^verbatim>\<open>dlerror\<close> adds to a message are left out.
\<close>

subsection \<open>main: short options\<close>

record main_opts =
  mo_aflag :: bool
  mo_oflag :: bool
  mo_nflag :: bool
  mo_vflag :: bool
  mo_hflag :: bool
  mo_pvalue :: "string option"
  mo_need_lib2 :: bool

definition main_opts0 :: main_opts where
  "main_opts0 = \<lparr>mo_aflag = False, mo_oflag = False, mo_nflag = False, mo_vflag = False, mo_hflag = False,
     mo_pvalue = None, mo_need_lib2 = False\<rparr>"

text \<open>The \<^verbatim>\<open>switch\<close> of the getopt loop; \<open>None\<close> is \<^verbatim>\<open>return -1\<close> for \<^verbatim>\<open>-P\<close> without an argument.\<close>

definition short_switch :: "main_opts \<Rightarrow> short_event \<Rightarrow> main_opts option" where
  "short_switch m ev = (case ev of
       ShortOpt c \<Rightarrow> Some (
         if c = CHR ''A'' then m\<lparr>mo_aflag := True, mo_need_lib2 := True\<rparr>
         else if c = CHR ''O'' then m\<lparr>mo_oflag := True, mo_need_lib2 := True\<rparr>
         else if c = CHR ''N'' then m\<lparr>mo_nflag := True, mo_need_lib2 := True\<rparr>
         else if c = CHR ''v'' then m\<lparr>mo_vflag := True\<rparr>
         else if c = CHR ''h'' then m\<lparr>mo_hflag := True\<rparr>
         else m)
     | ShortArg c a \<Rightarrow> Some (if c = CHR ''P'' then m\<lparr>mo_pvalue := Some a\<rparr> else m)
     | ShortNonOption _ \<Rightarrow> Some m
     | ShortUnknown c \<Rightarrow> if c = CHR ''P'' then None else Some m
     | ShortMissing c \<Rightarrow> if c = CHR ''P'' then None else Some m)"

fun short_loop :: "main_opts \<Rightarrow> short_event list \<Rightarrow> main_opts option" where
  "short_loop m [] = Some m"
| "short_loop m (ev # evs) = (case short_switch m ev of None \<Rightarrow> None | Some m' \<Rightarrow> short_loop m' evs)"

subsection \<open>main: loading the plugins\<close>

text \<open>One iteration of the loading loop. A null handle finds no symbol in the main program.\<close>

definition load_plugin :: "so_image option \<Rightarrow> (string + lib \<times> plugin_info) cres" where
  "load_plugin handle =
     (case Option.bind handle so_get_info of
        None \<Rightarrow> Inr (Inl ''ERROR: dlsym() failed'')
      | Some pgi \<Rightarrow>
        (case pgi (Some zero_info) of (ret, ppi) \<Rightarrow>
          let info = (case ppi of None \<Rightarrow> zero_info | Some i \<Rightarrow> i) in
          if ret < 0 then Inr (Inl ''ERROR: plugin_get_info() failed'')
          else if sup_opts_len info = 0 then Inr (Inl ''ERROR: library supports no options! How so?'')
          else case Option.bind handle so_process of
              None \<Rightarrow> Inr (Inl ''ERROR: no plugin_process_file() function found'')
            | Some ppf \<Rightarrow>
              if length (sup_opts info) < sup_opts_len info then Inl OutOfBounds
              else Inr (Inr (
                \<lparr>opts_to_pass = [], longopts = map po_opt (take (sup_opts_len info) (sup_opts info)),
                 longopts_len = sup_opts_len info, ppf_func = ppf, pgi_info = pgi\<rparr>, info))))"

fun load_plugins :: "so_image option list \<Rightarrow> (string + (lib \<times> plugin_info) list) cres" where
  "load_plugins [] = Inr (Inr [])"
| "load_plugins (h # hs) =
     bind_c (load_plugin h) (\<lambda>r. case r of
         Inl msg \<Rightarrow> Inr (Inl msg)
       | Inr l \<Rightarrow> bind_c (load_plugins hs) (\<lambda>rs. case rs of
             Inl msg \<Rightarrow> Inr (Inl msg)
           | Inr ls \<Rightarrow> Inr (Inr (l # ls))))"

subsection \<open>main: distributing the long options\<close>

text \<open>
  The inner loop for one plugin: \<open>None\<close> is the exit with "too many options". The argument of an
  option that takes one is duplicated; \<^verbatim>\<open>strdup\<close> of a null \<^verbatim>\<open>optarg\<close> is a fault.
\<close>

definition pass_option :: "c_option \<Rightarrow> string option \<Rightarrow> c_option cres" where
  "pass_option o1 arg =
     (if opt_has_arg o1 \<noteq> 0 then
        case arg of None \<Rightarrow> Inl NullDeref | Some a \<Rightarrow> Inr (o1\<lparr>opt_flag := Some (strdup_c a)\<rparr>)
      else Inr o1)"

fun collect :: "lib \<Rightarrow> long_event list \<Rightarrow> lib option cres" where
  "collect l [] = Inr (Some l)"
| "collect l (LongOther # evs) = collect l evs"
| "collect l (LongMatch i arg # evs) =
     (if length (opts_to_pass l) = longopts_len l then Inr None
      else bind_c (pass_option (longopts l ! i) arg) (\<lambda>o1.
        collect (l\<lparr>opts_to_pass := opts_to_pass l @ [o1]\<rparr>) evs))"

fun distribute :: "string list \<Rightarrow> lib list \<Rightarrow> lib list option cres" where
  "distribute args [] = Inr (Some [])"
| "distribute args (l # ls) =
     bind_c (collect l (getopt_long_only (longopts l) args)) (\<lambda>r. case r of
         None \<Rightarrow> Inr None
       | Some l' \<Rightarrow> bind_c (distribute args ls) (\<lambda>rs. Inr (map_option ((#) l') rs)))"

subsection \<open>main: texts\<close>

definition option_line :: "plugin_option \<Rightarrow> string" where
  "option_line po = tab @ ''--'' @ opt_name (po_opt po) @ tab @ tab @ po_descr po @ nl"

definition options_text :: "plugin_info \<Rightarrow> string" where
  "options_text info =
     (if 0 < sup_opts_len info then nl @ concat (map option_line (take (sup_opts_len info) (sup_opts info)))
      else ''none (!?)'' @ nl)"

definition version_text :: "nat \<Rightarrow> plugin_info \<Rightarrow> string" where
  "version_text k info =
     ''Plugin '' @ show_dec (int k) @ '':'' @ nl @ nl
     @ ''Plugin purpose:'' @ tab @ tab @ plugin_purpose info @ nl
     @ ''Plugin author:'' @ tab @ tab @ plugin_author info @ nl
     @ ''Supported options: '' @ options_text info"

definition help_head :: string where
  "help_head =
     nl @ tab @ ''-P dir'' @ tab @ tab @ '' Plugin directory.'' @ replicate 20 (CHR '' '') @
     nl @ tab @ ''-A'' @ tab @ tab @ '' Combine plugin options using AND operation (default).'' @ replicate 20 (CHR '' '') @
     nl @ tab @ ''-O'' @ tab @ tab @ '' Combine plugin options using OR operation.'' @ replicate 20 (CHR '' '') @
     nl @ tab @ ''-N'' @ tab @ tab @ '' Inverting the search condition (after combining options plugins with -A or -O).''
       @ replicate 20 (CHR '' '') @
     nl @ tab @ ''-v'' @ tab @ tab @ '' Display the version of the program and information about the program ''
       @ ''(full name performer, group number, laboratory version number).'' @ replicate 20 (CHR '' '') @
     nl @ tab @ ''-h'' @ tab @ tab @ '' Display help for options.'' @ nl"

text \<open>The help loop; a plugin without options would end the program with -1.\<close>

fun help_plugins :: "plugin_info list \<Rightarrow> bool \<times> string list" where
  "help_plugins [] = (True, [])"
| "help_plugins (info # is) =
     (if 0 < sup_opts_len info then
        case help_plugins is of (ok, out) \<Rightarrow> (ok, options_text info # out)
      else (False, [''none (!?)'' @ nl]))"

subsection \<open>main\<close>

record main_env =
  me_cwd :: "string option"
  me_dir :: "string \<Rightarrow> dirent list option"
  me_vfs :: vfs
  me_dlopen :: "string \<Rightarrow> so_image option"
  me_proc :: proc

record main_result =
  mr_exit :: int
  mr_out :: "string list"
  mr_err :: "string list"
  mr_proc :: proc

text \<open>
  The code at \<^verbatim>\<open>END\<close> closes \<^verbatim>\<open>num_iter\<close> handles through the array \<^verbatim>\<open>dl\<close>, which is null before its
  allocation, and passes each entry to \<^verbatim>\<open>dlclose\<close>, which dereferences it.
\<close>

definition at_end :: "nat \<Rightarrow> so_image option list option \<Rightarrow> main_result \<Rightarrow> main_result cres" where
  "at_end num_iter dl r =
     (if num_iter = 0 then Inr r
      else case dl of
          None \<Rightarrow> Inl NullDeref
        | Some d \<Rightarrow> if list_all (\<lambda>h. h \<noteq> None) (take num_iter d) then Inr r else Inl NullDeref)"

definition lab1_main :: "main_env \<Rightarrow> string list \<Rightarrow> main_result cres" where
  "lab1_main env argv =
     (let r0 = \<lparr>mr_exit = 0, mr_out = [], mr_err = [], mr_proc = me_proc env\<rparr> in
      if length argv < 3 then Inr (r0\<lparr>mr_out := [''Usage: ./lab1nhhN3249 --options [value] /path/to/folder '' @ nl
          @ ''Use ./lab1nhhN3249 -h . for help'' @ nl]\<rparr>)
      else case short_loop main_opts0 (getopt_short (tl argv)) of
        None \<Rightarrow> Inr (r0\<lparr>mr_exit := -1, mr_err := [''Option -P requires an argument.'' @ nl]\<rparr>)
      | Some m \<Rightarrow>
      (case me_cwd env of
        None \<Rightarrow> at_end 0 None r0
      | Some cwd \<Rightarrow>
        bind_c (strcpy_c PATH_MAX (case mo_pvalue m of Some pv \<Rightarrow> pv | None \<Rightarrow> cwd)) (\<lambda>folder_lib.
        bind_c (count_so folder_lib (me_dir env folder_lib) 0) (\<lambda>num_iter.
        if num_iter < 2 \<and> mo_need_lib2 m then
          at_end num_iter None (r0\<lparr>mr_err := [''ERROR: The program needs more dynamic libraries (*.so)'' @ nl]\<rparr>)
        else
        bind_c (get_lib (me_dlopen env) folder_lib (me_dir env folder_lib) (replicate num_iter None)) (\<lambda>(_, dl).
        bind_c (load_plugins dl) (\<lambda>loaded. case loaded of
          Inl msg \<Rightarrow> at_end num_iter (Some dl) (r0\<lparr>mr_err := [msg @ nl]\<rparr>)
        | Inr ps \<Rightarrow>
          if mo_vflag m then
            at_end num_iter (Some dl)
              (r0\<lparr>mr_out := map (\<lambda>(k, info). version_text k info) (zip [0..<length ps] (map snd ps)) @ [nl]\<rparr>)
          else if mo_hflag m then
            (case help_plugins (map snd ps) of (ok, out) \<Rightarrow>
              if ok then at_end num_iter (Some dl) (r0\<lparr>mr_out := help_head # out\<rparr>)
              else Inr (r0\<lparr>mr_exit := -1, mr_out := help_head # out\<rparr>))
          else
          bind_c (distribute (tl argv) (map fst ps)) (\<lambda>libs. case libs of
            None \<Rightarrow> at_end num_iter (Some dl) (r0\<lparr>mr_err := [''ERROR: too many options!'' @ nl]\<rparr>)
          | Some libs' \<Rightarrow>
            bind_c (if last argv = ''./'' \<or> last argv = ''.'' then Inr cwd else strcpy_c PATH_MAX (last argv)) (\<lambda>folder.
            bind_c (search_dir
                \<lparr>se_vfs = me_vfs env, se_aflag = mo_aflag m, se_oflag = mo_oflag m, se_nflag = mo_nflag m\<rparr>
                folder (me_dir env folder)
                \<lparr>ss_libs = libs', ss_proc = me_proc env, ss_count = 0, ss_out = []\<rparr>) (\<lambda>st.
              at_end num_iter (Some dl) (r0\<lparr>
                mr_out := map (\<lambda>path. path @ nl) (ss_out st)
                  @ [nl @ show_dec (int (ss_count st)) @ '' file(s) have been found'' @ nl],
                mr_proc := ss_proc st\<rparr>))))))))))"

subsection \<open>The flags of the command line\<close>

text \<open>No option switches a flag off again.\<close>

definition flags_le :: "main_opts \<Rightarrow> main_opts \<Rightarrow> bool" where
  "flags_le m m' \<longleftrightarrow> (mo_aflag m \<longrightarrow> mo_aflag m') \<and> (mo_oflag m \<longrightarrow> mo_oflag m') \<and> (mo_nflag m \<longrightarrow> mo_nflag m') \<and>
     (mo_vflag m \<longrightarrow> mo_vflag m') \<and> (mo_hflag m \<longrightarrow> mo_hflag m') \<and> (mo_need_lib2 m \<longrightarrow> mo_need_lib2 m')"

lemma flags_le_refl [simp]: "flags_le m m"
  by (simp add: flags_le_def)

lemma flags_le_trans: "flags_le a b \<Longrightarrow> flags_le b c \<Longrightarrow> flags_le a c"
  by (auto simp: flags_le_def)

lemma short_switch_flags: "short_switch m ev = Some m' \<Longrightarrow> flags_le m m'"
  by (auto simp: short_switch_def flags_le_def split: short_event.splits if_splits)

lemma short_loop_flags: "short_loop m evs = Some m' \<Longrightarrow> flags_le m m'"
  by (induction m evs rule: short_loop.induct) (auto split: option.splits dest: short_switch_flags intro: flags_le_trans)

lemma short_loop_append:
  "short_loop m (evs1 @ evs2) = Option.bind (short_loop m evs1) (\<lambda>m1. short_loop m1 evs2)"
  by (induction evs1 arbitrary: m) (auto split: option.splits)

lemma short_loop_opt:
  assumes "short_loop m evs = Some m'" and "ShortOpt c \<in> set evs"
  shows "(c = CHR ''v'' \<longrightarrow> mo_vflag m') \<and> (c = CHR ''h'' \<longrightarrow> mo_hflag m') \<and>
    (c = CHR ''A'' \<longrightarrow> mo_aflag m') \<and> (c = CHR ''O'' \<longrightarrow> mo_oflag m') \<and> (c = CHR ''N'' \<longrightarrow> mo_nflag m')"
proof -
  obtain evs1 evs2 where evs: "evs = evs1 @ ShortOpt c # evs2" using assms(2) by (meson split_list)
  then obtain m1 m2 where "short_switch m1 (ShortOpt c) = Some m2" and m2: "short_loop m2 evs2 = Some m'"
    using assms(1) by (auto simp: short_loop_append Option.bind_eq_Some_conv split: option.splits)
  then show ?thesis
    using short_loop_flags [OF m2] by (auto simp: short_switch_def flags_le_def split: if_splits)
qed

lemma short_cluster_flags:
  "CHR ''P'' \<notin> set cs \<Longrightarrow> c \<in> set cs \<Longrightarrow> c \<in> set short_flags \<Longrightarrow> ShortOpt c \<in> set (fst (short_cluster cs rest))"
  by (induction cs rest rule: short_cluster.induct) (auto split: prod.splits)

subsection \<open>Distributing the options\<close>

text \<open>
  What an option handed to a plugin is: an entry of the plugin's own table, with a fresh copy of an argument
  exactly when the table says that it takes one.
\<close>

definition passed_from :: "c_option list \<Rightarrow> c_option \<Rightarrow> bool" where
  "passed_from lo o1 \<longleftrightarrow> (\<exists>o0 \<in> set lo. if opt_has_arg o0 \<noteq> 0 then \<exists>a. o1 = o0\<lparr>opt_flag := Some (strdup_c a)\<rparr> else o1 = o0)"

definition lib_ok :: "lib \<Rightarrow> bool" where
  "lib_ok l \<longleftrightarrow> length (opts_to_pass l) \<le> longopts_len l \<and> (\<forall>o1 \<in> set (opts_to_pass l). passed_from (longopts l) o1)"

definition same_plugin :: "lib \<Rightarrow> lib \<Rightarrow> bool" where
  "same_plugin l l' \<longleftrightarrow> longopts l' = longopts l \<and> longopts_len l' = longopts_len l \<and> ppf_func l' = ppf_func l \<and>
     pgi_info l' = pgi_info l"

text \<open>No option of the table has an optional argument.\<close>

definition plain_table :: "c_option list \<Rightarrow> bool" where
  "plain_table lo \<longleftrightarrow> (\<forall>o1 \<in> set lo. opt_has_arg o1 \<le> 1)"

lemma pass_option_ok:
  assumes "o0 \<in> set lo" and "opt_has_arg o0 \<le> 1" and "opt_has_arg o0 = 1 \<longrightarrow> arg \<noteq> None"
  shows "\<exists>o1. pass_option o0 arg = Inr o1 \<and> passed_from lo o1"
proof (cases "opt_has_arg o0 = 0")
  case True
  then show ?thesis using assms(1) by (auto simp: pass_option_def passed_from_def intro!: bexI [of _ o0])
next
  case False
  then obtain a where "arg = Some a" using assms(2,3) by (cases arg) auto
  then show ?thesis using assms(1) False by (auto simp: pass_option_def passed_from_def intro!: bexI [of _ o0])
qed

lemma collect_ok:
  assumes "\<forall>i arg. LongMatch i arg \<in> set evs \<longrightarrow> i < length (longopts l) \<and> (opt_has_arg (longopts l ! i) = 1 \<longrightarrow> arg \<noteq> None)"
    and "plain_table (longopts l)" and "lib_ok l"
  shows "\<exists>r. collect l evs = Inr r \<and>
    (\<forall>l'. r = Some l' \<longrightarrow> lib_ok l' \<and> same_plugin l l' \<and>
      length (opts_to_pass l') = length (opts_to_pass l) + length (filter (\<lambda>ev. ev \<noteq> LongOther) evs))"
  using assms
proof (induction l evs rule: collect.induct)
  case (3 l i arg evs)
  let ?o = "longopts l ! i"
  have i: "i < length (longopts l)" and a: "opt_has_arg ?o = 1 \<longrightarrow> arg \<noteq> None" using 3(2) by auto
  have le: "opt_has_arg ?o \<le> 1" using 3(3) i by (simp add: plain_table_def)
  show ?case
  proof (cases "length (opts_to_pass l) = longopts_len l")
    case False
    from i a le obtain o1 where o1: "pass_option ?o arg = Inr o1" and from_tab: "passed_from (longopts l) o1"
      using pass_option_ok [OF nth_mem [OF i]] by blast
    let ?l = "l\<lparr>opts_to_pass := opts_to_pass l @ [o1]\<rparr>"
    have "lib_ok ?l" using 3(4) False from_tab by (auto simp: lib_ok_def)
    then have "\<exists>r. collect ?l evs = Inr r \<and> (\<forall>l'. r = Some l' \<longrightarrow> lib_ok l' \<and> same_plugin ?l l' \<and>
      length (opts_to_pass l') = length (opts_to_pass ?l) + length (filter (\<lambda>ev. ev \<noteq> LongOther) evs))"
      using 3(1) [OF False o1] 3(2,3) by simp
    then show ?thesis using False o1 by (auto simp: same_plugin_def)
  qed simp
qed (auto simp: same_plugin_def)

definition handed :: "string list \<Rightarrow> lib \<Rightarrow> lib \<Rightarrow> bool" where
  "handed args l l' \<longleftrightarrow> same_plugin l l' \<and> lib_ok l' \<and>
     length (opts_to_pass l') = length (filter (\<lambda>ev. ev \<noteq> LongOther) (getopt_long_only (longopts l) args))"

lemma collect_handed:
  assumes "plain_table (longopts l)" and "opts_to_pass l = []"
  shows "\<exists>r. collect l (getopt_long_only (longopts l) args) = Inr r \<and> (\<forall>l'. r = Some l' \<longrightarrow> handed args l l')"
proof -
  have "lib_ok l" using assms(2) by (simp add: lib_ok_def)
  with collect_ok [of "getopt_long_only (longopts l) args" l] getopt_long_only_match [of _ _ "longopts l" args] assms
  show ?thesis by (auto simp: handed_def)
qed

lemma distribute_ok:
  assumes "\<forall>l \<in> set ls. plain_table (longopts l) \<and> opts_to_pass l = []"
  shows "\<exists>r. distribute args ls = Inr r \<and> (\<forall>ls'. r = Some ls' \<longrightarrow> list_all2 (handed args) ls ls')"
  using assms
proof (induction ls)
  case (Cons l ls)
  obtain r where r: "collect l (getopt_long_only (longopts l) args) = Inr r" "\<forall>l'. r = Some l' \<longrightarrow> handed args l l'"
    using collect_handed [of l args] Cons.prems by auto
  obtain rs where rs: "distribute args ls = Inr rs" "\<forall>ls'. rs = Some ls' \<longrightarrow> list_all2 (handed args) ls ls'"
    using Cons by auto
  show ?case by (cases r; cases rs) (use r rs in simp_all)
qed simp

subsection \<open>A run that searches\<close>

definition search_report :: "main_env \<Rightarrow> search_state \<Rightarrow> main_result" where
  "search_report env st = \<lparr>mr_exit = 0,
     mr_out = map (\<lambda>path. path @ nl) (ss_out st) @ [nl @ show_dec (int (ss_count st)) @ '' file(s) have been found'' @ nl],
     mr_err = [], mr_proc = ss_proc st\<rparr>"

lemma lab1_main_search:
  assumes "3 \<le> length argv" and "short_loop main_opts0 (getopt_short (tl argv)) = Some m"
    and "\<not> mo_vflag m" and "\<not> mo_hflag m" and "mo_pvalue m = None" and "me_cwd env = Some cwd" and "length cwd < PATH_MAX"
    and "count_so cwd (me_dir env cwd) 0 = Inr num_iter" and "2 \<le> num_iter"
    and "get_lib (me_dlopen env) cwd (me_dir env cwd) (replicate num_iter None) = Inr (rl, dl)"
    and "load_plugins dl = Inr (Inr ps)" and "list_all (\<lambda>h. h \<noteq> None) (take num_iter dl)"
    and "distribute (tl argv) (map fst ps) = Inr (Some libs)"
    and "last argv = folder" and "folder \<noteq> ''.''" and "folder \<noteq> ''./''" and "length folder < PATH_MAX"
    and "search_dir \<lparr>se_vfs = me_vfs env, se_aflag = mo_aflag m, se_oflag = mo_oflag m, se_nflag = mo_nflag m\<rparr> folder
      (me_dir env folder) \<lparr>ss_libs = libs, ss_proc = me_proc env, ss_count = 0, ss_out = []\<rparr> = Inr st"
  shows "lab1_main env argv = Inr (search_report env st)"
  using assms by (simp add: lab1_main_def strcpy_c_def at_end_def search_report_def)

subsection \<open>Properties\<close>

text \<open>
  With exactly one library in the plugin directory and one of \<^verbatim>\<open>-A\<close>, \<^verbatim>\<open>-O\<close>, \<^verbatim>\<open>-N\<close> on the command line the
  program reports that it needs more libraries and then dereferences the null handle array in its clean-up.
\<close>

theorem main_one_library_crash:
  assumes "3 \<le> length argv" and "short_loop main_opts0 (getopt_short (tl argv)) = Some m" and "mo_need_lib2 m"
    and "me_cwd env = Some cwd" and "folder = (case mo_pvalue m of Some pv \<Rightarrow> pv | None \<Rightarrow> cwd)"
    and "length folder < PATH_MAX" and "count_so folder (me_dir env folder) 0 = Inr 1"
  shows "lab1_main env argv = Inl NullDeref"
  using assms by (simp add: lab1_main_def strcpy_c_def at_end_def)

theorem main_one_library_crash_witness:
  "lab1_main \<lparr>me_cwd = Some ''/p'', me_dir = \<lambda>_. Some [Reg ''a.so''], me_vfs = \<lambda>_. plain_file [1], me_dlopen = \<lambda>_. None,
     me_proc = proc0\<rparr> [''lab1'', ''-A'', ''/d''] = Inl NullDeref"
proof -
  have "getopt_short [''-A'', ''/d''] = [ShortOpt (CHR ''A''), ShortNonOption ''/d'']" by (simp add: short_flags_def)
  then have "short_loop main_opts0 (getopt_short (tl [''lab1'', ''-A'', ''/d''])) =
      Some (main_opts0\<lparr>mo_aflag := True, mo_need_lib2 := True\<rparr>)"
    by (simp add: short_switch_def)
  from main_one_library_crash [OF _ this] show ?thesis
    by (simp add: main_opts0_def count_so_def get_abs_path_eq SO_PATH_CAP_def is_lib_def get_filename_ext_def dot_ext_def
        strrchr_c_def c_limits)
qed



text \<open>
  The short-option scan also reads the letters of a long option as switches: a long option whose name
  has a \<^verbatim>\<open>v\<close> or an \<^verbatim>\<open>h\<close> and no \<^verbatim>\<open>P\<close>, given first, asks for the version or the help text.
\<close>

theorem long_option_letters_are_flags:
  assumes "CHR ''P'' \<notin> set nm" and "nm \<noteq> []"
    and "short_loop main_opts0 (getopt_short ((''--'' @ nm) # as)) = Some m"
  shows "(CHR ''v'' \<in> set nm \<longrightarrow> mo_vflag m) \<and> (CHR ''h'' \<in> set nm \<longrightarrow> mo_hflag m)"
proof -
  have "ShortOpt c \<in> set (getopt_short ((''--'' @ nm) # as))" if "c \<in> set nm" "c \<in> set short_flags" for c
    using short_cluster_flags [of "CHR ''-'' # nm" c as] assms(1,2) that by simp
  then show ?thesis
    using short_loop_opt [OF assms(3)] by (auto simp: short_flags_def)
qed

theorem long_option_letters_are_flags_witness:
  "mo_hflag (main_opts0\<lparr>mo_hflag := True\<rparr>)"
  using long_option_letters_are_flags [of "''help''" "[''d'']" "main_opts0\<lparr>mo_hflag := True\<rparr>"]
  by (simp add: short_flags_def short_switch_def)

end
