(* ===== verification/Lab1_Tools.thy ===== *)
theory Lab1_Tools
  imports Lab1_Main
begin

section \<open>The tools beside the search program (lab1call.c, lab1test.c)\<close>

text \<open>
  \<^verbatim>\<open>src/lab1test/lab1call.c\<close> loads one library, prints its description and calls \<^verbatim>\<open>plugin_process_file\<close> on one file with the
  options of the command line; \<^verbatim>\<open>src/lab1test/lab1test.c\<close> prints the descriptions of several libraries. A run is the lines
  written to standard output and to standard error; the texts of \<^verbatim>\<open>dlerror\<close> and \<^verbatim>\<open>strerror\<close> and failing
  allocations are left out. \<^verbatim>\<open>lab1call.c\<close> scans the vector only once, so that arguments that are not options are passed over.
\<close>

subsection \<open>lab1call\<close>

record tool_run =
  tr_out :: "string list"
  tr_err :: "string list"
  tr_proc :: proc

definition info_text :: "plugin_info \<Rightarrow> string list" where
  "info_text info =
     [''Plugin purpose:'' @ tab @ tab @ plugin_purpose info @ nl,
      ''Plugin author:'' @ tab @ tab @ plugin_author info @ nl,
      ''Supported options: '' @ options_text info]"

text \<open>The option loop: any event that is not an option of the library ends it with an error.\<close>

fun call_collect :: "c_option list \<Rightarrow> nat \<Rightarrow> long_event list \<Rightarrow> c_option list \<Rightarrow> (string + c_option list) cres" where
  "call_collect lo n [] opts = Inr (Inr opts)"
| "call_collect lo n (LongOther # evs) opts = Inr (Inl ''ERROR: failed to parse options'')"
| "call_collect lo n (LongMatch i arg # evs) opts =
     (if length opts = n then Inr (Inl ''ERROR: too many options!'')
      else bind_c (pass_option (lo ! i) arg) (\<lambda>o1. call_collect lo n evs (opts @ [o1])))"

definition call_result :: "int \<Rightarrow> string" where
  "call_result ret = ''plugin_process_file() returned '' @ show_dec ret @ nl"

definition lab1call :: "(string \<Rightarrow> so_image option) \<Rightarrow> vfs \<Rightarrow> proc \<Rightarrow> string list \<Rightarrow> tool_run cres" where
  "lab1call dlopen fs p argv =
     (let r0 = \<lparr>tr_out = [], tr_err = [], tr_proc = p\<rparr> in
      if length argv < 4 then
        Inr (r0\<lparr>tr_out := [''Usage: lab1call /path/to/libabcNXXXX.so [options_for_lib] /path/to/file'' @ nl]\<rparr>)
      else case dlopen (argv ! 1) of
        None \<Rightarrow> Inr (r0\<lparr>tr_err := [''ERROR: dlopen() failed'' @ nl]\<rparr>)
      | Some im \<Rightarrow>
      (case so_get_info im of
        None \<Rightarrow> Inr (r0\<lparr>tr_err := [''ERROR: dlsym() failed'' @ nl]\<rparr>)
      | Some pgi_func \<Rightarrow>
      (case pgi_func (Some zero_info) of (ret, ppi) \<Rightarrow>
        let info = (case ppi of None \<Rightarrow> zero_info | Some i \<Rightarrow> i); r1 = r0\<lparr>tr_out := info_text info @ [nl]\<rparr> in
        if ret < 0 then Inr (r0\<lparr>tr_err := [''ERROR: plugin_get_info() failed'' @ nl]\<rparr>)
        else if length (sup_opts info) < sup_opts_len info then Inl OutOfBounds
        else if sup_opts_len info = 0 then Inr (r1\<lparr>tr_err := [''ERROR: library supports no options! How so?'' @ nl]\<rparr>)
        else case so_process im of
          None \<Rightarrow> Inr (r1\<lparr>tr_err := [''ERROR: no plugin_process_file() function found'' @ nl]\<rparr>)
        | Some ppf \<Rightarrow>
          let lo = map po_opt (take (sup_opts_len info) (sup_opts info)) in
          bind_c (call_collect lo (sup_opts_len info) (getopt_long_permute lo (tl argv)) []) (\<lambda>c. case c of
            Inl msg \<Rightarrow> Inr (r1\<lparr>tr_err := [msg @ nl]\<rparr>)
          | Inr opts \<Rightarrow>
            bind_c (ppf fs (last argv) opts (set_errno 0 p)) (\<lambda>(ret, _, p').
              Inr (r1\<lparr>tr_out := tr_out r1 @ [call_result ret] @ (if ret < 0 then [''Error information: ''] else []),
                tr_proc := p'\<rparr>))))))"

subsection \<open>lab1test\<close>

definition lab1test_one :: "(string \<Rightarrow> so_image option) \<Rightarrow> string \<Rightarrow> (string list \<times> string list) cres" where
  "lab1test_one dlopen name =
     (let trying = ''Trying '' @ name @ '':'' @ nl in
      case dlopen name of
        None \<Rightarrow> Inr ([trying], [''ERROR: dlopen() failed'' @ nl])
      | Some im \<Rightarrow>
        (case so_get_info im of
          None \<Rightarrow> Inr ([trying], [''ERROR: dlsym() failed'' @ nl])
        | Some pgi_func \<Rightarrow>
          (case pgi_func (Some zero_info) of (ret, ppi) \<Rightarrow>
            let info = (case ppi of None \<Rightarrow> zero_info | Some i \<Rightarrow> i) in
            if ret < 0 then Inr ([trying], [''ERROR: plugin_get_info() failed'' @ nl])
            else if length (sup_opts info) < sup_opts_len info then Inl OutOfBounds
            else Inr (trying # info_text info,
              if so_process im = None then [''WARNING: no plugin_process_file() function found'' @ nl] else []))))"

fun lab1test_loop :: "(string \<Rightarrow> so_image option) \<Rightarrow> string list \<Rightarrow> (string list \<times> string list) cres" where
  "lab1test_loop dlopen [] = Inr ([], [])"
| "lab1test_loop dlopen (name # names) =
     bind_c (lab1test_one dlopen name) (\<lambda>(out, err).
     bind_c (lab1test_loop dlopen names) (\<lambda>(out', err'). Inr (out @ out', err @ err')))"

definition lab1test :: "(string \<Rightarrow> so_image option) \<Rightarrow> string list \<Rightarrow> (string list \<times> string list) cres" where
  "lab1test dlopen argv =
     (if length argv = 1 then Inr ([''Usage: lab1test /path/to/lib1.so ... libN.so'' @ nl], [])
      else lab1test_loop dlopen (tl argv))"

subsection \<open>Facts\<close>

lemma call_collect_ok:
  assumes "\<forall>i arg. LongMatch i arg \<in> set evs \<longrightarrow> i < length lo \<and> (opt_has_arg (lo ! i) = 1 \<longrightarrow> arg \<noteq> None)"
    and "plain_table lo" and "length os \<le> n" and "\<forall>o1 \<in> set os. passed_from lo o1"
  shows "\<exists>r. call_collect lo n evs os = Inr r \<and> (\<forall>os'. r = Inr os' \<longrightarrow> length os' = length os + length evs \<and> length os' \<le> n \<and>
    (\<forall>o1 \<in> set os'. passed_from lo o1))"
  using assms
proof (induction lo n evs os rule: call_collect.induct)
  case (3 lo n i arg evs os)
  have i: "i < length lo" and a: "opt_has_arg (lo ! i) = 1 \<longrightarrow> arg \<noteq> None" using 3(2) by auto
  have le: "opt_has_arg (lo ! i) \<le> 1" using 3(3) i by (simp add: plain_table_def)
  show ?case
  proof (cases "length os = n")
    case False
    obtain o1 where o1: "pass_option (lo ! i) arg = Inr o1" "passed_from lo o1"
      using pass_option_ok [OF nth_mem [OF i] le a] by blast
    have "\<exists>r. call_collect lo n evs (os @ [o1]) = Inr r \<and> (\<forall>os'. r = Inr os' \<longrightarrow> length os' = length (os @ [o1]) + length evs \<and>
        length os' \<le> n \<and> (\<forall>o1 \<in> set os'. passed_from lo o1))"
      using 3(2-5) False o1 by (intro 3(1) [OF False o1(1)]) auto
    then show ?thesis using False o1(1) by auto
  qed simp
qed auto

lemma lab1test_loop_ok:
  assumes "\<forall>name im f. name \<in> set names \<and> dlopen name = Some im \<and> so_get_info im = Some f \<longrightarrow> plugin_describes f"
  shows "\<exists>r. lab1test_loop dlopen names = Inr r"
  using assms
proof (induction names)
  case (Cons name names)
  have "\<exists>r. lab1test_one dlopen name = Inr r"
  proof (cases "dlopen name")
    case (Some im)
    show ?thesis
    proof (cases "so_get_info im")
      case (Some f)
      then have "plugin_describes f" using \<open>dlopen name = Some im\<close> Cons(2) by auto
      then obtain q where "f (Some zero_info) = (0, Some q)" "sup_opts_len q = length (sup_opts q)"
        using plugin_describes.info_filled [of f zero_info] by blast
      then show ?thesis using \<open>dlopen name = Some im\<close> Some by (simp add: lab1test_one_def)
    qed (simp add: lab1test_one_def \<open>dlopen name = Some im\<close>)
  qed (simp add: lab1test_one_def)
  moreover have "\<exists>r. lab1test_loop dlopen names = Inr r" using Cons(2) by (intro Cons(1)) (meson list.set_intros(2))
  ultimately show ?case by auto
qed simp

text \<open>A library that the tools can be run on: it describes itself with options that take no or one argument.\<close>

definition tool_ready :: "so_image \<Rightarrow> bool" where
  "tool_ready im \<longleftrightarrow> (\<forall>f. so_get_info im = Some f \<longrightarrow> plugin_describes f \<and>
     (\<forall>q. snd (f (Some zero_info)) = Some q \<longrightarrow> plain_table (map po_opt (sup_opts q))))"

lemma lab1call_ok:
  assumes "\<forall>im. dlopen (argv ! 1) = Some im \<longrightarrow> tool_ready im \<and>
      (\<forall>process os p. so_process im = Some process \<longrightarrow> (\<exists>r. process fs (last argv) os p = Inr r))"
  shows "\<exists>r. lab1call dlopen fs p argv = Inr r"
proof (cases "length argv < 4 \<or> dlopen (argv ! 1) = None")
  case False
  then obtain im where im: "dlopen (argv ! 1) = Some im" by auto
  then have ready: "tool_ready im"
    and total: "\<forall>process os p. so_process im = Some process \<longrightarrow> (\<exists>r. process fs (last argv) os p = Inr r)"
    using assms by auto
  show ?thesis
  proof (cases "so_get_info im")
    case (Some f)
    then obtain q where q: "f (Some zero_info) = (0, Some q)" "sup_opts_len q = length (sup_opts q)" "0 < sup_opts_len q"
      using ready plugin_describes.info_filled [of f zero_info] by (auto simp: tool_ready_def)
    let ?lo = "map po_opt (sup_opts q)"
    have plain: "plain_table ?lo" using ready Some q(1) by (auto simp: tool_ready_def)
    obtain c where c: "call_collect ?lo (length (sup_opts q)) (getopt_long_permute ?lo (tl argv)) [] = Inr c"
      using call_collect_ok [of "getopt_long_permute ?lo (tl argv)" ?lo "[]", OF _ plain] getopt_long_permute_match by fastforce
    have unfolded: "lab1call dlopen fs p argv = (case so_process im of
        None \<Rightarrow> Inr \<lparr>tr_out = info_text q @ [nl], tr_err = [''ERROR: no plugin_process_file() function found'' @ nl], tr_proc = p\<rparr>
      | Some ppf \<Rightarrow> (case c of
          Inl msg \<Rightarrow> Inr \<lparr>tr_out = info_text q @ [nl], tr_err = [msg @ nl], tr_proc = p\<rparr>
        | Inr os \<Rightarrow> bind_c (ppf fs (last argv) os (set_errno 0 p)) (\<lambda>(ret, _, p').
            Inr \<lparr>tr_out = (info_text q @ [nl]) @ [call_result ret] @ (if ret < 0 then [''Error information: ''] else []),
              tr_err = [], tr_proc = p'\<rparr>)))"
      using False im Some q c by (auto simp: lab1call_def Let_def split: option.split sum.split)
    show ?thesis
    proof (cases "so_process im")
      case (Some ppf)
      show ?thesis
      proof (cases c)
        case (Inr os)
        obtain r where "ppf fs (last argv) os (set_errno 0 p) = Inr r" using total Some by blast
        then show ?thesis using Some Inr by (simp add: unfolded split: prod.split)
      qed (simp add: unfolded Some)
    qed (simp add: unfolded)
  qed (use False im in \<open>simp add: lab1call_def Let_def\<close>)
qed (auto simp: lab1call_def Let_def)

end
