(* ===== verification/Lib_Nhh.thy ===== *)
theory Lib_Nhh
  imports Plugin_Api
begin

section \<open>The bit-sequence plugin (libnhhN3249.c)\<close>

text \<open>
  \<^verbatim>\<open>src/lab1nhhN3249/libnhhN3249.c\<close>: parsing of the \<^verbatim>\<open>--bit-seq\<close> argument in base 2, 10 or
  16, the size of the pattern in bytes, and the scan of the mapped file. The argument buffer is
  the caller's, and the decimal branch prints into it, so the buffers are part of the state.
  The \<^verbatim>\<open>LAB1DEBUG\<close> diagnostics, which only print, are left out.
\<close>

subsection \<open>Plugin description\<close>

definition OPT_BIT_SEQ :: string where "OPT_BIT_SEQ = ''bit-seq''"

definition g_po_arr :: "plugin_option list" where
  "g_po_arr =
     [\<lparr>po_opt = \<lparr>opt_name = OPT_BIT_SEQ, opt_has_arg = required_argument, opt_flag = None, opt_val = 0\<rparr>,
       po_descr = ''A sequence of bits, you want to search for''\<rparr>]"

definition nhh_get_info :: pgi_func_t where
  "nhh_get_info ppi = (case ppi of
       None \<Rightarrow> (-1, None)
     | Some pi \<Rightarrow> (0, Some (pi\<lparr>
         plugin_purpose := ''Variant 5: Search for files containing a given sequence of bits.'',
         plugin_author := ''Nguyen Hong Hanh N3249'',
         sup_opts_len := length g_po_arr,
         sup_opts := g_po_arr\<rparr>)))"

subsection \<open>bit_seq_match\<close>

text \<open>
  The scan loop from position \<open>pos\<close>, in \<^verbatim>\<open>size_t\<close> arithmetic. \<^verbatim>\<open>&pattern\<close> is the address
  of an 8-byte integer, so \<^verbatim>\<open>memcmp\<close> may read at most 8 bytes there.
\<close>

function bit_seq_match_from :: "byte list \<Rightarrow> i64 \<Rightarrow> size_t \<Rightarrow> size_t \<Rightarrow> size_t \<Rightarrow> int cres" where
  "bit_seq_match_from buffer pattern pSize fSize pos =
     (if fSize - pos \<ge> pSize then
        bind_c (memcmp_eq buffer (unat pos) (le_bytes pattern) (unat pSize))
          (\<lambda>eq. if eq then Inr 1
                else bit_seq_match_from buffer pattern pSize fSize (pos + 1))
      else Inr 0)"
  by pat_completeness auto
termination
proof (relation "measure (\<lambda>(b, pat, ps, fs, pos). unat (fs - pos))", simp, goal_cases)
  case (1 buffer pattern pSize fSize pos eq)
  then have "pSize \<noteq> 0" by (auto simp: memcmp_eq_def split: if_splits)
  with 1(1) have "fSize - pos \<noteq> 0" by auto
  then have "unat (fSize - pos - 1) < unat (fSize - pos)"
    by (metis measure_unat)
  then show ?case by (simp add: diff_diff_eq)
qed

declare bit_seq_match_from.simps [simp del]

definition bit_seq_match :: "byte list \<Rightarrow> i64 \<Rightarrow> size_t \<Rightarrow> size_t \<Rightarrow> int cres" where
  "bit_seq_match buffer pattern pSize fSize = bit_seq_match_from buffer pattern pSize fSize 0"

subsection \<open>The option loop of plugin_process_file\<close>

text \<open>
  The locals of the loop: the options (their buffers are written to), \<^verbatim>\<open>pat\<close> as the index of
  the option whose buffer it points into with an offset (\<open>None\<close> for NULL), \<^verbatim>\<open>pattern\<close>,
  \<^verbatim>\<open>pat_size\<close> and \<^verbatim>\<open>got_bit_seq\<close>.
\<close>

record nhh_locals =
  nl_opts :: "c_option list"
  nl_pat :: "(nat \<times> nat) option"
  nl_pattern :: int
  nl_pat_size :: nat
  nl_got :: bool

text \<open>An iteration either goes on or leaves the function with \<^verbatim>\<open>return -1\<close>.\<close>

datatype nhh_flow = NextOption nhh_locals | ReturnError nhh_locals

definition buf_at :: "c_option list \<Rightarrow> nat \<Rightarrow> cbuf" where
  "buf_at os k = the (opt_flag (os ! k))"

definition set_buf :: "c_option list \<Rightarrow> nat \<Rightarrow> cbuf \<Rightarrow> c_option list" where
  "set_buf os k b = os[k := (os ! k)\<lparr>opt_flag := Some b\<rparr>]"

text \<open>\<^verbatim>\<open>!memcmp(pat, "0x", 2)\<close> on a string with its NUL.\<close>

definition starts_with2 :: "string \<Rightarrow> char \<Rightarrow> char \<Rightarrow> bool" where
  "starts_with2 s a b \<longleftrightarrow> take 2 (s @ [CHR 0x00]) = [a, b]"

definition pattern_base :: "string \<Rightarrow> nat" where
  "pattern_base s =
     (if starts_with2 s (CHR ''0'') (CHR ''x'') \<or> starts_with2 s (CHR ''0'') (CHR ''X'') then 16
      else if starts_with2 s (CHR ''0'') (CHR ''b'') \<or> starts_with2 s (CHR ''0'') (CHR ''B'') then 2
      else 10)"

text \<open>
  Lines 124 to 175 of the source: base, conversion, and the size of the pattern. In base 10
  the size is that of the hexadecimal image, which is printed over the argument and then
  replaced by the decimal image.
\<close>

definition nhh_convert :: "nhh_locals \<Rightarrow> nat \<Rightarrow> nat \<Rightarrow> nhh_flow cres" where
  "nhh_convert st k off =
     (let s = drop off (buf_str (buf_at (nl_opts st) k));
          base = pattern_base s;
          off1 = (if base = 2 then off + 2 else off);
          s1 = drop off1 (buf_str (buf_at (nl_opts st) k));
          (v, endptr, _) = strtoll_c base s1;
          st1 = st\<lparr>nl_pat := Some (k, off1), nl_pattern := v, nl_got := True\<rparr>
      in if endptr \<noteq> [] then Inr (ReturnError (st1\<lparr>nl_got := False\<rparr>))
         else if base = 16 then
           Inr (NextOption (st1\<lparr>nl_pat := Some (k, off1 + 2),
                               nl_pat_size := (length (drop 2 s1) + 1) div 2\<rparr>))
         else if base = 2 then
           Inr (NextOption (st1\<lparr>nl_pat_size := (length s1 + 7) div 8\<rparr>))
         else
           bind_c (sprintf_c (buf_at (nl_opts st) k) off1 (show_hex (word_of_int v))) (\<lambda>b1.
           bind_c (sprintf_c b1 off1 (show_dec v)) (\<lambda>b2.
             Inr (NextOption (st1\<lparr>nl_opts := set_buf (nl_opts st) k b2,
               nl_pat_size := (length (drop off1 (buf_str b1)) + 1) div 2\<rparr>)))))"

text \<open>One iteration: \<^verbatim>\<open>pat\<close> moves to the option's buffer when the name matches and keeps its
  old value otherwise; a null \<^verbatim>\<open>pat\<close> is dereferenced by \<^verbatim>\<open>memcmp\<close>.\<close>

definition nhh_option :: "nhh_locals \<Rightarrow> nat \<Rightarrow> nhh_flow cres" where
  "nhh_option st i =
     (let pat = (if opt_name (nl_opts st ! i) = OPT_BIT_SEQ
                 then map_option (\<lambda>_. (i, 0)) (opt_flag (nl_opts st ! i)) else nl_pat st)
      in case pat of None \<Rightarrow> Inl NullDeref | Some (k, off) \<Rightarrow> nhh_convert st k off)"

fun nhh_options :: "nhh_locals \<Rightarrow> nat list \<Rightarrow> nhh_flow cres" where
  "nhh_options st [] = Inr (NextOption st)"
| "nhh_options st (i # is) =
     bind_c (nhh_option st i) (\<lambda>fl. case fl of
         ReturnError st' \<Rightarrow> Inr (ReturnError st')
       | NextOption st' \<Rightarrow> nhh_options st' is)"

definition nhh_init :: "c_option list \<Rightarrow> nhh_locals" where
  "nhh_init os = \<lparr>nl_opts = os, nl_pat = None, nl_pattern = 0, nl_pat_size = 0, nl_got = False\<rparr>"

subsection \<open>plugin_process_file\<close>

text \<open>
  The whole function. The paths that leave with \<^verbatim>\<open>return -1\<close> after the \<^verbatim>\<open>open\<close> keep the
  descriptor; the ones that go to \<^verbatim>\<open>END\<close> close it.
\<close>

definition nhh_process_file :: ppf_func_t where
  "nhh_process_file fs fname in_opts p =
     (let f = fs fname in
      case vf_open f of
        Some e \<Rightarrow> Inr (-1, in_opts, set_errno e p)
      | None \<Rightarrow>
        let p1 = open_fd p in
        (case vf_fstat f of
          Some e \<Rightarrow> Inr (-1, in_opts, close_fd (set_errno e p1))
        | None \<Rightarrow>
          if length (vf_data f) = 0 then Inr (-1, in_opts, close_fd (set_errno ERANGE p1))
          else if length in_opts = 0 then Inr (-1, in_opts, set_errno EINVAL p1)
          else
            bind_c (nhh_options (nhh_init in_opts) [0..<length in_opts]) (\<lambda>fl.
              case fl of
                ReturnError st \<Rightarrow> Inr (-1, nl_opts st, set_errno EINVAL p1)
              | NextOption st \<Rightarrow>
                if \<not> nl_got st then Inr (-1, nl_opts st, set_errno EINVAL p1)
                else case vf_mmap f of
                    Some e \<Rightarrow> Inr (-1, nl_opts st, close_fd (set_errno e p1))
                  | None \<Rightarrow>
                    bind_c (bit_seq_match (vf_data f) (word_of_int (nl_pattern st))
                              (word_of_nat (nl_pat_size st)) (word_of_nat (length (vf_data f))))
                      (\<lambda>ret. Inr (ret, nl_opts st,
                         unmap_file (close_fd (set_errno 0 (map_file p1))))))))"

subsection \<open>Correctness of the scan\<close>

definition match_at :: "byte list \<Rightarrow> byte list \<Rightarrow> nat \<Rightarrow> bool" where
  "match_at pat buf i \<longleftrightarrow> i + length pat \<le> length buf \<and> take (length pat) (drop i buf) = pat"

lemma sublist_iff_match_at: "sublist pat buf \<longleftrightarrow> (\<exists>i. match_at pat buf i)"
proof
  assume "sublist pat buf"
  then obtain a c where "buf = a @ pat @ c" by (auto simp: sublist_def)
  then have "match_at pat buf (length a)" by (simp add: match_at_def)
  then show "\<exists>i. match_at pat buf i" ..
next
  assume "\<exists>i. match_at pat buf i"
  then obtain i where "take (length pat) (drop i buf) = pat" by (auto simp: match_at_def)
  then show "sublist pat buf"
    unfolding sublist_def by (metis append_take_drop_id)
qed

lemma bit_seq_match_from_eq:
  assumes "length buffer = unat fSize" and "unat pSize \<le> 8" and "pos \<le> fSize"
  shows "bit_seq_match_from buffer pattern pSize fSize pos =
    Inr (if \<exists>i \<ge> unat pos. match_at (take (unat pSize) (le_bytes pattern)) buffer i then 1 else 0)"
  using assms
proof (induction buffer pattern pSize fSize pos rule: bit_seq_match_from.induct)
  case (1 buffer pattern pSize fSize pos)
  let ?pat = "take (unat pSize) (le_bytes pattern)"
  have len: "length ?pat = unat pSize" using 1(3) by simp
  have diff: "unat (fSize - pos) = unat fSize - unat pos" using 1(4) by (simp add: unat_sub)
  have step: "(\<exists>i \<ge> unat pos. match_at ?pat buffer i) \<longleftrightarrow>
      match_at ?pat buffer (unat pos) \<or> (\<exists>i \<ge> Suc (unat pos). match_at ?pat buffer i)"
    by (metis Suc_leD Suc_leI dual_order.refl le_neq_implies_less)
  show ?case
  proof (cases "pSize \<le> fSize - pos")
    case False
    then have "unat fSize < unat pos + unat pSize"
      using diff by (simp add: not_le word_less_nat_alt)
    then have "\<not> (\<exists>i \<ge> unat pos. match_at ?pat buffer i)"
      using 1(2) len by (auto simp: match_at_def)
    with False show ?thesis by (simp add: bit_seq_match_from.simps [of buffer])
  next
    case True
    then have fits: "unat pos + unat pSize \<le> length buffer"
      using diff 1(2,4) by (simp add: word_le_nat_alt)
    then have cmp: "memcmp_eq buffer (unat pos) (le_bytes pattern) (unat pSize) =
        Inr (match_at ?pat buffer (unat pos))"
      using 1(3) len by (simp add: memcmp_eq_def match_at_def min.absorb1)
    show ?thesis
    proof (cases "match_at ?pat buffer (unat pos)")
      case m: True
      with step have "\<exists>i \<ge> unat pos. match_at ?pat buffer i" by simp
      with True cmp m show ?thesis by (simp add: bit_seq_match_from.simps [of buffer])
    next
      case m: False
      then have "pSize \<noteq> 0" using fits by (auto simp: match_at_def)
      then have lt: "unat pos < unat fSize" using fits 1(2) by (simp add: unat_eq_0 [symmetric])
      then have suc: "unat (pos + 1) = Suc (unat pos)"
        by (rule unat_Suc_size_t)
      then have "pos + 1 \<le> fSize" using lt by (simp add: word_le_nat_alt)
      with 1 True cmp m have "bit_seq_match_from buffer pattern pSize fSize (pos + 1) =
          Inr (if \<exists>i \<ge> Suc (unat pos). match_at ?pat buffer i then 1 else 0)"
        by (simp add: suc)
      with True cmp m step show ?thesis by (simp add: bit_seq_match_from.simps [of buffer _ _ _ pos])
    qed
  qed
qed

lemma bit_seq_match_eq:
  assumes "length buffer < 2 ^ 64" and "n \<le> 8"
  shows "bit_seq_match buffer pattern (word_of_nat n) (word_of_nat (length buffer)) =
    Inr (if sublist (take n (le_bytes pattern)) buffer then 1 else 0)"
proof -
  have n: "unat (word_of_nat n :: size_t) = n" using assms(2) by (simp add: unat_size_t)
  have l: "length buffer = unat (word_of_nat (length buffer) :: size_t)"
    using assms(1) by (simp add: unat_size_t)
  show ?thesis
    unfolding bit_seq_match_def using bit_seq_match_from_eq [OF l, of "word_of_nat n" 0 pattern] n assms(2)
    by (simp add: sublist_iff_match_at)
qed

lemma bit_seq_match_overread:
  assumes "length buffer < 2 ^ 64" and "8 < n" and "n \<le> length buffer"
  shows "bit_seq_match buffer pattern (word_of_nat n) (word_of_nat (length buffer)) = Inl OutOfBounds"
proof -
  have "unat (word_of_nat n :: size_t) = n" and "unat (word_of_nat (length buffer) :: size_t) = length buffer"
    using assms by (simp_all add: unat_size_t)
  with assms show ?thesis
    unfolding bit_seq_match_def
    by (subst bit_seq_match_from.simps) (simp add: memcmp_eq_def word_le_nat_alt)
qed

subsection \<open>The plugin contract\<close>

lemma bit_seq_match_from_range:
  "bit_seq_match_from buffer pattern pSize fSize pos = Inr r \<Longrightarrow> r = 0 \<or> r = 1"
proof (induction buffer pattern pSize fSize pos rule: bit_seq_match_from.induct)
  case (1 buffer pattern pSize fSize pos)
  from 1(2) show ?case
    by (subst (asm) bit_seq_match_from.simps) (auto split: if_splits dest: 1(1))
qed

fun flow_opts :: "nhh_flow \<Rightarrow> c_option list" where
  "flow_opts (NextOption st) = nl_opts st"
| "flow_opts (ReturnError st) = nl_opts st"

lemma names_set_buf [simp]: "map opt_name (set_buf os k b) = map opt_name os"
  by (cases "k < length os") (simp_all add: set_buf_def map_update list_update_same_conv list_update_beyond)

lemma nhh_convert_names:
  "nhh_convert st k off = Inr fl \<Longrightarrow> map opt_name (flow_opts fl) = map opt_name (nl_opts st)"
  by (auto simp: nhh_convert_def Let_def split: if_splits prod.splits)

lemma nhh_option_names:
  "nhh_option st i = Inr fl \<Longrightarrow> map opt_name (flow_opts fl) = map opt_name (nl_opts st)"
  by (auto simp: nhh_option_def Let_def dest: nhh_convert_names split: option.splits prod.splits)

lemma nhh_options_names:
  "nhh_options st is = Inr fl \<Longrightarrow> map opt_name (flow_opts fl) = map opt_name (nl_opts st)"
proof (induction st "is" rule: nhh_options.induct)
  case (2 st i "is")
  then obtain f1 where f1: "nhh_option st i = Inr f1" by auto
  show ?case
    using 2 nhh_option_names [OF f1] by (cases f1) (auto simp: f1)
qed auto

lemma nhh_process_file_contract:
  assumes "nhh_process_file fs f os p = Inr (r, os', p')"
  shows "(r = -1 \<or> r = 0 \<or> r = 1) \<and> map opt_name os' = map opt_name os \<and> p_maps p' = p_maps p \<and>
    p_fds p \<le> p_fds p' \<and> p_fds p' \<le> Suc (p_fds p) \<and> (0 \<le> r \<longrightarrow> p_fds p' = p_fds p)"
proof (cases "vf_open (fs f) = None \<and> vf_fstat (fs f) = None \<and> vf_data (fs f) \<noteq> [] \<and> os \<noteq> []")
  case False
  with assms show ?thesis
    by (auto simp: nhh_process_file_def Let_def proc_ops split: option.splits if_splits)
next
  case True
  with assms obtain fl where fl: "nhh_options (nhh_init os) [0..<length os] = Inr fl"
    by (auto simp: nhh_process_file_def Let_def)
  from fl have names: "map opt_name (flow_opts fl) = map opt_name os"
    by (auto dest!: nhh_options_names simp: nhh_init_def)
  show ?thesis
  proof (cases fl)
    case (ReturnError st)
    with True assms fl names show ?thesis
      by (auto simp: nhh_process_file_def Let_def proc_ops)
  next
    case (NextOption st)
    with True assms fl names show ?thesis
      by (auto simp: nhh_process_file_def Let_def proc_ops bit_seq_match_def
          split: if_splits option.splits dest: bit_seq_match_from_range)
  qed
qed

interpretation nhh: plugin_iface nhh_process_file
  by unfold_locales (use nhh_process_file_contract in blast)+

interpretation nhh_info: plugin_describes nhh_get_info
  by unfold_locales (auto simp: nhh_get_info_def g_po_arr_def)

subsection \<open>What the argument means\<close>

text \<open>
  The abstract meaning of a \<^verbatim>\<open>--bit-seq\<close> argument: the number and how many of its bytes are
  searched for, or nothing when the argument is malformed.
\<close>

definition pattern_spec :: "string \<Rightarrow> (int \<times> nat) option" where
  "pattern_spec s =
     (let base = pattern_base s;
          s1 = (if base = 2 then drop 2 s else s);
          (v, rest, _) = strtoll_c base s1
      in if rest \<noteq> [] then None
         else Some (v, if base = 16 then (length s - 1) div 2
                       else if base = 2 then (length s1 + 7) div 8
                       else (length (show_hex (word_of_int v)) + 1) div 2))"

lemma pattern_spec_hex:
  "pattern_base s = 16 \<Longrightarrow> strtoll_c 16 s = (v, [], e) \<Longrightarrow> pattern_spec s = Some (v, (length s - 1) div 2)"
  by (simp add: pattern_spec_def)

lemma pattern_spec_bin:
  "pattern_base s = 2 \<Longrightarrow> strtoll_c 2 (drop 2 s) = (v, [], e) \<Longrightarrow>
    pattern_spec s = Some (v, (length s - 2 + 7) div 8)"
  by (simp add: pattern_spec_def)

lemma pattern_spec_dec:
  "pattern_base s = 10 \<Longrightarrow> strtoll_c 10 s = (v, [], e) \<Longrightarrow>
    pattern_spec s = Some (v, (length (show_hex (word_of_int v)) + 1) div 2)"
  by (simp add: pattern_spec_def)

lemma pattern_base_cases: "pattern_base s = 16 \<or> pattern_base s = 2 \<or> pattern_base s = 10"
  by (simp add: pattern_base_def)

lemma pattern_base_16_length: "pattern_base s = 16 \<Longrightarrow> 2 \<le> length s"
  by (cases s; cases "tl s") (auto simp: pattern_base_def starts_with2_def split: if_splits)

text \<open>The options a search passes: one \<^verbatim>\<open>--bit-seq\<close> with its argument buffer.\<close>

definition bit_seq_opt :: "cbuf \<Rightarrow> c_option" where
  "bit_seq_opt b = \<lparr>opt_name = OPT_BIT_SEQ, opt_has_arg = required_argument, opt_flag = Some b, opt_val = 0\<rparr>"

text \<open>In base 10 both images have to fit the buffer.\<close>

definition rewrite_fits :: "cbuf \<Rightarrow> bool" where
  "rewrite_fits b \<longleftrightarrow>
     (pattern_base (buf_str b) = 10 \<longrightarrow>
       (case strtoll_c 10 (buf_str b) of (v, rest, _) \<Rightarrow> rest = [] \<longrightarrow>
         length (show_hex (word_of_int v)) < buf_cap b \<and> length (show_dec v) < buf_cap b))"

definition rewritten :: "cbuf \<Rightarrow> cbuf" where
  "rewritten b = (if pattern_base (buf_str b) = 10
     then b\<lparr>buf_str := show_dec (fst (strtoll_c 10 (buf_str b)))\<rparr> else b)"

lemma nhh_options_single:
  assumes spec: "pattern_spec (buf_str b) = Some (v, n)" and fits: "rewrite_fits b"
  shows "\<exists>st. nhh_options (nhh_init [bit_seq_opt b]) [0] = Inr (NextOption st) \<and>
    nl_opts st = [bit_seq_opt (rewritten b)] \<and> nl_pattern st = v \<and> nl_pat_size st = n \<and> nl_got st"
proof -
  consider "pattern_base (buf_str b) = 16" | "pattern_base (buf_str b) = 2" | "pattern_base (buf_str b) = 10"
    using pattern_base_cases by blast
  then show ?thesis
  proof cases
    case 1
    with spec show ?thesis
      using pattern_base_16_length [OF 1]
      by (auto simp: pattern_spec_def nhh_init_def nhh_option_def nhh_convert_def Let_def bit_seq_opt_def
          buf_at_def rewritten_def split: if_splits prod.splits)
  next
    case 2
    with spec show ?thesis
      by (auto simp del: add_2_eq_Suc' simp: pattern_spec_def nhh_init_def nhh_option_def nhh_convert_def Let_def bit_seq_opt_def
          buf_at_def rewritten_def split: if_splits prod.splits)
  next
    case 3
    with spec fits show ?thesis
      by (auto simp: pattern_spec_def nhh_init_def nhh_option_def nhh_convert_def Let_def bit_seq_opt_def
          buf_at_def rewritten_def rewrite_fits_def sprintf_c_def set_buf_def Suc_le_eq
          split: if_splits prod.splits)
  qed
qed

lemma nhh_process_file_single:
  assumes "readable (fs f)" and "pattern_spec (buf_str b) = Some (v, n)" and "rewrite_fits b"
  shows "nhh_process_file fs f [bit_seq_opt b] p =
    bind_c (bit_seq_match (vf_data (fs f)) (word_of_int v) (word_of_nat n) (word_of_nat (length (vf_data (fs f)))))
      (\<lambda>ret. Inr (ret, [bit_seq_opt (rewritten b)], p\<lparr>p_errno := 0\<rparr>))"
proof -
  obtain st where "nhh_options (nhh_init [bit_seq_opt b]) [0] = Inr (NextOption st)"
    and "nl_opts st = [bit_seq_opt (rewritten b)]" "nl_pattern st = v" "nl_pat_size st = n" "nl_got st"
    using nhh_options_single [OF assms(2,3)] by blast
  with assms(1) show ?thesis
    by (simp add: nhh_process_file_def readable_def proc_ops Let_def del: nhh_options.simps)
qed

lemma nhh_process_file_answer:
  assumes "readable (fs f)" and "pattern_spec (buf_str b) = Some (v, n)" and "rewrite_fits b" and "n \<le> 8"
  shows "nhh_process_file fs f [bit_seq_opt b] p =
    Inr (if sublist (take n (le_bytes (word_of_int v))) (vf_data (fs f)) then 1 else 0,
      [bit_seq_opt (rewritten b)], p\<lparr>p_errno := 0\<rparr>)"
  using assms by (simp add: nhh_process_file_single bit_seq_match_eq readable_def)

lemma show_dec_chars: "c \<in> set (show_dec v) \<Longrightarrow> c = CHR ''-'' \<or> digit_val c < 10"
  by (auto simp: show_dec_def show_nat_digits split: if_splits)

lemma pattern_base_show_dec: "pattern_base (show_dec v) = 10"
proof -
  have "\<not> starts_with2 (show_dec v) a c"
    if "c = CHR ''x'' \<or> c = CHR ''X'' \<or> c = CHR ''b'' \<or> c = CHR ''B''" for a c
  proof
    assume "starts_with2 (show_dec v) a c"
    then have "c \<in> set (take 2 (show_dec v @ [CHR 0x00]))" by (simp add: starts_with2_def)
    then have "c \<in> set (show_dec v) \<or> c = CHR 0x00" by (auto dest: in_set_takeD)
    then have "c = CHR ''-'' \<or> digit_val c < 10 \<or> c = CHR 0x00" using show_dec_chars by blast
    with that show False by (auto simp: digit_val_def)
  qed
  then show ?thesis by (simp add: pattern_base_def)
qed

lemma pattern_spec_rewritten:
  "pattern_spec (buf_str b) = Some (v, n) \<Longrightarrow> pattern_spec (buf_str (rewritten b)) = Some (v, n)"
proof (cases "pattern_base (buf_str b) = 10")
  case True
  assume spec: "pattern_spec (buf_str b) = Some (v, n)"
  have v: "LLONG_MIN \<le> v" "v \<le> LLONG_MAX"
    using spec True strtoll_c_range [of 10 "buf_str b"]
    by (auto simp: pattern_spec_def Let_def split: prod.splits if_splits)
  with spec True show ?thesis
    by (auto simp: pattern_spec_def rewritten_def Let_def pattern_base_show_dec strtoll_c_show_dec
        split: prod.splits if_splits)
qed (simp add: rewritten_def)

lemma rewrite_fits_rewritten: "rewrite_fits b \<Longrightarrow> pattern_spec (buf_str b) = Some (v, n) \<Longrightarrow> rewrite_fits (rewritten b)"
  using strtoll_c_range [of 10 "buf_str b"]
  by (auto simp: rewrite_fits_def rewritten_def pattern_spec_def Let_def pattern_base_show_dec strtoll_c_show_dec
      split: prod.splits if_splits)

text \<open>
  The options that ask for the first \<open>n\<close> bytes of \<open>v\<close>; the question is whether the file has them in a row.
\<close>

definition bit_seq_query :: "int \<Rightarrow> nat \<Rightarrow> c_option list \<Rightarrow> bool" where
  "bit_seq_query v n os \<longleftrightarrow> n \<le> 8 \<and>
     (\<exists>b. os = [bit_seq_opt b] \<and> pattern_spec (buf_str b) = Some (v, n) \<and> rewrite_fits b)"

definition has_bytes :: "int \<Rightarrow> nat \<Rightarrow> vfile \<Rightarrow> bool" where
  "has_bytes v n f \<longleftrightarrow> sublist (take n (le_bytes (word_of_int v))) (vf_data f)"

interpretation nhh_ans: plugin_answers nhh_process_file "bit_seq_query v n" "\<lambda>path f. has_bytes v n f" for v n
proof (unfold_locales, goal_cases)
  case (2 os fs f p)
  then obtain b where os: "os = [bit_seq_opt b]" and b: "n \<le> 8" "pattern_spec (buf_str b) = Some (v, n)" "rewrite_fits b"
    by (auto simp: bit_seq_query_def)
  have "bit_seq_query v n [bit_seq_opt (rewritten b)]"
    unfolding bit_seq_query_def using b pattern_spec_rewritten rewrite_fits_rewritten by blast
  then show ?case
    using nhh_process_file_answer [of fs f, OF 2(2) b(2,3,1), of p] os by (auto simp: has_bytes_def)
qed (auto simp: bit_seq_query_def)

lemma length_show_nat_le_value:
  assumes "2 \<le> b" and "b \<le> c" and "c \<le> 36" and "\<forall>x \<in> set ds. digit_val x < b" and "ds \<noteq> []"
    and "n \<le> digits_value b ds"
  shows "length (show_nat c n) \<le> length ds"
proof -
  have "n < b ^ length ds" using digits_value_less [of ds b] assms(4,6) by simp
  then have "length (nat_digits b n) \<le> length ds" using assms(1,5) by (intro length_nat_digits_le) auto
  then show ?thesis
    using length_nat_digits_antimono [OF assms(1,2), of n] by (simp add: show_nat_def)
qed

lemma decimal_rewrite_fits:
  assumes "pattern_base s = 10" and "strtoll_c 10 s = (v, [], e)" and "0 \<le> v" and "s \<noteq> []"
  shows "rewrite_fits (strdup_c s)"
proof -
  obtain neg s2 where s2: "strtol_sign (dropWhile isspace_c s) = (neg, s2)" by force
  let ?ds = "takeWhile (\<lambda>c. digit_val c < 10) s2"
  have eq: "strtoll_c 10 s = (let w = (if neg then - int (digits_value 10 ?ds) else int (digits_value 10 ?ds)) in
      if ?ds = [] then (0, s, False)
      else (saturate w, dropWhile (\<lambda>c. digit_val c < 10) s2, w < LLONG_MIN \<or> LLONG_MAX < w))"
    by (simp add: strtoll_c_def s2 strtol_base_def Let_def)
  have ne: "?ds \<noteq> []" using assms(2,4) by (auto simp: eq Let_def split: if_splits)
  with assms(2) have v: "v = saturate (if neg then - int (digits_value 10 ?ds) else int (digits_value 10 ?ds))"
    by (simp add: eq Let_def)
  then have le: "nat v \<le> digits_value 10 ?ds" using assms(3) by (auto simp: saturate_def c_limits split: if_splits)
  have lens: "length ?ds \<le> length s"
  proof -
    have "length s2 \<le> length (dropWhile isspace_c s)"
      using strtol_sign_suffix [OF s2] by (rule suffix_length_le)
    then show ?thesis using length_dropWhile_le [of isspace_c s] length_takeWhile_le [of _ s2]
      by (meson order_trans)
  qed
  have digs: "\<forall>x \<in> set ?ds. digit_val x < 10" using set_takeWhileD by fastforce
  have dec: "length (show_nat 10 (nat v)) \<le> length s" and hex: "length (show_nat 16 (nat v)) \<le> length s"
    using length_show_nat_le_value [of 10 10 ?ds "nat v"] length_show_nat_le_value [of 10 16 ?ds "nat v"]
      digs ne le lens by simp_all
  have "v \<le> LLONG_MAX" using strtoll_c_range [of 10 s] assms(2) by simp
  then have "unat (word_of_int v :: i64) = nat v"
    using assms(3) by (simp add: c_limits unsigned_of_int take_bit_int_eq_self nat_eq_iff)
  then show ?thesis
    using assms dec hex by (simp add: rewrite_fits_def strdup_c_def show_hex_def show_dec_def less_Suc_eq_le)
qed

lemma length_show_hex_negative:
  assumes "LLONG_MIN \<le> v" and "v < 0"
  shows "length (show_hex (word_of_int v)) = 16"
proof -
  have "v mod 2 ^ 64 = (v + 2 ^ 64) mod 2 ^ 64" by simp
  also have "\<dots> = v + 2 ^ 64" using assms by (intro mod_pos_pos_trivial) (simp_all add: c_limits)
  finally have "uint (word_of_int v :: i64) = v + 2 ^ 64"
    by (simp add: uint_word_of_int)
  then have "16 ^ 15 \<le> unat (word_of_int v :: i64)"
    using assms by (simp add: c_limits nat_le_iff le_nat_iff flip: nat_uint_eq)
  then have "15 < length (show_hex (word_of_int v))"
    by (simp add: show_hex_def show_nat_def length_nat_digits_gt)
  with length_show_hex [of "word_of_int v"] show ?thesis by simp
qed

subsection \<open>Properties\<close>

lemmas base_eval = pattern_base_def starts_with2_def



text \<open>
  C14: processing a file rewrites the argument buffer but not its meaning, so the next file is matched
  against the same bytes: running the plugin on a second file with the buffer the first run left gives the
  answer that the original argument gives.
\<close>

theorem nhh_pattern_stable:
  assumes "readable (fs f)" and "readable (fs g)" and "pattern_spec (buf_str b) = Some (v, n)"
    and "rewrite_fits b" and "n \<le> 8"
    and "nhh_process_file fs f [bit_seq_opt b] p = Inr (r, os', p')"
  shows "map_sum id fst (nhh_process_file fs g os' p') = map_sum id fst (nhh_process_file fs g [bit_seq_opt b] p)"
proof -
  have "bit_seq_query v n [bit_seq_opt b]" using assms(3-5) by (auto simp: bit_seq_query_def)
  then show ?thesis using assms(1,2,6) by (rule nhh_ans.answered_twice)
qed

theorem nhh_pattern_stable_witness:
  "map_sum id fst (nhh_process_file (\<lambda>_. plain_file [7]) ''g'' [bit_seq_opt (strdup_c ''007''\<lparr>buf_str := ''7''\<rparr>)] proc0)
    = map_sum id fst (nhh_process_file (\<lambda>_. plain_file [7]) ''g'' [bit_seq_opt (strdup_c ''007'')] proc0)"
proof -
  have base: "pattern_base ''007'' = 10" and val: "strtoll_c 10 ''007'' = (7, [], False)"
    by (simp_all add: base_eval strtol_eval)
  have hex: "show_hex (word_of_int 7) = ''7''" and dec: "show_dec 7 = ''7''"
    by code_simp+
  have spec: "pattern_spec (buf_str (strdup_c ''007'')) = Some (7, 1)"
    using pattern_spec_dec [OF base val] hex by (simp add: strdup_c_def)
  have fits: "rewrite_fits (strdup_c ''007'')"
    using decimal_rewrite_fits [OF base val] by simp
  have rew: "rewritten (strdup_c ''007'') = strdup_c ''007''\<lparr>buf_str := ''7''\<rparr>"
    using base val dec by (simp add: rewritten_def strdup_c_def)
  have run: "nhh_process_file (\<lambda>_. plain_file [7]) ''f'' [bit_seq_opt (strdup_c ''007'')] proc0 =
      Inr (if sublist (take 1 (le_bytes (word_of_int 7))) [7] then 1 else 0,
        [bit_seq_opt (strdup_c ''007''\<lparr>buf_str := ''7''\<rparr>)], proc0\<lparr>p_errno := 0\<rparr>)"
    using nhh_process_file_answer [where fs = "\<lambda>_. plain_file [7]" and f = "''f''" and p = proc0, OF _ spec fits]
    by (simp add: rew plain_file_def readable_def)
  have "proc0\<lparr>p_errno := 0\<rparr> = proc0" by (simp add: proc0_def)
  then show ?thesis
    using nhh_pattern_stable [where fs = "\<lambda>_. plain_file [7]" and f = "''f''" and g = "''g''" and p = proc0,
        OF _ _ spec fits _ run] by simp
qed

text \<open>
  A decimal argument that is not negative and not empty, in the buffer that \<^verbatim>\<open>strdup\<close> gave it, is
  printed back within that buffer, and the search then never leaves its buffers: the plugin answers 0 or 1 on
  every readable file.
\<close>

theorem nhh_decimal_safe:
  assumes "readable (fs f)" and "pattern_base s = 10" and "strtoll_c 10 s = (v, [], e)" and "0 \<le> v" and "s \<noteq> []"
  shows "\<exists>r os'. nhh_process_file fs f [bit_seq_opt (strdup_c s)] p = Inr (r, os', p\<lparr>p_errno := 0\<rparr>) \<and> (r = 0 \<or> r = 1)"
proof -
  have "length (show_hex (word_of_int v)) + 1 \<le> 17" using length_show_hex by simp
  then have "(length (show_hex (word_of_int v)) + 1) div 2 \<le> 8" by linarith
  moreover have "pattern_spec (buf_str (strdup_c s)) = Some (v, (length (show_hex (word_of_int v)) + 1) div 2)"
    using pattern_spec_dec [OF assms(2,3)] by (simp add: strdup_c_def)
  ultimately show ?thesis
    using nhh_process_file_answer [of fs f, OF assms(1) _ decimal_rewrite_fits [OF assms(2-5)]] by fastforce
qed

theorem nhh_decimal_safe_witness:
  "\<exists>r os'. nhh_process_file (\<lambda>_. plain_file [1, 2]) ''f'' [bit_seq_opt (strdup_c ''513'')] proc0 = Inr (r, os', proc0\<lparr>p_errno := 0\<rparr>)
    \<and> (r = 0 \<or> r = 1)"
  using nhh_decimal_safe [where fs = "\<lambda>_. plain_file [1, 2]" and f = "''f''" and s = "''513''" and v = 513 and e = False and p = proc0]
  by (simp add: base_eval strtol_eval)

text \<open>
  A negative decimal argument shorter than 16 characters overruns its buffer: its hexadecimal image has 16
  digits, and \<^verbatim>\<open>sprintf(pat, "%llx", pattern)\<close> writes them over a block of \<^verbatim>\<open>strlen + 1\<close> bytes.
\<close>

theorem nhh_negative_overflow:
  assumes "readable (fs f)" and "pattern_base s = 10" and "strtoll_c 10 s = (v, [], e)" and "v < 0" and "length s < 16"
  shows "nhh_process_file fs f [bit_seq_opt (strdup_c s)] p = Inl BufferOverflow"
proof -
  have "LLONG_MIN \<le> v" using strtoll_c_range [of 10 s] assms(3) by simp
  then have "length (show_hex (word_of_int v)) = 16" using assms(4) by (rule length_show_hex_negative)
  with assms show ?thesis
    by (simp add: nhh_process_file_def readable_def nhh_init_def nhh_option_def nhh_convert_def buf_at_def
        bit_seq_opt_def strdup_c_def sprintf_c_def)
qed

theorem nhh_negative_overflow_witness:
  "nhh_process_file (\<lambda>_. plain_file [0xff]) ''f'' [bit_seq_opt (strdup_c ''-1'')] proc0 = Inl BufferOverflow"
  using nhh_negative_overflow [where fs = "\<lambda>_. plain_file [0xff]" and f = "''f''" and s = "''-1''" and v = "-1" and e = False and p = proc0]
  by (simp add: base_eval strtol_eval)

text \<open>
  An argument of more than eight bytes makes the scan read past the 8-byte integer that holds the pattern,
  on the first comparison, for every readable file that is at least as long as the pattern.
\<close>

theorem nhh_long_pattern_overread:
  assumes "readable (fs f)" and "pattern_spec (buf_str b) = Some (v, n)" and "rewrite_fits b"
    and "8 < n" and "n \<le> length (vf_data (fs f))"
  shows "nhh_process_file fs f [bit_seq_opt b] p = Inl OutOfBounds"
  using assms
  by (simp add: nhh_process_file_single [of fs f, OF assms(1,2,3)] bit_seq_match_overread readable_def)

theorem nhh_long_pattern_overread_witness:
  "nhh_process_file (\<lambda>_. plain_file (replicate 9 1)) ''f'' [bit_seq_opt (strdup_c ''0x010101010101010101'')] proc0 = Inl OutOfBounds"
proof -
  let ?s = "''0x010101010101010101''"
  have base: "pattern_base ?s = 16" by (simp add: base_eval)
  have val: "strtoll_c 16 ?s = (LLONG_MAX, [], True)" by (simp add: strtol_eval)
  have "pattern_spec (buf_str (strdup_c ?s)) = Some (LLONG_MAX, 9)"
    using pattern_spec_hex [OF base val] by (simp add: strdup_c_def)
  moreover have "rewrite_fits (strdup_c ?s)" using base by (simp add: rewrite_fits_def strdup_c_def)
  moreover have "vf_data (plain_file (replicate 9 1)) = replicate 9 1" by (simp add: plain_file_def)
  ultimately show ?thesis
    using nhh_long_pattern_overread [where fs = "\<lambda>_. plain_file (replicate 9 1)" and f = "''f''"
        and b = "strdup_c ?s" and v = LLONG_MAX and n = 9 and p = proc0] by simp
qed

text \<open>
  A malformed argument is reported as \<^verbatim>\<open>EINVAL\<close> with result -1 and the options unchanged, but the
  descriptor that was opened for the file is never closed.
\<close>

theorem nhh_malformed_leaks_fd:
  assumes "readable (fs f)" and "pattern_spec (buf_str b) = None"
  shows "nhh_process_file fs f [bit_seq_opt b] p = Inr (-1, [bit_seq_opt b], p\<lparr>p_errno := EINVAL, p_fds := Suc (p_fds p)\<rparr>)"
proof -
  have "\<exists>st. nhh_options (nhh_init [bit_seq_opt b]) [0] = Inr (ReturnError st) \<and> nl_opts st = [bit_seq_opt b]"
    using assms(2)
    by (auto simp: pattern_spec_def nhh_init_def nhh_option_def nhh_convert_def Let_def bit_seq_opt_def buf_at_def
        simp del: add_2_eq_Suc' split: if_splits prod.splits)
  then show ?thesis
    using assms(1) by (auto simp: nhh_process_file_def readable_def proc_ops Let_def simp del: nhh_options.simps)
qed

theorem nhh_malformed_leaks_fd_witness:
  "nhh_process_file (\<lambda>_. plain_file [1]) ''f'' [bit_seq_opt (strdup_c ''12z'')] proc0 =
    Inr (-1, [bit_seq_opt (strdup_c ''12z'')], proc0\<lparr>p_errno := EINVAL, p_fds := 4\<rparr>)"
proof -
  have "strtoll_c 10 ''12z'' = (12, ''z'', False)" by (simp add: strtol_eval)
  moreover have "pattern_base ''12z'' = 10" by (simp add: base_eval)
  ultimately have "pattern_spec (buf_str (strdup_c ''12z'')) = None" by (simp add: pattern_spec_def strdup_c_def)
  then show ?thesis
    using nhh_malformed_leaks_fd [where fs = "\<lambda>_. plain_file [1]" and f = "''f''" and b = "strdup_c ''12z''" and p = proc0]
    by (simp add: proc0_def)
qed

end
