(* ===== verification/Lib_Typefile.thy ===== *)
theory Lib_Typefile
  imports Plugin_Api
begin

section \<open>The file-type plugin (lib_typefile.c)\<close>

text \<open>
  \<^verbatim>\<open>src/lab1nhhN3249/lib_typefile.c\<close>: the plugin opens the file, refuses an empty one and
  answers from the extension of its path. The \<^verbatim>\<open>LAB1DEBUG\<close> diagnostics are left out.
\<close>

definition OPT_TEXT :: string where "OPT_TEXT = ''txt''"

definition tf_po_arr :: "plugin_option list" where
  "tf_po_arr =
     [\<lparr>po_opt = \<lparr>opt_name = OPT_TEXT, opt_has_arg = no_argument, opt_flag = None, opt_val = 0\<rparr>,
       po_descr = ''Text file''\<rparr>]"

definition tf_get_info :: pgi_func_t where
  "tf_get_info ppi = (case ppi of
       None \<Rightarrow> (-1, None)
     | Some pi \<Rightarrow> (0, Some (pi\<lparr>
         plugin_purpose := ''Check type of a file'',
         plugin_author := ''Nguyen Hong Hanh'',
         sup_opts_len := length tf_po_arr,
         sup_opts := tf_po_arr\<rparr>)))"

definition tf_get_filename_ext :: "string \<Rightarrow> string" where
  "tf_get_filename_ext filename = dot_ext filename"

definition is_txt :: "string \<Rightarrow> int" where
  "is_txt filename = (if tf_get_filename_ext filename = ''.txt'' then 1 else 0)"

text \<open>The loop over the options: the last matching option decides, -1 when none matches.\<close>

fun tf_options :: "string \<Rightarrow> c_option list \<Rightarrow> int \<Rightarrow> int" where
  "tf_options fname [] ret = ret"
| "tf_options fname (o1 # os) ret =
     tf_options fname os (if opt_name o1 = OPT_TEXT then is_txt fname else ret)"

definition tf_process_file :: ppf_func_t where
  "tf_process_file fs fname in_opts p =
     (if length in_opts = 0 then Inr (-1, in_opts, set_errno EINVAL p)
      else with_file (fs fname) in_opts p (\<lambda>p1. Inr (finish (tf_options fname in_opts (-1)) 0 in_opts p1)))"

subsection \<open>The plugin contract\<close>

lemma tf_options_eq:
  "tf_options fname os ret = (if OPT_TEXT \<in> opt_name ` set os then is_txt fname else ret)"
  by (induction os arbitrary: ret) auto

lemma is_txt_range: "is_txt f = 0 \<or> is_txt f = 1"
  by (simp add: is_txt_def)

lemma is_txt_iff: "is_txt f = 1 \<longleftrightarrow> (\<exists>q. q \<noteq> [] \<and> f = q @ ''.txt'')"
  using dot_ext_eq_iff [of "''txt''" f] by (simp add: is_txt_def tf_get_filename_ext_def)

lemma tf_process_file_contract:
  assumes "tf_process_file fs f os p = Inr (r, os', p')"
  shows "(r = -1 \<or> r = 0 \<or> r = 1) \<and> os' = os \<and> p_maps p' = p_maps p \<and> p_fds p' = p_fds p"
proof (cases "os = []")
  case True
  with assms show ?thesis by (auto simp: tf_process_file_def proc_ops)
next
  case False
  with assms have "with_file (fs f) os p (\<lambda>p1. Inr (finish (tf_options f os (-1)) 0 os p1)) = Inr (r, os', p')"
    by (simp add: tf_process_file_def)
  then show ?thesis
    by (cases rule: with_file_cases)
      (use is_txt_range [of f] in \<open>auto simp: finish_def proc_ops tf_options_eq split: if_splits\<close>)
qed

interpretation tf: plugin_leak_free tf_process_file
  by unfold_locales (use tf_process_file_contract in blast | use tf_process_file_contract in force)+

interpretation tf_info: plugin_describes tf_get_info
  by unfold_locales (auto simp: tf_get_info_def tf_po_arr_def)

lemma tf_process_file_answer:
  assumes "readable (fs f)" and "OPT_TEXT \<in> opt_name ` set os"
  shows "tf_process_file fs f os p = Inr (is_txt f, os, p\<lparr>p_errno := 0\<rparr>)"
proof -
  have "os \<noteq> []" using assms(2) by auto
  then show ?thesis
    using assms by (simp add: tf_process_file_def with_file_readable finish_def tf_options_eq proc_ops)
qed

interpretation tf_ans: plugin_answers tf_process_file "\<lambda>os. OPT_TEXT \<in> opt_name ` set os"
    "\<lambda>path f. is_txt path = 1"
proof (unfold_locales, goal_cases)
  case (2 os fs f p)
  then show ?case using is_txt_range [of f] by (auto simp: tf_process_file_answer)
qed auto

subsection \<open>Properties\<close>

definition txt_opt :: c_option where
  "txt_opt = \<lparr>opt_name = OPT_TEXT, opt_has_arg = no_argument, opt_flag = None, opt_val = 0\<rparr>"

text \<open>
  Given the option \<^verbatim>\<open>--txt\<close>, the file-type plugin answers 1 on a readable file exactly when its path
  is a non-empty name followed by \<^verbatim>\<open>.txt\<close>, and 0 otherwise, whatever the file contains; the options and
  the descriptors of the process are unchanged.
\<close>

theorem tf_txt_by_name:
  assumes "readable (fs f)" and "OPT_TEXT \<in> opt_name ` set os"
  shows "tf_process_file fs f os p =
    Inr (if \<exists>q. q \<noteq> [] \<and> f = q @ ''.txt'' then 1 else 0, os, p\<lparr>p_errno := 0\<rparr>)"
  using assms is_txt_iff [of f] is_txt_range [of f] by (auto simp: tf_process_file_answer)

theorem tf_txt_by_name_witness:
  "tf_process_file (\<lambda>_. plain_file [65]) ''a/b.txt'' [txt_opt] proc0 = Inr (1, [txt_opt], proc0)"
proof -
  have "\<exists>q. q \<noteq> [] \<and> ''a/b.txt'' = q @ ''.txt''" by (rule exI [of _ "''a/b''"]) simp
  then show ?thesis
    using tf_txt_by_name [where fs = "\<lambda>_. plain_file [65]" and f = "''a/b.txt''" and os = "[txt_opt]" and p = proc0]
    by (simp add: txt_opt_def proc0_def)
qed

end
