(* ===== verification/Lib_Avg.thy ===== *)
theory Lib_Avg
  imports Plugin_Api Complex_Main "HOL-Library.Log_Nat"
begin

section \<open>The entropy plugin (lab1test/libavg.c)\<close>

text \<open>
  \<^verbatim>\<open>src/lab1test/libavg.c\<close>: option parsing with duplicate checks, normalisation of the offsets, the
  frequency table and the entropy. Floating-point arithmetic is idealised: a \<^verbatim>\<open>double\<close> is a real
  number, and \<^verbatim>\<open>strtod\<close> is a parameter that returns the value and the rest of the string; infinities and
  NaN are outside the model. What the
  source does with integers through \<^verbatim>\<open>double\<close> is kept: the conditional operator in \<^verbatim>\<open>OPT_CHECK\<close>
  converts the result of \<^verbatim>\<open>strtol\<close> to \<^verbatim>\<open>double\<close>, with 53 bits of precision, before it is converted
  to \<^verbatim>\<open>size_t\<close>. Diagnostics under \<^verbatim>\<open>LAB1DEBUG\<close> are left out.
\<close>

subsection \<open>Description\<close>

definition avg_opt :: "string \<Rightarrow> string \<Rightarrow> plugin_option" where
  "avg_opt name descr =
     \<lparr>po_opt = \<lparr>opt_name = name, opt_has_arg = required_argument, opt_flag = None, opt_val = 0\<rparr>, po_descr = descr\<rparr>"

definition avg_po_arr :: "plugin_option list" where
  "avg_po_arr =
     [avg_opt ''entropy'' ''Target value of entropy'',
      avg_opt ''offset-from'' ''Start offset'',
      avg_opt ''offset-to'' ''End offset'']"

definition avg_get_info :: pgi_func_t where
  "avg_get_info ppi = (case ppi of
       None \<Rightarrow> (-1, None)
     | Some info \<Rightarrow> (0, Some (info\<lparr>
         plugin_purpose := ''Check if entropy of a file or its part is less than the given value'',
         plugin_author := ''Alexei Guirik'',
         sup_opts_len := length avg_po_arr,
         sup_opts := avg_po_arr\<rparr>)))"

subsection \<open>Options\<close>

record avg_args =
  aa_entropy :: real
  aa_from :: nat
  aa_to :: nat
  aa_got_entropy :: bool
  aa_got_from :: bool
  aa_got_to :: bool

definition avg_args0 :: avg_args where
  "avg_args0 = \<lparr>aa_entropy = 0, aa_from = 0, aa_to = 0,
     aa_got_entropy = False, aa_got_from = False, aa_got_to = False\<rparr>"

text \<open>An integer converted to \<^verbatim>\<open>double\<close>: 53 significant bits, ties to even; and on to \<^verbatim>\<open>size_t\<close>,
  which is undefined for a negative value.\<close>

definition round_double :: "nat \<Rightarrow> nat" where
  "round_double n =
     (if n < 2 ^ 53 then n
      else let e = floorlog 2 n - 53; q = n div 2 ^ e; r = n mod 2 ^ e; h = 2 ^ (e - 1)
           in (if h < r \<or> (r = h \<and> odd q) then q + 1 else q) * 2 ^ e)"

definition double_to_size_t :: "int \<Rightarrow> nat cres" where
  "double_to_size_t v = (if v < 0 then Inl BadConversion else Inr (round_double (nat v)))"

datatype avg_flow = AvgNext avg_args | AvgInvalid

text \<open>The macro \<^verbatim>\<open>OPT_CHECK\<close> for the two kinds of option.\<close>

definition check_double :: "(string \<Rightarrow> real \<times> string) \<Rightarrow> cbuf option \<Rightarrow> (real \<Rightarrow> avg_args) \<Rightarrow> avg_flow cres" where
  "check_double strtod fl k = (case fl of
       None \<Rightarrow> Inl NullDeref
     | Some b \<Rightarrow> (case strtod (buf_str b) of (v, endptr) \<Rightarrow>
         if endptr \<noteq> [] then Inr AvgInvalid else Inr (AvgNext (k v))))"

definition check_long :: "cbuf option \<Rightarrow> (nat \<Rightarrow> avg_args) \<Rightarrow> avg_flow cres" where
  "check_long fl k = (case fl of
       None \<Rightarrow> Inl NullDeref
     | Some b \<Rightarrow> (case strtoll_c 0 (buf_str b) of (v, endptr, _) \<Rightarrow>
         bind_c (double_to_size_t v) (\<lambda>n. if endptr \<noteq> [] then Inr AvgInvalid else Inr (AvgNext (k n)))))"

definition avg_option :: "(string \<Rightarrow> real \<times> string) \<Rightarrow> avg_args \<Rightarrow> c_option \<Rightarrow> avg_flow cres" where
  "avg_option strtod st o1 =
     (if opt_name o1 = ''entropy'' then
        if aa_got_entropy st then Inr AvgInvalid
        else check_double strtod (opt_flag o1) (\<lambda>v. st\<lparr>aa_entropy := v, aa_got_entropy := True\<rparr>)
      else if opt_name o1 = ''offset-from'' then
        if aa_got_from st then Inr AvgInvalid
        else check_long (opt_flag o1) (\<lambda>n. st\<lparr>aa_from := n, aa_got_from := True\<rparr>)
      else if opt_name o1 = ''offset-to'' then
        if aa_got_to st then Inr AvgInvalid
        else check_long (opt_flag o1) (\<lambda>n. st\<lparr>aa_to := n, aa_got_to := True\<rparr>)
      else Inr AvgInvalid)"

fun avg_options :: "(string \<Rightarrow> real \<times> string) \<Rightarrow> avg_args \<Rightarrow> c_option list \<Rightarrow> avg_flow cres" where
  "avg_options strtod st [] = Inr (AvgNext st)"
| "avg_options strtod st (o1 # os) =
     bind_c (avg_option strtod st o1) (\<lambda>fl. case fl of
         AvgInvalid \<Rightarrow> Inr AvgInvalid
       | AvgNext st' \<Rightarrow> avg_options strtod st' os)"

subsection \<open>calculate_entropy\<close>

text \<open>The loop \<^verbatim>\<open>while (ptr <= pend) freq_table[*ptr++] += 1\<close> over the mapped bytes.\<close>

function freq_loop :: "byte list \<Rightarrow> nat \<Rightarrow> nat \<Rightarrow> nat list \<Rightarrow> nat list cres" where
  "freq_loop p i pend t =
     (if i \<le> pend then
        if i < length p then freq_loop p (Suc i) pend (t[unat (p ! i) := t ! unat (p ! i) + 1])
        else Inl OutOfBounds
      else Inr t)"
  by pat_completeness auto
termination
  by (relation "measure (\<lambda>(p, i, pend, t). Suc pend - i)") auto

declare freq_loop.simps [simp del]

definition entropy_step :: "nat \<Rightarrow> real \<Rightarrow> nat \<Rightarrow> real" where
  "entropy_step total_size acc f =
     (let prob = real f / real total_size in if prob > 0 then acc - prob * log 2 prob else acc)"

definition calculate_entropy :: "byte list \<Rightarrow> nat \<Rightarrow> nat \<Rightarrow> real cres" where
  "calculate_entropy p offset_from offset_to =
     bind_c (freq_loop p offset_from offset_to (replicate 256 0)) (\<lambda>freq_table.
       Inr (foldl (entropy_step (offset_to - offset_from + 1)) 0 freq_table / 8))"

subsection \<open>plugin_process_file\<close>

definition avg_process_file :: "(string \<Rightarrow> real \<times> string) \<Rightarrow> ppf_func_t" where
  "avg_process_file strtod fs fname in_opts p =
     (if length in_opts = 0 then Inr (-1, in_opts, set_errno EINVAL p)
      else bind_c (avg_options strtod avg_args0 in_opts) (\<lambda>fl. case fl of
          AvgInvalid \<Rightarrow> Inr (-1, in_opts, set_errno EINVAL p)
        | AvgNext st \<Rightarrow>
          if \<not> aa_got_entropy st then Inr (-1, in_opts, set_errno EINVAL p)
          else if aa_entropy st < 0 \<or> 1 < aa_entropy st then Inr (-1, in_opts, set_errno ERANGE p)
          else with_file (fs fname) in_opts p (\<lambda>p1.
            let size = length (vf_data (fs fname));
                to = (if aa_to st = 0 \<or> size \<le> aa_to st then size - 1 else aa_to st)
            in if size \<le> aa_from st then Inr (finish (-1) ERANGE in_opts p1)
               else if to \<le> aa_from st then Inr (finish (-1) ERANGE in_opts p1)
               else case vf_mmap (fs fname) of
                   Some e \<Rightarrow> Inr (finish (-1) e in_opts p1)
                 | None \<Rightarrow>
                   bind_c (calculate_entropy (vf_data (fs fname)) (aa_from st) to) (\<lambda>h.
                     Inr (finish (if aa_entropy st \<le> h then 1 else 0) 0 in_opts (unmap_file (map_file p1)))))))"

subsection \<open>The frequency table\<close>

definition byte_range :: "'a list \<Rightarrow> nat \<Rightarrow> nat \<Rightarrow> 'a list" where
  "byte_range p i j = take (Suc j - i) (drop i p)"

lemma byte_range_step: "i \<le> j \<Longrightarrow> i < length p \<Longrightarrow> byte_range p i j = p ! i # byte_range p (Suc i) j"
  by (simp add: byte_range_def Suc_diff_le flip: Cons_nth_drop_Suc)

lemma length_byte_range: "j < length p \<Longrightarrow> length (byte_range p i j) = Suc j - i"
  by (simp add: byte_range_def)

lemma freq_loop_eq:
  assumes "j < length p" and "length t = 256"
  shows "freq_loop p i j t = Inr (map (\<lambda>b. t ! b + count_list (byte_range p i j) (word_of_nat b)) [0..<256])"
  using assms
proof (induction p i j t rule: freq_loop.induct)
  case (1 p i j t)
  show ?case
  proof (cases "i \<le> j")
    case False
    then have "freq_loop p i j t = Inr (map ((!) t) [0..<length t])"
      by (simp add: freq_loop.simps [of p i] map_nth)
    with False 1(3) show ?thesis by (simp add: byte_range_def)
  next
    case True
    let ?t = "t[unat (p ! i) := t ! unat (p ! i) + 1]"
    have byte: "unat (p ! i) < 256" using unsigned_less [of "p ! i"] by simp
    have upd: "?t ! b + count_list (byte_range p (Suc i) j) (word_of_nat b) =
        t ! b + count_list (byte_range p i j) (word_of_nat b)" if "b < 256" for b
    proof (cases "b = unat (p ! i)")
      case b: True
      with True 1(2,3) byte show ?thesis by (simp add: byte_range_step)
    next
      case b: False
      then have "p ! i \<noteq> word_of_nat b" using that by (auto simp: unat_of_nat take_bit_nat_eq_self)
      with True b 1(2) show ?thesis by (simp add: byte_range_step)
    qed
    have "freq_loop p i j t = freq_loop p (Suc i) j ?t"
      using True 1(2) by (simp add: freq_loop.simps [of p i])
    also have "\<dots> = Inr (map (\<lambda>b. ?t ! b + count_list (byte_range p (Suc i) j) (word_of_nat b)) [0..<256])"
      using 1 True by simp
    also have "\<dots> = Inr (map (\<lambda>b. t ! b + count_list (byte_range p i j) (word_of_nat b)) [0..<256])"
      using upd by auto
    finally show ?thesis .
  qed
qed

subsection \<open>Entropy of a byte sequence\<close>

text \<open>The specification: Shannon entropy, in bits, of the byte distribution of a sequence.\<close>

definition prob :: "byte list \<Rightarrow> byte \<Rightarrow> real" where
  "prob xs b = real (count_list xs b) / real (length xs)"

definition shannon :: "byte list \<Rightarrow> real" where
  "shannon xs = (\<Sum>b \<in> UNIV. - (prob xs b * log 2 (prob xs b)))"

lemma foldl_entropy_step:
  "foldl (entropy_step n) acc fs = acc + (\<Sum>f\<leftarrow>fs. - (real f / real n * log 2 (real f / real n)))"
proof (induction fs arbitrary: acc)
  case (Cons f fs)
  have "entropy_step n acc f = acc - real f / real n * log 2 (real f / real n)"
    by (cases "real f / real n > 0") (auto simp: entropy_step_def Let_def zero_less_divide_iff)
  with Cons show ?case by simp
qed simp

lemma bij_word_of_nat: "bij_betw (word_of_nat :: nat \<Rightarrow> byte) {0..<256} UNIV"
  by (rule bij_betw_byWitness [where f' = unat])
    (auto simp: unat_of_nat take_bit_nat_eq_self intro: unsigned_less [where ?'b = 8, simplified])

lemma calculate_entropy_eq:
  assumes "i \<le> j" and "j < length p"
  shows "calculate_entropy p i j = Inr (shannon (byte_range p i j) / 8)"
proof -
  let ?xs = "byte_range p i j"
  have n: "j - i + 1 = length ?xs" using assms by (simp add: length_byte_range Suc_diff_le)
  have "freq_loop p i j (replicate 256 0) = Inr (map (\<lambda>b. count_list ?xs (word_of_nat b)) [0..<256])"
    using assms by (simp add: freq_loop_eq)
  moreover have "(\<Sum>b\<leftarrow>[0..<256]. - (prob ?xs (word_of_nat b) * log 2 (prob ?xs (word_of_nat b)))) = shannon ?xs"
    unfolding shannon_def sum.reindex_bij_betw [OF bij_word_of_nat, symmetric]
    by (simp add: interv_sum_list_conv_sum_set_nat)
  ultimately show ?thesis
    unfolding calculate_entropy_def foldl_entropy_step n by (simp add: comp_def prob_def)
qed

lemma sum_prob: "xs \<noteq> [] \<Longrightarrow> (\<Sum>b \<in> UNIV. prob xs b) = 1"
proof -
  assume "xs \<noteq> []"
  have "(\<Sum>b \<in> UNIV. count_list xs b) = length xs"
    by (rule sum_count_set) auto
  then have "(\<Sum>b \<in> UNIV. real (count_list xs b)) = real (length xs)"
    by (metis of_nat_sum)
  with \<open>xs \<noteq> []\<close> show ?thesis by (simp add: prob_def flip: sum_divide_distrib)
qed

lemma prob_range: "0 \<le> prob xs b \<and> prob xs b \<le> 1"
  by (simp add: prob_def divide_le_eq_1 count_le_length)

lemma shannon_nonneg: "0 \<le> shannon xs"
  unfolding shannon_def
proof (rule sum_nonneg)
  fix b
  have "log 2 (prob xs b) \<le> 0 \<or> prob xs b = 0"
    using prob_range [of xs b] by (cases "prob xs b = 0") (auto simp: log_le_zero_cancel_iff)
  then show "0 \<le> - (prob xs b * log 2 (prob xs b))"
    using prob_range [of xs b] by (auto simp: mult_nonneg_nonpos)
qed

text \<open>Gibbs' inequality against the uniform distribution, termwise.\<close>

lemma gibbs_term:
  assumes "0 \<le> p"
  shows "- (p * log 2 p) \<le> 8 * p + (1 / 256 - p) / ln 2"
proof (cases "p = 0")
  case False
  then have p: "0 < p" using assms by simp
  have l256: "log 2 (1 / (256 * p)) = - 8 - log 2 p"
  proof -
    have "log 2 (256::real) = 8" using log_pow_cancel [of "2::real" 8] by simp
    then show ?thesis using p by (simp add: log_divide log_mult)
  qed
  have "ln (1 / (256 * p)) \<le> 1 / (256 * p) - 1" using p by (intro ln_le_minus_one) simp
  then have "log 2 (1 / (256 * p)) \<le> (1 / (256 * p) - 1) / ln 2"
    by (simp add: log_def divide_right_mono)
  then have "p * log 2 (1 / (256 * p)) \<le> p * ((1 / (256 * p) - 1) / ln 2)"
    using p by (intro mult_left_mono) auto
  also have "p * ((1 / (256 * p) - 1) / ln 2) = (1 / 256 - p) / ln 2" using p by (simp add: field_simps)
  finally have "p * (- 8 - log 2 p) \<le> (1 / 256 - p) / ln 2" unfolding l256 .
  then show ?thesis by (simp add: right_diff_distrib)
qed (simp add: divide_nonneg_pos)

lemma shannon_le_8:
  assumes "xs \<noteq> []"
  shows "shannon xs \<le> 8"
proof -
  have "shannon xs \<le> (\<Sum>b \<in> (UNIV :: byte set). 8 * prob xs b + (1 / 256 - prob xs b) / ln 2)"
    unfolding shannon_def using prob_range by (intro sum_mono gibbs_term) blast
  also have "\<dots> = 8 * (\<Sum>b \<in> UNIV. prob xs b) + (1 - (\<Sum>b \<in> UNIV. prob xs b)) / ln 2"
    by (simp add: sum.distrib sum_subtractf card_word flip: sum_distrib_left sum_divide_distrib)
  finally show ?thesis using sum_prob [OF assms] by simp
qed

subsection \<open>The plugin contract\<close>

lemma avg_process_file_contract:
  assumes "avg_process_file strtod fs f os p = Inr (r, os', p')"
  shows "(r = -1 \<or> r = 0 \<or> r = 1) \<and> os' = os \<and> p_maps p' = p_maps p \<and> p_fds p' = p_fds p"
proof (cases "os = []")
  case True
  with assms show ?thesis by (auto simp: avg_process_file_def proc_ops)
next
  case False
  with assms obtain fl where fl: "avg_options strtod avg_args0 os = Inr fl" by (auto simp: avg_process_file_def)
  show ?thesis
  proof (cases fl)
    case AvgInvalid
    with assms False fl show ?thesis by (auto simp: avg_process_file_def proc_ops)
  next
    case (AvgNext st)
    show ?thesis
    proof (cases "\<not> aa_got_entropy st \<or> aa_entropy st < 0 \<or> 1 < aa_entropy st")
      case True
      with assms False fl AvgNext show ?thesis by (auto simp: avg_process_file_def proc_ops split: if_splits)
    next
      case ok: False
      with assms False fl AvgNext show ?thesis
        by (simp add: avg_process_file_def) (erule with_file_cases;
          auto simp: finish_def proc_ops Let_def split: if_splits option.splits)
    qed
  qed
qed

interpretation avg: plugin_leak_free "avg_process_file strtod" for strtod
  by unfold_locales (use avg_process_file_contract in blast | use avg_process_file_contract in force)+

interpretation avg_info: plugin_describes avg_get_info
  by unfold_locales (auto simp: avg_get_info_def avg_po_arr_def)

subsection \<open>Properties\<close>

text \<open>The last offset that is read: the one given, or the end of the file when it is 0 or too large.\<close>

definition last_offset :: "avg_args \<Rightarrow> nat \<Rightarrow> nat" where
  "last_offset st sz = (if aa_to st = 0 \<or> sz \<le> aa_to st then sz - 1 else aa_to st)"

lemma avg_process_file_readable:
  assumes "readable (fs f)" and "avg_options strtod avg_args0 os = Inr (AvgNext st)" and "aa_got_entropy st"
    and "0 \<le> aa_entropy st" and "aa_entropy st \<le> 1" and "os \<noteq> []"
  shows "avg_process_file strtod fs f os p =
    (let size = length (vf_data (fs f)); to = last_offset st size
     in if size \<le> aa_from st \<or> to \<le> aa_from st then Inr (-1, os, p\<lparr>p_errno := ERANGE\<rparr>)
        else Inr (if aa_entropy st \<le> shannon (byte_range (vf_data (fs f)) (aa_from st) to) / 8 then 1 else 0,
          os, p\<lparr>p_errno := 0\<rparr>))"
proof -
  have "last_offset st (length (vf_data (fs f))) < length (vf_data (fs f))"
    using assms(1) by (auto simp: last_offset_def readable_def)
  with assms show ?thesis
    by (auto simp: avg_process_file_def with_file_readable finish_def proc_ops Let_def last_offset_def
        calculate_entropy_eq readable_def)
qed



text \<open>
  With valid options on a readable file, the entropy plugin returns 1 exactly when the entropy of the
  selected range is at least the given value and 0 when it is less, with the end offset corrected to the last byte when
  it is absent or too large; a start offset not before the end gives -1 and \<^verbatim>\<open>ERANGE\<close>. No descriptor or mapping
  is left open.
\<close>

theorem avg_answer:
  assumes "readable (fs f)" and "avg_options strtod avg_args0 os = Inr (AvgNext st)" and "aa_got_entropy st"
    and "0 \<le> aa_entropy st" and "aa_entropy st \<le> 1" and "os \<noteq> []"
  shows "avg_process_file strtod fs f os p =
    (let size = length (vf_data (fs f)); to = last_offset st size
     in if size \<le> aa_from st \<or> to \<le> aa_from st then Inr (-1, os, p\<lparr>p_errno := ERANGE\<rparr>)
        else Inr (if aa_entropy st \<le> shannon (byte_range (vf_data (fs f)) (aa_from st) to) / 8 then 1 else 0,
          os, p\<lparr>p_errno := 0\<rparr>))"
  using assms by (rule avg_process_file_readable)

definition entropy_arg :: "string \<Rightarrow> string \<Rightarrow> c_option" where
  "entropy_arg name v = \<lparr>opt_name = name, opt_has_arg = required_argument, opt_flag = Some (strdup_c v), opt_val = 0\<rparr>"

theorem avg_answer_witness:
  "avg_process_file (\<lambda>_. (1 / 2, [])) (\<lambda>_. plain_file [1, 2, 3, 4]) ''f'' [entropy_arg ''entropy'' ''0.5''] proc0 =
    Inr (if 1 / 2 \<le> shannon [1, 2, 3, 4] / 8 then 1 else 0, [entropy_arg ''entropy'' ''0.5''], proc0\<lparr>p_errno := 0\<rparr>)"
  using avg_answer [where fs = "\<lambda>_. plain_file [1, 2, 3, 4]" and f = "''f''" and strtod = "\<lambda>_. (1 / 2, [])"
      and os = "[entropy_arg ''entropy'' ''0.5'']" and p = proc0
      and st = "avg_args0\<lparr>aa_entropy := 1 / 2, aa_got_entropy := True\<rparr>"]
  by (simp add: avg_option_def avg_args0_def entropy_arg_def check_double_def last_offset_def byte_range_def)

text \<open>
  A file of one byte is always answered with -1 and \<^verbatim>\<open>ERANGE\<close>, whatever the valid options say: the
  corrected end offset is 0 and no start offset is before it.
\<close>

theorem avg_one_byte_file_refused:
  assumes "readable (fs f)" and "vf_data (fs f) = [b]" and "avg_options strtod avg_args0 os = Inr (AvgNext st)"
    and "aa_got_entropy st" and "0 \<le> aa_entropy st" and "aa_entropy st \<le> 1" and "os \<noteq> []"
  shows "avg_process_file strtod fs f os p = Inr (-1, os, p\<lparr>p_errno := ERANGE\<rparr>)"
proof -
  have "last_offset st 1 = 0" by (simp add: last_offset_def)
  then show ?thesis
    using avg_process_file_readable [of fs f, OF assms(1,3-7), of p] assms(2) by simp
qed

theorem avg_one_byte_file_refused_witness:
  "avg_process_file (\<lambda>_. (0, [])) (\<lambda>_. plain_file [7]) ''f'' [entropy_arg ''entropy'' ''0''] proc0 =
    Inr (-1, [entropy_arg ''entropy'' ''0''], proc0\<lparr>p_errno := ERANGE\<rparr>)"
  using avg_one_byte_file_refused [where fs = "\<lambda>_. plain_file [7]" and f = "''f''" and b = 7 and strtod = "\<lambda>_. (0, [])"
      and os = "[entropy_arg ''entropy'' ''0'']" and p = proc0 and st = "avg_args0\<lparr>aa_entropy := 0, aa_got_entropy := True\<rparr>"]
  by (simp add: avg_option_def avg_args0_def entropy_arg_def check_double_def)

text \<open>
  A negative offset is undefined behaviour: \<^verbatim>\<open>OPT_CHECK\<close> converts it through \<^verbatim>\<open>double\<close> to
  \<^verbatim>\<open>size_t\<close>, a conversion C does not define for negative values, before any check sees it.
\<close>

theorem avg_negative_offset_undefined:
  assumes "strtoll_c 0 s = (v, [], e)" and "v < 0" and "name = ''offset-from'' \<or> name = ''offset-to''"
  shows "avg_process_file strtod fs f (entropy_arg name s # os) p = Inl BadConversion"
  using assms
  by (auto simp: avg_process_file_def avg_option_def avg_args0_def entropy_arg_def check_long_def double_to_size_t_def
      strdup_c_def)

theorem avg_negative_offset_undefined_witness:
  "avg_process_file (\<lambda>_. (0, [])) (\<lambda>_. plain_file [7]) ''f'' [entropy_arg ''offset-from'' ''-1''] proc0 = Inl BadConversion"
  using avg_negative_offset_undefined [where s = "''-1''" and v = "-1" and e = False and name = "''offset-from''"
      and strtod = "\<lambda>_. (0, [])" and fs = "\<lambda>_. plain_file [7]" and f = "''f''" and os = "[]" and p = proc0]
  by (simp add: strtol_eval)

end
