(* ===== verification/Lib_Uuid.thy ===== *)
theory Lib_Uuid
  imports Plugin_Api
begin

section \<open>The uuid plugin (lab1/libavg.c)\<close>

text \<open>
  \<^verbatim>\<open>src/lab1/libavg.c\<close>: the file is mapped twice, the second mapping is looked at through
  \<^verbatim>\<open>char *f\<close>, and alphanumeric bytes are copied into a 256-byte stack buffer. A mapping has whole
  pages, so bytes past the end of the file within the first page read as 0. The copied text is only printed under
  \<^verbatim>\<open>LAB1DEBUG\<close>; what matters is whether the copy stays inside the buffer.
\<close>

definition uuid_po_arr :: "plugin_option list" where
  "uuid_po_arr =
     [\<lparr>po_opt = \<lparr>opt_name = ''uuids'', opt_has_arg = 0, opt_flag = None, opt_val = 0\<rparr>, po_descr = ''check uuids''\<rparr>]"

definition uuid_get_info :: pgi_func_t where
  "uuid_get_info ppi = (case ppi of
       None \<Rightarrow> (-1, None)
     | Some pi \<Rightarrow> (0, Some (pi\<lparr>
         plugin_purpose := ''Check uuids'',
         plugin_author := ''TRAN'',
         sup_opts_len := length uuid_po_arr,
         sup_opts := uuid_po_arr\<rparr>)))"

definition mapped_byte :: "byte list \<Rightarrow> nat \<Rightarrow> byte" where
  "mapped_byte d i = (if i < length d then d ! i else 0)"

definition uuid_shape :: "byte list \<Rightarrow> bool" where
  "uuid_shape d \<longleftrightarrow> mapped_byte d 8 = 45 \<and> mapped_byte d 13 = 45 \<and> mapped_byte d 18 = 45 \<and> mapped_byte d 23 = 45"

text \<open>\<^verbatim>\<open>char\<close> is signed on this platform.\<close>

definition uuid_char :: "byte \<Rightarrow> bool" where
  "uuid_char c \<longleftrightarrow> (48 \<le> sint c \<and> sint c \<le> 57) \<or> (97 \<le> sint c \<and> sint c \<le> 122)"

text \<open>The copy loop from index \<open>i\<close> over the rest of the file, with \<^verbatim>\<open>int i\<close>.\<close>

fun uuid_copy :: "nat \<Rightarrow> byte list \<Rightarrow> unit cres" where
  "uuid_copy i [] = Inr ()"
| "uuid_copy i (c # cs) =
     (if uuid_char c \<and> 256 \<le> i then Inl BufferOverflow
      else if INT_MAX < int i + 1 then Inl SignedOverflow
      else uuid_copy (Suc i) cs)"

text \<open>
  \<^verbatim>\<open>get_uuid\<close> is never null, so \<^verbatim>\<open>check\<close> is 1, \<^verbatim>\<open>uuids\<close> is 0 and the result is 1. The second mapping is
  never removed.
\<close>

definition uuid_process_file :: ppf_func_t where
  "uuid_process_file fs fname in_opts p =
     (if length in_opts = 0 then Inr (-1, in_opts, set_errno EINVAL p)
      else with_file (fs fname) in_opts p (\<lambda>p1.
        case vf_mmap (fs fname) of
          Some e \<Rightarrow> Inr (finish (-1) e in_opts p1)
        | None \<Rightarrow>
          let p2 = map_file (map_file p1); uuids = (0::int); check = (1::int) in
          bind_c (if uuid_shape (vf_data (fs fname)) then uuid_copy 0 (vf_data (fs fname)) else Inr ()) (\<lambda>_.
            Inr (finish (if uuids \<le> check then 1 else 0) 0 in_opts (unmap_file p2)))))"

interpretation uuid_info: plugin_describes uuid_get_info
  by unfold_locales (auto simp: uuid_get_info_def uuid_po_arr_def)

subsection \<open>Properties\<close>

lemma uuid_copy_eq:
  "i + length cs \<le> 2 ^ 31 - 1 \<Longrightarrow>
    uuid_copy i cs = (if \<exists>k < length cs. uuid_char (cs ! k) \<and> 256 \<le> i + k then Inl BufferOverflow else Inr ())"
proof (induction i cs rule: uuid_copy.induct)
  case (2 i c cs)
  show ?case
  proof (cases "uuid_char c \<and> 256 \<le> i")
    case True
    then have "\<exists>k < length (c # cs). uuid_char ((c # cs) ! k) \<and> 256 \<le> i + k" by force
    with True show ?thesis by simp
  next
    case False
    then have split: "(\<exists>k < length (c # cs). uuid_char ((c # cs) ! k) \<and> 256 \<le> i + k) \<longleftrightarrow>
        (\<exists>k < length cs. uuid_char (cs ! k) \<and> 256 \<le> Suc i + k)"
      by (auto simp: less_Suc_eq_0_disj)
    from 2(2) False have step: "uuid_copy i (c # cs) = uuid_copy (Suc i) cs" by (auto simp: INT_MAX_def)
    have "uuid_copy (Suc i) cs =
        (if \<exists>k < length cs. uuid_char (cs ! k) \<and> 256 \<le> Suc i + k then Inl BufferOverflow else Inr ())"
      using 2 False by (intro 2(1)) (simp_all add: INT_MAX_def)
    then show ?thesis unfolding split step .
  qed
qed simp

text \<open>
  The uuid plugin does not examine what it says it checks: on every readable file it answers 1 and leaves one
  more mapping than before, unless the four dashes are in place and an alphanumeric byte lies at offset 256 or later, where
  the copy overruns its 256-byte stack buffer.
\<close>

theorem uuid_always_one:
  assumes "readable (fs f)" and "os \<noteq> []" and "length (vf_data (fs f)) \<le> 2 ^ 31 - 1"
  shows "uuid_process_file fs f os p =
    (if uuid_shape (vf_data (fs f)) \<and> (\<exists>k < length (vf_data (fs f)). uuid_char (vf_data (fs f) ! k) \<and> 256 \<le> k)
     then Inl BufferOverflow
     else Inr (1, os, p\<lparr>p_errno := 0, p_maps := Suc (p_maps p)\<rparr>))"
  using assms
  by (auto simp: uuid_process_file_def with_file_readable finish_def proc_ops uuid_copy_eq readable_def)

theorem uuid_always_one_witness:
  "uuid_process_file (\<lambda>_. plain_file [1, 2]) ''f'' [\<lparr>opt_name = ''uuids'', opt_has_arg = 0, opt_flag = None, opt_val = 0\<rparr>] proc0 =
    Inr (1, [\<lparr>opt_name = ''uuids'', opt_has_arg = 0, opt_flag = None, opt_val = 0\<rparr>], proc0\<lparr>p_errno := 0, p_maps := 1\<rparr>)"
  using uuid_always_one [where fs = "\<lambda>_. plain_file [1, 2]" and f = "''f''" and p = proc0
      and os = "[\<lparr>opt_name = ''uuids'', opt_has_arg = 0, opt_flag = None, opt_val = 0\<rparr>]"]
  by (simp add: uuid_shape_def mapped_byte_def proc0_def)

end
