(* ===== verification/Space_Search.thy ===== *)
theory Space_Search
  imports C_Prelude "HOL-Library.Multiset"
begin

section \<open>Searching a multidimensional space (week1/examples/01_c)\<close>

text \<open>
  \<^verbatim>\<open>search1.c\<close>, \<^verbatim>\<open>search2.c\<close> and \<^verbatim>\<open>search3/\<close>: three versions of one program that allocates a space of
  points, fills it with random values and looks for a sample. Sizes are \<^verbatim>\<open>size_t\<close> and wrap; loop counters are
  \<^verbatim>\<open>int\<close> and must not overflow. A block of memory is a list of cells, \<open>None\<close> before the first write. What
  \<^verbatim>\<open>malloc\<close> decides and the values of \<^verbatim>\<open>rand\<close> are parameters: \<open>alloc n\<close> says whether a request for \<open>n\<close>
  bytes succeeds, \<open>rnd k\<close> is the result of the \<open>k\<close>-th call, and the calls in an expression are taken from left to right.
\<close>

unbundle bit_operations_syntax

subsection \<open>Types\<close>

datatype space_error = ERROR_OK | ERROR_INVALID_ARGS | ERROR_ALLOC | ERROR_INVALID_VALUE | ERROR_INVALID_INDEX

record point_t =
  color_val :: i32
  temp :: i32

text \<open>\<^verbatim>\<open>space_t\<close>: null pointers are \<open>None\<close>.\<close>

record space_t =
  mem :: "point_t option list option"
  total_size :: size_t
  dims_len :: size_t
  dims :: "size_t list option"

definition MAX_DIMS :: size_t where "MAX_DIMS = 100"
definition SIZEOF_POINT :: size_t where "SIZEOF_POINT = 8"

type_synonym malloc_t = "size_t \<Rightarrow> bool"
type_synonym rand_t = "nat \<Rightarrow> nat"

subsection \<open>Helpers (utils.c)\<close>

definition rnd8 :: "rand_t \<Rightarrow> nat \<Rightarrow> i32" where
  "rnd8 rnd k = (word_of_nat (rnd k) :: i32) AND 0xff"

definition rand_int32 :: "rand_t \<Rightarrow> nat \<Rightarrow> i32 \<times> nat" where
  "rand_int32 rnd k =
     (push_bit 24 (rnd8 rnd k) OR push_bit 16 (rnd8 rnd (k + 1)) OR push_bit 8 (rnd8 rnd (k + 2)) OR rnd8 rnd (k + 3), k + 4)"

definition str_to_long :: "string option \<Rightarrow> bool \<Rightarrow> space_error \<times> int option" where
  "str_to_long str pres = (case str of
       None \<Rightarrow> (ERROR_INVALID_ARGS, None)
     | Some s \<Rightarrow>
       if \<not> pres then (ERROR_INVALID_ARGS, None)
       else case strtoll_c 0 s of (l, endp, erange) \<Rightarrow>
         if endp \<noteq> [] \<or> erange then (ERROR_INVALID_VALUE, None) else (ERROR_OK, Some l))"

subsection \<open>Operations (space.c)\<close>

definition bad_space :: "space_t \<Rightarrow> bool" where
  "bad_space sp \<longleftrightarrow> dims_len sp = 0 \<or> MAX_DIMS < dims_len sp \<or> dims sp = None"

function dims_product :: "size_t list \<Rightarrow> nat \<Rightarrow> nat \<Rightarrow> size_t \<Rightarrow> size_t cres" where
  "dims_product d n i t =
     (if i < n then if i < length d then dims_product d n (Suc i) (t * d ! i) else Inl OutOfBounds
      else Inr t)"
  by pat_completeness auto
termination
  by (relation "measure (\<lambda>(d, n, i, t). n - i)") auto

declare dims_product.simps [simp del]

text \<open>\<^verbatim>\<open>malloc(sizeof(point_t) * total_size)\<close>: the product wraps, and the block has room for as many points as its bytes.\<close>

definition malloc_points :: "malloc_t \<Rightarrow> size_t \<Rightarrow> point_t option list option" where
  "malloc_points alloc n =
     (if alloc (SIZEOF_POINT * n) then Some (replicate (unat (SIZEOF_POINT * n) div 8) None) else None)"

definition space_alloc :: "malloc_t \<Rightarrow> space_t option \<Rightarrow> (space_error \<times> space_t option) cres" where
  "space_alloc alloc psp = (case psp of
       None \<Rightarrow> Inr (ERROR_INVALID_ARGS, None)
     | Some sp \<Rightarrow>
       if bad_space sp then Inr (ERROR_INVALID_ARGS, Some sp)
       else let d = the (dims sp) in
         if d = [] then Inl OutOfBounds
         else bind_c (dims_product d (unat (dims_len sp)) 1 (d ! 0)) (\<lambda>t.
           let sp' = sp\<lparr>total_size := t, mem := malloc_points alloc t\<rparr> in
           Inr (if mem sp' = None then (ERROR_ALLOC, Some sp') else (ERROR_OK, Some sp'))))"

text \<open>The initialisation loop from index \<open>i\<close>, with the number \<open>k\<close> of random values already drawn.\<close>

function init_loop :: "rand_t \<Rightarrow> point_t option list \<Rightarrow> nat \<Rightarrow> nat \<Rightarrow> nat \<Rightarrow> (point_t option list \<times> nat) cres" where
  "init_loop rnd m n i k =
     (if i < n then
        if i < length m then
          let (c, k1) = rand_int32 rnd k; (t, k2) = rand_int32 rnd k1; m' = m[i := Some \<lparr>color_val = c, temp = t\<rparr>]
          in if INT_MAX < int i + 1 then Inl SignedOverflow else init_loop rnd m' n (Suc i) k2
        else Inl OutOfBounds
      else Inr (m, k))"
  by pat_completeness auto
termination
  by (relation "measure (\<lambda>(rnd, m, n, i, k). n - i)") auto

declare init_loop.simps [simp del]

definition secret :: point_t where
  "secret = \<lparr>color_val = 0xff00ff00, temp = 1\<rparr>"

text \<open>\<^verbatim>\<open>mem[rand() % total_size] = e\<close>: the remainder by zero traps.\<close>

definition plant_secret :: "rand_t \<Rightarrow> point_t option list \<Rightarrow> size_t \<Rightarrow> nat \<Rightarrow> (point_t option list \<times> nat) cres" where
  "plant_secret rnd m n k =
     (if n = 0 then Inl DivByZero
      else let pos = rnd k mod unat n in
        if pos < length m then Inr (m[pos := Some secret], k + 1) else Inl OutOfBounds)"

definition space_init :: "bool \<Rightarrow> rand_t \<Rightarrow> nat \<Rightarrow> space_t option \<Rightarrow> (space_error \<times> space_t option \<times> nat) cres" where
  "space_init test_search rnd k psp = (case psp of
       None \<Rightarrow> Inr (ERROR_INVALID_ARGS, None, k)
     | Some sp \<Rightarrow>
       if bad_space sp then Inr (ERROR_INVALID_ARGS, Some sp, k)
       else case mem sp of
           None \<Rightarrow> Inr (ERROR_INVALID_ARGS, Some sp, k)
         | Some m \<Rightarrow>
           bind_c (init_loop rnd m (unat (total_size sp)) 0 k) (\<lambda>(m1, k1).
           bind_c (if test_search then plant_secret rnd m1 (total_size sp) k1 else Inr (m1, k1)) (\<lambda>(m2, k2).
             Inr (ERROR_OK, Some (sp\<lparr>mem := Some m2\<rparr>), k2))))"

definition space_free :: "space_t option \<Rightarrow> space_error \<times> space_t option" where
  "space_free psp = (case psp of
       None \<Rightarrow> (ERROR_INVALID_ARGS, None)
     | Some sp \<Rightarrow>
       if bad_space sp then (ERROR_INVALID_ARGS, Some sp)
       else (ERROR_OK, Some (sp\<lparr>mem := None, total_size := 0, dims := None, dims_len := 0\<rparr>)))"

text \<open>The two nested loops of \<^verbatim>\<open>space_get\<close>: the product of the sizes after position \<open>i\<close>, and the sum.\<close>

fun tail_product :: "size_t list \<Rightarrow> size_t \<Rightarrow> size_t" where
  "tail_product [] sub_res = sub_res"
| "tail_product (d # ds) sub_res = tail_product ds (sub_res * d)"

fun flat_loop :: "size_t list \<Rightarrow> size_t list \<Rightarrow> size_t \<Rightarrow> size_t" where
  "flat_loop (i # is) (d # ds) flat_idx = flat_loop is ds (flat_idx + tail_product ds 1 * i)"
| "flat_loop _ _ flat_idx = flat_idx"

text \<open>The result \<open>Some (Some i)\<close> is the pointer to element \<open>i\<close>.\<close>

definition space_get :: "space_t option \<Rightarrow> size_t list \<Rightarrow> bool \<Rightarrow> (space_error \<times> size_t option) cres" where
  "space_get psp indices elem = (case psp of
       None \<Rightarrow> Inr (ERROR_INVALID_ARGS, None)
     | Some sp \<Rightarrow>
       if bad_space sp \<or> length indices \<noteq> unat (dims_len sp) \<or> \<not> elem then Inr (ERROR_INVALID_ARGS, None)
       else if length (the (dims sp)) < length indices then Inl OutOfBounds
       else let flat_idx = flat_loop indices (take (length indices) (the (dims sp))) 0 in
         if total_size sp < flat_idx then Inr (ERROR_INVALID_INDEX, None) else Inr (ERROR_OK, Some flat_idx))"

text \<open>The search loop: it does not stop at a match.\<close>

function search_loop :: "point_t option list \<Rightarrow> point_t \<Rightarrow> nat \<Rightarrow> nat \<Rightarrow> nat option \<Rightarrow> nat option cres" where
  "search_loop m sample n i elem =
     (if i < n then
        if i < length m then
          case m ! i of
            None \<Rightarrow> Inl UninitRead
          | Some p \<Rightarrow>
            if INT_MAX < int i + 1 then Inl SignedOverflow
            else search_loop m sample n (Suc i)
              (if color_val p = color_val sample \<and> temp p = temp sample then Some i else elem)
        else Inl OutOfBounds
      else Inr elem)"
  by pat_completeness auto
termination
  by (relation "measure (\<lambda>(m, s, n, i, e). n - i)") auto

declare search_loop.simps [simp del]

definition space_search :: "space_t option \<Rightarrow> point_t option \<Rightarrow> bool \<Rightarrow> (space_error \<times> nat option) cres" where
  "space_search psp sample found = (case psp of
       None \<Rightarrow> Inr (ERROR_INVALID_ARGS, None)
     | Some sp \<Rightarrow>
       if bad_space sp \<or> sample = None \<or> \<not> found then Inr (ERROR_INVALID_ARGS, None)
       else if total_size sp = 0 then Inr (ERROR_OK, None)
       else case mem sp of
           None \<Rightarrow> Inl NullDeref
         | Some m \<Rightarrow> bind_c (search_loop m (the sample) (unat (total_size sp)) 0 None) (\<lambda>e. Inr (ERROR_OK, e)))"

subsection \<open>The program of search3 (main.c)\<close>

fun read_dims :: "string list \<Rightarrow> size_t list option" where
  "read_dims [] = Some []"
| "read_dims (a # as) = (case str_to_long (Some a) True of
       (ERROR_OK, Some res) \<Rightarrow> map_option ((#) (word_of_int res)) (read_dims as)
     | _ \<Rightarrow> None)"

datatype search_exit = Usage | MallocFailed | BadDims | AllocFailed | InitFailed | Sample bool | WentWrong

definition report_sample :: "(space_error \<times> nat option) \<Rightarrow> search_exit" where
  "report_sample r = (if fst r = ERROR_OK then Sample (snd r \<noteq> None) else WentWrong)"

definition space_main :: "malloc_t \<Rightarrow> rand_t \<Rightarrow> bool \<Rightarrow> string list \<Rightarrow> (int \<times> search_exit) cres" where
  "space_main alloc rnd test_search args =
     (if args = [] then Inr (1, Usage)
      else if \<not> alloc (8 * word_of_nat (length args)) then Inr (2, MallocFailed)
      else case read_dims args of
        None \<Rightarrow> Inr (1, BadDims)
      | Some d \<Rightarrow>
        bind_c (space_alloc alloc (Some \<lparr>mem = None, total_size = 0, dims_len = word_of_nat (length args), dims = Some d\<rparr>))
          (\<lambda>(e1, sp1). if e1 \<noteq> ERROR_OK then Inr (2, AllocFailed) else
        bind_c (space_init test_search rnd 0 sp1) (\<lambda>(e2, sp2, _). if e2 \<noteq> ERROR_OK then Inr (2, InitFailed) else
        bind_c (space_search sp2 (Some secret) True) (\<lambda>r. Inr (0, report_sample r)))))"

subsection \<open>The program of search2.c\<close>

text \<open>\<^verbatim>\<open>alloc_and_init_space\<close> is the two steps in one function, and always plants the sample.\<close>

definition alloc_and_init_space :: "malloc_t \<Rightarrow> rand_t \<Rightarrow> space_t option \<Rightarrow> (space_error \<times> space_t option) cres" where
  "alloc_and_init_space alloc rnd psp = (case psp of
       None \<Rightarrow> Inr (ERROR_INVALID_ARGS, None)
     | Some sp \<Rightarrow>
       if bad_space sp then Inr (ERROR_INVALID_ARGS, Some sp)
       else let d = the (dims sp) in
         if d = [] then Inl OutOfBounds
         else bind_c (dims_product d (unat (dims_len sp)) 1 (d ! 0)) (\<lambda>t.
           case malloc_points alloc t of
             None \<Rightarrow> Inr (ERROR_ALLOC, Some (sp\<lparr>total_size := t, mem := None\<rparr>))
           | Some m \<Rightarrow>
             bind_c (init_loop rnd m (unat t) 0 0) (\<lambda>(m1, k1).
             bind_c (plant_secret rnd m1 t k1) (\<lambda>(m2, k2).
               Inr (ERROR_OK, Some (sp\<lparr>total_size := t, mem := Some m2\<rparr>))))))"

text \<open>The search and the clean-up have the bodies of \<^verbatim>\<open>space_search\<close> and \<^verbatim>\<open>space_free\<close>.\<close>

definition search_for_sample :: "space_t option \<Rightarrow> point_t option \<Rightarrow> bool \<Rightarrow> (space_error \<times> nat option) cres" where
  "search_for_sample psp sample found = space_search psp sample found"

definition free_space :: "space_t option \<Rightarrow> space_error \<times> space_t option" where
  "free_space psp = space_free psp"

text \<open>Here every dimension has to be positive.\<close>

fun read_dims_positive :: "string list \<Rightarrow> size_t list option" where
  "read_dims_positive [] = Some []"
| "read_dims_positive (a # as) = (case str_to_long (Some a) True of
       (ERROR_OK, Some res) \<Rightarrow>
         if res > 0 then map_option ((#) (word_of_int res)) (read_dims_positive as) else None
     | _ \<Rightarrow> None)"

definition search2_main :: "malloc_t \<Rightarrow> rand_t \<Rightarrow> string list \<Rightarrow> (int \<times> search_exit) cres" where
  "search2_main alloc rnd args =
     (if args = [] then Inr (1, Usage)
      else if \<not> alloc (8 * word_of_nat (length args)) then Inr (2, MallocFailed)
      else case read_dims_positive args of
        None \<Rightarrow> Inr (1, BadDims)
      | Some d \<Rightarrow>
        bind_c (alloc_and_init_space alloc rnd
            (Some \<lparr>mem = None, total_size = 0, dims_len = word_of_nat (length args), dims = Some d\<rparr>))
          (\<lambda>(e1, sp1). if e1 \<noteq> ERROR_OK then Inr (2, AllocFailed) else
        bind_c (search_for_sample sp1 (Some secret) True) (\<lambda>r. Inr (0, report_sample r))))"

subsection \<open>The program of search1.c\<close>

text \<open>
  Four nested arrays of arrays. Dimension sizes are taken up to \<^verbatim>\<open>INT_MAX\<close>, so that the \<^verbatim>\<open>int\<close> counters do not
  overflow, and \<^verbatim>\<open>malloc\<close> is assumed to succeed, since the code does not look at its result.
\<close>

fun build :: "nat \<Rightarrow> (nat \<Rightarrow> 'a \<times> nat) \<Rightarrow> nat \<Rightarrow> 'a list \<times> nat" where
  "build 0 f k = ([], k)"
| "build (Suc n) f k = (let (x, k1) = f k; (xs, k2) = build n f k1 in (x # xs, k2))"

definition random_point :: "rand_t \<Rightarrow> nat \<Rightarrow> point_t \<times> nat" where
  "random_point rnd k = (let (c, k1) = rand_int32 rnd k; (t, k2) = rand_int32 rnd k1 in (\<lparr>color_val = c, temp = t\<rparr>, k2))"

text \<open>The function has no \<^verbatim>\<open>return\<close> statement: its value, the second component, is missing.\<close>

definition alloc_and_init_space1 ::
    "rand_t \<Rightarrow> nat \<Rightarrow> nat \<Rightarrow> nat \<Rightarrow> nat \<Rightarrow> point_t list list list list \<times> int option" where
  "alloc_and_init_space1 rnd dim1 dim2 dim3 dim4 =
     (fst (build dim1 (build dim2 (build dim3 (build dim4 (random_point rnd)))) 0), None)"

text \<open>A block is named by the indices that lead to it.\<close>

definition alloc_order :: "nat \<Rightarrow> nat \<Rightarrow> nat \<Rightarrow> nat list list" where
  "alloc_order dim1 dim2 dim3 =
     [] # concat (map (\<lambda>i1. [i1] # concat (map (\<lambda>i2. [i1, i2] # map (\<lambda>i3. [i1, i2, i3]) [0..<dim3]) [0..<dim2])) [0..<dim1])"

definition free_space1 :: "nat \<Rightarrow> nat \<Rightarrow> nat \<Rightarrow> nat list list" where
  "free_space1 dim1 dim2 dim3 =
     concat (map (\<lambda>i1. concat (map (\<lambda>i2. map (\<lambda>i3. [i1, i2, i3]) [0..<dim3] @ [[i1, i2]]) [0..<dim2]) @ [[i1]]) [0..<dim1]) @ [[]]"

fun find_from :: "nat \<Rightarrow> ('a \<Rightarrow> 'b option) \<Rightarrow> 'a list \<Rightarrow> (nat \<times> 'b) option" where
  "find_from i f [] = None"
| "find_from i f (x # xs) = (case f x of Some r \<Rightarrow> Some (i, r) | None \<Rightarrow> find_from (Suc i) f xs)"

definition same_point :: "point_t \<Rightarrow> point_t \<Rightarrow> bool" where
  "same_point p q \<longleftrightarrow> color_val p = color_val q \<and> temp p = temp q"

definition search_for_sample1 ::
    "point_t list list list list \<Rightarrow> point_t \<Rightarrow> (nat \<times> nat \<times> nat \<times> nat \<times> unit) option" where
  "search_for_sample1 space sample =
     find_from 0 (find_from 0 (find_from 0 (find_from 0 (\<lambda>p. if same_point p sample then Some () else None)))) space"

definition search1_main :: "rand_t \<Rightarrow> nat list \<Rightarrow> (int \<times> search_exit) cres" where
  "search1_main rnd sizes = (case sizes of
       [dim1, dim2, dim3, dim4] \<Rightarrow>
         (case alloc_and_init_space1 rnd dim1 dim2 dim3 dim4 of
            (space, None) \<Rightarrow> Inl UninitRead
          | (space, Some r) \<Rightarrow>
              if r = 0 then Inr (1, AllocFailed) else Inr (0, Sample (search_for_sample1 space secret \<noteq> None)))
     | _ \<Rightarrow> Inr (1, Usage))"

subsection \<open>Mixed-radix addresses\<close>

lemma sorted_le_last: "sorted xs \<Longrightarrow> x \<in> set xs \<Longrightarrow> x \<le> last xs"
  by (induction xs) auto

lemma distinct_concat_map:
  "distinct xs \<Longrightarrow> (\<And>x. x \<in> set xs \<Longrightarrow> distinct (f x)) \<Longrightarrow>
    (\<And>x y z. z \<in> set (f x) \<Longrightarrow> z \<in> set (f y) \<Longrightarrow> x = y) \<Longrightarrow> distinct (concat (map f xs))"
  by (induction xs) fastforce+

text \<open>The reference for \<^verbatim>\<open>space_get\<close>: the position of an index tuple in row-major order, over the naturals.\<close>

fun row_major :: "nat list \<Rightarrow> nat list \<Rightarrow> nat" where
  "row_major (i # is) (d # ds) = i * prod_list ds + row_major is ds"
| "row_major _ _ = 0"

lemma tail_product_eq: "tail_product ds s = s * word_of_nat (prod_list (map unat ds))"
  by (induction ds arbitrary: s) simp_all

lemma flat_loop_eq: "flat_loop is ds f = f + word_of_nat (row_major (map unat is) (map unat ds))"
  by (induction "is" ds f rule: flat_loop.induct) (simp_all add: tail_product_eq algebra_simps)

lemma row_major_less: "list_all2 (<) is ds \<Longrightarrow> row_major is ds < prod_list ds"
proof (induction rule: list_all2_induct)
  case (Cons i "is" d ds)
  have "i * prod_list ds + row_major is ds < Suc i * prod_list ds" using Cons(3) by simp
  also have "\<dots> \<le> d * prod_list ds" using Cons(1) by (intro mult_right_mono) auto
  finally show ?case by simp
qed simp

lemma row_major_inject:
  "list_all2 (<) is ds \<Longrightarrow> list_all2 (<) js ds \<Longrightarrow> row_major is ds = row_major js ds \<Longrightarrow> is = js"
proof (induction "is" ds arbitrary: js rule: list_all2_induct)
  case (Cons i "is" d ds)
  obtain j js' where js: "js = j # js'" and lt: "list_all2 (<) js' ds" using Cons(4) by (auto simp: list_all2_Cons2)
  have eq: "i * prod_list ds + row_major is ds = j * prod_list ds + row_major js' ds" using Cons(5) js by simp
  have m: "row_major is ds < prod_list ds" "row_major js' ds < prod_list ds"
    using Cons(2) lt by (auto intro: row_major_less)
  have "i = (i * prod_list ds + row_major is ds) div prod_list ds" using m(1) by simp
  also have "\<dots> = j" unfolding eq using m(2) by simp
  finally show ?case using eq Cons(3) [OF lt] js by simp
qed simp

lemma dims_product_eq:
  "n \<le> length d \<Longrightarrow> i \<le> n \<Longrightarrow> dims_product d n i t = Inr (t * word_of_nat (prod_list (map unat (take (n - i) (drop i d)))))"
proof (induction d n i t rule: dims_product.induct)
  case (1 d n i t)
  show ?case
  proof (cases "i < n")
    case True
    then have "take (n - i) (drop i d) = d ! i # take (n - Suc i) (drop (Suc i) d)"
      using 1(2) by (metis Cons_nth_drop_Suc Suc_diff_Suc less_le_trans take_Suc_Cons)
    then show ?thesis using 1 True by (simp add: dims_product.simps [of d n i] mult.assoc)
  next
    case False
    then show ?thesis using 1(3) by (simp add: dims_product.simps [of d n n])
  qed
qed

text \<open>A space as a successful allocation leaves it when the sizes do not wrap.\<close>

definition space_ok :: "space_t \<Rightarrow> size_t list \<Rightarrow> bool" where
  "space_ok sp d \<longleftrightarrow> \<not> bad_space sp \<and> dims sp = Some d \<and> length d = unat (dims_len sp) \<and>
     prod_list (map unat d) < 2 ^ 64 \<and> total_size sp = word_of_nat (prod_list (map unat d))"

lemma space_ok_size: "space_ok sp d \<Longrightarrow> unat (total_size sp) = prod_list (map unat d)"
  by (simp add: space_ok_def unat_size_t)

lemma space_get_flat:
  assumes "space_ok sp d" and "list_all2 (<) is d"
  shows "space_get (Some sp) is True = Inr (ERROR_OK, Some (word_of_nat (row_major (map unat is) (map unat d)))) \<and>
    unat (word_of_nat (row_major (map unat is) (map unat d)) :: size_t) = row_major (map unat is) (map unat d) \<and>
    row_major (map unat is) (map unat d) < unat (total_size sp)"
proof -
  have "list_all2 (<) (map unat is) (map unat d)" using assms(2) by (simp add: list_all2_map1 list_all2_map2 word_less_nat_alt list_all2_conv_all_nth)
  then have lt: "row_major (map unat is) (map unat d) < prod_list (map unat d)" by (rule row_major_less)
  then have u: "unat (word_of_nat (row_major (map unat is) (map unat d)) :: size_t) = row_major (map unat is) (map unat d)"
    using assms(1) by (intro unat_size_t) (simp add: space_ok_def)
  have len: "length is = length d" using assms(2) by (rule list_all2_lengthD)
  have "\<not> total_size sp < word_of_nat (row_major (map unat is) (map unat d))"
    unfolding word_less_nat_alt u using space_ok_size [OF assms(1)] lt by simp
  then show ?thesis
    using assms(1) len lt u space_ok_size [OF assms(1)] by (simp add: space_get_def space_ok_def flat_loop_eq)
qed

subsection \<open>Initialisation and search\<close>

text \<open>Every cell written.\<close>

definition filled :: "point_t option list \<Rightarrow> bool" where
  "filled m \<longleftrightarrow> (\<forall>c \<in> set m. c \<noteq> None)"

lemma init_loop_fills:
  assumes "n = length m" and "int n \<le> INT_MAX" and "i \<le> n" and "\<forall>j < i. m ! j \<noteq> None"
  shows "\<exists>m' k'. init_loop rnd m n i k = Inr (m', k') \<and> length m' = length m \<and> filled m'"
  using assms
proof (induction rnd m n i k rule: init_loop.induct)
  case (1 rnd m n i k)
  obtain c k1 where c: "rand_int32 rnd k = (c, k1)" by force
  obtain t k2 where t: "rand_int32 rnd k1 = (t, k2)" by force
  let ?m = "m[i := Some \<lparr>color_val = c, temp = t\<rparr>]"
  show ?case
  proof (cases "i < n")
    case True
    have "\<exists>m' k'. init_loop rnd ?m n (Suc i) k2 = Inr (m', k') \<and> length m' = length ?m \<and> filled m'"
      using 1 True c t by (intro 1(1)) (auto simp: nth_list_update less_Suc_eq)
    moreover have "init_loop rnd m n i k = init_loop rnd ?m n (Suc i) k2"
      using True 1(2,3) c t by (subst init_loop.simps) simp
    ultimately show ?thesis by simp
  next
    case False
    then have "filled m" using 1(2,4,5) by (auto simp: filled_def in_set_conv_nth)
    then show ?thesis using False by (simp add: init_loop.simps [of rnd m n i])
  qed
qed

lemma search_loop_eq:
  assumes "n = length m" and "int n \<le> INT_MAX" and "filled m"
  shows "search_loop m s n i e =
    Inr (case filter (\<lambda>j. same_point (the (m ! j)) s) [i..<n] of [] \<Rightarrow> e | j # js \<Rightarrow> Some (last (j # js)))"
  using assms
proof (induction m s n i e rule: search_loop.induct)
  case (1 m s n i e)
  show ?case
  proof (cases "i < n")
    case False
    then show ?thesis by (simp add: search_loop.simps [of m s n i])
  next
    case True
    then have "m ! i \<noteq> None" using 1(2,4) by (auto simp: filled_def)
    then obtain p where p: "m ! i = Some p" by auto
    let ?e = "if color_val p = color_val s \<and> temp p = temp s then Some i else e"
    have "search_loop m s n i e = search_loop m s n (Suc i) ?e"
      using True 1(2,3) p by (subst search_loop.simps) simp
    also have "\<dots> = Inr (case filter (\<lambda>j. same_point (the (m ! j)) s) [Suc i..<n] of [] \<Rightarrow> ?e | j # js \<Rightarrow> Some (last (j # js)))"
      using 1 True p by (intro 1(1)) auto
    also have "\<dots> = Inr (case filter (\<lambda>j. same_point (the (m ! j)) s) [i..<n] of [] \<Rightarrow> e | j # js \<Rightarrow> Some (last (j # js)))"
      using True p by (auto simp: upt_conv_Cons same_point_def split: list.splits)
    finally show ?thesis .
  qed
qed

lemma plant_secret_present:
  assumes "unat n = length m" and "0 < length m" and "filled m"
  shows "\<exists>m'. plant_secret rnd m n k = Inr (m', k + 1) \<and> length m' = length m \<and> filled m' \<and>
    (\<exists>j < length m'. m' ! j = Some secret)"
proof -
  have n: "n \<noteq> 0" using assms by auto
  let ?j = "rnd k mod length m"
  have "?j < length m" using assms(2) by simp
  then show ?thesis
    using n assms by (auto simp: plant_secret_def filled_def dest!: set_update_subset_insert [THEN subsetD] intro: exI [of _ ?j])
qed

lemma same_point_secret [simp]: "same_point secret secret"
  by (simp add: same_point_def)

lemma search_loop_planted:
  assumes "int (length m) \<le> INT_MAX" and "filled m" and "j < length m" and "m ! j = Some secret"
  shows "\<exists>k. search_loop m secret (length m) 0 None = Inr (Some k)"
proof -
  have "j \<in> set (filter (\<lambda>j. same_point (the (m ! j)) secret) [0..<length m])" using assms(3,4) by simp
  then show ?thesis
    using search_loop_eq [OF refl assms(1,2), of secret 0 None] by (cases "filter (\<lambda>j. same_point (the (m ! j)) secret) [0..<length m]") auto
qed

lemma malloc_points_exact:
  assumes "alloc (SIZEOF_POINT * n)" and "unat n < 2 ^ 61"
  shows "malloc_points alloc n = Some (replicate (unat n) None)"
proof -
  have "unat (SIZEOF_POINT * n) = 8 * unat n"
    using assms(2) by (simp add: SIZEOF_POINT_def unat_word_ariths)
  then show ?thesis using assms(1) by (simp add: malloc_points_def)
qed

lemma space_alloc_ok:
  assumes "length d = n" and "0 < n" and "n \<le> 100" and "prod_list (map unat d) < 2 ^ 61" and "\<And>k. alloc k"
  shows "space_alloc alloc (Some \<lparr>mem = None, total_size = 0, dims_len = word_of_nat n, dims = Some d\<rparr>) =
    Inr (ERROR_OK, Some \<lparr>mem = Some (replicate (prod_list (map unat d)) None), total_size = word_of_nat (prod_list (map unat d)),
      dims_len = word_of_nat n, dims = Some d\<rparr>)"
proof -
  have u: "unat (word_of_nat n :: size_t) = n" using assms(3) by (simp add: unat_size_t)
  have bad: "\<not> bad_space \<lparr>mem = None, total_size = 0, dims_len = word_of_nat n, dims = Some d\<rparr>"
    using assms(2,3) u by (simp add: bad_space_def MAX_DIMS_def word_less_nat_alt unat_eq_0 [symmetric])
  obtain d0 ds where d: "d = d0 # ds" using assms(1,2) by (cases d) auto
  have "dims_product d n 1 (d ! 0) = Inr (d0 * word_of_nat (prod_list (map unat ds)))"
    using dims_product_eq [of n d 1 "d ! 0"] assms(1,2) d by simp
  also have "\<dots> = Inr (word_of_nat (prod_list (map unat d)))" using d by simp
  finally have dp: "dims_product d n 1 (d ! 0) = Inr (word_of_nat (prod_list (map unat d)))" .
  have "unat (word_of_nat (prod_list (map unat d)) :: size_t) = prod_list (map unat d)"
    using assms(4) by (intro unat_size_t) simp
  then have "malloc_points alloc (word_of_nat (prod_list (map unat d))) = Some (replicate (prod_list (map unat d)) None)"
    using malloc_points_exact [of alloc "word_of_nat (prod_list (map unat d))"] assms(4,5) by simp
  then show ?thesis using bad dp u d by (simp add: space_alloc_def)
qed

lemma space_main_planted:
  assumes "args \<noteq> []" and "length args \<le> 100" and "read_dims args = Some d" and "length d = length args"
    and "0 < prod_list (map unat d)" and "int (prod_list (map unat d)) \<le> INT_MAX" and "\<And>k. alloc k"
  shows "space_main alloc rnd True args = Inr (0, Sample True)"
proof -
  let ?n = "prod_list (map unat d)"
  have small: "?n < 2 ^ 61" and n: "unat (word_of_nat ?n :: size_t) = ?n"
    using assms(6) by (simp_all add: INT_MAX_def unat_size_t)
  let ?sp = "\<lambda>m. \<lparr>mem = m, total_size = word_of_nat ?n :: size_t, dims_len = word_of_nat (length args) :: size_t, dims = Some d\<rparr>"
  have alloc: "space_alloc alloc (Some \<lparr>mem = None, total_size = 0, dims_len = word_of_nat (length args), dims = Some d\<rparr>) =
      Inr (ERROR_OK, Some (?sp (Some (replicate ?n None))))"
    using space_alloc_ok [of d "length args" alloc] assms small by simp
  have "unat (word_of_nat (length args) :: size_t) = length args" using assms(2) by (simp add: unat_size_t)
  then have bad: "\<not> bad_space (?sp m)" for m
    using assms(1,2) by (auto simp: bad_space_def MAX_DIMS_def word_less_nat_alt unat_eq_0 [symmetric])
  obtain m1 k1 where m1: "init_loop rnd (replicate ?n None) ?n 0 0 = Inr (m1, k1)" "length m1 = ?n" "filled m1"
    using init_loop_fills [of ?n "replicate ?n None" 0 rnd 0] assms(6) by auto
  obtain m2 j where m2: "plant_secret rnd m1 (word_of_nat ?n) k1 = Inr (m2, k1 + 1)" "length m2 = ?n" "filled m2"
    "j < ?n" "m2 ! j = Some secret"
    using plant_secret_present [of "word_of_nat ?n" m1 rnd k1] m1 n assms(5) by auto
  have init: "space_init True rnd 0 (Some (?sp (Some (replicate ?n None)))) = Inr (ERROR_OK, Some (?sp (Some m2)), k1 + 1)"
    using bad m1(1) m2(1) n by (simp add: space_init_def)
  obtain j' where found: "search_loop m2 secret ?n 0 None = Inr (Some j')"
    using search_loop_planted [of m2 j] m2 assms(6) by auto
  have "(word_of_nat ?n :: size_t) \<noteq> 0" using n assms(5) by auto
  then have "space_search (Some (?sp (Some m2))) (Some secret) True = Inr (ERROR_OK, Some j')"
    using bad found n by (simp add: space_search_def)
  with alloc init show ?thesis
    using assms(1,3,7) by (simp add: space_main_def report_sample_def)
qed

lemma read_dims_length: "read_dims args = Some d \<Longrightarrow> length d = length args"
  by (induction args arbitrary: d) (auto split: prod.splits space_error.splits option.splits)

text \<open>A block shorter than the space makes the initialisation write outside it.\<close>

lemma init_loop_overruns:
  assumes "length m < n" and "i \<le> length m" and "int (length m) \<le> INT_MAX"
  shows "init_loop rnd m n i k = Inl OutOfBounds"
  using assms
proof (induction rnd m n i k rule: init_loop.induct)
  case (1 rnd m n i k)
  obtain c k1 where c: "rand_int32 rnd k = (c, k1)" by force
  obtain t k2 where t: "rand_int32 rnd k1 = (t, k2)" by force
  show ?case
  proof (cases "i < length m")
    case True
    have "init_loop rnd (m[i := Some \<lparr>color_val = c, temp = t\<rparr>]) n (Suc i) k2 = Inl OutOfBounds"
      using 1 True c t by (intro 1(1)) auto
    then show ?thesis using True 1(2,4) c t by (subst init_loop.simps) simp
  next
    case False
    then show ?thesis using 1(2,3) by (subst init_loop.simps) simp
  qed
qed

lemma length_malloc_points:
  assumes "malloc_points alloc n = Some m"
  shows "length m = unat n mod 2 ^ 61"
proof -
  have "unat (SIZEOF_POINT * n) = 8 * unat n mod 2 ^ 64" by (simp add: SIZEOF_POINT_def unat_word_ariths)
  also have "\<dots> = 8 * (unat n mod 2 ^ 61)"
    using mult_mod_right [of 8 "unat n" "2 ^ 61"] by simp
  finally show ?thesis using assms by (auto simp: malloc_points_def split: if_splits)
qed

subsection \<open>Properties\<close>

text \<open>
  C17: on a space whose sizes do not wrap, \<^verbatim>\<open>space_get\<close> maps every index tuple inside the dimensions to its row-major position, which
  lies inside the space, and two tuples to the same element only when they are equal.
\<close>

theorem space_get_row_major:
  assumes "space_ok sp d" and "list_all2 (<) is d" and "list_all2 (<) js d"
  shows "\<exists>f g. space_get (Some sp) is True = Inr (ERROR_OK, Some f) \<and> unat f = row_major (map unat is) (map unat d) \<and>
    f < total_size sp \<and> space_get (Some sp) js True = Inr (ERROR_OK, Some g) \<and> (f = g \<longleftrightarrow> is = js)"
proof -
  let ?r = "\<lambda>is. row_major (map unat is) (map unat d)"
  have lt: "list_all2 (<) (map unat ks) (map unat d)" if "list_all2 (<) ks d" for ks
    using that by (simp add: list_all2_conv_all_nth word_less_nat_alt)
  have eq: "(word_of_nat (?r is) :: size_t) = word_of_nat (?r js) \<longleftrightarrow> is = js"
  proof
    assume "(word_of_nat (?r is) :: size_t) = word_of_nat (?r js)"
    then have "?r is = ?r js" using space_get_flat [OF assms(1,2)] space_get_flat [OF assms(1,3)] by metis
    then have "map unat is = map unat js" using row_major_inject lt assms(2,3) by blast
    moreover have "inj (unat :: size_t \<Rightarrow> nat)" by (rule injI) (simp add: word_unat_eq_iff)
    ultimately show "is = js" by (simp add: inj_map_eq_map)
  qed simp
  show ?thesis
    using space_get_flat [OF assms(1,2)] space_get_flat [OF assms(1,3)] eq
    by (intro exI [of _ "word_of_nat (?r is)"] exI [of _ "word_of_nat (?r js)"]) (simp add: word_less_nat_alt)
qed

text \<open>A two by three space for concrete instances.\<close>

definition space23 :: space_t where
  "space23 = \<lparr>mem = Some (replicate 6 (Some secret)), total_size = 6, dims_len = 2, dims = Some [2, 3]\<rparr>"

lemma space_ok_space23: "space_ok space23 [2, 3]"
  by (simp add: space_ok_def space23_def bad_space_def MAX_DIMS_def)

theorem space_get_row_major_witness:
  "\<exists>f g. space_get (Some space23) [1, 2] True = Inr (ERROR_OK, Some f) \<and> unat f = 5 \<and>
    space_get (Some space23) [1, 1] True = Inr (ERROR_OK, Some g) \<and> f \<noteq> g"
  using space_get_row_major [OF space_ok_space23, of "[1, 2]" "[1, 1]"] by auto

text \<open>
  \<^verbatim>\<open>space_get\<close> also accepts the tuple with the first index equal to its dimension and the others zero, and
  returns a pointer one past the last element: the check is \<^verbatim>\<open>flat_idx > total_size\<close>.
\<close>

theorem space_get_accepts_end:
  assumes "space_ok sp (d0 # ds)"
  shows "space_get (Some sp) (d0 # replicate (length ds) 0) True = Inr (ERROR_OK, Some (total_size sp))"
proof -
  have zero: "row_major (replicate (length es) 0) es = 0" for es :: "nat list" by (induction es) simp_all
  have "flat_loop (d0 # replicate (length ds) 0) (d0 # ds) 0 = total_size sp"
    using assms zero [of "map unat ds"] by (simp add: flat_loop_eq space_ok_def del: flat_loop.simps)
  then show ?thesis using assms by (simp add: space_get_def space_ok_def del: flat_loop.simps)
qed

theorem space_get_accepts_end_witness:
  "space_get (Some space23) [2, 0] True = Inr (ERROR_OK, Some 6)"
  using space_get_accepts_end [OF space_ok_space23] by (simp add: space23_def)

text \<open>
  The search of an initialised space that fits \<^verbatim>\<open>int\<close> returns, and its result is the last element equal to the
  sample: there is none exactly when no element is equal.
\<close>

theorem space_search_last:
  assumes "\<not> bad_space sp" and "mem sp = Some m" and "length m = unat (total_size sp)" and "int (length m) \<le> INT_MAX" and "filled m"
  shows "\<exists>r. space_search (Some sp) (Some s) True = Inr (ERROR_OK, r) \<and>
    (case r of None \<Rightarrow> \<forall>j < length m. \<not> same_point (the (m ! j)) s
     | Some j \<Rightarrow> j < length m \<and> same_point (the (m ! j)) s \<and> (\<forall>i. j < i \<and> i < length m \<longrightarrow> \<not> same_point (the (m ! i)) s))"
proof -
  let ?js = "filter (\<lambda>j. same_point (the (m ! j)) s) [0..<length m]"
  let ?r = "if ?js = [] then None else Some (last ?js)"
  have "total_size sp = 0 \<Longrightarrow> m = []" using assms(3) by simp
  then have run: "space_search (Some sp) (Some s) True = Inr (ERROR_OK, ?r)"
    using assms search_loop_eq [OF refl assms(4,5), of s 0 None]
    by (auto simp: space_search_def split: list.splits)
  have "i \<le> last ?js" if "i \<in> set ?js" for i
    using that by (intro sorted_le_last) (simp_all add: sorted_wrt_filter)
  then show ?thesis
    using run last_in_set [of ?js] by (cases "?js = []") (auto simp: filter_empty_conv leD)
qed

theorem space_search_last_witness:
  "\<exists>r. space_search (Some space23) (Some secret) True = Inr (ERROR_OK, r) \<and>
    (case r of None \<Rightarrow> False | Some j \<Rightarrow> j < 6 \<and> (\<forall>i. j < i \<and> i < 6 \<longrightarrow> \<not> same_point (the (replicate 6 (Some secret) ! i)) secret))"
proof -
  have "\<not> bad_space space23" by (simp add: space23_def bad_space_def MAX_DIMS_def)
  from space_search_last [OF this, of "replicate 6 (Some secret)" secret] show ?thesis
    by (fastforce simp: space23_def INT_MAX_def filled_def split: option.splits)
qed

text \<open>
  C18: with dimensions whose product is positive and fits \<^verbatim>\<open>int\<close>, and enough memory, the program built with
  \<^verbatim>\<open>TEST_SEARCH\<close> always ends with exit code 0 and finds the sample it has planted, whatever the random numbers are.
\<close>

theorem space_main_finds_planted:
  assumes "args \<noteq> []" and "length args \<le> 100" and "read_dims args = Some d"
    and "0 < prod_list (map unat d)" and "int (prod_list (map unat d)) \<le> INT_MAX" and "\<forall>k. alloc k"
  shows "space_main alloc rnd True args = Inr (0, Sample True)"
  using space_main_planted [OF assms(1-3) read_dims_length [OF assms(3)] assms(4,5)] assms(6) by blast

theorem space_main_finds_planted_witness:
  "space_main (\<lambda>_. True) (\<lambda>k. k) True [''2'', ''3''] = Inr (0, Sample True)"
proof -
  have "strtoll_c 0 ''2'' = (2, [], False)" "strtoll_c 0 ''3'' = (3, [], False)" by (simp_all add: strtol_eval)
  then have "read_dims [''2'', ''3''] = Some [2, 3]" by (simp add: str_to_long_def)
  from space_main_finds_planted [OF _ _ this, of "\<lambda>_. True" "\<lambda>k. k"] show ?thesis by (simp add: INT_MAX_def)
qed

text \<open>
  The size of the block wraps: a total of \<open>2 ^ 61\<close> points or more gets a block that is shorter than
  the space, and when the short block has at most \<^verbatim>\<open>INT_MAX\<close> points the initialisation writes outside it.
\<close>

theorem space_init_overruns_wrapped_block:
  assumes "\<not> bad_space sp" and "malloc_points alloc (total_size sp) = Some m" and "mem sp = Some m"
    and "2 ^ 61 \<le> unat (total_size sp)" and "int (unat (total_size sp) mod 2 ^ 61) \<le> INT_MAX"
  shows "space_init test_search rnd k (Some sp) = Inl OutOfBounds"
proof -
  have len: "length m = unat (total_size sp) mod 2 ^ 61" using assms(2) by (rule length_malloc_points)
  also have "\<dots> < 2 ^ 61" by simp
  finally have "length m < unat (total_size sp)" using assms(4) by linarith
  then have "init_loop rnd m (unat (total_size sp)) 0 k = Inl OutOfBounds"
    using len assms(5) by (intro init_loop_overruns) simp_all
  then show ?thesis using assms(1,3) by (simp add: space_init_def)
qed

theorem space_init_overruns_wrapped_block_witness:
  "space_init False (\<lambda>k. k) 0 (Some \<lparr>mem = Some [], total_size = 0x2000000000000000, dims_len = 1, dims = Some [0x2000000000000000]\<rparr>) =
    Inl OutOfBounds"
  using space_init_overruns_wrapped_block [of "\<lparr>mem = Some [], total_size = 0x2000000000000000, dims_len = 1,
      dims = Some [0x2000000000000000]\<rparr>" "\<lambda>_. True" "[]" False "\<lambda>k. k" 0]
  by (simp add: bad_space_def MAX_DIMS_def malloc_points_def SIZEOF_POINT_def INT_MAX_def)

text \<open>In \<^verbatim>\<open>search1.c\<close> the clean-up frees exactly the blocks that were allocated, each once.\<close>

lemma free_space1_frees_all:
  "mset (free_space1 dim1 dim2 dim3) = mset (alloc_order dim1 dim2 dim3) \<and> distinct (alloc_order dim1 dim2 dim3)"
proof
  show "mset (free_space1 dim1 dim2 dim3) = mset (alloc_order dim1 dim2 dim3)"
    by (simp add: free_space1_def alloc_order_def mset_concat comp_def ac_simps cong: map_cong)
  show "distinct (alloc_order dim1 dim2 dim3)"
    unfolding alloc_order_def by (auto simp: distinct_map inj_on_def intro!: distinct_concat_map)
qed

end
