(* ===== verification/Sync_Counter.thy ===== *)
theory Sync_Counter
  imports C_Prelude
begin

section \<open>A counter shared by threads (week4/02_sync)\<close>

text \<open>
  \<^verbatim>\<open>ex1.c\<close>, \<^verbatim>\<open>ex1a.c\<close>, \<^verbatim>\<open>ex1mut.c\<close> and \<^verbatim>\<open>ex1s.c\<close>: \<^verbatim>\<open>main\<close> creates three threads, each increments a
  shared counter a million times, \<^verbatim>\<open>main\<close> joins them and prints the counter. The four programs differ in the
  increment: a plain load and store, an atomic addition, and a load and store under a mutex or a spin lock. Steps of
  different threads interleave; a plain increment is two steps. The number of threads and of
  rounds are parameters, and the clock is left out. The lock is an interface, the locale \<open>lock_iface\<close>: the mutex and the spin lock
  interpret it.
\<close>

subsection \<open>Program states\<close>

datatype tpc = NotStarted | Head nat | Crit nat | Loaded nat int | Stored nat | Finished

datatype mpc = Create nat | Join nat | Printed int | ExitFail

record 'l cstate =
  cs_counter :: int
  cs_lock :: 'l
  cs_pcs :: "tpc list"
  cs_main :: mpc

type_synonym 'l tstate = "int \<times> 'l \<times> tpc"

subsection \<open>The thread functions\<close>

text \<open>\<^verbatim>\<open>for (...) counter++\<close>: load, then store, with nothing in between to stop the others.\<close>

inductive race_step :: "nat \<Rightarrow> nat \<Rightarrow> unit tstate \<Rightarrow> unit tstate \<Rightarrow> bool" for K t where
  race_load: "i < K \<Longrightarrow> race_step K t (c, l, Head i) (c, l, Loaded i c)"
| race_store: "race_step K t (c, l, Loaded i v) (v + 1, l, Head (Suc i))"
| race_end: "\<not> i < K \<Longrightarrow> race_step K t (c, l, Head i) (c, l, Finished)"

text \<open>\<^verbatim>\<open>atomic_fetch_add(&counter, 1)\<close>.\<close>

inductive atomic_step :: "nat \<Rightarrow> nat \<Rightarrow> unit tstate \<Rightarrow> unit tstate \<Rightarrow> bool" for K t where
  atomic_add: "i < K \<Longrightarrow> atomic_step K t (c, l, Head i) (c + 1, l, Head (Suc i))"
| atomic_end: "\<not> i < K \<Longrightarrow> atomic_step K t (c, l, Head i) (c, l, Finished)"

text \<open>Lock, load, store, unlock, for any lock with the operations \<open>acq\<close> and \<open>rel\<close>; \<open>acq\<close> is \<open>None\<close> while it would block or spin.\<close>

inductive locked_step :: "('l \<Rightarrow> nat \<Rightarrow> 'l option) \<Rightarrow> ('l \<Rightarrow> nat \<Rightarrow> 'l) \<Rightarrow> nat \<Rightarrow> nat \<Rightarrow> 'l tstate \<Rightarrow> 'l tstate \<Rightarrow> bool"
  for acq rel K t where
  step_lock: "i < K \<Longrightarrow> acq l t = Some l' \<Longrightarrow> locked_step acq rel K t (c, l, Head i) (c, l', Crit i)"
| step_load: "locked_step acq rel K t (c, l, Crit i) (c, l, Loaded i c)"
| step_store: "locked_step acq rel K t (c, l, Loaded i v) (v + 1, l, Stored i)"
| step_unlock: "locked_step acq rel K t (c, l, Stored i) (c, rel l t, Head (Suc i))"
| step_end: "\<not> i < K \<Longrightarrow> locked_step acq rel K t (c, l, Head i) (c, l, Finished)"

subsection \<open>main\<close>

text \<open>
  The program with the thread function \<open>ts\<close> and \<open>N\<close> threads. A failed \<^verbatim>\<open>pthread_create\<close> ends the
  process; \<^verbatim>\<open>pthread_join\<close> waits for its thread to finish; the process ends when \<^verbatim>\<open>main\<close> has printed.
\<close>

inductive prog_step :: "(nat \<Rightarrow> 'l tstate \<Rightarrow> 'l tstate \<Rightarrow> bool) \<Rightarrow> nat \<Rightarrow> 'l cstate \<Rightarrow> 'l cstate \<Rightarrow> bool" for ts N where
  main_create: "cs_main s = Create i \<Longrightarrow> i < N \<Longrightarrow>
    prog_step ts N s (s\<lparr>cs_pcs := (cs_pcs s)[i := Head 0], cs_main := Create (Suc i)\<rparr>)"
| main_create_fails: "cs_main s = Create i \<Longrightarrow> i < N \<Longrightarrow> prog_step ts N s (s\<lparr>cs_main := ExitFail\<rparr>)"
| main_created: "cs_main s = Create i \<Longrightarrow> \<not> i < N \<Longrightarrow> prog_step ts N s (s\<lparr>cs_main := Join 0\<rparr>)"
| main_join: "cs_main s = Join i \<Longrightarrow> i < N \<Longrightarrow> cs_pcs s ! i = Finished \<Longrightarrow> prog_step ts N s (s\<lparr>cs_main := Join (Suc i)\<rparr>)"
| main_print: "cs_main s = Join i \<Longrightarrow> \<not> i < N \<Longrightarrow> prog_step ts N s (s\<lparr>cs_main := Printed (cs_counter s)\<rparr>)"
| thread: "cs_main s = Create j \<or> cs_main s = Join j \<Longrightarrow> t < N \<Longrightarrow>
    ts t (cs_counter s, cs_lock s, cs_pcs s ! t) (c', l', pc') \<Longrightarrow>
    prog_step ts N s (s\<lparr>cs_counter := c', cs_lock := l', cs_pcs := (cs_pcs s)[t := pc']\<rparr>)"

inductive_cases race_stepE: "race_step K t (c, l, pc) (c', l', pc')"
inductive_cases atomic_stepE: "atomic_step K t (c, l, pc) (c', l', pc')"
inductive_cases locked_stepE: "locked_step acq rel K t (c, l, pc) (c', l', pc')"

definition start :: "'l \<Rightarrow> nat \<Rightarrow> 'l cstate" where
  "start l N = \<lparr>cs_counter = 0, cs_lock = l, cs_pcs = replicate N NotStarted, cs_main = Create 0\<rparr>"

abbreviation runs :: "(nat \<Rightarrow> 'l tstate \<Rightarrow> 'l tstate \<Rightarrow> bool) \<Rightarrow> nat \<Rightarrow> 'l cstate \<Rightarrow> 'l cstate \<Rightarrow> bool" where
  "runs ts N \<equiv> (prog_step ts N)\<^sup>*\<^sup>*"

text \<open>The sizes of the source.\<close>

definition N_THREADS :: nat where "N_THREADS = 3"
definition ROUNDS :: nat where "ROUNDS = 1000000"

subsection \<open>Two locks\<close>

text \<open>\<^verbatim>\<open>pthread_mutex_t\<close> by its owner; \<^verbatim>\<open>pthread_spinlock_t\<close> as the word that is 1 while it is free.\<close>

definition mutex_lock :: "nat option \<Rightarrow> nat \<Rightarrow> nat option option" where
  "mutex_lock m t = (case m of None \<Rightarrow> Some (Some t) | Some _ \<Rightarrow> None)"

definition mutex_unlock :: "nat option \<Rightarrow> nat \<Rightarrow> nat option" where
  "mutex_unlock m t = None"

definition spin_init :: int where "spin_init = 1"

definition spin_lock :: "int \<Rightarrow> nat \<Rightarrow> int option" where
  "spin_lock w t = (if w = 1 then Some 0 else None)"

definition spin_unlock :: "int \<Rightarrow> nat \<Rightarrow> int" where
  "spin_unlock w t = 1"

subsection \<open>The four programs\<close>

text \<open>The steps of each program and the states it can reach.\<close>

definition race_program :: "unit cstate \<Rightarrow> unit cstate \<Rightarrow> bool" where
  "race_program = prog_step (race_step ROUNDS) N_THREADS"

definition atomic_program :: "unit cstate \<Rightarrow> unit cstate \<Rightarrow> bool" where
  "atomic_program = prog_step (atomic_step ROUNDS) N_THREADS"

definition mutex_program :: "nat option cstate \<Rightarrow> nat option cstate \<Rightarrow> bool" where
  "mutex_program = prog_step (locked_step mutex_lock mutex_unlock ROUNDS) N_THREADS"

definition spin_program :: "int cstate \<Rightarrow> int cstate \<Rightarrow> bool" where
  "spin_program = prog_step (locked_step spin_lock spin_unlock ROUNDS) N_THREADS"

lemmas programs = race_program_def atomic_program_def mutex_program_def spin_program_def

subsection \<open>Counting over the threads\<close>

fun rounds :: "nat \<Rightarrow> tpc \<Rightarrow> nat" where
  "rounds K NotStarted = 0"
| "rounds K (Head i) = i"
| "rounds K (Crit i) = i"
| "rounds K (Loaded i v) = i"
| "rounds K (Stored i) = Suc i"
| "rounds K Finished = K"

fun inside :: "tpc \<Rightarrow> nat" where
  "inside (Crit i) = 1"
| "inside (Loaded i v) = 1"
| "inside (Stored i) = 1"
| "inside _ = 0"

fun pc_ok :: "nat \<Rightarrow> tpc \<Rightarrow> bool" where
  "pc_ok K (Head i) = (i \<le> K)"
| "pc_ok K (Crit i) = (i < K)"
| "pc_ok K (Loaded i v) = (i < K)"
| "pc_ok K (Stored i) = (i < K)"
| "pc_ok K _ = True"

definition tally :: "(tpc \<Rightarrow> nat) \<Rightarrow> tpc list \<Rightarrow> nat" where
  "tally f pcs = sum_list (map f pcs)"

lemma tally_update: "t < length pcs \<Longrightarrow> tally f (pcs[t := pc]) + f (pcs ! t) = tally f pcs + f pc"
proof (induction pcs arbitrary: t)
  case (Cons p pcs)
  then show ?case by (cases t) (auto simp: tally_def)
qed simp

lemma tally_sum: "tally f pcs = (\<Sum>i < length pcs. f (pcs ! i))"
  by (simp add: tally_def sum_list_sum_nth atLeast0LessThan)

lemma tally_two: "t < length pcs \<Longrightarrow> u < length pcs \<Longrightarrow> t \<noteq> u \<Longrightarrow> f (pcs ! t) + f (pcs ! u) \<le> tally f pcs"
  using sum_mono2 [of "{..<length pcs}" "{t, u}" "\<lambda>i. f (pcs ! i)"] by (simp add: tally_sum)

lemma tally_exists: "0 < tally f pcs \<Longrightarrow> \<exists>t < length pcs. 0 < f (pcs ! t)"
  unfolding tally_def by (metis gr0I in_set_conv_nth length_map nth_map sum_list_eq_0_iff)

lemma tally_all: "\<forall>t < length pcs. f (pcs ! t) = k \<Longrightarrow> tally f pcs = length pcs * k"
proof -
  assume "\<forall>t < length pcs. f (pcs ! t) = k"
  then have "map f pcs = replicate (length pcs) k" by (simp add: list_eq_iff_nth_eq)
  then show ?thesis by (simp add: tally_def sum_list_replicate)
qed

lemma tally_start [simp]: "f NotStarted = 0 \<Longrightarrow> tally f (replicate n NotStarted) = 0"
  by (simp add: tally_def sum_list_replicate)

subsection \<open>The contract of a lock\<close>

text \<open>What \<^verbatim>\<open>main\<close> and its control flow keep, whatever the increment is.\<close>

fun main_inv :: "nat \<Rightarrow> nat \<Rightarrow> 'l cstate \<Rightarrow> bool" where
  "main_inv N K s \<longleftrightarrow> length (cs_pcs s) = N \<and> (\<forall>t < N. pc_ok K (cs_pcs s ! t)) \<and>
     (case cs_main s of
        Create i \<Rightarrow> i \<le> N \<and> (\<forall>t < N. (cs_pcs s ! t = NotStarted) = (i \<le> t))
      | Join i \<Rightarrow> i \<le> N \<and> (\<forall>t < i. cs_pcs s ! t = Finished) \<and> (\<forall>t < N. cs_pcs s ! t \<noteq> NotStarted)
      | Printed c \<Rightarrow> c = cs_counter s \<and> (\<forall>t < N. cs_pcs s ! t = Finished)
      | ExitFail \<Rightarrow> True)"

lemma main_inv_start: "main_inv N K (start l N)"
  by (simp add: start_def)

text \<open>A thread step that a finished or unstarted thread cannot make and that keeps to at most \<open>K\<close> rounds.\<close>

definition tame :: "nat \<Rightarrow> (nat \<Rightarrow> 'l tstate \<Rightarrow> 'l tstate \<Rightarrow> bool) \<Rightarrow> bool" where
  "tame K ts \<longleftrightarrow> (\<forall>t c l pc c' l' pc'. ts t (c, l, pc) (c', l', pc') \<longrightarrow> pc_ok K pc \<longrightarrow>
     pc \<noteq> NotStarted \<and> pc \<noteq> Finished \<and> pc' \<noteq> NotStarted \<and> pc_ok K pc')"

lemma main_inv_step:
  assumes "prog_step ts N s s'" and "main_inv N K s" and "tame K ts"
  shows "main_inv N K s'"
  using assms(1)
proof (cases rule: prog_step.cases)
  case (thread j t c' l' pc')
  have "pc_ok K (cs_pcs s ! t)" using assms(2) thread(3) by simp
  then have pc: "cs_pcs s ! t \<noteq> NotStarted" "cs_pcs s ! t \<noteq> Finished" "pc' \<noteq> NotStarted" "pc_ok K pc'"
    using assms(3) thread(4) unfolding tame_def by blast+
  from thread(2) show ?thesis
  proof
    assume "cs_main s = Create j"
    then show ?thesis using assms(2) thread(1,3) pc by (auto simp: nth_list_update)
  next
    assume "cs_main s = Join j"
    then show ?thesis using assms(2) thread(1,3) pc by (auto simp: nth_list_update)
  qed
qed (use assms(2) in \<open>auto simp: nth_list_update less_Suc_eq\<close>)

lemma main_inv_runs: "runs ts N s s' \<Longrightarrow> main_inv N K s \<Longrightarrow> tame K ts \<Longrightarrow> main_inv N K s'"
  by (induction rule: rtranclp_induct) (auto simp del: main_inv.simps dest: main_inv_step)

lemma tame_race: "tame K (race_step K)"
  unfolding tame_def by (auto elim!: race_stepE)

lemma tame_atomic: "tame K (atomic_step K)"
  unfolding tame_def by (auto elim!: atomic_stepE)

lemma tame_locked: "tame K (locked_step acq rel K)"
  unfolding tame_def by (auto elim!: locked_stepE)

text \<open>
  The steps of \<^verbatim>\<open>main\<close> change neither the counter nor the lock, and no thread's number of rounds or place inside the
  critical section.
\<close>

lemma prog_step_split:
  assumes "prog_step ts N s s'" and "main_inv N K s"
  obtains (own) "cs_counter s' = cs_counter s" "cs_lock s' = cs_lock s" "tally (rounds K) (cs_pcs s') = tally (rounds K) (cs_pcs s)"
      "tally inside (cs_pcs s') = tally inside (cs_pcs s)"
      "\<forall>t < N. \<forall>i v. cs_pcs s' ! t = Loaded i v \<longrightarrow> cs_pcs s ! t = Loaded i v"
  | (other) t c' l' pc' where "t < N" "ts t (cs_counter s, cs_lock s, cs_pcs s ! t) (c', l', pc')"
      "s' = s\<lparr>cs_counter := c', cs_lock := l', cs_pcs := (cs_pcs s)[t := pc']\<rparr>"
  using assms(1)
proof (cases rule: prog_step.cases)
  case (main_create i)
  have "cs_pcs s ! i = NotStarted" "i < length (cs_pcs s)" using assms(2) main_create by auto
  then show ?thesis
    using own main_create tally_update [of i "cs_pcs s" "rounds K" "Head 0"] tally_update [of i "cs_pcs s" inside "Head 0"]
    by (auto simp: nth_list_update split: if_splits)
qed (use own other in auto)

subsection \<open>The contract of a lock\<close>

locale lock_iface =
  fixes lock0 :: 'l and acq :: "'l \<Rightarrow> nat \<Rightarrow> 'l option" and rel :: "'l \<Rightarrow> nat \<Rightarrow> 'l" and held :: "'l \<Rightarrow> bool"
  assumes init_free: "\<not> held lock0"
    and acq_free: "\<not> held l \<Longrightarrow> \<exists>l'. acq l t = Some l'"
    and acq_held: "acq l t = Some l' \<Longrightarrow> \<not> held l \<and> held l'"
    and rel_free: "\<not> held (rel l t)"
begin

definition lock_inv :: "nat \<Rightarrow> nat \<Rightarrow> 'l cstate \<Rightarrow> bool" where
  "lock_inv N K s \<longleftrightarrow> main_inv N K s \<and> cs_counter s = int (tally (rounds K) (cs_pcs s)) \<and>
     tally inside (cs_pcs s) = (if held (cs_lock s) then 1 else 0) \<and>
     (\<forall>t < N. \<forall>i v. cs_pcs s ! t = Loaded i v \<longrightarrow> v = cs_counter s)"

lemma lock_inv_start: "lock_inv N K (start lock0 N)"
  using init_free main_inv_start [of N K lock0] by (auto simp: lock_inv_def start_def simp del: main_inv.simps)

lemma lock_inv_thread:
  assumes "lock_inv N K s" and "t < N" and "locked_step acq rel K t (cs_counter s, cs_lock s, cs_pcs s ! t) (c', l', pc')"
    and "s' = s\<lparr>cs_counter := c', cs_lock := l', cs_pcs := (cs_pcs s)[t := pc']\<rparr>" and "main_inv N K s'"
  shows "lock_inv N K s'"
proof -
  have len: "t < length (cs_pcs s)" using assms(1,2) by (simp add: lock_inv_def)
  have up: "tally (rounds K) (cs_pcs s') + rounds K (cs_pcs s ! t) = tally (rounds K) (cs_pcs s) + rounds K pc'"
    "tally inside (cs_pcs s') + inside (cs_pcs s ! t) = tally inside (cs_pcs s) + inside pc'"
    using tally_update [OF len] assms(4) by simp_all
  have le1: "tally inside (cs_pcs s) \<le> 1" using assms(1) by (simp add: lock_inv_def)
  have others: "cs_pcs s ! u \<noteq> Loaded i v" if "u < N" "u \<noteq> t" "0 < inside (cs_pcs s ! t)" for u i v
  proof
    assume u: "cs_pcs s ! u = Loaded i v"
    have "inside (cs_pcs s ! t) + inside (cs_pcs s ! u) \<le> 1"
      using tally_two [of t "cs_pcs s" u inside] that len le1 assms(1) by (auto simp: lock_inv_def)
    then show False using that(3) u by simp
  qed
  have own: "pc_ok K (cs_pcs s ! t)" "\<And>i v. cs_pcs s ! t = Loaded i v \<Longrightarrow> v = cs_counter s"
    using assms(1,2) by (auto simp: lock_inv_def)
  with len show ?thesis
    using assms(3) up assms(1,5) acq_held rel_free others unfolding lock_inv_def
    by (cases rule: locked_stepE) (auto simp: assms(4) nth_list_update simp del: main_inv.simps split: if_splits)
qed

lemma lock_inv_step:
  assumes "prog_step (locked_step acq rel K) N s s'" and "lock_inv N K s"
  shows "lock_inv N K s'"
proof -
  have m: "main_inv N K s" using assms(2) by (simp add: lock_inv_def)
  then have m': "main_inv N K s'" using main_inv_step [OF assms(1) _ tame_locked] by blast
  show ?thesis
  proof (cases rule: prog_step_split [OF assms(1) m])
    case 1
    then show ?thesis using assms(2) m' by (auto simp: lock_inv_def simp del: main_inv.simps)
  next
    case (2 t c' l' pc')
    then show ?thesis using lock_inv_thread [OF assms(2)] m' by blast
  qed
qed

lemma lock_inv_runs: "runs (locked_step acq rel K) N (start lock0 N) s \<Longrightarrow> lock_inv N K s"
  by (induction rule: rtranclp_induct) (auto intro: lock_inv_start lock_inv_step)

lemma printed_exact:
  assumes "runs (locked_step acq rel K) N (start lock0 N) s" and "cs_main s = Printed c"
  shows "c = int (N * K)"
proof -
  have inv: "lock_inv N K s" using assms(1) by (rule lock_inv_runs)
  then have "\<forall>t < length (cs_pcs s). rounds K (cs_pcs s ! t) = K" using assms(2) by (auto simp: lock_inv_def)
  then have "tally (rounds K) (cs_pcs s) = length (cs_pcs s) * K" by (rule tally_all)
  then show ?thesis using inv assms(2) by (simp add: lock_inv_def)
qed

text \<open>Some step is possible until \<^verbatim>\<open>main\<close> has printed or given up.\<close>

lemma not_stuck:
  assumes "runs (locked_step acq rel K) N (start lock0 N) s" and "\<forall>c. cs_main s \<noteq> Printed c" and "cs_main s \<noteq> ExitFail"
  shows "\<exists>s'. prog_step (locked_step acq rel K) N s s'"
proof -
  have inv: "lock_inv N K s" using assms(1) by (rule lock_inv_runs)
  have go: "\<exists>s'. prog_step (locked_step acq rel K) N s s'"
    if "cs_main s = Join j" "t < N" "locked_step acq rel K t (cs_counter s, cs_lock s, cs_pcs s ! t) x" for j t x
    using that prog_step.thread [of s j t N "locked_step acq rel K"] by (cases x) blast
  have crit: "\<exists>x. locked_step acq rel K t (c, l, pc) x" if "0 < inside pc" for t c l pc
    using that by (cases pc) (auto intro: locked_step.intros)
  show ?thesis
  proof (cases "cs_main s")
    case (Create i)
    then show ?thesis by (cases "i < N") (auto intro: prog_step.intros)
  next
    case (Join i)
    show ?thesis
    proof (cases "i < N \<and> cs_pcs s ! i \<noteq> Finished")
      case False
      then show ?thesis using Join by (cases "i < N") (auto intro: prog_step.intros)
    next
      case True
      show ?thesis
      proof (cases "held (cs_lock s)")
        case held: True
        then obtain t where "t < N" "0 < inside (cs_pcs s ! t)"
          using inv tally_exists [of inside "cs_pcs s"] by (auto simp: lock_inv_def)
        then show ?thesis using go [OF Join] crit by blast
      next
        case False
        have "cs_pcs s ! i \<noteq> NotStarted" using inv True Join by (auto simp: lock_inv_def)
        moreover have "inside (cs_pcs s ! i) = 0"
          using inv True False tally_two tally_exists tally_update [of i "cs_pcs s" inside NotStarted]
          by (auto simp: lock_inv_def)
        ultimately obtain k where pc: "cs_pcs s ! i = Head k" using True by (cases "cs_pcs s ! i") auto
        have "\<exists>x. locked_step acq rel K i (cs_counter s, cs_lock s, Head k) x"
          using acq_free [OF False, of i] by (cases "k < K") (blast intro: locked_step.intros)+
        then show ?thesis using go [OF Join] True pc by metis
      qed
    qed
  qed (use assms in auto)
qed

end

interpretation mutex: lock_iface None mutex_lock mutex_unlock "\<lambda>m. m \<noteq> None"
  by unfold_locales (auto simp: mutex_lock_def mutex_unlock_def split: option.splits)

interpretation spin: lock_iface spin_init spin_lock spin_unlock "\<lambda>w. w \<noteq> 1"
  by unfold_locales (auto simp: spin_lock_def spin_unlock_def spin_init_def split: if_splits)

subsection \<open>The atomic counter\<close>

definition atomic_inv :: "nat \<Rightarrow> nat \<Rightarrow> unit cstate \<Rightarrow> bool" where
  "atomic_inv N K s \<longleftrightarrow> main_inv N K s \<and> cs_counter s = int (tally (rounds K) (cs_pcs s))"

lemma atomic_inv_step:
  assumes "prog_step (atomic_step K) N s s'" and "atomic_inv N K s"
  shows "atomic_inv N K s'"
proof -
  have m: "main_inv N K s" using assms(2) by (simp add: atomic_inv_def)
  then have m': "main_inv N K s'" using main_inv_step [OF assms(1) _ tame_atomic] by blast
  show ?thesis
  proof (cases rule: prog_step_split [OF assms(1) m])
    case 1
    then show ?thesis using assms(2) m' by (auto simp: atomic_inv_def simp del: main_inv.simps)
  next
    case (2 t c' l' pc')
    have len: "t < length (cs_pcs s)" and ok: "pc_ok K (cs_pcs s ! t)" using m 2(1) by auto
    have up: "tally (rounds K) (cs_pcs s') + rounds K (cs_pcs s ! t) = tally (rounds K) (cs_pcs s) + rounds K pc'"
      using tally_update [OF len] 2(3) by simp
    from 2(2) have "(pc' = Finished \<and> c' = cs_counter s \<and> rounds K (cs_pcs s ! t) = K) \<or>
        (c' = cs_counter s + 1 \<and> rounds K pc' = Suc (rounds K (cs_pcs s ! t)))"
      using ok by (cases rule: atomic_step.cases) auto
    then show ?thesis using up assms(2) m' 2(3) by (auto simp: atomic_inv_def simp del: main_inv.simps)
  qed
qed

lemma atomic_inv_runs: "runs (atomic_step K) N (start () N) s \<Longrightarrow> atomic_inv N K s"
proof (induction rule: rtranclp_induct)
  case base
  show ?case using main_inv_start [of N K "()"] by (simp add: atomic_inv_def start_def)
qed (blast intro: atomic_inv_step)

subsection \<open>The race\<close>

lemma run_thread:
  assumes "cs_main s = Join j" and "t < N" and "race_step K t (cs_counter s, cs_lock s, cs_pcs s ! t) (c', l', pc')"
  shows "prog_step (race_step K) N s (s\<lparr>cs_counter := c', cs_pcs := (cs_pcs s)[t := pc']\<rparr>)"
proof -
  have "s\<lparr>cs_counter := c', cs_lock := l', cs_pcs := (cs_pcs s)[t := pc']\<rparr> = s\<lparr>cs_counter := c', cs_pcs := (cs_pcs s)[t := pc']\<rparr>"
    by (cases s) simp
  then show ?thesis using prog_step.thread [of s j t N "race_step K"] assms by metis
qed

text \<open>A thread that runs alone from round \<open>i\<close> adds the rest of its rounds.\<close>

lemma run_alone:
  assumes "cs_main s = Join j" and "t < N" and "t < length (cs_pcs s)" and "cs_pcs s ! t = Head i" and "i \<le> K"
  shows "runs (race_step K) N s (s\<lparr>cs_counter := cs_counter s + int (K - i), cs_pcs := (cs_pcs s)[t := Finished]\<rparr>)"
  using assms
proof (induction "K - i" arbitrary: i s)
  case 0
  then have "prog_step (race_step K) N s (s\<lparr>cs_counter := cs_counter s, cs_pcs := (cs_pcs s)[t := Finished]\<rparr>)"
    by (intro run_thread [OF 0(2,3), where l' = "cs_lock s"]) (simp add: race_end)
  then show ?case using 0 by auto
next
  case (Suc d)
  let ?s1 = "s\<lparr>cs_counter := cs_counter s, cs_pcs := (cs_pcs s)[t := Loaded i (cs_counter s)]\<rparr>"
  let ?s2 = "?s1\<lparr>cs_counter := cs_counter s + 1, cs_pcs := (cs_pcs ?s1)[t := Head (Suc i)]\<rparr>"
  have 1: "prog_step (race_step K) N s ?s1"
    using Suc(2,6) by (intro run_thread [OF Suc(3,4), where l' = "cs_lock s"]) (simp add: race_load)
  have 2: "prog_step (race_step K) N ?s1 ?s2"
    using Suc(5) by (intro run_thread [OF _ Suc(4), of _ j, where l' = "cs_lock s"]) (simp_all add: Suc(3) race_store)
  have "runs (race_step K) N ?s2 (?s2\<lparr>cs_counter := cs_counter ?s2 + int (K - Suc i), cs_pcs := (cs_pcs ?s2)[t := Finished]\<rparr>)"
    using Suc by (intro Suc(1)) simp_all
  moreover have "?s2\<lparr>cs_counter := cs_counter ?s2 + int (K - Suc i), cs_pcs := (cs_pcs ?s2)[t := Finished]\<rparr> =
      s\<lparr>cs_counter := cs_counter s + int (K - i), cs_pcs := (cs_pcs s)[t := Finished]\<rparr>"
    using Suc(2) by simp
  ultimately show ?case using 1 2 by (metis (no_types, lifting) converse_rtranclp_into_rtranclp)
qed

text \<open>Thread 0 loads 0; thread 1 runs to its end; thread 0 stores 1 over the result.\<close>

lemma race_run:
  assumes "0 < K"
  shows "\<exists>s. runs (race_step K) 3 (start () 3) s \<and> cs_main s = Printed (int (2 * K))"
proof -
  let ?st = "\<lambda>c pcs m. \<lparr>cs_counter = c, cs_lock = (), cs_pcs = pcs, cs_main = m\<rparr>"
  let ?R = "runs (race_step K) 3"
  let ?c = "prog_step (race_step K) 3"
  have a1: "?c (start () 3) (?st 0 [Head 0, NotStarted, NotStarted] (Create 1))"
    using main_create [of "start () 3" 0 3 "race_step K"] by (simp add: start_def numeral_3_eq_3)
  have a2: "?c (?st 0 [Head 0, NotStarted, NotStarted] (Create 1)) (?st 0 [Head 0, Head 0, NotStarted] (Create 2))"
    using main_create [of "?st 0 [Head 0, NotStarted, NotStarted] (Create 1)" 1 3 "race_step K"] by (simp add: numeral_2_eq_2)
  have a3: "?c (?st 0 [Head 0, Head 0, NotStarted] (Create 2)) (?st 0 [Head 0, Head 0, Head 0] (Create 3))"
    using main_create [of "?st 0 [Head 0, Head 0, NotStarted] (Create 2)" 2 3 "race_step K"] by simp
  have a4: "?c (?st 0 [Head 0, Head 0, Head 0] (Create 3)) (?st 0 [Head 0, Head 0, Head 0] (Join 0))"
    using main_created [of "?st 0 [Head 0, Head 0, Head 0] (Create 3)" 3 3 "race_step K"] by simp
  have a5: "?c (?st 0 [Head 0, Head 0, Head 0] (Join 0)) (?st 0 [Loaded 0 0, Head 0, Head 0] (Join 0))"
    using run_thread [of "?st 0 [Head 0, Head 0, Head 0] (Join 0)" 0 0 3 K 0 "()" "Loaded 0 0"] assms by (simp add: race_load)
  have a: "?R (start () 3) (?st 0 [Loaded 0 0, Head 0, Head 0] (Join 0))"
    using a1 a2 a3 a4 a5 by (meson converse_rtranclp_into_rtranclp rtranclp.rtrancl_refl)
  have b: "?R (?st 0 [Loaded 0 0, Head 0, Head 0] (Join 0)) (?st (int K) [Loaded 0 0, Finished, Head 0] (Join 0))"
    using run_alone [of "?st 0 [Loaded 0 0, Head 0, Head 0] (Join 0)" 0 1 3 0 K] by simp
  have c: "?c (?st (int K) [Loaded 0 0, Finished, Head 0] (Join 0)) (?st 1 [Head 1, Finished, Head 0] (Join 0))"
    using run_thread [of "?st (int K) [Loaded 0 0, Finished, Head 0] (Join 0)" 0 0 3 K 1 "()" "Head 1"] race_store [of K 0 "int K" "()" 0 0]
    by simp
  have d: "?R (?st 1 [Head 1, Finished, Head 0] (Join 0)) (?st (int K) [Finished, Finished, Head 0] (Join 0))"
    using run_alone [of "?st 1 [Head 1, Finished, Head 0] (Join 0)" 0 0 3 1 K] assms by (simp add: of_nat_diff)
  have e: "?R (?st (int K) [Finished, Finished, Head 0] (Join 0)) (?st (int (2 * K)) [Finished, Finished, Finished] (Join 0))"
    using run_alone [of "?st (int K) [Finished, Finished, Head 0] (Join 0)" 0 2 3 0 K] by simp
  let ?f = "?st (int (2 * K)) [Finished, Finished, Finished]"
  have j: "?c (?f (Join i)) (?f (Join (Suc i)))" if "i < 3" for i
    using main_join [of "?f (Join i)" i 3 "race_step K"] that by (auto simp: less_Suc_eq numeral_3_eq_3)
  have p: "?c (?f (Join 3)) (?f (Printed (int (2 * K))))"
    using main_print [of "?f (Join 3)" 3 3 "race_step K"] by simp
  have "?R (?f (Join 0)) (?f (Printed (int (2 * K))))"
    using j [of 0] j [of 1] j [of 2] p by (auto simp: numeral_3_eq_3 numeral_2_eq_2 intro: converse_rtranclp_into_rtranclp)
  with a b c d e have "?R (start () 3) (?f (Printed (int (2 * K))))"
    by (meson r_into_rtranclp rtranclp_trans)
  then show ?thesis by force
qed

subsection \<open>Properties\<close>

text \<open>
  C19: the programs with a mutex and with a spin lock print exactly the number of threads times the number of rounds, in every interleaving, and
  they cannot get stuck before that: some step is possible until \<^verbatim>\<open>main\<close> has printed or a thread could not be created.
\<close>

theorem locked_counter_exact:
  "(\<forall>s c. mutex_program\<^sup>*\<^sup>* (start None N_THREADS) s \<and> cs_main s = Printed c \<longrightarrow> c = 3000000) \<and>
   (\<forall>s c. spin_program\<^sup>*\<^sup>* (start spin_init N_THREADS) s \<and> cs_main s = Printed c \<longrightarrow> c = 3000000) \<and>
   (\<forall>s. mutex_program\<^sup>*\<^sup>* (start None N_THREADS) s \<longrightarrow>
     (\<exists>c. cs_main s = Printed c) \<or> cs_main s = ExitFail \<or> (\<exists>s'. mutex_program s s')) \<and>
   (\<forall>s. spin_program\<^sup>*\<^sup>* (start spin_init N_THREADS) s \<longrightarrow>
     (\<exists>c. cs_main s = Printed c) \<or> cs_main s = ExitFail \<or> (\<exists>s'. spin_program s s'))"
proof -
  have n: "int (N_THREADS * ROUNDS) = 3000000" by (simp add: N_THREADS_def ROUNDS_def)
  show ?thesis
    using mutex.printed_exact [of ROUNDS N_THREADS] spin.printed_exact [of ROUNDS N_THREADS]
      mutex.not_stuck [of ROUNDS N_THREADS] spin.not_stuck [of ROUNDS N_THREADS]
    unfolding n programs by blast
qed

theorem locked_counter_exact_witness:
  "(\<exists>s'. mutex_program (start None N_THREADS) s') \<and> (\<exists>s'. spin_program (start spin_init N_THREADS) s')"
  using locked_counter_exact by (auto simp: start_def)

text \<open>
  In the program with the atomic addition the counter is at every moment the number of rounds that the threads have
  finished, so it prints exactly three million in every interleaving.
\<close>

theorem atomic_counter_exact:
  assumes "atomic_program\<^sup>*\<^sup>* (start () N_THREADS) s"
  shows "cs_counter s = int (tally (rounds ROUNDS) (cs_pcs s)) \<and> (\<forall>c. cs_main s = Printed c \<longrightarrow> c = 3000000)"
proof (intro conjI allI impI)
  have inv: "atomic_inv N_THREADS ROUNDS s" using assms unfolding programs by (rule atomic_inv_runs)
  then show cnt: "cs_counter s = int (tally (rounds ROUNDS) (cs_pcs s))" by (simp add: atomic_inv_def)
  fix c assume pr: "cs_main s = Printed c"
  with inv have "\<forall>t < length (cs_pcs s). rounds ROUNDS (cs_pcs s ! t) = ROUNDS" by (auto simp: atomic_inv_def)
  then have "tally (rounds ROUNDS) (cs_pcs s) = length (cs_pcs s) * ROUNDS" by (rule tally_all)
  then show "c = 3000000" using inv pr by (simp add: atomic_inv_def N_THREADS_def ROUNDS_def)
qed

theorem atomic_counter_exact_witness:
  "cs_counter (\<lparr>cs_counter = 1, cs_lock = (), cs_pcs = [Head 1, NotStarted, NotStarted], cs_main = Create 1\<rparr> :: unit cstate) =
    int (tally (rounds ROUNDS) [Head 1, NotStarted, NotStarted])"
proof -
  let ?s1 = "\<lparr>cs_counter = 0, cs_lock = (), cs_pcs = [Head 0, NotStarted, NotStarted], cs_main = Create 1\<rparr>"
  let ?s2 = "\<lparr>cs_counter = 1, cs_lock = (), cs_pcs = [Head 1, NotStarted, NotStarted], cs_main = Create 1\<rparr>"
  have "prog_step (atomic_step ROUNDS) N_THREADS (start () N_THREADS) ?s1"
    using main_create [of "start () N_THREADS" 0 N_THREADS "atomic_step ROUNDS"]
    by (simp add: start_def N_THREADS_def numeral_3_eq_3)
  moreover have "prog_step (atomic_step ROUNDS) N_THREADS ?s1 ?s2"
    using thread [of ?s1 1 0 N_THREADS "atomic_step ROUNDS" 1 "()" "Head 1"] atomic_add [of 0 ROUNDS 0 0 "()"]
    by (simp add: N_THREADS_def ROUNDS_def)
  ultimately have "atomic_program\<^sup>*\<^sup>* (start () N_THREADS) ?s2"
    unfolding programs by (meson converse_rtranclp_into_rtranclp rtranclp.rtrancl_refl)
  from atomic_counter_exact [OF this] show ?thesis by simp
qed

text \<open>
  Without synchronisation the counter can lose updates: there is an interleaving after which the program prints two million.
\<close>

theorem race_loses_updates:
  "\<exists>s. race_program\<^sup>*\<^sup>* (start () N_THREADS) s \<and> cs_main s = Printed 2000000"
  using race_run [of ROUNDS] by (simp add: programs N_THREADS_def ROUNDS_def)

end
