(* ===== verification/Work_Queue.thy ===== *)
theory Work_Queue
  imports C_Prelude
begin

section \<open>Consumers and a producer with a condition variable (week4/02_sync/ex2.c)\<close>

text \<open>
  \<^verbatim>\<open>main\<close> creates \<open>N\<close> consumers, adds one to three units of work in each of \<open>M\<close> cycles, raises the flag
  \<^verbatim>\<open>polundra\<close> without the mutex and then signals and joins the consumers one after the other. Every atomic
  action of the source is one step; \<open>wq_step a s\<close> is the state after action \<open>a\<close>, \<open>None\<close> when it is not possible in \<open>s\<close>.
  \<^verbatim>\<open>pthread_cond_wait\<close> releases the mutex and starts to wait in one step; a signal wakes one waiting thread, which an
  action chooses, and is lost when nobody waits. Spurious wake-ups, which the standard allows but no program may rely on, are not modelled.
  \<open>wq_added\<close> and \<open>wq_consumed\<close> count units and are not variables of the program.
\<close>

subsection \<open>States\<close>

datatype owner = Main | Consumer nat

datatype cpc = CNotStarted | CStart | CTop | CToWait | CWaiting | CWoken | CWork | CCheck | CUnlock | CDone

datatype wmpc = MCreate nat | MLock nat | MAdd nat | MSignal nat | MUnlock nat | MSetFlag | MLastSignal nat | MJoin nat | MDone

record wq =
  wq_work :: nat
  wq_polundra :: bool
  wq_mutex :: "owner option"
  wq_pcs :: "cpc list"
  wq_main :: wmpc
  wq_added :: nat
  wq_consumed :: nat

datatype wq_action = ActMain | ActAdd nat | ActWake nat | ActConsumer nat

subsection \<open>thread_func\<close>

definition set_pc :: "nat \<Rightarrow> cpc \<Rightarrow> wq \<Rightarrow> wq" where
  "set_pc t pc s = s\<lparr>wq_pcs := (wq_pcs s)[t := pc]\<rparr>"

definition consumer_step :: "nat \<Rightarrow> wq \<Rightarrow> wq option" where
  "consumer_step t s = (case wq_pcs s ! t of
       CStart \<Rightarrow> if wq_mutex s = None then Some (set_pc t CTop (s\<lparr>wq_mutex := Some (Consumer t)\<rparr>)) else None
     | CTop \<Rightarrow> Some (set_pc t (if wq_work s = 0 \<and> \<not> wq_polundra s then CToWait else CWork) s)
     | CToWait \<Rightarrow> Some (set_pc t CWaiting (s\<lparr>wq_mutex := None\<rparr>))
     | CWoken \<Rightarrow> if wq_mutex s = None then Some (set_pc t CTop (s\<lparr>wq_mutex := Some (Consumer t)\<rparr>)) else None
     | CWork \<Rightarrow>
         if wq_work s \<noteq> 0 then Some (s\<lparr>wq_work := wq_work s - 1, wq_consumed := wq_consumed s + 1\<rparr>)
         else Some (set_pc t CCheck s)
     | CCheck \<Rightarrow> Some (set_pc t (if wq_polundra s then CUnlock else CTop) s)
     | CUnlock \<Rightarrow> Some (set_pc t CDone (s\<lparr>wq_mutex := None\<rparr>))
     | _ \<Rightarrow> None)"

subsection \<open>main\<close>

text \<open>A signal: \<open>w\<close> is the consumer that it wakes, if any waits.\<close>

definition signal :: "nat option \<Rightarrow> wq \<Rightarrow> wq option" where
  "signal w s = (case w of
       Some t \<Rightarrow> if t < length (wq_pcs s) \<and> wq_pcs s ! t = CWaiting then Some (set_pc t CWoken s) else None
     | None \<Rightarrow> if CWaiting \<in> set (wq_pcs s) then None else Some s)"

definition main_signal :: "nat \<Rightarrow> nat option \<Rightarrow> wq \<Rightarrow> wq option" where
  "main_signal N w s = (case wq_main s of
       MSignal i \<Rightarrow> map_option (wq_main_update (\<lambda>_. MUnlock i)) (signal w s)
     | MLastSignal i \<Rightarrow>
         if i < N then map_option (wq_main_update (\<lambda>_. MJoin i)) (signal w s) else None
     | _ \<Rightarrow> None)"

definition main_step :: "nat \<Rightarrow> nat \<Rightarrow> wq \<Rightarrow> wq option" where
  "main_step N M s = (case wq_main s of
       MCreate i \<Rightarrow>
         if i < N then Some (set_pc i CStart (s\<lparr>wq_main := MCreate (Suc i)\<rparr>)) else Some (s\<lparr>wq_main := MLock 0\<rparr>)
     | MLock i \<Rightarrow>
         if i < M then if wq_mutex s = None then Some (s\<lparr>wq_mutex := Some Main, wq_main := MAdd i\<rparr>) else None
         else Some (s\<lparr>wq_main := MSetFlag\<rparr>)
     | MUnlock i \<Rightarrow> Some (s\<lparr>wq_mutex := None, wq_main := MLock (Suc i)\<rparr>)
     | MSetFlag \<Rightarrow> Some (s\<lparr>wq_polundra := True, wq_main := MLastSignal 0\<rparr>)
     | MLastSignal i \<Rightarrow> if i < N then main_signal N None s else Some (s\<lparr>wq_main := MDone\<rparr>)
     | MJoin i \<Rightarrow> if wq_pcs s ! i = CDone then Some (s\<lparr>wq_main := MLastSignal (Suc i)\<rparr>) else None
     | MSignal i \<Rightarrow> main_signal N None s
     | _ \<Rightarrow> None)"

text \<open>\<^verbatim>\<open>work += rand() % 3 + 1\<close>.\<close>

definition main_add :: "nat \<Rightarrow> wq \<Rightarrow> wq option" where
  "main_add add s = (case wq_main s of
       MAdd i \<Rightarrow>
         if 1 \<le> add \<and> add \<le> 3
         then Some (s\<lparr>wq_work := wq_work s + add, wq_added := wq_added s + add, wq_main := MSignal i\<rparr>) else None
     | _ \<Rightarrow> None)"

definition wq_step :: "nat \<Rightarrow> nat \<Rightarrow> wq_action \<Rightarrow> wq \<Rightarrow> wq option" where
  "wq_step N M a s = (case a of
       ActMain \<Rightarrow> main_step N M s
     | ActAdd n \<Rightarrow> main_add n s
     | ActWake t \<Rightarrow> main_signal N (Some t) s
     | ActConsumer t \<Rightarrow> if t < N \<and> wq_main s \<noteq> MDone then consumer_step t s else None)"

definition wq_start :: "nat \<Rightarrow> wq" where
  "wq_start N = \<lparr>wq_work = 0, wq_polundra = False, wq_mutex = None, wq_pcs = replicate N CNotStarted, wq_main = MCreate 0,
     wq_added = 0, wq_consumed = 0\<rparr>"

text \<open>The state after a sequence of actions.\<close>

fun wq_run :: "nat \<Rightarrow> nat \<Rightarrow> wq_action list \<Rightarrow> wq \<Rightarrow> wq option" where
  "wq_run N M [] s = Some s"
| "wq_run N M (a # as) s = (case wq_step N M a s of None \<Rightarrow> None | Some s' \<Rightarrow> wq_run N M as s')"

definition wq_reachable :: "nat \<Rightarrow> nat \<Rightarrow> wq \<Rightarrow> bool" where
  "wq_reachable N M s \<longleftrightarrow> (\<exists>as. wq_run N M as (wq_start N) = Some s)"

subsection \<open>Invariant\<close>

fun holds_mutex :: "cpc \<Rightarrow> bool" where
  "holds_mutex CTop = True"
| "holds_mutex CToWait = True"
| "holds_mutex CWork = True"
| "holds_mutex CCheck = True"
| "holds_mutex CUnlock = True"
| "holds_mutex _ = False"

fun main_holds :: "wmpc \<Rightarrow> bool" where
  "main_holds (MAdd i) = True"
| "main_holds (MSignal i) = True"
| "main_holds (MUnlock i) = True"
| "main_holds _ = False"

fun flag_up :: "wmpc \<Rightarrow> bool" where
  "flag_up (MLastSignal i) = True"
| "flag_up (MJoin i) = True"
| "flag_up MDone = True"
| "flag_up _ = False"

fun joined :: "nat \<Rightarrow> wmpc \<Rightarrow> nat" where
  "joined N (MLastSignal i) = i"
| "joined N (MJoin i) = i"
| "joined N MDone = N"
| "joined N _ = 0"

text \<open>What holds of consumer \<open>t\<close> at \<open>pc\<close>, given the mutex, the flag and the work.\<close>

definition thread_inv :: "owner option \<Rightarrow> bool \<Rightarrow> nat \<Rightarrow> nat \<Rightarrow> cpc \<Rightarrow> bool" where
  "thread_inv m flag work t pc \<longleftrightarrow> (m = Some (Consumer t)) = holds_mutex pc \<and> (pc = CCheck \<longrightarrow> work = 0) \<and>
     (pc = CUnlock \<or> pc = CDone \<longrightarrow> flag \<and> work = 0)"

definition main_part :: "nat \<Rightarrow> wq \<Rightarrow> bool" where
  "main_part N s \<longleftrightarrow> length (wq_pcs s) = N \<and> wq_consumed s + wq_work s = wq_added s \<and>
     (wq_mutex s = Some Main) = main_holds (wq_main s) \<and> wq_polundra s = flag_up (wq_main s) \<and>
     joined N (wq_main s) \<le> N \<and> (\<forall>t < joined N (wq_main s). wq_pcs s ! t = CDone) \<and> (\<forall>i. wq_main s = MJoin i \<longrightarrow> i < N) \<and>
     (\<forall>i. wq_main s = MCreate i \<longrightarrow> (\<forall>t < N. i \<le> t \<longrightarrow> wq_pcs s ! t = CNotStarted))"

definition wq_inv :: "nat \<Rightarrow> wq \<Rightarrow> bool" where
  "wq_inv N s \<longleftrightarrow> main_part N s \<and> (\<forall>t < N. thread_inv (wq_mutex s) (wq_polundra s) (wq_work s) t (wq_pcs s ! t))"

lemma wq_inv_start: "wq_inv N (wq_start N)"
  by (auto simp: wq_inv_def main_part_def thread_inv_def wq_start_def)

text \<open>Another consumer is not disturbed by a step of the holder of the mutex, nor by one that takes it while it is free.\<close>

lemma thread_inv_other:
  assumes "thread_inv m flag work u pc" and "m = None \<or> m = Some (Consumer t)" and "m' = None \<or> m' = Some (Consumer t)" and "u \<noteq> t"
    and "work' = work \<or> (work \<noteq> 0 \<and> m = Some (Consumer t))"
  shows "thread_inv m' flag work' u pc"
  using assms by (cases pc) (auto simp: thread_inv_def)

lemma consumer_step_frame:
  assumes "consumer_step t s = Some s'" and "thread_inv (wq_mutex s) (wq_polundra s) (wq_work s) t (wq_pcs s ! t)"
    and "t < length (wq_pcs s)"
  shows "wq_main s' = wq_main s \<and> wq_polundra s' = wq_polundra s \<and> wq_added s' = wq_added s \<and>
    wq_consumed s' + wq_work s' = wq_consumed s + wq_work s \<and>
    length (wq_pcs s') = length (wq_pcs s) \<and> (\<forall>u. u \<noteq> t \<longrightarrow> wq_pcs s' ! u = wq_pcs s ! u) \<and> wq_pcs s ! t \<noteq> CDone \<and> wq_pcs s ! t \<noteq> CNotStarted \<and>
    (wq_mutex s = None \<or> wq_mutex s = Some (Consumer t)) \<and> (wq_mutex s' = None \<or> wq_mutex s' = Some (Consumer t)) \<and>
    (wq_work s' = wq_work s \<or> (wq_work s \<noteq> 0 \<and> wq_mutex s = Some (Consumer t))) \<and>
    thread_inv (wq_mutex s') (wq_polundra s') (wq_work s') t (wq_pcs s' ! t)"
  using assms
  by (cases "wq_pcs s ! t") (auto simp: consumer_step_def thread_inv_def set_pc_def split: if_splits)

lemma wq_inv_consumer:
  assumes "consumer_step t s = Some s'" and "wq_inv N s" and "t < N"
  shows "wq_inv N s'"
proof -
  have m: "main_part N s" and ti: "\<And>u. u < N \<Longrightarrow> thread_inv (wq_mutex s) (wq_polundra s) (wq_work s) u (wq_pcs s ! u)"
    using assms(2) by (auto simp: wq_inv_def)
  note fr = consumer_step_frame [OF assms(1) ti [OF assms(3)]]
  have len: "t < length (wq_pcs s)" using m assms(3) by (simp add: main_part_def)
  have "thread_inv (wq_mutex s') (wq_polundra s') (wq_work s') u (wq_pcs s' ! u)" if "u < N" for u
  proof (cases "u = t")
    case False
    then have "thread_inv (wq_mutex s') (wq_polundra s) (wq_work s') u (wq_pcs s ! u)"
      using fr [OF len] thread_inv_other [OF ti [OF that], of t "wq_mutex s'" "wq_work s'"] by blast
    then show ?thesis using fr [OF len] False by simp
  qed (use fr [OF len] in blast)
  moreover have "main_part N s'"
  proof -
    have "wq_pcs s' ! u = wq_pcs s ! u" if "wq_pcs s ! u = CDone \<or> wq_pcs s ! u = CNotStarted" for u
      using fr [OF len] that by (cases "u = t") auto
    moreover have "(wq_mutex s' = Some Main) = (wq_mutex s = Some Main)" using fr [OF len] by auto
    ultimately show ?thesis using fr [OF len] m by (simp add: main_part_def)
  qed
  ultimately show ?thesis by (simp add: wq_inv_def)
qed

lemma wq_inv_signal:
  assumes "signal w s = Some s'" and "wq_inv N s"
  shows "wq_inv N s' \<and> wq_main s' = wq_main s \<and> wq_mutex s' = wq_mutex s"
proof (cases w)
  case None
  then show ?thesis using assms by (auto simp: signal_def split: if_splits)
next
  case (Some t)
  then have t: "t < length (wq_pcs s)" "wq_pcs s ! t = CWaiting" and s': "s' = set_pc t CWoken s"
    using assms(1) by (auto simp: signal_def split: if_splits)
  have "thread_inv (wq_mutex s) (wq_polundra s) (wq_work s) u (wq_pcs s' ! u)" if "u < N" for u
    using assms(2) that t s' by (auto simp: wq_inv_def set_pc_def nth_list_update thread_inv_def)
  moreover have "main_part N s'"
    using assms(2) t s' by (auto simp: wq_inv_def main_part_def set_pc_def nth_list_update)
  ultimately show ?thesis using s' by (simp add: wq_inv_def set_pc_def)
qed

text \<open>A step of \<^verbatim>\<open>main\<close> that leaves the consumers alone.\<close>

lemma wq_inv_main_own:
  assumes "wq_inv N s" and "wq_pcs s' = wq_pcs s" and "main_part N s'"
    and "wq_mutex s' = wq_mutex s \<or> (\<forall>t. wq_mutex s \<noteq> Some (Consumer t)) \<and> (\<forall>t. wq_mutex s' \<noteq> Some (Consumer t))"
    and "wq_polundra s \<longrightarrow> wq_polundra s'" and "wq_work s' = wq_work s \<or> (wq_mutex s = Some Main \<and> \<not> wq_polundra s)"
  shows "wq_inv N s'"
proof -
  have "thread_inv (wq_mutex s') (wq_polundra s') (wq_work s') t pc"
    if "thread_inv (wq_mutex s) (wq_polundra s) (wq_work s) t pc" for t pc
    using that assms(4-6) by (cases pc) (auto simp: thread_inv_def)
  then show ?thesis using assms(1-3) by (simp add: wq_inv_def)
qed

lemma main_signal_cases:
  assumes "main_signal N w s = Some s'"
  obtains (cycle) i s1 where "wq_main s = MSignal i" "signal w s = Some s1" "s' = s1\<lparr>wq_main := MUnlock i\<rparr>"
  | (last) i s1 where "wq_main s = MLastSignal i" "i < N" "signal w s = Some s1" "s' = s1\<lparr>wq_main := MJoin i\<rparr>"
  using assms by (auto simp: main_signal_def split: wmpc.splits if_splits)

lemma wq_inv_main_signal:
  assumes "main_signal N w s = Some s'" and "wq_inv N s"
  shows "wq_inv N s'"
  using assms(1)
proof (cases rule: main_signal_cases)
  case (cycle i s1)
  have i1: "wq_inv N s1" "wq_main s1 = MSignal i" using wq_inv_signal [OF cycle(2) assms(2)] cycle(1) by auto
  then have "main_part N s'" using cycle(3) by (auto simp: wq_inv_def main_part_def)
  then show ?thesis using cycle(3) by (intro wq_inv_main_own [OF i1(1)]) simp_all
next
  case (last i s1)
  have i1: "wq_inv N s1" "wq_main s1 = MLastSignal i" using wq_inv_signal [OF last(3) assms(2)] last(1) by auto
  then have "main_part N s'" using last(2,4) by (auto simp: wq_inv_def main_part_def)
  then show ?thesis using last(4) by (intro wq_inv_main_own [OF i1(1)]) simp_all
qed

lemma wq_inv_create:
  assumes "wq_main s = MCreate i" and "i < N" and "wq_inv N s"
  shows "wq_inv N (set_pc i CStart (s\<lparr>wq_main := MCreate (Suc i)\<rparr>))"
proof -
  have m: "main_part N s" and ti: "\<And>u. u < N \<Longrightarrow> thread_inv (wq_mutex s) (wq_polundra s) (wq_work s) u (wq_pcs s ! u)"
    using assms(3) by (auto simp: wq_inv_def)
  have pc: "wq_pcs s ! i = CNotStarted" and len: "length (wq_pcs s) = N" using m assms(1,2) by (auto simp: main_part_def)
  have "thread_inv (wq_mutex s) (wq_polundra s) (wq_work s) i CStart"
    using ti [OF assms(2)] pc by (auto simp: thread_inv_def)
  then show ?thesis
    using m ti pc len assms(1,2) by (auto simp: wq_inv_def main_part_def set_pc_def nth_list_update)
qed

lemma wq_inv_main:
  assumes "main_step N M s = Some s'" and inv: "wq_inv N s"
  shows "wq_inv N s'"
proof -
  have m: "main_part N s" using inv by (simp add: wq_inv_def)
  have own: "wq_inv N s'" if "wq_pcs s' = wq_pcs s" "main_part N s'" "wq_work s' = wq_work s"
    "wq_mutex s' = wq_mutex s \<or> (\<forall>t. wq_mutex s \<noteq> Some (Consumer t)) \<and> (\<forall>t. wq_mutex s' \<noteq> Some (Consumer t))"
    "wq_polundra s \<longrightarrow> wq_polundra s'" for s'
    using wq_inv_main_own [OF inv that(1,2,4,5)] that(3) by blast
  show ?thesis
  proof (cases "wq_main s")
    case (MCreate i)
    show ?thesis
    proof (cases "i < N")
      case True
      then show ?thesis using assms(1) wq_inv_create [OF MCreate True inv] MCreate by (simp add: main_step_def)
    next
      case False
      then have "s' = s\<lparr>wq_main := MLock 0\<rparr>" using assms(1) MCreate by (simp add: main_step_def)
      then show ?thesis using m MCreate by (intro own) (auto simp: main_part_def)
    qed
  next
    case (MLock i)
    show ?thesis
    proof (cases "i < M")
      case True
      then have "s' = s\<lparr>wq_mutex := Some Main, wq_main := MAdd i\<rparr>" "wq_mutex s = None"
        using assms(1) MLock by (auto simp: main_step_def split: if_splits)
      then show ?thesis using m MLock by (intro own) (auto simp: main_part_def)
    next
      case False
      then have "s' = s\<lparr>wq_main := MSetFlag\<rparr>" using assms(1) MLock by (simp add: main_step_def)
      then show ?thesis using m MLock by (intro own) (auto simp: main_part_def)
    qed
  next
    case (MUnlock i)
    then have "s' = s\<lparr>wq_mutex := None, wq_main := MLock (Suc i)\<rparr>" "wq_mutex s = Some Main"
      using assms(1) m by (auto simp: main_step_def main_part_def)
    then show ?thesis using m MUnlock by (intro own) (auto simp: main_part_def)
  next
    case MSetFlag
    then have "s' = s\<lparr>wq_polundra := True, wq_main := MLastSignal 0\<rparr>" using assms(1) by (simp add: main_step_def)
    then show ?thesis using m MSetFlag by (intro own) (auto simp: main_part_def)
  next
    case (MLastSignal i)
    show ?thesis
    proof (cases "i < N")
      case True
      then show ?thesis using assms MLastSignal wq_inv_main_signal by (simp add: main_step_def)
    next
      case False
      then have "s' = s\<lparr>wq_main := MDone\<rparr>" using assms(1) MLastSignal by (simp add: main_step_def)
      then show ?thesis using m MLastSignal False by (intro own) (auto simp: main_part_def)
    qed
  next
    case (MJoin i)
    then have "s' = s\<lparr>wq_main := MLastSignal (Suc i)\<rparr>" "wq_pcs s ! i = CDone"
      using assms(1) by (auto simp: main_step_def split: if_splits)
    then show ?thesis using m MJoin by (intro own) (auto simp: main_part_def less_Suc_eq)
  next
    case (MSignal i)
    then show ?thesis using assms wq_inv_main_signal by (simp add: main_step_def)
  qed (use assms(1) in \<open>auto simp: main_step_def\<close>)
qed

lemma wq_inv_add:
  assumes "main_add n s = Some s'" and "wq_inv N s"
  shows "wq_inv N s'"
proof -
  obtain i where i: "wq_main s = MAdd i"
    and s': "s' = s\<lparr>wq_work := wq_work s + n, wq_added := wq_added s + n, wq_main := MSignal i\<rparr>"
    using assms(1) by (auto simp: main_add_def split: wmpc.splits if_splits)
  have m: "main_part N s" using assms(2) by (simp add: wq_inv_def)
  then have "wq_mutex s = Some Main" "\<not> wq_polundra s" using i by (auto simp: main_part_def)
  moreover have "main_part N s'" using m i s' by (auto simp: main_part_def)
  ultimately show ?thesis using s' by (intro wq_inv_main_own [OF assms(2)]) simp_all
qed

lemma wq_inv_step: "wq_step N M a s = Some s' \<Longrightarrow> wq_inv N s \<Longrightarrow> wq_inv N s'"
  by (cases a) (auto simp: wq_step_def wq_inv_main wq_inv_add wq_inv_main_signal wq_inv_consumer split: if_splits)

lemma wq_inv_run: "wq_run N M as s = Some s' \<Longrightarrow> wq_inv N s \<Longrightarrow> wq_inv N s'"
  by (induction N M as s rule: wq_run.induct) (auto split: option.splits dest: wq_inv_step)

subsection \<open>Properties\<close>

text \<open>
  C20: in every reachable state the units consumed and the work left add up to the units added, at most one consumer is inside the critical
  section and none while \<^verbatim>\<open>main\<close> is, and when \<^verbatim>\<open>main\<close> has finished every consumer has finished and all work is done.
\<close>

theorem work_queue_conserves:
  assumes "wq_reachable N M s"
  shows "wq_consumed s + wq_work s = wq_added s \<and>
    (\<forall>t < N. \<forall>u < N. holds_mutex (wq_pcs s ! t) \<and> holds_mutex (wq_pcs s ! u) \<longrightarrow> t = u) \<and>
    (main_holds (wq_main s) \<longrightarrow> (\<forall>t < N. \<not> holds_mutex (wq_pcs s ! t))) \<and>
    (wq_main s = MDone \<and> 0 < N \<longrightarrow> (\<forall>t < N. wq_pcs s ! t = CDone) \<and> wq_work s = 0 \<and> wq_consumed s = wq_added s)"
proof -
  have inv: "wq_inv N s" using assms wq_inv_run wq_inv_start by (auto simp: wq_reachable_def)
  then have m: "main_part N s" and ti: "\<And>t. t < N \<Longrightarrow> thread_inv (wq_mutex s) (wq_polundra s) (wq_work s) t (wq_pcs s ! t)"
    by (auto simp: wq_inv_def)
  have own: "wq_mutex s = Some (Consumer t)" if "t < N" "holds_mutex (wq_pcs s ! t)" for t
    using ti [OF that(1)] that(2) by (simp add: thread_inv_def)
  have last: "wq_work s = 0" if "wq_main s = MDone" "0 < N"
    using ti [OF that(2)] m that by (auto simp: main_part_def thread_inv_def)
  show ?thesis
  proof (intro conjI)
    show "\<forall>t < N. \<forall>u < N. holds_mutex (wq_pcs s ! t) \<and> holds_mutex (wq_pcs s ! u) \<longrightarrow> t = u"
    proof (intro allI impI)
      fix t u assume "t < N" "u < N" "holds_mutex (wq_pcs s ! t) \<and> holds_mutex (wq_pcs s ! u)"
      then show "t = u" using own [of t] own [of u] by simp
    qed
    show "main_holds (wq_main s) \<longrightarrow> (\<forall>t < N. \<not> holds_mutex (wq_pcs s ! t))"
      using m own by (force simp: main_part_def)
    show "wq_main s = MDone \<and> 0 < N \<longrightarrow> (\<forall>t < N. wq_pcs s ! t = CDone) \<and> wq_work s = 0 \<and> wq_consumed s = wq_added s"
      using m last by (auto simp: main_part_def)
  qed (use m in \<open>simp add: main_part_def\<close>)
qed

text \<open>
  The program can stop for ever: with three consumers and ten cycles there is a reachable state in which \<^verbatim>\<open>main\<close> waits in
  \<^verbatim>\<open>pthread_join\<close> for a consumer that waits for a signal which was already given, and no step is possible. The flag is
  raised, and the signal given, between the consumer's test of the flag and its wait.
\<close>

theorem work_queue_deadlock:
  "\<exists>s. wq_reachable 3 10 s \<and> wq_main s = MJoin 0 \<and> wq_pcs s ! 0 = CWaiting \<and> (\<forall>a. wq_step 3 10 a s = None)"
proof -
  let ?cycle = "[ActMain, ActAdd 1, ActMain, ActMain]"
  let ?rest = "\<lambda>t. [ActConsumer t, ActConsumer t, ActConsumer t, ActConsumer t, ActConsumer t]"
  let ?as = "replicate 4 ActMain @ concat (replicate 10 ?cycle) @ replicate 15 (ActConsumer 0) @
      [ActMain, ActMain, ActMain, ActConsumer 0] @ ?rest 1 @ ?rest 2"
  let ?s = "\<lparr>wq_work = 0, wq_polundra = True, wq_mutex = None, wq_pcs = [CWaiting, CDone, CDone], wq_main = MJoin 0,
     wq_added = 10, wq_consumed = 10\<rparr>"
  have "wq_run 3 10 ?as (wq_start 3) = Some ?s" by code_simp
  moreover have "wq_step 3 10 a ?s = None" for a
    by (cases a) (auto simp: wq_step_def main_step_def main_add_def main_signal_def consumer_step_def less_Suc_eq numeral_3_eq_3)
  ultimately show ?thesis unfolding wq_reachable_def by (intro exI [of _ ?s]) auto
qed

theorem work_queue_conserves_witness:
  "\<exists>s. wq_run 1 1 ([ActMain, ActMain, ActMain, ActAdd 2] @ replicate 4 ActMain @ replicate 7 (ActConsumer 0) @ replicate 3 ActMain)
      (wq_start 1) = Some s \<and> wq_main s = MDone \<and> wq_pcs s ! 0 = CDone \<and> wq_work s = 0 \<and> wq_consumed s = wq_added s \<and> wq_added s = 2"
proof -
  let ?as = "[ActMain, ActMain, ActMain, ActAdd 2] @ replicate 4 ActMain @ replicate 7 (ActConsumer 0) @ replicate 3 ActMain"
  have "map_option (\<lambda>s. (wq_main s, wq_added s)) (wq_run 1 1 ?as (wq_start 1)) = Some (MDone, 2)" by code_simp
  then obtain s where s: "wq_run 1 1 ?as (wq_start 1) = Some s" "wq_main s = MDone" "wq_added s = 2" by auto
  then have "wq_reachable 1 1 s" unfolding wq_reachable_def by blast
  from work_queue_conserves [OF this] s show ?thesis by simp
qed

end
