(* ===== verification/Rw_Lock.thy ===== *)
theory Rw_Lock
  imports C_Prelude
begin

section \<open>Readers and a writer (week4/02_sync/ex3.c)\<close>

text \<open>
  Five readers print a shared string and a writer replaces it: it frees the block, allocates a new one and prints a random
  digit into it, under the write lock. A spin lock protects the stop flag. \<^verbatim>\<open>main\<close> creates the threads, detaches them, and raises the flag after a line of input;
  after another one it returns, which ends the process. Every access is one step, and \<open>rw_step a s\<close> is the state after action \<open>a\<close>.
  The block behind \<^verbatim>\<open>data\<close> is valid with its text, freed, or allocated and not yet written; what a reader prints is \<open>None\<close> when the block is not valid.
\<close>

subsection \<open>States\<close>

datatype block = Valid string | Freed | Uninit

datatype rpc = RNotStarted | RTop | RSpin | RSpinUnlock bool | RDecide bool | RLock | RRead | RUnlock | RDone

datatype wpc = WNotStarted | WTop | WSpin | WSpinUnlock bool | WDecide bool | WLock | WFree | WMalloc | WPrint nat | WUnlock | WDone

datatype rmpc = RMCreate nat | RMCreateWriter | RMInput | RMSpin | RMStop | RMSpinUnlock | RMInput2 | RMDone

record rw =
  rw_data :: block
  rw_readers :: nat
  rw_writing :: bool
  rw_spin :: bool
  rw_stop :: bool
  rw_rpcs :: "rpc list"
  rw_wpc :: wpc
  rw_main :: rmpc
  rw_out :: "string option list"

datatype rw_action = Reader nat | Writer nat | MainThread

definition N_READERS :: nat where "N_READERS = 5"
definition DATA_CAP :: nat where "DATA_CAP = 100"

subsection \<open>reader_func\<close>

definition set_rpc :: "nat \<Rightarrow> rpc \<Rightarrow> rw \<Rightarrow> rw" where
  "set_rpc t pc s = s\<lparr>rw_rpcs := (rw_rpcs s)[t := pc]\<rparr>"

definition shown :: "block \<Rightarrow> string option" where
  "shown b = (case b of Valid str \<Rightarrow> Some str | _ \<Rightarrow> None)"

definition reader_func :: "nat \<Rightarrow> rw \<Rightarrow> rw option" where
  "reader_func t s = (case rw_rpcs s ! t of
       RTop \<Rightarrow> if rw_spin s then None else Some (set_rpc t RSpin (s\<lparr>rw_spin := True\<rparr>))
     | RSpin \<Rightarrow> Some (set_rpc t (RSpinUnlock (rw_stop s)) s)
     | RSpinUnlock f \<Rightarrow> Some (set_rpc t (RDecide f) (s\<lparr>rw_spin := False\<rparr>))
     | RDecide f \<Rightarrow> Some (set_rpc t (if f then RDone else RLock) s)
     | RLock \<Rightarrow> if rw_writing s then None else Some (set_rpc t RRead (s\<lparr>rw_readers := rw_readers s + 1\<rparr>))
     | RRead \<Rightarrow> Some (set_rpc t RUnlock (s\<lparr>rw_out := rw_out s @ [shown (rw_data s)]\<rparr>))
     | RUnlock \<Rightarrow> Some (set_rpc t RTop (s\<lparr>rw_readers := rw_readers s - 1\<rparr>))
     | _ \<Rightarrow> None)"

subsection \<open>writer_func\<close>

text \<open>\<open>rnd\<close> is the result of \<^verbatim>\<open>rand()\<close>, used where the source draws it.\<close>

definition writer_func :: "nat \<Rightarrow> rw \<Rightarrow> rw option" where
  "writer_func rnd s = (case rw_wpc s of
       WTop \<Rightarrow> if rw_spin s then None else Some (s\<lparr>rw_spin := True, rw_wpc := WSpin\<rparr>)
     | WSpin \<Rightarrow> Some (s\<lparr>rw_wpc := WSpinUnlock (rw_stop s)\<rparr>)
     | WSpinUnlock f \<Rightarrow> Some (s\<lparr>rw_spin := False, rw_wpc := WDecide f\<rparr>)
     | WDecide f \<Rightarrow> Some (s\<lparr>rw_wpc := (if f then WDone else WLock)\<rparr>)
     | WLock \<Rightarrow> if rw_writing s \<or> 0 < rw_readers s then None else Some (s\<lparr>rw_writing := True, rw_wpc := WFree\<rparr>)
     | WFree \<Rightarrow> Some (s\<lparr>rw_data := Freed, rw_wpc := WMalloc\<rparr>)
     | WMalloc \<Rightarrow> Some (s\<lparr>rw_data := Uninit, rw_wpc := WPrint (rnd mod 3)\<rparr>)
     | WPrint r \<Rightarrow>
         (case strcpy_c DATA_CAP (show_dec (int r)) of
            Inl _ \<Rightarrow> None
          | Inr str \<Rightarrow> Some (s\<lparr>rw_data := Valid str, rw_wpc := WUnlock\<rparr>))
     | WUnlock \<Rightarrow> Some (s\<lparr>rw_writing := False, rw_wpc := WTop\<rparr>)
     | _ \<Rightarrow> None)"

subsection \<open>main\<close>

definition rw_main_step :: "rw \<Rightarrow> rw option" where
  "rw_main_step s = (case rw_main s of
       RMCreate i \<Rightarrow>
         if i < N_READERS then Some (set_rpc i RTop (s\<lparr>rw_main := RMCreate (Suc i)\<rparr>)) else Some (s\<lparr>rw_main := RMCreateWriter\<rparr>)
     | RMCreateWriter \<Rightarrow> Some (s\<lparr>rw_wpc := WTop, rw_main := RMInput\<rparr>)
     | RMInput \<Rightarrow> Some (s\<lparr>rw_main := RMSpin\<rparr>)
     | RMSpin \<Rightarrow> if rw_spin s then None else Some (s\<lparr>rw_spin := True, rw_main := RMStop\<rparr>)
     | RMStop \<Rightarrow> Some (s\<lparr>rw_stop := True, rw_main := RMSpinUnlock\<rparr>)
     | RMSpinUnlock \<Rightarrow> Some (s\<lparr>rw_spin := False, rw_main := RMInput2\<rparr>)
     | RMInput2 \<Rightarrow> Some (s\<lparr>rw_main := RMDone\<rparr>)
     | RMDone \<Rightarrow> None)"

definition rw_step :: "rw_action \<Rightarrow> rw \<Rightarrow> rw option" where
  "rw_step a s =
     (if rw_main s = RMDone then None
      else case a of
          Reader t \<Rightarrow> if t < N_READERS then reader_func t s else None
        | Writer rnd \<Rightarrow> writer_func rnd s
        | MainThread \<Rightarrow> rw_main_step s)"

definition rw_start :: rw where
  "rw_start = \<lparr>rw_data = Valid ''source'', rw_readers = 0, rw_writing = False, rw_spin = False, rw_stop = False,
     rw_rpcs = replicate N_READERS RNotStarted, rw_wpc = WNotStarted, rw_main = RMCreate 0, rw_out = []\<rparr>"

fun rw_run :: "rw_action list \<Rightarrow> rw \<Rightarrow> rw option" where
  "rw_run [] s = Some s"
| "rw_run (a # as) s = (case rw_step a s of None \<Rightarrow> None | Some s' \<Rightarrow> rw_run as s')"

subsection \<open>Invariant\<close>

definition reading :: "rpc \<Rightarrow> bool" where
  "reading pc \<longleftrightarrow> pc = RRead \<or> pc = RUnlock"

definition writer_inside :: "wpc \<Rightarrow> bool" where
  "writer_inside pc \<longleftrightarrow> pc = WFree \<or> pc = WMalloc \<or> (\<exists>r. pc = WPrint r) \<or> pc = WUnlock"

definition text_ok :: "string \<Rightarrow> bool" where
  "text_ok str \<longleftrightarrow> str = ''source'' \<or> str = ''0'' \<or> str = ''1'' \<or> str = ''2''"

definition data_ok :: "wpc \<Rightarrow> block \<Rightarrow> bool" where
  "data_ok pc b \<longleftrightarrow> (case pc of WMalloc \<Rightarrow> True | WPrint r \<Rightarrow> r < 3 | _ \<Rightarrow> \<exists>str. b = Valid str \<and> text_ok str)"

definition rw_inv :: "rw \<Rightarrow> bool" where
  "rw_inv s \<longleftrightarrow> length (rw_rpcs s) = N_READERS \<and> rw_readers s = length (filter reading (rw_rpcs s)) \<and>
     rw_writing s = writer_inside (rw_wpc s) \<and> (rw_writing s \<longrightarrow> rw_readers s = 0) \<and> data_ok (rw_wpc s) (rw_data s) \<and>
     (\<forall>x \<in> set (rw_out s). \<exists>str. x = Some str \<and> text_ok str) \<and>
     (\<forall>i. rw_main s = RMCreate i \<longrightarrow> (\<forall>t < N_READERS. i \<le> t \<longrightarrow> rw_rpcs s ! t = RNotStarted) \<and> rw_wpc s = WNotStarted) \<and>
     (rw_main s = RMCreateWriter \<longrightarrow> rw_wpc s = WNotStarted)"

lemma filter_update:
  "t < length xs \<Longrightarrow> length (filter P (xs[t := x])) + (if P (xs ! t) then 1 else 0) = length (filter P xs) + (if P x then 1 else 0)"
proof (induction xs arbitrary: t)
  case (Cons y xs)
  then show ?case by (cases t) auto
qed simp

lemma show_small: "r < 3 \<Longrightarrow> text_ok (show_dec (int r)) \<and> length (show_dec (int r)) = 1"
proof -
  have "show_dec 0 = ''0''" "show_dec 1 = ''1''" "show_dec 2 = ''2''" by code_simp+
  moreover assume "r < 3"
  then have "r = 0 \<or> r = 1 \<or> r = 2" by auto
  ultimately show ?thesis by (auto simp: text_ok_def)
qed

lemma rw_inv_reader:
  assumes "reader_func t s = Some s'" and "rw_inv s" and "t < N_READERS"
  shows "rw_inv s'"
proof -
  have len: "t < length (rw_rpcs s)" using assms(2,3) by (simp add: rw_inv_def)
  have started: "rw_rpcs s ! t \<noteq> RNotStarted" using assms(1) by (auto simp: reader_func_def)
  have "\<exists>pc. rw_rpcs s' = (rw_rpcs s)[t := pc]"
    using assms(1) by (cases "rw_rpcs s ! t") (auto simp: reader_func_def set_rpc_def split: if_splits)
  then obtain pc where pcs: "rw_rpcs s' = (rw_rpcs s)[t := pc]" by blast
  have up: "length (filter reading (rw_rpcs s')) + (if reading (rw_rpcs s ! t) then 1 else 0) =
      length (filter reading (rw_rpcs s)) + (if reading (rw_rpcs s' ! t) then 1 else 0)"
    using filter_update [OF len, of reading pc] len pcs by simp
  have cr: "\<forall>i. rw_main s = RMCreate i \<longrightarrow> (\<forall>u < N_READERS. i \<le> u \<longrightarrow> rw_rpcs s' ! u = RNotStarted)"
  proof (intro allI impI)
    fix i u assume *: "rw_main s = RMCreate i" "u < N_READERS" "i \<le> u"
    then have "rw_rpcs s ! u = RNotStarted" using assms(2) by (simp add: rw_inv_def)
    then show "rw_rpcs s' ! u = RNotStarted" using started pcs by (metis nth_list_update_neq)
  qed
  have valid: "\<exists>str. shown (rw_data s) = Some str \<and> text_ok str" if "rw_rpcs s ! t = RRead"
  proof -
    have "RRead \<in> set (filter reading (rw_rpcs s))" using that len nth_mem [OF len] by (simp add: reading_def)
    then have "filter reading (rw_rpcs s) \<noteq> []" by fastforce
    then have "rw_readers s \<noteq> 0" using assms(2) by (simp add: rw_inv_def)
    then have "\<not> writer_inside (rw_wpc s)" using assms(2) by (auto simp: rw_inv_def)
    then show ?thesis using assms(2)
      by (auto simp: rw_inv_def data_ok_def writer_inside_def shown_def split: wpc.splits)
  qed
  have rd: "rw_readers s = length (filter reading (rw_rpcs s))" using assms(2) by (simp add: rw_inv_def)
  have pos: "0 < rw_readers s" if "reading (rw_rpcs s ! t)"
    using that rd nth_mem [OF len] by (auto simp: filter_empty_conv)
  have same: "rw_data s' = rw_data s \<and> rw_writing s' = rw_writing s \<and> rw_wpc s' = rw_wpc s \<and> rw_main s' = rw_main s"
    using assms(1) by (cases "rw_rpcs s ! t") (auto simp: reader_func_def set_rpc_def split: if_splits)
  have "rw_readers s' + (if reading (rw_rpcs s ! t) then 1 else 0) = rw_readers s + (if reading (rw_rpcs s' ! t) then 1 else 0)"
    using assms(1) len pos by (cases "rw_rpcs s ! t") (auto simp: reader_func_def set_rpc_def reading_def split: if_splits)
  with up rd have rd': "rw_readers s' = length (filter reading (rw_rpcs s'))" by simp
  have "rw_writing s \<longrightarrow> rw_readers s' \<le> rw_readers s"
    using assms(1) by (cases "rw_rpcs s ! t") (auto simp: reader_func_def set_rpc_def split: if_splits)
  then have wr: "rw_writing s \<longrightarrow> rw_readers s' = 0" using assms(2) by (auto simp: rw_inv_def)
  have out: "rw_out s' = rw_out s \<or> (rw_rpcs s ! t = RRead \<and> rw_out s' = rw_out s @ [shown (rw_data s)])"
    using assms(1) by (cases "rw_rpcs s ! t") (auto simp: reader_func_def set_rpc_def split: if_splits)
  then have "\<forall>x \<in> set (rw_out s'). \<exists>str. x = Some str \<and> text_ok str" using valid assms(2) by (auto simp: rw_inv_def)
  moreover have "length (rw_rpcs s') = length (rw_rpcs s)" using pcs by simp
  ultimately show ?thesis using assms(2) same rd' wr cr by (simp add: rw_inv_def)
qed

lemma rw_inv_writer:
  assumes "writer_func rnd s = Some s'" and "rw_inv s"
  shows "rw_inv s'"
proof (cases "rw_wpc s")
  case (WPrint r)
  then have "r < 3" using assms(2) by (simp add: rw_inv_def data_ok_def)
  then have "s' = s\<lparr>rw_data := Valid (show_dec (int r)), rw_wpc := WUnlock\<rparr>" and "text_ok (show_dec (int r))"
    using assms(1) WPrint show_small [of r] by (auto simp: writer_func_def strcpy_c_def DATA_CAP_def)
  then show ?thesis using assms(2) WPrint by (auto simp: rw_inv_def data_ok_def writer_inside_def)
qed (use assms in \<open>auto simp: writer_func_def rw_inv_def data_ok_def writer_inside_def split: if_splits\<close>)

lemma rw_inv_main:
  assumes "rw_main_step s = Some s'" and "rw_inv s"
  shows "rw_inv s'"
proof (cases "rw_main s")
  case (RMCreate i)
  show ?thesis
  proof (cases "i < N_READERS")
    case True
    then have s': "s' = set_rpc i RTop (s\<lparr>rw_main := RMCreate (Suc i)\<rparr>)" using assms(1) RMCreate by (simp add: rw_main_step_def)
    have len: "i < length (rw_rpcs s)" and pc: "rw_rpcs s ! i = RNotStarted" using assms(2) True RMCreate by (auto simp: rw_inv_def)
    have "length (filter reading ((rw_rpcs s)[i := RTop])) = length (filter reading (rw_rpcs s))"
      using filter_update [OF len, of reading RTop] pc by (simp add: reading_def)
    then show ?thesis using assms(2) RMCreate s' by (auto simp: rw_inv_def set_rpc_def nth_list_update)
  next
    case False
    then show ?thesis using assms RMCreate by (auto simp: rw_main_step_def rw_inv_def)
  qed
next
  case RMCreateWriter
  then show ?thesis using assms by (auto simp: rw_main_step_def rw_inv_def data_ok_def writer_inside_def)
qed (use assms in \<open>auto simp: rw_main_step_def rw_inv_def split: if_splits\<close>)

lemma rw_inv_step: "rw_step a s = Some s' \<Longrightarrow> rw_inv s \<Longrightarrow> rw_inv s'"
  by (cases a) (auto simp: rw_step_def rw_inv_reader rw_inv_writer rw_inv_main split: if_splits)

lemma rw_inv_run: "rw_run as s = Some s' \<Longrightarrow> rw_inv s \<Longrightarrow> rw_inv s'"
  by (induction as arbitrary: s) (auto split: option.splits dest: rw_inv_step)

lemma rw_inv_start: "rw_inv rw_start"
  by (simp add: rw_inv_def rw_start_def data_ok_def writer_inside_def text_ok_def reading_def)

subsection \<open>Properties\<close>

text \<open>
  C21: in every interleaving a reader only ever prints valid text, the initial text or a digit below three that fits the 100-byte block: never a freed or an unwritten
  block; and no reader holds the lock while the writer does.
\<close>

theorem readers_see_valid_data:
  assumes "rw_run as rw_start = Some s"
  shows "(\<forall>x \<in> set (rw_out s). x \<in> {Some ''source'', Some ''0'', Some ''1'', Some ''2''}) \<and>
    (writer_inside (rw_wpc s) \<longrightarrow> (\<forall>t < N_READERS. \<not> reading (rw_rpcs s ! t)))"
proof -
  have inv: "rw_inv s" using assms rw_inv_start by (rule rw_inv_run)
  then have out: "\<forall>x \<in> set (rw_out s). x \<in> {Some ''source'', Some ''0'', Some ''1'', Some ''2''}"
    by (auto simp: rw_inv_def text_ok_def)
  have "\<not> reading (rw_rpcs s ! t)" if "writer_inside (rw_wpc s)" "t < N_READERS" for t
  proof -
    have "filter reading (rw_rpcs s) = []" "t < length (rw_rpcs s)" using inv that by (auto simp: rw_inv_def)
    then show ?thesis by (simp add: filter_empty_conv)
  qed
  with out show ?thesis by blast
qed

theorem readers_see_valid_data_witness:
  "\<exists>s. rw_run (replicate 6 MainThread @ replicate 6 (Reader 0)) rw_start = Some s \<and> rw_out s = [Some ''source''] \<and>
    set (rw_out s) \<subseteq> {Some ''source'', Some ''0'', Some ''1'', Some ''2''}"
proof -
  let ?as = "replicate 6 MainThread @ replicate 6 (Reader 0)"
  have out: "map_option rw_out (rw_run ?as rw_start) = Some [Some ''source'']" by code_simp
  then obtain s where "rw_run ?as rw_start = Some s" and "rw_out s = [Some ''source'']" by auto
  with readers_see_valid_data [OF this(1)] show ?thesis by blast
qed

end
