(* ===== verification/Poll_Server.thy ===== *)
theory Poll_Server
  imports C_Prelude
begin

section \<open>An echo server on poll (week5/ex6.c)\<close>

text \<open>
  \<^verbatim>\<open>src/week5/ex6.c\<close>: a table of at most 200 descriptors, the listening socket in front. Each round of the main
  loop polls them, accepts every pending connection, receives and echoes one buffer per readable connection, marks
  closed connections with -1 and squeezes the table. What the system calls answer in a round is the record \<open>poll_answers\<close>; the set of open descriptors is
  part of the state, so that descriptors that are lost can be seen. Messages to the terminal are left out, except that
  printing the buffer with \<^verbatim>\<open>%s\<close> needs a NUL inside it.
\<close>

subsection \<open>State\<close>

definition MAX_FDS :: nat where "MAX_FDS = 200"
definition MAX_BUFF :: nat where "MAX_BUFF = 1024"
definition POLLIN :: int where "POLLIN = 1"

record pollfd =
  pf_fd :: int
  pf_events :: int
  pf_revents :: int

record server =
  sv_fds :: "pollfd list"
  sv_nfds :: nat
  sv_listen :: int
  sv_open :: "int set"
  sv_sent :: "(int \<times> byte list) list"
  sv_end :: bool
  sv_compress :: bool

text \<open>A failure carries whether errno is \<^verbatim>\<open>EWOULDBLOCK\<close>.\<close>

datatype accept_res = Accepted int | AcceptFail bool
datatype recv_res = RecvFail bool | RecvData "byte list"

record poll_answers =
  pa_rc :: int
  pa_revents :: "int list"
  pa_accepts :: "accept_res list"
  pa_recv :: "int \<Rightarrow> recv_res"
  pa_send :: "int \<Rightarrow> int"

subsection \<open>Setting up\<close>

text \<open>The results of \<^verbatim>\<open>socket\<close>, \<^verbatim>\<open>setsockopt\<close>, \<^verbatim>\<open>ioctl\<close>, \<^verbatim>\<open>bind\<close> and \<^verbatim>\<open>listen\<close>; a failure closes the socket and exits.\<close>

definition server_setup :: "int \<Rightarrow> int list \<Rightarrow> server option" where
  "server_setup sd rcs =
     (if sd < 0 then None
      else if \<exists>rc \<in> set rcs. rc < 0 then None
      else Some \<lparr>sv_fds = (replicate MAX_FDS \<lparr>pf_fd = 0, pf_events = 0, pf_revents = 0\<rparr>)
                    [0 := \<lparr>pf_fd = sd, pf_events = POLLIN, pf_revents = 0\<rparr>],
                 sv_nfds = 1, sv_listen = sd, sv_open = {sd}, sv_sent = [], sv_end = False, sv_compress = True\<rparr>)"

subsection \<open>One round\<close>

text \<open>What \<^verbatim>\<open>poll\<close> writes.\<close>

definition store_revents :: "int list \<Rightarrow> server \<Rightarrow> server" where
  "store_revents rs s = s\<lparr>sv_fds := map (\<lambda>(i, p). if i < sv_nfds s \<and> i < length rs then p\<lparr>pf_revents := rs ! i\<rparr> else p)
     (zip [0..<length (sv_fds s)] (sv_fds s))\<rparr>"

fun accept_loop :: "accept_res list \<Rightarrow> server \<Rightarrow> server cres" where
  "accept_loop [] s = Inr s"
| "accept_loop (AcceptFail wouldblock # rs) s = Inr (if wouldblock then s else s\<lparr>sv_end := True\<rparr>)"
| "accept_loop (Accepted new_sd # rs) s =
     (if sv_nfds s < length (sv_fds s) then
        accept_loop rs (s\<lparr>sv_fds := (sv_fds s)[sv_nfds s := (sv_fds s ! sv_nfds s)\<lparr>pf_fd := new_sd, pf_events := POLLIN\<rparr>],
          sv_nfds := sv_nfds s + 1, sv_open := insert new_sd (sv_open s)\<rparr>)
      else Inl OutOfBounds)"

definition close_conn :: "nat \<Rightarrow> server \<Rightarrow> server" where
  "close_conn i s = s\<lparr>sv_open := sv_open s - {pf_fd (sv_fds s ! i)},
     sv_fds := (sv_fds s)[i := (sv_fds s ! i)\<lparr>pf_fd := -1\<rparr>], sv_compress := True\<rparr>"

text \<open>The buffer after \<^verbatim>\<open>recv\<close>: the data, then zeros; a final newline becomes a zero.\<close>

definition recv_buffer :: "byte list \<Rightarrow> byte list" where
  "recv_buffer d =
     (let b = d @ replicate (MAX_BUFF - length d) 0 in if last d = 10 then b[length d - 1 := 0] else b)"

definition read_conn :: "poll_answers \<Rightarrow> nat \<Rightarrow> server \<Rightarrow> server cres" where
  "read_conn pa i s =
     (let fd = pf_fd (sv_fds s ! i) in
      case pa_recv pa fd of
        RecvFail wouldblock \<Rightarrow> Inr (if wouldblock then s else close_conn i s)
      | RecvData d \<Rightarrow>
        if d = [] then Inr (close_conn i s)
        else let b = recv_buffer d in
          if 0 \<notin> set b then Inl OutOfBounds
          else if pa_send pa fd < 0 then Inr (close_conn i s)
          else Inr (s\<lparr>sv_sent := sv_sent s @ [(fd, take (length d) b)]\<rparr>))"

function scan_fds :: "poll_answers \<Rightarrow> nat \<Rightarrow> nat \<Rightarrow> server \<Rightarrow> server cres" where
  "scan_fds pa current_size i s =
     (if i < current_size then
        if length (sv_fds s) \<le> i then Inl OutOfBounds
        else let p = sv_fds s ! i in
          if pf_revents p = 0 then scan_fds pa current_size (Suc i) s
          else if pf_revents p \<noteq> POLLIN then Inr (s\<lparr>sv_end := True\<rparr>)
          else if pf_fd p = sv_listen s then
            bind_c (accept_loop (pa_accepts pa) s) (\<lambda>s'. scan_fds pa current_size (Suc i) s')
          else bind_c (read_conn pa i s) (\<lambda>s'. scan_fds pa current_size (Suc i) s')
      else Inr s)"
  by pat_completeness auto
termination
  by (relation "measure (\<lambda>(pa, n, i, s). n - i)") auto

declare scan_fds.simps [simp del]

text \<open>The squeeze: an entry -1 is overwritten by moving the rest of the table down by one.\<close>

function shift_loop :: "pollfd list \<Rightarrow> nat \<Rightarrow> nat \<Rightarrow> pollfd list cres" where
  "shift_loop fds j nfds =
     (if j < nfds then
        if Suc j < length fds
        then shift_loop (fds[j := (fds ! j)\<lparr>pf_fd := pf_fd (fds ! Suc j)\<rparr>]) (Suc j) nfds
        else Inl OutOfBounds
      else Inr fds)"
  by pat_completeness auto
termination
  by (relation "measure (\<lambda>(fds, j, n). n - j)") auto

declare shift_loop.simps [simp del]

function compress_loop :: "pollfd list \<Rightarrow> nat \<Rightarrow> nat \<Rightarrow> (pollfd list \<times> nat) cres" where
  "compress_loop fds i nfds =
     (if i < nfds then
        if length fds \<le> i then Inl OutOfBounds
        else if pf_fd (fds ! i) = -1 then
          bind_c (shift_loop fds i nfds) (\<lambda>fds'. compress_loop fds' i (nfds - 1))
        else compress_loop fds (Suc i) nfds
      else Inr (fds, nfds))"
  by pat_completeness auto
termination
  by (relation "measure (\<lambda>(fds, i, n). n - i)") auto

declare compress_loop.simps [simp del]

definition compress_fds :: "server \<Rightarrow> server cres" where
  "compress_fds s =
     (if sv_compress s then
        bind_c (compress_loop (sv_fds s) 0 (sv_nfds s)) (\<lambda>(fds', n').
          Inr (s\<lparr>sv_compress := False, sv_fds := fds', sv_nfds := n'\<rparr>))
      else Inr s)"

definition poll_round :: "poll_answers \<Rightarrow> server \<Rightarrow> server cres" where
  "poll_round pa s =
     (if pa_rc pa \<le> 0 then Inr (s\<lparr>sv_end := True\<rparr>)
      else let s1 = store_revents (pa_revents pa) s in
        bind_c (scan_fds pa (sv_nfds s1) 0 s1) compress_fds)"

text \<open>The server over a sequence of rounds, and the clean-up at the end.\<close>

fun serve :: "poll_answers list \<Rightarrow> server \<Rightarrow> server cres" where
  "serve [] s = Inr s"
| "serve (pa # pas) s = bind_c (poll_round pa s) (\<lambda>s'. if sv_end s' then Inr s' else serve pas s')"

definition close_all :: "server \<Rightarrow> server" where
  "close_all s = s\<lparr>sv_open := sv_open s - {fd \<in> pf_fd ` set (take (sv_nfds s) (sv_fds s)). 0 \<le> fd}\<rparr>"

subsection \<open>Squeezing\<close>

lemma shift_loop_eq:
  assumes "nfds < length fds"
  shows "\<exists>fds'. shift_loop fds j nfds = Inr fds' \<and> length fds' = length fds \<and>
    (\<forall>k < length fds. pf_events (fds' ! k) = pf_events (fds ! k)) \<and>
    (\<forall>k < length fds. pf_fd (fds' ! k) = (if j \<le> k \<and> k < nfds then pf_fd (fds ! Suc k) else pf_fd (fds ! k)))"
  using assms
proof (induction fds j nfds rule: shift_loop.induct)
  case (1 fds j nfds)
  show ?case
  proof (cases "j < nfds")
    case False
    then show ?thesis by (subst shift_loop.simps) auto
  next
    case True
    let ?f = "fds[j := (fds ! j)\<lparr>pf_fd := pf_fd (fds ! Suc j)\<rparr>]"
    obtain fds' where f: "shift_loop ?f (Suc j) nfds = Inr fds'" "length fds' = length fds"
      "\<forall>k < length fds. pf_events (fds' ! k) = pf_events (?f ! k)"
      "\<forall>k < length fds. pf_fd (fds' ! k) = (if Suc j \<le> k \<and> k < nfds then pf_fd (?f ! Suc k) else pf_fd (?f ! k))"
      using 1(1) [OF True] 1(2) True by auto
    have "shift_loop fds j nfds = Inr fds'" using True 1(2) f(1) by (subst shift_loop.simps) simp
    moreover have "\<forall>k < length fds. pf_events (fds' ! k) = pf_events (fds ! k)"
      using f(3) True 1(2) by (simp add: nth_list_update)
    moreover have "\<forall>k < length fds. pf_fd (fds' ! k) = (if j \<le> k \<and> k < nfds then pf_fd (fds ! Suc k) else pf_fd (fds ! k))"
      using f(4) True 1(2) by (auto simp: nth_list_update not_less_eq_eq le_antisym)
    ultimately show ?thesis using f(2) by blast
  qed
qed

definition table :: "pollfd list \<Rightarrow> nat \<Rightarrow> int list" where
  "table fds n = map pf_fd (take n fds)"

lemma table_nth: "k < n \<Longrightarrow> n \<le> length fds \<Longrightarrow> table fds n ! k = pf_fd (fds ! k)"
  by (simp add: table_def)

lemma length_table: "n \<le> length fds \<Longrightarrow> length (table fds n) = n"
  by (simp add: table_def)

lemma shift_table:
  assumes "i < n" and "n < length fds"
  shows "\<exists>fds'. shift_loop fds i n = Inr fds' \<and> length fds' = length fds \<and>
    (\<forall>k < length fds. pf_events (fds' ! k) = pf_events (fds ! k)) \<and>
    table fds' (n - 1) = take i (table fds n) @ drop (Suc i) (table fds n)"
proof -
  obtain fds' where f: "shift_loop fds i n = Inr fds'" "length fds' = length fds"
    "\<forall>k < length fds. pf_events (fds' ! k) = pf_events (fds ! k)"
    "\<forall>k < length fds. pf_fd (fds' ! k) = (if i \<le> k \<and> k < n then pf_fd (fds ! Suc k) else pf_fd (fds ! k))"
    using shift_loop_eq [OF assms(2), of i] by blast
  have "table fds' (n - 1) = take i (table fds n) @ drop (Suc i) (table fds n)"
  proof (rule nth_equalityI)
    show "length (table fds' (n - 1)) = length (take i (table fds n) @ drop (Suc i) (table fds n))"
      using assms f(2) by (simp add: length_table)
    fix k assume "k < length (table fds' (n - 1))"
    then have k: "k < n - 1" using assms f(2) by (simp add: length_table)
    then show "table fds' (n - 1) ! k = (take i (table fds n) @ drop (Suc i) (table fds n)) ! k"
      using assms f(2,4) by (auto simp: table_nth nth_append length_table)
  qed
  then show ?thesis using f by blast
qed

lemma compress_loop_eq:
  assumes "i \<le> n" and "n < length fds" and "\<forall>k < n. pf_events (fds ! k) = POLLIN"
  shows "\<exists>fds' n'. compress_loop fds i n = Inr (fds', n') \<and> length fds' = length fds \<and> n' \<le> n \<and>
    (\<forall>k < n'. pf_events (fds' ! k) = POLLIN) \<and>
    table fds' n' = take i (table fds n) @ filter (\<lambda>fd. fd \<noteq> -1) (drop i (table fds n))"
  using assms
proof (induction fds i n rule: compress_loop.induct)
  case (1 fds i n)
  show ?case
  proof (cases "i < n")
    case False
    then show ?thesis using 1(3,4,5) by (subst compress_loop.simps) (simp add: length_table)
  next
    case True
    have len: "length (table fds n) = n" using 1(4) by (simp add: length_table)
    have dr: "drop i (table fds n) = pf_fd (fds ! i) # drop (Suc i) (table fds n)"
      using True 1(4) by (metis Cons_nth_drop_Suc len less_imp_le_nat table_nth)
    show ?thesis
    proof (cases "pf_fd (fds ! i) = -1")
      case minus: True
      obtain f1 where f1: "shift_loop fds i n = Inr f1" "length f1 = length fds"
        "\<forall>k < length fds. pf_events (f1 ! k) = pf_events (fds ! k)"
        "table f1 (n - 1) = take i (table fds n) @ drop (Suc i) (table fds n)"
        using shift_table [OF True 1(4)] by blast
      have "\<exists>fds' n'. compress_loop f1 i (n - 1) = Inr (fds', n') \<and> length fds' = length f1 \<and> n' \<le> n - 1 \<and>
          (\<forall>k < n'. pf_events (fds' ! k) = POLLIN) \<and>
          table fds' n' = take i (table f1 (n - 1)) @ filter (\<lambda>fd. fd \<noteq> -1) (drop i (table f1 (n - 1)))"
        using 1(1) [OF True _ minus f1(1)] True 1(4,5) f1(2,3) by auto
      then show ?thesis
        using True 1(4) minus f1 dr len by (subst compress_loop.simps) force
    next
      case False
      have "take (Suc i) (table fds n) = take i (table fds n) @ [pf_fd (fds ! i)]"
        using True len 1(4) by (simp add: take_Suc_conv_app_nth table_nth)
      moreover have "\<exists>fds' n'. compress_loop fds (Suc i) n = Inr (fds', n') \<and> length fds' = length fds \<and> n' \<le> n \<and>
          (\<forall>k < n'. pf_events (fds' ! k) = POLLIN) \<and>
          table fds' n' = take (Suc i) (table fds n) @ filter (\<lambda>fd. fd \<noteq> -1) (drop (Suc i) (table fds n))"
        using 1(2) [OF True _ False] True 1(4,5) by auto
      ultimately show ?thesis
        using True 1(4) False dr by (subst compress_loop.simps) auto
    qed
  qed
qed

subsection \<open>Invariant\<close>

text \<open>
  The connections in the table, -1 left out, are exactly the open descriptors, each once; the listening socket is in front and every
  entry in use waits for input.
\<close>

definition live :: "server \<Rightarrow> int list" where
  "live s = filter (\<lambda>fd. fd \<noteq> -1) (table (sv_fds s) (sv_nfds s))"

definition scan_inv :: "server \<Rightarrow> bool" where
  "scan_inv s \<longleftrightarrow> length (sv_fds s) = MAX_FDS \<and> 0 < sv_nfds s \<and> sv_nfds s < MAX_FDS \<and>
     table (sv_fds s) (sv_nfds s) ! 0 = sv_listen s \<and> (\<forall>fd \<in> set (live s). 0 \<le> fd) \<and> 0 \<le> sv_listen s \<and>
     distinct (live s) \<and> sv_open s = set (live s) \<and> (\<forall>k < sv_nfds s. pf_events (sv_fds s ! k) = POLLIN) \<and>
     (-1 \<in> set (table (sv_fds s) (sv_nfds s)) \<longrightarrow> sv_compress s)"

definition server_inv :: "server \<Rightarrow> bool" where
  "server_inv s \<longleftrightarrow> scan_inv s \<and> -1 \<notin> set (table (sv_fds s) (sv_nfds s))"

lemma live_table: "-1 \<notin> set (table (sv_fds s) (sv_nfds s)) \<Longrightarrow> live s = table (sv_fds s) (sv_nfds s)"
  unfolding live_def by (rule filter_True) auto

fun accepted :: "accept_res list \<Rightarrow> int list" where
  "accepted [] = []"
| "accepted (AcceptFail b # rs) = []"
| "accepted (Accepted sd # rs) = sd # accepted rs"

lemma table_snoc:
  assumes "n < length fds"
  shows "table (fds[n := p]) (Suc n) = table fds n @ [pf_fd p]"
  using assms by (simp add: table_def take_Suc_conv_app_nth)

lemma accept_loop_inv:
  assumes "scan_inv s" and "sv_nfds s + length (accepted rs) < MAX_FDS" and "distinct (accepted rs)"
    and "\<forall>sd \<in> set (accepted rs). 0 \<le> sd \<and> sd \<notin> sv_open s"
  shows "\<exists>s'. accept_loop rs s = Inr s' \<and> scan_inv s' \<and> sv_listen s' = sv_listen s \<and>
    table (sv_fds s') (sv_nfds s') = table (sv_fds s) (sv_nfds s) @ accepted rs \<and> sv_nfds s' = sv_nfds s + length (accepted rs)"
  using assms
proof (induction rs s rule: accept_loop.induct)
  case (3 sd rs s)
  let ?s = "s\<lparr>sv_fds := (sv_fds s)[sv_nfds s := (sv_fds s ! sv_nfds s)\<lparr>pf_fd := sd, pf_events := POLLIN\<rparr>],
          sv_nfds := sv_nfds s + 1, sv_open := insert sd (sv_open s)\<rparr>"
  have lt: "sv_nfds s < length (sv_fds s)" using 3(2) by (simp add: scan_inv_def)
  have tab: "table (sv_fds ?s) (sv_nfds ?s) = table (sv_fds s) (sv_nfds s) @ [sd]"
    using table_snoc [OF lt] by simp
  then have live: "live ?s = live s @ [sd]" using 3(5) by (auto simp: live_def)
  have "scan_inv ?s"
    using 3(2,3,5) lt live tab by (auto simp: scan_inv_def nth_append nth_list_update less_Suc_eq length_table)
  then have "\<exists>s'. accept_loop rs ?s = Inr s' \<and> scan_inv s' \<and> sv_listen s' = sv_listen ?s \<and>
      table (sv_fds s') (sv_nfds s') = table (sv_fds ?s) (sv_nfds ?s) @ accepted rs \<and> sv_nfds s' = sv_nfds ?s + length (accepted rs)"
    using 3(3,4,5) by (intro 3(1) [OF lt]) auto
  then show ?case using lt tab by auto
qed (auto simp: scan_inv_def live_def)

lemma filter_update_remove1:
  "distinct (filter P xs) \<Longrightarrow> i < length xs \<Longrightarrow> P (xs ! i) \<Longrightarrow> \<not> P y \<Longrightarrow> filter P (xs[i := y]) = remove1 (xs ! i) (filter P xs)"
proof (induction xs arbitrary: i)
  case (Cons x xs)
  show ?case
  proof (cases i)
    case 0
    then show ?thesis using Cons(4,5) by simp
  next
    case (Suc j)
    then have "xs ! j \<in> set (filter P xs)" using Cons(3,4) by auto
    then have "P x \<longrightarrow> x \<noteq> xs ! j" using Cons(2) by auto
    moreover have "distinct (filter P xs)" using Cons(2) by (simp split: if_splits)
    ultimately show ?thesis using Suc Cons(1) [of j] Cons(3-5) by auto
  qed
qed simp

lemma close_conn_inv:
  assumes "scan_inv s" and "0 < i" and "i < sv_nfds s" and "pf_fd (sv_fds s ! i) \<noteq> -1"
  shows "scan_inv (close_conn i s) \<and> table (sv_fds (close_conn i s)) (sv_nfds s) = (table (sv_fds s) (sv_nfds s))[i := -1]"
proof -
  have len: "length (sv_fds s) = MAX_FDS" "sv_nfds s < MAX_FDS" using assms(1) by (auto simp: scan_inv_def)
  have tab: "table (sv_fds (close_conn i s)) (sv_nfds s) = (table (sv_fds s) (sv_nfds s))[i := -1]"
    using assms(3) len by (simp add: table_def close_conn_def take_update_swap map_update)
  let ?fd = "pf_fd (sv_fds s ! i)"
  have nth: "table (sv_fds s) (sv_nfds s) ! i = ?fd" using assms(3) len by (simp add: table_nth)
  have live: "live (close_conn i s) = remove1 ?fd (live s)"
    using filter_update_remove1 [of "\<lambda>fd. fd \<noteq> -1" "table (sv_fds s) (sv_nfds s)" i "-1"] assms nth len tab
    by (simp add: live_def scan_inv_def length_table close_conn_def)
  have "set (live (close_conn i s)) = set (live s) - {?fd}" "distinct (live (close_conn i s))"
    unfolding live using assms(1) by (simp_all add: scan_inv_def)
  then have "scan_inv (close_conn i s)"
    using assms tab len by (auto simp: scan_inv_def nth_list_update close_conn_def)
  then show ?thesis using tab by simp
qed

text \<open>A message can be printed when it is shorter than the buffer, ends in a newline or has a zero byte.\<close>

definition printable :: "recv_res \<Rightarrow> bool" where
  "printable r = (case r of RecvFail b \<Rightarrow> True | RecvData d \<Rightarrow> length d \<le> MAX_BUFF \<and> (length d < MAX_BUFF \<or> 0 \<in> set d \<or> last d = 10))"

lemma recv_buffer_zero: "printable (RecvData d) \<Longrightarrow> d \<noteq> [] \<Longrightarrow> 0 \<in> set (recv_buffer d)"
proof -
  assume p: "printable (RecvData d)" and ne: "d \<noteq> []"
  show ?thesis
  proof (cases "last d = 10")
    case True
    moreover have "length d - 1 < length d + (MAX_BUFF - length d)" using ne by (cases d) auto
    ultimately show ?thesis by (simp add: recv_buffer_def set_update_memI)
  next
    case False
    then show ?thesis using p by (auto simp: recv_buffer_def printable_def)
  qed
qed

lemma read_conn_inv:
  assumes "scan_inv s" and "0 < i" and "i < sv_nfds s" and "pf_fd (sv_fds s ! i) \<noteq> -1" and "\<forall>fd. printable (pa_recv pa fd)"
  shows "\<exists>s'. read_conn pa i s = Inr s' \<and> scan_inv s' \<and> sv_nfds s' = sv_nfds s \<and> sv_listen s' = sv_listen s \<and>
    sv_open s' \<subseteq> sv_open s \<and>
    (\<forall>k. k \<noteq> i \<longrightarrow> sv_fds s' ! k = sv_fds s ! k)"
proof -
  let ?fd = "pf_fd (sv_fds s ! i)"
  have closed: "scan_inv (close_conn i s)" "sv_nfds (close_conn i s) = sv_nfds s" "sv_listen (close_conn i s) = sv_listen s"
    "sv_open (close_conn i s) \<subseteq> sv_open s" "\<forall>k. k \<noteq> i \<longrightarrow> sv_fds (close_conn i s) ! k = sv_fds s ! k"
    using close_conn_inv [OF assms(1-4)] by (auto simp: close_conn_def)
  have sent: "scan_inv (s\<lparr>sv_sent := x\<rparr>)" for x using assms(1) by (simp add: scan_inv_def live_def)
  show ?thesis
  proof (cases "pa_recv pa ?fd")
    case (RecvFail b)
    then show ?thesis using closed assms(1) by (cases b) (auto simp: read_conn_def)
  next
    case (RecvData d)
    have "d \<noteq> [] \<Longrightarrow> 0 \<in> set (recv_buffer d)" using recv_buffer_zero assms(5) RecvData by metis
    then show ?thesis using closed sent RecvData by (auto simp: read_conn_def Let_def)
  qed
qed

text \<open>What the calls of a round may answer: new descriptors are fresh and distinct, there is room for them, and messages can be printed.\<close>

definition answers_ok :: "server \<Rightarrow> poll_answers \<Rightarrow> bool" where
  "answers_ok s pa \<longleftrightarrow> distinct (accepted (pa_accepts pa)) \<and>
     (\<forall>sd \<in> set (accepted (pa_accepts pa)). 0 \<le> sd \<and> sd \<notin> sv_open s) \<and>
     sv_nfds s + length (accepted (pa_accepts pa)) < MAX_FDS \<and> (\<forall>fd. printable (pa_recv pa fd))"

text \<open>Before the listening socket is read at index 0 the accepts are still to come, afterwards they are done.\<close>

lemma scan_fds_tail:
  assumes "scan_inv s" and "0 < i" and "n \<le> sv_nfds s" and "\<forall>k. i \<le> k \<and> k < n \<longrightarrow> pf_fd (sv_fds s ! k) \<noteq> -1"
    and "\<forall>k. i \<le> k \<and> k < n \<longrightarrow> pf_fd (sv_fds s ! k) \<noteq> sv_listen s" and "\<forall>fd. printable (pa_recv pa fd)"
  shows "\<exists>s'. scan_fds pa n i s = Inr s' \<and> scan_inv s'"
  using assms
proof (induction pa n i s rule: scan_fds.induct)
  case (1 pa n i s)
  show ?case
  proof (cases "i < n")
    case False
    then show ?thesis using 1(4) by (subst scan_fds.simps) simp
  next
    case True
    let ?p = "sv_fds s ! i"
    have lt: "i < sv_nfds s" "i < length (sv_fds s)" using True 1(4,6) by (auto simp: scan_inv_def)
    have fd: "pf_fd ?p \<noteq> -1" "pf_fd ?p \<noteq> sv_listen s" using 1(7,8) True by auto
    consider "pf_revents ?p = 0" | "pf_revents ?p \<noteq> 0" "pf_revents ?p \<noteq> POLLIN" | "pf_revents ?p \<noteq> 0" "pf_revents ?p = POLLIN"
      by blast
    then show ?thesis
    proof cases
      case one: 1
      have "\<exists>s'. scan_fds pa n (Suc i) s = Inr s' \<and> scan_inv s'" using 1(4-9) lt True one by (intro 1(1)) auto
      then show ?thesis using True lt one by (subst scan_fds.simps) simp
    next
      case 2
      moreover have "scan_inv (s\<lparr>sv_end := True\<rparr>)" using 1(4) by (simp add: scan_inv_def live_def)
      ultimately show ?thesis using True lt by (subst scan_fds.simps) simp
    next
      case 3
      obtain s1 where s1: "read_conn pa i s = Inr s1" "scan_inv s1" "sv_nfds s1 = sv_nfds s" "sv_listen s1 = sv_listen s"
        "\<forall>k. k \<noteq> i \<longrightarrow> sv_fds s1 ! k = sv_fds s ! k"
        using read_conn_inv [OF 1(4,5) lt(1) fd(1) 1(9)] by blast
      have "\<exists>s'. scan_fds pa n (Suc i) s1 = Inr s' \<and> scan_inv s'"
        using s1 1(5-9) lt True 3 fd by (intro 1(3)) auto
      then show ?thesis using True lt 3 fd s1(1) by (subst scan_fds.simps) simp
    qed
  qed
qed

lemma store_revents_frame:
  "length (sv_fds (store_revents rs s)) = length (sv_fds s)"
  "sv_nfds (store_revents rs s) = sv_nfds s" "sv_listen (store_revents rs s) = sv_listen s" "sv_open (store_revents rs s) = sv_open s"
  "sv_compress (store_revents rs s) = sv_compress s"
  by (simp_all add: store_revents_def)

lemma store_revents_nth:
  "k < length (sv_fds s) \<Longrightarrow> pf_fd (sv_fds (store_revents rs s) ! k) = pf_fd (sv_fds s ! k) \<and>
    pf_events (sv_fds (store_revents rs s) ! k) = pf_events (sv_fds s ! k)"
  by (simp add: store_revents_def)

lemma store_revents_table: "n \<le> length (sv_fds s) \<Longrightarrow> table (sv_fds (store_revents rs s)) n = table (sv_fds s) n"
  by (rule nth_equalityI) (simp_all add: length_table store_revents_frame table_nth store_revents_nth)

lemma store_revents_inv: "scan_inv s \<Longrightarrow> scan_inv (store_revents rs s)"
  by (simp add: scan_inv_def live_def store_revents_frame store_revents_table store_revents_nth)

lemma scan_fds_inv:
  assumes "server_inv s" and "answers_ok s pa"
  shows "\<exists>s'. scan_fds pa (sv_nfds s) 0 s = Inr s' \<and> scan_inv s'"
proof -
  have inv: "scan_inv s" and no1: "-1 \<notin> set (table (sv_fds s) (sv_nfds s))" using assms(1) by (auto simp: server_inv_def)
  let ?n = "sv_nfds s" and ?t = "table (sv_fds s) (sv_nfds s)"
  have len: "length ?t = ?n" "?n \<le> length (sv_fds s)" "0 < ?n" "sv_fds s \<noteq> []" using inv by (auto simp: scan_inv_def length_table)
  have l0: "?t ! 0 = sv_listen s" using inv by (simp add: scan_inv_def)
  have dist: "distinct ?t" using inv live_table [OF no1] by (simp add: scan_inv_def)
  have rest: "?t ! k \<noteq> -1 \<and> ?t ! k \<noteq> sv_listen s" if "0 < k" "k < ?n" for k
  proof
    have "?t ! k \<in> set ?t" using that len by simp
    then show "?t ! k \<noteq> -1" using no1 by metis
    show "?t ! k \<noteq> sv_listen s" using that len l0 nth_eq_iff_index_eq [OF dist, of k 0] by simp
  qed
  have tail: "\<exists>s'. scan_fds pa ?n 1 s1 = Inr s' \<and> scan_inv s'"
    if "scan_inv s1" "\<forall>k < ?n. pf_fd (sv_fds s1 ! k) = ?t ! k" "?n \<le> sv_nfds s1" "sv_listen s1 = sv_listen s" for s1
    using that rest assms(2) by (intro scan_fds_tail) (auto simp: answers_ok_def)
  let ?p = "sv_fds s ! 0"
  have p0: "pf_fd ?p = sv_listen s" using l0 len by (simp add: table_nth)
  consider "pf_revents ?p = 0" | "pf_revents ?p \<noteq> 0" "pf_revents ?p \<noteq> POLLIN" | "pf_revents ?p \<noteq> 0" "pf_revents ?p = POLLIN"
    by blast
  then show ?thesis
  proof cases
    case 1
    then show ?thesis using tail [of s] inv len by (subst scan_fds.simps) (simp add: table_nth)
  next
    case 2
    moreover have "scan_inv (s\<lparr>sv_end := True\<rparr>)" using inv by (simp add: scan_inv_def live_def)
    ultimately show ?thesis using len by (subst scan_fds.simps) simp
  next
    case 3
    obtain s1 where s1: "accept_loop (pa_accepts pa) s = Inr s1" "scan_inv s1" "sv_listen s1 = sv_listen s"
      "table (sv_fds s1) (sv_nfds s1) = ?t @ accepted (pa_accepts pa)" "sv_nfds s1 = ?n + length (accepted (pa_accepts pa))"
      using accept_loop_inv [OF inv, of "pa_accepts pa"] assms(2) by (auto simp: answers_ok_def)
    have "pf_fd (sv_fds s1 ! k) = ?t ! k" if "k < ?n" for k
    proof -
      have "sv_nfds s1 \<le> length (sv_fds s1)" using s1(2) by (simp add: scan_inv_def)
      then have "pf_fd (sv_fds s1 ! k) = table (sv_fds s1) (sv_nfds s1) ! k" using that s1(5) by (simp add: table_nth)
      then show ?thesis using that len by (simp add: s1(4) nth_append)
    qed
    then show ?thesis using tail [of s1] s1 3 p0 len by (subst scan_fds.simps) simp
  qed
qed

lemma compress_fds_inv:
  assumes "scan_inv s"
  shows "\<exists>s'. compress_fds s = Inr s' \<and> server_inv s' \<and> sv_open s' = sv_open s"
proof (cases "sv_compress s")
  case False
  then show ?thesis using assms by (auto simp: compress_fds_def server_inv_def scan_inv_def)
next
  case True
  have lt: "sv_nfds s < length (sv_fds s)" using assms by (simp add: scan_inv_def)
  obtain fds' n' where c: "compress_loop (sv_fds s) 0 (sv_nfds s) = Inr (fds', n')" "length fds' = length (sv_fds s)"
    "n' \<le> sv_nfds s" "\<forall>k < n'. pf_events (fds' ! k) = POLLIN" and tab: "table fds' n' = live s"
    using compress_loop_eq [of 0 "sv_nfds s" "sv_fds s"] assms lt by (auto simp: scan_inv_def live_def)
  let ?s = "s\<lparr>sv_compress := False, sv_fds := fds', sv_nfds := n'\<rparr>"
  have no1: "-1 \<notin> set (live s)" by (simp add: live_def)
  then have "filter (\<lambda>fd. fd \<noteq> -1) (live s) = live s" by (auto simp: filter_id_conv)
  then have live: "live ?s = live s" using tab by (simp add: live_def)
  have ne: "table (sv_fds s) (sv_nfds s) \<noteq> []" using assms lt by (auto simp: scan_inv_def table_def)
  then obtain r where "table (sv_fds s) (sv_nfds s) = sv_listen s # r"
    using assms by (cases "table (sv_fds s) (sv_nfds s)") (auto simp: scan_inv_def)
  then have head: "live s = sv_listen s # filter (\<lambda>fd. fd \<noteq> -1) r" using assms by (auto simp: live_def scan_inv_def)
  have "length (table fds' n') = n'" using c(2,3) lt by (simp add: length_table)
  then have "0 < n'" using tab head by auto
  then have "server_inv ?s" using assms c live tab head no1 by (auto simp: server_inv_def scan_inv_def)
  then show ?thesis using True c(1) by (auto simp: compress_fds_def)
qed

lemma poll_round_inv:
  assumes "server_inv s" and "answers_ok s pa"
  shows "\<exists>s'. poll_round pa s = Inr s' \<and> server_inv s'"
proof (cases "pa_rc pa \<le> 0")
  case True
  then show ?thesis using assms(1) by (simp add: poll_round_def server_inv_def scan_inv_def live_def)
next
  case False
  let ?s = "store_revents (pa_revents pa) s"
  have "sv_nfds s \<le> length (sv_fds s)" using assms(1) by (simp add: server_inv_def scan_inv_def)
  then have "server_inv ?s" "answers_ok ?s pa"
    using assms by (auto simp: server_inv_def store_revents_inv store_revents_frame store_revents_table answers_ok_def)
  then obtain s1 where "scan_fds pa (sv_nfds ?s) 0 ?s = Inr s1" "scan_inv s1" using scan_fds_inv by blast
  then show ?thesis using False compress_fds_inv [of s1] by (auto simp: poll_round_def)
qed

text \<open>Every round of a run meets answers that are possible in its state.\<close>

fun rounds_ok :: "poll_answers list \<Rightarrow> server \<Rightarrow> bool" where
  "rounds_ok [] s = True"
| "rounds_ok (pa # pas) s = (answers_ok s pa \<and> (case poll_round pa s of Inl e \<Rightarrow> True | Inr s' \<Rightarrow> sv_end s' \<or> rounds_ok pas s'))"

lemma serve_inv: "server_inv s \<Longrightarrow> rounds_ok pas s \<Longrightarrow> \<exists>s'. serve pas s = Inr s' \<and> server_inv s'"
proof (induction pas arbitrary: s)
  case (Cons pa pas)
  obtain s1 where s1: "poll_round pa s = Inr s1" "server_inv s1" using poll_round_inv Cons(2,3) by auto
  then show ?case using Cons(1) [OF s1(2)] Cons(3) by (cases "sv_end s1") auto
qed simp

lemma server_setup_inv: "server_setup sd rcs = Some s \<Longrightarrow> server_inv s"
proof -
  assume "server_setup sd rcs = Some s"
  moreover have "table ((replicate MAX_FDS p)[0 := q]) 1 = [pf_fd q]" for p q
    by (simp add: table_def MAX_FDS_def eval_nat_numeral)
  ultimately show ?thesis
    by (auto simp: server_setup_def server_inv_def scan_inv_def live_def MAX_FDS_def split: if_splits)
qed

lemma close_all_open:
  assumes "server_inv s"
  shows "sv_open (close_all s) = {}"
proof -
  have "live s = table (sv_fds s) (sv_nfds s)" using assms by (simp add: server_inv_def live_table)
  then have "sv_open s = set (table (sv_fds s) (sv_nfds s))" "\<forall>fd \<in> set (table (sv_fds s) (sv_nfds s)). 0 \<le> fd"
    using assms by (auto simp: server_inv_def scan_inv_def)
  then show ?thesis by (auto simp: close_all_def table_def)
qed

lemma accept_loop_listen: "accept_loop rs s = Inr s' \<Longrightarrow> sv_listen s' = sv_listen s"
  by (induction rs s rule: accept_loop.induct) (auto split: if_splits)

lemma scan_fds_listen: "scan_fds pa n i s = Inr s' \<Longrightarrow> sv_listen s' = sv_listen s"
proof (induction pa n i s rule: scan_fds.induct)
  case (1 pa n i s)
  have rc: "read_conn pa i s = Inr s1 \<Longrightarrow> sv_listen s1 = sv_listen s" for s1
    by (auto simp: read_conn_def close_conn_def Let_def split: recv_res.splits if_splits)
  show ?case
    using 1(4) by (subst (asm) scan_fds.simps)
      (fastforce simp: Let_def split: if_splits dest: accept_loop_listen rc 1(1-3))
qed

lemma serve_listen: "serve pas s = Inr s' \<Longrightarrow> sv_listen s' = sv_listen s"
proof (induction pas arbitrary: s)
  case (Cons pa pas)
  have "sv_listen s1 = sv_listen s" if "poll_round pa s = Inr s1" for s1
    using that by (auto simp: poll_round_def compress_fds_def store_revents_frame Let_def split: if_splits dest!: scan_fds_listen)
  then show ?case using Cons by (auto split: if_splits)
qed simp

subsection \<open>Properties\<close>

text \<open>
  C22: over any sequence of rounds in which new descriptors are fresh, the table has room and messages can be printed, the server never leaves its arrays; at the end
  the table holds exactly the open descriptors, each once and with no gap, the listening socket first, and the final clean-up closes them all.
\<close>

theorem poll_server_no_leak:
  assumes "server_setup sd rcs = Some s" and "rounds_ok pas s"
  shows "\<exists>s'. serve pas s = Inr s' \<and> sv_open s' = set (table (sv_fds s') (sv_nfds s')) \<and>
    distinct (table (sv_fds s') (sv_nfds s')) \<and> table (sv_fds s') (sv_nfds s') ! 0 = sd \<and> sv_open (close_all s') = {}"
proof -
  obtain s' where s': "serve pas s = Inr s'" "server_inv s'"
    using serve_inv [OF server_setup_inv [OF assms(1)] assms(2)] by blast
  then have "live s' = table (sv_fds s') (sv_nfds s')" by (simp add: server_inv_def live_table)
  moreover have "sv_listen s' = sd" using serve_listen [OF s'(1)] assms(1) by (auto simp: server_setup_def split: if_splits)
  ultimately show ?thesis using s' close_all_open [OF s'(2)] by (auto simp: server_inv_def scan_inv_def)
qed

definition answers0 :: poll_answers where
  "answers0 = \<lparr>pa_rc = 1, pa_revents = [POLLIN], pa_accepts = [Accepted 7, AcceptFail True], pa_recv = \<lambda>_. RecvData [104, 10], pa_send = \<lambda>_. 2\<rparr>"

theorem poll_server_no_leak_witness:
  "\<exists>s s'. server_setup 3 [0, 0, 0, 0] = Some s \<and> serve [answers0] s = Inr s' \<and> sv_open (close_all s') = {}"
proof -
  let ?s = "the (server_setup 3 [0, 0, 0, 0])"
  have set: "server_setup 3 [0, 0, 0, 0] = Some ?s" by (simp add: server_setup_def)
  have "answers_ok ?s answers0"
    by (auto simp: answers_ok_def answers0_def server_setup_def printable_def MAX_BUFF_def MAX_FDS_def)
  then have "rounds_ok [answers0] ?s" by (simp split: sum.splits)
  from poll_server_no_leak [OF set this] set show ?thesis by blast
qed

text \<open>
  The table is not protected: when all 200 entries are in use and the listening socket becomes readable with a pending connection, the
  new descriptor is written behind the array.
\<close>

theorem poll_server_table_overrun:
  assumes "length (sv_fds s) = MAX_FDS" and "sv_nfds s = MAX_FDS" and "pf_fd (sv_fds s ! 0) = sv_listen s"
    and "0 < pa_rc pa" and "pa_revents pa = POLLIN # rs" and "pa_accepts pa = Accepted sd # as"
  shows "poll_round pa s = Inl OutOfBounds"
proof -
  let ?s = "store_revents (pa_revents pa) s"
  have "pf_revents (sv_fds ?s ! 0) = POLLIN" "pf_fd (sv_fds ?s ! 0) = sv_listen ?s"
    using assms by (simp_all add: store_revents_def MAX_FDS_def)
  moreover have "accept_loop (pa_accepts pa) ?s = Inl OutOfBounds"
    using assms by (simp add: store_revents_frame)
  ultimately have "scan_fds pa (sv_nfds ?s) 0 ?s = Inl OutOfBounds"
    using assms(1,2) by (subst scan_fds.simps) (simp add: store_revents_frame MAX_FDS_def POLLIN_def)
  then show ?thesis using assms(4) by (simp add: poll_round_def)
qed

theorem poll_server_table_overrun_witness:
  "poll_round answers0 \<lparr>sv_fds = replicate 200 \<lparr>pf_fd = 3, pf_events = POLLIN, pf_revents = 0\<rparr>, sv_nfds = 200, sv_listen = 3,
     sv_open = {3}, sv_sent = [], sv_end = False, sv_compress = False\<rparr> = Inl OutOfBounds"
  using poll_server_table_overrun [of "\<lparr>sv_fds = replicate 200 \<lparr>pf_fd = 3, pf_events = POLLIN, pf_revents = 0\<rparr>, sv_nfds = 200, sv_listen = 3,
     sv_open = {3}, sv_sent = [], sv_end = False, sv_compress = False\<rparr>" answers0 "[]" 7 "[AcceptFail True]"]
  by (simp add: MAX_FDS_def answers0_def)

end
