(* ===== verification/Select_Server.thy ===== *)
theory Select_Server
  imports C_Prelude
begin

section \<open>A server on select (week5/ex4.c)\<close>

text \<open>
  \<^verbatim>\<open>src/week5/ex4.c\<close> keeps the listening socket and its connections in the descriptor set \<^verbatim>\<open>master\<close>. Each round copies the
  set, waits in \<^verbatim>\<open>select\<close>, accepts a connection when the listening socket is ready, and reads one buffer from every
  other ready descriptor, which it then closes. The answers of the system calls of a round are the record \<open>round_answers\<close>; the
  set of open descriptors is part of the state, so that a lost descriptor can be seen. Of errno only whether it is \<^verbatim>\<open>EWOULDBLOCK\<close> matters.
\<close>

subsection \<open>State\<close>

definition SEL_BUF :: nat where "SEL_BUF = 1024"
definition FD_SETSIZE :: nat where "FD_SETSIZE = 1024"

record sel =
  sl_sock :: nat
  sl_maxfd :: nat
  sl_master :: "nat set"
  sl_open :: "nat set"
  sl_wouldblock :: bool
  sl_received :: "(nat \<times> byte list) list"

text \<open>A failed call carries whether errno is \<^verbatim>\<open>EWOULDBLOCK\<close>.\<close>

datatype accept_answer = AcceptErr bool | AcceptFd nat
datatype recv_answer = RecvErr bool | RecvBytes "byte list"

record round_answers =
  ra_select :: "nat set option"
  ra_accept :: accept_answer
  ra_recv :: "nat \<Rightarrow> recv_answer"

subsection \<open>Setting up\<close>

text \<open>
  The loop over the addresses that \<^verbatim>\<open>getaddrinfo\<close> found: for each the results of \<^verbatim>\<open>socket\<close> (\<open>None\<close> is -1), \<^verbatim>\<open>setsockopt\<close> and
  \<^verbatim>\<open>bind\<close>. The first argument is \<^verbatim>\<open>sockfd\<close>: not yet written, -1, or a descriptor; a socket that fails later is neither closed
  nor forgotten.
\<close>

fun address_loop :: "nat option option \<Rightarrow> nat set \<Rightarrow> (nat option \<times> bool \<times> bool) list \<Rightarrow> nat option option \<times> nat set" where
  "address_loop sockfd opened [] = (sockfd, opened)"
| "address_loop sockfd opened ((sock, opt, bnd) # as) = (case sock of
       None \<Rightarrow> address_loop (Some None) opened as
     | Some fd \<Rightarrow>
         if opt \<and> bnd then (Some (Some fd), insert fd opened)
         else address_loop (Some (Some fd)) (insert fd opened) as)"

definition select_setup :: "bool \<Rightarrow> (nat option \<times> bool \<times> bool) list \<Rightarrow> bool \<Rightarrow> sel outcome cres" where
  "select_setup info_ok as lst =
     (if \<not> info_ok then Inr (Exits 1)
      else case address_loop None {} as of (sockfd, opened) \<Rightarrow>
        (case sockfd of
          None \<Rightarrow> Inl UninitRead
        | Some None \<Rightarrow> Inr (Exits 1)
        | Some (Some fd) \<Rightarrow>
            if \<not> lst then Inr (Exits 1)
            else if FD_SETSIZE \<le> fd then Inl OutOfBounds
            else Inr (Done \<lparr>sl_sock = fd, sl_maxfd = fd, sl_master = {fd}, sl_open = opened, sl_wouldblock = False, sl_received = []\<rparr>)))"

subsection \<open>One round\<close>

text \<open>The listening socket is ready. The flag says whether the loop over the descriptors goes on.\<close>

definition take_connection :: "accept_answer \<Rightarrow> sel \<Rightarrow> (bool \<times> sel) outcome cres" where
  "take_connection acc s = (case acc of
       AcceptErr wb \<Rightarrow> if wb then Inr (Done (False, s\<lparr>sl_wouldblock := True\<rparr>)) else Inr (Exits 1)
     | AcceptFd new \<Rightarrow>
         if FD_SETSIZE \<le> new then Inl OutOfBounds
         else Inr (Done (True, s\<lparr>sl_master := insert new (sl_master s), sl_open := insert new (sl_open s),
           sl_maxfd := max (sl_maxfd s) new\<rparr>)))"

text \<open>A connection is ready: \<^verbatim>\<open>buffer[nbytes] = 0\<close> comes before the result is looked at.\<close>

definition read_connection :: "nat \<Rightarrow> recv_answer \<Rightarrow> sel \<Rightarrow> (bool \<times> sel) outcome cres" where
  "read_connection i rcv s = (case rcv of
       RecvErr wb \<Rightarrow> Inl OutOfBounds
     | RecvBytes bs \<Rightarrow>
         if SEL_BUF \<le> length bs then Inl OutOfBounds
         else if bs = [] then
           if sl_wouldblock s then Inr (Done (False, s)) else Inr (Exits 1)
         else Inr (Done (True, s\<lparr>sl_received := sl_received s @ [(i, bs)], sl_open := sl_open s - {i}, sl_master := sl_master s - {i}\<rparr>)))"

text \<open>The loop over the descriptors; \<open>fuel\<close> bounds \<open>maxfd + 1 - i\<close>, which \<open>select_round\<close> starts at \<open>FD_SETSIZE\<close>.\<close>

fun scan_ready :: "round_answers \<Rightarrow> nat set \<Rightarrow> nat \<Rightarrow> nat \<Rightarrow> nat \<Rightarrow> sel \<Rightarrow> sel outcome cres" where
  "scan_ready ra readfds 0 i nready s = Inr (Done s)"
| "scan_ready ra readfds (Suc fuel) i nready s =
     (if i \<le> sl_maxfd s \<and> 0 < nready then
        if i \<in> readfds then
          bind_e (if i = sl_sock s then take_connection (ra_accept ra) s else read_connection i (ra_recv ra i) s)
            (\<lambda>(go, s'). if go then scan_ready ra readfds fuel (Suc i) (nready - 1) s' else Inr (Done s'))
        else scan_ready ra readfds fuel (Suc i) nready s
      else Inr (Done s))"

definition select_round :: "round_answers \<Rightarrow> sel \<Rightarrow> sel outcome cres" where
  "select_round ra s = (case ra_select ra of
       None \<Rightarrow> Inr (Exits 1)
     | Some readfds \<Rightarrow> scan_ready ra readfds FD_SETSIZE 0 (card readfds) s)"

fun select_serve :: "round_answers list \<Rightarrow> sel \<Rightarrow> sel outcome cres" where
  "select_serve [] s = Inr (Done s)"
| "select_serve (ra # ras) s = bind_e (select_round ra s) (select_serve ras)"

subsection \<open>The descriptor set\<close>

text \<open>The descriptors that the program has open are those of the set, which the bound covers.\<close>

definition sel_inv :: "sel \<Rightarrow> bool" where
  "sel_inv s \<longleftrightarrow> sl_open s = sl_master s \<and> finite (sl_master s) \<and> sl_sock s \<in> sl_master s \<and>
     (\<forall>fd \<in> sl_master s. fd \<le> sl_maxfd s) \<and> sl_maxfd s < FD_SETSIZE"

text \<open>Answers of the system calls for ready descriptors \<open>rs\<close>: a new connection has a fresh descriptor that fits the set, and every ready
  connection has sent at least one byte and less than a whole buffer.\<close>

definition answers_fit :: "round_answers \<Rightarrow> nat set \<Rightarrow> sel \<Rightarrow> bool" where
  "answers_fit ra rs s \<longleftrightarrow> rs \<subseteq> sl_master s \<and>
     (sl_sock s \<in> rs \<longrightarrow> (\<exists>new. ra_accept ra = AcceptFd new \<and> new \<notin> sl_master s \<and> new < FD_SETSIZE)) \<and>
     (\<forall>k \<in> rs - {sl_sock s}. \<exists>bs. ra_recv ra k = RecvBytes bs \<and> bs \<noteq> [] \<and> length bs < SEL_BUF)"

definition new_fds :: "round_answers \<Rightarrow> nat set \<Rightarrow> sel \<Rightarrow> nat set" where
  "new_fds ra rs s = (if sl_sock s \<in> rs then (case ra_accept ra of AcceptFd new \<Rightarrow> {new} | AcceptErr _ \<Rightarrow> {}) else {})"

definition heard :: "round_answers \<Rightarrow> nat set \<Rightarrow> (nat \<times> byte list) set" where
  "heard ra rs = {(k, bs). k \<in> rs \<and> ra_recv ra k = RecvBytes bs}"

text \<open>What the loop over the ready descriptors \<open>rs\<close> makes of a state.\<close>

definition scanned :: "round_answers \<Rightarrow> nat set \<Rightarrow> sel \<Rightarrow> sel \<Rightarrow> bool" where
  "scanned ra rs s s' \<longleftrightarrow> sel_inv s' \<and> sl_sock s' = sl_sock s \<and>
     sl_master s' = (sl_master s - (rs - {sl_sock s})) \<union> new_fds ra rs s \<and>
     set (sl_received s') = set (sl_received s) \<union> heard ra (rs - {sl_sock s})"

lemma scanned_none: "sel_inv s \<Longrightarrow> scanned ra {} s s"
  by (simp add: scanned_def new_fds_def heard_def)

lemma take_connection_step:
  assumes "sel_inv s" and "answers_fit ra rs s" and "sl_sock s \<in> rs"
  shows "\<exists>s'. take_connection (ra_accept ra) s = Inr (Done (True, s')) \<and> scanned ra {sl_sock s} s s'"
proof -
  obtain new where new: "ra_accept ra = AcceptFd new" "new < FD_SETSIZE" using assms(2,3) by (auto simp: answers_fit_def)
  have "\<not> FD_SETSIZE \<le> new" using new(2) by simp
  then show ?thesis
    using assms(1) new by (auto simp: take_connection_def scanned_def new_fds_def heard_def sel_inv_def max_def)
qed

lemma read_connection_step:
  assumes "sel_inv s" and "answers_fit ra rs s" and "i \<in> rs" and "i \<noteq> sl_sock s"
  shows "\<exists>s'. read_connection i (ra_recv ra i) s = Inr (Done (True, s')) \<and> scanned ra {i} s s'"
proof -
  obtain bs where bs: "ra_recv ra i = RecvBytes bs" "bs \<noteq> []" "length bs < SEL_BUF" using assms(2-4) by (auto simp: answers_fit_def)
  have h: "heard ra {i} = {(i, bs)}" using bs(1) by (auto simp: heard_def)
  show ?thesis
    using assms(1,4) bs by (auto simp: read_connection_def scanned_def new_fds_def h sel_inv_def)
qed

lemma heard_Un: "heard ra (A \<union> B) = heard ra A \<union> heard ra B"
  by (auto simp: heard_def)

lemma scanned_trans:
  assumes "scanned ra {i} s s1" and "scanned ra rs s1 s'" and "i \<notin> rs" and "new_fds ra {i} s \<inter> rs = {}"
  shows "scanned ra (insert i rs) s s'"
proof -
  have sock: "sl_sock s1 = sl_sock s" using assms(1) by (simp add: scanned_def)
  then have n1: "new_fds ra rs s1 = new_fds ra rs s" by (simp add: new_fds_def)
  have n2: "new_fds ra (insert i rs) s = new_fds ra {i} s \<union> new_fds ra rs s" using assms(3) by (auto simp: new_fds_def)
  have m1: "sl_master s1 = (sl_master s - ({i} - {sl_sock s})) \<union> new_fds ra {i} s"
    and m2: "sl_master s' = (sl_master s1 - (rs - {sl_sock s})) \<union> new_fds ra rs s"
    and h1: "set (sl_received s1) = set (sl_received s) \<union> heard ra ({i} - {sl_sock s})"
    and h2: "set (sl_received s') = set (sl_received s1) \<union> heard ra (rs - {sl_sock s})"
    using assms(1,2) sock n1 by (simp_all add: scanned_def)
  have ins: "insert i rs - {sl_sock s} = ({i} - {sl_sock s}) \<union> (rs - {sl_sock s})" by blast
  have "sl_master s' = (sl_master s - (insert i rs - {sl_sock s})) \<union> new_fds ra (insert i rs) s"
    unfolding m2 m1 n2 using assms(4) by blast
  moreover have "set (sl_received s') = set (sl_received s) \<union> heard ra (insert i rs - {sl_sock s})"
    unfolding h2 h1 ins heard_Un by blast
  ultimately show ?thesis using assms(2) sock unfolding scanned_def by simp
qed

lemma answers_fit_step:
  assumes "answers_fit ra (insert i rs) s" and "scanned ra {i} s s1" and "i \<notin> rs"
  shows "answers_fit ra rs s1 \<and> new_fds ra {i} s \<inter> rs = {}"
proof -
  have sock: "sl_sock s1 = sl_sock s" and master: "sl_master s1 = (sl_master s - ({i} - {sl_sock s})) \<union> new_fds ra {i} s"
    using assms(2) by (simp_all add: scanned_def)
  have sub: "insert i rs \<subseteq> sl_master s" using assms(1) by (simp add: answers_fit_def)
  have "new_fds ra {i} s \<inter> sl_master s = {}"
    using assms(1) by (auto simp: new_fds_def answers_fit_def)
  then have disj: "new_fds ra {i} s \<inter> rs = {}" using sub by blast
  have "sl_sock s \<in> rs \<Longrightarrow> new_fds ra {i} s = {}" using assms(3) by (auto simp: new_fds_def)
  then have keep: "sl_sock s \<in> rs \<Longrightarrow> new \<notin> sl_master s \<Longrightarrow> new \<notin> sl_master s1" for new
    unfolding master by blast
  have "rs \<subseteq> sl_master s1" using sub assms(3) unfolding master by blast
  then show ?thesis
    using assms(1) disj keep unfolding answers_fit_def sock by blast
qed

lemma ready_bound: "sel_inv s \<Longrightarrow> answers_fit ra rs s \<Longrightarrow> k \<in> rs \<Longrightarrow> k \<le> sl_maxfd s \<and> k < FD_SETSIZE"
proof -
  assume "sel_inv s" "answers_fit ra rs s" "k \<in> rs"
  then have "k \<le> sl_maxfd s" "sl_maxfd s < FD_SETSIZE" by (auto simp: sel_inv_def answers_fit_def)
  then show ?thesis by simp
qed

lemma scan_ready_all:
  assumes "sel_inv s" and "answers_fit ra {k \<in> readfds. i \<le> k} s" and "i + fuel = FD_SETSIZE" and "finite readfds"
  shows "\<exists>s'. scan_ready ra readfds fuel i (card {k \<in> readfds. i \<le> k}) s = Inr (Done s') \<and> scanned ra {k \<in> readfds. i \<le> k} s s'"
  using assms
proof (induction fuel arbitrary: i s)
  case 0
  have none: "{k \<in> readfds. i \<le> k} = {}" using ready_bound [OF 0(1,2)] 0(3) by fastforce
  show ?case unfolding none using scanned_none [OF 0(1)] by simp
next
  case (Suc fuel)
  let ?rs = "{k \<in> readfds. i \<le> k}" and ?rest = "{k \<in> readfds. Suc i \<le> k}"
  have fin: "finite ?rs" "finite ?rest" using Suc(5) by simp_all
  have fuel: "Suc i + fuel = FD_SETSIZE" using Suc(4) by simp
  show ?case
  proof (cases "i \<le> sl_maxfd s \<and> 0 < card ?rs")
    case False
    have none: "?rs = {}"
    proof (cases "i \<le> sl_maxfd s")
      case True
      then show ?thesis using False fin(1) by simp
    next
      case beyond: False
      then show ?thesis using ready_bound [OF Suc(2,3)] by fastforce
    qed
    show ?thesis unfolding none using scanned_none [OF Suc(2)] by simp
  next
    case True
    show ?thesis
    proof (cases "i \<in> readfds")
      case False
      then have "?rs = ?rest" using not_less_eq_eq by (auto simp: Suc_le_eq order_le_less)
      with Suc(1) [of s "Suc i"] Suc(2,3) fuel Suc(5) True False show ?thesis by simp
    next
      case ready: True
      then have rs: "?rs = insert i ?rest" "i \<notin> ?rest" by auto
      have card: "card ?rs - 1 = card ?rest" using rs fin by simp
      have fit: "answers_fit ra (insert i ?rest) s" using Suc(3) rs(1) by simp
      have "\<exists>s1. (if i = sl_sock s then take_connection (ra_accept ra) s else read_connection i (ra_recv ra i) s) = Inr (Done (True, s1)) \<and>
          scanned ra {i} s s1"
        using take_connection_step [OF Suc(2) fit] read_connection_step [OF Suc(2) fit] by auto
      then obtain s1 where s1: "(if i = sl_sock s then take_connection (ra_accept ra) s else read_connection i (ra_recv ra i) s) =
          Inr (Done (True, s1))" "scanned ra {i} s s1" by blast
      have step: "scan_ready ra readfds (Suc fuel) i (card ?rs) s = scan_ready ra readfds fuel (Suc i) (card ?rest) s1"
        using True ready by (simp add: s1(1) card [unfolded One_nat_def])
      have next_fit: "answers_fit ra ?rest s1" "new_fds ra {i} s \<inter> ?rest = {}" using answers_fit_step [OF fit s1(2) rs(2)] by blast+
      have "sel_inv s1" using s1(2) by (simp add: scanned_def)
      from Suc(1) [OF this next_fit(1) fuel Suc(5)]
      obtain s' where "scan_ready ra readfds fuel (Suc i) (card ?rest) s1 = Inr (Done s')" "scanned ra ?rest s1 s'" by blast
      then show ?thesis
        unfolding step using scanned_trans [OF s1(2) _ rs(2) next_fit(2)] by (simp only: rs(1)) blast
    qed
  qed
qed

lemma select_round_step:
  assumes "sel_inv s" and "ra_select ra = Some rs" and "answers_fit ra rs s"
  shows "\<exists>s'. select_round ra s = Inr (Done s') \<and> scanned ra rs s s'"
proof -
  have "rs \<subseteq> sl_master s" "finite (sl_master s)" using assms(1,3) by (simp_all add: answers_fit_def sel_inv_def)
  then have "finite rs" by (rule finite_subset)
  moreover have "{k \<in> rs. 0 \<le> k} = rs" by simp
  ultimately show ?thesis using scan_ready_all [of s ra rs 0 FD_SETSIZE] assms by (simp add: select_round_def)
qed

text \<open>A connection whose peer has closed it without a byte ends the server, and a full buffer is overrun.\<close>

lemma read_connection_closed: "\<not> sl_wouldblock s \<Longrightarrow> read_connection i (RecvBytes []) s = Inr (Exits 1)"
  by (simp add: read_connection_def SEL_BUF_def)

lemma read_connection_full: "length bs = SEL_BUF \<Longrightarrow> read_connection i (RecvBytes bs) s = Inl OutOfBounds"
  by (simp add: read_connection_def)

lemma select_setup_unbound:
  assumes "fd < FD_SETSIZE"
  shows "\<exists>s. select_setup True [(Some fd, True, False)] True = Inr (Done s) \<and> sl_sock s = fd"
  using assms by (simp add: select_setup_def)

subsection \<open>Properties\<close>

fun all_fit :: "round_answers list \<Rightarrow> sel \<Rightarrow> bool" where
  "all_fit [] s = True"
| "all_fit (ra # ras) s =
     ((case ra_select ra of None \<Rightarrow> False | Some rs \<Rightarrow> answers_fit ra rs s) \<and>
      (case select_round ra s of Inr (Done s') \<Rightarrow> all_fit ras s' | _ \<Rightarrow> True))"

lemma select_serve_inv:
  assumes "sel_inv s" and "all_fit ras s"
  shows "\<exists>s'. select_serve ras s = Inr (Done s') \<and> sel_inv s' \<and> sl_sock s' = sl_sock s"
  using assms
proof (induction ras arbitrary: s)
  case (Cons ra ras)
  obtain rs where rs: "ra_select ra = Some rs" "answers_fit ra rs s" using Cons(3) by (auto split: option.splits)
  obtain s1 where s1: "select_round ra s = Inr (Done s1)" "sel_inv s1" "sl_sock s1 = sl_sock s"
    using select_round_step [OF Cons(2) rs] by (auto simp: scanned_def)
  with Cons(1) [OF s1(2)] Cons(3) show ?case by simp
qed simp

text \<open>
  As long as every ready connection sends between 1 and 1023 bytes and new descriptors fit the descriptor set, the server runs on
  through any number of rounds without a fault: the set \<^verbatim>\<open>master\<close> is exactly the set of its open descriptors, the listening
  socket stays in it, and all of them lie below \<^verbatim>\<open>maxfd + 1\<close>, so that \<^verbatim>\<open>select\<close> watches every connection; and a round closes exactly
  the connections that it has read, after it has taken all of their bytes.
\<close>

theorem select_server_tracks:
  assumes "select_setup True ((Some fd, True, True) # as) True = Inr (Done s0)" and "all_fit (ras @ [ra]) s0" and "ra_select ra = Some rs"
    and "select_serve ras s0 = Inr (Done s)"
  shows "sl_open s = sl_master s \<and> fd \<in> sl_master s \<and> (\<forall>k \<in> sl_master s. k \<le> sl_maxfd s) \<and> sl_maxfd s < FD_SETSIZE \<and>
    (\<exists>s'. select_round ra s = Inr (Done s') \<and> sl_open s' = (sl_open s - (rs - {fd})) \<union> new_fds ra rs s \<and>
      set (sl_received s') = set (sl_received s) \<union> heard ra (rs - {fd}))"
proof -
  have s0: "sl_sock s0 = fd" "sel_inv s0" using assms(1) by (auto simp: select_setup_def sel_inv_def split: if_splits)
  have split: "all_fit ras t \<and> (select_serve ras t = Inr (Done u) \<longrightarrow> all_fit [ra] u)" if "all_fit (ras @ [ra]) t" "sel_inv t" for ras t u
    using that
  proof (induction ras arbitrary: t)
    case (Cons a ras)
    obtain ts where ts: "ra_select a = Some ts" "answers_fit a ts t" using Cons(2) by (auto split: option.splits)
    obtain t1 where "select_round a t = Inr (Done t1)" "sel_inv t1" using select_round_step [OF Cons(3) ts] by (auto simp: scanned_def)
    with Cons(1) [of t1] Cons(2) show ?case by simp
  qed auto
  have "all_fit ras s0" using split [OF assms(2) s0(2)] by blast
  from select_serve_inv [OF s0(2) this] have s: "sel_inv s" "sl_sock s = fd" using assms(4) s0(1) by auto
  have "answers_fit ra rs s" using split [OF assms(2) s0(2)] assms(3,4) by auto
  from select_round_step [OF s(1) assms(3) this] obtain s' where s': "select_round ra s = Inr (Done s')" "scanned ra rs s s'" by blast
  then have "sl_open s' = (sl_open s - (rs - {fd})) \<union> new_fds ra rs s"
    using s by (simp add: scanned_def sel_inv_def)
  moreover have "set (sl_received s') = set (sl_received s) \<union> heard ra (rs - {fd})" using s(2) s'(2) by (simp add: scanned_def)
  ultimately have "\<exists>s'. select_round ra s = Inr (Done s') \<and> sl_open s' = (sl_open s - (rs - {fd})) \<union> new_fds ra rs s \<and>
      set (sl_received s') = set (sl_received s) \<union> heard ra (rs - {fd})" using s'(1) by blast
  moreover have "sl_open s = sl_master s" "fd \<in> sl_master s" "\<forall>k \<in> sl_master s. k \<le> sl_maxfd s" "sl_maxfd s < FD_SETSIZE"
    using s unfolding sel_inv_def by simp_all
  ultimately show ?thesis by (intro conjI)
qed

theorem select_server_tracks_witness:
  "\<exists>s s'. select_serve [\<lparr>ra_select = Some {3}, ra_accept = AcceptFd 4, ra_recv = \<lambda>_. RecvErr True\<rparr>]
      \<lparr>sl_sock = 3, sl_maxfd = 3, sl_master = {3}, sl_open = {3}, sl_wouldblock = False, sl_received = []\<rparr> = Inr (Done s) \<and>
    sl_open s = sl_master s \<and>
    select_round \<lparr>ra_select = Some {4}, ra_accept = AcceptErr True, ra_recv = \<lambda>_. RecvBytes [65]\<rparr> s = Inr (Done s') \<and> sl_open s' = {3}"
proof -
  let ?start = "\<lparr>sl_sock = 3, sl_maxfd = 3, sl_master = {3}, sl_open = {3}, sl_wouldblock = False, sl_received = []\<rparr>"
  let ?s = "?start\<lparr>sl_maxfd := 4, sl_master := {4, 3}, sl_open := {4, 3}\<rparr>"
  let ?r1 = "\<lparr>ra_select = Some {3}, ra_accept = AcceptFd 4, ra_recv = \<lambda>_. RecvErr True\<rparr>"
  let ?r2 = "\<lparr>ra_select = Some {4}, ra_accept = AcceptErr True, ra_recv = \<lambda>_. RecvBytes [65 :: byte]\<rparr>"
  have set: "select_setup True [(Some 3, True, True)] True = Inr (Done ?start)" 
    unfolding select_setup_def FD_SETSIZE_def address_loop.simps by simp
  have "map_sum id (\<lambda>x. case x of Done t \<Rightarrow> Some (sl_sock t, sl_maxfd t, sl_master t = {4, 3}, sl_open t = {4, 3}, sl_wouldblock t, sl_received t)
      | _ \<Rightarrow> None) (select_round ?r1 ?start) = Inr (Some (3, 4, True, True, False, []))"
    by code_simp
  then obtain t where t: "select_round ?r1 ?start = Inr (Done t)" "sl_sock t = 3" "sl_maxfd t = 4" "sl_master t = {4, 3}" "sl_open t = {4, 3}"
    "\<not> sl_wouldblock t" "sl_received t = []"
    by (cases "select_round ?r1 ?start") (simp_all split: outcome.splits)
  then have "t = ?s" by (intro sel.equality) simp_all
  with t(1) have one: "select_round ?r1 ?start = Inr (Done ?s)" by simp
  have fit: "all_fit ([?r1] @ [?r2]) ?start"
    unfolding append.simps all_fit.simps one by (simp add: answers_fit_def FD_SETSIZE_def SEL_BUF_def split: sum.split outcome.split)
  have run: "select_serve [?r1] ?start = Inr (Done ?s)" unfolding select_serve.simps one by simp
  from select_server_tracks [OF set fit _ run, of "{4}"] run show ?thesis
    by (auto simp: new_fds_def)
qed

end
