(* ===== verification/Chat_Sockets.thy ===== *)
theory Chat_Sockets
  imports C_Prelude
begin

section \<open>Socket servers and their clients (week5/02_sockets)\<close>

text \<open>
  The three pairs of programs under \<^verbatim>\<open>src/week5/02_sockets/\<close>: \<^verbatim>\<open>ex1s.c\<close> sends a random word to \<^verbatim>\<open>ex1c.c\<close>, \<^verbatim>\<open>ex2s.c\<close>
  and \<^verbatim>\<open>ex2c.c\<close> chat for ever, \<^verbatim>\<open>ex3s.c\<close> sends a datagram of \<^verbatim>\<open>ex3c.c\<close> back reversed. The answers of the system calls
  are arguments, the values of \<^verbatim>\<open>rand\<close> a function from the number of the call, starting at 0. A buffer is a list of 1024 bytes, and a C
  string in it ends at its first zero byte; to read past the buffer is a fault. Waiting is left out, and so are the addresses.
\<close>

subsection \<open>Buffers\<close>

definition BUF_SIZE :: nat where "BUF_SIZE = 1024"

definition bytes_of :: "string \<Rightarrow> byte list" where
  "bytes_of s = map of_char s"

definition shown :: "byte list \<Rightarrow> string" where
  "shown bs = map (\<lambda>b. char_of (unat b)) bs"

definition strlen_b :: "byte list \<Rightarrow> nat cres" where
  "strlen_b buf = (if 0 \<in> set buf then Inr (length (takeWhile (\<lambda>b. b \<noteq> 0) buf)) else Inl OutOfBounds)"

definition c_str :: "byte list \<Rightarrow> byte list cres" where
  "c_str buf = bind_c (strlen_b buf) (\<lambda>n. Inr (take n buf))"

definition clear_buf :: "byte list" where
  "clear_buf = replicate BUF_SIZE 0"

text \<open>\<^verbatim>\<open>read\<close>, \<^verbatim>\<open>recv\<close> and \<^verbatim>\<open>recvfrom\<close> into a buffer: an error, or the bytes that they store at its front.\<close>

datatype received = Failed | Got "byte list"

definition got_res :: "received \<Rightarrow> int" where
  "got_res r = (case r of Failed \<Rightarrow> -1 | Got bs \<Rightarrow> int (length bs))"

definition store :: "received \<Rightarrow> byte list \<Rightarrow> byte list" where
  "store r buf = (case r of Failed \<Rightarrow> buf | Got bs \<Rightarrow> bs @ drop (length bs) buf)"

subsection \<open>Checked calls\<close>

fun CHECK_RESULT :: "int list \<Rightarrow> unit outcome cres" where
  "CHECK_RESULT [] = Inr (Done ())"
| "CHECK_RESULT (res # rs) = (if res < 0 then Inr (Exits 1) else CHECK_RESULT rs)"

definition lift_e :: "'a cres \<Rightarrow> 'a outcome cres" where
  "lift_e r = (case r of Inl e \<Rightarrow> Inl e | Inr x \<Rightarrow> Inr (Done x))"

text \<open>What a program has sent and printed, and the descriptors that it has not closed.\<close>

record sock_run =
  sr_sent :: "byte list list"
  sr_out :: "string list"
  sr_open :: "int list"

record sock_answers =
  sa_socket :: int
  sa_setsockopt :: int
  sa_bind :: int
  sa_listen :: int
  sa_accept :: int
  sa_connect :: int

subsection \<open>A random word (ex1s.c, ex1c.c)\<close>

definition DEFAULT_SET :: string where
  "DEFAULT_SET = ''0123456789abcdefghijklmnopqrstuvwxyz''"

definition MAX_MSG_LEN :: nat where "MAX_MSG_LEN = 10"

text \<open>The loop that fills the buffer; \<open>i\<close> counts up to \<^verbatim>\<open>msg_len\<close>.\<close>

function fill_msg :: "(nat \<Rightarrow> nat) \<Rightarrow> nat \<Rightarrow> nat \<Rightarrow> byte list \<Rightarrow> byte list cres" where
  "fill_msg rnd msg_len i buf =
     (if i < msg_len then
        if length buf \<le> i then Inl OutOfBounds
        else fill_msg rnd msg_len (Suc i) (buf[i := of_char (DEFAULT_SET ! (rnd (Suc i) mod length DEFAULT_SET))])
      else Inr buf)"
  by pat_completeness auto
termination
  by (relation "measure (\<lambda>(rnd, n, i, b). n - i)") auto

declare fill_msg.simps [simp del]

definition ex1s_main :: "sock_answers \<Rightarrow> int \<Rightarrow> (nat \<Rightarrow> nat) \<Rightarrow> byte list \<Rightarrow> sock_run outcome cres" where
  "ex1s_main a wr rnd buf0 =
     bind_e (CHECK_RESULT [sa_socket a, sa_setsockopt a, sa_bind a, sa_listen a, sa_accept a]) (\<lambda>_.
     let msg_len = 1 + rnd 0 mod MAX_MSG_LEN in
     bind_e (lift_e (fill_msg rnd msg_len 0 buf0)) (\<lambda>buf.
     bind_e (CHECK_RESULT [wr]) (\<lambda>_.
       Inr (Done \<lparr>sr_sent = [take msg_len buf], sr_out = [],
         sr_open = removeAll (sa_socket a) (removeAll (sa_accept a) [sa_socket a, sa_accept a])\<rparr>))))"

definition received_line :: "int \<Rightarrow> byte list \<Rightarrow> string" where
  "received_line res str = ''Data received ('' @ show_dec res @ '' bytes): ['' @ shown str @ '']'' @ nl"

definition ex1c_main :: "sock_answers \<Rightarrow> received \<Rightarrow> sock_run outcome cres" where
  "ex1c_main a rcv =
     bind_e (CHECK_RESULT [sa_socket a, sa_connect a, got_res rcv]) (\<lambda>_.
     bind_e (lift_e (c_str (store rcv clear_buf))) (\<lambda>str.
       Inr (Done \<lparr>sr_sent = [], sr_out = [received_line (got_res rcv) str],
         sr_open = removeAll (sa_socket a) [sa_socket a]\<rparr>)))"

subsection \<open>The chat (ex2s.c, ex2c.c)\<close>

definition hi_arr :: "string list" where
  "hi_arr = [''Hi!'', ''Hello!'', ''Wazzup?'', ''Hey, dude!'', ''Howdy!'']"

definition chat_arr :: "string list" where
  "chat_arr = [
     ''Nice weather today!'', ''You are damn right!'', ''Any news?'', ''It's all the same'',
     ''Yeah...'', ''You were saying?..'', ''You sure?'', ''How is that possible?'',
     ''No news is great news'', ''So, what's up?'', ''That's nice'', ''Oh, dear...'',
     ''All is quiet today'', ''You look awesome!'', ''I'm feeling a bit under the weather...'',
     ''Is everything ok?'', ''I don't think so'', ''OK'', ''All is well that ends well'',
     ''It's typical'', ''What were you thinking about?'', ''It's all those damned russian hackers!'',
     ''Nice of you to ask'', ''It's nothing'', ''I don't care'', ''Oh, come on!'',
     ''What kind of answer is that?'', ''You are joking, right?'', ''Oh, crap!'',
     ''Come on, I'm joking!'', ''That was just a joke, stupid'', ''Better say nothing'',
     ''Whatever...'', ''This chat will not end well'', ''I have bad feeling about this...'',
     ''Hmm, I see your point'', ''Now, don't repeat yourself!'', ''That's strange...'',
     ''I hope for the best'', ''We ought to prepare for the worst'', ''As simple as that'',
     ''Thank you!'', ''Stop it!'', ''I've had enough!'', ''I really don't know what to say'',
     ''Good point'', ''And who are you to judge?'', ''I think all politicians are liars'',
     ''I guess nothing comes easy'', ''Apparently, yes'', ''That is obvious, is it not?'']"

definition random_reply :: "nat \<Rightarrow> nat \<Rightarrow> string" where
  "random_reply i r = (if i = 0 then hi_arr ! (r mod length hi_arr) else chat_arr ! (r mod length chat_arr))"

text \<open>One round of the server, from its reply to what it reads; the string is sent with its terminating zero.\<close>

definition ex2s_round :: "(nat \<Rightarrow> nat) \<Rightarrow> nat \<Rightarrow> int \<Rightarrow> received \<Rightarrow> sock_run \<Rightarrow> sock_run outcome cres" where
  "ex2s_round rnd i wr rcv s =
     (let reply = random_reply i (rnd i) in
      bind_e (CHECK_RESULT [wr, got_res rcv]) (\<lambda>_.
        Inr (Done (s\<lparr>sr_sent := sr_sent s @ [bytes_of reply @ [0]], sr_out := sr_out s @ [''.'']\<rparr>))))"

fun ex2s_loop :: "(nat \<Rightarrow> nat) \<Rightarrow> nat \<Rightarrow> (int \<times> received) list \<Rightarrow> sock_run \<Rightarrow> sock_run outcome cres" where
  "ex2s_loop rnd i [] s = Inr (Done s)"
| "ex2s_loop rnd i ((wr, rcv) # as) s = bind_e (ex2s_round rnd i wr rcv s) (ex2s_loop rnd (Suc i) as)"

definition ex2s_main :: "sock_answers \<Rightarrow> (nat \<Rightarrow> nat) \<Rightarrow> (int \<times> received) list \<Rightarrow> sock_run outcome cres" where
  "ex2s_main a rnd as =
     bind_e (CHECK_RESULT [sa_socket a, sa_bind a, sa_listen a, sa_accept a]) (\<lambda>_.
       ex2s_loop rnd 0 as \<lparr>sr_sent = [], sr_out = [], sr_open = [sa_socket a, sa_accept a]\<rparr>)"

text \<open>One round of the client. \<^verbatim>\<open>random_delay\<close> calls \<^verbatim>\<open>rand\<close> before and after the reply is chosen.\<close>

definition random_delay :: "nat \<Rightarrow> nat \<Rightarrow> nat" where
  "random_delay delay r = 1 + r mod delay"

definition ex2c_round :: "(nat \<Rightarrow> nat) \<Rightarrow> nat \<Rightarrow> received \<Rightarrow> int \<Rightarrow> byte list \<Rightarrow> sock_run \<Rightarrow> (byte list \<times> sock_run) outcome cres" where
  "ex2c_round rnd i rcv wr buf s =
     bind_e (CHECK_RESULT [got_res rcv]) (\<lambda>_.
     bind_e (lift_e (c_str (store rcv buf))) (\<lambda>str.
     let reply = random_reply i (rnd (3 * i + 1)) in
     bind_e (CHECK_RESULT [wr]) (\<lambda>_.
       Inr (Done (store rcv buf, s\<lparr>sr_sent := sr_sent s @ [bytes_of reply @ [0]],
         sr_out := sr_out s @ [''Server: '' @ shown str @ nl, ''Client: '' @ reply @ nl]\<rparr>)))))"

fun ex2c_loop :: "(nat \<Rightarrow> nat) \<Rightarrow> nat \<Rightarrow> (received \<times> int) list \<Rightarrow> byte list \<Rightarrow> sock_run \<Rightarrow> (byte list \<times> sock_run) outcome cres" where
  "ex2c_loop rnd i [] buf s = Inr (Done (buf, s))"
| "ex2c_loop rnd i ((rcv, wr) # as) buf s = bind_e (ex2c_round rnd i rcv wr buf s) (\<lambda>(buf', s'). ex2c_loop rnd (Suc i) as buf' s')"

definition ex2c_main :: "sock_answers \<Rightarrow> (nat \<Rightarrow> nat) \<Rightarrow> (received \<times> int) list \<Rightarrow> sock_run outcome cres" where
  "ex2c_main a rnd as =
     bind_e (CHECK_RESULT [sa_socket a, sa_connect a]) (\<lambda>_.
     bind_e (ex2c_loop rnd 0 as clear_buf \<lparr>sr_sent = [], sr_out = [], sr_open = [sa_socket a]\<rparr>) (\<lambda>(buf, s). Inr (Done s)))"

subsection \<open>The reversing datagram server (ex3s.c, ex3c.c)\<close>

function strrev_loop :: "byte list \<Rightarrow> nat \<Rightarrow> nat \<Rightarrow> byte list" where
  "strrev_loop str p1 p2 =
     (if p1 < p2 then
        let s1 = str[p1 := xor (str ! p1) (str ! p2)];
            s2 = s1[p2 := xor (s1 ! p2) (s1 ! p1)];
            s3 = s2[p1 := xor (s2 ! p1) (s2 ! p2)]
        in strrev_loop s3 (Suc p1) (p2 - 1)
      else str)"
  by pat_completeness auto
termination
  by (relation "measure (\<lambda>(s, p1, p2). p2 - p1)") auto

declare strrev_loop.simps [simp del]

definition strrev :: "byte list \<Rightarrow> byte list cres" where
  "strrev str = bind_c (strlen_b str) (\<lambda>n. if n = 0 then Inr str else Inr (strrev_loop str 0 (n - 1)))"

definition ex3s_main :: "sock_answers \<Rightarrow> received \<Rightarrow> int \<Rightarrow> sock_run outcome cres" where
  "ex3s_main a rcv snd_res =
     bind_e (CHECK_RESULT [sa_socket a, sa_setsockopt a, sa_bind a, got_res rcv]) (\<lambda>_.
     let buf = store rcv clear_buf in
     bind_e (lift_e (c_str buf)) (\<lambda>str.
     bind_e (lift_e (strrev buf)) (\<lambda>buf'.
     bind_e (lift_e (c_str buf')) (\<lambda>reply.
     bind_e (CHECK_RESULT [snd_res]) (\<lambda>_.
       Inr (Done \<lparr>sr_sent = [reply],
         sr_out = [''Data received ('' @ show_dec (got_res rcv) @ '' bytes): ['' @ shown str @ '']''],
         sr_open = removeAll (sa_socket a) [sa_socket a]\<rparr>))))))"

text \<open>\<^verbatim>\<open>fgets\<close> of at most 1023 bytes up to a newline, which is then cut off; \<open>None\<close> is the end of the input.\<close>

definition fgets_buf :: "byte list option \<Rightarrow> byte list" where
  "fgets_buf inp = (case inp of
       None \<Rightarrow> clear_buf
     | Some line \<Rightarrow>
         let taken = take (BUF_SIZE - 1) (takeWhile (\<lambda>b. b \<noteq> 10) line @ (if 10 \<in> set line then [10] else []))
         in taken @ [0] @ drop (Suc (length taken)) clear_buf)"

text \<open>\<^verbatim>\<open>strchr(buffer, '\n')\<close>: the first newline in front of the terminating zero.\<close>

definition cut_newline :: "byte list \<Rightarrow> byte list" where
  "cut_newline buf =
     (let front = takeWhile (\<lambda>b. b \<noteq> 10 \<and> b \<noteq> 0) buf in
      if length front < length buf \<and> buf ! length front = 10 then buf[length front := 0] else buf)"

definition ex3c_main :: "sock_answers \<Rightarrow> byte list option \<Rightarrow> int \<Rightarrow> received \<Rightarrow> sock_run outcome cres" where
  "ex3c_main a inp snd_res rcv =
     bind_e (CHECK_RESULT [sa_socket a]) (\<lambda>_.
     bind_e (lift_e (c_str (cut_newline (fgets_buf inp)))) (\<lambda>msg.
     bind_e (CHECK_RESULT [snd_res, got_res rcv]) (\<lambda>_.
     bind_e (lift_e (c_str (store rcv clear_buf))) (\<lambda>str.
       Inr (Done \<lparr>sr_sent = [msg], sr_out = [''Data sent: '', received_line (got_res rcv) str],
         sr_open = removeAll (sa_socket a) [sa_socket a]\<rparr>)))))"

subsection \<open>Strings in buffers\<close>

lemma CHECK_RESULT_ok: "\<forall>r \<in> set rs. 0 \<le> r \<Longrightarrow> CHECK_RESULT rs = Inr (Done ())"
  by (induction rs) auto

lemma CHECK_RESULT_exits: "\<exists>r \<in> set rs. r < 0 \<Longrightarrow> CHECK_RESULT rs = Inr (Exits 1)"
  by (induction rs) auto

lemma lift_e_simps [simp]: "lift_e (Inl e) = Inl e" "lift_e (Inr x) = Inr (Done x)"
  by (simp_all add: lift_e_def)

lemma length_clear_buf [simp]: "length clear_buf = BUF_SIZE"
  by (simp add: clear_buf_def)

lemma got_res_nonneg [simp]: "0 \<le> got_res (Got bs)" "got_res (Got bs) = int (length bs)"
  by (simp_all add: got_res_def)

lemma strlen_b_front: "0 \<notin> set bs \<Longrightarrow> strlen_b (bs @ 0 # rest) = Inr (length bs)"
  by (induction bs) (auto simp: strlen_b_def)

lemma c_str_front: "0 \<notin> set bs \<Longrightarrow> c_str (bs @ 0 # rest) = Inr bs"
  by (simp add: c_str_def strlen_b_front)

lemma store_front: "length bs < length buf \<Longrightarrow> length (store (Got bs) buf) = length buf"
  by (simp add: store_def)

lemma drop_clear_buf: "n < BUF_SIZE \<Longrightarrow> drop n clear_buf = 0 # drop (Suc n) clear_buf"
  by (simp add: clear_buf_def Suc_diff_Suc flip: replicate_Suc)

lemma store_clear: "length bs < BUF_SIZE \<Longrightarrow> store (Got bs) clear_buf = bs @ 0 # drop (Suc (length bs)) clear_buf"
  by (simp add: store_def drop_clear_buf)

lemma shown_bytes_of [simp]: "shown (bytes_of s) = s"
proof -
  have "char_of (unat (of_char c :: byte)) = c" for c :: char
  proof -
    have "unat (word_of_nat (of_char c) :: byte) = of_char c" by (simp add: unat_of_nat take_bit_nat_eq_self)
    then show ?thesis by (simp add: of_nat_of_char)
  qed
  then show ?thesis by (simp add: shown_def bytes_of_def comp_def)
qed

subsection \<open>Reversing in place\<close>

lemma xor_swap:
  assumes "i < length str" and "j < length str" and "i \<noteq> j"
  shows "(let s1 = str[i := xor (str ! i) (str ! j)]; s2 = s1[j := xor (s1 ! j) (s1 ! i)] in s2[i := xor (s2 ! i) (s2 ! j)]) =
    str[i := str ! j, j := (str ! i :: byte)]"
proof -
  have x: "xor b (xor a b) = a" "xor (xor a b) a = b" for a b :: byte by (simp_all add: bit_eq_iff bit_xor_iff) blast+
  show ?thesis
    using assms by (simp add: Let_def x list_update_swap nth_list_update)
qed

lemma strrev_loop_step:
  assumes "p1 < p2" and "p2 < length str"
  shows "strrev_loop str p1 p2 = strrev_loop (str[p1 := str ! p2, p2 := str ! p1]) (Suc p1) (p2 - 1)"
proof -
  have "p1 < length str" "p1 \<noteq> p2" using assms by simp_all
  from xor_swap [OF this(1) assms(2) this(2)] show ?thesis
    using assms(1) by (subst strrev_loop.simps) (simp add: Let_def)
qed

lemma strrev_loop_nth:
  assumes "p2 < length str" and "k < length str"
  shows "length (strrev_loop str p1 p2) = length str \<and>
    strrev_loop str p1 p2 ! k = (if p1 \<le> k \<and> k \<le> p2 then str ! (p1 + p2 - k) else str ! k)"
  using assms
proof (induction "p2 - p1" arbitrary: str p1 p2 rule: less_induct)
  case less
  show ?case
  proof (cases "p1 < p2")
    case True
    let ?s = "str[p1 := str ! p2, p2 := str ! p1]"
    have "length (strrev_loop ?s (Suc p1) (p2 - 1)) = length ?s \<and> strrev_loop ?s (Suc p1) (p2 - 1) ! k =
        (if Suc p1 \<le> k \<and> k \<le> p2 - 1 then ?s ! (Suc p1 + (p2 - 1) - k) else ?s ! k)"
      using less(1) [of "p2 - 1" "Suc p1" ?s] less(2,3) True by simp
    then show ?thesis
      unfolding strrev_loop_step [OF True less(2)] using True less(2,3) by (auto simp: nth_list_update)
  next
    case False
    then have "strrev_loop str p1 p2 = str" by (simp add: strrev_loop.simps)
    moreover have "p1 + p2 - k = k" if "p1 \<le> k" "k \<le> p2" using that False by simp
    ultimately show ?thesis by auto
  qed
qed

lemma strrev_front:
  assumes "0 \<notin> set bs"
  shows "strrev (bs @ 0 # rest) = Inr (rev bs @ 0 # rest)"
proof (cases "bs = []")
  case False
  let ?str = "bs @ 0 # rest" and ?n = "length bs - 1"
  have n: "?n < length ?str" by simp
  have "strrev_loop ?str 0 ?n = rev bs @ 0 # rest"
  proof (rule nth_equalityI)
    show "length (strrev_loop ?str 0 ?n) = length (rev bs @ 0 # rest)" using strrev_loop_nth [OF n, of 0 0] by simp
    fix k assume "k < length (strrev_loop ?str 0 ?n)"
    then have k: "k < length ?str" using strrev_loop_nth [OF n, of 0 0] by simp
    have "strrev_loop ?str 0 ?n ! k = (if k \<le> ?n then ?str ! (?n - k) else ?str ! k)"
      using strrev_loop_nth [OF n k, of 0] by simp
    also have "\<dots> = (rev bs @ 0 # rest) ! k"
    proof (cases "k < length bs")
      case True
      then have "k \<le> ?n" "?n - k < length bs" by simp_all
      then show ?thesis using True by (simp add: nth_append rev_nth)
    next
      case outside: False
      then have "\<not> k \<le> ?n" using False by (cases bs) auto
      then show ?thesis using outside by (simp add: nth_append)
    qed
    finally show "strrev_loop ?str 0 ?n ! k = (rev bs @ 0 # rest) ! k" .
  qed
  then show ?thesis using False by (simp add: strrev_def strlen_b_front [OF assms])
qed (simp add: strrev_def strlen_b_front [of "[]", simplified])

subsection \<open>The datagram pair\<close>

lemma cut_newline_fgets:
  assumes "0 \<notin> set line" and "msg = take (BUF_SIZE - 1) (takeWhile (\<lambda>b. b \<noteq> 10) line)"
  shows "\<exists>rest. cut_newline (fgets_buf (Some line)) = msg @ 0 # rest"
proof -
  let ?w = "takeWhile (\<lambda>b. b \<noteq> 10) line" and ?m = "BUF_SIZE - 1"
  let ?t = "take ?m (?w @ (if 10 \<in> set line then [10] else []))"
  have w: "\<forall>b \<in> set ?w. b \<noteq> 10 \<and> b \<noteq> 0" using assms(1) by (auto dest: set_takeWhileD)
  then have msg: "\<forall>b \<in> set msg. b \<noteq> 10 \<and> b \<noteq> 0" using assms(2) by (auto dest: in_set_takeD)
  have buf: "fgets_buf (Some line) = ?t @ 0 # drop (Suc (length ?t)) clear_buf"
    by (simp add: fgets_buf_def Let_def)
  have "?t = msg \<or> ?t = msg @ [10]"
    by (auto simp: assms(2) take_append take_Cons' not_le)
  then show ?thesis
  proof
    assume t: "?t = msg"
    have "takeWhile (\<lambda>b. b \<noteq> 10 \<and> b \<noteq> 0) (msg @ 0 # r) = msg" for r
      using msg by (auto simp: takeWhile_append)
    then show ?thesis unfolding buf t by (simp add: cut_newline_def Let_def nth_append)
  next
    assume t: "?t = msg @ [10]"
    have "takeWhile (\<lambda>b. b \<noteq> 10 \<and> b \<noteq> 0) (msg @ 10 # r) = msg" for r
      using msg by (auto simp: takeWhile_append)
    then show ?thesis unfolding buf t by (simp add: cut_newline_def Let_def nth_append list_update_append)
  qed
qed

lemma ex3s_reply:
  assumes "0 \<notin> set msg" and "length msg < BUF_SIZE" and "0 \<le> sa_socket a" "0 \<le> sa_setsockopt a" "0 \<le> sa_bind a" "0 \<le> sr"
  shows "\<exists>s. ex3s_main a (Got msg) sr = Inr (Done s) \<and> sr_sent s = [rev msg] \<and> sr_open s = []"
proof -
  have "0 \<notin> set (rev msg)" using assms(1) by simp
  then show ?thesis
    using assms by (simp add: ex3s_main_def store_clear c_str_front strrev_front)
qed

lemma ex3c_run:
  assumes "0 \<notin> set line" and "msg = take (BUF_SIZE - 1) (takeWhile (\<lambda>b. b \<noteq> 10) line)" and "0 \<notin> set reply" and "length reply < BUF_SIZE"
    and "0 \<le> sa_socket a" "0 \<le> sr"
  shows "ex3c_main a (Some line) sr (Got reply) = Inr (Done \<lparr>sr_sent = [msg],
    sr_out = [''Data sent: '', received_line (int (length reply)) reply], sr_open = []\<rparr>)"
proof -
  obtain rest where cut: "cut_newline (fgets_buf (Some line)) = msg @ 0 # rest" using cut_newline_fgets [OF assms(1,2)] by blast
  have "0 \<notin> set msg" using assms(1,2) by (auto dest!: in_set_takeD set_takeWhileD)
  then show ?thesis using assms(3-6) by (simp add: ex3c_main_def cut c_str_front store_clear)
qed

subsection \<open>The chat\<close>

lemma replies_clean: "list_all (\<lambda>s. (0 :: byte) \<notin> set (bytes_of s) \<and> length s < 100) (hi_arr @ chat_arr)"
  by code_simp

lemma random_reply_in: "random_reply i r \<in> (if i = 0 then set hi_arr else set chat_arr)"
proof -
  have "r mod length hi_arr < length hi_arr" "r mod length chat_arr < length chat_arr"
    by (simp_all add: hi_arr_def chat_arr_def)
  then show ?thesis by (simp add: random_reply_def)
qed

lemma random_reply_clean: "0 \<notin> set (bytes_of (random_reply i r)) \<and> length (random_reply i r) < 100"
  using replies_clean random_reply_in [of i r] by (auto simp: list_all_iff split: if_splits)

lemma length_bytes_of [simp]: "length (bytes_of s) = length s"
  by (simp add: bytes_of_def)

lemma ex2c_round_heard:
  assumes "length buf = BUF_SIZE" and "0 \<le> wr" and "0 \<notin> set (bytes_of m)" and "length m < 100"
  shows "\<exists>buf'. length buf' = BUF_SIZE \<and> ex2c_round rnd i (Got (bytes_of m @ [0])) wr buf s = Inr (Done (buf',
    s\<lparr>sr_sent := sr_sent s @ [bytes_of (random_reply i (rnd (3 * i + 1))) @ [0]],
      sr_out := sr_out s @ [''Server: '' @ m @ nl, ''Client: '' @ random_reply i (rnd (3 * i + 1)) @ nl]\<rparr>))"
proof -
  let ?buf = "store (Got (bytes_of m @ [0])) buf"
  have buf: "?buf = bytes_of m @ 0 # drop (Suc (length m)) buf" by (simp add: store_def)
  have "length ?buf = BUF_SIZE" using assms(1,4) by (simp add: store_def BUF_SIZE_def)
  moreover have "c_str ?buf = Inr (bytes_of m)" unfolding buf by (rule c_str_front [OF assms(3)])
  ultimately show ?thesis using assms(2) by (intro exI [of _ ?buf]) (simp add: ex2c_round_def Let_def)
qed

lemma ex2c_loop_transcript:
  assumes "length buf = BUF_SIZE" and "\<forall>k. 0 \<le> w k" and "\<forall>k. 0 \<notin> set (bytes_of (ms k)) \<and> length (ms k) < 100"
  shows "\<exists>buf'. ex2c_loop rnd i (map (\<lambda>k. (Got (bytes_of (ms k) @ [0]), w k)) [i..<i + n]) buf s = Inr (Done (buf',
    s\<lparr>sr_sent := sr_sent s @ map (\<lambda>k. bytes_of (random_reply k (rnd (3 * k + 1))) @ [0]) [i..<i + n],
      sr_out := sr_out s @ concat (map (\<lambda>k. [''Server: '' @ ms k @ nl, ''Client: '' @ random_reply k (rnd (3 * k + 1)) @ nl]) [i..<i + n])\<rparr>))"
  using assms(1)
proof (induction n arbitrary: i buf s)
  case (Suc n)
  let ?s = "s\<lparr>sr_sent := sr_sent s @ [bytes_of (random_reply i (rnd (3 * i + 1))) @ [0]],
      sr_out := sr_out s @ [''Server: '' @ ms i @ nl, ''Client: '' @ random_reply i (rnd (3 * i + 1)) @ nl]\<rparr>"
  obtain b where b: "length b = BUF_SIZE" "ex2c_round rnd i (Got (bytes_of (ms i) @ [0])) (w i) buf s = Inr (Done (b, ?s))"
    using ex2c_round_heard [of buf "w i" "ms i" rnd i s] Suc(2) assms(2,3) by blast
  have upt: "[i..<i + Suc n] = i # [Suc i..<Suc i + n]" by (simp add: upt_conv_Cons)
  show ?case using Suc(1) [OF b(1), of "Suc i" ?s] unfolding upt by (auto simp: b(2))
qed simp

lemma ex2s_loop_sent:
  assumes "\<forall>k. 0 \<le> w k"
  shows "ex2s_loop rnd i (map (\<lambda>k. (w k, Got (r k))) [i..<i + n]) s =
    Inr (Done (s\<lparr>sr_sent := sr_sent s @ map (\<lambda>k. bytes_of (random_reply k (rnd k)) @ [0]) [i..<i + n],
      sr_out := sr_out s @ replicate n ''.''\<rparr>))"
proof (induction n arbitrary: i s)
  case (Suc n)
  have upt: "[i..<i + Suc n] = i # [Suc i..<Suc i + n]" by (simp add: upt_conv_Cons)
  have "\<not> w i < 0" using assms by (simp add: not_less)
  then show ?case using Suc [of "Suc i"] unfolding upt by (simp add: ex2s_round_def Let_def)
qed simp

text \<open>The end of the connection is not noticed: a client whose peer has gone prints the last message for ever.\<close>

lemma ex2c_loop_eof:
  assumes "c_str buf = Inr str"
  shows "\<exists>s'. ex2c_loop rnd i (replicate n (Got [], 0)) buf s = Inr (Done (buf, s')) \<and> length (sr_out s') = length (sr_out s) + 2 * n"
proof (induction n arbitrary: i s)
  case (Suc n)
  obtain s1 where s1: "ex2c_round rnd i (Got []) 0 buf s = Inr (Done (buf, s1))" "length (sr_out s1) = length (sr_out s) + 2"
    using assms by (simp add: ex2c_round_def store_def Let_def)
  obtain s' where "ex2c_loop rnd (Suc i) (replicate n (Got [], 0)) buf s1 = Inr (Done (buf, s'))" "length (sr_out s') = length (sr_out s1) + 2 * n"
    using Suc by blast
  then show ?case by (simp add: s1)
qed simp

subsection \<open>The random word\<close>

lemma fill_msg_result:
  assumes "msg_len \<le> length buf" and "i \<le> msg_len"
  shows "\<exists>buf'. fill_msg rnd msg_len i buf = Inr buf' \<and> length buf' = length buf \<and> take i buf' = take i buf \<and>
    (\<forall>k. i \<le> k \<and> k < msg_len \<longrightarrow> buf' ! k \<in> set (bytes_of DEFAULT_SET))"
  using assms
proof (induction rnd msg_len i buf rule: fill_msg.induct)
  case (1 rnd msg_len i buf)
  show ?case
  proof (cases "i < msg_len")
    case True
    let ?c = "of_char (DEFAULT_SET ! (rnd (Suc i) mod length DEFAULT_SET)) :: byte"
    have "DEFAULT_SET ! (rnd (Suc i) mod length DEFAULT_SET) \<in> set DEFAULT_SET" by (rule nth_mem) (simp add: DEFAULT_SET_def)
    then have c: "?c \<in> set (bytes_of DEFAULT_SET)" by (simp add: bytes_of_def)
    obtain b where b: "fill_msg rnd msg_len (Suc i) (buf[i := ?c]) = Inr b" "length b = length buf"
      "take (Suc i) b = take (Suc i) (buf[i := ?c])" "\<forall>k. Suc i \<le> k \<and> k < msg_len \<longrightarrow> b ! k \<in> set (bytes_of DEFAULT_SET)"
      using 1(1) [OF True] 1(2,3) True by auto
    have "b ! i = take (Suc i) b ! i" by simp
    also have "\<dots> = ?c" unfolding b(3) using True 1(2) by simp
    finally have "b ! k \<in> set (bytes_of DEFAULT_SET)" if "i \<le> k" "k < msg_len" for k
      using that b(4) c by (cases "k = i") auto
    moreover have "take i b = take i buf" using arg_cong [OF b(3), of "take i"] by simp
    ultimately show ?thesis using True 1(2) b(1,2) by (subst fill_msg.simps) auto
  qed (use 1 in \<open>auto simp: fill_msg.simps\<close>)
qed

subsection \<open>Properties\<close>

text \<open>
  The datagram pair reverses a line: whatever the user types (without a zero byte), the client sends its first 1023 bytes up to the
  newline, the server answers with exactly these bytes in reverse, although it swaps them with exclusive-or in place, and the client
  prints them with their number; no buffer is overrun and both programs close their socket.
\<close>

theorem udp_echo_reverses:
  assumes "0 \<notin> set line" and "msg = take (BUF_SIZE - 1) (takeWhile (\<lambda>b. b \<noteq> 10) line)"
    and "0 \<le> sa_socket a" and "0 \<le> sa_setsockopt a" and "0 \<le> sa_bind a" and "0 \<le> sr" and "0 \<le> sa_socket c" and "0 \<le> cr"
  shows "(\<exists>s. ex3s_main a (Got msg) sr = Inr (Done s) \<and> sr_sent s = [rev msg] \<and> sr_open s = []) \<and>
    ex3c_main c (Some line) cr (Got (rev msg)) = Inr (Done \<lparr>sr_sent = [msg],
      sr_out = [''Data sent: '', received_line (int (length msg)) (rev msg)], sr_open = []\<rparr>)"
proof -
  have clean: "0 \<notin> set msg" using assms(1,2) by (auto dest!: in_set_takeD set_takeWhileD)
  have len: "length msg < BUF_SIZE" using assms(2) by (simp add: BUF_SIZE_def)
  show ?thesis
    using ex3s_reply [OF clean len assms(3-6)] ex3c_run [of line msg "rev msg", OF assms(1,2) _ _ assms(7,8)] clean len by simp
qed

definition answers_up :: sock_answers where
  "answers_up = \<lparr>sa_socket = 3, sa_setsockopt = 0, sa_bind = 0, sa_listen = 0, sa_accept = 4, sa_connect = 0\<rparr>"

theorem udp_echo_reverses_witness:
  "ex3c_main answers_up (Some [97, 98, 99, 10]) 3 (Got [99, 98, 97]) = Inr (Done \<lparr>sr_sent = [[97, 98, 99]],
     sr_out = [''Data sent: '', ''Data received (3 bytes): [cba]'' @ nl], sr_open = []\<rparr>)"
proof -
  have "received_line 3 [99, 98, 97] = ''Data received (3 bytes): [cba]'' @ nl" by code_simp
  then show ?thesis
    using udp_echo_reverses [of "[97, 98, 99, 10]" "[97, 98, 99]" answers_up 3 answers_up 3]
    by (simp add: answers_up_def BUF_SIZE_def)
qed

text \<open>
  Over a connection that delivers every message whole, \<open>n\<close> rounds of the chat run without a fault on either side: the server's
  first message is a greeting and the others come from the table, and the client prints every message of the server unaltered,
  followed by its own reply, in order, and sends that reply.
\<close>

theorem chat_transcript:
  assumes "\<forall>r \<in> {sa_socket a, sa_bind a, sa_listen a, sa_accept a, sa_socket c, sa_connect c}. 0 \<le> r" and "\<forall>k. 0 \<le> w k"
    and "heard = (\<lambda>k. random_reply k (srnd k))" and "said = (\<lambda>k. random_reply k (crnd (3 * k + 1)))"
  shows "ex2s_main a srnd (map (\<lambda>k. (w k, Got (bytes_of (said k) @ [0]))) [0..<n]) =
      Inr (Done \<lparr>sr_sent = map (\<lambda>k. bytes_of (heard k) @ [0]) [0..<n], sr_out = replicate n ''.'', sr_open = [sa_socket a, sa_accept a]\<rparr>) \<and>
    ex2c_main c crnd (map (\<lambda>k. (Got (bytes_of (heard k) @ [0]), w k)) [0..<n]) =
      Inr (Done \<lparr>sr_sent = map (\<lambda>k. bytes_of (said k) @ [0]) [0..<n],
        sr_out = concat (map (\<lambda>k. [''Server: '' @ heard k @ nl, ''Client: '' @ said k @ nl]) [0..<n]), sr_open = [sa_socket c]\<rparr>) \<and>
    (\<forall>k. heard k \<in> (if k = 0 then set hi_arr else set chat_arr))"
proof (intro conjI)
  show "\<forall>k. heard k \<in> (if k = 0 then set hi_arr else set chat_arr)" unfolding assms(3) using random_reply_in by blast
  have up: "CHECK_RESULT [sa_socket a, sa_bind a, sa_listen a, sa_accept a] = Inr (Done ())"
    "CHECK_RESULT [sa_socket c, sa_connect c] = Inr (Done ())"
    using assms(1) by (intro CHECK_RESULT_ok; simp)+
  show "ex2s_main a srnd (map (\<lambda>k. (w k, Got (bytes_of (said k) @ [0]))) [0..<n]) =
      Inr (Done \<lparr>sr_sent = map (\<lambda>k. bytes_of (heard k) @ [0]) [0..<n], sr_out = replicate n ''.'', sr_open = [sa_socket a, sa_accept a]\<rparr>)"
    using ex2s_loop_sent [OF assms(2), of srnd 0 _ n] unfolding ex2s_main_def up assms(3) by simp
  have clean: "\<forall>k. 0 \<notin> set (bytes_of (heard k)) \<and> length (heard k) < 100" unfolding assms(3) using random_reply_clean by blast
  show "ex2c_main c crnd (map (\<lambda>k. (Got (bytes_of (heard k) @ [0]), w k)) [0..<n]) =
      Inr (Done \<lparr>sr_sent = map (\<lambda>k. bytes_of (said k) @ [0]) [0..<n],
        sr_out = concat (map (\<lambda>k. [''Server: '' @ heard k @ nl, ''Client: '' @ said k @ nl]) [0..<n]), sr_open = [sa_socket c]\<rparr>)"
    using ex2c_loop_transcript [OF length_clear_buf assms(2) clean, of crnd 0 n "\<lparr>sr_sent = [], sr_out = [], sr_open = [sa_socket c]\<rparr>"]
    unfolding ex2c_main_def up assms(4) by auto
qed

theorem chat_transcript_witness:
  "ex2c_main answers_up (\<lambda>_. 1) (map (\<lambda>k. (Got (bytes_of (random_reply k 0) @ [0]), 1)) [0..<2]) =
     Inr (Done \<lparr>sr_sent = [bytes_of ''Hello!'' @ [0], bytes_of ''You are damn right!'' @ [0]],
       sr_out = [''Server: Hi!'' @ nl, ''Client: Hello!'' @ nl, ''Server: Nice weather today!'' @ nl, ''Client: You are damn right!'' @ nl], sr_open = [3]\<rparr>)"
proof -
  have up: "\<forall>r \<in> {sa_socket answers_up, sa_bind answers_up, sa_listen answers_up, sa_accept answers_up, sa_socket answers_up,
      sa_connect answers_up}. 0 \<le> r" by (simp add: answers_up_def)
  have r: "random_reply 0 0 = ''Hi!''" "random_reply 1 0 = ''Nice weather today!''" "random_reply 0 1 = ''Hello!''"
    "random_reply 1 1 = ''You are damn right!''" by code_simp+
  have two: "[0..<2] = [0, 1 :: nat]" by (simp add: upt_rec)
  show ?thesis
    using chat_transcript [of answers_up answers_up "\<lambda>_. 1", OF up _ refl refl, of "\<lambda>_. 0" "\<lambda>_. 1" 2]
    unfolding two by (simp add: r [unfolded One_nat_def]) (simp add: answers_up_def)
qed

text \<open>
  The server of the random word sends between one and ten characters of its set, and a client that receives them prints
  exactly this word with its length, without a fault.
\<close>

theorem random_word_received:
  assumes "length buf0 = BUF_SIZE" and "\<forall>r \<in> {sa_socket a, sa_setsockopt a, sa_bind a, sa_listen a, sa_accept a, sa_socket c, sa_connect c, wr}. 0 \<le> r"
  shows "\<exists>word s. ex1s_main a wr rnd buf0 = Inr (Done s) \<and> sr_sent s = [word] \<and> sr_open s = [] \<and>
    1 \<le> length word \<and> length word \<le> 10 \<and> set word \<subseteq> set (bytes_of DEFAULT_SET) \<and>
    ex1c_main c (Got word) = Inr (Done \<lparr>sr_sent = [], sr_out = [received_line (int (length word)) word], sr_open = []\<rparr>)"
proof -
  let ?n = "1 + rnd 0 mod MAX_MSG_LEN"
  have n: "?n \<le> 10" using mod_less_divisor [of MAX_MSG_LEN "rnd 0"] by (simp add: MAX_MSG_LEN_def)
  then obtain b where b: "fill_msg rnd ?n 0 buf0 = Inr b" "length b = BUF_SIZE" "\<forall>k. 0 \<le> k \<and> k < ?n \<longrightarrow> b ! k \<in> set (bytes_of DEFAULT_SET)"
    using fill_msg_result [of ?n buf0 0 rnd] assms(1) by (auto simp: BUF_SIZE_def)
  let ?w = "take ?n b"
  have len: "length ?w = ?n" using b(2) n by (simp add: BUF_SIZE_def)
  have sub: "set ?w \<subseteq> set (bytes_of DEFAULT_SET)" using b(3) by (auto simp: in_set_conv_nth)
  have "(0 :: byte) \<notin> set (bytes_of DEFAULT_SET)" by code_simp
  then have clean: "0 \<notin> set ?w" using sub by blast
  have up: "CHECK_RESULT [sa_socket a, sa_setsockopt a, sa_bind a, sa_listen a, sa_accept a] = Inr (Done ())"
    "CHECK_RESULT [wr] = Inr (Done ())" "CHECK_RESULT [sa_socket c, sa_connect c, got_res (Got ?w)] = Inr (Done ())"
    using assms(2) by (intro CHECK_RESULT_ok; simp)+
  have "c_str (store (Got ?w) clear_buf) = Inr ?w"
    using c_str_front [OF clean] store_clear [of ?w] len n by (simp add: BUF_SIZE_def)
  then have "ex1c_main c (Got ?w) = Inr (Done \<lparr>sr_sent = [], sr_out = [received_line (int (length ?w)) ?w], sr_open = []\<rparr>)"
    unfolding ex1c_main_def up by simp
  moreover have "ex1s_main a wr rnd buf0 = Inr (Done \<lparr>sr_sent = [?w], sr_out = [], sr_open = []\<rparr>)"
    unfolding ex1s_main_def up Let_def b(1) by (simp add: up)
  ultimately show ?thesis using len n sub by (intro exI [of _ ?w]) simp
qed

end
