(* ===== verification/Malloc_Trace.thy ===== *)
theory Malloc_Trace
  imports C_Prelude
begin

section \<open>The allocation tracer (week3/03_preload/libmtr.c)\<close>

text \<open>
  \<^verbatim>\<open>src/week3/03_preload/libmtr.c\<close> stands in front of the C library's allocator. It looks the next definitions up with
  \<^verbatim>\<open>dlsym\<close>, serves what \<^verbatim>\<open>dlsym\<close> itself allocates from a static buffer of 1024 bytes, counts the calls of \<^verbatim>\<open>malloc\<close>
  and \<^verbatim>\<open>free\<close>, and compares the counters when the process ends. The allocator behind it is the record \<open>next_fns\<close> over
  an abstract heap; what \<^verbatim>\<open>dlsym\<close> requests before it answers, and whether it finds the symbol, is its field
  \<open>dl_sym\<close>. A block of that allocator never lies in the static buffer; the contents of such blocks are not modelled,
  and neither are the messages of a process that exits.
\<close>

subsection \<open>State\<close>

datatype mem_ptr = Null | Tmp nat | Block nat

datatype fn = FnMalloc | FnFree | FnCalloc | FnRealloc | FnMemalign

datatype dl_request = ReqMalloc size_t | ReqCalloc size_t size_t

record 'h next_fns =
  next_malloc :: "size_t \<Rightarrow> 'h \<Rightarrow> mem_ptr \<times> 'h"
  next_free :: "mem_ptr \<Rightarrow> 'h \<Rightarrow> 'h"
  next_calloc :: "size_t \<Rightarrow> size_t \<Rightarrow> 'h \<Rightarrow> mem_ptr \<times> 'h"
  next_realloc :: "mem_ptr \<Rightarrow> size_t \<Rightarrow> 'h \<Rightarrow> mem_ptr \<times> 'h"
  next_memalign :: "size_t \<Rightarrow> size_t \<Rightarrow> 'h \<Rightarrow> mem_ptr \<times> 'h"
  dl_sym :: "fn \<Rightarrow> dl_request list \<times> bool"

text \<open>The globals; \<open>mt_fns\<close> are the function pointers that are not null, \<open>mt_init\<close> is the static flag of \<^verbatim>\<open>malloc\<close>.\<close>

record 'h mtr =
  malloc_calls :: "64 word"
  free_calls :: "64 word"
  tmpbuff :: "byte list"
  tmppos :: "64 word"
  tmpallocs :: "64 word"
  mt_fns :: "fn list"
  mt_init :: bool
  mt_out :: "string list"
  mt_heap :: 'h

definition TMP_SIZE :: nat where "TMP_SIZE = 1024"

definition mtr0 :: "'h \<Rightarrow> 'h mtr" where
  "mtr0 h = \<lparr>malloc_calls = 0, free_calls = 0, tmpbuff = replicate TMP_SIZE 0, tmppos = 0, tmpallocs = 0, mt_fns = [],
     mt_init = False, mt_out = [], mt_heap = h\<rparr>"

definition say :: "string \<Rightarrow> 'h mtr \<Rightarrow> 'h mtr" where
  "say msg s = s\<lparr>mt_out := mt_out s @ [msg]\<rparr>"

subsection \<open>Writing to memory\<close>

definition memset0 :: "mem_ptr \<Rightarrow> size_t \<Rightarrow> 'h mtr \<Rightarrow> 'h mtr outcome cres" where
  "memset0 ptr n s = (case ptr of
       Null \<Rightarrow> Inl NullDeref
     | Block _ \<Rightarrow> Inr (Done s)
     | Tmp k \<Rightarrow>
         if TMP_SIZE < k + unat n then Inl OutOfBounds
         else Inr (Done (s\<lparr>tmpbuff := take k (tmpbuff s) @ replicate (unat n) 0 @ drop (k + unat n) (tmpbuff s)\<rparr>)))"

definition memmove_tmp :: "mem_ptr \<Rightarrow> mem_ptr \<Rightarrow> size_t \<Rightarrow> 'h mtr \<Rightarrow> 'h mtr outcome cres" where
  "memmove_tmp dst src n s = (case (dst, src) of
       (Tmp d, Tmp k) \<Rightarrow>
         if TMP_SIZE < d + unat n \<or> TMP_SIZE < k + unat n then Inl OutOfBounds
         else Inr (Done (s\<lparr>tmpbuff := take d (tmpbuff s) @ take (unat n) (drop k (tmpbuff s)) @ drop (d + unat n) (tmpbuff s)\<rparr>))
     | (Block _, Tmp k) \<Rightarrow> if TMP_SIZE < k + unat n then Inl OutOfBounds else Inr (Done s)
     | (Tmp d, Block _) \<Rightarrow> if TMP_SIZE < d + unat n then Inl OutOfBounds else Inr (Done s)
     | (Block _, Block _) \<Rightarrow> Inr (Done s)
     | _ \<Rightarrow> Inl NullDeref)"

subsection \<open>malloc and the look-up of the next definitions\<close>

definition temp_malloc :: "size_t \<Rightarrow> 'h mtr \<Rightarrow> (mem_ptr \<times> 'h mtr) outcome cres" where
  "temp_malloc n s =
     (if tmppos s + n < word_of_nat TMP_SIZE
      then Inr (Done (Tmp (unat (tmppos s)), s\<lparr>tmppos := tmppos s + n, tmpallocs := tmpallocs s + 1\<rparr>))
      else Inr (Exits 1))"

definition real_malloc :: "'h next_fns \<Rightarrow> size_t \<Rightarrow> 'h mtr \<Rightarrow> (mem_ptr \<times> 'h mtr) outcome cres" where
  "real_malloc nx n s =
     (case next_malloc nx n (mt_heap s) of (p, h) \<Rightarrow> Inr (Done (p, s\<lparr>mt_heap := h, malloc_calls := malloc_calls s + 1\<rparr>)))"

text \<open>\<^verbatim>\<open>malloc\<close> while the flag is set, as \<^verbatim>\<open>dlsym\<close> meets it.\<close>

definition malloc_nested :: "'h next_fns \<Rightarrow> size_t \<Rightarrow> 'h mtr \<Rightarrow> (mem_ptr \<times> 'h mtr) outcome cres" where
  "malloc_nested nx n s = (if FnMalloc \<in> set (mt_fns s) then real_malloc nx n s else temp_malloc n s)"

definition calloc_with ::
  "'h next_fns \<Rightarrow> (size_t \<Rightarrow> 'h mtr \<Rightarrow> (mem_ptr \<times> 'h mtr) outcome cres) \<Rightarrow> size_t \<Rightarrow> size_t \<Rightarrow> 'h mtr \<Rightarrow>
    (mem_ptr \<times> 'h mtr) outcome cres" where
  "calloc_with nx mal nmemb sz s =
     (if FnMalloc \<notin> set (mt_fns s) then
        bind_e (mal (nmemb * sz) s) (\<lambda>(ptr, s1).
          if ptr = Null then Inr (Done (ptr, s1))
          else bind_e (memset0 ptr (nmemb * sz) s1) (\<lambda>s2. Inr (Done (ptr, s2))))
      else if FnCalloc \<notin> set (mt_fns s) then Inl NullDeref
      else case next_calloc nx nmemb sz (mt_heap s) of (p, h) \<Rightarrow> Inr (Done (p, s\<lparr>mt_heap := h\<rparr>)))"

fun serve_requests ::
  "'h next_fns \<Rightarrow> (size_t \<Rightarrow> 'h mtr \<Rightarrow> (mem_ptr \<times> 'h mtr) outcome cres) \<Rightarrow> dl_request list \<Rightarrow> 'h mtr \<Rightarrow> 'h mtr outcome cres" where
  "serve_requests nx mal [] s = Inr (Done s)"
| "serve_requests nx mal (ReqMalloc n # rs) s = bind_e (mal n s) (\<lambda>(p, s'). serve_requests nx mal rs s')"
| "serve_requests nx mal (ReqCalloc k n # rs) s = bind_e (calloc_with nx mal k n s) (\<lambda>(p, s'). serve_requests nx mal rs s')"

text \<open>The assignments of \<^verbatim>\<open>init\<close>, in their order.\<close>

fun look_up ::
  "'h next_fns \<Rightarrow> (size_t \<Rightarrow> 'h mtr \<Rightarrow> (mem_ptr \<times> 'h mtr) outcome cres) \<Rightarrow> fn list \<Rightarrow> 'h mtr \<Rightarrow> 'h mtr outcome cres" where
  "look_up nx mal [] s = Inr (Done s)"
| "look_up nx mal (f # fs) s =
     bind_e (serve_requests nx mal (fst (dl_sym nx f)) s) (\<lambda>s'.
       look_up nx mal fs (s'\<lparr>mt_fns := (if snd (dl_sym nx f) then [f] else []) @ removeAll f (mt_fns s')\<rparr>))"

definition ALL_FNS :: "fn list" where
  "ALL_FNS = [FnMalloc, FnFree, FnCalloc, FnRealloc, FnMemalign]"

definition init_with ::
  "'h next_fns \<Rightarrow> (size_t \<Rightarrow> 'h mtr \<Rightarrow> (mem_ptr \<times> 'h mtr) outcome cres) \<Rightarrow> 'h mtr \<Rightarrow> 'h mtr outcome cres" where
  "init_with nx mal s =
     bind_e (look_up nx mal ALL_FNS s) (\<lambda>s'. if set ALL_FNS \<subseteq> set (mt_fns s') then Inr (Done s') else Inr (Exits 1))"

definition malloc_c :: "'h next_fns \<Rightarrow> size_t \<Rightarrow> 'h mtr \<Rightarrow> (mem_ptr \<times> 'h mtr) outcome cres" where
  "malloc_c nx n s =
     (if FnMalloc \<in> set (mt_fns s) then real_malloc nx n s
      else if mt_init s then temp_malloc n s
      else bind_e (init_with nx (malloc_nested nx) (s\<lparr>mt_init := True\<rparr>)) (\<lambda>s1.
        real_malloc nx n
          (if tmppos s1 \<noteq> 0
           then say (''libmtr: allocated '' @ show_dec (int (unat (tmppos s1))) @ '' bytes of temp memory in '' @
             show_dec (int (unat (tmpallocs s1))) @ '' chunks during initialization'' @ nl) (s1\<lparr>mt_init := False\<rparr>)
           else s1\<lparr>mt_init := False\<rparr>)))"

subsection \<open>The other entry points\<close>

definition in_tmpbuff :: "mem_ptr \<Rightarrow> 'h mtr \<Rightarrow> bool" where
  "in_tmpbuff ptr s = (case ptr of Tmp k \<Rightarrow> k \<le> unat (tmppos s) | _ \<Rightarrow> False)"

definition free_c :: "'h next_fns \<Rightarrow> mem_ptr \<Rightarrow> 'h mtr \<Rightarrow> 'h mtr outcome cres" where
  "free_c nx ptr s =
     bind_e (if FnMalloc \<in> set (mt_fns s) then Inr (Done s) else init_with nx (malloc_c nx) s) (\<lambda>s1.
       if in_tmpbuff ptr s1 then Inr (Done (say (''libmtr: freeing temp memory'' @ nl) s1))
       else if FnFree \<notin> set (mt_fns s1) then Inl NullDeref
       else Inr (Done (s1\<lparr>mt_heap := next_free nx ptr (mt_heap s1), free_calls := free_calls s1 + 1\<rparr>)))"

definition realloc_c :: "'h next_fns \<Rightarrow> mem_ptr \<Rightarrow> size_t \<Rightarrow> 'h mtr \<Rightarrow> (mem_ptr \<times> 'h mtr) outcome cres" where
  "realloc_c nx ptr n s =
     (if FnMalloc \<notin> set (mt_fns s) then
        bind_e (malloc_c nx n s) (\<lambda>(nptr, s1).
          if nptr \<noteq> Null \<and> ptr \<noteq> Null then
            bind_e (memmove_tmp nptr ptr n s1) (\<lambda>s2. bind_e (free_c nx ptr s2) (\<lambda>s3. Inr (Done (nptr, s3))))
          else Inr (Done (nptr, s1)))
      else if FnRealloc \<notin> set (mt_fns s) then Inl NullDeref
      else case next_realloc nx ptr n (mt_heap s) of (p, h) \<Rightarrow> Inr (Done (p, s\<lparr>mt_heap := h\<rparr>)))"

definition calloc_c :: "'h next_fns \<Rightarrow> size_t \<Rightarrow> size_t \<Rightarrow> 'h mtr \<Rightarrow> (mem_ptr \<times> 'h mtr) outcome cres" where
  "calloc_c nx = calloc_with nx (malloc_c nx)"

definition memalign_c :: "'h next_fns \<Rightarrow> size_t \<Rightarrow> size_t \<Rightarrow> 'h mtr \<Rightarrow> (mem_ptr \<times> 'h mtr) outcome cres" where
  "memalign_c nx blocksize bytes s =
     (if FnMemalign \<notin> set (mt_fns s) then Inl NullDeref
      else case next_memalign nx blocksize bytes (mt_heap s) of (p, h) \<Rightarrow> Inr (Done (p, s\<lparr>mt_heap := h\<rparr>)))"

definition deinitialize :: "'h mtr \<Rightarrow> 'h mtr" where
  "deinitialize s =
     (if malloc_calls s \<noteq> free_calls s
      then say (''libmtr: WARNING: number of calls to malloc() and free() differ! ['' @ show_dec (int (unat (malloc_calls s))) @
        '' vs '' @ show_dec (int (unat (free_calls s))) @ '']'' @ nl) s
      else s)"

subsection \<open>The static buffer\<close>

text \<open>What a sequence of requests receives while the flag is set, and where chunks laid side by side begin.\<close>

fun malloc_seq :: "'h next_fns \<Rightarrow> size_t list \<Rightarrow> 'h mtr \<Rightarrow> (mem_ptr list \<times> 'h mtr) outcome cres" where
  "malloc_seq nx [] s = Inr (Done ([], s))"
| "malloc_seq nx (n # ns) s =
     bind_e (malloc_c nx n s) (\<lambda>(p, s1). bind_e (malloc_seq nx ns s1) (\<lambda>(ps, s2). Inr (Done (p # ps, s2))))"

fun starts :: "nat \<Rightarrow> nat list \<Rightarrow> nat list" where
  "starts p [] = []"
| "starts p (n # ns) = p # starts (p + n) ns"

lemma malloc_nested_eq: "mt_init s \<Longrightarrow> malloc_c nx n s = malloc_nested nx n s"
  by (simp add: malloc_c_def malloc_nested_def)

lemma temp_malloc_fits:
  assumes "unat (tmppos s) < TMP_SIZE" and "unat n < 2 ^ 63"
  shows "temp_malloc n s = (if unat (tmppos s) + unat n < TMP_SIZE
    then Inr (Done (Tmp (unat (tmppos s)), s\<lparr>tmppos := word_of_nat (unat (tmppos s) + unat n), tmpallocs := tmpallocs s + 1\<rparr>))
    else Inr (Exits 1))"
proof -
  have sum: "tmppos s + n = word_of_nat (unat (tmppos s) + unat n)" by simp
  have "unat (tmppos s + n) = unat (tmppos s) + unat n"
    unfolding sum by (rule unat_size_t) (use assms in \<open>simp add: TMP_SIZE_def\<close>)
  then have "tmppos s + n < word_of_nat TMP_SIZE \<longleftrightarrow> unat (tmppos s) + unat n < TMP_SIZE"
    by (simp add: word_less_nat_alt TMP_SIZE_def)
  then show ?thesis by (simp only: temp_malloc_def) simp
qed

lemma malloc_seq_chunks:
  assumes "mt_init s" and "mt_fns s = []" and "unat (tmppos s) < TMP_SIZE" and "\<forall>n \<in> set ns. unat n < 2 ^ 63"
  shows "malloc_seq nx ns s = (if unat (tmppos s) + sum_list (map unat ns) < TMP_SIZE
    then Inr (Done (map Tmp (starts (unat (tmppos s)) (map unat ns)),
      s\<lparr>tmppos := word_of_nat (unat (tmppos s) + sum_list (map unat ns)), tmpallocs := tmpallocs s + word_of_nat (length ns)\<rparr>))
    else Inr (Exits 1))"
  using assms
proof (induction ns arbitrary: s)
  case Nil
  then show ?case by simp
next
  case (Cons n ns)
  have step: "malloc_c nx n s = temp_malloc n s" using Cons(2,3) by (simp add: malloc_c_def)
  show ?case
  proof (cases "unat (tmppos s) + unat n < TMP_SIZE")
    case True
    let ?s = "s\<lparr>tmppos := word_of_nat (unat (tmppos s) + unat n), tmpallocs := tmpallocs s + 1\<rparr>"
    have pos: "unat (tmppos ?s) = unat (tmppos s) + unat n"
      using unat_size_t [of "unat (tmppos s) + unat n"] True by (simp add: TMP_SIZE_def del: of_nat_add)
    have one: "malloc_c nx n s = Inr (Done (Tmp (unat (tmppos s)), ?s))"
      unfolding step using Cons(4,5) True by (simp add: temp_malloc_fits del: of_nat_add)
    have rest: "malloc_seq nx ns ?s = (if unat (tmppos ?s) + sum_list (map unat ns) < TMP_SIZE
      then Inr (Done (map Tmp (starts (unat (tmppos ?s)) (map unat ns)),
        ?s\<lparr>tmppos := word_of_nat (unat (tmppos ?s) + sum_list (map unat ns)), tmpallocs := tmpallocs ?s + word_of_nat (length ns)\<rparr>))
      else Inr (Exits 1))"
      by (rule Cons(1)) (use Cons(2,3,5) pos True in \<open>simp_all del: of_nat_add\<close>)
    show ?thesis unfolding malloc_seq.simps one bind_e_simps prod.case rest pos by (simp add: algebra_simps)
  next
    case False
    then have "malloc_c nx n s = Inr (Exits 1)" unfolding step using Cons(4,5) by (simp add: temp_malloc_fits)
    with False show ?thesis by simp
  qed
qed

lemma starts_disjoint:
  "i < j \<Longrightarrow> j < length ns \<Longrightarrow> starts p ns ! i + ns ! i \<le> starts p ns ! j \<and> starts p ns ! j + ns ! j \<le> p + sum_list ns"
proof (induction ns arbitrary: p i j)
  case (Cons n ns)
  have ge: "p + n \<le> starts (p + n) ns ! k \<and> starts (p + n) ns ! k + ns ! k \<le> p + n + sum_list ns" if "k < length ns" for k
    using that
  proof (induction ns arbitrary: p n k)
    case (Cons a as)
    show ?case
    proof (cases k)
      case (Suc k')
      then show ?thesis using Cons(1) [of k' "p + n" a] Cons(2) by simp
    qed simp
  qed simp
  obtain j' where j: "j = Suc j'" "j' < length ns" using Cons(2,3) by (cases j) auto
  show ?case
  proof (cases i)
    case 0
    then show ?thesis using j ge [of j'] by simp
  next
    case (Suc i')
    then show ?thesis using Cons(1) [of i' j' "p + n"] Cons(2) j by simp
  qed
qed simp

subsection \<open>Initialisation\<close>

fun req_bytes :: "dl_request \<Rightarrow> nat" where
  "req_bytes (ReqMalloc n) = unat n"
| "req_bytes (ReqCalloc k n) = unat k * unat n"

lemma temp_malloc_room:
  assumes "unat (tmppos s) + m < TMP_SIZE" and "m = unat n"
  shows "temp_malloc n s = Inr (Done (Tmp (unat (tmppos s)), s\<lparr>tmppos := word_of_nat (unat (tmppos s) + m), tmpallocs := tmpallocs s + 1\<rparr>))"
proof -
  have "unat n < 2 ^ 63" using assms by (simp add: TMP_SIZE_def)
  then show ?thesis using assms by (simp add: temp_malloc_fits del: of_nat_add)
qed

lemma unat_mult_room: "unat (k :: size_t) * unat (n :: size_t) < TMP_SIZE \<Longrightarrow> unat (k * n) = unat k * unat n"
  by (simp add: TMP_SIZE_def unat_word_ariths)

lemma serve_request_room:
  assumes "mt_fns s = []" and "unat (tmppos s) + req_bytes r < TMP_SIZE" and "length (tmpbuff s) = TMP_SIZE"
  shows "\<exists>b. length b = TMP_SIZE \<and> serve_requests nx (malloc_nested nx) (r # rs) s = serve_requests nx (malloc_nested nx) rs
    (s\<lparr>tmpbuff := b, tmppos := word_of_nat (unat (tmppos s) + req_bytes r), tmpallocs := tmpallocs s + 1\<rparr>)"
proof (cases r)
  case (ReqMalloc n)
  then show ?thesis
    using assms by (intro exI [of _ "tmpbuff s"]) (simp add: malloc_nested_def temp_malloc_room del: of_nat_add)
next
  case (ReqCalloc k n)
  let ?m = "unat k * unat n"
  let ?b = "take (unat (tmppos s)) (tmpbuff s) @ replicate ?m 0 @ drop (unat (tmppos s) + ?m) (tmpbuff s)"
  have m: "unat (k * n) = ?m" using assms(2) ReqCalloc by (intro unat_mult_room) simp
  have "malloc_nested nx (k * n) s =
      Inr (Done (Tmp (unat (tmppos s)), s\<lparr>tmppos := word_of_nat (unat (tmppos s) + ?m), tmpallocs := tmpallocs s + 1\<rparr>))"
    using assms(1,2) ReqCalloc m by (simp add: malloc_nested_def temp_malloc_room del: of_nat_add)
  then have "serve_requests nx (malloc_nested nx) (r # rs) s = serve_requests nx (malloc_nested nx) rs
      (s\<lparr>tmppos := word_of_nat (unat (tmppos s) + ?m), tmpallocs := tmpallocs s + 1, tmpbuff := ?b\<rparr>)"
    using assms(1,2) ReqCalloc m by (simp add: calloc_with_def memset0_def del: of_nat_add)
  moreover have "length ?b = TMP_SIZE" using assms(2,3) ReqCalloc by simp
  moreover have "s\<lparr>tmppos := a, tmpallocs := c, tmpbuff := ?b\<rparr> = s\<lparr>tmpbuff := ?b, tmppos := a, tmpallocs := c\<rparr>" for a c
    by simp
  ultimately show ?thesis using ReqCalloc by (intro exI [of _ ?b]) (simp only: req_bytes.simps simp_thms)
qed

lemma serve_requests_room:
  assumes "mt_fns s = []" and "unat (tmppos s) + sum_list (map req_bytes rs) < TMP_SIZE" and "length (tmpbuff s) = TMP_SIZE"
  shows "\<exists>b. length b = TMP_SIZE \<and> serve_requests nx (malloc_nested nx) rs s = Inr (Done
    (s\<lparr>tmpbuff := b, tmppos := word_of_nat (unat (tmppos s) + sum_list (map req_bytes rs)), tmpallocs := tmpallocs s + word_of_nat (length rs)\<rparr>))"
  using assms
proof (induction rs arbitrary: s)
  case Nil
  then show ?case by (intro exI [of _ "tmpbuff s"]) simp
next
  case (Cons r rs)
  have room: "unat (tmppos s) + req_bytes r < TMP_SIZE" using Cons(3) by simp
  obtain b where b: "length b = TMP_SIZE" "serve_requests nx (malloc_nested nx) (r # rs) s = serve_requests nx (malloc_nested nx) rs
      (s\<lparr>tmpbuff := b, tmppos := word_of_nat (unat (tmppos s) + req_bytes r), tmpallocs := tmpallocs s + 1\<rparr>)"
    using serve_request_room [OF Cons(2) room Cons(4), of nx rs] by blast
  let ?s = "s\<lparr>tmpbuff := b, tmppos := word_of_nat (unat (tmppos s) + req_bytes r), tmpallocs := tmpallocs s + 1\<rparr>"
  have pos: "unat (tmppos ?s) = unat (tmppos s) + req_bytes r"
    using unat_size_t [of "unat (tmppos s) + req_bytes r"] room by (simp add: TMP_SIZE_def del: of_nat_add)
  obtain b' where "length b' = TMP_SIZE" "serve_requests nx (malloc_nested nx) rs ?s = Inr (Done
      (?s\<lparr>tmpbuff := b', tmppos := word_of_nat (unat (tmppos ?s) + sum_list (map req_bytes rs)),
        tmpallocs := tmpallocs ?s + word_of_nat (length rs)\<rparr>))"
    using Cons(1) [of ?s] Cons(2,3) b(1) pos by (auto simp del: of_nat_add)
  then show ?case
    unfolding b(2) pos by (intro exI [of _ b']) (simp add: algebra_simps)
qed

text \<open>\<^verbatim>\<open>dlsym\<close> as the C library has it: it finds the five symbols, and only the first look-up allocates.\<close>

definition usual_dlsym :: "'h next_fns \<Rightarrow> bool" where
  "usual_dlsym nx \<longleftrightarrow> (\<forall>f. snd (dl_sym nx f)) \<and> (\<forall>f. f \<noteq> FnMalloc \<longrightarrow> fst (dl_sym nx f) = [])"

definition dl_bytes :: "'h next_fns \<Rightarrow> nat" where
  "dl_bytes nx = sum_list (map req_bytes (fst (dl_sym nx FnMalloc)))"

definition ready :: "'h mtr \<Rightarrow> bool" where
  "ready s \<longleftrightarrow> set (mt_fns s) = set ALL_FNS \<and> \<not> mt_init s"

lemma first_malloc:
  assumes "usual_dlsym nx" and "dl_bytes nx < TMP_SIZE"
  shows "\<exists>p s. malloc_c nx n (mtr0 h) = Inr (Done (p, s)) \<and> ready s \<and> malloc_calls s = 1 \<and> free_calls s = 0 \<and>
    unat (tmppos s) = dl_bytes nx \<and> (p, mt_heap s) = next_malloc nx n h"
proof -
  let ?s0 = "(mtr0 h)\<lparr>mt_init := True\<rparr>" and ?rs = "fst (dl_sym nx FnMalloc)"
  have pos0: "unat (tmppos ?s0) = 0" and fns0: "mt_fns ?s0 = []" and len0: "length (tmpbuff ?s0) = TMP_SIZE"
    by (simp_all add: mtr0_def)
  have room: "unat (tmppos ?s0) + sum_list (map req_bytes ?rs) < TMP_SIZE"
    using assms(2) by (simp only: pos0 dl_bytes_def add_0)
  obtain b where b: "serve_requests nx (malloc_nested nx) ?rs ?s0 = Inr (Done
      (?s0\<lparr>tmpbuff := b, tmppos := word_of_nat (dl_bytes nx), tmpallocs := tmpallocs ?s0 + word_of_nat (length ?rs)\<rparr>))"
    using serve_requests_room [OF fns0 room len0, of nx] unfolding pos0 add_0 dl_bytes_def by blast
  have none: "fst (dl_sym nx f) = []" if "f \<noteq> FnMalloc" for f
    using assms(1) that by (simp add: usual_dlsym_def)
  have found: "snd (dl_sym nx f)" for f using assms(1) by (simp add: usual_dlsym_def)
  have "init_with nx (malloc_nested nx) ?s0 = Inr (Done
      (?s0\<lparr>tmpbuff := b, tmppos := word_of_nat (dl_bytes nx), tmpallocs := tmpallocs ?s0 + word_of_nat (length ?rs), mt_fns := rev ALL_FNS\<rparr>))"
    unfolding init_with_def ALL_FNS_def look_up.simps b bind_e_simps
    by (simp add: none found mtr0_def del: of_nat_add)
  moreover have "unat (word_of_nat (dl_bytes nx) :: 64 word) = dl_bytes nx"
    using assms(2) by (intro unat_size_t) (simp add: TMP_SIZE_def)
  moreover from this have "(word_of_nat (dl_bytes nx) :: 64 word) = 0 \<longrightarrow> dl_bytes nx = 0" by (metis unat_0)
  ultimately show ?thesis
    by (simp add: malloc_c_def real_malloc_def mtr0_def ready_def say_def split: prod.split)
qed

subsection \<open>Counting\<close>

datatype mtr_op = OpMalloc size_t | OpFree mem_ptr | OpCalloc size_t size_t | OpRealloc mem_ptr size_t | OpMemalign size_t size_t

fun run_op :: "'h next_fns \<Rightarrow> mtr_op \<Rightarrow> 'h mtr \<Rightarrow> 'h mtr outcome cres" where
  "run_op nx (OpMalloc n) s = bind_e (malloc_c nx n s) (\<lambda>(_, s'). Inr (Done s'))"
| "run_op nx (OpFree p) s = free_c nx p s"
| "run_op nx (OpCalloc k n) s = bind_e (calloc_c nx k n s) (\<lambda>(_, s'). Inr (Done s'))"
| "run_op nx (OpRealloc p n) s = bind_e (realloc_c nx p n s) (\<lambda>(_, s'). Inr (Done s'))"
| "run_op nx (OpMemalign b n) s = bind_e (memalign_c nx b n s) (\<lambda>(_, s'). Inr (Done s'))"

fun run_ops :: "'h next_fns \<Rightarrow> mtr_op list \<Rightarrow> 'h mtr \<Rightarrow> 'h mtr outcome cres" where
  "run_ops nx [] s = Inr (Done s)"
| "run_ops nx (o1 # ops) s = bind_e (run_op nx o1 s) (run_ops nx ops)"

fun is_malloc :: "mtr_op \<Rightarrow> bool" where
  "is_malloc (OpMalloc n) = True"
| "is_malloc _ = False"

text \<open>The calls of \<^verbatim>\<open>free\<close> that are counted: all but those inside the first \<open>t\<close> bytes of the static buffer.\<close>

fun is_free :: "nat \<Rightarrow> mtr_op \<Rightarrow> bool" where
  "is_free t (OpFree p) = (case p of Tmp k \<Rightarrow> t < k | _ \<Rightarrow> True)"
| "is_free t _ = False"

lemma ready_upd [simp]:
  "ready (s\<lparr>mt_heap := h\<rparr>) = ready s" "ready (s\<lparr>malloc_calls := n\<rparr>) = ready s" "ready (s\<lparr>free_calls := n\<rparr>) = ready s"
  "ready (say msg s) = ready s"
  by (simp_all add: ready_def say_def)

lemma say_frame [simp]:
  "malloc_calls (say msg s) = malloc_calls s" "free_calls (say msg s) = free_calls s" "tmppos (say msg s) = tmppos s"
  "mt_fns (say msg s) = mt_fns s"
  by (simp_all add: say_def)

lemma ready_fns: "ready s \<Longrightarrow> f \<in> set (mt_fns s)"
  by (cases f) (simp_all add: ready_def ALL_FNS_def)

lemma run_op_ready:
  assumes "ready s"
  shows "\<exists>s'. run_op nx o1 s = Inr (Done s') \<and> ready s' \<and> tmppos s' = tmppos s \<and>
    malloc_calls s' = malloc_calls s + (if is_malloc o1 then 1 else 0) \<and>
    free_calls s' = free_calls s + (if is_free (unat (tmppos s)) o1 then 1 else 0)"
proof (cases o1)
  case (OpFree p)
  show ?thesis
  proof (cases p)
    case (Tmp k)
    then show ?thesis using assms OpFree by (simp add: free_c_def in_tmpbuff_def ready_fns)
  qed (use assms OpFree in \<open>simp_all add: free_c_def in_tmpbuff_def ready_fns\<close>)
qed (use assms in \<open>simp_all add: malloc_c_def real_malloc_def calloc_c_def calloc_with_def realloc_c_def memalign_c_def ready_fns
      split: prod.split\<close>)

lemma run_ops_ready:
  assumes "ready s"
  shows "\<exists>s'. run_ops nx ops s = Inr (Done s') \<and> ready s' \<and> tmppos s' = tmppos s \<and>
    malloc_calls s' = malloc_calls s + word_of_nat (length (filter is_malloc ops)) \<and>
    free_calls s' = free_calls s + word_of_nat (length (filter (is_free (unat (tmppos s))) ops))"
  using assms
proof (induction ops arbitrary: s)
  case (Cons o1 ops)
  obtain s1 where "run_op nx o1 s = Inr (Done s1)" "ready s1" "tmppos s1 = tmppos s"
    "malloc_calls s1 = malloc_calls s + (if is_malloc o1 then 1 else 0)"
    "free_calls s1 = free_calls s + (if is_free (unat (tmppos s)) o1 then 1 else 0)"
    using run_op_ready [OF Cons(2)] by blast
  with Cons(1) [of s1] show ?case by (auto simp: algebra_simps)
qed simp

lemma temp_malloc_wraps:
  assumes "mt_init s" and "mt_fns s = []" and "unat (tmppos s) < TMP_SIZE" and "0 < k" and "k \<le> unat (tmppos s)"
  shows "malloc_c nx (- word_of_nat k) s =
    Inr (Done (Tmp (unat (tmppos s)), s\<lparr>tmppos := word_of_nat (unat (tmppos s) - k), tmpallocs := tmpallocs s + 1\<rparr>))"
proof -
  have diff: "tmppos s + - word_of_nat k = word_of_nat (unat (tmppos s) - k)"
    using assms(5) by (simp add: of_nat_diff)
  have "unat (word_of_nat (unat (tmppos s) - k) :: 64 word) = unat (tmppos s) - k"
    using assms(3) by (intro unat_size_t) (simp add: TMP_SIZE_def)
  then have "tmppos s + - word_of_nat k < word_of_nat TMP_SIZE"
    unfolding diff word_less_nat_alt using assms(3) by (simp add: TMP_SIZE_def)
  then show ?thesis using assms(1,2) by (simp only: malloc_c_def temp_malloc_def diff list.set empty_iff if_True if_False)
qed

lemma size_t_eq_iff: "(word_of_nat a :: 64 word) = word_of_nat b \<longleftrightarrow> a mod 2 ^ 64 = b mod 2 ^ 64"
  by (simp add: word_of_nat_eq_iff take_bit_eq_mod)

lemma deinitialize_quiet: "deinitialize s = s \<longleftrightarrow> malloc_calls s = free_calls s"
proof
  assume "deinitialize s = s"
  then have out: "mt_out (deinitialize s) = mt_out s" by simp
  show "malloc_calls s = free_calls s"
  proof (rule ccontr)
    assume "malloc_calls s \<noteq> free_calls s"
    then have "length (mt_out (deinitialize s)) = Suc (length (mt_out s))" by (simp only: deinitialize_def if_True not_False_eq_True say_def) simp
    with out show False by simp
  qed
qed (simp add: deinitialize_def)

subsection \<open>Properties\<close>


definition nx0 :: "unit next_fns" where
  "nx0 = \<lparr>next_malloc = \<lambda>n h. (Block 0, h), next_free = \<lambda>p h. h, next_calloc = \<lambda>k n h. (Block 0, h), next_realloc = \<lambda>p n h. (Block 0, h),
     next_memalign = \<lambda>b n h. (Block 0, h), dl_sym = \<lambda>f. (if f = FnMalloc then [ReqCalloc 1 32] else [], True)\<rparr>"


text \<open>
  For every process whose first request is \<^verbatim>\<open>malloc\<close>, when \<^verbatim>\<open>dlsym\<close> behaves as in the C library and needs less than 1024
  bytes, no call faults or exits, and the tracer warns at the end exactly when the number of calls of \<^verbatim>\<open>malloc\<close> and the number of calls of
  \<^verbatim>\<open>free\<close> outside its static buffer differ modulo \<open>2 ^ 64\<close>: calls of \<^verbatim>\<open>calloc\<close>, \<^verbatim>\<open>realloc\<close> and \<^verbatim>\<open>memalign\<close> do not count.
\<close>

theorem tracer_warns_iff:
  assumes "usual_dlsym nx" and "dl_bytes nx < TMP_SIZE"
  shows "\<exists>s. run_ops nx (OpMalloc n # ops) (mtr0 h) = Inr (Done s) \<and>
    (deinitialize s = s \<longleftrightarrow>
      (Suc (length (filter is_malloc ops)) mod 2 ^ 64 = length (filter (is_free (dl_bytes nx)) ops) mod 2 ^ 64))"
proof -
  obtain p s1 where s1: "malloc_c nx n (mtr0 h) = Inr (Done (p, s1))" "ready s1" "malloc_calls s1 = 1" "free_calls s1 = 0"
    "unat (tmppos s1) = dl_bytes nx"
    using first_malloc [OF assms, of n h] by blast
  obtain s where s: "run_ops nx ops s1 = Inr (Done s)" "malloc_calls s = word_of_nat (Suc (length (filter is_malloc ops)))"
    "free_calls s = word_of_nat (length (filter (is_free (dl_bytes nx)) ops))"
    using run_ops_ready [OF s1(2), of nx ops] s1(3-5) by auto
  have "deinitialize s = s \<longleftrightarrow> malloc_calls s = free_calls s" by (rule deinitialize_quiet)
  also have "\<dots> \<longleftrightarrow> Suc (length (filter is_malloc ops)) mod 2 ^ 64 = length (filter (is_free (dl_bytes nx)) ops) mod 2 ^ 64"
    unfolding s(2,3) by (rule size_t_eq_iff)
  finally show ?thesis using s1(1) s(1) by simp
qed

theorem tracer_warns_iff_witness:
  "\<exists>s. run_ops nx0 [OpMalloc 8, OpCalloc 1 8, OpFree (Block 0), OpFree (Block 1)] (mtr0 ()) = Inr (Done s) \<and> deinitialize s \<noteq> s"
proof -
  have "usual_dlsym nx0" "dl_bytes nx0 < TMP_SIZE" by (simp_all add: usual_dlsym_def dl_bytes_def nx0_def TMP_SIZE_def)
  from tracer_warns_iff [OF this, of 8 "[OpCalloc 1 8, OpFree (Block 0), OpFree (Block 1)]" "()"] show ?thesis by auto
qed

end
