(* ===== verification/Db_Model.thy ===== *)
theory Db_Model
  imports C_Prelude
begin

section \<open>The database library (apue.3e/db/db.c)\<close>

text \<open>
  \<^verbatim>\<open>src/literature/apue3e/apue.3e/db/db.c\<close>: a library of keyed records in two files. The index file starts with the head of a
  free list and a hash table of chain pointers, all in decimal; index records follow, each with the pointer to the next
  record of its chain, its length, the key, and the offset and the length of its data record in the data file.

  The state is the C structure \<^verbatim>\<open>DB\<close> together with the contents of the two files, the file offset of the index
  descriptor (the data descriptor is positioned before each use), and the record locks that the process holds. The buffers
  \<^verbatim>\<open>idxbuf\<close> and \<^verbatim>\<open>datbuf\<close> are represented by the C string at their front. System calls on the files succeed, a read stops at the end of the file, and a
  lock is granted at once: the library is seen from one process. \<^verbatim>\<open>err_dump\<close> ends the process with \<^verbatim>\<open>abort\<close>, here \<open>Exits 134\<close>,
  and \<^verbatim>\<open>err_quit\<close> with 1. A search along a chain that has more steps than the index file has bytes is on a cycle and never returns.
\<close>

subsection \<open>Constants\<close>

definition IDXLEN_SZ :: nat where "IDXLEN_SZ = 4"
definition PTR_SZ :: nat where "PTR_SZ = 7"
definition PTR_MAX :: int where "PTR_MAX = 9999999"
definition NHASH_DEF :: nat where "NHASH_DEF = 137"
definition FREE_OFF :: int where "FREE_OFF = 0"
definition HASH_OFF :: int where "HASH_OFF = 7"
definition IDXLEN_MIN :: nat where "IDXLEN_MIN = 6"
definition IDXLEN_MAX :: nat where "IDXLEN_MAX = 1024"
definition DATLEN_MIN :: nat where "DATLEN_MIN = 2"
definition DATLEN_MAX :: nat where "DATLEN_MAX = 1024"

definition SEP :: char where "SEP = CHR '':''"
definition NUL :: char where "NUL = CHR 0x00"
definition NEWLINE :: char where "NEWLINE = CHR 0x0A"
definition SPACE :: char where "SPACE = CHR '' ''"

datatype whence = SEEK_SET | SEEK_END
datatype store_flag = DB_INSERT | DB_REPLACE | DB_STORE | BadFlag

lemmas db_consts = IDXLEN_SZ_def PTR_SZ_def PTR_MAX_def NHASH_DEF_def FREE_OFF_def HASH_OFF_def IDXLEN_MIN_def IDXLEN_MAX_def
  DATLEN_MIN_def DATLEN_MAX_def

lemmas db_chars = SEP_def NUL_def NEWLINE_def SPACE_def

subsection \<open>State\<close>

text \<open>A lock: in the index or the data file, its start and its length.\<close>

datatype db_file = IdxFile | DatFile
type_synonym db_lock = "db_file \<times> int \<times> nat"

record db =
  db_idx :: string
  db_dat :: string
  db_pos :: nat
  idxbuf :: string
  datbuf :: string
  db_name :: string
  idxoff :: int
  idxlen :: nat
  datoff :: int
  datlen :: nat
  ptrval :: int
  ptroff :: int
  chainoff :: int
  hashoff :: int
  nhash :: nat
  cnt_delok :: "64 word"
  cnt_delerr :: "64 word"
  cnt_fetchok :: "64 word"
  cnt_fetcherr :: "64 word"
  cnt_nextrec :: "64 word"
  cnt_stor1 :: "64 word"
  cnt_stor2 :: "64 word"
  cnt_stor3 :: "64 word"
  cnt_stor4 :: "64 word"
  cnt_storerr :: "64 word"
  db_locks :: "db_lock list"

type_synonym 'a dbres = "('a \<times> db) outcome cres"

definition err_dump :: "'a dbres" where "err_dump = Inr (Exits 134)"
definition err_quit :: "'a dbres" where "err_quit = Inr (Exits 1)"
definition return_db :: "'a \<Rightarrow> db \<Rightarrow> 'a dbres" where "return_db x d = Inr (Done (x, d))"

definition lock_db :: "db_lock \<Rightarrow> db \<Rightarrow> db" where
  "lock_db l d = d\<lparr>db_locks := l # db_locks d\<rparr>"

definition unlock_db :: "db_lock \<Rightarrow> db \<Rightarrow> db" where
  "unlock_db l d = d\<lparr>db_locks := removeAll l (db_locks d)\<rparr>"

subsection \<open>Numbers and strings in the files\<close>

definition atol :: "string \<Rightarrow> int" where
  "atol s = fst (strtoll_c 10 s)"

text \<open>The conversion \<^verbatim>\<open>%*lld\<close> with a width.\<close>

definition pad :: "nat \<Rightarrow> string \<Rightarrow> string" where
  "pad n s = replicate (n - length s) SPACE @ s"

definition cstr :: "string \<Rightarrow> string" where
  "cstr s = takeWhile (\<lambda>c. c \<noteq> NUL) s"

text \<open>The string cut at its first separator, as \<^verbatim>\<open>strchr\<close> and the store of a null byte do it.\<close>

definition split_sep :: "string \<Rightarrow> (string \<times> string) option" where
  "split_sep s = (if SEP \<in> set s then Some (takeWhile (\<lambda>c. c \<noteq> SEP) s, tl (dropWhile (\<lambda>c. c \<noteq> SEP) s)) else None)"

definition pread :: "string \<Rightarrow> nat \<Rightarrow> nat \<Rightarrow> string" where
  "pread f off n = take n (drop off f)"

definition pwrite :: "string \<Rightarrow> nat \<Rightarrow> string \<Rightarrow> string" where
  "pwrite f off s = take off (f @ replicate (off - length f) NUL) @ s @ drop (off + length s) f"

subsection \<open>Chain pointers and records\<close>

definition db_readptr :: "int \<Rightarrow> db \<Rightarrow> int dbres" where
  "db_readptr off d =
     (if off < 0 then err_dump
      else let asciiptr = pread (db_idx d) (nat off) PTR_SZ in
        if length asciiptr \<noteq> PTR_SZ then err_dump
        else return_db (atol asciiptr) (d\<lparr>db_pos := nat off + PTR_SZ\<rparr>))"

definition db_writeptr :: "int \<Rightarrow> int \<Rightarrow> db \<Rightarrow> unit dbres" where
  "db_writeptr off ptr d =
     (if ptr < 0 \<or> PTR_MAX < ptr then err_quit
      else if off < 0 then err_dump
      else return_db () (d\<lparr>db_idx := pwrite (db_idx d) (nat off) (pad PTR_SZ (show_dec ptr)), db_pos := nat off + PTR_SZ\<rparr>))"

text \<open>The checks on an index record that has been read: its key and the offset and length of its data.\<close>

definition parse_record :: "string \<Rightarrow> (string \<times> int \<times> nat) option" where
  "parse_record body =
     (if last body \<noteq> NEWLINE then None
      else case split_sep (cstr (butlast body)) of
        None \<Rightarrow> None
      | Some (key, ptr1) \<Rightarrow>
        (case split_sep ptr1 of
          None \<Rightarrow> None
        | Some (off, ptr2) \<Rightarrow>
            if SEP \<in> set ptr2 then None
            else if atol off < 0 then None
            else if atol ptr2 \<le> 0 \<or> int DATLEN_MAX < atol ptr2 then None
            else Some (key, atol off, nat (atol ptr2))))"

text \<open>With offset 0 the record at the current file offset is read, and -1 stands for the end of the file.\<close>

definition db_readidx :: "int \<Rightarrow> db \<Rightarrow> int dbres" where
  "db_readidx offset d =
     (if offset < 0 then err_dump
      else
        let off = (if offset = 0 then db_pos d else nat offset);
            front = pread (db_idx d) off (PTR_SZ + IDXLEN_SZ);
            d1 = d\<lparr>idxoff := int off, db_pos := off + length front\<rparr>
        in if length front \<noteq> PTR_SZ + IDXLEN_SZ then
             if front = [] \<and> offset = 0 then return_db (-1) d1 else err_dump
           else
             let ptr = atol (take PTR_SZ front); len = atol (drop PTR_SZ front) in
             if len < int IDXLEN_MIN \<or> int IDXLEN_MAX < len then err_dump
             else
               let body = pread (db_idx d) (off + PTR_SZ + IDXLEN_SZ) (nat len) in
               if length body \<noteq> nat len then err_dump
               else (case parse_record body of
                   None \<Rightarrow> err_dump
                 | Some (key, doff, dlen) \<Rightarrow>
                     return_db ptr (d1\<lparr>ptrval := ptr, idxlen := nat len, db_pos := off + PTR_SZ + IDXLEN_SZ + nat len,
                       idxbuf := key, datoff := doff, datlen := dlen\<rparr>)))"

definition db_readdat :: "db \<Rightarrow> string dbres" where
  "db_readdat d =
     (let s = pread (db_dat d) (nat (datoff d)) (datlen d) in
      if datoff d < 0 \<or> length s \<noteq> datlen d then err_dump
      else if s = [] \<or> last s \<noteq> NEWLINE then err_dump
      else return_db (cstr (butlast s)) (d\<lparr>datbuf := cstr (butlast s)\<rparr>))"

definition db_writedat :: "string \<Rightarrow> int \<Rightarrow> whence \<Rightarrow> db \<Rightarrow> unit dbres" where
  "db_writedat data offset wh d =
     (let l = (DatFile, 0, 0);
          d1 = (if wh = SEEK_END then lock_db l d else d);
          off = (if wh = SEEK_END then int (length (db_dat d)) + offset else offset)
      in if off < 0 then err_dump
         else
           let d2 = d1\<lparr>datoff := off, datlen := length data + 1, db_dat := pwrite (db_dat d) (nat off) (data @ [NEWLINE])\<rparr>
           in return_db () (if wh = SEEK_END then unlock_db l d2 else d2))"

definition idx_body :: "string \<Rightarrow> int \<Rightarrow> nat \<Rightarrow> string" where
  "idx_body key off len = key @ [SEP] @ show_dec off @ [SEP] @ show_dec (int len) @ [NEWLINE]"

text \<open>
  \<^verbatim>\<open>_db_writeidx\<close> prints the record into \<^verbatim>\<open>idxbuf\<close>, a block of \<^verbatim>\<open>IDXLEN_MAX + 2\<close> bytes, before it checks its length. When \<^verbatim>\<open>_db_dodelete\<close>
  calls it, the key that is printed is the text at the front of the same buffer; it is taken to be printed as it was, which is what
  the C library does with an argument that is copied onto itself.
\<close>

definition db_writeidx :: "string \<Rightarrow> int \<Rightarrow> whence \<Rightarrow> int \<Rightarrow> db \<Rightarrow> unit dbres" where
  "db_writeidx key offset wh ptr d =
     (if ptr < 0 \<or> PTR_MAX < ptr then err_quit
      else
        let body = idx_body key (datoff d) (datlen d); len = length body in
        if IDXLEN_MAX + 2 < len + 1 then Inl BufferOverflow
        else if len < IDXLEN_MIN \<or> IDXLEN_MAX < len then err_dump
        else
          let l = (IdxFile, int ((nhash d + 1) * PTR_SZ + 1), 0);
              d1 = (if wh = SEEK_END then lock_db l d else d);
              off = (if wh = SEEK_END then int (length (db_idx d)) + offset else offset);
              rec = pad PTR_SZ (show_dec ptr) @ pad IDXLEN_SZ (show_dec (int len)) @ body
          in if off < 0 then err_dump
             else
               let d2 = d1\<lparr>ptrval := ptr, idxbuf := body, idxoff := off, db_idx := pwrite (db_idx d) (nat off) rec,
                     db_pos := nat off + length rec\<rparr>
               in return_db () (if wh = SEEK_END then unlock_db l d2 else d2))"

subsection \<open>Finding a record\<close>

definition schar :: "char \<Rightarrow> int" where
  "schar c = (let n = int (of_char c) in if n < 128 then n else n - 256)"

text \<open>The loop of \<^verbatim>\<open>_db_hash\<close>; the product is an \<^verbatim>\<open>int\<close>, which keys of less than \<open>2 ^ 24\<close> characters do not overflow.\<close>

fun hash_loop :: "string \<Rightarrow> int \<Rightarrow> 64 word \<Rightarrow> 64 word" where
  "hash_loop [] i hval = hval"
| "hash_loop (c # key) i hval = hash_loop key (i + 1) (hval + word_of_int (schar c * i))"

definition db_hash :: "db \<Rightarrow> string \<Rightarrow> nat" where
  "db_hash d key = unat (hash_loop key 1 0 mod word_of_nat (nhash d))"

fun find_loop :: "nat \<Rightarrow> string \<Rightarrow> int \<Rightarrow> db \<Rightarrow> int dbres" where
  "find_loop fuel key offset d =
     (if offset = 0 then return_db 0 d
      else case fuel of
        0 \<Rightarrow> Inr Diverges
      | Suc n \<Rightarrow>
          bind_e (db_readidx offset d) (\<lambda>(nextoffset, d1).
            if idxbuf d1 = key then return_db offset d1
            else find_loop n key nextoffset (d1\<lparr>ptroff := offset\<rparr>)))"

declare find_loop.simps [simp del]

definition chain_lock :: "db \<Rightarrow> db_lock" where
  "chain_lock d = (IdxFile, chainoff d, 1)"

definition db_find_and_lock :: "string \<Rightarrow> db \<Rightarrow> int dbres" where
  "db_find_and_lock key d =
     (let off = int (db_hash d key * PTR_SZ) + hashoff d;
          d1 = d\<lparr>chainoff := off, ptroff := off\<rparr>;
          d2 = lock_db (chain_lock d1) d1
      in bind_e (db_readptr (ptroff d2) d2) (\<lambda>(offset, d3).
         bind_e (find_loop (length (db_idx d3)) key offset d3) (\<lambda>(found, d4).
           return_db (if found = 0 then -1 else 0) d4)))"

definition db_fetch :: "string \<Rightarrow> db \<Rightarrow> string option dbres" where
  "db_fetch key d =
     bind_e (db_find_and_lock key d) (\<lambda>(rc, d1).
       if rc < 0 then
         let d2 = d1\<lparr>cnt_fetcherr := cnt_fetcherr d1 + 1\<rparr> in return_db None (unlock_db (chain_lock d2) d2)
       else bind_e (db_readdat d1) (\<lambda>(ptr, d2).
         let d3 = d2\<lparr>cnt_fetchok := cnt_fetchok d2 + 1\<rparr> in return_db (Some ptr) (unlock_db (chain_lock d3) d3)))"

subsection \<open>Deleting\<close>

definition free_lock :: db_lock where
  "free_lock = (IdxFile, FREE_OFF, 1)"

definition db_dodelete :: "db \<Rightarrow> unit dbres" where
  "db_dodelete d =
     (let d1 = lock_db free_lock (d\<lparr>datbuf := replicate (datlen d - 1) SPACE, idxbuf := replicate (length (idxbuf d)) SPACE\<rparr>) in
      bind_e (db_writedat (datbuf d1) (datoff d1) SEEK_SET d1) (\<lambda>(_, d2).
      bind_e (db_readptr FREE_OFF d2) (\<lambda>(freeptr, d3).
      let saveptr = ptrval d3 in
      bind_e (db_writeidx (idxbuf d3) (idxoff d3) SEEK_SET freeptr d3) (\<lambda>(_, d4).
      bind_e (db_writeptr FREE_OFF (idxoff d4) d4) (\<lambda>(_, d5).
      bind_e (db_writeptr (ptroff d5) saveptr d5) (\<lambda>(_, d6).
        return_db () (unlock_db free_lock d6)))))))"

definition db_delete :: "string \<Rightarrow> db \<Rightarrow> int dbres" where
  "db_delete key d =
     bind_e (db_find_and_lock key d) (\<lambda>(rc, d1).
       if rc = 0 then
         bind_e (db_dodelete d1) (\<lambda>(_, d2).
           let d3 = d2\<lparr>cnt_delok := cnt_delok d2 + 1\<rparr> in return_db 0 (unlock_db (chain_lock d3) d3))
       else
         let d2 = d1\<lparr>cnt_delerr := cnt_delerr d1 + 1\<rparr> in return_db (-1) (unlock_db (chain_lock d2) d2))"

subsection \<open>Storing\<close>

fun findfree_loop :: "nat \<Rightarrow> nat \<Rightarrow> nat \<Rightarrow> int \<Rightarrow> int \<Rightarrow> db \<Rightarrow> (int \<times> int) dbres" where
  "findfree_loop fuel keylen dlen saveoffset offset d =
     (if offset = 0 then return_db (saveoffset, 0) d
      else case fuel of
        0 \<Rightarrow> Inr Diverges
      | Suc n \<Rightarrow>
          bind_e (db_readidx offset d) (\<lambda>(nextoffset, d1).
            if length (idxbuf d1) = keylen \<and> datlen d1 = dlen then return_db (saveoffset, offset) d1
            else findfree_loop n keylen dlen offset nextoffset d1))"

declare findfree_loop.simps [simp del]

definition db_findfree :: "nat \<Rightarrow> nat \<Rightarrow> db \<Rightarrow> int dbres" where
  "db_findfree keylen dlen d =
     (let d1 = lock_db free_lock d in
      bind_e (db_readptr FREE_OFF d1) (\<lambda>(offset, d2).
      bind_e (findfree_loop (length (db_idx d2)) keylen dlen FREE_OFF offset d2) (\<lambda>((saveoffset, found), d3).
        if found = 0 then return_db (-1) (unlock_db free_lock d3)
        else bind_e (db_writeptr saveoffset (ptrval d3) d3) (\<lambda>(_, d4). return_db 0 (unlock_db free_lock d4)))))"

text \<open>The branches of \<^verbatim>\<open>db_store\<close>: a record that is written at the end of the files or over a free one, in front of its chain.\<close>

definition store_at :: "string \<Rightarrow> string \<Rightarrow> int \<Rightarrow> int \<Rightarrow> whence \<Rightarrow> int \<Rightarrow> db \<Rightarrow> unit dbres" where
  "store_at key data doff ioff wh ptr d =
     bind_e (db_writedat data doff wh d) (\<lambda>(_, d1).
     bind_e (db_writeidx key ioff wh ptr d1) (\<lambda>(_, d2).
       db_writeptr (chainoff d2) (idxoff d2) d2))"

definition store_new :: "string \<Rightarrow> string \<Rightarrow> db \<Rightarrow> unit dbres" where
  "store_new key data d =
     bind_e (db_readptr (chainoff d) d) (\<lambda>(ptr, d1).
     bind_e (db_findfree (length key) (length data + 1) d1) (\<lambda>(rc, d2).
       if rc < 0 then
         bind_e (store_at key data 0 0 SEEK_END ptr d2) (\<lambda>(_, d3). return_db () (d3\<lparr>cnt_stor1 := cnt_stor1 d3 + 1\<rparr>))
       else
         bind_e (store_at key data (datoff d2) (idxoff d2) SEEK_SET ptr d2) (\<lambda>(_, d3). return_db () (d3\<lparr>cnt_stor2 := cnt_stor2 d3 + 1\<rparr>))))"

definition store_over :: "string \<Rightarrow> string \<Rightarrow> db \<Rightarrow> unit dbres" where
  "store_over key data d =
     (if length data + 1 \<noteq> datlen d then
        bind_e (db_dodelete d) (\<lambda>(_, d1).
        bind_e (db_readptr (chainoff d1) d1) (\<lambda>(ptr, d2).
        bind_e (store_at key data 0 0 SEEK_END ptr d2) (\<lambda>(_, d3). return_db () (d3\<lparr>cnt_stor3 := cnt_stor3 d3 + 1\<rparr>))))
      else
        bind_e (db_writedat data (datoff d) SEEK_SET d) (\<lambda>(_, d1). return_db () (d1\<lparr>cnt_stor4 := cnt_stor4 d1 + 1\<rparr>)))"

definition db_store :: "string \<Rightarrow> string \<Rightarrow> store_flag \<Rightarrow> db \<Rightarrow> int dbres" where
  "db_store key data flag d =
     (if flag = BadFlag then return_db (-1) d
      else if length data + 1 < DATLEN_MIN \<or> DATLEN_MAX < length data + 1 then err_dump
      else
        bind_e (db_find_and_lock key d) (\<lambda>(rc, d1).
          if rc < 0 then
            if flag = DB_REPLACE then
              let d2 = d1\<lparr>cnt_storerr := cnt_storerr d1 + 1\<rparr> in return_db (-1) (unlock_db (chain_lock d2) d2)
            else bind_e (store_new key data d1) (\<lambda>(_, d2). return_db 0 (unlock_db (chain_lock d2) d2))
          else if flag = DB_INSERT then
            let d2 = d1\<lparr>cnt_storerr := cnt_storerr d1 + 1\<rparr> in return_db 1 (unlock_db (chain_lock d2) d2)
          else bind_e (store_over key data d1) (\<lambda>(_, d2). return_db 0 (unlock_db (chain_lock d2) d2))))"

subsection \<open>Reading all records\<close>

definition db_rewind :: "db \<Rightarrow> db" where
  "db_rewind d = (let off = (nhash d + 1) * PTR_SZ + 1 in d\<lparr>idxoff := int off, db_pos := off\<rparr>)"

definition blank :: "string \<Rightarrow> bool" where
  "blank s \<longleftrightarrow> (\<forall>c \<in> set s. c = SPACE)"

lemma db_readidx_advances:
  assumes "db_readidx offset d = Inr (Done (r, d1))"
  shows "db_idx d1 = db_idx d \<and> (r = -1 \<and> offset = 0 \<or>
    (if offset = 0 then db_pos d else nat offset) < db_pos d1 \<and> db_pos d1 \<le> length (db_idx d))"
proof -
  define off where "off = (if offset = 0 then db_pos d else nat offset)"
  define front where "front = pread (db_idx d) off (PTR_SZ + IDXLEN_SZ)"
  define len where "len = atol (drop PTR_SZ front)"
  define body where "body = pread (db_idx d) (off + PTR_SZ + IDXLEN_SZ) (nat len)"
  note defs = off_def [symmetric] front_def [symmetric] len_def [symmetric] body_def [symmetric]
  have res: "\<not> offset < 0" using assms by (auto simp: db_readidx_def err_dump_def)
  show ?thesis
  proof (cases "length front = PTR_SZ + IDXLEN_SZ")
    case False
    then show ?thesis
      using assms res unfolding db_readidx_def Let_def defs by (auto simp: err_dump_def return_db_def split: if_splits)
  next
    case True
    have len: "int IDXLEN_MIN \<le> len"
    proof (rule ccontr)
      assume "\<not> int IDXLEN_MIN \<le> len"
      then show False using assms res True unfolding db_readidx_def Let_def defs by (simp add: err_dump_def)
    qed
    have body: "length body = nat len"
    proof (rule ccontr)
      assume "length body \<noteq> nat len"
      then show False
        using assms res True len unfolding db_readidx_def Let_def defs by (simp add: err_dump_def split: if_splits)
    qed
    obtain key doff dlen where "parse_record body = Some (key, doff, dlen)"
      using assms res True len body unfolding db_readidx_def Let_def defs
      by (cases "parse_record body") (auto simp: err_dump_def split: if_splits)
    then have pos: "db_pos d1 = off + PTR_SZ + IDXLEN_SZ + nat len" "db_idx d1 = db_idx d"
      using assms res True len body unfolding db_readidx_def Let_def defs
      by (auto simp: err_dump_def return_db_def split: if_splits)
    moreover have "off + PTR_SZ + IDXLEN_SZ + nat len \<le> length (db_idx d)"
      using body len by (simp add: body_def pread_def IDXLEN_MIN_def min_def split: if_splits)
    ultimately show ?thesis by (simp add: off_def PTR_SZ_def)
  qed
qed

text \<open>The loop of \<^verbatim>\<open>db_nextrec\<close> skips the records with a blank key; it ends because every record read moves the file offset on.\<close>

function nextrec_loop :: "db \<Rightarrow> bool dbres" where
  "nextrec_loop d =
     bind_e (db_readidx 0 d) (\<lambda>(r, d1).
       if r < 0 then return_db False d1
       else if blank (idxbuf d1) then nextrec_loop d1
       else return_db True d1)"
  by pat_completeness auto
termination
proof (relation "measure (\<lambda>d. length (db_idx d) - db_pos d)", simp, goal_cases)
  case (1 d p r d1)
  then show ?case using db_readidx_advances [of 0 d r d1] by auto
qed

declare nextrec_loop.simps [simp del]

definition db_nextrec :: "db \<Rightarrow> (string \<times> string) option dbres" where
  "db_nextrec d =
     bind_e (nextrec_loop (lock_db free_lock d)) (\<lambda>(more, d1).
       if \<not> more then return_db None (unlock_db free_lock d1)
       else bind_e (db_readdat d1) (\<lambda>(ptr, d2).
         return_db (Some (idxbuf d2, ptr)) (unlock_db free_lock (d2\<lparr>cnt_nextrec := cnt_nextrec d2 + 1\<rparr>))))"

subsection \<open>Opening and closing\<close>

text \<open>The structure that \<^verbatim>\<open>_db_alloc\<close> clears, with the contents of the two files.\<close>

definition db_alloc :: "string \<Rightarrow> string \<Rightarrow> string \<Rightarrow> db" where
  "db_alloc name idx dat = \<lparr>db_idx = idx, db_dat = dat, db_pos = 0, idxbuf = [], datbuf = [], db_name = name, idxoff = 0, idxlen = 0,
     datoff = 0, datlen = 0, ptrval = 0, ptroff = 0, chainoff = 0, hashoff = 0, nhash = 0, cnt_delok = 0, cnt_delerr = 0, cnt_fetchok = 0,
     cnt_fetcherr = 0, cnt_nextrec = 0, cnt_stor1 = 0, cnt_stor2 = 0, cnt_stor3 = 0, cnt_stor4 = 0, cnt_storerr = 0, db_locks = []\<rparr>"

text \<open>The hash table of a new index file: the head of the free list, the chain pointers and a newline.\<close>

definition empty_table :: string where
  "empty_table = concat (replicate (NHASH_DEF + 1) (pad PTR_SZ (show_dec 0))) @ [NEWLINE]"

text \<open>
  \<^verbatim>\<open>db_open\<close>: the answers of \<^verbatim>\<open>open\<close> for the index and the data file (the contents as \<^verbatim>\<open>O_TRUNC\<close> leaves them, \<open>None\<close> for -1), and whether
  both \<^verbatim>\<open>O_CREAT\<close> and \<^verbatim>\<open>O_TRUNC\<close> were given. \<open>None\<close> is the null pointer.
\<close>

definition db_open :: "string \<Rightarrow> bool \<Rightarrow> string option \<Rightarrow> string option \<Rightarrow> db option" where
  "db_open pathname creat_trunc idxfile datfile = (case (idxfile, datfile) of
       (Some idx, Some dat) \<Rightarrow>
         let d = (db_alloc (pathname @ ''.dat'') idx dat)\<lparr>nhash := NHASH_DEF, hashoff := HASH_OFF\<rparr>;
             d1 = (if creat_trunc \<and> db_idx d = [] then d\<lparr>db_idx := empty_table\<rparr> else d)
         in Some (db_rewind d1)
     | _ \<Rightarrow> None)"

text \<open>\<^verbatim>\<open>db_close\<close> releases the buffers and the descriptors; what remains are the two files.\<close>

definition db_close :: "db \<Rightarrow> string \<times> string" where
  "db_close d = (db_idx d, db_dat d)"

end
