(* ===== verification/Db_Image.thy ===== *)
theory Db_Image
  imports Db_Model
begin

section \<open>The index file as a list of records\<close>

text \<open>
  The contents of an index file are the image of a list of head pointers (the free list, then the hash chains) and a
  list of index records. The functions of \<^verbatim>\<open>db.c\<close> that read and write the file at byte offsets are shown to read and
  update this image: what \<^verbatim>\<open>_db_writeptr\<close> and \<^verbatim>\<open>_db_writeidx\<close> print, \<^verbatim>\<open>_db_readptr\<close> and \<^verbatim>\<open>_db_readidx\<close> parse back.
\<close>

subsection \<open>Decimal fields\<close>

lemma pad_length: "length s \<le> n \<Longrightarrow> length (pad n s) = n"
  by (simp add: pad_def)

lemma length_show_nat10: "m < 10 ^ k \<Longrightarrow> 0 < k \<Longrightarrow> length (show_dec (int m)) \<le> k"
  by (simp add: show_dec_def show_nat_def length_nat_digits_le)

lemma strtoll_c_skip: "dropWhile isspace_c s = dropWhile isspace_c t \<Longrightarrow> fst (strtoll_c b s) = fst (strtoll_c b t)"
  by (simp add: strtoll_c_def Let_def split: prod.split)

lemma atol_show_dec: "LLONG_MIN \<le> v \<Longrightarrow> v \<le> LLONG_MAX \<Longrightarrow> atol (show_dec v) = v"
  by (simp add: atol_def strtoll_c_show_dec)

lemma dropWhile_pad: "dropWhile isspace_c (pad n s) = dropWhile isspace_c s"
proof -
  have "isspace_c SPACE" by (simp add: isspace_c_def SPACE_def)
  then have "dropWhile isspace_c (replicate k SPACE @ s) = dropWhile isspace_c s" for k
    by (induction k) simp_all
  then show ?thesis by (simp add: pad_def)
qed

lemma atol_pad: "LLONG_MIN \<le> v \<Longrightarrow> v \<le> LLONG_MAX \<Longrightarrow> atol (pad n (show_dec v)) = v"
  using strtoll_c_skip [OF dropWhile_pad, of 10 n "show_dec v"] atol_show_dec [of v] by (simp add: atol_def)

lemma show_dec_clean: "set (show_dec (int m)) \<inter> {SEP, NUL, NEWLINE} = {}"
proof -
  have "digit_val c < 10" if "c \<in> set (show_dec (int m))" for c
    using that show_nat_digits [of 10] by (simp add: show_dec_def)
  moreover have "\<not> digit_val SEP < 10" "\<not> digit_val NUL < 10" "\<not> digit_val NEWLINE < 10"
    by (simp_all add: digit_val_def db_chars)
  ultimately show ?thesis by blast
qed

lemma pread_mid: "off = length a \<Longrightarrow> n = length b \<Longrightarrow> pread (a @ b @ c) off n = b"
  by (simp add: pread_def)

lemma pwrite_mid: "off = length a \<Longrightarrow> length b' = length b \<Longrightarrow> pwrite (a @ b @ c) off b' = a @ b' @ c"
  by (simp add: pwrite_def)

lemma pwrite_end: "off = length a \<Longrightarrow> pwrite a off b = a @ b"
  by (simp add: pwrite_def)

subsection \<open>Records and their image\<close>

record irec =
  ir_ptr :: nat
  ir_key :: string
  ir_off :: nat
  ir_len :: nat

definition ptr_img :: "nat \<Rightarrow> string" where
  "ptr_img p = pad PTR_SZ (show_dec (int p))"

definition rec_body :: "irec \<Rightarrow> string" where
  "rec_body r = idx_body (ir_key r) (int (ir_off r)) (ir_len r)"

definition rec_img :: "irec \<Rightarrow> string" where
  "rec_img r = ptr_img (ir_ptr r) @ pad IDXLEN_SZ (show_dec (int (length (rec_body r)))) @ rec_body r"

definition idx_img :: "nat list \<Rightarrow> irec list \<Rightarrow> string" where
  "idx_img heads recs = concat (map ptr_img heads) @ [NEWLINE] @ concat (map rec_img recs)"

definition good_ptr :: "nat \<Rightarrow> bool" where
  "good_ptr p \<longleftrightarrow> int p \<le> PTR_MAX"

definition good_key :: "string \<Rightarrow> bool" where
  "good_key key \<longleftrightarrow> SEP \<notin> set key \<and> NUL \<notin> set key"

definition wf_rec :: "irec \<Rightarrow> bool" where
  "wf_rec r \<longleftrightarrow> good_ptr (ir_ptr r) \<and> good_key (ir_key r) \<and> IDXLEN_MIN \<le> length (rec_body r) \<and> length (rec_body r) \<le> IDXLEN_MAX \<and>
     1 \<le> ir_len r \<and> ir_len r \<le> DATLEN_MAX \<and> int (ir_off r) \<le> LLONG_MAX"

definition wf_idx :: "nat list \<Rightarrow> irec list \<Rightarrow> bool" where
  "wf_idx heads recs \<longleftrightarrow> length heads = NHASH_DEF + 1 \<and> (\<forall>p \<in> set heads. good_ptr p) \<and> (\<forall>r \<in> set recs. wf_rec r)"

definition TAB_END :: nat where
  "TAB_END = (NHASH_DEF + 1) * PTR_SZ + 1"

definition rec_off :: "irec list \<Rightarrow> nat \<Rightarrow> nat" where
  "rec_off recs k = TAB_END + sum_list (map (\<lambda>r. length (rec_img r)) (take k recs))"

lemma length_ptr_img [simp]: "good_ptr p \<Longrightarrow> length (ptr_img p) = PTR_SZ"
  unfolding ptr_img_def
  by (rule pad_length, rule length_show_nat10) (simp_all add: good_ptr_def PTR_MAX_def PTR_SZ_def)

lemma length_heads_img: "\<forall>p \<in> set heads. good_ptr p \<Longrightarrow> length (concat (map ptr_img heads)) = PTR_SZ * length heads"
  by (induction heads) simp_all

lemma atol_ptr_img: "good_ptr p \<Longrightarrow> atol (ptr_img p) = int p"
  unfolding ptr_img_def by (rule atol_pad) (simp_all add: good_ptr_def PTR_MAX_def c_limits)

lemma length_len_field:
  assumes "n \<le> IDXLEN_MAX"
  shows "length (pad IDXLEN_SZ (show_dec (int n))) = IDXLEN_SZ"
  by (rule pad_length, rule length_show_nat10) (use assms in \<open>simp_all add: IDXLEN_MAX_def IDXLEN_SZ_def\<close>)

lemma atol_len_field: "n \<le> IDXLEN_MAX \<Longrightarrow> atol (pad IDXLEN_SZ (show_dec (int n))) = int n"
  by (rule atol_pad) (simp_all add: IDXLEN_MAX_def c_limits)

lemma length_rec_img:
  assumes "wf_rec r"
  shows "length (rec_img r) = PTR_SZ + IDXLEN_SZ + length (rec_body r)"
  using assms by (simp add: rec_img_def wf_rec_def length_len_field)

subsection \<open>Parsing a record back\<close>

lemma split_sep_front: "SEP \<notin> set a \<Longrightarrow> split_sep (a @ SEP # b) = Some (a, b)"
  by (simp add: split_sep_def takeWhile_append dropWhile_append)

lemma cstr_clean: "NUL \<notin> set x \<Longrightarrow> cstr x = x"
  by (auto simp: cstr_def takeWhile_eq_all_conv)

lemma cstr_body:
  assumes "NUL \<notin> set key"
  shows "cstr (butlast (idx_body key (int off) len)) = key @ SEP # show_dec (int off) @ SEP # show_dec (int len)"
proof -
  let ?s = "key @ SEP # show_dec (int off) @ SEP # show_dec (int len)"
  have "NUL \<notin> set (show_dec (int n))" for n using show_dec_clean by blast
  then have "NUL \<notin> set ?s" using assms by (auto simp: db_chars)
  moreover have body: "idx_body key (int off) len = ?s @ [NEWLINE]" by (simp add: idx_body_def)
  ultimately show ?thesis unfolding body butlast_snoc by (intro cstr_clean)
qed

lemma parse_rec_body:
  assumes "wf_rec r"
  shows "parse_record (rec_body r) = Some (ir_key r, int (ir_off r), ir_len r)"
proof -
  let ?o = "show_dec (int (ir_off r))" and ?l = "show_dec (int (ir_len r))"
  have clean: "SEP \<notin> set ?o" "SEP \<notin> set ?l" using show_dec_clean by blast+
  have key: "SEP \<notin> set (ir_key r)" "NUL \<notin> set (ir_key r)" using assms by (simp_all add: wf_rec_def good_key_def)
  have front: "cstr (butlast (rec_body r)) = ir_key r @ SEP # ?o @ SEP # ?l" unfolding rec_body_def by (rule cstr_body [OF key(2)])
  have val: "atol ?o = int (ir_off r)" "atol ?l = int (ir_len r)"
    using assms by (simp_all add: atol_show_dec wf_rec_def c_limits DATLEN_MAX_def)
  have "last (rec_body r) = NEWLINE" by (simp add: rec_body_def idx_body_def)
  then show ?thesis
    using assms clean key unfolding parse_record_def front split_sep_front [OF key(1)] by (simp add: split_sep_front val wf_rec_def)
qed

subsection \<open>Cutting the image\<close>

lemma idx_img_at_head:
  assumes "i < length heads"
  shows "idx_img heads recs = concat (map ptr_img (take i heads)) @ ptr_img (heads ! i) @
    (concat (map ptr_img (drop (Suc i) heads)) @ [NEWLINE] @ concat (map rec_img recs))"
  using id_take_nth_drop [OF assms] by (metis (no_types, lifting) append.assoc concat.simps(2) concat_append idx_img_def list.simps(9) map_append)

lemma idx_img_set_head:
  assumes "i < length heads"
  shows "idx_img (heads[i := p]) recs = concat (map ptr_img (take i heads)) @ ptr_img p @
    (concat (map ptr_img (drop (Suc i) heads)) @ [NEWLINE] @ concat (map rec_img recs))"
  using idx_img_at_head [of i "heads[i := p]"] assms by simp

lemma idx_img_at_rec:
  assumes "k < length recs"
  shows "idx_img heads recs = (concat (map ptr_img heads) @ [NEWLINE] @ concat (map rec_img (take k recs))) @
    rec_img (recs ! k) @ concat (map rec_img (drop (Suc k) recs))"
  using id_take_nth_drop [OF assms] by (metis (no_types, lifting) append.assoc concat.simps(2) concat_append idx_img_def list.simps(9) map_append)

lemma idx_img_set_rec:
  assumes "k < length recs"
  shows "idx_img heads (recs[k := r]) = (concat (map ptr_img heads) @ [NEWLINE] @ concat (map rec_img (take k recs))) @
    rec_img r @ concat (map rec_img (drop (Suc k) recs))"
  using idx_img_at_rec [of k "recs[k := r]"] assms by simp

lemma length_front:
  assumes "wf_idx heads recs"
  shows "length (concat (map ptr_img heads) @ [NEWLINE] @ concat (map rec_img (take k recs))) = rec_off recs k"
proof -
  have "length (concat (map ptr_img heads)) = PTR_SZ * (NHASH_DEF + 1)"
    using assms length_heads_img [of heads] by (simp add: wf_idx_def)
  then show ?thesis by (simp add: rec_off_def TAB_END_def length_concat comp_def mult.commute)
qed

lemma length_idx_img: "wf_idx heads recs \<Longrightarrow> length (idx_img heads recs) = rec_off recs (length recs)"
  using length_front [of heads recs "length recs"] by (simp add: idx_img_def)

lemma rec_off_Suc:
  assumes "k < length recs"
  shows "rec_off recs (Suc k) = rec_off recs k + length (rec_img (recs ! k))"
  using assms by (simp add: rec_off_def take_Suc_conv_app_nth)

lemma rec_off_pos: "0 < rec_off recs k"
  by (simp add: rec_off_def TAB_END_def)

lemma rec_img_nonempty: "wf_rec r \<Longrightarrow> 0 < length (rec_img r)"
  by (simp add: length_rec_img PTR_SZ_def)

lemma rec_off_mono:
  assumes "\<forall>r \<in> set recs. wf_rec r" and "j < k" and "k \<le> length recs"
  shows "rec_off recs j < rec_off recs k"
  using assms(2,3)
proof (induction k)
  case (Suc k)
  then have "rec_off recs (Suc k) > rec_off recs k"
    using rec_off_Suc [of k recs] rec_img_nonempty [of "recs ! k"] assms(1) by simp
  then show ?case using Suc by (cases "j = k") auto
qed simp

lemma rec_off_inj:
  assumes "wf_idx heads recs" and "j \<le> length recs" and "k \<le> length recs" and "rec_off recs j = rec_off recs k"
  shows "j = k"
proof -
  have "\<forall>r \<in> set recs. wf_rec r" using assms(1) by (simp add: wf_idx_def)
  then show ?thesis using rec_off_mono [of recs j k] rec_off_mono [of recs k j] assms(2-4) by (cases j k rule: linorder_cases) auto
qed

lemma rec_off_update:
  assumes "length (rec_img r) = length (rec_img (recs ! j))" and "j < length recs"
  shows "rec_off (recs[j := r]) k = rec_off recs k"
proof (cases "j < k")
  case True
  have "map (\<lambda>r. length (rec_img r)) ((take k recs)[j := r]) = (map (\<lambda>r. length (rec_img r)) (take k recs))[j := length (rec_img r)]"
    by (simp add: map_update)
  also have "\<dots> = map (\<lambda>r. length (rec_img r)) (take k recs)"
    using assms True by (intro list_update_same_conv [THEN iffD2]) simp_all
  finally show ?thesis by (simp add: rec_off_def take_update_swap)
qed (simp add: rec_off_def)

lemma rec_off_append: "k \<le> length recs \<Longrightarrow> rec_off (recs @ rs) k = rec_off recs k"
  by (simp add: rec_off_def)

subsection \<open>Reading and writing the image\<close>

abbreviation holds :: "db \<Rightarrow> nat list \<Rightarrow> irec list \<Rightarrow> bool" where
  "holds d heads recs \<equiv> db_idx d = idx_img heads recs \<and> wf_idx heads recs"

lemma db_readptr_head:
  assumes "holds d heads recs" and "i \<le> NHASH_DEF"
  shows "db_readptr (int (i * PTR_SZ)) d = return_db (int (heads ! i)) (d\<lparr>db_pos := i * PTR_SZ + PTR_SZ\<rparr>)"
proof -
  have i: "i < length heads" and good: "good_ptr (heads ! i)" "\<forall>p \<in> set (take i heads). good_ptr p"
    using assms by (auto simp: wf_idx_def dest: in_set_takeD)
  have "pread (db_idx d) (i * PTR_SZ) PTR_SZ = ptr_img (heads ! i)"
    unfolding assms(1) [THEN conjunct1] idx_img_at_head [OF i]
    by (rule pread_mid) (use i good length_heads_img [OF good(2)] in \<open>simp_all add: mult.commute\<close>)
  then show ?thesis using good(1) by (simp add: db_readptr_def atol_ptr_img del: of_nat_mult)
qed

lemma db_writeptr_head:
  assumes "holds d heads recs" and "i \<le> NHASH_DEF" and "good_ptr p"
  shows "db_writeptr (int (i * PTR_SZ)) (int p) d = return_db () (d\<lparr>db_idx := idx_img (heads[i := p]) recs, db_pos := i * PTR_SZ + PTR_SZ\<rparr>)"
proof -
  have i: "i < length heads" and good: "good_ptr (heads ! i)" "\<forall>p \<in> set (take i heads). good_ptr p"
    using assms by (auto simp: wf_idx_def dest: in_set_takeD)
  have "pwrite (db_idx d) (i * PTR_SZ) (ptr_img p) = idx_img (heads[i := p]) recs"
    unfolding assms(1) [THEN conjunct1] idx_img_at_head [OF i] idx_img_set_head [OF i]
    by (rule pwrite_mid) (use i good assms(3) length_heads_img [OF good(2)] in \<open>simp_all add: mult.commute\<close>)
  then show ?thesis using assms(3) by (simp add: db_writeptr_def ptr_img_def good_ptr_def del: of_nat_mult)
qed

lemma wf_idx_set_head: "wf_idx heads recs \<Longrightarrow> good_ptr p \<Longrightarrow> wf_idx (heads[i := p]) recs"
  by (auto simp: wf_idx_def dest: set_update_subset_insert [THEN subsetD])

lemma wf_idx_set_rec: "wf_idx heads recs \<Longrightarrow> wf_rec r \<Longrightarrow> wf_idx heads (recs[k := r])"
  by (auto simp: wf_idx_def dest: set_update_subset_insert [THEN subsetD])

lemma wf_idx_append: "wf_idx heads recs \<Longrightarrow> wf_rec r \<Longrightarrow> wf_idx heads (recs @ [r])"
  by (auto simp: wf_idx_def)

lemma wf_rec_nth: "wf_idx heads recs \<Longrightarrow> k < length recs \<Longrightarrow> wf_rec (recs ! k)"
  by (simp add: wf_idx_def)

lemma rec_body_ptr [simp]: "rec_body (r\<lparr>ir_ptr := p\<rparr>) = rec_body r"
  by (simp add: rec_body_def)

lemma wf_rec_ptr: "wf_rec r \<Longrightarrow> good_ptr p \<Longrightarrow> wf_rec (r\<lparr>ir_ptr := p\<rparr>)"
  by (simp add: wf_rec_def)

lemma length_rec_img_ptr: "wf_rec r \<Longrightarrow> good_ptr p \<Longrightarrow> length (rec_img (r\<lparr>ir_ptr := p\<rparr>)) = length (rec_img r)"
  by (simp add: length_rec_img wf_rec_ptr)

lemma db_writeptr_rec:
  assumes "holds d heads recs" and "k < length recs" and "good_ptr p"
  shows "db_writeptr (int (rec_off recs k)) (int p) d =
    return_db () (d\<lparr>db_idx := idx_img heads (recs[k := (recs ! k)\<lparr>ir_ptr := p\<rparr>]), db_pos := rec_off recs k + PTR_SZ\<rparr>)"
proof -
  let ?r = "recs ! k"
  let ?rest = "pad IDXLEN_SZ (show_dec (int (length (rec_body ?r)))) @ rec_body ?r"
  have wf: "wf_rec ?r" using assms by (auto intro: wf_rec_nth)
  have old: "rec_img ?r = ptr_img (ir_ptr ?r) @ ?rest" and new: "rec_img (?r\<lparr>ir_ptr := p\<rparr>) = ptr_img p @ ?rest"
    by (simp_all add: rec_img_def)
  have len: "length (ptr_img p) = length (ptr_img (ir_ptr ?r))" using wf assms(3) by (simp add: wf_rec_def)
  have "pwrite (idx_img heads recs) (rec_off recs k) (ptr_img p) = idx_img heads (recs[k := ?r\<lparr>ir_ptr := p\<rparr>])"
    unfolding idx_img_at_rec [OF assms(2)] idx_img_set_rec [OF assms(2)] old new
    using pwrite_mid [OF length_front [of heads recs k, symmetric] len, of "?rest @ concat (map rec_img (drop (Suc k) recs))"] assms(1)
    by simp
  then show ?thesis using assms(1,3) by (simp add: db_writeptr_def ptr_img_def good_ptr_def)
qed

text \<open>The fields that \<^verbatim>\<open>_db_readidx\<close> sets from the record with number \<open>k\<close>.\<close>

definition loaded :: "irec list \<Rightarrow> nat \<Rightarrow> db \<Rightarrow> db" where
  "loaded recs k d = d\<lparr>idxoff := int (rec_off recs k), ptrval := int (ir_ptr (recs ! k)),
     idxlen := length (rec_body (recs ! k)), db_pos := rec_off recs (Suc k), idxbuf := ir_key (recs ! k), datoff := int (ir_off (recs ! k)), datlen := ir_len (recs ! k)\<rparr>"

lemma pread_rec:
  assumes "wf_idx heads recs" and "k < length recs"
  shows "pread (idx_img heads recs) (rec_off recs k) (PTR_SZ + IDXLEN_SZ) =
      ptr_img (ir_ptr (recs ! k)) @ pad IDXLEN_SZ (show_dec (int (length (rec_body (recs ! k)))))"
    and "pread (idx_img heads recs) (rec_off recs k + PTR_SZ + IDXLEN_SZ) (length (rec_body (recs ! k))) = rec_body (recs ! k)"
proof -
  let ?r = "recs ! k" and ?a = "concat (map ptr_img heads) @ [NEWLINE] @ concat (map rec_img (take k recs))"
  let ?f = "ptr_img (ir_ptr ?r) @ pad IDXLEN_SZ (show_dec (int (length (rec_body ?r))))"
  let ?rest = "concat (map rec_img (drop (Suc k) recs))"
  have wf: "wf_rec ?r" using assms by (rule wf_rec_nth)
  have f: "length ?f = PTR_SZ + IDXLEN_SZ" using wf by (simp add: wf_rec_def length_len_field)
  have img: "idx_img heads recs = ?a @ ?f @ (rec_body ?r @ ?rest)" "idx_img heads recs = (?a @ ?f) @ rec_body ?r @ ?rest"
    unfolding idx_img_at_rec [OF assms(2)] rec_img_def by simp_all
  have a: "length ?a = rec_off recs k" by (rule length_front [OF assms(1)])
  show "pread (idx_img heads recs) (rec_off recs k) (PTR_SZ + IDXLEN_SZ) = ?f"
    unfolding img(1) by (rule pread_mid) (simp_all only: a f)
  show "pread (idx_img heads recs) (rec_off recs k + PTR_SZ + IDXLEN_SZ) (length (rec_body ?r)) = rec_body ?r"
    unfolding img(2) by (rule pread_mid) (simp_all only: length_append [of ?a ?f] a f add.assoc)
qed

lemma db_readidx_img:
  assumes "wf_rec r" and "off = (if offset = 0 then db_pos d else nat offset)" and "0 \<le> offset"
    and "pread (db_idx d) off (PTR_SZ + IDXLEN_SZ) = ptr_img (ir_ptr r) @ pad IDXLEN_SZ (show_dec (int (length (rec_body r))))"
    and "pread (db_idx d) (off + PTR_SZ + IDXLEN_SZ) (length (rec_body r)) = rec_body r"
  shows "db_readidx offset d = return_db (int (ir_ptr r)) (d\<lparr>idxoff := int off, ptrval := int (ir_ptr r), idxlen := length (rec_body r),
    db_pos := off + length (rec_img r), idxbuf := ir_key r, datoff := int (ir_off r), datlen := ir_len r\<rparr>)"
proof -
  let ?f = "ptr_img (ir_ptr r) @ pad IDXLEN_SZ (show_dec (int (length (rec_body r))))"
  have f: "length ?f = PTR_SZ + IDXLEN_SZ" "take PTR_SZ ?f = ptr_img (ir_ptr r)"
    "drop PTR_SZ ?f = pad IDXLEN_SZ (show_dec (int (length (rec_body r))))"
    using assms(1) by (simp_all add: wf_rec_def length_len_field)
  have len: "atol (pad IDXLEN_SZ (show_dec (int (length (rec_body r))))) = int (length (rec_body r))"
    "IDXLEN_MIN \<le> length (rec_body r)" "length (rec_body r) \<le> IDXLEN_MAX"
    using assms(1) by (simp_all add: wf_rec_def atol_len_field)
  have ptr: "atol (ptr_img (ir_ptr r)) = int (ir_ptr r)" using assms(1) by (simp add: wf_rec_def atol_ptr_img)
  show ?thesis
    unfolding db_readidx_def Let_def assms(2) [symmetric] assms(4) f ptr len(1) nat_int assms(5) parse_rec_body [OF assms(1)]
    using assms(3) len(2,3) by (simp add: length_rec_img [OF assms(1)] add.assoc)
qed

lemma db_readidx_rec:
  assumes "holds d heads recs" and "k < length recs" and "offset = int (rec_off recs k) \<or> offset = 0 \<and> db_pos d = rec_off recs k"
  shows "db_readidx offset d = return_db (int (ir_ptr (recs ! k))) (loaded recs k d)"
proof -
  have idx: "db_idx d = idx_img heads recs" "wf_idx heads recs" using assms(1) by simp_all
  have off: "rec_off recs k = (if offset = 0 then db_pos d else nat offset)" "0 \<le> offset" using assms(3) rec_off_pos [of recs k] by auto
  show ?thesis
    using db_readidx_img [OF wf_rec_nth [OF idx(2) assms(2)] off] pread_rec [OF idx(2) assms(2)] idx(1) rec_off_Suc [OF assms(2)]
    by (simp add: loaded_def)
qed

lemma db_readidx_end:
  assumes "holds d heads recs" and "db_pos d = rec_off recs (length recs)"
  shows "db_readidx 0 d = return_db (-1) (d\<lparr>idxoff := int (db_pos d)\<rparr>)"
proof -
  have "pread (db_idx d) (db_pos d) (PTR_SZ + IDXLEN_SZ) = []"
    using assms length_idx_img [of heads recs] by (simp add: pread_def)
  then show ?thesis by (simp add: db_readidx_def PTR_SZ_def)
qed

text \<open>The fields that \<^verbatim>\<open>_db_writeidx\<close> sets.\<close>

definition written :: "irec \<Rightarrow> nat \<Rightarrow> string \<Rightarrow> db \<Rightarrow> db" where
  "written r off idx d = d\<lparr>ptrval := int (ir_ptr r), idxbuf := rec_body r, idxoff := int off, db_idx := idx, db_pos := off + length (rec_img r)\<rparr>"

lemma db_writeidx_run:
  assumes "wf_rec r" and "datoff d = int (ir_off r)" and "datlen d = ir_len r" and "0 \<le> offset"
  shows "db_writeidx (ir_key r) offset SEEK_SET (int (ir_ptr r)) d =
      return_db () (written r (nat offset) (pwrite (db_idx d) (nat offset) (rec_img r)) d)"
    and "(IdxFile, int ((nhash d + 1) * PTR_SZ + 1), 0) \<notin> set (db_locks d) \<Longrightarrow>
      db_writeidx (ir_key r) 0 SEEK_END (int (ir_ptr r)) d = return_db () (written r (length (db_idx d)) (db_idx d @ rec_img r) d)"
proof -
  have ptr: "\<not> (int (ir_ptr r) < 0 \<or> PTR_MAX < int (ir_ptr r))" using assms(1) by (simp add: wf_rec_def good_ptr_def)
  have body: "idx_body (ir_key r) (datoff d) (datlen d) = rec_body r" using assms(2,3) by (simp add: rec_body_def)
  have len: "\<not> IDXLEN_MAX + 2 < length (rec_body r) + 1" "\<not> (length (rec_body r) < IDXLEN_MIN \<or> IDXLEN_MAX < length (rec_body r))"
    using assms(1) by (auto simp: wf_rec_def)
  have img: "pad PTR_SZ (show_dec (int (ir_ptr r))) @ pad IDXLEN_SZ (show_dec (int (length (rec_body r)))) @ rec_body r = rec_img r"
    by (simp add: rec_img_def ptr_img_def)
  show "db_writeidx (ir_key r) offset SEEK_SET (int (ir_ptr r)) d =
      return_db () (written r (nat offset) (pwrite (db_idx d) (nat offset) (rec_img r)) d)"
    unfolding db_writeidx_def if_not_P [OF ptr] Let_def body if_not_P [OF len(1)] if_not_P [OF len(2)] img
    using assms(4) by (simp add: written_def)
  show "db_writeidx (ir_key r) 0 SEEK_END (int (ir_ptr r)) d = return_db () (written r (length (db_idx d)) (db_idx d @ rec_img r) d)"
    if "(IdxFile, int ((nhash d + 1) * PTR_SZ + 1), 0) \<notin> set (db_locks d)"
    unfolding db_writeidx_def if_not_P [OF ptr] Let_def body if_not_P [OF len(1)] if_not_P [OF len(2)] img
    using that by (simp add: written_def lock_db_def unlock_db_def pwrite_end del: of_nat_add of_nat_Suc of_nat_mult)
qed

lemma db_writeidx_rec:
  assumes "holds d heads recs" and "k < length recs" and "wf_rec r" and "length (rec_body r) = length (rec_body (recs ! k))"
    and "datoff d = int (ir_off r)" and "datlen d = ir_len r"
  shows "db_writeidx (ir_key r) (int (rec_off recs k)) SEEK_SET (int (ir_ptr r)) d =
    return_db () (written r (rec_off recs k) (idx_img heads (recs[k := r])) d)"
proof -
  have idx: "db_idx d = idx_img heads recs" "wf_idx heads recs" using assms(1) by simp_all
  have len: "length (rec_img r) = length (rec_img (recs ! k))"
    using assms(3,4) wf_rec_nth [OF idx(2) assms(2)] by (simp add: length_rec_img)
  have "pwrite (db_idx d) (rec_off recs k) (rec_img r) = idx_img heads (recs[k := r])"
    unfolding idx(1) idx_img_at_rec [OF assms(2)] idx_img_set_rec [OF assms(2)]
    by (rule pwrite_mid [OF length_front [OF idx(2), of k, symmetric] len])
  then show ?thesis using db_writeidx_run(1) [OF assms(3,5,6), of "int (rec_off recs k)"] by simp
qed

lemma db_writeidx_end:
  assumes "holds d heads recs" and "wf_rec r" and "datoff d = int (ir_off r)" and "datlen d = ir_len r"
    and "(IdxFile, int ((nhash d + 1) * PTR_SZ + 1), 0) \<notin> set (db_locks d)"
  shows "db_writeidx (ir_key r) 0 SEEK_END (int (ir_ptr r)) d =
    return_db () (written r (rec_off recs (length recs)) (idx_img heads (recs @ [r])) d)"
proof -
  have "db_idx d @ rec_img r = idx_img heads (recs @ [r])" using assms(1) by (simp add: idx_img_def)
  then show ?thesis
    using db_writeidx_run(2) [OF assms(2-4) order_refl assms(5)] assms(1) by (simp add: length_idx_img)
qed

end
