(* ===== verification/Db_Chains.thy ===== *)
theory Db_Chains
  imports Db_Image
begin

section \<open>Hash chains and the free list\<close>

text \<open>
  The pointers of an index file link its records into chains: the free list and one chain per hash value. This theory holds the
  abstract side: chains as lists of record numbers, what it means to unlink a record from one chain and to put it in front of
  another, and the loops of \<^verbatim>\<open>db.c\<close> that walk along a chain.
\<close>

subsection \<open>Paths\<close>

text \<open>The list \<open>ks\<close> of records is what the pointer \<open>p\<close> leads to, where record \<open>k\<close> lies at \<open>ro k\<close> and points to \<open>nx k\<close>.\<close>

fun path :: "(nat \<Rightarrow> nat) \<Rightarrow> (nat \<Rightarrow> nat) \<Rightarrow> nat \<Rightarrow> nat list \<Rightarrow> bool" where
  "path ro nx p [] \<longleftrightarrow> p = 0"
| "path ro nx p (k # ks) \<longleftrightarrow> p = ro k \<and> path ro nx (nx k) ks"

lemma path_cong:
  assumes "\<forall>k \<in> set ks. ro k = ro' k \<and> nx k = nx' k"
  shows "path ro nx p ks = path ro' nx' p ks"
  using assms by (induction ks arbitrary: p) auto

lemma path_unlink:
  assumes "path ro nx p (us @ k # vs)" and "distinct (us @ k # vs)" and "us \<noteq> []"
  shows "path ro (nx(last us := nx k)) p (us @ vs)"
  using assms
proof (induction us arbitrary: p)
  case (Cons u us)
  show ?case
  proof (cases "us = []")
    case True
    have "u \<notin> set vs" using Cons(3) by simp
    then have "path ro (nx(u := nx k)) (nx k) vs = path ro nx (nx k) vs" by (intro path_cong) auto
    then show ?thesis using Cons(2) True by (simp del: fun_upd_apply add: fun_upd_same)
  next
    case False
    then have "last us \<noteq> u" using Cons(3) last_in_set [OF False] by auto
    then show ?thesis using Cons(1) [of "nx u"] Cons(2,3) False by simp
  qed
qed simp

lemma path_nonzero_head: "path ro nx p ks \<Longrightarrow> p \<noteq> 0 \<Longrightarrow> ks \<noteq> [] \<and> p = ro (hd ks) \<and> path ro nx (nx (hd ks)) (tl ks)"
  by (cases ks) auto

definition chain :: "irec list \<Rightarrow> nat \<Rightarrow> nat list \<Rightarrow> bool" where
  "chain recs p ks \<longleftrightarrow> path (rec_off recs) (\<lambda>k. ir_ptr (recs ! k)) p ks \<and> distinct ks \<and> set ks \<subseteq> {..<length recs}"

lemma chain_Cons:
  "chain recs p (k # ks) \<longleftrightarrow> p = rec_off recs k \<and> k < length recs \<and> k \<notin> set ks \<and> chain recs (ir_ptr (recs ! k)) ks"
  by (auto simp: chain_def)

lemma chain_Nil [simp]: "chain recs p [] \<longleftrightarrow> p = 0"
  by (simp add: chain_def)

lemma chain_zero: "chain recs 0 ks \<longleftrightarrow> ks = []"
  using rec_off_pos by (cases ks) (auto simp: chain_Cons)

lemma chain_length: "chain recs p ks \<Longrightarrow> length ks \<le> length recs"
  by (metis card_lessThan card_mono chain_def distinct_card finite_lessThan)

text \<open>A chain does not notice a change of a record outside, as long as the record keeps its length.\<close>

lemma chain_frame:
  assumes "chain recs p ks" and "length recs' = length recs" and "\<forall>k. rec_off recs' k = rec_off recs k"
    and "\<forall>k \<in> set ks. ir_ptr (recs' ! k) = ir_ptr (recs ! k)"
  shows "chain recs' p ks"
proof -
  have "path (rec_off recs') (\<lambda>k. ir_ptr (recs' ! k)) p ks = path (rec_off recs) (\<lambda>k. ir_ptr (recs ! k)) p ks"
    using assms(3,4) by (intro path_cong) simp
  then show ?thesis using assms(1,2) by (simp add: chain_def)
qed

lemma chain_grow:
  assumes "chain recs p ks"
  shows "chain (recs @ rs) p ks"
proof -
  have sub: "set ks \<subseteq> {..<length recs}" using assms by (simp add: chain_def)
  have "path (rec_off (recs @ rs)) (\<lambda>k. ir_ptr ((recs @ rs) ! k)) p ks = path (rec_off recs) (\<lambda>k. ir_ptr (recs ! k)) p ks"
    by (rule path_cong) (use sub in \<open>auto simp: rec_off_append nth_append\<close>)
  then show ?thesis using assms by (auto simp: chain_def)
qed

subsection \<open>Pointer cells\<close>

datatype cell = Head nat | Link nat

fun cell_addr :: "irec list \<Rightarrow> cell \<Rightarrow> nat" where
  "cell_addr recs (Head i) = i * PTR_SZ"
| "cell_addr recs (Link k) = rec_off recs k"

fun set_cell :: "cell \<Rightarrow> nat \<Rightarrow> nat list \<times> irec list \<Rightarrow> nat list \<times> irec list" where
  "set_cell (Head i) p (heads, recs) = (heads[i := p], recs)"
| "set_cell (Link k) p (heads, recs) = (heads, recs[k := (recs ! k)\<lparr>ir_ptr := p\<rparr>])"

fun good_cell :: "irec list \<Rightarrow> cell \<Rightarrow> bool" where
  "good_cell recs (Head i) = (i \<le> NHASH_DEF)"
| "good_cell recs (Link k) = (k < length recs)"

text \<open>The cell that points to the record after \<open>us\<close> in chain \<open>i\<close>.\<close>

definition pred_cell :: "nat \<Rightarrow> nat list \<Rightarrow> cell" where
  "pred_cell i us = (if us = [] then Head i else Link (last us))"

lemma pred_cell_good:
  assumes "i \<le> NHASH_DEF" and "set us \<subseteq> {..<length recs}"
  shows "good_cell recs (pred_cell i us)"
proof (cases "us = []")
  case False
  then have "last us \<in> {..<length recs}" using assms(2) last_in_set by blast
  with False show ?thesis by (simp add: pred_cell_def)
qed (simp add: pred_cell_def assms(1))

lemma db_writeptr_cell:
  assumes "holds d heads recs" and "good_cell recs c" and "good_ptr p" and "(heads', recs') = set_cell c p (heads, recs)"
  shows "db_writeptr (int (cell_addr recs c)) (int p) d =
    return_db () (d\<lparr>db_idx := idx_img heads' recs', db_pos := cell_addr recs c + PTR_SZ\<rparr>)"
  using assms db_writeptr_head [OF assms(1) _ assms(3)] db_writeptr_rec [OF assms(1) _ assms(3)]
  by (cases c) (simp_all del: of_nat_mult)

lemma set_cell_wf:
  assumes "wf_idx heads recs" and "good_ptr p" and "good_cell recs c" and "(heads', recs') = set_cell c p (heads, recs)"
  shows "wf_idx heads' recs' \<and> length recs' = length recs \<and> (\<forall>k. rec_off recs' k = rec_off recs k) \<and>
    (\<forall>k. rec_body (recs' ! k) = rec_body (recs ! k))"
proof (cases c)
  case (Head i)
  then show ?thesis using assms by (simp add: wf_idx_set_head)
next
  case (Link j)
  let ?r = "(recs ! j)\<lparr>ir_ptr := p\<rparr>"
  have j: "j < length recs" and wf: "wf_rec (recs ! j)" using assms(1,3) Link wf_rec_nth by auto
  have "rec_off (recs[j := ?r]) k = rec_off recs k" for k
    using j length_rec_img_ptr [OF wf assms(2)] by (intro rec_off_update) auto
  moreover have "rec_body (recs[j := ?r] ! k) = rec_body (recs ! k)" for k
    using j by (cases "k = j") simp_all
  ultimately show ?thesis using assms(1,2,4) Link wf_idx_set_rec [OF assms(1) wf_rec_ptr [OF wf assms(2)]] by simp
qed

subsection \<open>All chains of a file\<close>

definition chains_ok :: "nat list \<Rightarrow> irec list \<Rightarrow> (nat \<Rightarrow> nat list) \<Rightarrow> bool" where
  "chains_ok heads recs ch \<longleftrightarrow> (\<forall>i \<le> NHASH_DEF. chain recs (heads ! i) (ch i)) \<and>
     (\<forall>i \<le> NHASH_DEF. \<forall>j \<le> NHASH_DEF. i \<noteq> j \<longrightarrow> set (ch i) \<inter> set (ch j) = {})"

lemma chains_okD: "chains_ok heads recs ch \<Longrightarrow> i \<le> NHASH_DEF \<Longrightarrow> chain recs (heads ! i) (ch i)"
  by (simp add: chains_ok_def)

lemma chains_ok_disjoint: "chains_ok heads recs ch \<Longrightarrow> i \<le> NHASH_DEF \<Longrightarrow> j \<le> NHASH_DEF \<Longrightarrow> i \<noteq> j \<Longrightarrow> k \<in> set (ch i) \<Longrightarrow> k \<notin> set (ch j)"
  by (auto simp: chains_ok_def)

text \<open>Every pointer to a record in a chain is in a cell, and cells hold good pointers.\<close>

lemma chain_good_ptr:
  assumes "wf_idx heads recs" and "chain recs p ks" and "good_ptr p" and "k \<in> set ks"
  shows "good_ptr (rec_off recs k)"
  using assms(2-4)
proof (induction ks arbitrary: p)
  case (Cons a ks)
  have "good_ptr (ir_ptr (recs ! a))" using Cons(2) wf_rec_nth [OF assms(1), of a] by (simp add: chain_Cons wf_rec_def)
  then show ?case using Cons by (auto simp: chain_Cons)
qed simp

lemma head_good_ptr: "wf_idx heads recs \<Longrightarrow> i \<le> NHASH_DEF \<Longrightarrow> good_ptr (heads ! i)"
  by (simp add: wf_idx_def)

text \<open>Taking a record out of its chain.\<close>

lemma chain_unlink:
  assumes "wf_idx heads recs" and "chain recs (heads ! i) (us @ k # vs)" and "i \<le> NHASH_DEF"
    and "(heads', recs') = set_cell (pred_cell i us) (ir_ptr (recs ! k)) (heads, recs)"
  shows "chain recs' (heads' ! i) (us @ vs)"
proof (cases "us = []")
  case True
  have "i < length heads" using assms(1,3) by (simp add: wf_idx_def)
  then show ?thesis using assms(2,4) True by (simp add: pred_cell_def chain_Cons)
next
  case False
  let ?j = "last us" and ?nx = "\<lambda>k. ir_ptr (recs ! k)"
  have c: "path (rec_off recs) ?nx (heads ! i) (us @ k # vs)" "distinct (us @ k # vs)" "set (us @ k # vs) \<subseteq> {..<length recs}"
    using assms(2) by (simp_all add: chain_def)
  have j: "?j < length recs" using c(3) last_in_set [OF False] by auto
  have heads: "heads' = heads" and recs: "recs' = recs[?j := (recs ! ?j)\<lparr>ir_ptr := ?nx k\<rparr>]"
    using assms(4) False by (simp_all add: pred_cell_def)
  have good: "good_ptr (?nx k)" using wf_rec_nth [OF assms(1), of k] c(3) by (simp add: wf_rec_def)
  have off: "rec_off recs' a = rec_off recs a" for a
    using set_cell_wf [OF assms(1) good _ assms(4)] j False by (simp add: pred_cell_def)
  have nx: "ir_ptr (recs' ! a) = (?nx(?j := ?nx k)) a" for a
    using j by (cases "a = ?j") (simp_all add: recs)
  have "path (rec_off recs') (\<lambda>a. ir_ptr (recs' ! a)) (heads ! i) (us @ vs) =
      path (rec_off recs) (?nx(?j := ?nx k)) (heads ! i) (us @ vs)"
    by (rule path_cong) (intro ballI conjI off nx)
  then show ?thesis
    using path_unlink [OF c(1,2) False] c(2,3) by (simp add: chain_def heads recs)
qed

lemma chain_unlink_other:
  assumes "wf_idx heads recs" and "chain recs p ks" and "good_cell recs c" and "good_ptr q"
    and "(heads', recs') = set_cell c q (heads, recs)" and "\<forall>j. c = Link j \<longrightarrow> j \<notin> set ks"
  shows "chain recs' p ks"
proof (rule chain_frame [OF assms(2)])
  show "length recs' = length recs" "\<forall>k. rec_off recs' k = rec_off recs k"
    using set_cell_wf [OF assms(1,4,3,5)] by simp_all
  show "\<forall>k \<in> set ks. ir_ptr (recs' ! k) = ir_ptr (recs ! k)"
  proof (cases c)
    case (Link j)
    then have "recs' ! k = recs ! k" if "k \<in> set ks" for k
      using assms(5,6) that by (metis nth_list_update_neq prod.inject set_cell.simps(2))
    then show ?thesis by simp
  qed (use assms(5) in simp)
qed

subsection \<open>Moving a record to the front of another chain\<close>

text \<open>What a record says about its key and data.\<close>

definition irec_data :: "irec \<Rightarrow> string \<times> nat \<times> nat" where
  "irec_data r = (ir_key r, ir_off r, ir_len r)"

lemma irec_data_ptr [simp]: "irec_data (r\<lparr>ir_ptr := p\<rparr>) = irec_data r"
  by (simp add: irec_data_def)

definition move :: "nat list \<Rightarrow> irec list \<Rightarrow> nat \<Rightarrow> nat list \<Rightarrow> nat \<Rightarrow> nat \<Rightarrow> irec \<Rightarrow> nat list \<times> irec list" where
  "move heads recs a us k b r =
     (case set_cell (pred_cell a us) (ir_ptr (recs ! k)) (heads, recs) of (heads1, recs1) \<Rightarrow> (heads1[b := rec_off recs k], recs1[k := r]))"

lemma set_cell_data:
  assumes "(heads', recs') = set_cell c p (heads, recs)"
  shows "irec_data (recs' ! j) = irec_data (recs ! j)"
proof (cases c)
  case (Link k)
  then show ?thesis using assms by (cases "k < length recs"; cases "j = k") (simp_all add: list_update_beyond)
qed (use assms in simp)

text \<open>Overwriting a record that is in no chain with one of the same length, and linking it in front of chain \<open>b\<close>.\<close>

lemma chain_push:
  assumes "wf_idx heads recs" and "wf_rec r" and "length (rec_body r) = length (rec_body (recs ! k))" and "k < length recs"
    and "chain recs p ks" and "k \<notin> set ks"
  shows "chain (recs[k := r]) p ks" and "ir_ptr r = p \<Longrightarrow> chain (recs[k := r]) (rec_off recs k) (k # ks)"
proof -
  have len: "length (rec_img r) = length (rec_img (recs ! k))"
    using assms(2,3) wf_rec_nth [OF assms(1,4)] by (simp add: length_rec_img)
  have off: "rec_off (recs[k := r]) j = rec_off recs j" for j by (rule rec_off_update [OF len assms(4)])
  show keep: "chain (recs[k := r]) p ks"
  proof (rule chain_frame [OF assms(5)])
    show "\<forall>j \<in> set ks. ir_ptr (recs[k := r] ! j) = ir_ptr (recs ! j)"
      using assms(6) by (metis nth_list_update_neq)
  qed (simp_all add: off)
  show "chain (recs[k := r]) (rec_off recs k) (k # ks)" if "ir_ptr r = p"
    using that keep assms(4,6) by (simp add: chain_Cons off)
qed

lemma chains_ok_move:
  assumes "wf_idx heads recs" and "chains_ok heads recs ch" and "a \<le> NHASH_DEF" and "b \<le> NHASH_DEF" and "a \<noteq> b"
    and "ch a = us @ k # vs" and "wf_rec r" and "ir_ptr r = heads ! b" and "length (rec_body r) = length (rec_body (recs ! k))"
    and "(heads', recs') = move heads recs a us k b r"
  shows "wf_idx heads' recs' \<and> chains_ok heads' recs' (ch(a := us @ vs, b := k # ch b)) \<and> length recs' = length recs \<and>
    (\<forall>j. rec_off recs' j = rec_off recs j) \<and> recs' ! k = r \<and> (\<forall>j. j \<noteq> k \<longrightarrow> irec_data (recs' ! j) = irec_data (recs ! j))"
proof -
  let ?c = "pred_cell a us"
  obtain heads1 recs1 where set1: "(heads1, recs1) = set_cell ?c (ir_ptr (recs ! k)) (heads, recs)" by (metis prod.exhaust)
  have new: "heads' = heads1[b := rec_off recs k]" "recs' = recs1[k := r]"
    using assms(10) by (simp_all add: move_def set1 [symmetric])
  have ca: "chain recs (heads ! a) (us @ k # vs)" using chains_okD [OF assms(2,3)] assms(6) by simp
  then have k: "k < length recs" and dist: "distinct (us @ k # vs)" and sub: "set us \<subseteq> {..<length recs}" by (auto simp: chain_def)
  have goodk: "good_ptr (rec_off recs k)"
    by (rule chain_good_ptr [OF assms(1) ca head_good_ptr [OF assms(1,3)]]) simp
  have goodp: "good_ptr (ir_ptr (recs ! k))" using wf_rec_nth [OF assms(1) k] by (simp add: wf_rec_def)
  have goodc: "good_cell recs ?c" by (rule pred_cell_good [OF assms(3) sub])
  have s1: "wf_idx heads1 recs1" "length recs1 = length recs" "\<forall>j. rec_off recs1 j = rec_off recs j" "rec_body (recs1 ! k) = rec_body (recs ! k)"
    using set_cell_wf [OF assms(1) goodp goodc set1] by simp_all
  have k1: "k < length recs1" using k s1(2) by simp
  have len1: "length (rec_body r) = length (rec_body (recs1 ! k))" using assms(9) s1(4) by simp
  have lens: "length (rec_img r) = length (rec_img (recs1 ! k))"
    using assms(7) len1 wf_rec_nth [OF s1(1) k1] by (simp add: length_rec_img)
  have off: "\<forall>j. rec_off recs' j = rec_off recs j" unfolding new using rec_off_update [OF lens k1] s1(3) by simp
  have wf: "wf_idx heads' recs'" unfolding new by (rule wf_idx_set_head [OF wf_idx_set_rec [OF s1(1) assms(7)] goodk])
  have hlen: "length heads1 = NHASH_DEF + 1" using s1(1) by (simp add: wf_idx_def)
  have heads: "heads1 ! i = heads ! i" if "i \<noteq> a" for i using set1 that by (cases "us = []") (simp_all add: pred_cell_def)
  have chain_a: "chain recs1 (heads1 ! a) (us @ vs)" by (rule chain_unlink [OF assms(1) ca assms(3) set1])
  have chain_i: "chain recs1 (heads1 ! i) (ch i)" if "i \<le> NHASH_DEF" "i \<noteq> a" for i
  proof -
    have "\<forall>j. ?c = Link j \<longrightarrow> j \<notin> set (ch i)"
      using chains_ok_disjoint [OF assms(2,3) that(1), of "last us"] that(2) assms(6) last_in_set [of us] by (auto simp: pred_cell_def)
    from chain_unlink_other [OF assms(1) chains_okD [OF assms(2) that(1)] goodc goodp set1 this]
    show ?thesis by (simp add: heads that(2))
  qed
  have notin: "k \<notin> set (ch i)" if "i \<le> NHASH_DEF" "i \<noteq> a" for i
    using chains_ok_disjoint [OF assms(2,3) that(1)] that(2) assms(6) by simp
  have "chain recs' (heads' ! i) ((ch(a := us @ vs, b := k # ch b)) i)" if "i \<le> NHASH_DEF" for i
  proof -
    consider "i = b" | "i = a" | "i \<noteq> a" "i \<noteq> b" by blast
    then show ?thesis
    proof cases
      case 1
      have "chain (recs1[k := r]) (rec_off recs1 k) (k # ch b)"
        using chain_push(2) [OF s1(1) assms(7) len1 k1 chain_i [OF assms(4) assms(5) [symmetric]] notin [OF assms(4) assms(5) [symmetric]]]
          assms(8) heads assms(5) by simp
      then show ?thesis using 1 s1(3) hlen assms(4) by (simp add: new)
    next
      case 2
      have "chain (recs1[k := r]) (heads1 ! a) (us @ vs)"
        by (rule chain_push(1) [OF s1(1) assms(7) len1 k1 chain_a]) (use dist in simp)
      then show ?thesis using 2 assms(5) by (simp add: new)
    next
      case 3
      then show ?thesis using chain_push(1) [OF s1(1) assms(7) len1 k1 chain_i [OF that 3(1)] notin [OF that 3(1)]] by (simp add: new)
    qed
  qed
  moreover have mem: "x \<noteq> k \<and> x \<in> set (ch i) \<or> x = k \<and> i = b" if "i \<le> NHASH_DEF" "x \<in> set ((ch(a := us @ vs, b := k # ch b)) i)" for i x
    using that notin [OF that(1)] assms(5,6) dist by (cases "i = a"; cases "i = b") auto
  have "set ((ch(a := us @ vs, b := k # ch b)) i) \<inter> set ((ch(a := us @ vs, b := k # ch b)) j) = {}"
    if "i \<le> NHASH_DEF" "j \<le> NHASH_DEF" "i \<noteq> j" for i j
  proof (rule equals0I, elim IntE)
    fix x assume "x \<in> set ((ch(a := us @ vs, b := k # ch b)) i)" "x \<in> set ((ch(a := us @ vs, b := k # ch b)) j)"
    then show False using mem [OF that(1)] mem [OF that(2)] chains_ok_disjoint [OF assms(2) that] that(3) by blast
  qed
  ultimately have "chains_ok heads' recs' (ch(a := us @ vs, b := k # ch b))" unfolding chains_ok_def by blast
  moreover have "irec_data (recs' ! j) = irec_data (recs ! j)" if "j \<noteq> k" for j
    using set_cell_data [OF set1] that by (simp add: new)
  ultimately show ?thesis using wf off s1(2) k1 by (simp add: new)
qed

text \<open>A new record at the end of the file, in front of chain \<open>b\<close>.\<close>

lemma chains_ok_append:
  assumes "wf_idx heads recs" and "chains_ok heads recs ch" and "b \<le> NHASH_DEF" and "wf_rec r" and "ir_ptr r = heads ! b"
    and "good_ptr (rec_off recs (length recs))"
  shows "wf_idx (heads[b := rec_off recs (length recs)]) (recs @ [r]) \<and>
    chains_ok (heads[b := rec_off recs (length recs)]) (recs @ [r]) (ch(b := length recs # ch b))"
proof -
  let ?n = "length recs" and ?heads = "heads[b := rec_off recs (length recs)]" and ?ch = "ch(b := length recs # ch b)"
  have b: "b < length heads" using assms(1,3) by (simp add: wf_idx_def)
  have sub: "set (ch i) \<subseteq> {..<?n}" if "i \<le> NHASH_DEF" for i using chains_okD [OF assms(2) that] by (simp add: chain_def)
  have "chain (recs @ [r]) (?heads ! i) (?ch i)" if i: "i \<le> NHASH_DEF" for i
  proof (cases "i = b")
    case True
    have "chain (recs @ [r]) (heads ! b) (ch b)" by (rule chain_grow [OF chains_okD [OF assms(2,3)]])
    then show ?thesis using True b sub [OF assms(3)] assms(5) by (auto simp: chain_Cons rec_off_append)
  next
    case False
    then show ?thesis using chain_grow [OF chains_okD [OF assms(2) i]] by simp
  qed
  moreover have mem: "x \<noteq> ?n \<and> x \<in> set (ch i) \<or> x = ?n \<and> i = b" if "i \<le> NHASH_DEF" "x \<in> set (?ch i)" for i x
    using that sub [OF that(1)] by (cases "i = b") auto
  have "set (?ch i) \<inter> set (?ch j) = {}" if "i \<le> NHASH_DEF" "j \<le> NHASH_DEF" "i \<noteq> j" for i j
  proof (rule equals0I, elim IntE)
    fix x assume "x \<in> set (?ch i)" "x \<in> set (?ch j)"
    then show False using mem [OF that(1)] mem [OF that(2)] chains_ok_disjoint [OF assms(2) that] that(3) by blast
  qed
  ultimately have "chains_ok ?heads (recs @ [r]) ?ch" unfolding chains_ok_def by blast
  then show ?thesis using wf_idx_set_head [OF wf_idx_append [OF assms(1,4)] assms(6)] by simp
qed

subsection \<open>Walking along a chain\<close>

definition counters :: "db \<Rightarrow> (64 word) list" where
  "counters d = [cnt_delok d, cnt_delerr d, cnt_fetchok d, cnt_fetcherr d, cnt_nextrec d, cnt_stor1 d, cnt_stor2 d, cnt_stor3 d, cnt_stor4 d,
     cnt_storerr d]"

text \<open>The part of the state that a search does not touch.\<close>

definition same_files :: "db \<Rightarrow> db \<Rightarrow> bool" where
  "same_files d d' \<longleftrightarrow> db_idx d' = db_idx d \<and> db_dat d' = db_dat d \<and> chainoff d' = chainoff d \<and> hashoff d' = hashoff d \<and> nhash d' = nhash d \<and>
     db_locks d' = db_locks d \<and> counters d' = counters d"

lemma same_files_refl [simp]: "same_files d d"
  by (simp add: same_files_def)

lemma same_files_trans: "same_files d d1 \<Longrightarrow> same_files d1 d2 \<Longrightarrow> same_files d d2"
  by (simp add: same_files_def)

text \<open>The fields that describe record \<open>k\<close> after it has been read.\<close>

definition at_rec :: "irec list \<Rightarrow> nat \<Rightarrow> db \<Rightarrow> bool" where
  "at_rec recs k d \<longleftrightarrow> idxoff d = int (rec_off recs k) \<and> ptrval d = int (ir_ptr (recs ! k)) \<and> idxbuf d = ir_key (recs ! k) \<and>
     datoff d = int (ir_off (recs ! k)) \<and> datlen d = ir_len (recs ! k)"

lemma loaded_facts: "same_files d (loaded recs k d)" "at_rec recs k (loaded recs k d)" "ptroff (loaded recs k d) = ptroff d"
  "idxbuf (loaded recs k d) = ir_key (recs ! k)" "datlen (loaded recs k d) = ir_len (recs ! k)"
  by (simp_all add: loaded_def same_files_def at_rec_def counters_def)

lemma return_db_bind [simp]: "bind_e (return_db x d) f = f (x, d)"
  by (simp add: return_db_def)

lemma return_db_eq [simp]: "return_db x d = return_db y d' \<longleftrightarrow> x = y \<and> d = d'"
  by (simp add: return_db_def)

lemma find_loop_chain:
  assumes "holds d heads recs" and "chain recs p ks" and "length ks \<le> fuel"
  shows "(\<forall>k \<in> set ks. ir_key (recs ! k) \<noteq> key) \<and> (\<exists>d'. find_loop fuel key (int p) d = return_db 0 d' \<and> same_files d d') \<or>
    (\<exists>us k vs d'. ks = us @ k # vs \<and> ir_key (recs ! k) = key \<and> find_loop fuel key (int p) d = return_db (int (rec_off recs k)) d' \<and>
      same_files d d' \<and> at_rec recs k d' \<and> ptroff d' = (if us = [] then ptroff d else int (rec_off recs (last us))))"
  using assms
proof (induction ks arbitrary: p fuel d)
  case Nil
  then show ?case by (simp add: find_loop.simps)
next
  case (Cons k ks)
  have p: "p = rec_off recs k" "k < length recs" "chain recs (ir_ptr (recs ! k)) ks" using Cons(3) by (simp_all add: chain_Cons)
  obtain n where fuel: "fuel = Suc n" "length ks \<le> n" using Cons(4) by (cases fuel) auto
  have p0: "int p \<noteq> 0" using rec_off_pos [of recs k] p(1) by simp
  have read: "db_readidx (int p) d = return_db (int (ir_ptr (recs ! k))) (loaded recs k d)"
    by (rule db_readidx_rec [OF Cons(2) p(2)]) (simp add: p(1))
  have step: "find_loop fuel key (int p) d = (if ir_key (recs ! k) = key then return_db (int p) (loaded recs k d)
      else find_loop n key (int (ir_ptr (recs ! k))) ((loaded recs k d)\<lparr>ptroff := int p\<rparr>))"
    using p0 by (subst find_loop.simps) (simp add: fuel(1) read loaded_facts(4))
  show ?case
  proof (cases "ir_key (recs ! k) = key")
    case True
    then show ?thesis
      unfolding step using p(1) loaded_facts(1-3) by (intro disjI2 exI [of _ "[]"] exI [of _ k] exI [of _ ks] exI [of _ "loaded recs k d"]) simp
  next
    case False
    let ?d = "(loaded recs k d)\<lparr>ptroff := int p\<rparr>"
    have same: "same_files d ?d" using loaded_facts(1) [of d recs k] by (simp add: same_files_def counters_def)
    have "holds ?d heads recs" using Cons(2) same by (simp add: same_files_def)
    from Cons(1) [OF this p(3) fuel(2)] consider
      (none) d' where "\<forall>j \<in> set ks. ir_key (recs ! j) \<noteq> key" "find_loop n key (int (ir_ptr (recs ! k))) ?d = return_db 0 d'" "same_files ?d d'"
    | (some) us j vs d' where "ks = us @ j # vs" "ir_key (recs ! j) = key"
        "find_loop n key (int (ir_ptr (recs ! k))) ?d = return_db (int (rec_off recs j)) d'" "same_files ?d d'" "at_rec recs j d'"
        "ptroff d' = (if us = [] then ptroff ?d else int (rec_off recs (last us)))" by blast
    then show ?thesis
    proof cases
      case none
      then show ?thesis unfolding step using False same_files_trans [OF same] by auto
    next
      case some
      have "ptroff d' = int (rec_off recs (last (k # us)))" using some(6) p(1) by simp
      then show ?thesis
        unfolding step using False some(1-5) same_files_trans [OF same some(4)]
        by (intro disjI2 exI [of _ "k # us"] exI [of _ j] exI [of _ vs] exI [of _ d']) simp
    qed
  qed
qed

lemma findfree_loop_chain:
  assumes "holds d heads recs" and "chain recs p ks" and "length ks \<le> fuel"
  shows "(\<exists>d' so. findfree_loop fuel keylen dlen save (int p) d = return_db (so, 0) d' \<and> same_files d d') \<or>
    (\<exists>us k vs d'. ks = us @ k # vs \<and> length (ir_key (recs ! k)) = keylen \<and> ir_len (recs ! k) = dlen \<and>
      findfree_loop fuel keylen dlen save (int p) d =
        return_db (if us = [] then save else int (rec_off recs (last us)), int (rec_off recs k)) d' \<and>
      same_files d d' \<and> at_rec recs k d')"
  using assms
proof (induction ks arbitrary: p fuel d save)
  case Nil
  then show ?case by (auto simp: findfree_loop.simps)
next
  case (Cons k ks)
  have p: "p = rec_off recs k" "k < length recs" "chain recs (ir_ptr (recs ! k)) ks" using Cons(3) by (simp_all add: chain_Cons)
  obtain n where fuel: "fuel = Suc n" "length ks \<le> n" using Cons(4) by (cases fuel) auto
  have p0: "int p \<noteq> 0" using rec_off_pos [of recs k] p(1) by simp
  have read: "db_readidx (int p) d = return_db (int (ir_ptr (recs ! k))) (loaded recs k d)"
    by (rule db_readidx_rec [OF Cons(2) p(2)]) (simp add: p(1))
  let ?match = "length (ir_key (recs ! k)) = keylen \<and> ir_len (recs ! k) = dlen" and ?d = "loaded recs k d"
  have step: "findfree_loop fuel keylen dlen save (int p) d = (if ?match then return_db (save, int p) ?d
      else findfree_loop n keylen dlen (int p) (int (ir_ptr (recs ! k))) ?d)"
    using p0 by (subst findfree_loop.simps) (simp add: fuel(1) read loaded_facts(4,5))
  show ?case
  proof (cases ?match)
    case True
    then show ?thesis
      unfolding step using p(1) loaded_facts(1,2) by (intro disjI2 exI [of _ "[]"] exI [of _ k] exI [of _ ks] exI [of _ ?d]) simp
  next
    case False
    have same: "same_files d ?d" by (rule loaded_facts(1))
    have "holds ?d heads recs" using Cons(2) same by (simp add: same_files_def)
    from Cons(1) [OF this p(3) fuel(2), of "int p"] consider
      (none) d' so where "findfree_loop n keylen dlen (int p) (int (ir_ptr (recs ! k))) ?d = return_db (so, 0) d'" "same_files ?d d'"
    | (some) us j vs d' where "ks = us @ j # vs" "length (ir_key (recs ! j)) = keylen" "ir_len (recs ! j) = dlen"
        "findfree_loop n keylen dlen (int p) (int (ir_ptr (recs ! k))) ?d =
          return_db (if us = [] then int p else int (rec_off recs (last us)), int (rec_off recs j)) d'" "same_files ?d d'" "at_rec recs j d'" by blast
    then show ?thesis
    proof cases
      case none
      then show ?thesis unfolding step if_not_P [OF False] using same_files_trans [OF same] by blast
    next
      case some
      have "(if us = [] then int p else int (rec_off recs (last us))) = int (rec_off recs (last (k # us)))" using p(1) by simp
      then show ?thesis
        unfolding step if_not_P [OF False] some(4) using some(1-3,6) same_files_trans [OF same some(5)]
        by (intro disjI2 exI [of _ "k # us"] exI [of _ j] exI [of _ vs] exI [of _ d']) simp
    qed
  qed
qed

end
