(* ===== verification/Db_Map.thy ===== *)
theory Db_Map
  imports Db_Chains
begin

section \<open>The database as a map\<close>

text \<open>
  A pair of files that \<^verbatim>\<open>db.c\<close> has written represents a finite map from keys to data. This theory states when it does and shows
  that every operation of the library does to the files what it promises to do to the map.
\<close>

subsection \<open>The representation\<close>

definition key_hash :: "string \<Rightarrow> nat" where
  "key_hash key = unat (hash_loop key 1 0 mod word_of_nat NHASH_DEF)"

lemma key_hash_less: "key_hash key < NHASH_DEF"
proof -
  have "unat (hash_loop key 1 0) mod unat (word_of_nat NHASH_DEF :: 64 word) < unat (word_of_nat NHASH_DEF :: 64 word)"
    by (rule mod_less_divisor) (simp add: NHASH_DEF_def)
  then show ?thesis by (simp add: key_hash_def unat_mod NHASH_DEF_def)
qed

lemma db_hash_eq: "nhash d = NHASH_DEF \<Longrightarrow> db_hash d key = key_hash key"
  by (simp add: db_hash_def key_hash_def)

abbreviation key_of :: "irec list \<Rightarrow> nat \<Rightarrow> string" where
  "key_of recs k \<equiv> ir_key (recs ! k)"

text \<open>
  The records \<open>live\<close> hold the keys, each in the chain of its hash value; the others are in the free list, chain 0, and have a
  blank key. No key occurs twice.
\<close>

definition idx_ok :: "nat list \<Rightarrow> irec list \<Rightarrow> nat set \<Rightarrow> (nat \<Rightarrow> nat list) \<Rightarrow> bool" where
  "idx_ok heads recs live ch \<longleftrightarrow> wf_idx heads recs \<and> chains_ok heads recs ch \<and> live \<subseteq> {..<length recs} \<and>
     set (ch 0) = {..<length recs} - live \<and> (\<forall>h < NHASH_DEF. set (ch (Suc h)) = {k \<in> live. key_hash (key_of recs k) = h}) \<and>
     inj_on (key_of recs) live \<and> (\<forall>k < length recs. k \<notin> live \<longrightarrow> blank (key_of recs k))"

definition span :: "irec \<Rightarrow> nat set" where
  "span r = {ir_off r..<ir_off r + ir_len r}"

text \<open>The data records lie side by side in the data file, those of live records with a newline at the end.\<close>

definition data_ok :: "string \<Rightarrow> irec list \<Rightarrow> nat set \<Rightarrow> (string \<rightharpoonup> string) \<Rightarrow> bool" where
  "data_ok dat recs live m \<longleftrightarrow> (\<forall>k < length recs. ir_off (recs ! k) + ir_len (recs ! k) \<le> length dat) \<and>
     (\<forall>j < length recs. \<forall>k < length recs. j \<noteq> k \<longrightarrow> span (recs ! j) \<inter> span (recs ! k) = {}) \<and>
     (\<forall>k \<in> live. \<exists>x. m (key_of recs k) = Some x \<and> pread dat (ir_off (recs ! k)) (ir_len (recs ! k)) = x @ [NEWLINE] \<and> NUL \<notin> set x) \<and>
     dom m = key_of recs ` live"

definition files_rep :: "string \<Rightarrow> string \<Rightarrow> (string \<rightharpoonup> string) \<Rightarrow> bool" where
  "files_rep idx dat m \<longleftrightarrow> (\<exists>heads recs live ch. idx = idx_img heads recs \<and> idx_ok heads recs live ch \<and> data_ok dat recs live m)"

definition db_rep :: "db \<Rightarrow> (string \<rightharpoonup> string) \<Rightarrow> bool" where
  "db_rep d m \<longleftrightarrow> files_rep (db_idx d) (db_dat d) m \<and> nhash d = NHASH_DEF \<and> hashoff d = HASH_OFF \<and> db_locks d = []"

lemma idx_ok_wf: "idx_ok heads recs live ch \<Longrightarrow> wf_idx heads recs"
  by (simp add: idx_ok_def)

lemma files_rep_obtain:
  assumes "files_rep (db_idx d) (db_dat d) m"
  obtains heads recs live ch where "holds d heads recs" and "idx_ok heads recs live ch" and "data_ok (db_dat d) recs live m"
  using assms idx_ok_wf unfolding files_rep_def by blast

lemma length_recs_le: "wf_idx heads recs \<Longrightarrow> length recs \<le> length (idx_img heads recs)"
proof -
  assume wf: "wf_idx heads recs"
  have "k \<le> length recs \<Longrightarrow> k \<le> rec_off recs k" for k
  proof (induction k)
    case (Suc k)
    have pos: "0 < length (rec_img (recs ! k))" by (rule rec_img_nonempty [OF wf_rec_nth [OF wf]]) (use Suc in simp)
    have "rec_off recs (Suc k) = rec_off recs k + length (rec_img (recs ! k))" by (rule rec_off_Suc) (use Suc in simp)
    then show ?case using Suc pos by linarith
  qed simp
  then show ?thesis using length_idx_img [OF wf] by simp
qed

subsection \<open>Searching\<close>

text \<open>The state after a search for a key of chain \<open>i\<close>: the files are as before and the chain is locked.\<close>

definition searched :: "nat \<Rightarrow> db \<Rightarrow> db \<Rightarrow> bool" where
  "searched i d d' \<longleftrightarrow> db_idx d' = db_idx d \<and> db_dat d' = db_dat d \<and> chainoff d' = int (i * PTR_SZ) \<and> hashoff d' = hashoff d \<and>
     nhash d' = nhash d \<and> db_locks d' = (IdxFile, int (i * PTR_SZ), 1) # db_locks d \<and> counters d' = counters d"

lemma db_find_run:
  assumes "holds d heads recs" and "idx_ok heads recs live ch" and "nhash d = NHASH_DEF" and "hashoff d = HASH_OFF" and "i = Suc (key_hash key)"
  shows "(key \<notin> key_of recs ` live \<and> (\<exists>d'. db_find_and_lock key d = return_db (-1) d' \<and> searched i d d')) \<or>
    (\<exists>us k vs d'. k \<in> live \<and> key_of recs k = key \<and> ch i = us @ k # vs \<and> db_find_and_lock key d = return_db 0 d' \<and> searched i d d' \<and>
      at_rec recs k d' \<and> ptroff d' = int (cell_addr recs (pred_cell i us)))"
proof -
  define d2 where "d2 = lock_db (IdxFile, int (i * PTR_SZ), 1) (d\<lparr>chainoff := int (i * PTR_SZ), ptroff := int (i * PTR_SZ)\<rparr>)"
  define d3 where "d3 = d2\<lparr>db_pos := i * PTR_SZ + PTR_SZ\<rparr>"
  have i: "i \<le> NHASH_DEF" using key_hash_less [of key] assms(5) by simp
  have chain: "chain recs (heads ! i) (ch i)" using assms(2) i by (simp add: idx_ok_def chains_okD)
  have off: "int (db_hash d key * PTR_SZ) + hashoff d = int (i * PTR_SZ)"
    using assms(3-5) by (simp add: db_hash_eq HASH_OFF_def PTR_SZ_def)
  have d2: "holds d2 heads recs" using assms(1) by (simp add: d2_def lock_db_def)
  have d3: "holds d3 heads recs" "searched i d d3" "ptroff d3 = int (i * PTR_SZ)"
    using assms(1) by (simp_all add: d3_def d2_def lock_db_def searched_def counters_def)
  have read: "db_readptr (int (i * PTR_SZ)) d2 = return_db (int (heads ! i)) d3"
    using db_readptr_head [OF d2 i] by (simp only: d3_def)
  have run: "db_find_and_lock key d = bind_e (find_loop (length (db_idx d3)) key (int (heads ! i)) d3)
      (\<lambda>(found, d4). return_db (if found = 0 then -1 else 0) d4)"
    unfolding db_find_and_lock_def Let_def off using read by (simp add: d2_def lock_db_def chain_lock_def del: of_nat_mult)
  have fuel: "length (ch i) \<le> length (db_idx d3)"
    using chain_length [OF chain] length_recs_le [of heads recs] assms(1) d3(1) by simp
  have same: "searched i d d'" if "same_files d3 d'" for d' using d3(2) that by (simp add: searched_def same_files_def)
  have members: "set (ch i) = {k \<in> live. key_hash (key_of recs k) = key_hash key}"
    using assms(2,5) key_hash_less [of key] by (simp add: idx_ok_def)
  from find_loop_chain [OF d3(1) chain fuel, of key] show ?thesis
  proof (elim disjE conjE exE)
    fix d' assume none: "\<forall>k \<in> set (ch i). key_of recs k \<noteq> key"
      and "find_loop (length (db_idx d3)) key (int (heads ! i)) d3 = return_db 0 d'" "same_files d3 d'"
    then have "db_find_and_lock key d = return_db (-1) d'" unfolding run by simp
    moreover have "key \<notin> key_of recs ` live" using none members by auto
    ultimately show ?thesis using same [OF \<open>same_files d3 d'\<close>] by blast
  next
    fix us k vs d' assume k: "ch i = us @ k # vs" "key_of recs k = key"
      and "find_loop (length (db_idx d3)) key (int (heads ! i)) d3 = return_db (int (rec_off recs k)) d'" "same_files d3 d'" "at_rec recs k d'"
      and ptr: "ptroff d' = (if us = [] then ptroff d3 else int (rec_off recs (last us)))"
    then have "db_find_and_lock key d = return_db 0 d'" unfolding run using rec_off_pos [of recs k] by simp
    moreover have "ptroff d' = int (cell_addr recs (pred_cell i us))" using ptr d3(3) by (simp add: pred_cell_def)
    moreover have "k \<in> live" using k(1) members by auto
    ultimately show ?thesis using k same [OF \<open>same_files d3 d'\<close>] \<open>at_rec recs k d'\<close> by blast
  qed
qed

lemma db_readdat_run:
  assumes "at_rec recs k d" and "pread (db_dat d) (ir_off (recs ! k)) (ir_len (recs ! k)) = x @ [NEWLINE]" and "NUL \<notin> set x"
    and "ir_off (recs ! k) + ir_len (recs ! k) \<le> length (db_dat d)"
  shows "db_readdat d = return_db x (d\<lparr>datbuf := x\<rparr>)"
proof -
  have at: "datoff d = int (ir_off (recs ! k))" "datlen d = ir_len (recs ! k)" using assms(1) by (simp_all add: at_rec_def)
  have "length (pread (db_dat d) (ir_off (recs ! k)) (ir_len (recs ! k))) = ir_len (recs ! k)" using assms(4) by (simp add: pread_def)
  then show ?thesis unfolding db_readdat_def at Let_def nat_int assms(2) using cstr_clean [OF assms(3)] by simp
qed

lemma unlock_searched:
  assumes "searched i d d'"
  shows "chain_lock d' = (IdxFile, int (i * PTR_SZ), 1)"
    and "db_locks d = [] \<Longrightarrow> db_locks (unlock_db (chain_lock d') d') = []"
proof -
  show l: "chain_lock d' = (IdxFile, int (i * PTR_SZ), 1)" using assms by (simp add: searched_def chain_lock_def)
  show "db_locks d = [] \<Longrightarrow> db_locks (unlock_db (chain_lock d') d') = []"
    unfolding l using assms by (simp add: unlock_db_def searched_def del: of_nat_mult)
qed

lemma db_fetch_rep:
  assumes "db_rep d m"
  shows "\<exists>d'. db_fetch key d = return_db (m key) d' \<and> db_rep d' m \<and> db_close d' = db_close d"
proof -
  obtain heads recs live ch where h: "holds d heads recs" and ok: "idx_ok heads recs live ch" and dat: "data_ok (db_dat d) recs live m"
    and n: "nhash d = NHASH_DEF" "hashoff d = HASH_OFF" "db_locks d = []"
    using assms files_rep_obtain unfolding db_rep_def by metis
  define i where "i = Suc (key_hash key)"
  have rep: "db_rep e m \<and> db_close e = db_close d"
    if "db_idx e = db_idx d" "db_dat e = db_dat d" "nhash e = nhash d" "hashoff e = hashoff d" "db_locks e = []" for e
    using that assms by (simp add: db_rep_def db_close_def)
  from db_find_run [OF h ok n(1,2) i_def] show ?thesis
  proof (elim disjE conjE exE)
    fix d' assume none: "key \<notin> key_of recs ` live" and run: "db_find_and_lock key d = return_db (-1) d'" and s: "searched i d d'"
    let ?e = "d'\<lparr>cnt_fetcherr := cnt_fetcherr d' + 1\<rparr>"
    have l: "chain_lock ?e = chain_lock d'" by (simp add: chain_lock_def)
    have "db_fetch key d = return_db None (unlock_db (chain_lock d') ?e)" unfolding db_fetch_def run by (simp add: Let_def l)
    moreover have "m key = None" using none dat by (metis data_ok_def domIff)
    moreover have "db_rep (unlock_db (chain_lock d') ?e) m \<and> db_close (unlock_db (chain_lock d') ?e) = db_close d"
      by (rule rep) (use s unlock_searched [OF s] n(3) in \<open>simp_all add: searched_def unlock_db_def\<close>)
    ultimately show ?thesis by auto
  next
    fix us k vs d' assume k: "k \<in> live" "key_of recs k = key" and run: "db_find_and_lock key d = return_db 0 d'" and s: "searched i d d'"
      and at: "at_rec recs k d'"
    obtain x where x: "m key = Some x" "pread (db_dat d) (ir_off (recs ! k)) (ir_len (recs ! k)) = x @ [NEWLINE]" "NUL \<notin> set x"
      using dat k by (auto simp: data_ok_def)
    have bound: "ir_off (recs ! k) + ir_len (recs ! k) \<le> length (db_dat d)"
      using dat ok k(1) unfolding data_ok_def idx_ok_def by auto
    have same: "db_dat d' = db_dat d" using s by (simp add: searched_def)
    have read: "db_readdat d' = return_db x (d'\<lparr>datbuf := x\<rparr>)"
      by (rule db_readdat_run [OF at]) (use x bound same in simp_all)
    let ?e = "d'\<lparr>datbuf := x, cnt_fetchok := cnt_fetchok d' + 1\<rparr>"
    have l: "chain_lock ?e = chain_lock d'" by (simp add: chain_lock_def)
    have "db_fetch key d = return_db (Some x) (unlock_db (chain_lock d') ?e)" unfolding db_fetch_def run by (simp add: Let_def read l)
    moreover have "db_rep (unlock_db (chain_lock d') ?e) m \<and> db_close (unlock_db (chain_lock d') ?e) = db_close d"
      by (rule rep) (use s unlock_searched [OF s] n(3) in \<open>simp_all add: searched_def unlock_db_def\<close>)
    ultimately show ?thesis using x(1) by auto
  qed
qed

end
