(* ===== verification/Db_Update.thy ===== *)
theory Db_Update
  imports Db_Map
begin

section \<open>Deleting and storing\<close>

text \<open>
  What \<^verbatim>\<open>_db_dodelete\<close>, \<^verbatim>\<open>db_delete\<close> and the branches of \<^verbatim>\<open>db_store\<close> do to the represented map. The steps on the data file
  (overwriting a slot, appending a slot) and on the chains (moving a record, appending a record) are shown first, each alone.
\<close>

subsection \<open>The data file\<close>

lemma pwrite_inside: "off + length s \<le> length f \<Longrightarrow> pwrite f off s = take off f @ s @ drop (off + length s) f"
  by (simp add: pwrite_def)

lemma length_pwrite_inside: "off + length s \<le> length f \<Longrightarrow> length (pwrite f off s) = length f"
  by (simp add: pwrite_inside)

lemma pread_pwrite_same: "off + length s \<le> length f \<Longrightarrow> n = length s \<Longrightarrow> pread (pwrite f off s) off n = s"
  by (simp add: pwrite_inside pread_def)

lemma pread_pwrite_other:
  assumes "off + length s \<le> length f" and "a + n \<le> off \<or> off + length s \<le> a"
  shows "pread (pwrite f off s) a n = pread f a n"
  using assms(2)
proof
  assume "a + n \<le> off"
  then have le: "n \<le> off - a" "a \<le> off" "off \<le> length f" using assms(1) by simp_all
  then have "take n (drop a (take off f @ s @ drop (off + length s) f)) = take n (drop a f)"
    by (simp add: drop_take min_absorb1 min_absorb2)
  then show ?thesis by (simp add: pwrite_inside assms(1) pread_def)
next
  assume "off + length s \<le> a"
  moreover from this have "off \<le> length f" "a - off - length s + (off + length s) = a" using assms(1) by simp_all
  ultimately show ?thesis using assms(1) by (simp add: pwrite_inside pread_def)
qed

lemma span_disjoint:
  assumes "span r \<inter> span r' = {}" and "1 \<le> ir_len r" and "1 \<le> ir_len r'"
  shows "ir_off r + ir_len r \<le> ir_off r' \<or> ir_off r' + ir_len r' \<le> ir_off r"
proof (rule ccontr)
  assume n: "\<not> ?thesis"
  have "max (ir_off r) (ir_off r') \<in> span r \<inter> span r'" using n assms(2,3) by (auto simp: span_def max_def)
  then show False using assms(1) by blast
qed

lemma irec_dataD: "irec_data r = irec_data r' \<Longrightarrow> ir_key r = ir_key r' \<and> ir_off r = ir_off r' \<and> ir_len r = ir_len r'"
  by (simp add: irec_data_def)

lemma span_cong: "ir_off r = ir_off r' \<Longrightarrow> ir_len r = ir_len r' \<Longrightarrow> span r = span r'"
  by (simp add: span_def)

lemma data_ok_drop:
  assumes "data_ok dat recs live m" and "k \<in> live" and "inj_on (key_of recs) live"
  shows "data_ok dat recs (live - {k}) (m(key_of recs k := None))"
proof -
  have "key_of recs j \<noteq> key_of recs k" if "j \<in> live - {k}" for j using that assms(2,3) by (auto dest: inj_onD)
  moreover have "key_of recs ` (live - {k}) = key_of recs ` live - {key_of recs k}"
    using inj_on_image_set_diff [OF assms(3), of live "{k}"] assms(2) by auto
  ultimately show ?thesis using assms(1) unfolding data_ok_def by (auto split: if_splits)
qed

lemma data_ok_add:
  assumes "data_ok dat recs live m" and "k < length recs" and "key_of recs k \<notin> key_of recs ` live"
    and "pread dat (ir_off (recs ! k)) (ir_len (recs ! k)) = x @ [NEWLINE]" and "NUL \<notin> set x"
  shows "data_ok dat recs (insert k live) (m(key_of recs k \<mapsto> x))"
proof -
  have "key_of recs j \<noteq> key_of recs k" if "j \<in> live" for j using that assms(3) by (metis image_eqI)
  then show ?thesis using assms unfolding data_ok_def by auto
qed

lemma data_ok_write:
  assumes "data_ok dat recs live m" and "k \<notin> live" and "k < length recs" and "live \<subseteq> {..<length recs}" and "\<forall>j < length recs. 1 \<le> ir_len (recs ! j)"
    and "length s = ir_len (recs ! k)" and "length recs' = length recs" and "\<forall>j. j \<noteq> k \<longrightarrow> irec_data (recs' ! j) = irec_data (recs ! j)"
    and "ir_off (recs' ! k) = ir_off (recs ! k)" and "ir_len (recs' ! k) = ir_len (recs ! k)"
  shows "data_ok (pwrite dat (ir_off (recs ! k)) s) recs' live m"
proof -
  let ?dat = "pwrite dat (ir_off (recs ! k)) s"
  have inside: "ir_off (recs ! k) + length s \<le> length dat" using assms(1,3,6) by (simp add: data_ok_def)
  have same: "ir_off (recs' ! j) = ir_off (recs ! j)" "ir_len (recs' ! j) = ir_len (recs ! j)" for j
    using assms(8-10) irec_dataD by (cases "j = k"; blast)+
  have span: "span (recs' ! j) = span (recs ! j)" for j by (rule span_cong) (rule same)+
  have key: "key_of recs' j = key_of recs j" if "j \<in> live" for j using that assms(2,8) irec_dataD by metis
  have read: "pread ?dat (ir_off (recs ! j)) (ir_len (recs ! j)) = pread dat (ir_off (recs ! j)) (ir_len (recs ! j))" if j: "j \<in> live" for j
  proof (rule pread_pwrite_other [OF inside])
    have "j < length recs" "j \<noteq> k" using j assms(2,4) by auto
    then have "span (recs ! j) \<inter> span (recs ! k) = {}" using assms(1,3) by (simp add: data_ok_def)
    then show "ir_off (recs ! j) + ir_len (recs ! j) \<le> ir_off (recs ! k) \<or> ir_off (recs ! k) + length s \<le> ir_off (recs ! j)"
      using span_disjoint assms(3,5,6) \<open>j < length recs\<close> by metis
  qed
  have "key_of recs' ` live = key_of recs ` live" using key by (rule image_cong [OF refl])
  then show ?thesis
    using assms(1,7) unfolding data_ok_def same span length_pwrite_inside [OF inside] by (simp add: key read)
qed

lemma data_ok_append:
  assumes "data_ok dat recs live m" and "live \<subseteq> {..<length recs}" and "ir_off r = length dat" and "ir_len r = length s"
  shows "data_ok (dat @ s) (recs @ [r]) live m"
proof -
  let ?n = "length recs" and ?recs = "recs @ [r]"
  have bound: "ir_off (recs ! j) + ir_len (recs ! j) \<le> length dat" if "j < ?n" for j using that assms(1) by (simp add: data_ok_def)
  have old: "?recs ! j = recs ! j" if "j < ?n" for j using that by (simp add: nth_append)
  have apart: "span (recs ! j) \<inter> span r = {}" if "j < ?n" for j using bound [OF that] assms(3) by (auto simp: span_def)
  have disj: "span (?recs ! i) \<inter> span (?recs ! j) = {}" if "i < Suc ?n" "j < Suc ?n" "i \<noteq> j" for i j
  proof -
    consider "i < ?n" "j < ?n" | "i = ?n" "j < ?n" | "i < ?n" "j = ?n" using \<open>i < Suc ?n\<close> \<open>j < Suc ?n\<close> \<open>i \<noteq> j\<close> by linarith
    then show ?thesis
    proof cases
      case 1
      then show ?thesis using assms(1) \<open>i \<noteq> j\<close> by (simp add: old data_ok_def)
    qed (use apart old in \<open>auto simp: Int_commute\<close>)
  qed
  have live: "?recs ! j = recs ! j" "pread (dat @ s) (ir_off (recs ! j)) (ir_len (recs ! j)) = pread dat (ir_off (recs ! j)) (ir_len (recs ! j))"
    if "j \<in> live" for j using that assms(2) bound [of j] by (auto simp: pread_def old)
  have "key_of ?recs ` live = key_of recs ` live" by (rule image_cong [OF refl]) (simp add: live(1))
  moreover have "ir_off (?recs ! j) + ir_len (?recs ! j) \<le> length (dat @ s)" if "j < Suc ?n" for j
    using that bound [of j] assms(3,4) by (cases "j = ?n") (simp_all add: old)
  ultimately show ?thesis using assms(1) disj unfolding data_ok_def by (simp add: live)
qed

subsection \<open>The index file\<close>

lemma idx_ok_live: "idx_ok heads recs live ch \<Longrightarrow> k \<in> live \<Longrightarrow> k < length recs"
  by (auto simp: idx_ok_def)

lemma key_of_cong: "\<forall>j. j \<noteq> k \<longrightarrow> irec_data (recs' ! j) = irec_data (recs ! j) \<Longrightarrow> j \<noteq> k \<Longrightarrow> key_of recs' j = key_of recs j"
  by (simp add: irec_data_def)

text \<open>Record \<open>k\<close> moves from its hash chain to the free list.\<close>

lemma idx_ok_delete:
  assumes "idx_ok heads recs live ch" and "i \<le> NHASH_DEF" and "0 < i" and "ch i = us @ k # vs" and "wf_rec r" and "ir_ptr r = heads ! 0"
    and "length (rec_body r) = length (rec_body (recs ! k))" and "(heads', recs') = move heads recs i us k 0 r" and "blank (ir_key r)"
  shows "idx_ok heads' recs' (live - {k}) (ch(i := us @ vs, 0 := k # ch 0)) \<and> k \<in> live"
proof -
  let ?ch = "ch(i := us @ vs, 0 := k # ch 0)"
  obtain h where h: "i = Suc h" "h < NHASH_DEF" using assms(2,3) by (cases i) auto
  have ok: "wf_idx heads recs" "chains_ok heads recs ch" and sub: "live \<subseteq> {..<length recs}" and free: "set (ch 0) = {..<length recs} - live"
    and hash: "\<And>h. h < NHASH_DEF \<Longrightarrow> set (ch (Suc h)) = {k \<in> live. key_hash (key_of recs k) = h}" and inj: "inj_on (key_of recs) live"
    and blank: "\<And>k. k < length recs \<Longrightarrow> k \<notin> live \<Longrightarrow> blank (key_of recs k)"
    using assms(1) by (simp_all add: idx_ok_def)
  from chains_ok_move [OF ok assms(2) _ _ assms(4-8)] assms(3)
  have new: "wf_idx heads' recs'" "chains_ok heads' recs' ?ch" "length recs' = length recs"
    "\<forall>j. j \<noteq> k \<longrightarrow> irec_data (recs' ! j) = irec_data (recs ! j)" "recs' ! k = r" by simp_all
  have key: "key_of recs' j = key_of recs j" if "j \<noteq> k" for j using new(4) that by (rule key_of_cong)
  have chi: "set (ch i) = {k \<in> live. key_hash (key_of recs k) = h}" using hash [OF h(2)] h(1) by simp
  have "k \<in> set (ch i)" using assms(4) by simp
  then have k: "k \<in> live" "key_hash (key_of recs k) = h" unfolding chi by simp_all
  have "distinct (us @ k # vs)" using chains_okD [OF ok(2) assms(2)] assms(4) by (simp add: chain_def)
  then have rest: "set (us @ vs) = set (ch i) - {k}" using assms(4) by auto
  have "set (?ch (Suc g)) = {j \<in> live - {k}. key_hash (key_of recs' j) = g}" if "g < NHASH_DEF" for g
  proof (cases "g = h")
    case True
    have "set (?ch (Suc g)) = set (ch i) - {k}" using rest True h(1) by simp
    then show ?thesis using True key unfolding chi by auto
  next
    case False
    then have "set (?ch (Suc g)) = {j \<in> live. key_hash (key_of recs j) = g}" using hash [OF that] h(1) by simp
    moreover have "j \<in> live \<and> key_hash (key_of recs j) = g \<longleftrightarrow> j \<in> live - {k} \<and> key_hash (key_of recs' j) = g" for j
      using k(2) False key [of j] by (cases "j = k") simp_all
    ultimately show ?thesis by simp
  qed
  moreover have "set (?ch 0) = {..<length recs'} - (live - {k})" using free new(3) k(1) sub by auto
  moreover have "inj_on (key_of recs') (live - {k})"
  proof -
    have "inj_on (key_of recs) (live - {k})" using inj by (rule inj_on_subset) blast
    moreover have "key_of recs' j = key_of recs j" if "j \<in> live - {k}" for j using that key by simp
    ultimately show ?thesis using inj_on_cong [of "live - {k}" "key_of recs'" "key_of recs"] by blast
  qed
  moreover have "blank (key_of recs' j)" if "j < length recs'" "j \<notin> live - {k}" for j
    using that blank [of j] key [of j] new(3,5) assms(9) by (cases "j = k") simp_all
  moreover have "live - {k} \<subseteq> {..<length recs'}" using sub new(3) by auto
  ultimately show ?thesis using new(1,2) k(1) unfolding idx_ok_def by simp
qed

text \<open>Record \<open>k\<close> of the free list becomes the record of a new key.\<close>

lemma inj_on_insert_key:
  assumes "inj_on (key_of recs) live" and "\<forall>j \<in> live. key_of recs' j = key_of recs j" and "key_of recs' k \<notin> key_of recs ` live" and "k \<notin> live"
  shows "inj_on (key_of recs') (insert k live)"
proof -
  have "inj_on (key_of recs') live" using assms(1,2) by (metis (no_types, lifting) inj_on_cong)
  moreover have "key_of recs' ` live = key_of recs ` live" by (rule image_cong [OF refl]) (use assms(2) in simp)
  ultimately show ?thesis using assms(3,4) by (simp add: inj_on_insert)
qed

lemma idx_ok_reuse:
  assumes "idx_ok heads recs live ch" and "i = Suc (key_hash (ir_key r))" and "ch 0 = us @ k # vs" and "wf_rec r" and "ir_ptr r = heads ! i"
    and "length (rec_body r) = length (rec_body (recs ! k))" and "(heads', recs') = move heads recs 0 us k i r"
    and "ir_key r \<notin> key_of recs ` live"
  shows "idx_ok heads' recs' (insert k live) (ch(0 := us @ vs, i := k # ch i))"
proof -
  let ?ch = "ch(0 := us @ vs, i := k # ch i)"
  have i: "i \<le> NHASH_DEF" "i \<noteq> 0" using key_hash_less [of "ir_key r"] assms(2) by simp_all
  have ok: "wf_idx heads recs" "chains_ok heads recs ch" and sub: "live \<subseteq> {..<length recs}" and free: "set (ch 0) = {..<length recs} - live"
    and hash: "\<And>h. h < NHASH_DEF \<Longrightarrow> set (ch (Suc h)) = {k \<in> live. key_hash (key_of recs k) = h}" and inj: "inj_on (key_of recs) live"
    and blank: "\<And>k. k < length recs \<Longrightarrow> k \<notin> live \<Longrightarrow> blank (key_of recs k)"
    using assms(1) by (simp_all add: idx_ok_def)
  from chains_ok_move [OF ok _ i(1) _ assms(3-7)] i(2)
  have new: "wf_idx heads' recs'" "chains_ok heads' recs' ?ch" "length recs' = length recs" "recs' ! k = r"
    "\<forall>j. j \<noteq> k \<longrightarrow> irec_data (recs' ! j) = irec_data (recs ! j)" by simp_all
  have key: "key_of recs' j = key_of recs j" if "j \<noteq> k" for j using new(5) that by (rule key_of_cong)
  have k: "k \<notin> live" "k < length recs" using free assms(3) by auto
  have "distinct (us @ k # vs)" using chains_okD [OF ok(2), of 0] assms(3) by (simp add: chain_def)
  then have rest: "set (us @ vs) = set (ch 0) - {k}" using assms(3) by auto
  have "set (?ch (Suc g)) = {j \<in> insert k live. key_hash (key_of recs' j) = g}" if "g < NHASH_DEF" for g
  proof -
    have "key_of recs' j = key_of recs j" if "j \<in> live" for j using that key k(1) by metis
    then show ?thesis using hash [OF that] k(1) new(4) assms(2) by (auto simp: fun_upd_def)
  qed
  moreover have "set (?ch 0) = {..<length recs'} - insert k live" using free rest new(3) i(2) by auto
  moreover have "inj_on (key_of recs') (insert k live)"
  proof (rule inj_on_insert_key [OF inj])
    show "\<forall>j \<in> live. key_of recs' j = key_of recs j" using key k(1) by metis
  qed (use k(1) new(4) assms(8) in simp_all)
  moreover have "blank (key_of recs' j)" if "j < length recs'" "j \<notin> insert k live" for j
    using that blank [of j] key [of j] new(3) by simp
  moreover have "insert k live \<subseteq> {..<length recs'}" using sub new(3) k(2) by auto
  ultimately show ?thesis using new(1,2) unfolding idx_ok_def by simp
qed

lemma idx_ok_append:
  assumes "idx_ok heads recs live ch" and "i = Suc (key_hash (ir_key r))" and "wf_rec r" and "ir_ptr r = heads ! i"
    and "good_ptr (rec_off recs (length recs))" and "ir_key r \<notin> key_of recs ` live"
  shows "idx_ok (heads[i := rec_off recs (length recs)]) (recs @ [r]) (insert (length recs) live) (ch(i := length recs # ch i))"
proof -
  let ?ch = "ch(i := length recs # ch i)" and ?recs = "recs @ [r]" and ?n = "length recs"
  have i: "i \<le> NHASH_DEF" "i \<noteq> 0" using key_hash_less [of "ir_key r"] assms(2) by simp_all
  have ok: "wf_idx heads recs" "chains_ok heads recs ch" and sub: "live \<subseteq> {..<?n}" and free: "set (ch 0) = {..<?n} - live"
    and hash: "\<And>h. h < NHASH_DEF \<Longrightarrow> set (ch (Suc h)) = {k \<in> live. key_hash (key_of recs k) = h}" and inj: "inj_on (key_of recs) live"
    and blank: "\<And>k. k < length recs \<Longrightarrow> k \<notin> live \<Longrightarrow> blank (key_of recs k)"
    using assms(1) by (simp_all add: idx_ok_def)
  have new: "wf_idx (heads[i := rec_off recs ?n]) ?recs" "chains_ok (heads[i := rec_off recs ?n]) ?recs ?ch"
    using chains_ok_append [OF ok i(1) assms(3-5)] by simp_all
  have notin: "?n \<notin> live" using sub by auto
  have key: "key_of ?recs j = key_of recs j" if "j \<in> live" for j using that sub by (auto simp: nth_append)
  have "set (?ch (Suc g)) = {j \<in> insert ?n live. key_hash (key_of ?recs j) = g}" if "g < NHASH_DEF" for g
    using hash [OF that] key notin assms(2) by (auto simp: fun_upd_def)
  moreover have "set (?ch 0) = {..<length ?recs} - insert ?n live" using free i(2) sub by auto
  moreover have "inj_on (key_of ?recs) (insert ?n live)"
    by (rule inj_on_insert_key [OF inj]) (use key notin assms(6) in auto)
  moreover have "blank (key_of ?recs j)" if "j < length ?recs" "j \<notin> insert ?n live" for j
    using that blank [of j] by (simp add: nth_append)
  moreover have "insert ?n live \<subseteq> {..<length ?recs}" using sub by auto
  ultimately show ?thesis using new unfolding idx_ok_def by simp
qed

subsection \<open>Deleting a record\<close>

text \<open>The part of the structure that stays through an operation.\<close>

definition same_handle :: "db \<Rightarrow> db \<Rightarrow> bool" where
  "same_handle d d' \<longleftrightarrow> chainoff d' = chainoff d \<and> hashoff d' = hashoff d \<and> nhash d' = nhash d \<and> db_locks d' = db_locks d"

lemma db_writedat_run:
  shows "db_writedat data (int off) SEEK_SET d =
      return_db () (d\<lparr>datoff := int off, datlen := length data + 1, db_dat := pwrite (db_dat d) off (data @ [NEWLINE])\<rparr>)"
    and "(DatFile, 0, 0) \<notin> set (db_locks d) \<Longrightarrow> db_writedat data 0 SEEK_END d =
      return_db () (d\<lparr>datoff := int (length (db_dat d)), datlen := length data + 1, db_dat := db_dat d @ data @ [NEWLINE]\<rparr>)"
  by (simp_all add: db_writedat_def Let_def lock_db_def unlock_db_def pwrite_end)

definition blanked :: "irec \<Rightarrow> nat \<Rightarrow> irec" where
  "blanked r p = r\<lparr>ir_ptr := p, ir_key := replicate (length (ir_key r)) SPACE\<rparr>"

lemma blanked_facts:
  assumes "wf_rec r" and "good_ptr p"
  shows "wf_rec (blanked r p)" and "length (rec_body (blanked r p)) = length (rec_body r)"
    and "ir_ptr (blanked r p) = p" and "ir_off (blanked r p) = ir_off r" and "ir_len (blanked r p) = ir_len r"
    and "ir_key (blanked r p) = replicate (length (ir_key r)) SPACE"
proof -
  show len: "length (rec_body (blanked r p)) = length (rec_body r)" by (simp add: rec_body_def idx_body_def blanked_def)
  have "good_key (replicate n SPACE)" for n by (simp add: good_key_def db_chars)
  then show "wf_rec (blanked r p)" using assms len by (simp add: wf_rec_def blanked_def)
qed (simp_all add: blanked_def)

lemma set_cell_commute:
  assumes "i \<noteq> 0" and "k \<notin> set us" and "(heads', recs') = move heads recs i us k 0 r"
  shows "(heads', recs') = set_cell (pred_cell i us) (ir_ptr (recs ! k)) (heads[0 := rec_off recs k], recs[k := r])"
proof (cases "us = []")
  case True
  then show ?thesis using assms(1,3) by (simp add: move_def pred_cell_def list_update_swap)
next
  case False
  then have "last us \<noteq> k" using assms(2) last_in_set by metis
  then show ?thesis using assms(3) False by (simp add: move_def pred_cell_def list_update_swap)
qed

lemma db_dodelete_run:
  assumes "holds d heads recs" and "chain recs (heads ! i) (us @ k # vs)" and "i \<le> NHASH_DEF" and "i \<noteq> 0" and "at_rec recs k d"
    and "ptroff d = int (cell_addr recs (pred_cell i us))" and "free_lock \<notin> set (db_locks d)"
    and "(heads', recs') = move heads recs i us k 0 (blanked (recs ! k) (heads ! 0))"
  shows "\<exists>d'. db_dodelete d = return_db () d' \<and> db_idx d' = idx_img heads' recs' \<and> same_handle d d' \<and>
    db_dat d' = pwrite (db_dat d) (ir_off (recs ! k)) (replicate (ir_len (recs ! k) - 1) SPACE @ [NEWLINE])"
proof -
  let ?r = "recs ! k" and ?c = "pred_cell i us"
  let ?b = "blanked (recs ! k) (heads ! 0)"
  have k: "k < length recs" "k \<notin> set us" "set us \<subseteq> {..<length recs}" using assms(2) by (auto simp: chain_def)
  have idx: "wf_idx heads recs" using assms(1) by simp
  have wf: "wf_rec ?r" by (rule wf_rec_nth [OF idx k(1)])
  have good0: "good_ptr (heads ! 0)" by (rule head_good_ptr [OF idx]) simp
  have goodk: "good_ptr (rec_off recs k)" by (rule chain_good_ptr [OF idx assms(2) head_good_ptr [OF idx assms(3)]]) simp
  have goodp: "good_ptr (ir_ptr ?r)" using wf by (simp add: wf_rec_def)
  note b = blanked_facts [OF wf good0]
  have at: "idxoff d = int (rec_off recs k)" "ptrval d = int (ir_ptr ?r)" "idxbuf d = ir_key ?r" "datoff d = int (ir_off ?r)" "datlen d = ir_len ?r"
    using assms(5) by (simp_all add: at_rec_def)
  have len: "Suc (ir_len ?r - 1) = ir_len ?r" using wf by (simp add: wf_rec_def)
  define d1 where "d1 = lock_db free_lock (d\<lparr>datbuf := replicate (datlen d - 1) SPACE, idxbuf := replicate (length (idxbuf d)) SPACE\<rparr>)"
  define d2 where "d2 = d1\<lparr>datoff := int (ir_off ?r), datlen := length (datbuf d1) + 1,
    db_dat := pwrite (db_dat d1) (ir_off ?r) (datbuf d1 @ [NEWLINE])\<rparr>"
  define d3 where "d3 = d2\<lparr>db_pos := 0 * PTR_SZ + PTR_SZ\<rparr>"
  define d4 where "d4 = written ?b (rec_off recs k) (idx_img heads (recs[k := ?b])) d3"
  define d5 where "d5 = d4\<lparr>db_idx := idx_img (heads[0 := rec_off recs k]) (recs[k := ?b]), db_pos := 0 * PTR_SZ + PTR_SZ\<rparr>"
  define d6 where "d6 = d5\<lparr>db_idx := idx_img heads' recs', db_pos := cell_addr (recs[k := ?b]) ?c + PTR_SZ\<rparr>"
  note ds = d6_def d5_def d4_def d3_def d2_def d1_def lock_db_def written_def
  have r1: "db_writedat (datbuf d1) (datoff d1) SEEK_SET d1 = return_db () d2"
    unfolding d2_def using db_writedat_run(1) [of "datbuf d1" "ir_off ?r" d1] at(4) by (simp add: d1_def lock_db_def)
  have h2: "holds d2 heads recs" using assms(1) by (simp add: d2_def d1_def lock_db_def)
  have r2: "db_readptr FREE_OFF d2 = return_db (int (heads ! 0)) d3"
    unfolding d3_def using db_readptr_head [OF h2, of 0] by (simp add: FREE_OFF_def)
  have h3: "holds d3 heads recs" using h2 by (simp add: d3_def)
  have f3: "ptrval d3 = int (ir_ptr ?r)" "idxbuf d3 = ir_key ?b" "idxoff d3 = int (rec_off recs k)" "datoff d3 = int (ir_off ?b)" "datlen d3 = ir_len ?b"
    using at b(4-6) len by (simp_all add: ds)
  have r3: "db_writeidx (idxbuf d3) (idxoff d3) SEEK_SET (int (heads ! 0)) d3 = return_db () d4"
    using db_writeidx_rec [OF h3 k(1) b(1,2) f3(4,5)] unfolding f3(2,3) d4_def b(3) .
  have h4: "holds d4 heads (recs[k := ?b])" using wf_idx_set_rec [OF idx b(1)] by (simp add: d4_def written_def)
  have f4: "idxoff d4 = int (rec_off recs k)" by (simp add: d4_def written_def)
  have r4: "db_writeptr FREE_OFF (idxoff d4) d4 = return_db () d5"
    unfolding d5_def f4 using db_writeptr_head [OF h4, of 0, OF _ goodk] by (simp add: FREE_OFF_def)
  have h5: "holds d5 (heads[0 := rec_off recs k]) (recs[k := ?b])"
    using wf_idx_set_head [OF _ goodk] h4 by (simp add: d5_def)
  have off: "rec_off (recs[k := ?b]) j = rec_off recs j" for j
    using b(1,2) wf k(1) by (intro rec_off_update) (simp_all add: length_rec_img)
  have addr: "cell_addr (recs[k := ?b]) ?c = cell_addr recs ?c" by (cases ?c) (simp_all add: off)
  have ptr5: "ptroff d5 = int (cell_addr (recs[k := ?b]) ?c)" using assms(6) unfolding addr by (simp add: ds)
  have gc: "good_cell (recs[k := ?b]) ?c" by (rule pred_cell_good [OF assms(3)]) (use k(3) in simp)
  have r5: "db_writeptr (ptroff d5) (int (ir_ptr ?r)) d5 = return_db () d6"
    unfolding d6_def ptr5 by (rule db_writeptr_cell [OF h5 gc goodp set_cell_commute [OF assms(4) k(2) assms(8)]])
  have "db_dodelete d = return_db () (unlock_db free_lock d6)"
    unfolding db_dodelete_def Let_def d1_def [symmetric] by (simp add: r1 r2 f3(1) r3 r4 r5)
  moreover have "same_handle d (unlock_db free_lock d6)" using assms(7) by (simp add: same_handle_def unlock_db_def ds)
  ultimately show ?thesis using at(5) by (intro exI [of _ "unlock_db free_lock d6"]) (simp add: unlock_db_def ds)
qed

text \<open>The state after a search that found record \<open>k\<close> of chain \<open>i\<close>.\<close>

definition found_at :: "nat list \<Rightarrow> irec list \<Rightarrow> nat set \<Rightarrow> (nat \<Rightarrow> nat list) \<Rightarrow> nat \<Rightarrow> nat list \<Rightarrow> nat \<Rightarrow> nat list \<Rightarrow> db \<Rightarrow> bool" where
  "found_at heads recs live ch i us k vs d \<longleftrightarrow> holds d heads recs \<and> idx_ok heads recs live ch \<and> ch i = us @ k # vs \<and> 0 < i \<and> i \<le> NHASH_DEF \<and>
     at_rec recs k d \<and> ptroff d = int (cell_addr recs (pred_cell i us)) \<and> chainoff d = int (i * PTR_SZ) \<and> db_locks d = [chain_lock d]"

lemma chain_lock_distinct:
  assumes "chainoff d = int (i * PTR_SZ)" and "0 < i" and "db_locks d = [chain_lock d]"
  shows "free_lock \<notin> set (db_locks d)" and "(DatFile, 0, 0) \<notin> set (db_locks d)" and "(IdxFile, n, 0) \<notin> set (db_locks d)"
  using assms by (simp_all add: chain_lock_def free_lock_def FREE_OFF_def PTR_SZ_def)

lemma idx_ok_lens: "idx_ok heads recs live ch \<Longrightarrow> \<forall>j < length recs. 1 \<le> ir_len (recs ! j)"
  using wf_rec_nth idx_ok_wf by (metis wf_rec_def)

lemma length_idx_img_same:
  "wf_idx heads recs \<Longrightarrow> wf_idx heads' recs' \<Longrightarrow> length recs' = length recs \<Longrightarrow> \<forall>j. rec_off recs' j = rec_off recs j \<Longrightarrow>
    length (idx_img heads' recs') = length (idx_img heads recs)"
  by (simp add: length_idx_img)

lemma db_dodelete_rep:
  assumes "found_at heads recs live ch i us k vs d" and "data_ok (db_dat d) recs live m"
  shows "\<exists>d' heads' recs' ch'. db_dodelete d = return_db () d' \<and> same_handle d d' \<and> holds d' heads' recs' \<and>
    idx_ok heads' recs' (live - {k}) ch' \<and> data_ok (db_dat d') recs' (live - {k}) (m(key_of recs k := None)) \<and>
    key_of recs k \<notin> key_of recs' ` (live - {k}) \<and> length (db_idx d') = length (db_idx d) \<and> length (db_dat d') = length (db_dat d)"
proof -
  let ?b = "blanked (recs ! k) (heads ! 0)" and ?s = "replicate (ir_len (recs ! k) - 1) SPACE @ [NEWLINE]"
  obtain heads' recs' where mv: "(heads', recs') = move heads recs i us k 0 ?b" by (metis prod.exhaust)
  have f: "holds d heads recs" "idx_ok heads recs live ch" "ch i = us @ k # vs" "0 < i" "i \<le> NHASH_DEF" "i \<noteq> 0"
    "at_rec recs k d" "ptroff d = int (cell_addr recs (pred_cell i us))" and chain: "chainoff d = int (i * PTR_SZ)" "db_locks d = [chain_lock d]"
    using assms(1) by (simp_all add: found_at_def)
  have idx: "wf_idx heads recs" and ok: "chains_ok heads recs ch" and inj: "inj_on (key_of recs) live"
    and sub: "live \<subseteq> {..<length recs}" using f(2) by (simp_all add: idx_ok_def)
  have ca: "chain recs (heads ! i) (us @ k # vs)" using chains_okD [OF ok f(5)] f(3) by simp
  then have k: "k < length recs" by (simp add: chain_def)
  have b: "wf_rec ?b" "ir_ptr ?b = heads ! 0" "length (rec_body ?b) = length (rec_body (recs ! k))" "ir_off ?b = ir_off (recs ! k)"
    "ir_len ?b = ir_len (recs ! k)"
    using blanked_facts [OF wf_rec_nth [OF idx k] head_good_ptr [OF idx, of 0]] by simp_all
  have mov: "wf_idx heads' recs'" "length recs' = length recs" "\<forall>j. rec_off recs' j = rec_off recs j" "recs' ! k = ?b"
    "\<forall>j. j \<noteq> k \<longrightarrow> irec_data (recs' ! j) = irec_data (recs ! j)"
    using chains_ok_move [OF idx ok f(5) _ f(6) f(3) b(1-3) mv] by simp_all
  have ok': "idx_ok heads' recs' (live - {k}) (ch(i := us @ vs, 0 := k # ch 0))" and live: "k \<in> live"
    using idx_ok_delete [OF f(2,5,4,3) b(1-3) mv] by (simp_all add: blanked_def blank_def)
  have "1 \<le> ir_len (recs ! k)" using idx_ok_lens [OF f(2)] k by blast
  then have len: "length ?s = ir_len (recs ! k)" by simp
  obtain d' where run: "db_dodelete d = return_db () d'" "db_idx d' = idx_img heads' recs'" "same_handle d d'"
    "db_dat d' = pwrite (db_dat d) (ir_off (recs ! k)) ?s"
    using db_dodelete_run [OF f(1) ca f(5-8) chain_lock_distinct(1) [OF chain(1) f(4) chain(2)] mv] by blast
  have "data_ok (db_dat d') recs' (live - {k}) (m(key_of recs k := None))" unfolding run(4)
    by (rule data_ok_write [OF data_ok_drop [OF assms(2) live inj] _ k _ idx_ok_lens [OF f(2)] len mov(2,5)]) (use sub mov(4) b(4,5) in auto)
  moreover have "ir_off (recs ! k) + length ?s \<le> length (db_dat d)" using assms(2) k len by (simp add: data_ok_def)
  then have "length (db_dat d') = length (db_dat d)" unfolding run(4) by (rule length_pwrite_inside)
  moreover have "length (db_idx d') = length (db_idx d)" using length_idx_img_same [OF idx mov(1-3)] f(1) run(2) by simp
  moreover have "key_of recs k \<notin> key_of recs' ` (live - {k})"
    using inj live key_of_cong [OF mov(5)] by (auto dest: inj_onD)
  ultimately show ?thesis using run(1-3) mov(1) ok' by (intro exI [of _ d'] exI [of _ heads'] exI [of _ recs'] exI) simp
qed

lemma db_find_rep:
  assumes "db_rep d m"
  obtains (absent) heads recs live ch d' where "m key = None" and "db_find_and_lock key d = return_db (-1) d'" and "key \<notin> key_of recs ` live"
    and "holds d' heads recs" and "idx_ok heads recs live ch" and "data_ok (db_dat d') recs live m"
    and "searched (Suc (key_hash key)) d d'" and "db_locks d' = [chain_lock d']"
  | (present) heads recs live ch us k vs d' where "m key \<noteq> None" and "db_find_and_lock key d = return_db 0 d'"
    and "found_at heads recs live ch (Suc (key_hash key)) us k vs d'" and "key_of recs k = key" and "k \<in> live"
    and "data_ok (db_dat d') recs live m" and "searched (Suc (key_hash key)) d d'"
proof -
  let ?i = "Suc (key_hash key)"
  have "files_rep (db_idx d) (db_dat d) m" and n: "nhash d = NHASH_DEF" "hashoff d = HASH_OFF" "db_locks d = []"
    using assms by (simp_all add: db_rep_def)
  then obtain heads recs live ch where h: "holds d heads recs" and ok: "idx_ok heads recs live ch" and dat: "data_ok (db_dat d) recs live m"
    using files_rep_obtain by metis
  have dom: "dom m = key_of recs ` live" using dat by (simp add: data_ok_def)
  have i: "?i \<le> NHASH_DEF" using key_hash_less [of key] by simp
  have locks: "db_locks d' = [chain_lock d']" if "searched ?i d d'" for d'
    using that n(3) by (simp add: searched_def chain_lock_def del: of_nat_mult)
  from db_find_run [OF h ok n(1,2) refl, of key] show thesis
  proof (elim disjE conjE exE)
    fix d' assume none: "key \<notin> key_of recs ` live" and run: "db_find_and_lock key d = return_db (-1) d'" and s: "searched ?i d d'"
    have "m key = None" using none dom by (metis domIff)
    then show thesis using none run s h ok dat locks [OF s] by (intro absent [of d' recs live heads ch]) (simp_all add: searched_def)
  next
    fix us k vs d' assume k: "k \<in> live" "key_of recs k = key" "ch ?i = us @ k # vs" and run: "db_find_and_lock key d = return_db 0 d'"
      and s: "searched ?i d d'" and at: "at_rec recs k d'" "ptroff d' = int (cell_addr recs (pred_cell ?i us))"
    have "m key \<noteq> None" using k(1,2) dom by (metis domIff image_eqI)
    moreover have "found_at heads recs live ch ?i us k vs d'"
      unfolding found_at_def using h ok k(3) i at locks [OF s] s by (simp add: searched_def del: of_nat_mult)
    moreover have "data_ok (db_dat d') recs live m" using s dat by (simp add: searched_def)
    ultimately show thesis using k(1,2) run s by (intro present)
  qed
qed

lemma unlock_rep:
  assumes "db_locks d = [chain_lock d]" and "nhash d = NHASH_DEF" and "hashoff d = HASH_OFF" and "files_rep (db_idx d) (db_dat d) m"
  shows "db_rep (unlock_db (chain_lock d) d) m"
  using assms by (simp add: db_rep_def unlock_db_def)

lemma db_delete_rep:
  assumes "db_rep d m"
  shows "\<exists>d'. db_delete key d = return_db (if m key = None then -1 else 0) d' \<and> db_rep d' (m(key := None)) \<and>
    length (db_idx d') = length (db_idx d) \<and> length (db_dat d') = length (db_dat d)"
  using assms
proof (cases rule: db_find_rep [where key = key])
  case (absent heads recs live ch d')
  have n: "nhash d' = NHASH_DEF" "hashoff d' = HASH_OFF" using absent(7) assms by (simp_all add: searched_def db_rep_def)
  have files: "db_idx d' = db_idx d" "db_dat d' = db_dat d" using absent(7) by (simp_all add: searched_def)
  let ?e = "d'\<lparr>cnt_delerr := cnt_delerr d' + 1\<rparr>"
  have "db_delete key d = return_db (-1) (unlock_db (chain_lock ?e) ?e)" unfolding db_delete_def absent(2) by (simp add: Let_def)
  moreover have "m(key := None) = m" using absent(1) by auto
  moreover have "db_rep (unlock_db (chain_lock ?e) ?e) m"
    by (rule unlock_rep) (use absent(8) n files assms in \<open>simp_all add: chain_lock_def db_rep_def\<close>)
  ultimately show ?thesis using absent(1) files by (simp add: unlock_db_def)
next
  case (present heads recs live ch us k vs d1)
  obtain d' heads' recs' ch' where del: "db_dodelete d1 = return_db () d'" "same_handle d1 d'" "holds d' heads' recs'"
    "idx_ok heads' recs' (live - {k}) ch'" "data_ok (db_dat d') recs' (live - {k}) (m(key := None))"
    "length (db_idx d') = length (db_idx d1)" "length (db_dat d') = length (db_dat d1)"
    using db_dodelete_rep [OF present(3,6)] unfolding present(4) by blast
  let ?e = "d'\<lparr>cnt_delok := cnt_delok d' + 1\<rparr>"
  have n: "nhash d1 = NHASH_DEF" "hashoff d1 = HASH_OFF" using present(7) assms by (simp_all add: searched_def db_rep_def)
  have locks: "db_locks d1 = [chain_lock d1]" using present(3) by (simp add: found_at_def)
  have "db_delete key d = return_db 0 (unlock_db (chain_lock ?e) ?e)" unfolding db_delete_def present(2) by (simp add: Let_def del(1))
  moreover have "files_rep (db_idx d') (db_dat d') (m(key := None))" using del(3-5) unfolding files_rep_def by blast
  then have "db_rep (unlock_db (chain_lock ?e) ?e) (m(key := None))"
    by (intro unlock_rep) (use locks n del(2) in \<open>simp_all add: chain_lock_def same_handle_def\<close>)
  moreover have "db_idx d1 = db_idx d" "db_dat d1 = db_dat d" using present(7) by (simp_all add: searched_def)
  ultimately show ?thesis using present(1) del(6,7) by (simp add: unlock_db_def)
qed

end
