(* ===== verification/Db_Store.thy ===== *)
theory Db_Store
  imports Db_Update
begin

section \<open>Storing\<close>

text \<open>
  The four branches of \<^verbatim>\<open>db_store\<close> that write: a record at the end of the files, a record in the place of a deleted one, a record that
  replaces one of another length, and data of the same length that are written over the old ones.
\<close>

subsection \<open>Entries\<close>

text \<open>
  The keys and data that the library can store: no separator in the key (\<^verbatim>\<open>_db_readidx\<close> would refuse the record), not empty, and short
  enough for the length field of the index record.
\<close>

definition KEY_MAX :: nat where "KEY_MAX = 1000"

definition good_entry :: "string \<Rightarrow> string \<Rightarrow> bool" where
  "good_entry key x \<longleftrightarrow> good_key key \<and> key \<noteq> [] \<and> length key \<le> KEY_MAX \<and> NUL \<notin> set x \<and> x \<noteq> [] \<and> length x < DATLEN_MAX"

definition roomy :: "db \<Rightarrow> bool" where
  "roomy d \<longleftrightarrow> int (length (db_idx d)) \<le> PTR_MAX \<and> length (db_dat d) < 10 ^ 15"

abbreviation entry :: "string \<Rightarrow> string \<Rightarrow> nat \<Rightarrow> nat \<Rightarrow> irec" where
  "entry key x p off \<equiv> \<lparr>ir_ptr = p, ir_key = key, ir_off = off, ir_len = length x + 1\<rparr>"

lemma show_dec_nonempty: "1 \<le> length (show_dec (int n))"
  using show_nat_nonempty [of 10 n] by (cases "show_nat 10 n") (simp_all add: show_dec_def)

lemma length_body_entry:
  "length (rec_body r) = length (ir_key r) + length (show_dec (int (ir_off r))) + length (show_dec (int (ir_len r))) + 3"
  by (simp add: rec_body_def idx_body_def)

lemma entry_wf:
  assumes "good_entry key x" and "good_ptr p" and "off < 10 ^ 15"
  shows "wf_rec (entry key x p off)"
proof -
  let ?r = "entry key x p off"
  have e: "good_key key" "1 \<le> length key" "length key \<le> 1000" "length x < 1024" "1 \<le> length x"
    using assms(1) by (simp_all add: good_entry_def KEY_MAX_def DATLEN_MAX_def Suc_le_eq)
  have "length (show_dec (int off)) \<le> 15" by (rule length_show_nat10 [OF assms(3)]) simp
  moreover have "length (show_dec (int (length x + 1))) \<le> 4" by (rule length_show_nat10) (use e(4) in simp_all)
  moreover have "length (rec_body ?r) = length key + length (show_dec (int off)) + length (show_dec (int (length x + 1))) + 3"
    by (simp add: length_body_entry)
  ultimately have "IDXLEN_MIN \<le> length (rec_body ?r)" "length (rec_body ?r) \<le> IDXLEN_MAX"
    using e(2,3) show_dec_nonempty [of off] show_dec_nonempty [of "length x + 1"] unfolding IDXLEN_MIN_def IDXLEN_MAX_def by linarith+
  then show ?thesis using assms(2,3) e(1,4) by (simp add: wf_rec_def c_limits DATLEN_MAX_def)
qed

lemma reuse_wf:
  assumes "good_entry key x" and "good_ptr p" and "wf_rec r" and "length (ir_key r) = length key" and "ir_len r = length x + 1"
  shows "wf_rec (entry key x p (ir_off r))" and "length (rec_body (entry key x p (ir_off r))) = length (rec_body r)"
proof -
  show len: "length (rec_body (entry key x p (ir_off r))) = length (rec_body r)" using assms(4,5) by (simp add: length_body_entry)
  show "wf_rec (entry key x p (ir_off r))" using assms len by (simp add: wf_rec_def good_entry_def)
qed

subsection \<open>Writing the record\<close>

lemma store_at_end_run:
  assumes "holds d heads recs" and "wf_rec (entry key x p (length (db_dat d)))" and "good_ptr (rec_off recs (length recs))"
    and "chainoff d = int (i * PTR_SZ)" and "0 < i" and "i \<le> NHASH_DEF" and "db_locks d = [chain_lock d]"
  shows "\<exists>d'. store_at key x 0 0 SEEK_END (int p) d = return_db () d' \<and> same_handle d d' \<and>
    db_idx d' = idx_img (heads[i := rec_off recs (length recs)]) (recs @ [entry key x p (length (db_dat d))]) \<and>
    db_dat d' = db_dat d @ x @ [NEWLINE]"
proof -
  let ?r = "entry key x p (length (db_dat d))" and ?n = "length recs"
  note locks = chain_lock_distinct [OF assms(4,5,7)]
  define d1 where "d1 = d\<lparr>datoff := int (length (db_dat d)), datlen := length x + 1, db_dat := db_dat d @ x @ [NEWLINE]\<rparr>"
  define d2 where "d2 = written ?r (rec_off recs ?n) (idx_img heads (recs @ [?r])) d1"
  have r1: "db_writedat x 0 SEEK_END d = return_db () d1" unfolding d1_def by (rule db_writedat_run(2) [OF locks(2)])
  have h1: "holds d1 heads recs" using assms(1) by (simp add: d1_def)
  have l1: "(IdxFile, int ((nhash d1 + 1) * PTR_SZ + 1), 0) \<notin> set (db_locks d1)" using locks(3) by (simp add: d1_def)
  have "db_writeidx (ir_key ?r) 0 SEEK_END (int (ir_ptr ?r)) d1 = return_db () d2"
    unfolding d2_def by (rule db_writeidx_end [OF h1 assms(2) _ _ l1]) (simp_all add: d1_def)
  then have r2: "db_writeidx key 0 SEEK_END (int p) d1 = return_db () d2" by simp
  have h2: "holds d2 heads (recs @ [?r])" using wf_idx_append [OF _ assms(2)] assms(1) by (simp add: d2_def written_def)
  have f2: "chainoff d2 = int (i * PTR_SZ)" "idxoff d2 = int (rec_off recs ?n)" using assms(4) by (simp_all add: d2_def written_def d1_def)
  have r3: "db_writeptr (chainoff d2) (idxoff d2) d2 =
      return_db () (d2\<lparr>db_idx := idx_img (heads[i := rec_off recs ?n]) (recs @ [?r]), db_pos := i * PTR_SZ + PTR_SZ\<rparr>)"
    unfolding f2 by (rule db_writeptr_head [OF h2 assms(6,3)])
  have "store_at key x 0 0 SEEK_END (int p) d = db_writeptr (chainoff d2) (idxoff d2) d2" by (simp add: store_at_def r1 r2)
  then show ?thesis unfolding r3 by (simp add: same_handle_def d2_def d1_def written_def)
qed

lemma store_at_rec_run:
  assumes "holds d heads recs" and "k < length recs" and "wf_rec (entry key x p off)"
    and "length (rec_body (entry key x p off)) = length (rec_body (recs ! k))" and "good_ptr (rec_off recs k)"
    and "chainoff d = int (i * PTR_SZ)" and "i \<le> NHASH_DEF"
  shows "\<exists>d'. store_at key x (int off) (int (rec_off recs k)) SEEK_SET (int p) d = return_db () d' \<and> same_handle d d' \<and>
    db_idx d' = idx_img (heads[i := rec_off recs k]) (recs[k := entry key x p off]) \<and> db_dat d' = pwrite (db_dat d) off (x @ [NEWLINE])"
proof -
  let ?r = "entry key x p off"
  define d1 where "d1 = d\<lparr>datoff := int off, datlen := length x + 1, db_dat := pwrite (db_dat d) off (x @ [NEWLINE])\<rparr>"
  define d2 where "d2 = written ?r (rec_off recs k) (idx_img heads (recs[k := ?r])) d1"
  have r1: "db_writedat x (int off) SEEK_SET d = return_db () d1" unfolding d1_def by (rule db_writedat_run(1))
  have h1: "holds d1 heads recs" using assms(1) by (simp add: d1_def)
  have "db_writeidx (ir_key ?r) (int (rec_off recs k)) SEEK_SET (int (ir_ptr ?r)) d1 = return_db () d2"
    unfolding d2_def by (rule db_writeidx_rec [OF h1 assms(2-4)]) (simp_all add: d1_def)
  then have r2: "db_writeidx key (int (rec_off recs k)) SEEK_SET (int p) d1 = return_db () d2" by simp
  have h2: "holds d2 heads (recs[k := ?r])" using wf_idx_set_rec [OF _ assms(3)] assms(1) by (simp add: d2_def written_def)
  have f2: "chainoff d2 = int (i * PTR_SZ)" "idxoff d2 = int (rec_off recs k)" using assms(6) by (simp_all add: d2_def written_def d1_def)
  have r3: "db_writeptr (chainoff d2) (idxoff d2) d2 =
      return_db () (d2\<lparr>db_idx := idx_img (heads[i := rec_off recs k]) (recs[k := ?r]), db_pos := i * PTR_SZ + PTR_SZ\<rparr>)"
    unfolding f2 by (rule db_writeptr_head [OF h2 assms(7,5)])
  have "store_at key x (int off) (int (rec_off recs k)) SEEK_SET (int p) d = db_writeptr (chainoff d2) (idxoff d2) d2"
    by (simp add: store_at_def r1 r2)
  then show ?thesis unfolding r3 by (simp add: same_handle_def d2_def d1_def written_def)
qed

subsection \<open>A record at the end of the files\<close>

text \<open>What one operation adds to the two files at most.\<close>

definition REC_MAX :: nat where "REC_MAX = PTR_SZ + IDXLEN_SZ + IDXLEN_MAX"

definition grown :: "db \<Rightarrow> db \<Rightarrow> bool" where
  "grown d d' \<longleftrightarrow> length (db_idx d') \<le> length (db_idx d) + REC_MAX \<and> length (db_dat d') \<le> length (db_dat d) + DATLEN_MAX"

lemma store_end_rep:
  assumes "holds d heads recs" and "idx_ok heads recs live ch" and "data_ok (db_dat d) recs live m" and "key \<notin> key_of recs ` live"
    and "good_entry key x" and "roomy d" and "i = Suc (key_hash key)" and "chainoff d = int (i * PTR_SZ)" and "db_locks d = [chain_lock d]"
  shows "\<exists>d'. store_at key x 0 0 SEEK_END (int (heads ! i)) d = return_db () d' \<and> same_handle d d' \<and>
    files_rep (db_idx d') (db_dat d') (m(key \<mapsto> x)) \<and> grown d d'"
proof -
  let ?r = "entry key x (heads ! i) (length (db_dat d))" and ?n = "length recs"
  let ?heads = "heads[i := rec_off recs ?n]" and ?dat = "db_dat d @ x @ [NEWLINE]"
  have i: "0 < i" "i \<le> NHASH_DEF" using key_hash_less [of key] assms(7) by simp_all
  have idx: "wf_idx heads recs" using assms(1) by simp
  have wf: "wf_rec ?r" using assms(6) by (intro entry_wf [OF assms(5) head_good_ptr [OF idx i(2)]]) (simp add: roomy_def)
  have good: "good_ptr (rec_off recs ?n)" using assms(1,6) length_idx_img [OF idx] by (simp add: roomy_def good_ptr_def)
  obtain d' where run: "store_at key x 0 0 SEEK_END (int (heads ! i)) d = return_db () d'" "same_handle d d'"
    "db_idx d' = idx_img ?heads (recs @ [?r])" "db_dat d' = ?dat"
    using store_at_end_run [OF assms(1) wf good assms(8) i assms(9)] by blast
  have ok: "idx_ok ?heads (recs @ [?r]) (insert ?n live) (ch(i := ?n # ch i))"
    by (rule idx_ok_append [OF assms(2) _ wf _ good]) (use assms(4,7) in simp_all)
  have sub: "live \<subseteq> {..<?n}" using assms(2) by (simp add: idx_ok_def)
  have keys: "key_of (recs @ [?r]) ` live = key_of recs ` live" by (rule image_cong [OF refl]) (use sub in \<open>auto simp: nth_append\<close>)
  have "data_ok ?dat (recs @ [?r]) live m" by (rule data_ok_append [OF assms(3) sub]) simp_all
  then have "data_ok ?dat (recs @ [?r]) (insert ?n live) (m(key_of (recs @ [?r]) ?n \<mapsto> x))"
    by (rule data_ok_add) (use assms(4,5) keys in \<open>simp_all add: pread_def good_entry_def\<close>)
  then have "data_ok (db_dat d') (recs @ [?r]) (insert ?n live) (m(key \<mapsto> x))" by (simp add: run(4))
  then have rep: "files_rep (db_idx d') (db_dat d') (m(key \<mapsto> x))" unfolding files_rep_def using run(3) ok by blast
  have "length (db_idx d') = rec_off (recs @ [?r]) (Suc ?n)"
    unfolding run(3) using length_idx_img [OF idx_ok_wf [OF ok]] by simp
  also have "\<dots> = length (db_idx d) + length (rec_img ?r)"
    using rec_off_Suc [of ?n "recs @ [?r]"] rec_off_append [of ?n recs "[?r]"] assms(1) length_idx_img [OF idx] by simp
  also have "\<dots> \<le> length (db_idx d) + REC_MAX" using length_rec_img [OF wf] wf by (simp add: REC_MAX_def wf_rec_def)
  finally have "grown d d'" using assms(5) run(4) by (simp add: grown_def good_entry_def)
  then show ?thesis using run(1,2) rep by blast
qed

subsection \<open>A record in the place of a deleted one\<close>

lemma db_findfree_run:
  assumes "holds d heads recs" and "chain recs (heads ! 0) ks" and "free_lock \<notin> set (db_locks d)"
  shows "(\<exists>d'. db_findfree n l d = return_db (-1) d' \<and> db_idx d' = db_idx d \<and> db_dat d' = db_dat d \<and> same_handle d d') \<or>
    (\<exists>us k vs d' heads1 recs1. ks = us @ k # vs \<and> length (key_of recs k) = n \<and> ir_len (recs ! k) = l \<and> db_findfree n l d = return_db 0 d' \<and>
      (heads1, recs1) = set_cell (pred_cell 0 us) (ir_ptr (recs ! k)) (heads, recs) \<and> db_idx d' = idx_img heads1 recs1 \<and>
      db_dat d' = db_dat d \<and> same_handle d d' \<and> idxoff d' = int (rec_off recs k) \<and> datoff d' = int (ir_off (recs ! k)))"
proof -
  define d1 where "d1 = lock_db free_lock d"
  define d2 where "d2 = d1\<lparr>db_pos := 0 * PTR_SZ + PTR_SZ\<rparr>"
  have idx: "wf_idx heads recs" using assms(1) by simp
  have h1: "holds d1 heads recs" using assms(1) by (simp add: d1_def lock_db_def)
  have r1: "db_readptr FREE_OFF d1 = return_db (int (heads ! 0)) d2"
    unfolding d2_def using db_readptr_head [OF h1, of 0] by (simp add: FREE_OFF_def)
  have h2: "holds d2 heads recs" using h1 by (simp add: d2_def)
  have fuel: "length ks \<le> length (db_idx d2)" using chain_length [OF assms(2)] length_recs_le [OF idx] h2 by simp
  have run: "db_findfree n l d = bind_e (findfree_loop (length (db_idx d2)) n l FREE_OFF (int (heads ! 0)) d2) (\<lambda>((saveoffset, found), d3).
      if found = 0 then return_db (-1) (unlock_db free_lock d3)
      else bind_e (db_writeptr saveoffset (ptrval d3) d3) (\<lambda>(_, d4). return_db 0 (unlock_db free_lock d4)))"
    unfolding db_findfree_def Let_def d1_def [symmetric] by (simp add: r1)
  have handle: "same_handle d (unlock_db free_lock (d'\<lparr>db_idx := idx', db_pos := q\<rparr>))" "same_handle d (unlock_db free_lock d')"
    if "same_files d2 d'" for d' idx' q
    using that assms(3) by (simp_all add: same_files_def same_handle_def unlock_db_def d2_def d1_def lock_db_def)
  have files: "db_idx d' = db_idx d" "db_dat d' = db_dat d" if "same_files d2 d'" for d'
    using that by (simp_all add: same_files_def d2_def d1_def lock_db_def)
  from findfree_loop_chain [OF h2 assms(2) fuel, of n l FREE_OFF] show ?thesis
  proof (elim disjE exE conjE)
    fix d' so assume "findfree_loop (length (db_idx d2)) n l FREE_OFF (int (heads ! 0)) d2 = return_db (so, 0) d'" and s: "same_files d2 d'"
    then have "db_findfree n l d = return_db (-1) (unlock_db free_lock d')" unfolding run by simp
    then show ?thesis using handle(2) [OF s] files [OF s] by (intro disjI1 exI) (auto simp: unlock_db_def)
  next
    fix us k vs d' assume k: "ks = us @ k # vs" "length (key_of recs k) = n" "ir_len (recs ! k) = l"
      and loop: "findfree_loop (length (db_idx d2)) n l FREE_OFF (int (heads ! 0)) d2 =
        return_db (if us = [] then FREE_OFF else int (rec_off recs (last us)), int (rec_off recs k)) d'"
      and s: "same_files d2 d'" and at: "at_rec recs k d'"
    have kn: "k < length recs" "set us \<subseteq> {..<length recs}" using assms(2) k(1) by (auto simp: chain_def)
    obtain heads1 recs1 where set1: "(heads1, recs1) = set_cell (pred_cell 0 us) (ir_ptr (recs ! k)) (heads, recs)" by (metis prod.exhaust)
    have addr: "(if us = [] then FREE_OFF else int (rec_off recs (last us))) = int (cell_addr recs (pred_cell 0 us))"
      by (simp add: pred_cell_def FREE_OFF_def)
    have h': "holds d' heads recs" using assms(1) files(1) [OF s] by simp
    have goodp: "good_ptr (ir_ptr (recs ! k))" using wf_rec_nth [OF idx kn(1)] by (simp add: wf_rec_def)
    have wr: "db_writeptr (int (cell_addr recs (pred_cell 0 us))) (int (ir_ptr (recs ! k))) d' =
        return_db () (d'\<lparr>db_idx := idx_img heads1 recs1, db_pos := cell_addr recs (pred_cell 0 us) + PTR_SZ\<rparr>)" (is "_ = return_db () ?e")
      by (rule db_writeptr_cell [OF h' pred_cell_good [OF _ kn(2)] goodp set1]) simp
    have "ptrval d' = int (ir_ptr (recs ! k))" using at by (simp add: at_rec_def)
    then have "db_findfree n l d = return_db 0 (unlock_db free_lock ?e)"
      unfolding run loop addr using rec_off_pos [of recs k] by (simp add: wr)
    then show ?thesis
      using k set1 handle(1) [OF s] files(2) [OF s] at
      by (intro disjI2 exI [of _ us] exI [of _ k] exI [of _ vs] exI [of _ "unlock_db free_lock ?e"] exI [of _ heads1] exI [of _ recs1])
        (simp add: unlock_db_def at_rec_def)
  qed
qed

lemma grown_same: "length (db_idx d') = length (db_idx d) \<Longrightarrow> length (db_dat d') = length (db_dat d) \<Longrightarrow> grown d d'"
  by (simp add: grown_def)

lemma same_handle_trans: "same_handle d d1 \<Longrightarrow> same_handle d1 d2 \<Longrightarrow> same_handle d d2"
  by (simp add: same_handle_def)

lemma store_reuse_rep:
  assumes "idx_ok heads recs live ch" and "data_ok (db_dat d) recs live m" and "key \<notin> key_of recs ` live"
    and "good_entry key x" and "i = Suc (key_hash key)" and "chainoff d = int (i * PTR_SZ)"
    and "ch 0 = us @ k # vs" and "length (key_of recs k) = length key" and "ir_len (recs ! k) = length x + 1"
    and "(heads1, recs1) = set_cell (pred_cell 0 us) (ir_ptr (recs ! k)) (heads, recs)" and "db_idx d = idx_img heads1 recs1"
  shows "\<exists>d'. store_at key x (int (ir_off (recs ! k))) (int (rec_off recs k)) SEEK_SET (int (heads ! i)) d = return_db () d' \<and> same_handle d d' \<and>
    files_rep (db_idx d') (db_dat d') (m(key \<mapsto> x)) \<and> grown d d'"
proof -
  let ?r = "entry key x (heads ! i) (ir_off (recs ! k))"
  have i: "i \<le> NHASH_DEF" "i \<noteq> 0" using key_hash_less [of key] assms(5) by simp_all
  have idx: "wf_idx heads recs" and ok: "chains_ok heads recs ch" and sub: "live \<subseteq> {..<length recs}" and free: "set (ch 0) = {..<length recs} - live"
    using assms(1) by (simp_all add: idx_ok_def)
  have c0: "chain recs (heads ! 0) (us @ k # vs)" using chains_okD [OF ok, of 0] assms(7) by simp
  then have us: "set us \<subseteq> {..<length recs}" by (auto simp: chain_def)
  have "k \<in> set (ch 0)" using assms(7) by simp
  then have k: "k < length recs" "k \<notin> live" unfolding free by simp_all
  have wfk: "wf_rec (recs ! k)" by (rule wf_rec_nth [OF idx k(1)])
  have r: "wf_rec ?r" "length (rec_body ?r) = length (rec_body (recs ! k))"
    using reuse_wf [OF assms(4) head_good_ptr [OF idx i(1)] wfk assms(8,9)] by simp_all
  have goodp: "good_ptr (ir_ptr (recs ! k))" using wfk by (simp add: wf_rec_def)
  have goodk: "good_ptr (rec_off recs k)" by (rule chain_good_ptr [OF idx c0 head_good_ptr [OF idx]]) simp_all
  have s1: "wf_idx heads1 recs1" "length recs1 = length recs" "rec_off recs1 k = rec_off recs k" "rec_body (recs1 ! k) = rec_body (recs ! k)"
    using set_cell_wf [OF idx goodp pred_cell_good [OF _ us] assms(10)] by simp_all
  have mv: "(heads1[i := rec_off recs k], recs1[k := ?r]) = move heads recs 0 us k i ?r" by (simp add: move_def assms(10) [symmetric])
  have h: "holds d heads1 recs1" using assms(11) s1(1) by simp
  obtain d' where run: "store_at key x (int (ir_off (recs ! k))) (int (rec_off recs k)) SEEK_SET (int (heads ! i)) d = return_db () d'"
    "same_handle d d'" "db_idx d' = idx_img (heads1[i := rec_off recs k]) (recs1[k := ?r])"
    "db_dat d' = pwrite (db_dat d) (ir_off (recs ! k)) (x @ [NEWLINE])"
    using store_at_rec_run [OF h _ r(1), of k] k(1) s1(2-4) r(2) goodk assms(6) i(1) by auto
  have ok': "idx_ok (heads1[i := rec_off recs k]) (recs1[k := ?r]) (insert k live) (ch(0 := us @ vs, i := k # ch i))"
    by (rule idx_ok_reuse [OF assms(1) _ assms(7) r(1) _ r(2) mv]) (use assms(3,5) in simp_all)
  have mov: "length (recs1[k := ?r]) = length recs" "recs1[k := ?r] ! k = ?r" "\<forall>j. rec_off (recs1[k := ?r]) j = rec_off recs j"
    "\<forall>j. j \<noteq> k \<longrightarrow> irec_data (recs1[k := ?r] ! j) = irec_data (recs ! j)"
    using chains_ok_move [OF idx ok _ i(1) _ assms(7) r(1) _ r(2) mv] i(2) by simp_all
  have len: "length (x @ [NEWLINE]) = ir_len (recs ! k)" using assms(9) by simp
  have inside: "ir_off (recs ! k) + length (x @ [NEWLINE]) \<le> length (db_dat d)" using assms(2) k(1) len by (simp add: data_ok_def)
  have dat: "data_ok (db_dat d') (recs1[k := ?r]) live m" unfolding run(4)
    by (rule data_ok_write [OF assms(2) k(2,1) sub idx_ok_lens [OF assms(1)] len mov(1,4)]) (use mov(2) assms(9) in simp_all)
  have "key_of (recs1[k := ?r]) ` live = key_of recs ` live"
    by (rule image_cong [OF refl]) (use key_of_cong [OF mov(4)] k(2) in metis)
  then have "data_ok (db_dat d') (recs1[k := ?r]) (insert k live) (m(key_of (recs1[k := ?r]) k \<mapsto> x))"
    using pread_pwrite_same [OF inside] assms(3,4) mov(1,2) k(1) run(4) by (intro data_ok_add [OF dat]) (simp_all add: good_entry_def)
  then have "files_rep (db_idx d') (db_dat d') (m(key \<mapsto> x))" unfolding files_rep_def using run(3) ok' mov(2) by auto
  moreover have "length (db_idx d') = length (db_idx d)"
    unfolding run(3) assms(11) using length_idx_img [OF idx_ok_wf [OF ok']] length_idx_img [OF s1(1)] mov(1,3) s1(2)
      set_cell_wf [OF idx goodp pred_cell_good [OF _ us] assms(10)] by simp
  moreover have "length (db_dat d') = length (db_dat d)" unfolding run(4) by (rule length_pwrite_inside [OF inside])
  ultimately show ?thesis using run(1,2) grown_same by blast
qed

text \<open>A new key: \<^verbatim>\<open>_db_findfree\<close> finds a place for it, or the files grow.\<close>

lemma store_new_rep:
  assumes "holds d heads recs" and "idx_ok heads recs live ch" and "data_ok (db_dat d) recs live m" and "key \<notin> key_of recs ` live"
    and "good_entry key x" and "roomy d" and "i = Suc (key_hash key)" and "chainoff d = int (i * PTR_SZ)" and "db_locks d = [chain_lock d]"
  shows "\<exists>d'. store_new key x d = return_db () d' \<and> same_handle d d' \<and> files_rep (db_idx d') (db_dat d') (m(key \<mapsto> x)) \<and> grown d d'"
proof -
  define d1 where "d1 = d\<lparr>db_pos := i * PTR_SZ + PTR_SZ\<rparr>"
  have i: "0 < i" "i \<le> NHASH_DEF" using key_hash_less [of key] assms(7) by simp_all
  have ok: "chains_ok heads recs ch" using assms(2) by (simp add: idx_ok_def)
  have r1: "db_readptr (chainoff d) d = return_db (int (heads ! i)) d1" unfolding d1_def assms(8) by (rule db_readptr_head [OF assms(1) i(2)])
  have s1: "same_handle d d1" "db_idx d1 = db_idx d" "db_dat d1 = db_dat d" by (simp_all add: d1_def same_handle_def)
  have h1: "holds d1 heads recs" using assms(1) s1 by simp
  have free: "free_lock \<notin> set (db_locks d1)" using chain_lock_distinct(1) [OF assms(8) i(1) assms(9)] s1(1) by (simp add: same_handle_def)
  have c0: "chain recs (heads ! 0) (ch 0)" using chains_okD [OF ok, of 0] by simp
  have count: "same_handle e (f e) \<and> db_idx (f e) = db_idx e \<and> db_dat (f e) = db_dat e"
    if "f = (\<lambda>e. e\<lparr>cnt_stor1 := cnt_stor1 e + 1\<rparr>) \<or> f = (\<lambda>e. e\<lparr>cnt_stor2 := cnt_stor2 e + 1\<rparr>)" for e f
    using that by (auto simp: same_handle_def)
  have via: "\<exists>d'. store_new key x d = return_db () d' \<and> same_handle d d' \<and> files_rep (db_idx d') (db_dat d') (m(key \<mapsto> x)) \<and> grown d d'"
    if "store_new key x d = return_db () (f e)" "same_handle d2 e" "files_rep (db_idx e) (db_dat e) (m(key \<mapsto> x))" "grown d2 e"
      "same_handle d1 d2" "length (db_idx d2) = length (db_idx d)" "db_dat d2 = db_dat d"
      "f = (\<lambda>e. e\<lparr>cnt_stor1 := cnt_stor1 e + 1\<rparr>) \<or> f = (\<lambda>e. e\<lparr>cnt_stor2 := cnt_stor2 e + 1\<rparr>)" for d2 e f
    using that(1-7) count [OF that(8), of e] s1(1) by (intro exI [of _ "f e"]) (simp add: grown_def same_handle_def)
  from db_findfree_run [OF h1 c0 free, of "length key" "length x + 1"] show ?thesis
  proof (elim disjE exE conjE)
    fix d2 assume run: "db_findfree (length key) (length x + 1) d1 = return_db (-1) d2" and f: "db_idx d2 = db_idx d1" "db_dat d2 = db_dat d1" "same_handle d1 d2"
    have "holds d2 heads recs" "data_ok (db_dat d2) recs live m" "roomy d2" "chainoff d2 = int (i * PTR_SZ)" "db_locks d2 = [chain_lock d2]"
      using assms(1,3,6,8,9) f s1 by (simp_all add: roomy_def same_handle_def chain_lock_def)
    from store_end_rep [OF this(1) assms(2) this(2) assms(4,5) this(3) assms(7) this(4,5)] obtain e where
      e: "store_at key x 0 0 SEEK_END (int (heads ! i)) d2 = return_db () e" "same_handle d2 e" "files_rep (db_idx e) (db_dat e) (m(key \<mapsto> x))" "grown d2 e"
      by blast
    have "store_new key x d = return_db () (e\<lparr>cnt_stor1 := cnt_stor1 e + 1\<rparr>)" unfolding store_new_def r1 by (simp add: run [simplified] e(1))
    from via [where f = "\<lambda>e. e\<lparr>cnt_stor1 := cnt_stor1 e + 1\<rparr>", OF this e(2-4) f(3)] show ?thesis using f s1 by simp
  next
    fix us k vs d2 heads1 recs1 assume k: "ch 0 = us @ k # vs" "length (key_of recs k) = length key" "ir_len (recs ! k) = length x + 1"
      and run: "db_findfree (length key) (length x + 1) d1 = return_db 0 d2"
      and set1: "(heads1, recs1) = set_cell (pred_cell 0 us) (ir_ptr (recs ! k)) (heads, recs)" "db_idx d2 = idx_img heads1 recs1"
      and f: "db_dat d2 = db_dat d1" "same_handle d1 d2" and at: "idxoff d2 = int (rec_off recs k)" "datoff d2 = int (ir_off (recs ! k))"
    have "data_ok (db_dat d2) recs live m" "chainoff d2 = int (i * PTR_SZ)" using assms(3,8) f s1 by (simp_all add: same_handle_def)
    from store_reuse_rep [OF assms(2) this(1) assms(4,5,7) this(2) k set1] obtain e where
      e: "store_at key x (int (ir_off (recs ! k))) (int (rec_off recs k)) SEEK_SET (int (heads ! i)) d2 = return_db () e" "same_handle d2 e"
        "files_rep (db_idx e) (db_dat e) (m(key \<mapsto> x))" "grown d2 e" by blast
    have "store_new key x d = return_db () (e\<lparr>cnt_stor2 := cnt_stor2 e + 1\<rparr>)" unfolding store_new_def r1 by (simp add: run [simplified] at e(1))
    moreover have "length (db_idx d2) = length (db_idx d)"
    proof -
      have kn: "k < length recs" "set us \<subseteq> {..<length recs}" using c0 k(1) by (auto simp: chain_def)
      have "good_ptr (ir_ptr (recs ! k))" using wf_rec_nth [of heads recs k] assms(1) kn(1) by (simp add: wf_rec_def)
      from set_cell_wf [OF _ this pred_cell_good [OF _ kn(2)] set1(1)] show ?thesis
        using length_idx_img_same [of heads recs heads1 recs1] assms(1) set1(2) by simp
    qed
    ultimately show ?thesis using via [where f = "\<lambda>e. e\<lparr>cnt_stor2 := cnt_stor2 e + 1\<rparr>", OF _ e(2-4) f(2)] f s1 by simp
  qed
qed

subsection \<open>Other data for a key\<close>

lemma store_over_rep:
  assumes "found_at heads recs live ch i us k vs d" and "data_ok (db_dat d) recs live m" and "k \<in> live" and "i = Suc (key_hash key)"
    and "key_of recs k = key" and "good_entry key x" and "roomy d"
  shows "\<exists>d'. store_over key x d = return_db () d' \<and> same_handle d d' \<and> files_rep (db_idx d') (db_dat d') (m(key \<mapsto> x)) \<and> grown d d'"
proof (cases "length x + 1 = datlen d")
  case False
  have f: "chainoff d = int (i * PTR_SZ)" "db_locks d = [chain_lock d]" "i \<le> NHASH_DEF" using assms(1) by (simp_all add: found_at_def)
  obtain d1 heads1 recs1 ch1 where del: "db_dodelete d = return_db () d1" "same_handle d d1" "holds d1 heads1 recs1"
    "idx_ok heads1 recs1 (live - {k}) ch1" "data_ok (db_dat d1) recs1 (live - {k}) (m(key := None))" "key \<notin> key_of recs1 ` (live - {k})"
    "length (db_idx d1) = length (db_idx d)" "length (db_dat d1) = length (db_dat d)"
    using db_dodelete_rep [OF assms(1,2)] unfolding assms(5) by blast
  define d2 where "d2 = d1\<lparr>db_pos := i * PTR_SZ + PTR_SZ\<rparr>"
  have c1: "chainoff d1 = int (i * PTR_SZ)" using del(2) f(1) by (simp add: same_handle_def)
  have r2: "db_readptr (chainoff d1) d1 = return_db (int (heads1 ! i)) d2"
    unfolding d2_def c1 by (rule db_readptr_head [OF del(3) f(3)])
  have s2: "same_handle d1 d2" "db_idx d2 = db_idx d1" "db_dat d2 = db_dat d1" by (simp_all add: d2_def same_handle_def)
  have "holds d2 heads1 recs1" "data_ok (db_dat d2) recs1 (live - {k}) (m(key := None))" "roomy d2" "chainoff d2 = int (i * PTR_SZ)"
    "db_locks d2 = [chain_lock d2]"
    using del s2 assms(7) f c1 by (simp_all add: roomy_def same_handle_def chain_lock_def)
  from store_end_rep [OF this(1) del(4) this(2) del(6) assms(6) this(3) assms(4) this(4,5)] obtain e where
    e: "store_at key x 0 0 SEEK_END (int (heads1 ! i)) d2 = return_db () e" "same_handle d2 e"
      "files_rep (db_idx e) (db_dat e) (m(key \<mapsto> x))" "grown d2 e" by auto
  have "store_over key x d = return_db () (e\<lparr>cnt_stor3 := cnt_stor3 e + 1\<rparr>)"
    unfolding store_over_def using False by (simp add: del(1) r2 e(1))
  then show ?thesis using e(2-4) s2 del(2,7,8)
    by (intro exI [of _ "e\<lparr>cnt_stor3 := cnt_stor3 e + 1\<rparr>"]) (simp add: same_handle_def grown_def)
next
  case True
  have f: "holds d heads recs" "idx_ok heads recs live ch" "at_rec recs k d" using assms(1) by (simp_all add: found_at_def)
  have sub: "live \<subseteq> {..<length recs}" and inj: "inj_on (key_of recs) live" using f(2) by (simp_all add: idx_ok_def)
  have k: "k < length recs" using sub assms(3) by blast
  have len: "length (x @ [NEWLINE]) = ir_len (recs ! k)" and off: "datoff d = int (ir_off (recs ! k))"
    using f(3) True by (simp_all add: at_rec_def)
  let ?dat = "pwrite (db_dat d) (ir_off (recs ! k)) (x @ [NEWLINE])"
  have inside: "ir_off (recs ! k) + length (x @ [NEWLINE]) \<le> length (db_dat d)" using assms(2) k len by (simp add: data_ok_def)
  have "data_ok ?dat recs (live - {k}) (m(key := None))"
    using data_ok_drop [OF assms(2,3) inj] unfolding assms(5)
    by (rule data_ok_write [OF _ _ k _ idx_ok_lens [OF f(2)] len]) (use sub in auto)
  then have "data_ok ?dat recs (insert k (live - {k})) (m(key := None, key_of recs k \<mapsto> x))"
  proof (rule data_ok_add [OF _ k])
    show "key_of recs k \<notin> key_of recs ` (live - {k})" using inj assms(3) by (auto dest: inj_onD)
    show "pread ?dat (ir_off (recs ! k)) (ir_len (recs ! k)) = x @ [NEWLINE]" using pread_pwrite_same [OF inside] len by simp
    show "NUL \<notin> set x" using assms(6) by (simp add: good_entry_def)
  qed
  then have dat: "data_ok ?dat recs live (m(key \<mapsto> x))" using assms(3,5) by (simp add: insert_absorb)
  define d1 where "d1 = d\<lparr>datoff := int (ir_off (recs ! k)), datlen := length x + 1, db_dat := ?dat\<rparr>"
  have "db_writedat x (datoff d) SEEK_SET d = return_db () d1" unfolding d1_def off by (rule db_writedat_run(1))
  then have run: "store_over key x d = return_db () (d1\<lparr>cnt_stor4 := cnt_stor4 d1 + 1\<rparr>)" unfolding store_over_def using True by simp
  have "length ?dat = length (db_dat d)" by (rule length_pwrite_inside [OF inside])
  then show ?thesis unfolding run files_rep_def using f dat
    by (intro exI [of _ "d1\<lparr>cnt_stor4 := cnt_stor4 d1 + 1\<rparr>"]) (auto simp: d1_def same_handle_def grown_def)
qed

subsection \<open>The operation\<close>

fun map_store :: "string \<Rightarrow> string \<Rightarrow> store_flag \<Rightarrow> (string \<rightharpoonup> string) \<Rightarrow> int \<times> (string \<rightharpoonup> string)" where
  "map_store key x flag m = (if flag = BadFlag then (-1, m)
     else if m key = None then (if flag = DB_REPLACE then (-1, m) else (0, m(key \<mapsto> x)))
     else (if flag = DB_INSERT then (1, m) else (0, m(key \<mapsto> x))))"

lemma db_store_rep:
  assumes "db_rep d m" and "good_entry key x" and "roomy d"
  shows "\<exists>d'. db_store key x flag d = return_db (fst (map_store key x flag m)) d' \<and> db_rep d' (snd (map_store key x flag m)) \<and> grown d d'"
proof (cases "flag = BadFlag")
  case True
  then show ?thesis using assms(1) by (simp add: db_store_def grown_def)
next
  case flag: False
  let ?err = "\<lambda>d. d\<lparr>cnt_storerr := cnt_storerr d + 1\<rparr>"
  have len: "\<not> (length x + 1 < DATLEN_MIN \<or> DATLEN_MAX < length x + 1)"
    using assms(2) by (cases x) (simp_all add: good_entry_def DATLEN_MIN_def DATLEN_MAX_def)
  have store: "db_store key x flag d = bind_e (db_find_and_lock key d) (\<lambda>(rc, d1).
      if rc < 0 then
        if flag = DB_REPLACE then return_db (-1) (unlock_db (chain_lock (?err d1)) (?err d1))
        else bind_e (store_new key x d1) (\<lambda>(_, d2). return_db 0 (unlock_db (chain_lock d2) d2))
      else if flag = DB_INSERT then return_db 1 (unlock_db (chain_lock (?err d1)) (?err d1))
      else bind_e (store_over key x d1) (\<lambda>(_, d2). return_db 0 (unlock_db (chain_lock d2) d2)))"
    unfolding db_store_def if_not_P [OF flag] if_not_P [OF len] Let_def ..
  have n: "nhash d = NHASH_DEF" "hashoff d = HASH_OFF" using assms(1) by (simp_all add: db_rep_def)
  have refuse: "db_rep (unlock_db (chain_lock (?err d1)) (?err d1)) m \<and> grown d (unlock_db (chain_lock (?err d1)) (?err d1))"
    if "searched (Suc (key_hash key)) d d1" "db_locks d1 = [chain_lock d1]" for d1
    using that assms(1) n by (simp add: db_rep_def unlock_db_def searched_def chain_lock_def grown_def)
  have accept: "db_rep (unlock_db (chain_lock d2) d2) m' \<and> grown d (unlock_db (chain_lock d2) d2)"
    if "searched (Suc (key_hash key)) d d1" "db_locks d1 = [chain_lock d1]" "same_handle d1 d2" "files_rep (db_idx d2) (db_dat d2) m'" "grown d1 d2" for d1 d2 m'
    using that n by (simp add: db_rep_def unlock_db_def searched_def chain_lock_def grown_def same_handle_def)
  from assms(1) show ?thesis
  proof (cases rule: db_find_rep [where key = key])
    case (absent heads recs live ch d1)
    show ?thesis
    proof (cases "flag = DB_REPLACE")
      case True
      then show ?thesis unfolding store absent(2) using absent(1) refuse [OF absent(7,8)] by simp
    next
      case False
      have "roomy d1" "chainoff d1 = int (Suc (key_hash key) * PTR_SZ)" using absent(7) assms(3) by (simp_all add: searched_def roomy_def)
      from store_new_rep [OF absent(4-6,3) assms(2) this(1) refl this(2) absent(8)] obtain d2 where
        d2: "store_new key x d1 = return_db () d2" "same_handle d1 d2" "files_rep (db_idx d2) (db_dat d2) (m(key \<mapsto> x))" "grown d1 d2" by blast
      then show ?thesis
        unfolding store absent(2) using False flag absent(1) accept [OF absent(7,8) d2(2-4)] by (simp add: d2(1))
    qed
  next
    case (present heads recs live ch us k vs d1)
    have l: "db_locks d1 = [chain_lock d1]" using present(3) by (simp add: found_at_def)
    show ?thesis
    proof (cases "flag = DB_INSERT")
      case True
      then show ?thesis unfolding store present(2) using present(1) refuse [OF present(7) l] by simp
    next
      case False
      have "roomy d1" using present(7) assms(3) by (simp_all add: searched_def roomy_def)
      from store_over_rep [OF present(3,6,5) refl present(4) assms(2) this] obtain d2 where
        d2: "store_over key x d1 = return_db () d2" "same_handle d1 d2" "files_rep (db_idx d2) (db_dat d2) (m(key \<mapsto> x))" "grown d1 d2" by blast
      then show ?thesis
        unfolding store present(2) using False flag present(1) accept [OF present(7) l d2(2-4)] by (simp add: d2(1))
    qed
  qed
qed

end
