(* ===== verification/Db_Scan.thy ===== *)
theory Db_Scan
  imports Db_Store
begin

section \<open>Opening, reading all records, and closing\<close>

text \<open>
  A new database represents the empty map; a database that is closed and opened again represents the same map as before; and the loop over
  \<^verbatim>\<open>db_nextrec\<close> gives every entry once.
\<close>

subsection \<open>Opening\<close>

lemma empty_table_img: "empty_table = idx_img (replicate (NHASH_DEF + 1) 0) []"
  by (simp add: empty_table_def idx_img_def ptr_img_def del: replicate_Suc)

lemma empty_rep: "files_rep empty_table [] Map.empty"
proof -
  let ?heads = "replicate (NHASH_DEF + 1) (0::nat)"
  have wf: "wf_idx ?heads []" by (simp add: wf_idx_def good_ptr_def PTR_MAX_def)
  have "?heads ! i = 0" if "i \<le> NHASH_DEF" for i using that by (intro nth_replicate) simp
  then have "chains_ok ?heads [] (\<lambda>i. [])" by (simp add: chains_ok_def)
  with wf have "idx_ok ?heads [] {} (\<lambda>i. [])" by (simp add: idx_ok_def)
  moreover have "data_ok [] [] {} Map.empty" by (simp add: data_ok_def)
  ultimately show ?thesis using empty_table_img unfolding files_rep_def by blast
qed

text \<open>The handle of a database, with the file offset in front of the first record.\<close>

definition fresh :: "db \<Rightarrow> bool" where
  "fresh d \<longleftrightarrow> nhash d = NHASH_DEF \<and> hashoff d = HASH_OFF \<and> db_locks d = [] \<and> db_pos d = TAB_END"

lemma db_open_new:
  assumes "db_open name True (Some []) (Some dat) = Some d"
  shows "db_idx d = empty_table \<and> db_dat d = dat \<and> fresh d"
  using assms by (auto simp: db_open_def Let_def db_alloc_def db_rewind_def fresh_def TAB_END_def)

lemma db_open_old:
  assumes "db_open name ct (Some idx) (Some dat) = Some d" and "idx \<noteq> []"
  shows "db_idx d = idx \<and> db_dat d = dat \<and> fresh d"
  using assms by (auto simp: db_open_def Let_def db_alloc_def db_rewind_def fresh_def TAB_END_def)

lemma length_empty_table: "length empty_table = TAB_END"
proof -
  have "wf_idx (replicate (NHASH_DEF + 1) (0::nat)) []" by (simp add: wf_idx_def good_ptr_def PTR_MAX_def)
  from length_idx_img [OF this] show ?thesis by (simp add: empty_table_img rec_off_def)
qed

lemma files_rep_nonempty: "files_rep idx dat m \<Longrightarrow> idx \<noteq> []"
  by (auto simp: files_rep_def idx_img_def)

subsection \<open>The next record\<close>

text \<open>The records from number \<open>j\<close> on that \<^verbatim>\<open>db_nextrec\<close> does not skip.\<close>

definition nonblank_from :: "irec list \<Rightarrow> nat \<Rightarrow> nat list" where
  "nonblank_from recs j = filter (\<lambda>k. \<not> blank (key_of recs k)) [j..<length recs]"

lemma nonblank_from_end: "nonblank_from recs (length recs) = []"
  by (simp add: nonblank_from_def)

lemma nonblank_from_Suc:
  "j < length recs \<Longrightarrow> nonblank_from recs j = (if blank (key_of recs j) then [] else [j]) @ nonblank_from recs (Suc j)"
  by (simp add: nonblank_from_def upt_conv_Cons)

lemma nextrec_loop_run:
  assumes "holds d heads recs" and "j \<le> length recs" and "db_pos d = rec_off recs j"
  shows "case nonblank_from recs j of
      [] \<Rightarrow> \<exists>d'. nextrec_loop d = return_db False d' \<and> same_files d d'
    | k # ks \<Rightarrow> k < length recs \<and> ks = nonblank_from recs (Suc k) \<and>
        (\<exists>d'. nextrec_loop d = return_db True d' \<and> same_files d d' \<and> at_rec recs k d' \<and> db_pos d' = rec_off recs (Suc k))"
  using assms
proof (induction "length recs - j" arbitrary: j d)
  case 0
  then have j: "j = length recs" by simp
  have "nextrec_loop d = return_db False (d\<lparr>idxoff := int (db_pos d)\<rparr>)"
    using db_readidx_end [of d heads recs] 0 j by (subst nextrec_loop.simps) simp
  then show ?case by (auto simp: j nonblank_from_end same_files_def counters_def)
next
  case (Suc n)
  have j: "j < length recs" using Suc(2) by simp
  let ?d = "loaded recs j d"
  have read: "db_readidx 0 d = return_db (int (ir_ptr (recs ! j))) ?d" by (rule db_readidx_rec [OF Suc(3) j]) (simp add: Suc(5))
  have step: "nextrec_loop d = (if blank (key_of recs j) then nextrec_loop ?d else return_db True ?d)"
    by (subst nextrec_loop.simps) (simp add: read loaded_facts(4))
  have pos: "db_pos ?d = rec_off recs (Suc j)" by (simp add: loaded_def)
  note same = loaded_facts(1) [of d recs j]
  show ?case
  proof (cases "blank (key_of recs j)")
    case True
    have h: "holds ?d heads recs" using Suc(3) same by (simp add: same_files_def)
    have "n = length recs - Suc j" using Suc(2) by simp
    from Suc(1) [OF this h _ pos] j True same_files_trans [OF same] show ?thesis
      by (auto simp: step nonblank_from_Suc split: list.splits)
  next
    case False
    then show ?thesis using j same loaded_facts(2) [of recs j d] pos by (auto simp: step nonblank_from_Suc)
  qed
qed

lemma nonblank_live:
  assumes "idx_ok heads recs live ch" and "k \<in> set (nonblank_from recs j)"
  shows "k \<in> live"
  using assms by (auto simp: idx_ok_def nonblank_from_def)

lemma data_ok_read:
  assumes "data_ok dat recs live m" and "k \<in> live" and "k < length recs"
  obtains x where "m (key_of recs k) = Some x" and "pread dat (ir_off (recs ! k)) (ir_len (recs ! k)) = x @ [NEWLINE]" and "NUL \<notin> set x"
    and "ir_off (recs ! k) + ir_len (recs ! k) \<le> length dat"
  using assms by (auto simp: data_ok_def)

definition entry_of :: "(string \<rightharpoonup> string) \<Rightarrow> irec list \<Rightarrow> nat \<Rightarrow> string \<times> string" where
  "entry_of m recs k = (key_of recs k, the (m (key_of recs k)))"

definition same_db :: "db \<Rightarrow> db \<Rightarrow> bool" where
  "same_db d d' \<longleftrightarrow> db_idx d' = db_idx d \<and> db_dat d' = db_dat d \<and> nhash d' = nhash d \<and> hashoff d' = hashoff d \<and> db_locks d' = db_locks d"

lemma db_nextrec_run:
  assumes "holds d heads recs" and "idx_ok heads recs live ch" and "data_ok (db_dat d) recs live m" and "j \<le> length recs"
    and "db_pos d = rec_off recs j" and "db_locks d = []"
  shows "case nonblank_from recs j of
      [] \<Rightarrow> \<exists>d'. db_nextrec d = return_db None d' \<and> same_db d d'
    | k # ks \<Rightarrow> k < length recs \<and> ks = nonblank_from recs (Suc k) \<and>
        (\<exists>d'. db_nextrec d = return_db (Some (entry_of m recs k)) d' \<and> same_db d d' \<and> db_pos d' = rec_off recs (Suc k))"
proof -
  let ?l = "lock_db free_lock d"
  have l: "holds ?l heads recs" "db_pos ?l = rec_off recs j" using assms(1,5) by (simp_all add: lock_db_def)
  have same: "same_db d (unlock_db free_lock d')" if "same_files ?l d'" for d'
    using that assms(6) by (simp add: same_files_def same_db_def unlock_db_def lock_db_def)
  show ?thesis
  proof (cases "nonblank_from recs j")
    case Nil
    then obtain d' where "nextrec_loop ?l = return_db False d'" "same_files ?l d'"
      using nextrec_loop_run [OF l(1) assms(4) l(2)] by auto
    then show ?thesis using Nil same [of d'] by (auto simp: db_nextrec_def)
  next
    case (Cons k ks)
    then obtain d' where k: "k < length recs" "ks = nonblank_from recs (Suc k)"
      and d': "nextrec_loop ?l = return_db True d'" "same_files ?l d'" "at_rec recs k d'" "db_pos d' = rec_off recs (Suc k)"
      using nextrec_loop_run [OF l(1) assms(4) l(2)] by auto
    have live: "k \<in> live" by (rule nonblank_live [OF assms(2), of k j]) (simp add: Cons)
    obtain x where x: "m (key_of recs k) = Some x" "pread (db_dat d) (ir_off (recs ! k)) (ir_len (recs ! k)) = x @ [NEWLINE]" "NUL \<notin> set x"
      "ir_off (recs ! k) + ir_len (recs ! k) \<le> length (db_dat d)" by (rule data_ok_read [OF assms(3) live k(1)])
    have dat: "db_dat d' = db_dat d" using d'(2) by (simp add: same_files_def lock_db_def)
    have read: "db_readdat d' = return_db x (d'\<lparr>datbuf := x\<rparr>)" by (rule db_readdat_run [OF d'(3)]) (use x dat in simp_all)
    let ?e = "d'\<lparr>datbuf := x, cnt_nextrec := cnt_nextrec d' + 1\<rparr>"
    have "db_nextrec d = return_db (Some (entry_of m recs k)) (unlock_db free_lock ?e)"
      unfolding db_nextrec_def d'(1) using d'(3) x(1) by (simp add: read at_rec_def entry_of_def)
    moreover have "same_db d (unlock_db free_lock ?e)" using same [OF d'(2)] by (simp add: same_db_def unlock_db_def)
    ultimately show ?thesis using Cons k d'(4) by (auto simp: unlock_db_def)
  qed
qed

subsection \<open>The loop over all records\<close>

text \<open>The loop \<^verbatim>\<open>while ((ptr = db_nextrec(db, key)) != NULL)\<close> of a program that uses the library.\<close>

fun db_scan :: "nat \<Rightarrow> db \<Rightarrow> (string \<times> string) list dbres" where
  "db_scan fuel d = bind_e (db_nextrec d) (\<lambda>(r, d1). case r of
      None \<Rightarrow> return_db [] d1
    | Some e \<Rightarrow> (case fuel of
        0 \<Rightarrow> Inr Diverges
      | Suc n \<Rightarrow> bind_e (db_scan n d1) (\<lambda>(es, d2). return_db (e # es) d2)))"

declare db_scan.simps [simp del]

lemma same_db_trans: "same_db d d1 \<Longrightarrow> same_db d1 d2 \<Longrightarrow> same_db d d2"
  by (simp add: same_db_def)

lemma db_scan_run:
  assumes "holds d heads recs" and "idx_ok heads recs live ch" and "data_ok (db_dat d) recs live m" and "j \<le> length recs"
    and "db_pos d = rec_off recs j" and "db_locks d = []" and "length (nonblank_from recs j) \<le> fuel"
  shows "\<exists>d'. db_scan fuel d = return_db (map (entry_of m recs) (nonblank_from recs j)) d' \<and> same_db d d'"
  using assms(1,3-7)
proof (induction "nonblank_from recs j" arbitrary: j d fuel)
  case Nil
  obtain d' where "db_nextrec d = return_db None d'" "same_db d d'"
    using db_nextrec_run [OF Nil(2) assms(2) Nil(3-6)] unfolding Nil(1) [symmetric] list.case by blast
  then have "db_scan fuel d = return_db [] d'" by (subst db_scan.simps) simp
  then show ?case unfolding Nil(1) [symmetric] using \<open>same_db d d'\<close> by simp
next
  case (Cons k ks)
  obtain d' where k: "k < length recs" "ks = nonblank_from recs (Suc k)"
    and d': "db_nextrec d = return_db (Some (entry_of m recs k)) d'" "same_db d d'" "db_pos d' = rec_off recs (Suc k)"
    using db_nextrec_run [OF Cons(3) assms(2) Cons(4-7)] unfolding Cons(2) [symmetric] list.case by blast
  have "length (k # ks) \<le> fuel" using Cons(8) unfolding Cons(2) [symmetric] .
  then obtain n where fuel: "fuel = Suc n" "length ks \<le> n" by (cases fuel) auto
  have "holds d' heads recs" "data_ok (db_dat d') recs live m" "db_locks d' = []" using Cons(3,4,7) d'(2) by (simp_all add: same_db_def)
  from Cons(1) [OF k(2) this(1,2) Suc_leI [OF k(1)] d'(3) this(3), of n] fuel(2) obtain d2 where
    d2: "db_scan n d' = return_db (map (entry_of m recs) ks) d2" "same_db d' d2" unfolding k(2) [symmetric] by blast
  have "db_scan fuel d = return_db (map (entry_of m recs) (k # ks)) d2" by (subst db_scan.simps) (simp add: fuel(1) d'(1) d2(1))
  then show ?case unfolding Cons(2) [symmetric] using same_db_trans [OF d'(2) d2(2)] by blast
qed

lemma nonblank_entries:
  assumes "idx_ok heads recs live ch" and "data_ok dat recs live m"
  shows "distinct (map fst (map (entry_of m recs) (nonblank_from recs 0)))"
    and "map_of (map (entry_of m recs) (nonblank_from recs 0)) = m |` {key. \<not> blank key}"
proof -
  let ?ks = "nonblank_from recs 0"
  have inj: "inj_on (key_of recs) live" and sub: "live \<subseteq> {..<length recs}" using assms(1) by (simp_all add: idx_ok_def)
  have live: "set ?ks \<subseteq> live" using nonblank_live [OF assms(1)] by blast
  have keys: "map fst (map (entry_of m recs) ks) = map (key_of recs) ks" for ks by (simp add: entry_of_def)
  have "distinct ?ks" by (simp add: nonblank_from_def)
  then show "distinct (map fst (map (entry_of m recs) ?ks))"
    unfolding keys using inj_on_subset [OF inj live] by (simp add: distinct_map)
  have val: "map_of (map (entry_of m recs) ks) key = (if key \<in> key_of recs ` set ks then Some (the (m key)) else None)" for key ks
    by (induction ks) (auto simp: entry_of_def)
  have dom: "dom m = key_of recs ` live" using assms(2) by (simp add: data_ok_def)
  have img: "key \<in> key_of recs ` set ?ks \<longleftrightarrow> key \<in> dom m \<and> \<not> blank key" for key
    unfolding dom using live sub by (auto simp: nonblank_from_def image_iff)
  have "map_of (map (entry_of m recs) ?ks) key = (m |` {key. \<not> blank key}) key" for key
    unfolding val img by (auto simp: restrict_map_def)
  then show "map_of (map (entry_of m recs) ?ks) = m |` {key. \<not> blank key}" by (rule ext)
qed

lemma db_scan_rep:
  assumes "db_rep d m"
  shows "\<exists>es d'. db_scan (length (db_idx d)) (db_rewind d) = return_db es d' \<and> distinct (map fst es) \<and>
    map_of es = m |` {key. \<not> blank key} \<and> db_rep d' m"
proof -
  have n: "nhash d = NHASH_DEF" "hashoff d = HASH_OFF" "db_locks d = []" and rep: "files_rep (db_idx d) (db_dat d) m"
    using assms by (simp_all add: db_rep_def)
  then obtain heads recs live ch where h: "holds d heads recs" and ok: "idx_ok heads recs live ch" and dat: "data_ok (db_dat d) recs live m"
    using files_rep_obtain by metis
  let ?d = "db_rewind d"
  have r: "holds ?d heads recs" "data_ok (db_dat ?d) recs live m" "db_pos ?d = rec_off recs 0" "db_locks ?d = []"
    using h dat n by (simp_all add: db_rewind_def rec_off_def TAB_END_def)
  have "length (nonblank_from recs 0) \<le> length recs"
    using length_filter_le [of "\<lambda>k. \<not> blank (key_of recs k)" "[0..<length recs]"] by (simp add: nonblank_from_def)
  also have "\<dots> \<le> length (db_idx d)" using length_recs_le h by simp
  finally obtain d' where d': "db_scan (length (db_idx d)) ?d = return_db (map (entry_of m recs) (nonblank_from recs 0)) d'" "same_db ?d d'"
    using db_scan_run [OF r(1) ok r(2) _ r(3,4)] by blast
  have "db_rep d' m" using d'(2) n rep by (simp add: same_db_def db_rep_def db_rewind_def)
  then show ?thesis using d'(1) nonblank_entries [OF ok dat] by blast
qed

end
