(* ===== verification/Db_Api.thy ===== *)
theory Db_Api
  imports Db_Scan
begin

section \<open>The database library as a key-value store\<close>

text \<open>
  The interface that \<^verbatim>\<open>apue_db.h\<close> offers to a program, as a locale: what \<^verbatim>\<open>db_fetch\<close>, \<^verbatim>\<open>db_store\<close> and \<^verbatim>\<open>db_delete\<close> promise of the
  map behind the handle. A sequence of operations then answers as it would on the map. The locale is interpreted on the
  functions of \<^verbatim>\<open>db.c\<close>, and the program \<^verbatim>\<open>t4.c\<close> is a client of it.
\<close>

lemma map_store_STORE: "map_store key x DB_STORE m = (0, m(key \<mapsto> x))"
  by (cases "m key") simp_all

subsection \<open>Operations and answers\<close>

datatype db_op = Fetch string | Store string string store_flag | Delete string
datatype db_answer = Data "string option" | Code int

fun map_step :: "db_op \<Rightarrow> (string \<rightharpoonup> string) \<Rightarrow> db_answer \<times> (string \<rightharpoonup> string)" where
  "map_step (Fetch key) m = (Data (m key), m)"
| "map_step (Store key x flag) m = (Code (fst (map_store key x flag m)), snd (map_store key x flag m))"
| "map_step (Delete key) m = (Code (if m key = None then -1 else 0), m(key := None))"

fun map_run :: "db_op list \<Rightarrow> (string \<rightharpoonup> string) \<Rightarrow> db_answer list \<times> (string \<rightharpoonup> string)" where
  "map_run [] m = ([], m)"
| "map_run (op # ops) m = (let (a, m1) = map_step op m; (as, m2) = map_run ops m1 in (a # as, m2))"

fun valid_op :: "(string \<Rightarrow> string \<Rightarrow> bool) \<Rightarrow> db_op \<Rightarrow> bool" where
  "valid_op valid (Store key x flag) = valid key x"
| "valid_op valid _ = True"

text \<open>The same operations on a store that is given by its three functions.\<close>

type_synonym 's kv_fetch = "string \<Rightarrow> 's \<Rightarrow> (string option \<times> 's) outcome cres"
type_synonym 's kv_store_fun = "string \<Rightarrow> string \<Rightarrow> store_flag \<Rightarrow> 's \<Rightarrow> (int \<times> 's) outcome cres"
type_synonym 's kv_delete = "string \<Rightarrow> 's \<Rightarrow> (int \<times> 's) outcome cres"

fun kv_step :: "'s kv_fetch \<Rightarrow> 's kv_store_fun \<Rightarrow> 's kv_delete \<Rightarrow> db_op \<Rightarrow> 's \<Rightarrow> (db_answer \<times> 's) outcome cres" where
  "kv_step fe st de (Fetch key) s = bind_e (fe key s) (\<lambda>(r, s1). Inr (Done (Data r, s1)))"
| "kv_step fe st de (Store key x flag) s = bind_e (st key x flag s) (\<lambda>(rc, s1). Inr (Done (Code rc, s1)))"
| "kv_step fe st de (Delete key) s = bind_e (de key s) (\<lambda>(rc, s1). Inr (Done (Code rc, s1)))"

fun kv_run :: "'s kv_fetch \<Rightarrow> 's kv_store_fun \<Rightarrow> 's kv_delete \<Rightarrow> db_op list \<Rightarrow> 's \<Rightarrow> (db_answer list \<times> 's) outcome cres" where
  "kv_run fe st de [] s = Inr (Done ([], s))"
| "kv_run fe st de (op # ops) s = bind_e (kv_step fe st de op s) (\<lambda>(a, s1).
     bind_e (kv_run fe st de ops s1) (\<lambda>(as, s2). Inr (Done (a # as, s2))))"

subsection \<open>The interface\<close>

text \<open>\<open>rep n s m\<close>: the state \<open>s\<close> stands for the map \<open>m\<close> and has room for \<open>n\<close> more operations.\<close>

locale kv_store =
  fixes rep :: "nat \<Rightarrow> 's \<Rightarrow> (string \<rightharpoonup> string) \<Rightarrow> bool"
    and fetch :: "'s kv_fetch"
    and store :: "'s kv_store_fun"
    and delete :: "'s kv_delete"
    and valid :: "string \<Rightarrow> string \<Rightarrow> bool"
  assumes room: "rep (Suc n) s m \<Longrightarrow> rep n s m"
    and fetch_law: "rep n s m \<Longrightarrow> \<exists>s'. fetch key s = Inr (Done (m key, s')) \<and> rep n s' m"
    and store_law: "rep (Suc n) s m \<Longrightarrow> valid key x \<Longrightarrow>
      \<exists>s'. store key x flag s = Inr (Done (fst (map_store key x flag m), s')) \<and> rep n s' (snd (map_store key x flag m))"
    and delete_law: "rep n s m \<Longrightarrow> \<exists>s'. delete key s = Inr (Done (if m key = None then -1 else 0, s')) \<and> rep n s' (m(key := None))"
begin

lemma step_refines:
  assumes "rep (Suc n) s m" and "valid_op valid op"
  shows "\<exists>s'. kv_step fetch store delete op s = Inr (Done (fst (map_step op m), s')) \<and> rep n s' (snd (map_step op m))"
proof (cases op)
  case (Fetch key)
  then show ?thesis using fetch_law [OF room [OF assms(1)], of key] by auto
next
  case (Store key x flag)
  then show ?thesis using store_law [OF assms(1), of key x flag] assms(2) by auto
next
  case (Delete key)
  then show ?thesis using delete_law [OF room [OF assms(1)], of key] by auto
qed

lemma run_refines:
  assumes "rep (length ops) s m" and "list_all (valid_op valid) ops"
  shows "\<exists>s'. kv_run fetch store delete ops s = Inr (Done (fst (map_run ops m), s')) \<and> rep 0 s' (snd (map_run ops m))"
  using assms
proof (induction ops arbitrary: s m)
  case (Cons op ops)
  obtain s1 where s1: "kv_step fetch store delete op s = Inr (Done (fst (map_step op m), s1))" "rep (length ops) s1 (snd (map_step op m))"
    using step_refines [of "length ops" s m op] Cons(2,3) by auto
  obtain s2 where s2: "kv_run fetch store delete ops s1 = Inr (Done (fst (map_run ops (snd (map_step op m))), s2))"
    "rep 0 s2 (snd (map_run ops (snd (map_step op m))))"
    using Cons(1) [OF s1(2)] Cons(3) by auto
  then show ?case by (auto simp: s1(1) Let_def split: prod.splits)
qed simp

lemma store_then_fetch:
  assumes "rep (Suc n) s m" and "valid key x"
  shows "\<exists>s1 s2. store key x DB_STORE s = Inr (Done (0, s1)) \<and>
    fetch other s1 = Inr (Done (if other = key then Some x else m other, s2)) \<and> rep n s2 (m(key \<mapsto> x))"
proof -
  obtain s1 where s1: "store key x DB_STORE s = Inr (Done (0, s1))" "rep n s1 (m(key \<mapsto> x))"
    using store_law [OF assms, of DB_STORE] unfolding map_store_STORE fst_conv snd_conv by blast
  then show ?thesis using fetch_law [OF s1(2), of other] by auto
qed

lemma delete_then_fetch:
  assumes "rep n s m"
  shows "\<exists>rc s1 s2. delete key s = Inr (Done (rc, s1)) \<and> fetch key s1 = Inr (Done (None, s2)) \<and> rep n s2 (m(key := None))"
  using delete_law [OF assms, of key] fetch_law [of n _ "m(key := None)" key] by fastforce

end

subsection \<open>The library provides it\<close>

definition db_cap :: "nat \<Rightarrow> db \<Rightarrow> (string \<rightharpoonup> string) \<Rightarrow> bool" where
  "db_cap n d m \<longleftrightarrow> db_rep d m \<and> int (length (db_idx d) + n * REC_MAX) \<le> PTR_MAX \<and> length (db_dat d) + n * DATLEN_MAX < 10 ^ 15"

lemma db_cap_roomy: "db_cap n d m \<Longrightarrow> roomy d"
  unfolding db_cap_def roomy_def by linarith

lemma db_cap_grown: "db_cap (Suc n) d m \<Longrightarrow> grown d d' \<Longrightarrow> db_rep d' m' \<Longrightarrow> db_cap n d' m'"
  by (simp add: db_cap_def grown_def)

interpretation apue_db: kv_store db_cap db_fetch db_store db_delete good_entry
proof
  show "db_cap n d m" if "db_cap (Suc n) d m" for n d m using that by (simp add: db_cap_def)
  show "\<exists>d'. db_fetch key d = Inr (Done (m key, d')) \<and> db_cap n d' m" if "db_cap n d m" for n d m key
    using db_fetch_rep [of d m key] that by (auto simp: db_cap_def db_close_def return_db_def)
  show "\<exists>d'. db_store key x flag d = Inr (Done (fst (map_store key x flag m), d')) \<and> db_cap n d' (snd (map_store key x flag m))"
    if "db_cap (Suc n) d m" "good_entry key x" for n d m key x flag
    using db_store_rep [OF _ that(2) db_cap_roomy [OF that(1)], of m flag] db_cap_grown [OF that(1)] that(1)
    unfolding return_db_def by (metis db_cap_def)
  show "\<exists>d'. db_delete key d = Inr (Done (if m key = None then -1 else 0, d')) \<and> db_cap n d' (m(key := None))" if "db_cap n d m" for n d m key
    using db_delete_rep [of d m key] that unfolding db_cap_def return_db_def by fastforce
qed

text \<open>A new database has room for 9600 operations.\<close>

definition OPS_MAX :: nat where "OPS_MAX = 9600"

lemma db_open_cap:
  assumes "db_open name True (Some []) (Some []) = Some d" and "n \<le> OPS_MAX"
  shows "db_cap n d Map.empty"
proof -
  have d: "db_idx d = empty_table" "db_dat d = []" "nhash d = NHASH_DEF" "hashoff d = HASH_OFF" "db_locks d = []"
    using db_open_new [OF assms(1)] by (simp_all add: fresh_def)
  have "db_rep d Map.empty" using empty_rep d by (simp add: db_rep_def)
  moreover have "length (db_idx d) = 967" using d(1) length_empty_table by (simp add: TAB_END_def NHASH_DEF_def PTR_SZ_def)
  ultimately show ?thesis
    using assms(2) d(2) by (simp add: db_cap_def REC_MAX_def OPS_MAX_def PTR_SZ_def IDXLEN_SZ_def IDXLEN_MAX_def PTR_MAX_def DATLEN_MAX_def)
qed

subsection \<open>The program t4.c\<close>

text \<open>
  The arguments are the answers of \<^verbatim>\<open>open\<close> inside \<^verbatim>\<open>db_open\<close>; the result is what the two files contain when the program has ended
  with 0.
\<close>

definition t4_store :: "string \<Rightarrow> string \<Rightarrow> db \<Rightarrow> unit dbres" where
  "t4_store key x d = bind_e (db_store key x DB_INSERT d) (\<lambda>(rc, d1). if rc \<noteq> 0 then err_quit else return_db () d1)"

definition t4_main :: "string option \<Rightarrow> string option \<Rightarrow> (string \<times> string) outcome cres" where
  "t4_main idxfile datfile = (case db_open ''db4'' True idxfile datfile of
      None \<Rightarrow> Inr (Exits 1)
    | Some d \<Rightarrow>
        bind_e (t4_store ''Alpha'' ''data1'' d) (\<lambda>(_, d1).
        bind_e (t4_store ''beta'' ''Data for beta'' d1) (\<lambda>(_, d2).
        bind_e (t4_store ''gamma'' ''record3'' d2) (\<lambda>(_, d3).
          Inr (Done (db_close d3))))))"

lemma t4_store_cap:
  assumes "db_cap (Suc n) d m" and "good_entry key x" and "m key = None"
  shows "\<exists>d'. t4_store key x d = return_db () d' \<and> db_cap n d' (m(key \<mapsto> x))"
  using apue_db.store_law [OF assms(1,2), of DB_INSERT] assms(3) by (auto simp: t4_store_def)

subsection \<open>Keys that the library cannot keep\<close>

lemma split_sep_more: "SEP \<in> set s \<Longrightarrow> \<exists>a b. s = a @ SEP # b \<and> split_sep (s @ t) = Some (a, b @ t)"
  using split_sep_front split_list_first [of SEP s] by fastforce

lemma parse_separator_key:
  assumes "SEP \<in> set key" and "NUL \<notin> set key"
  shows "parse_record (idx_body key (int off) len) = None"
proof -
  let ?o = "show_dec (int off)" and ?l = "show_dec (int len)"
  have o: "SEP \<notin> set ?o" using show_dec_clean by blast
  obtain a b where first: "split_sep (key @ SEP # ?o @ SEP # ?l) = Some (a, b @ SEP # ?o @ SEP # ?l)"
    using split_sep_more [OF assms(1)] by blast
  have "\<exists>c e. split_sep (b @ SEP # ?o @ SEP # ?l) = Some (c, e) \<and> SEP \<in> set e"
  proof (cases "SEP \<in> set b")
    case True
    then show ?thesis using split_sep_more [OF True, of "SEP # ?o @ SEP # ?l"] by fastforce
  next
    case False
    then show ?thesis using split_sep_front [OF False, of "?o @ SEP # ?l"] by simp
  qed
  then show ?thesis by (auto simp: parse_record_def cstr_body [OF assms(2)] first)
qed

lemma long_key_overflows:
  assumes "IDXLEN_MAX - 3 \<le> length key" and "0 \<le> ptr" and "ptr \<le> PTR_MAX" and "datoff d = int off"
  shows "db_writeidx key ioff wh ptr d = Inl BufferOverflow"
proof -
  have "1 \<le> length (show_dec (int off))" "1 \<le> length (show_dec (int (datlen d)))" by (rule show_dec_nonempty)+
  then have "IDXLEN_MAX + 2 < length (idx_body key (datoff d) (datlen d)) + 1"
    using assms(1,4) by (simp add: idx_body_def IDXLEN_MAX_def)
  then show ?thesis using assms(2,3) by (simp add: db_writeidx_def Let_def)
qed

lemma wf_rec_key_short: "wf_rec r \<Longrightarrow> length (ir_key r) + 5 \<le> IDXLEN_MAX"
  using show_dec_nonempty [of "ir_off r"] show_dec_nonempty [of "ir_len r"] by (simp add: wf_rec_def length_body_entry)

lemma store_long_key:
  assumes "db_rep d m" and "IDXLEN_MAX - 3 \<le> length key" and "flag = DB_INSERT \<or> flag = DB_STORE"
    and "x \<noteq> []" and "length x < DATLEN_MAX"
  shows "db_store key x flag d = Inl BufferOverflow"
proof -
  have short: "length (key_of recs k) \<noteq> length key" if "wf_idx heads recs" "k < length recs" for heads recs k
    using wf_rec_key_short [OF wf_rec_nth [OF that]] assms(2) by (simp add: IDXLEN_MAX_def)
  have len: "\<not> (length x + 1 < DATLEN_MIN \<or> DATLEN_MAX < length x + 1)" and flag: "flag \<noteq> BadFlag" "flag \<noteq> DB_REPLACE"
    using assms(3-5) by (cases x; auto simp: DATLEN_MIN_def)+
  from assms(1) show ?thesis
  proof (cases rule: db_find_rep [where key = key])
    case (absent heads recs live ch d1)
    let ?i = "Suc (key_hash key)"
    have i: "?i \<le> NHASH_DEF" using key_hash_less [of key] by simp
    have c: "chainoff d1 = int (?i * PTR_SZ)" using absent(7) by (simp add: searched_def)
    define d2 where "d2 = d1\<lparr>db_pos := ?i * PTR_SZ + PTR_SZ\<rparr>"
    have r1: "db_readptr (chainoff d1) d1 = return_db (int (heads ! ?i)) d2" unfolding d2_def c by (rule db_readptr_head [OF absent(4) i])
    have h2: "holds d2 heads recs" and c0: "chain recs (heads ! 0) (ch 0)" and free: "free_lock \<notin> set (db_locks d2)"
      using absent(4) chains_okD [of heads recs ch 0] absent(5) chain_lock_distinct(1) [OF c _ absent(8)] by (simp_all add: d2_def idx_ok_def)
    have none: "\<not> (\<exists>us k vs. ch 0 = us @ k # vs \<and> length (key_of recs k) = length key)"
    proof (clarify)
      fix us k vs assume "ch 0 = us @ k # vs" "length (key_of recs k) = length key"
      moreover from this have "k < length recs" using c0 by (simp add: chain_def)
      ultimately show False using short absent(4) by blast
    qed
    obtain d3 where d3: "db_findfree (length key) (length x + 1) d2 = return_db (-1) d3" "db_dat d3 = db_dat d2" "same_handle d2 d3"
      using db_findfree_run [OF h2 c0 free, of "length key" "length x + 1"] none by blast
    have l: "(DatFile, 0, 0) \<notin> set (db_locks d3)"
      using chain_lock_distinct(2) [OF c _ absent(8)] d3(3) by (simp add: same_handle_def d2_def)
    have good: "int (heads ! ?i) \<le> PTR_MAX" using head_good_ptr [of heads recs ?i] absent(4) i by (simp add: good_ptr_def)
    have "store_at key x 0 0 SEEK_END (int (heads ! ?i)) d3 = Inl BufferOverflow"
      unfolding store_at_def db_writedat_run(2) [OF l] using long_key_overflows [OF assms(2) _ good, where off = "length (db_dat d3)"] by simp
    then have "store_new key x d1 = Inl BufferOverflow" unfolding store_new_def r1 using d3(1) by simp
    then show ?thesis unfolding db_store_def if_not_P [OF flag(1)] if_not_P [OF len] absent(2) using flag(2) by simp
  next
    case (present heads recs live ch us k vs d1)
    then have "wf_idx heads recs" "k < length recs" by (auto simp: found_at_def idx_ok_def)
    then show ?thesis using short present(4) by metis
  qed
qed

subsection \<open>The main properties\<close>

text \<open>
  C3: from a database that \<^verbatim>\<open>db_open\<close> has just created, any sequence of at most 9600 fetches, stores and deletes (of storable keys and
  data) returns, and every answer is the one the operation gives on a finite map that starts empty: the hash chains, the free list and the reuse of deleted records do not
  show. Afterwards the two files represent the final map, with no lock left.
\<close>

theorem db_refines_map:
  assumes "db_open name True (Some []) (Some []) = Some d" and "length ops \<le> OPS_MAX" and "list_all (valid_op good_entry) ops"
  shows "\<exists>d'. kv_run db_fetch db_store db_delete ops d = return_db (fst (map_run ops Map.empty)) d' \<and> db_rep d' (snd (map_run ops Map.empty))"
  using apue_db.run_refines [OF db_open_cap [OF assms(1,2)] assms(3)] by (auto simp: db_cap_def return_db_def)

lemma witness_entries: "good_entry ''key'' ''old'' \<and> good_entry ''key'' ''newer'' \<and> good_entry ''kez'' ''abcde''"
  by (simp add: good_entry_def good_key_def KEY_MAX_def DATLEN_MAX_def db_chars)

lemma db_open_some: "\<exists>d. db_open name True (Some []) (Some []) = Some d"
  by (simp add: db_open_def Let_def)

theorem db_refines_map_witness:
  "\<exists>d d'. db_open ''db'' True (Some []) (Some []) = Some d \<and>
    kv_run db_fetch db_store db_delete [Store ''key'' ''old'' DB_INSERT, Store ''key'' ''newer'' DB_REPLACE, Fetch ''key'', Delete ''key'',
      Store ''kez'' ''abcde'' DB_STORE, Fetch ''key''] d =
    return_db [Code 0, Code 0, Data (Some ''newer''), Code 0, Code 0, Data None] d' \<and> db_rep d' [''kez'' \<mapsto> ''abcde'']"
proof -
  let ?ops = "[Store ''key'' ''old'' DB_INSERT, Store ''key'' ''newer'' DB_REPLACE, Fetch ''key'', Delete ''key'', Store ''kez'' ''abcde'' DB_STORE, Fetch ''key'']"
  obtain d where d: "db_open ''db'' True (Some []) (Some []) = Some d" using db_open_some by blast
  have "list_all (valid_op good_entry) ?ops" "length ?ops \<le> OPS_MAX" using witness_entries by (simp_all add: OPS_MAX_def)
  moreover have "map_run ?ops Map.empty = ([Code 0, Code 0, Data (Some ''newer''), Code 0, Code 0, Data None], [''kez'' \<mapsto> ''abcde''])"
    by (auto simp: Let_def)
  ultimately show ?thesis using db_refines_map [OF d, of ?ops] d by auto
qed

text \<open>
  C24: what a store leaves in the files survives the process: when the database is closed and its two files are opened again, in
  whatever mode, \<^verbatim>\<open>db_fetch\<close> of the stored key gives the stored data, and that of every other key gives what it gave before.
\<close>

theorem db_reopen_roundtrip:
  assumes "db_cap 1 d m" and "good_entry key x" and "db_store key x DB_STORE d = return_db 0 d1"
    and "db_open name ct (Some (fst (db_close d1))) (Some (snd (db_close d1))) = Some d2"
  shows "\<exists>d3. db_fetch other d2 = return_db (if other = key then Some x else m other) d3"
proof -
  have "db_rep d1 (m(key \<mapsto> x))"
    using apue_db.store_then_fetch [of 0 d m key x] apue_db.store_law [of 0 d m key x DB_STORE] assms(1-3)
    unfolding map_store_STORE by (auto simp: db_cap_def return_db_def)
  then have rep: "files_rep (db_idx d1) (db_dat d1) (m(key \<mapsto> x))" by (simp add: db_rep_def)
  have "db_rep d2 (m(key \<mapsto> x))"
    using db_open_old [OF assms(4)] files_rep_nonempty [OF rep] rep by (simp add: db_rep_def fresh_def db_close_def)
  then show ?thesis using db_fetch_rep [of d2 "m(key \<mapsto> x)" other] by auto
qed

theorem db_reopen_roundtrip_witness:
  "\<exists>d d1 d2 d3. db_open ''db'' True (Some []) (Some []) = Some d \<and> db_store ''key'' ''old'' DB_STORE d = return_db 0 d1 \<and>
    db_open ''db'' False (Some (fst (db_close d1))) (Some (snd (db_close d1))) = Some d2 \<and> db_fetch ''key'' d2 = return_db (Some ''old'') d3"
proof -
  obtain d where d: "db_open ''db'' True (Some []) (Some []) = Some d" using db_open_some by blast
  have cap: "db_cap 1 d Map.empty" by (rule db_open_cap [OF d]) (simp add: OPS_MAX_def)
  obtain d1 where d1: "db_store ''key'' ''old'' DB_STORE d = return_db 0 d1"
    using apue_db.store_law [of 0 d Map.empty "''key''" "''old''" DB_STORE] cap witness_entries by (auto simp: return_db_def)
  obtain d2 where d2: "db_open ''db'' False (Some (fst (db_close d1))) (Some (snd (db_close d1))) = Some d2" by (simp add: db_open_def Let_def)
  show ?thesis using db_reopen_roundtrip [OF cap _ d1 d2, of "''key''"] witness_entries d d1 d2 by auto
qed

text \<open>
  \<^verbatim>\<open>db_delete\<close> returns 0 exactly when the key is in the database, removes it and nothing else, and does not make the files
  longer; the record is put on the free list and its chain is relinked, so later searches still end.
\<close>

theorem db_delete_removes:
  assumes "db_rep d m"
  shows "\<exists>d'. db_delete key d = return_db (if m key = None then -1 else 0) d' \<and> db_rep d' (m(key := None)) \<and>
    length (db_idx d') = length (db_idx d) \<and> length (db_dat d') = length (db_dat d)"
  using assms by (rule db_delete_rep)

theorem db_delete_removes_witness:
  "\<exists>d d1 d2. db_open ''db'' True (Some []) (Some []) = Some d \<and> db_store ''key'' ''old'' DB_STORE d = return_db 0 d1 \<and>
    db_delete ''key'' d1 = return_db 0 d2 \<and> db_rep d2 Map.empty"
proof -
  obtain d where d: "db_open ''db'' True (Some []) (Some []) = Some d" using db_open_some by blast
  have cap: "db_cap 1 d Map.empty" by (rule db_open_cap [OF d]) (simp add: OPS_MAX_def)
  obtain d1 where d1: "db_store ''key'' ''old'' DB_STORE d = return_db 0 d1" "db_rep d1 [''key'' \<mapsto> ''old'']"
    using apue_db.store_law [of 0 d Map.empty "''key''" "''old''" DB_STORE] cap witness_entries by (auto simp: return_db_def db_cap_def)
  show ?thesis using db_delete_removes [OF d1(2), of "''key''"] d d1(1) by auto
qed

text \<open>
  After \<^verbatim>\<open>db_rewind\<close>, the loop over \<^verbatim>\<open>db_nextrec\<close> ends and has given every entry of the database exactly once, deleted records
  left out; entries whose key consists of blanks are left out too.
\<close>

theorem db_nextrec_enumerates:
  assumes "db_rep d m"
  shows "\<exists>es d'. db_scan (length (db_idx d)) (db_rewind d) = return_db es d' \<and> distinct (map fst es) \<and>
    map_of es = m |` {key. \<not> blank key} \<and> db_rep d' m"
  using assms by (rule db_scan_rep)

theorem db_nextrec_enumerates_witness:
  "\<exists>d d1 es d2. db_open ''db'' True (Some []) (Some []) = Some d \<and> db_store ''key'' ''old'' DB_STORE d = return_db 0 d1 \<and>
    db_scan (length (db_idx d1)) (db_rewind d1) = return_db es d2 \<and> map_of es ''key'' = Some ''old''"
proof -
  obtain d where d: "db_open ''db'' True (Some []) (Some []) = Some d" using db_open_some by blast
  have cap: "db_cap 1 d Map.empty" by (rule db_open_cap [OF d]) (simp add: OPS_MAX_def)
  obtain d1 where d1: "db_store ''key'' ''old'' DB_STORE d = return_db 0 d1" "db_rep d1 [''key'' \<mapsto> ''old'']"
    using apue_db.store_law [of 0 d Map.empty "''key''" "''old''" DB_STORE] cap witness_entries by (auto simp: return_db_def db_cap_def)
  obtain es d2 where es: "db_scan (length (db_idx d1)) (db_rewind d1) = return_db es d2" "map_of es = [''key'' \<mapsto> ''old''] |` {key. \<not> blank key}"
    using db_nextrec_enumerates [OF d1(2)] by blast
  have "map_of es ''key'' = Some ''old''" unfolding es(2) by (simp add: restrict_map_def blank_def SPACE_def)
  then show ?thesis using d d1(1) es(1) by blast
qed

text \<open>
  Whatever bytes the two files hold, \<^verbatim>\<open>db_nextrec\<close> ends: every index record it reads moves the file offset on, so the loop over blank records cannot
  run forever. It returns a record or \<^verbatim>\<open>NULL\<close>, or aborts the program on a malformed file.
\<close>

theorem db_nextrec_ends: "(\<exists>r d'. db_nextrec d = return_db r d') \<or> db_nextrec d = err_dump"
proof -
  have idx: "(\<exists>r d'. db_readidx 0 d = return_db r d') \<or> db_readidx 0 d = err_dump" for d
    unfolding db_readidx_def Let_def by (auto split: option.splits prod.splits)
  have loop: "(\<exists>r d'. nextrec_loop d = return_db r d') \<or> nextrec_loop d = err_dump" for d
  proof (induction d rule: nextrec_loop.induct)
    case (1 d)
    from idx [of d] show ?case
    proof (elim disjE exE)
      fix r d1 assume read: "db_readidx 0 d = return_db r d1"
      have "nextrec_loop d = (if r < 0 then return_db False d1 else if blank (idxbuf d1) then nextrec_loop d1 else return_db True d1)"
        by (subst nextrec_loop.simps) (simp add: read)
      moreover have "\<not> r < 0 \<Longrightarrow> blank (idxbuf d1) \<Longrightarrow> (\<exists>r d'. nextrec_loop d1 = return_db r d') \<or> nextrec_loop d1 = err_dump"
        using 1 [of "(r, d1)" r d1] read by (simp add: return_db_def)
      ultimately show ?thesis by auto
    next
      assume "db_readidx 0 d = err_dump"
      then show ?thesis by (subst nextrec_loop.simps) (simp add: err_dump_def)
    qed
  qed
  have dat: "(\<exists>s d'. db_readdat d = return_db s d') \<or> db_readdat d = err_dump" for d
    unfolding db_readdat_def Let_def by auto
  from loop [of "lock_db free_lock d"] show ?thesis
  proof (elim disjE exE)
    fix more d1 assume l: "nextrec_loop (lock_db free_lock d) = return_db more d1"
    show ?thesis using dat [of d1] by (auto simp: db_nextrec_def l err_dump_def)
  next
    assume "nextrec_loop (lock_db free_lock d) = err_dump"
    then show ?thesis by (simp add: db_nextrec_def err_dump_def)
  qed
qed

text \<open>
  What \<^verbatim>\<open>_db_writeidx\<close> prints over a place in the index file, \<^verbatim>\<open>_db_readidx\<close> parses back at that place: the chain pointer, the key, and
  the offset and length of the data.
\<close>

theorem index_record_roundtrip:
  assumes "good_entry key x" and "p \<le> nat PTR_MAX" and "off < 10 ^ 15" and "datoff d = int off" and "datlen d = length x + 1"
    and "0 < at" and "at \<le> length (db_idx d)"
  shows "\<exists>d1 d2. db_writeidx key (int at) SEEK_SET (int p) d = return_db () d1 \<and> db_readidx (int at) d1 = return_db (int p) d2 \<and>
    idxbuf d2 = key \<and> datoff d2 = int off \<and> datlen d2 = length x + 1 \<and> db_pos d2 = db_pos d1"
proof -
  let ?r = "entry key x p off" and ?a = "take at (db_idx d)"
  let ?f = "ptr_img p @ pad IDXLEN_SZ (show_dec (int (length (rec_body ?r))))"
  let ?rest = "drop (at + length (rec_img ?r)) (db_idx d)"
  have wf: "wf_rec ?r" using assms(2) by (intro entry_wf [OF assms(1) _ assms(3)]) (simp add: good_ptr_def PTR_MAX_def)
  define d1 where "d1 = written ?r at (pwrite (db_idx d) at (rec_img ?r)) d"
  have w: "db_writeidx key (int at) SEEK_SET (int p) d = return_db () d1"
    using db_writeidx_run(1) [OF wf, of d "int at"] assms(4,5) by (simp add: d1_def)
  have a: "length ?a = at" using assms(7) by simp
  have f: "length ?f = PTR_SZ + IDXLEN_SZ" using wf by (simp add: wf_rec_def length_len_field)
  have img: "db_idx d1 = ?a @ ?f @ (rec_body ?r @ ?rest)" "db_idx d1 = (?a @ ?f) @ rec_body ?r @ ?rest"
    using assms(7) by (simp_all add: d1_def written_def pwrite_def rec_img_def)
  have "pread (db_idx d1) at (PTR_SZ + IDXLEN_SZ) = ?f" unfolding img(1) by (rule pread_mid) (simp_all only: a f)
  moreover have "pread (db_idx d1) (at + PTR_SZ + IDXLEN_SZ) (length (rec_body ?r)) = rec_body ?r"
    unfolding img(2) by (rule pread_mid) (simp_all only: length_append [of ?a ?f] a f add.assoc)
  ultimately have "db_readidx (int at) d1 = return_db (int p) (d1\<lparr>idxoff := int at, ptrval := int p, idxlen := length (rec_body ?r),
      db_pos := at + length (rec_img ?r), idxbuf := key, datoff := int off, datlen := length x + 1\<rparr>)"
    using db_readidx_img [OF wf, of at "int at" d1] assms(6) by simp
  then show ?thesis using w by (simp add: d1_def written_def)
qed

theorem index_record_roundtrip_witness:
  "\<exists>d d1 d2. db_writeidx ''key'' (int 5) SEEK_SET (int 967) d = return_db () d1 \<and> db_readidx (int 5) d1 = return_db (int 967) d2 \<and> idxbuf d2 = ''key'' \<and>
    datoff d2 = int 12"
proof -
  let ?d = "(db_alloc ''db'' ''       0       0'' [])\<lparr>datoff := 12, datlen := 4\<rparr>"
  have "datoff ?d = int 12" "datlen ?d = length ''old'' + 1" "(0::nat) < 5" "5 \<le> length (db_idx ?d)" "(12::nat) < 10 ^ 15" "967 \<le> nat PTR_MAX"
    by (simp_all add: db_alloc_def PTR_MAX_def)
  then show ?thesis using index_record_roundtrip [OF witness_entries [THEN conjunct1], of 967 12 ?d 5] by blast
qed

text \<open>
  \<^verbatim>\<open>_db_writeidx\<close> prints the record into \<^verbatim>\<open>idxbuf\<close> before it checks the length: storing a key of 1021 or more bytes writes past the end
  of that buffer, in every database, instead of ending with the message about an invalid length.
\<close>

theorem db_store_long_key_overflow:
  assumes "db_rep d m" and "IDXLEN_MAX - 3 \<le> length key" and "flag = DB_INSERT \<or> flag = DB_STORE"
    and "x \<noteq> []" and "length x < DATLEN_MAX"
  shows "db_store key x flag d = Inl BufferOverflow"
  using assms by (rule store_long_key)

theorem db_store_long_key_overflow_witness:
  "\<exists>d. db_open ''db'' True (Some []) (Some []) = Some d \<and> db_store (replicate 1021 (CHR ''k'')) ''x'' DB_STORE d = Inl BufferOverflow"
proof -
  obtain d where d: "db_open ''db'' True (Some []) (Some []) = Some d" using db_open_some by blast
  have "db_rep d Map.empty" using db_open_cap [OF d, of 0] by (simp add: db_cap_def)
  from db_store_long_key_overflow [OF this, of "replicate 1021 (CHR ''k'')" DB_STORE "''x''"] d show ?thesis
    by (simp add: IDXLEN_MAX_def DATLEN_MAX_def del: replicate_Suc)
qed

text \<open>
  A key with a colon in it is written without a check, but the record that is written is one that \<^verbatim>\<open>_db_readidx\<close> refuses (too many separators), so
  that the next search that comes across it aborts the program.
\<close>

theorem separator_in_key_unreadable:
  assumes "SEP \<in> set key" and "NUL \<notin> set key"
  shows "parse_record (idx_body key (int off) len) = None"
  using assms by (rule parse_separator_key)

theorem separator_in_key_unreadable_witness: "parse_record (idx_body ''a:b'' (int 0) 2) = None"
  by (rule separator_in_key_unreadable) (simp_all add: db_chars)

text \<open>
  The program \<^verbatim>\<open>t4.c\<close>, on files that \<^verbatim>\<open>open\<close> has just created, ends with 0 and leaves a database of exactly its three entries.
\<close>

theorem t4_creates_three_entries:
  "\<exists>idx dat. t4_main (Some []) (Some []) = Inr (Done (idx, dat)) \<and>
    files_rep idx dat [''Alpha'' \<mapsto> ''data1'', ''beta'' \<mapsto> ''Data for beta'', ''gamma'' \<mapsto> ''record3'']"
proof -
  obtain d where d: "db_open ''db4'' True (Some []) (Some []) = Some d" using db_open_some by blast
  have good: "good_entry ''Alpha'' ''data1''" "good_entry ''beta'' ''Data for beta''" "good_entry ''gamma'' ''record3''"
    by (simp_all add: good_entry_def good_key_def KEY_MAX_def DATLEN_MAX_def db_chars)
  have cap: "db_cap (Suc (Suc (Suc 0))) d Map.empty" by (rule db_open_cap [OF d]) (simp add: OPS_MAX_def)
  obtain d1 where d1: "t4_store ''Alpha'' ''data1'' d = return_db () d1" "db_cap (Suc (Suc 0)) d1 [''Alpha'' \<mapsto> ''data1'']"
    using t4_store_cap [OF cap good(1)] by auto
  obtain d2 where d2: "t4_store ''beta'' ''Data for beta'' d1 = return_db () d2" "db_cap (Suc 0) d2 [''Alpha'' \<mapsto> ''data1'', ''beta'' \<mapsto> ''Data for beta'']"
    using t4_store_cap [OF d1(2) good(2)] by auto
  obtain d3 where d3: "t4_store ''gamma'' ''record3'' d2 = return_db () d3"
    "db_cap 0 d3 [''Alpha'' \<mapsto> ''data1'', ''beta'' \<mapsto> ''Data for beta'', ''gamma'' \<mapsto> ''record3'']"
    using t4_store_cap [OF d2(2) good(3)] by auto
  have "t4_main (Some []) (Some []) = Inr (Done (db_close d3))" by (simp add: t4_main_def d d1(1) d2(1) d3(1))
  then show ?thesis using d3(2) by (simp add: db_close_def db_cap_def db_rep_def)
qed

end
