(* ===== verification/File_Examples.thy ===== *)
theory File_Examples
  imports C_Prelude
begin

section \<open>The programs on files and directories (week2/examples/01_files)\<close>

text \<open>
  \<^verbatim>\<open>ex1_fgetc.c\<close> dumps a file byte by byte, \<^verbatim>\<open>ex2_getline.c\<close> line by line; \<^verbatim>\<open>ex3_getcwd.c\<close> and \<^verbatim>\<open>ex4_getcwd.c\<close> print the path of the
  program, the second with a buffer that grows until \<^verbatim>\<open>readlink\<close> fits; \<^verbatim>\<open>ex5_tree.c\<close> prints a directory tree with \<^verbatim>\<open>nftw\<close>. What the system
  answers (the bytes of a file or \<open>None\<close> when it cannot be opened, the text of a link, the tree) is an argument. The result is
  the exit code with the standard output; messages on the standard error are left out.
\<close>

type_synonym run = "(int \<times> string) cres"

subsection \<open>ex1\_fgetc.c\<close>

definition zero_pad :: "nat \<Rightarrow> string \<Rightarrow> string" where
  "zero_pad n s = replicate (n - length s) (CHR ''0'') @ s"

definition hex_upper :: "nat \<Rightarrow> char" where
  "hex_upper d = char_of (if d < 10 then 48 + d else 55 + d)"

definition show_HEX :: "nat \<Rightarrow> string" where
  "show_HEX n = map hex_upper (nat_digits 16 n)"

definition fgetc_line :: "nat \<Rightarrow> char \<Rightarrow> string" where
  "fgetc_line offset ch = zero_pad 3 (show_nat 10 offset) @ '': '' @ show_HEX (of_char ch) @ '' '' @ [ch] @ nl"

fun fgetc_loop :: "nat \<Rightarrow> string \<Rightarrow> string" where
  "fgetc_loop offset [] = []"
| "fgetc_loop offset (ch # f) = fgetc_line offset ch @ fgetc_loop (Suc offset) f"

definition ex1_fgetc :: "string list \<Rightarrow> (string \<Rightarrow> string option) \<Rightarrow> run" where
  "ex1_fgetc argv fopen = (if length argv \<noteq> 2 then Inr (1, [])
     else case fopen (argv ! 1) of None \<Rightarrow> Inr (1, []) | Some f \<Rightarrow> Inr (0, fgetc_loop 0 f))"

subsection \<open>ex2\_getline.c\<close>

text \<open>\<^verbatim>\<open>getline\<close>: the bytes up to and including the next newline, or to the end of the file.\<close>

definition getline_c :: "string \<Rightarrow> (string \<times> string) option" where
  "getline_c f = (if f = [] then None
     else let l = takeWhile (\<lambda>c. c \<noteq> CHR 0x0A) f; rest = dropWhile (\<lambda>c. c \<noteq> CHR 0x0A) f
       in if rest = [] then Some (l, []) else Some (l @ nl, tl rest))"

lemma getline_c_split:
  assumes "getline_c f = Some (l, rest)"
  shows "l @ rest = f \<and> l \<noteq> []"
proof -
  let ?a = "takeWhile (\<lambda>c. c \<noteq> CHR 0x0A) f" and ?b = "dropWhile (\<lambda>c. c \<noteq> CHR 0x0A) f"
  have f: "?a @ ?b = f" by (rule takeWhile_dropWhile_id)
  have ne: "f \<noteq> []" using assms by (auto simp: getline_c_def)
  show ?thesis
  proof (cases "?b = []")
    case True
    then have "l = ?a" "rest = []" using assms ne by (simp_all add: getline_c_def Let_def)
    moreover have "?a = f" using f unfolding True by (simp only: append_Nil2)
    ultimately show ?thesis using ne by simp
  next
    case False
    then have "hd ?b = CHR 0x0A" using hd_dropWhile [OF False] by simp
    then have b: "?b = CHR 0x0A # tl ?b" using False by (metis list.collapse)
    have "l = ?a @ nl" "rest = tl ?b" using assms unfolding getline_c_def Let_def if_not_P [OF ne] if_not_P [OF False] by simp_all
    then show ?thesis using f b by (simp add: nl_def)
  qed
qed

text \<open>\<^verbatim>\<open>malloc_usable_size\<close> of the buffer is what the allocator says, here a function of the line number.\<close>

definition getline_out :: "(nat \<Rightarrow> nat) \<Rightarrow> nat \<Rightarrow> string \<Rightarrow> string" where
  "getline_out usable lineno l = zero_pad 2 (show_nat 10 lineno) @ '' ['' @ zero_pad 3 (show_nat 10 (usable lineno)) @ ''] '' @
     zero_pad 3 (show_nat 10 (length l)) @ '': '' @ takeWhile (\<lambda>c. c \<noteq> CHR 0x00) l"

function getline_loop :: "(nat \<Rightarrow> nat) \<Rightarrow> nat \<Rightarrow> string \<Rightarrow> string list" where
  "getline_loop usable lineno f = (case getline_c f of None \<Rightarrow> []
     | Some (l, rest) \<Rightarrow> getline_out usable lineno l # getline_loop usable (Suc lineno) rest)"
  by pat_completeness auto
termination
proof (relation "measure (\<lambda>(_, _, f). length f)", simp, goal_cases)
  case (1 usable lineno f p l rest)
  then show ?case using getline_c_split [of f l rest] by auto
qed

declare getline_loop.simps [simp del]

definition ex2_getline :: "(nat \<Rightarrow> nat) \<Rightarrow> string list \<Rightarrow> (string \<Rightarrow> string option) \<Rightarrow> run" where
  "ex2_getline usable argv fopen = (if length argv \<noteq> 2 then Inr (1, [])
     else case fopen (argv ! 1) of None \<Rightarrow> Inr (1, []) | Some f \<Rightarrow> Inr (0, concat (getline_loop usable 0 f)))"

subsection \<open>ex3\_getcwd.c and ex4\_getcwd.c\<close>

definition paths_head :: "string \<Rightarrow> string" where
  "paths_head arg0 = ''Relative program file path: '' @ arg0 @ nl"

definition cwd_line :: "string \<Rightarrow> string" where
  "cwd_line cwd = ''Current dir: '' @ cwd @ nl"

definition abs_line :: "string \<Rightarrow> string" where
  "abs_line p = ''Absolute program file path: '' @ p @ nl"

definition ex3_getcwd :: "string \<Rightarrow> string option \<Rightarrow> run" where
  "ex3_getcwd arg0 cwd = (case cwd of None \<Rightarrow> Inr (0, paths_head arg0)
     | Some dir \<Rightarrow>
         let abspath_len = length arg0 + length dir + 1 in
         bind_c (sprintf_c \<lparr>buf_cap = abspath_len + 1, buf_str = []\<rparr> 0 (dir @ ''/'' @ arg0)) (\<lambda>abspath.
           Inr (0, paths_head arg0 @ cwd_line dir @ abs_line (buf_str abspath))))"

text \<open>
  The buffer after \<^verbatim>\<open>calloc\<close> and \<^verbatim>\<open>readlink\<close>, which does not add a null byte. The loop doubles the buffer until its last byte
  stays 0.
\<close>

definition readlink_buf :: "string \<Rightarrow> nat \<Rightarrow> string" where
  "readlink_buf link n = take n link @ replicate (n - length link) (CHR 0x00)"

lemma length_readlink_buf [simp]: "length (readlink_buf link n) = n"
  by (simp add: readlink_buf_def)

lemma readlink_buf_last:
  assumes "length link < n"
  shows "readlink_buf link n ! (n - 1) = CHR 0x00"
proof -
  have "\<not> n - 1 < length link" "n - 1 - length link < n - length link" using assms by linarith+
  then show ?thesis using assms by (simp add: readlink_buf_def nth_append del: One_nat_def)
qed

function readlink_loop :: "string \<Rightarrow> nat \<Rightarrow> string cres" where
  "readlink_loop link abspath_len =
     (if abspath_len = 0 then Inl OutOfBounds
      else if readlink_buf link abspath_len ! (abspath_len - 1) = CHR 0x00
      then Inr (takeWhile (\<lambda>c. c \<noteq> CHR 0x00) (readlink_buf link abspath_len))
      else readlink_loop link (abspath_len * 2))"
  by pat_completeness auto
termination
proof (relation "measure (\<lambda>(link, n). Suc (length link) - n)", simp, goal_cases)
  case (1 link n)
  then have "\<not> length link < n" using readlink_buf_last [of link n] by auto
  then show ?case using 1(1) by auto
qed

declare readlink_loop.simps [simp del]

definition ex4_getcwd :: "string \<Rightarrow> string option \<Rightarrow> string option \<Rightarrow> run" where
  "ex4_getcwd arg0 cwd link = (case cwd of None \<Rightarrow> Inr (0, paths_head arg0)
     | Some dir \<Rightarrow>
         (case link of None \<Rightarrow> Inr (1, paths_head arg0 @ cwd_line dir)
          | Some target \<Rightarrow> bind_c (readlink_loop target PATH_MAX) (\<lambda>abspath.
              Inr (0, paths_head arg0 @ cwd_line dir @ abs_line abspath))))"

subsection \<open>ex5\_tree.c\<close>

datatype ftw_type = FTW_F | FTW_D | FTW_DNR | FTW_SL | FTW_NS

text \<open>A directory tree as \<^verbatim>\<open>nftw\<close> with \<^verbatim>\<open>FTW_PHYS\<close> walks it: the path of an entry, its type and what is below it.\<close>

datatype ftw_tree = Entry string ftw_type "ftw_tree list"

definition esc_start :: "ftw_type \<Rightarrow> string" where
  "esc_start t = (case t of FTW_D \<Rightarrow> CHR 0x1B # ''[32m'' | FTW_DNR \<Rightarrow> CHR 0x1B # ''[31m'' | FTW_SL \<Rightarrow> CHR 0x1B # ''[34m''
     | FTW_F \<Rightarrow> CHR 0x1B # ''[0m'' | FTW_NS \<Rightarrow> [])"

definition esc_end :: "ftw_type \<Rightarrow> string" where
  "esc_end t = (if t = FTW_NS then [] else CHR 0x1B # ''[0m'')"

text \<open>The array \<^verbatim>\<open>indent\<close> has 128 bytes; with 128 tabs in it there is no null byte left for \<^verbatim>\<open>fprintf\<close>.\<close>

definition walk_func :: "string \<Rightarrow> ftw_type \<Rightarrow> nat \<Rightarrow> string cres" where
  "walk_func fpath typeflag level =
     (if 128 < level then Inl BufferOverflow
      else if level = 128 then Inl OutOfBounds
      else Inr (esc_start typeflag @ replicate level (CHR 0x09) @ fpath @ esc_end typeflag @ nl))"

fun nftw_walk :: "nat \<Rightarrow> ftw_tree \<Rightarrow> string cres" and nftw_list :: "nat \<Rightarrow> ftw_tree list \<Rightarrow> string cres" where
  "nftw_walk level (Entry p t es) = bind_c (walk_func p t level) (\<lambda>line.
     bind_c (nftw_list (Suc level) es) (\<lambda>out. Inr (line @ out)))"
| "nftw_list level [] = Inr []"
| "nftw_list level (e # es) = bind_c (nftw_walk level e) (\<lambda>out1. bind_c (nftw_list level es) (\<lambda>out2. Inr (out1 @ out2)))"

definition ex5_tree :: "string list \<Rightarrow> (string \<Rightarrow> ftw_tree option) \<Rightarrow> run" where
  "ex5_tree argv fs = (if length argv \<noteq> 2 then Inr (0, [])
     else case fs (argv ! 1) of None \<Rightarrow> Inr (1, []) | Some t \<Rightarrow> bind_c (nftw_walk 0 t) (\<lambda>out. Inr (0, out)))"

subsection \<open>Lemmas\<close>

lemma readlink_loop_result:
  assumes "0 < n" and "CHR 0x00 \<notin> set link"
  shows "readlink_loop link n = Inr link"
  using assms
proof (induction link n rule: readlink_loop.induct)
  case (1 link n)
  have pre: "takeWhile (\<lambda>c. c \<noteq> CHR 0x00) (link @ replicate k (CHR 0x00)) = link" for k
    using 1(3) by (subst takeWhile_append2) (auto simp: takeWhile_eq_Nil_iff)
  show ?case
  proof (cases "length link < n")
    case True
    then have "readlink_buf link n = link @ replicate (n - length link) (CHR 0x00)" by (simp add: readlink_buf_def)
    then show ?thesis using readlink_buf_last [OF True] 1(2) pre by (subst readlink_loop.simps) simp
  next
    case False
    then have "readlink_buf link n ! (n - 1) = link ! (n - 1)" using 1(2) by (simp add: readlink_buf_def)
    moreover have "link ! (n - 1) \<in> set link" using False 1(2) by (intro nth_mem) auto
    ultimately have "readlink_buf link n ! (n - 1) \<noteq> CHR 0x00" using 1(3) by metis
    then show ?thesis using 1 by (subst readlink_loop.simps) simp
  qed
qed

fun tree_lines :: "nat \<Rightarrow> ftw_tree \<Rightarrow> (nat \<times> string \<times> ftw_type) list" where
  "tree_lines level (Entry p t es) = (level, p, t) # concat (map (tree_lines (Suc level)) es)"

fun tree_depth :: "ftw_tree \<Rightarrow> nat" where
  "tree_depth (Entry p t es) = Suc (Max (insert 0 (tree_depth ` set es)))"

definition line_text :: "nat \<times> string \<times> ftw_type \<Rightarrow> string" where
  "line_text = (\<lambda>(level, p, t). esc_start t @ replicate level (CHR 0x09) @ p @ esc_end t @ nl)"

lemma tree_depth_child: "e \<in> set es \<Longrightarrow> tree_depth e < tree_depth (Entry p t es)"
  by (simp add: less_Suc_eq_le)

lemma tree_depth_le: "(\<forall>e \<in> set es. tree_depth e \<le> n) \<Longrightarrow> tree_depth (Entry p t es) \<le> Suc n"
  by simp

lemma nftw_walk_shallow:
  "level + tree_depth t \<le> 128 \<Longrightarrow> nftw_walk level t = Inr (concat (map line_text (tree_lines level t)))"
  "\<forall>t \<in> set ts. level + tree_depth t \<le> 128 \<Longrightarrow> nftw_list level ts = Inr (concat (map line_text (concat (map (tree_lines level) ts))))"
proof (induction level t and level ts rule: nftw_walk_nftw_list.induct)
  case (1 level p t es)
  have "level + tree_depth e < 128" if "e \<in> set es" for e
    using tree_depth_child [OF that, of p t] 1(2) by linarith
  then have "nftw_list (Suc level) es = Inr (concat (map line_text (concat (map (tree_lines (Suc level)) es))))" if "level < 128"
    using 1(1) that by (simp add: walk_func_def Suc_le_eq)
  moreover have "level < 128" using 1(2) by simp
  ultimately show ?case by (simp add: walk_func_def line_text_def)
qed simp_all

lemma nftw_walk_deep:
  "level \<le> 128 \<Longrightarrow> 128 < level + tree_depth t \<Longrightarrow> nftw_walk level t = Inl OutOfBounds"
  "level \<le> 128 \<Longrightarrow> \<exists>t \<in> set ts. 128 < level + tree_depth t \<Longrightarrow> nftw_list level ts = Inl OutOfBounds"
proof (induction level t and level ts rule: nftw_walk_nftw_list.induct)
  case (1 level p t es)
  show ?case
  proof (cases "level = 128")
    case True
    then show ?thesis by (simp add: walk_func_def)
  next
    case False
    then have lev: "level < 128" using 1(2) by simp
    have "\<exists>e \<in> set es. 128 < Suc level + tree_depth e"
    proof (rule ccontr)
      assume "\<not> ?thesis"
      then have "\<forall>e \<in> set es. tree_depth e \<le> 127 - level" using lev by (auto simp: not_less)
      from tree_depth_le [OF this, of p t] show False using 1(3) lev by linarith
    qed
    then show ?thesis using 1(1) lev by (simp add: walk_func_def)
  qed
next
  case (3 level e es)
  show ?case
  proof (cases "128 < level + tree_depth e")
    case True
    then show ?thesis using 3 by simp
  next
    case False
    then show ?thesis using 3 nftw_walk_shallow(1) [of level e] by auto
  qed
qed simp

subsection \<open>The main properties\<close>

text \<open>
  The loop of \<^verbatim>\<open>ex4_getcwd.c\<close> ends for a link of any length, with a buffer that holds the whole link, so the program prints the path of
  its file untruncated.
\<close>

theorem ex4_getcwd_whole_path:
  assumes "CHR 0x00 \<notin> set target"
  shows "ex4_getcwd arg0 (Some dir) (Some target) = Inr (0, paths_head arg0 @ cwd_line dir @ abs_line target)"
  using readlink_loop_result [of PATH_MAX target] assms by (simp add: ex4_getcwd_def PATH_MAX_def)

theorem ex4_getcwd_whole_path_witness:
  "ex4_getcwd ''./a.out'' (Some ''/tmp'') (Some (replicate 5000 (CHR ''x''))) =
    Inr (0, paths_head ''./a.out'' @ cwd_line ''/tmp'' @ abs_line (replicate 5000 (CHR ''x'')))"
  by (rule ex4_getcwd_whole_path) simp

text \<open>
  \<^verbatim>\<open>ex5_tree.c\<close> prints one line for each entry of a tree of at most 128 levels, a directory before its contents, indented by its level; one more
  level and the indentation no longer fits its array.
\<close>

theorem ex5_tree_output:
  assumes "fs dir = Some t"
  shows "ex5_tree [arg0, dir] fs = (if tree_depth t \<le> 128 then Inr (0, concat (map line_text (tree_lines 0 t))) else Inl OutOfBounds)"
  using assms nftw_walk_shallow(1) [of 0 t] nftw_walk_deep(1) [of 0 t] by (auto simp: ex5_tree_def)

theorem ex5_tree_output_witness:
  "ex5_tree [''tree'', ''d''] (\<lambda>_. Some (Entry ''d'' FTW_D [Entry ''d/f'' FTW_F []])) =
    Inr (0, (CHR 0x1B # ''[32md'') @ (CHR 0x1B # ''[0m'') @ nl @ (CHR 0x1B # ''[0m'') @ tab @ ''d/f'' @ (CHR 0x1B # ''[0m'') @ nl)"
  using ex5_tree_output [of "\<lambda>_. Some (Entry ''d'' FTW_D [Entry ''d/f'' FTW_F []])" "''d''" "Entry ''d'' FTW_D [Entry ''d/f'' FTW_F []]" "''tree''"]
  by (simp add: line_text_def esc_start_def esc_end_def tab_def)

text \<open>
  The lines that \<^verbatim>\<open>ex2_getline.c\<close> reads and numbers, put together, are the file again.
\<close>

fun lines_of :: "nat \<Rightarrow> string \<Rightarrow> string list" where
  "lines_of 0 f = []"
| "lines_of (Suc n) f = (case getline_c f of None \<Rightarrow> [] | Some (l, rest) \<Rightarrow> l # lines_of n rest)"

lemma getline_loop_lines:
  "getline_loop usable lineno f = map (\<lambda>(i, l). getline_out usable (lineno + i) l) (enumerate 0 (lines_of (length f) f)) \<and>
    concat (lines_of (length f) f) = f"
proof -
  have run: "getline_loop usable k f = map (\<lambda>(i, l). getline_out usable (k + i) l) (enumerate 0 (lines_of n f)) \<and> concat (lines_of n f) = f"
    if "length f \<le> n" for k n using that
  proof (induction n arbitrary: f k)
    case 0
    then show ?case by (subst getline_loop.simps) (simp add: getline_c_def)
  next
    case (Suc n)
    show ?case
    proof (cases "getline_c f")
      case None
      then have "f = []" by (simp add: getline_c_def Let_def split: if_splits)
      then show ?thesis by (subst getline_loop.simps) (simp add: getline_c_def)
    next
      case (Some p)
      obtain l rest where p: "p = (l, rest)" by (cases p)
      have f: "l @ rest = f" "l \<noteq> []" using getline_c_split [of f l rest] Some p by auto
      then have "length rest \<le> n" using Suc(2) by (cases l) auto
      note IH = Suc(1) [OF this, of "Suc k"]
      have "enumerate (Suc 0) xs = map (\<lambda>(i, l). (Suc i, l)) (enumerate 0 xs)" for xs :: "string list"
        by (simp add: enumerate_eq_zip zip_map1 [symmetric] map_Suc_upt flip: upt_Suc)
      then show ?thesis using Some p f(1) IH by (subst getline_loop.simps) (simp add: comp_def case_prod_beta)
    qed
  qed
  then show ?thesis by simp
qed

end
