(* ===== verification/Basic_Examples.thy ===== *)
theory Basic_Examples
  imports C_Prelude "HOL-Library.Multiset"
begin

section \<open>Small programs: sorting, a random-number library, a question\<close>

text \<open>
  \<^verbatim>\<open>week1/examples/01_c/qsort.c\<close> sorts an array of integers and one of strings with the C library's \<^verbatim>\<open>qsort\<close>; \<^verbatim>\<open>war.c\<close> asks for confirmation;
  \<^verbatim>\<open>mystdlib.c\<close> is a minimal C library; \<^verbatim>\<open>week3/02_libs/my_lib.c\<close> is a linear congruential generator, which \<^verbatim>\<open>02_dyn.c\<close> and \<^verbatim>\<open>03_dl.c\<close> call; \<^verbatim>\<open>week5/ex5.c\<close>
  waits for a yes or no.
\<close>

subsection \<open>qsort.c\<close>

text \<open>A comparison function; the subtraction of two \<^verbatim>\<open>int\<close> may overflow.\<close>

type_synonym 'a cmp = "'a \<Rightarrow> 'a \<Rightarrow> int cres"

definition int_range :: "int \<Rightarrow> int cres" where
  "int_range v = (if INT_MIN \<le> v \<and> v \<le> INT_MAX then Inr v else Inl SignedOverflow)"

definition cmp_arr_int :: "int cmp" where
  "cmp_arr_int a b = int_range (a - b)"

text \<open>\<^verbatim>\<open>strcmp\<close>: the difference of the first bytes that differ, as unsigned characters; the end of a string counts as 0.\<close>

fun strcmp_c :: "string \<Rightarrow> string \<Rightarrow> int" where
  "strcmp_c [] [] = 0"
| "strcmp_c [] (c # t) = - int (of_char c)"
| "strcmp_c (c # s) [] = int (of_char c)"
| "strcmp_c (c # s) (e # t) = (if c = e then strcmp_c s t else int (of_char c) - int (of_char e))"

definition cmp_arr_str :: "string cmp" where
  "cmp_arr_str a b = Inr (strcmp_c a b)"

definition print_arr_int :: "int \<Rightarrow> string" where
  "print_arr_int el = show_dec el @ '' ''"

definition print_arr_str :: "string \<Rightarrow> string" where
  "print_arr_str el = el @ '' ''"

definition print_array :: "'a list \<Rightarrow> ('a \<Rightarrow> string) \<Rightarrow> string" where
  "print_array base print_func = concat (map print_func base) @ nl"

definition arr_i :: "int list" where
  "arr_i = [10, 34, -7, 1, 9]"

definition arr_s :: "string list" where
  "arr_s = [''one'', ''two'', ''three'', ''four'', ''five'', ''six'']"

text \<open>The arguments are the C library's \<^verbatim>\<open>qsort\<close> at the two types of elements.\<close>

definition qsort_main :: "(int cmp \<Rightarrow> int list \<Rightarrow> int list cres) \<Rightarrow> (string cmp \<Rightarrow> string list \<Rightarrow> string list cres) \<Rightarrow> string cres" where
  "qsort_main qsort_int qsort_str =
     bind_c (qsort_int cmp_arr_int arr_i) (\<lambda>is.
     bind_c (qsort_str cmp_arr_str arr_s) (\<lambda>ss.
       Inr (print_array arr_i print_arr_int @ print_array is print_arr_int @ print_array arr_s print_arr_str @ print_array ss print_arr_str)))"

text \<open>
  What the C standard promises of \<^verbatim>\<open>qsort\<close>: when the comparison is defined on the elements and consistent with a total order on them, the array is
  permuted into ascending order.
\<close>

definition cmp_le :: "'a cmp \<Rightarrow> 'a \<Rightarrow> 'a \<Rightarrow> bool" where
  "cmp_le cmp a b \<longleftrightarrow> (case cmp a b of Inr v \<Rightarrow> v \<le> 0 | Inl e \<Rightarrow> False)"

definition cmp_ok :: "'a cmp \<Rightarrow> 'a list \<Rightarrow> bool" where
  "cmp_ok cmp xs \<longleftrightarrow> (\<forall>a \<in> set xs. \<forall>b \<in> set xs. \<not> isl (cmp a b) \<and> (cmp_le cmp a b \<or> cmp_le cmp b a) \<and>
     (\<forall>c \<in> set xs. cmp_le cmp a b \<longrightarrow> cmp_le cmp b c \<longrightarrow> cmp_le cmp a c))"

definition qsort_spec :: "('a cmp \<Rightarrow> 'a list \<Rightarrow> 'a list cres) \<Rightarrow> bool" where
  "qsort_spec qs \<longleftrightarrow> (\<forall>cmp xs. cmp_ok cmp xs \<longrightarrow> (\<exists>ys. qs cmp xs = Inr ys \<and> mset ys = mset xs \<and> sorted_wrt (cmp_le cmp) ys))"

subsection \<open>war.c\<close>

text \<open>What \<^verbatim>\<open>fgets\<close> with a buffer of 10 bytes takes from the input; \<open>[]\<close> stands for the end of the input too, as the buffer is zeroed.\<close>

definition fgets10 :: "string \<Rightarrow> string" where
  "fgets10 inp = (let l = takeWhile (\<lambda>c. c \<noteq> CHR 0x0A) inp
     in take 9 (if length l < length inp then l @ nl else l))"

definition confirm_total_war :: "string \<Rightarrow> bool" where
  "confirm_total_war inp = (let buf = takeWhile (\<lambda>c. c \<noteq> CHR 0x00) (fgets10 inp) in length buf \<noteq> 0 \<and> buf ! 0 = CHR ''y'')"

subsection \<open>mystdlib.c\<close>

text \<open>Memory from a pointer on: its bytes to the end of the object. \<open>None\<close> is the null pointer.\<close>

fun strlen_loop :: "string \<Rightarrow> int \<Rightarrow> int cres" where
  "strlen_loop [] n = Inl OutOfBounds"
| "strlen_loop (c # str) n = (if c = CHR 0x00 then Inr n else strlen_loop str (n + 1))"

definition my_strlen :: "string option \<Rightarrow> int cres" where
  "my_strlen str = (case str of None \<Rightarrow> Inr (-1) | Some s \<Rightarrow> strlen_loop s 0)"

definition my_write :: "(int \<Rightarrow> string \<Rightarrow> int \<Rightarrow> int) \<Rightarrow> int \<Rightarrow> string option \<Rightarrow> int \<Rightarrow> int" where
  "my_write sys_write fd buf cnt = (case buf of None \<Rightarrow> -1
     | Some b \<Rightarrow> if fd = -1 \<or> cnt \<le> 0 then -1 else sys_write fd b cnt)"

subsection \<open>my\_lib.c and its callers\<close>

text \<open>The globals: \<^verbatim>\<open>1 << 31\<close> in an \<^verbatim>\<open>int\<close> is the smallest value.\<close>

definition lcg_m :: int where "lcg_m = INT_MIN"
definition lcg_a :: int where "lcg_a = 1103515245"
definition lcg_c :: int where "lcg_c = 12345"

definition my_srand :: "int \<Rightarrow> int" where
  "my_srand s = s"

text \<open>The new seed, which is also the result. The remainder has the sign of the dividend.\<close>

definition rem_c :: "int \<Rightarrow> int \<Rightarrow> int" where
  "rem_c x y = sgn x * (\<bar>x\<bar> mod \<bar>y\<bar>)"

definition my_rand :: "int \<Rightarrow> int cres" where
  "my_rand seed = bind_c (int_range (lcg_a * seed)) (\<lambda>p. bind_c (int_range (p + lcg_c)) (\<lambda>q. Inr (rem_c q lcg_m)))"

definition show_u :: "int \<Rightarrow> string" where
  "show_u v = show_dec (if v < 0 then v + 2 ^ 32 else v)"

fun rand_loop :: "nat \<Rightarrow> int \<Rightarrow> string cres" where
  "rand_loop 0 seed = Inr []"
| "rand_loop (Suc n) seed = bind_c (my_rand seed) (\<lambda>r. bind_c (rand_loop n r) (\<lambda>out. Inr (show_u r @ nl @ out)))"

text \<open>\<^verbatim>\<open>time\<close> converted to \<^verbatim>\<open>int\<close> is the argument of \<^verbatim>\<open>dyn_main\<close>; \<^verbatim>\<open>03_dl.c\<close> loads the library first, and may not find it or its functions.\<close>

definition dyn_main :: "int \<Rightarrow> string cres" where
  "dyn_main t = rand_loop 5 (my_srand t)"

definition dl_main :: "bool \<Rightarrow> bool \<Rightarrow> bool \<Rightarrow> int \<Rightarrow> string outcome cres" where
  "dl_main lib srand_sym rand_sym t =
     (if \<not> lib \<or> \<not> srand_sym \<or> \<not> rand_sym then Inr (Exits 1)
      else bind_c (rand_loop 5 (my_srand t)) (\<lambda>out. Inr (Done out)))"

subsection \<open>ex5.c\<close>

definition ASK_BUF :: nat where "ASK_BUF = 1024"

definition lower :: "char \<Rightarrow> char" where
  "lower c = (if 65 \<le> (of_char c :: nat) \<and> of_char c \<le> (90::nat) then char_of ((of_char c :: nat) + 32) else c)"

definition strcasecmp_eq :: "string \<Rightarrow> string \<Rightarrow> bool" where
  "strcasecmp_eq a b \<longleftrightarrow> map lower a = map lower b"

text \<open>The string in the buffer after \<^verbatim>\<open>read\<close> has put \<open>inp\<close> into it; without a null byte in 1024 bytes the search for its end leaves the array.\<close>

definition buf_string :: "string \<Rightarrow> string cres" where
  "buf_string inp = (let buf = take ASK_BUF inp in
     if CHR 0x00 \<in> set buf \<or> length buf < ASK_BUF then Inr (takeWhile (\<lambda>c. c \<noteq> CHR 0x00) buf) else Inl OutOfBounds)"

datatype ask_event = SelectFails | TimedOut | ReadFails | Typed string

definition ask_reply :: "string \<Rightarrow> string" where
  "ask_reply answer =
     (if strcasecmp_eq answer ''yes'' then nl @ ''You agreed'' @ nl
      else if strcasecmp_eq answer ''no'' then nl @ ''You disagreed'' @ nl
      else nl @ ''Will treat '' @ [CHR 0x27] @ answer @ [CHR 0x27] @ '' as an agreement'' @ nl)"

definition ask_prompt :: string where
  "ask_prompt = ''Enter yes or no (default - yes): ''"

definition ask_main :: "ask_event \<Rightarrow> string outcome cres" where
  "ask_main ev = (case ev of
      SelectFails \<Rightarrow> Inr (Exits 1)
    | TimedOut \<Rightarrow> Inr (Done (ask_prompt @ nl @ nl @ ''No choice was made, but it'' @ [CHR 0x27] @ ''s '' @ [CHR 0x27] @ ''yes'' @ [CHR 0x27] @ '' by default'' @ nl))
    | ReadFails \<Rightarrow> Inr (Done (ask_prompt @ ask_reply []))
    | Typed inp \<Rightarrow> bind_c (buf_string inp) (\<lambda>s. Inr (Done (ask_prompt @ ask_reply (butlast s)))))"

subsection \<open>Lemmas\<close>

lemma sorted_unique:
  assumes "sorted_wrt R xs" and "sorted_wrt R ys" and "mset xs = mset ys" and "\<forall>a \<in> set xs. \<forall>b \<in> set xs. R a b \<longrightarrow> R b a \<longrightarrow> a = b"
  shows "xs = ys"
  using assms
proof (induction xs arbitrary: ys)
  case Nil
  then show ?case by simp
next
  case (Cons x xs)
  obtain y ys' where ys: "ys = y # ys'" using Cons(4) by (cases ys) auto
  have in1: "x \<in> set (y # ys')" and in2: "y \<in> set (x # xs)" using Cons(4) ys by (metis list.set_intros(1) set_mset_mset)+
  have "x = y"
  proof (rule ccontr)
    assume "x \<noteq> y"
    then have "R x y" "R y x" using in1 in2 Cons(2,3) ys by auto
    then show False using Cons(5) in2 \<open>x \<noteq> y\<close> by auto
  qed
  moreover have "xs = ys'" by (rule Cons(1)) (use Cons(2-5) ys \<open>x = y\<close> in auto)
  ultimately show ?case using ys by simp
qed

lemma qsort_spec_result:
  assumes "qsort_spec qs" and "cmp_ok cmp xs" and "sorted_wrt (cmp_le cmp) zs" and "mset zs = mset xs"
    and "\<forall>a \<in> set zs. \<forall>b \<in> set zs. cmp_le cmp a b \<longrightarrow> cmp_le cmp b a \<longrightarrow> a = b"
  shows "qs cmp xs = Inr zs"
proof -
  obtain ys where "qs cmp xs = Inr ys" "mset ys = mset xs" "sorted_wrt (cmp_le cmp) ys"
    using assms(1,2) unfolding qsort_spec_def by blast
  then show ?thesis using sorted_unique [OF assms(3) _ _ assms(5)] assms(4) by auto
qed

text \<open>A sorting function that keeps the promise: insertion.\<close>

fun insert_c :: "'a cmp \<Rightarrow> 'a \<Rightarrow> 'a list \<Rightarrow> 'a list" where
  "insert_c cmp x [] = [x]"
| "insert_c cmp x (y # ys) = (if cmp_le cmp x y then x # y # ys else y # insert_c cmp x ys)"

definition isort_c :: "'a cmp \<Rightarrow> 'a list \<Rightarrow> 'a list cres" where
  "isort_c cmp xs = Inr (foldr (insert_c cmp) xs [])"

lemma mset_insert_c: "mset (insert_c cmp x ys) = add_mset x (mset ys)"
  by (induction ys) auto

lemma mset_isort: "mset (foldr (insert_c cmp) xs []) = mset xs"
  by (induction xs) (simp_all add: mset_insert_c)

lemma sorted_insert_c:
  assumes "cmp_ok cmp zs" and "x \<in> set zs" and "set ys \<subseteq> set zs" and "sorted_wrt (cmp_le cmp) ys"
  shows "sorted_wrt (cmp_le cmp) (insert_c cmp x ys)"
  using assms(3,4)
proof (induction ys)
  case (Cons y ys)
  have set_ins: "set (insert_c cmp x ys) = insert x (set ys)" using mset_insert_c [of cmp x ys] by (metis set_mset_add_mset_insert set_mset_mset)
  show ?case
  proof (cases "cmp_le cmp x y")
    case True
    have "cmp_le cmp x z" if "z \<in> set ys" for z
      using assms(1,2) True that Cons(2,3) unfolding cmp_ok_def by (metis (no_types, lifting) list.set_intros subsetD sorted_wrt.simps(2))
    then show ?thesis using True Cons(3) by auto
  next
    case False
    then have "cmp_le cmp y x" using assms(1,2) Cons(2) unfolding cmp_ok_def by (metis list.set_intros(1) subsetD)
    then show ?thesis using False Cons set_ins by auto
  qed
qed simp

lemma isort_c_spec: "qsort_spec isort_c"
proof -
  have "sorted_wrt (cmp_le cmp) (foldr (insert_c cmp) xs [])" if "cmp_ok cmp zs" "set xs \<subseteq> set zs" for cmp :: "'a cmp" and xs zs
    using that(2)
  proof (induction xs)
    case (Cons x xs)
    have "set (foldr (insert_c cmp) xs []) = set xs" by (metis mset_isort set_mset_mset)
    then show ?case using sorted_insert_c [OF that(1), of x "foldr (insert_c cmp) xs []"] Cons by simp
  qed simp
  then show ?thesis unfolding qsort_spec_def isort_c_def using mset_isort by blast
qed

lemma cmp_arr_int_defined_iff: "cmp_arr_int a b = Inr (a - b) \<longleftrightarrow> INT_MIN \<le> a - b \<and> a - b \<le> INT_MAX"
  by (auto simp: cmp_arr_int_def int_range_def)

lemma my_rand_defined: "my_rand seed \<noteq> Inl SignedOverflow \<longleftrightarrow> \<bar>seed\<bar> \<le> 1"
proof -
  have "2 \<le> seed \<or> seed \<le> -2 \<or> seed = 0 \<or> seed = 1 \<or> seed = -1" by linarith
  then show ?thesis
    by (elim disjE) (simp_all add: my_rand_def int_range_def lcg_a_def lcg_c_def c_limits)
qed

subsection \<open>The main properties\<close>

text \<open>
  With a \<^verbatim>\<open>qsort\<close> that keeps the promise of the C standard, \<^verbatim>\<open>qsort.c\<close> prints its two arrays and then both in ascending order: its comparison functions are total
  orders on these arrays, and no subtraction overflows.
\<close>

theorem qsort_main_sorts:
  assumes "qsort_spec qsort_int" and "qsort_spec qsort_str"
  shows "qsort_main qsort_int qsort_str = Inr (''10 34 -7 1 9 '' @ nl @ ''-7 1 9 10 34 '' @ nl @ ''one two three four five six '' @ nl @ ''five four one six three two '' @ nl)"
proof -
  have "qsort_int cmp_arr_int arr_i = Inr [-7, 1, 9, 10, 34]"
    by (rule qsort_spec_result [OF assms(1)])
      (simp_all add: cmp_ok_def cmp_le_def cmp_arr_int_def int_range_def arr_i_def c_limits)
  moreover have "qsort_str cmp_arr_str arr_s = Inr [''five'', ''four'', ''one'', ''six'', ''three'', ''two'']"
    by (rule qsort_spec_result [OF assms(2)]) (simp_all add: cmp_ok_def cmp_le_def cmp_arr_str_def arr_s_def)
  moreover have "show_dec 10 = ''10''" "show_dec 34 = ''34''" "show_dec (-7) = ''-7''" "show_dec 1 = ''1''" "show_dec 9 = ''9''" by code_simp+
  ultimately show ?thesis
    by (simp add: qsort_main_def print_array_def print_arr_int_def print_arr_str_def arr_i_def arr_s_def)
qed

theorem qsort_main_sorts_witness:
  "qsort_main isort_c isort_c = Inr (''10 34 -7 1 9 '' @ nl @ ''-7 1 9 10 34 '' @ nl @ ''one two three four five six '' @ nl @ ''five four one six three two '' @ nl)"
  by (rule qsort_main_sorts) (rule isort_c_spec)+

text \<open>
  The generator of \<^verbatim>\<open>my_lib.c\<close> multiplies in \<^verbatim>\<open>int\<close>: \<^verbatim>\<open>my_rand\<close> is defined only for the seeds -1, 0 and 1, and programs that seed it with the
  time overflow in the first call.
\<close>

theorem my_rand_overflows: "(my_rand seed \<noteq> Inl SignedOverflow) = (\<bar>seed\<bar> \<le> 1) \<and> dyn_main (2 + int t) = Inl SignedOverflow"
proof -
  have "my_rand (2 + int t) = Inl SignedOverflow" using my_rand_defined [of "2 + int t"] by auto
  then have "dyn_main (2 + int t) = Inl SignedOverflow" by (simp add: dyn_main_def my_srand_def eval_nat_numeral)
  then show ?thesis using my_rand_defined by simp
qed

text \<open>
  \<^verbatim>\<open>ex5.c\<close> takes the last byte off whatever was typed: a line \<^verbatim>\<open>no\<close> is understood, the same answer that ends with the end of the file
  instead of a newline is taken for an agreement; 1024 bytes without a null byte are read past the end of the buffer.
\<close>

theorem ask_main_answers:
  assumes "CHR 0x00 \<notin> set a"
  shows "ask_main (Typed (a @ nl)) = (if length a + 1 < ASK_BUF then Inr (Done (ask_prompt @ ask_reply a)) else Inl OutOfBounds) \<and>
    ask_main (Typed ''no'') = Inr (Done (ask_prompt @ nl @ ''Will treat '' @ [CHR 0x27] @ ''n'' @ [CHR 0x27] @ '' as an agreement'' @ nl))"
proof -
  have all: "takeWhile (\<lambda>c. c \<noteq> CHR 0x00) (a @ nl) = a @ nl" using assms by (auto simp: takeWhile_eq_all_conv nl_def)
  have nul: "CHR 0x00 \<notin> set (take ASK_BUF (a @ nl))" using assms by (auto simp: nl_def dest: in_set_takeD)
  have "buf_string (a @ nl) = (if length a + 1 < ASK_BUF then Inr (a @ nl) else Inl OutOfBounds)"
  proof (cases "length a + 1 < ASK_BUF")
    case True
    then have "take ASK_BUF (a @ nl) = a @ nl" by (simp add: nl_def)
    then show ?thesis using True all by (simp add: buf_string_def Let_def nl_def)
  next
    case False
    then have "length (take ASK_BUF (a @ nl)) = ASK_BUF" unfolding length_take by (simp add: nl_def min_def)
    then show ?thesis using False nul by (simp add: buf_string_def Let_def del: length_take)
  qed
  then have "ask_main (Typed (a @ nl)) = (if length a + 1 < ASK_BUF then Inr (Done (ask_prompt @ ask_reply a)) else Inl OutOfBounds)"
    by (simp add: ask_main_def nl_def butlast_append)
  moreover have "ask_main (Typed ''no'') = Inr (Done (ask_prompt @ nl @ ''Will treat '' @ [CHR 0x27] @ ''n'' @ [CHR 0x27] @ '' as an agreement'' @ nl))"
    by (simp add: ask_main_def buf_string_def ASK_BUF_def ask_reply_def strcasecmp_eq_def lower_def)
  ultimately show ?thesis by blast
qed

theorem ask_main_answers_witness:
  "ask_main (Typed (''No'' @ nl)) = Inr (Done (ask_prompt @ nl @ ''You disagreed'' @ nl))"
proof -
  have "strcasecmp_eq ''No'' ''no''" "\<not> strcasecmp_eq ''No'' ''yes''" by code_simp+
  then show ?thesis using ask_main_answers [of "''No''"] by (simp add: ASK_BUF_def ask_reply_def)
qed

end
