(* ===== verification/Io_Library.thy ===== *)
theory Io_Library
  imports C_Prelude
begin

section \<open>Reading and writing in full (tlpi/lib, apue.3e/lib)\<close>

text \<open>
  The functions of the two textbooks' libraries that turn \<^verbatim>\<open>read\<close> and \<^verbatim>\<open>write\<close>, which may transfer less than asked for or be interrupted, into
  transfers of whole lines and blocks: \<^verbatim>\<open>readLine\<close>, \<^verbatim>\<open>readLineBuf\<close>, \<^verbatim>\<open>readn\<close> and \<^verbatim>\<open>writen\<close>; and \<^verbatim>\<open>getInt\<close> and \<^verbatim>\<open>getLong\<close>, which read numbers from the command
  line.

  A descriptor that is read is the bytes still to come and the events that decide each call; a call that finds no event waits for ever.
\<close>

subsection \<open>Descriptors\<close>

datatype io_event = Ready nat | Eintr | IoFail int

type_synonym source = "string \<times> io_event list"

datatype read_answer = Bytes string | ReadErr int | Blocked

definition EINTR :: int where "EINTR = 4"

text \<open>A call that is ready transfers at least one byte, unless it is at the end of the file, and at most as many as it was asked for.\<close>

fun read_c :: "nat \<Rightarrow> source \<Rightarrow> read_answer \<times> source" where
  "read_c n (inp, []) = (Blocked, (inp, []))"
| "read_c n (inp, Ready k # es) = (let m = min n (max 1 k) in (Bytes (take m inp), (drop m inp, es)))"
| "read_c n (inp, Eintr # es) = (ReadErr EINTR, (inp, es))"
| "read_c n (inp, IoFail e # es) = (ReadErr e, (inp, es))"

lemma read_c_events: "read_c n s = (a, s') \<Longrightarrow> a \<noteq> Blocked \<Longrightarrow> length (snd s') < length (snd s)"
  by (cases "(n, s)" rule: read_c.cases) (auto simp: Let_def)

datatype write_answer = Wrote nat | WriteErr int | WriteBlocked

fun write_c :: "string \<Rightarrow> source \<Rightarrow> write_answer \<times> source" where
  "write_c s (out, []) = (WriteBlocked, (out, []))"
| "write_c s (out, Ready k # es) = (let m = min (length s) (max 1 k) in (Wrote m, (out @ take m s, es)))"
| "write_c s (out, Eintr # es) = (WriteErr EINTR, (out, es))"
| "write_c s (out, IoFail e # es) = (WriteErr e, (out, es))"

lemma write_c_events: "write_c t s = (a, s') \<Longrightarrow> a \<noteq> WriteBlocked \<Longrightarrow> length (snd s') < length (snd s)"
  by (cases "(t, s)" rule: write_c.cases) (auto simp: Let_def)

subsection \<open>read\_line.c\<close>

text \<open>The result: the return value, the string left in the buffer (\<open>None\<close> when the function returns without terminating it), the descriptor.\<close>

type_synonym line_result = "(int \<times> string option \<times> source) outcome"

function readLine_loop :: "nat \<Rightarrow> string \<Rightarrow> source \<Rightarrow> line_result" where
  "readLine_loop n buf s = (case read_c 1 s of
      (Blocked, s1) \<Rightarrow> Diverges
    | (ReadErr e, s1) \<Rightarrow> if e = EINTR then readLine_loop n buf s1 else Done (-1, None, s1)
    | (Bytes b, s1) \<Rightarrow>
        if b = [] then Done (if buf = [] then (0, None, s1) else (int (length buf), Some buf, s1))
        else
          let buf1 = (if length buf < n - 1 then buf @ [hd b] else buf)
          in if hd b = CHR 0x0A then Done (int (length buf1), Some buf1, s1) else readLine_loop n buf1 s1)"
  by pat_completeness auto
termination
  by (relation "measure (\<lambda>(_, _, s). length (snd s))") (auto dest!: sym [of _ "read_c _ _"] read_c_events)

declare readLine_loop.simps [simp del]

definition readLine :: "nat \<Rightarrow> source \<Rightarrow> line_result" where
  "readLine n s = (if n = 0 then Done (-1, None, s) else readLine_loop n [] s)"

subsection \<open>read\_line\_buf.c\<close>

definition RL_MAX_BUF :: nat where "RL_MAX_BUF = 10"

record ReadLineBuf =
  rl_buf :: string
  rl_next :: nat
  rl_len :: int

definition readLineBufInit :: ReadLineBuf where
  "readLineBufInit = \<lparr>rl_buf = replicate RL_MAX_BUF (CHR 0x00), rl_next = 0, rl_len = 0\<rparr>"

text \<open>The refill at the head of the loop.\<close>

datatype fill = FillBlocked | FillErr ReadLineBuf source | FillEof ReadLineBuf source | Filled ReadLineBuf source

definition rl_fill :: "ReadLineBuf \<Rightarrow> source \<Rightarrow> fill" where
  "rl_fill rl s =
     (if rl_len rl \<le> int (rl_next rl) then
        (case read_c RL_MAX_BUF s of
           (Blocked, s1) \<Rightarrow> FillBlocked
         | (ReadErr e, s1) \<Rightarrow> FillErr (rl\<lparr>rl_len := -1\<rparr>) s1
         | (Bytes b, s1) \<Rightarrow>
             if b = [] then FillEof (rl\<lparr>rl_len := 0\<rparr>) s1
             else Filled (rl\<lparr>rl_len := int (length b), rl_buf := b @ drop (length b) (rl_buf rl), rl_next := 0\<rparr>) s1)
      else Filled rl s)"

text \<open>What is between \<^verbatim>\<open>next\<close> and \<^verbatim>\<open>len\<close>.\<close>

definition unread :: "ReadLineBuf \<Rightarrow> string" where
  "unread rl = drop (rl_next rl) (take (nat (rl_len rl)) (rl_buf rl))"

lemma rl_fill_measure:
  assumes "rl_fill rl s = Filled rl1 s1"
  shows "length (snd s1) < length (snd s) \<or> s1 = s \<and> rl1 = rl" and "int (rl_next rl1) < rl_len rl1"
proof -
  have "(length (snd s1) < length (snd s) \<or> s1 = s \<and> rl1 = rl) \<and> int (rl_next rl1) < rl_len rl1"
  proof (cases "rl_len rl \<le> int (rl_next rl)")
    case True
    obtain a s2 where r: "read_c RL_MAX_BUF s = (a, s2)" by (cases "read_c RL_MAX_BUF s")
    then show ?thesis using assms True read_c_events [OF r] by (cases a) (auto simp: rl_fill_def split: if_splits)
  qed (use assms in \<open>simp add: rl_fill_def\<close>)
  then show "length (snd s1) < length (snd s) \<or> s1 = s \<and> rl1 = rl" and "int (rl_next rl1) < rl_len rl1" by blast+
qed

type_synonym bufline_result = "(int \<times> string \<times> ReadLineBuf \<times> source) outcome cres"

function readLineBuf_loop :: "nat \<Rightarrow> string \<Rightarrow> ReadLineBuf \<Rightarrow> source \<Rightarrow> bufline_result" where
  "readLineBuf_loop n buffer rl s = (case rl_fill rl s of
      FillBlocked \<Rightarrow> Inr Diverges
    | FillErr rl1 s1 \<Rightarrow> Inr (Done (-1, buffer, rl1, s1))
    | FillEof rl1 s1 \<Rightarrow> Inr (Done (int (length buffer), buffer, rl1, s1))
    | Filled rl1 s1 \<Rightarrow>
        if length (rl_buf rl1) \<le> rl_next rl1 then Inl OutOfBounds
        else
          let c = rl_buf rl1 ! rl_next rl1;
              rl2 = rl1\<lparr>rl_next := rl_next rl1 + 1\<rparr>;
              buffer1 = (if length buffer < n then buffer @ [c] else buffer)
          in if c = CHR 0x0A then Inr (Done (int (length buffer1), buffer1, rl2, s1)) else readLineBuf_loop n buffer1 rl2 s1)"
  by pat_completeness auto
termination
proof (relation "inv_image (less_than <*lex*> less_than) (\<lambda>(n, buffer, rl, s). (length (snd s), nat (rl_len rl) - rl_next rl))",
    intro wf_inv_image wf_lex_prod wf_less_than, goal_cases)
  case (1 n buffer rl s rl1 s1 c rl2 buffer1)
  then show ?case using rl_fill_measure [of rl s rl1 s1] by auto
qed

declare readLineBuf_loop.simps [simp del]

definition readLineBuf :: "nat \<Rightarrow> ReadLineBuf \<Rightarrow> source \<Rightarrow> bufline_result" where
  "readLineBuf n rl s = (if n = 0 then Inr (Done (-1, [], rl, s)) else readLineBuf_loop n [] rl s)"

subsection \<open>rdwrn.c\<close>

function readn_loop :: "nat \<Rightarrow> string \<Rightarrow> source \<Rightarrow> (int \<times> string \<times> source) outcome" where
  "readn_loop n buf s =
     (if length buf < n then
        (case read_c (n - length buf) s of
           (Blocked, s1) \<Rightarrow> Diverges
         | (ReadErr e, s1) \<Rightarrow> if e = EINTR then readn_loop n buf s1 else Done (-1, buf, s1)
         | (Bytes b, s1) \<Rightarrow> if b = [] then Done (int (length buf), buf, s1) else readn_loop n (buf @ b) s1)
      else Done (int (length buf), buf, s))"
  by pat_completeness auto
termination
  by (relation "measure (\<lambda>(_, _, s). length (snd s))") (auto dest!: sym [of _ "read_c _ _"] read_c_events)

declare readn_loop.simps [simp del]

definition readn :: "nat \<Rightarrow> source \<Rightarrow> (int \<times> string \<times> source) outcome" where
  "readn n s = readn_loop n [] s"

function writen_loop :: "string \<Rightarrow> nat \<Rightarrow> source \<Rightarrow> (int \<times> source) outcome" where
  "writen_loop buffer totWritten s =
     (if totWritten < length buffer then
        (case write_c (drop totWritten buffer) s of
           (WriteBlocked, s1) \<Rightarrow> Diverges
         | (WriteErr e, s1) \<Rightarrow> if e = EINTR then writen_loop buffer totWritten s1 else Done (-1, s1)
         | (Wrote m, s1) \<Rightarrow> if m = 0 then Done (-1, s1) else writen_loop buffer (totWritten + m) s1)
      else Done (int totWritten, s))"
  by pat_completeness auto
termination
  by (relation "measure (\<lambda>(_, _, s). length (snd s))") (auto dest!: sym [of _ "write_c _ _"] write_c_events)

declare writen_loop.simps [simp del]

definition writen :: "string \<Rightarrow> source \<Rightarrow> (int \<times> source) outcome" where
  "writen buffer s = writen_loop buffer 0 s"

subsection \<open>The readn and writen of apue.3e\<close>

function apue_readn_loop :: "nat \<Rightarrow> string \<Rightarrow> source \<Rightarrow> (int \<times> string \<times> source) outcome" where
  "apue_readn_loop n buf s =
     (if length buf < n then
        (case read_c (n - length buf) s of
           (Blocked, s1) \<Rightarrow> Diverges
         | (ReadErr e, s1) \<Rightarrow> Done (if buf = [] then -1 else int (length buf), buf, s1)
         | (Bytes b, s1) \<Rightarrow> if b = [] then Done (int (length buf), buf, s1) else apue_readn_loop n (buf @ b) s1)
      else Done (int (length buf), buf, s))"
  by pat_completeness auto
termination
  by (relation "measure (\<lambda>(_, _, s). length (snd s))") (auto dest!: sym [of _ "read_c _ _"] read_c_events)

declare apue_readn_loop.simps [simp del]

definition apue_readn :: "nat \<Rightarrow> source \<Rightarrow> (int \<times> string \<times> source) outcome" where
  "apue_readn n s = apue_readn_loop n [] s"

function apue_writen_loop :: "string \<Rightarrow> nat \<Rightarrow> source \<Rightarrow> (int \<times> source) outcome" where
  "apue_writen_loop ptr written s =
     (if written < length ptr then
        (case write_c (drop written ptr) s of
           (WriteBlocked, s1) \<Rightarrow> Diverges
         | (WriteErr e, s1) \<Rightarrow> Done (if written = 0 then -1 else int written, s1)
         | (Wrote m, s1) \<Rightarrow> if m = 0 then Done (int written, s1) else apue_writen_loop ptr (written + m) s1)
      else Done (int written, s))"
  by pat_completeness auto
termination
  by (relation "measure (\<lambda>(_, _, s). length (snd s))") (auto dest!: sym [of _ "write_c _ _"] write_c_events)

declare apue_writen_loop.simps [simp del]

definition apue_writen :: "string \<Rightarrow> source \<Rightarrow> (int \<times> source) outcome" where
  "apue_writen ptr s = apue_writen_loop ptr 0 s"

subsection \<open>get\_num.c\<close>

text \<open>The flags, and the outcome of \<^verbatim>\<open>gnFail\<close>, which ends the program.\<close>

definition GN_NONNEG :: nat where "GN_NONNEG = 1"
definition GN_GT_0 :: nat where "GN_GT_0 = 2"
definition GN_ANY_BASE :: nat where "GN_ANY_BASE = 64"
definition GN_BASE_8 :: nat where "GN_BASE_8 = 128"
definition GN_BASE_16 :: nat where "GN_BASE_16 = 256"

definition flag_set :: "nat \<Rightarrow> nat \<Rightarrow> bool" where
  "flag_set flags f \<longleftrightarrow> flags div f mod 2 = 1"

definition gnFail :: "'a outcome" where "gnFail = Exits EXIT_FAILURE"

definition gn_base :: "nat \<Rightarrow> nat" where
  "gn_base flags = (if flag_set flags GN_ANY_BASE then 0 else if flag_set flags GN_BASE_8 then 8 else if flag_set flags GN_BASE_16 then 16 else 10)"

definition getNum :: "string option \<Rightarrow> nat \<Rightarrow> int outcome" where
  "getNum arg flags = (case arg of None \<Rightarrow> gnFail
     | Some s \<Rightarrow>
         if s = [] then gnFail
         else case strtoll_c (gn_base flags) s of (res, endptr, erange) \<Rightarrow>
           if erange then gnFail
           else if endptr \<noteq> [] then gnFail
           else if flag_set flags GN_NONNEG \<and> res < 0 then gnFail
           else if flag_set flags GN_GT_0 \<and> res \<le> 0 then gnFail
           else Done res)"

definition getLong :: "string option \<Rightarrow> nat \<Rightarrow> int outcome" where
  "getLong arg flags = getNum arg flags"

definition getInt :: "string option \<Rightarrow> nat \<Rightarrow> int outcome" where
  "getInt arg flags = (case getNum arg flags of Done res \<Rightarrow> if INT_MAX < res \<or> res < INT_MIN then gnFail else Done res | r \<Rightarrow> r)"

subsection \<open>Schedules\<close>

fun is_ready :: "io_event \<Rightarrow> bool" where
  "is_ready (Ready k) = True"
| "is_ready _ = False"

definition readies :: "io_event list \<Rightarrow> nat" where
  "readies es = length (filter is_ready es)"

lemma readies_simps [simp]:
  "readies [] = 0" "readies (Ready k # es) = Suc (readies es)" "readies (Eintr # es) = readies es" "readies (IoFail e # es) = readies es"
  by (simp_all add: readies_def)

text \<open>No call fails, apart from interruptions.\<close>

fun no_fail :: "io_event list \<Rightarrow> bool" where
  "no_fail [] = True"
| "no_fail (e # es) = ((case e of IoFail x \<Rightarrow> False | _ \<Rightarrow> True) \<and> no_fail es)"

subsection \<open>Lines\<close>

fun first_line :: "string \<Rightarrow> string" where
  "first_line [] = []"
| "first_line (c # s) = c # (if c = CHR 0x0A then [] else first_line s)"

lemma first_line_prefix: "take (length (first_line s)) s = first_line s"
  by (induction s) auto

lemma first_line_empty [simp]: "first_line s = [] \<longleftrightarrow> s = []"
  by (cases s) auto

function split_lines :: "string \<Rightarrow> string list" where
  "split_lines s = (if s = [] then [] else first_line s # split_lines (drop (length (first_line s)) s))"
  by pat_completeness auto
termination
proof (relation "measure length", simp, goal_cases)
  case (1 s)
  then show ?case by (cases s) auto
qed

declare split_lines.simps [simp del]

lemma concat_split_lines: "concat (split_lines s) = s"
proof (induction s rule: split_lines.induct)
  case (1 s)
  then show ?case
    using first_line_prefix [of s] append_take_drop_id [of "length (first_line s)" s] by (subst split_lines.simps) auto
qed

text \<open>
  A function that delivers the input line by line, at most \<open>width\<close> bytes of each: what it promises of the bytes still to come
  (\<open>stream\<close>), as long as the descriptor has as many answers left (\<open>budget\<close>) as there are bytes in the line and one more.
\<close>

locale line_reader =
  fixes ok :: "'s \<Rightarrow> bool" and stream :: "'s \<Rightarrow> string" and budget :: "'s \<Rightarrow> nat" and get :: "'s \<Rightarrow> (string \<times> 's) option" and width :: nat
  assumes get_law: "ok s \<Longrightarrow> length (first_line (stream s)) < budget s \<Longrightarrow>
    \<exists>s'. get s = Some (take width (first_line (stream s)), s') \<and> ok s' \<and> stream s' = drop (length (first_line (stream s))) (stream s) \<and>
      budget s \<le> budget s' + Suc (length (first_line (stream s)))"
    and width_pos: "0 < width"

fun read_all :: "('s \<Rightarrow> (string \<times> 's) option) \<Rightarrow> nat \<Rightarrow> 's \<Rightarrow> string list" where
  "read_all get 0 s = []"
| "read_all get (Suc n) s = (case get s of None \<Rightarrow> [] | Some (l, s') \<Rightarrow> if l = [] then [] else l # read_all get n s')"

context line_reader
begin

lemma read_all_lines:
  assumes "ok s" and "2 * length (stream s) < budget s" and "length (stream s) < fuel"
  shows "read_all get fuel s = map (take width) (split_lines (stream s))"
  using assms
proof (induction fuel arbitrary: s)
  case (Suc n)
  let ?l = "first_line (stream s)"
  have le: "length ?l \<le> length (stream s)" using first_line_prefix [of "stream s"] by (metis length_take min.cobounded1)
  obtain s' where s': "get s = Some (take width ?l, s')" "ok s'" "stream s' = drop (length ?l) (stream s)" "budget s \<le> budget s' + Suc (length ?l)"
    using get_law [OF Suc(2)] Suc(3) le by auto
  show ?case
  proof (cases "stream s = []")
    case True
    then show ?thesis using s'(1) by (simp add: split_lines.simps)
  next
    case False
    then have pos: "0 < length ?l" by simp
    then have "take width ?l \<noteq> []" using width_pos by auto
    moreover have "read_all get n s' = map (take width) (split_lines (stream s'))"
    proof (rule Suc(1))
      show "2 * length (stream s') < budget s'" "length (stream s') < n"
        unfolding s'(3) length_drop using s'(4) Suc(3,4) le pos by linarith+
    qed (rule s'(2))
    ultimately show ?thesis using False s'(1,3) by (subst split_lines.simps) simp
  qed
qed simp

end

subsection \<open>readLine delivers lines\<close>

definition line_text_of :: "line_result \<Rightarrow> (string \<times> source) option" where
  "line_text_of r = (case r of Done (v, b, s) \<Rightarrow> if v < 0 then None else Some (case b of None \<Rightarrow> [] | Some x \<Rightarrow> x, s) | _ \<Rightarrow> None)"

lemma readLine_loop_line:
  assumes "no_fail (snd s)" and "length (first_line (fst s)) < readies (snd s)" and "length buf \<le> n - 1"
  shows "\<exists>v b s'. readLine_loop n buf s = Done (v, b, s') \<and> 0 \<le> v \<and> v = int (length (buf @ take (n - 1 - length buf) (first_line (fst s)))) \<and>
    (case b of None \<Rightarrow> [] | Some x \<Rightarrow> x) = buf @ take (n - 1 - length buf) (first_line (fst s)) \<and> no_fail (snd s') \<and>
    fst s' = drop (length (first_line (fst s))) (fst s) \<and> readies (snd s) \<le> readies (snd s') + Suc (length (first_line (fst s)))"
  using assms
proof (induction n buf s rule: readLine_loop.induct)
  case (1 n buf s)
  obtain inp es where s: "s = (inp, es)" by (cases s)
  show ?case
  proof (cases es)
    case Nil
    then show ?thesis using 1(4) s by simp
  next
    case (Cons e es')
    show ?thesis
    proof (cases e)
      case (Ready k)
      show ?thesis
      proof (cases inp)
        case Nil
        then show ?thesis using 1(3) s Cons Ready by (subst readLine_loop.simps) simp
      next
        case (Cons c inp')
        let ?buf = "if length buf < n - 1 then buf @ [c] else buf"
        have read: "read_c 1 s = (Bytes [c], (inp', es'))" using s \<open>es = e # es'\<close> Ready Cons by simp
        have step: "readLine_loop n buf s = (if c = CHR 0x0A then Done (int (length ?buf), Some ?buf, (inp', es')) else readLine_loop n ?buf (inp', es'))"
          by (subst readLine_loop.simps) (simp add: read Let_def del: One_nat_def)
        have cut: "buf @ take (n - 1 - length buf) (c # t) = ?buf @ take (n - 1 - length ?buf) t" for t
          using 1(5) by (auto simp: take_Cons' )
        show ?thesis
        proof (cases "c = CHR 0x0A")
          case True
          then show ?thesis
            unfolding step using 1(3-5) s \<open>es = e # es'\<close> Ready Cons cut [of "[]"] by auto
        next
          case False
          have "no_fail (snd (inp', es'))" "length (first_line (fst (inp', es'))) < readies (snd (inp', es'))" "length ?buf \<le> n - 1"
            using 1(3-5) s \<open>es = e # es'\<close> Ready Cons False by auto
          from 1(1) [OF read [symmetric] refl list.distinct(2) refl, unfolded list.sel(1), OF False this] obtain v b s' where
            r: "readLine_loop n ?buf (inp', es') = Done (v, b, s')" "0 \<le> v" "v = int (length (?buf @ take (n - 1 - length ?buf) (first_line inp')))"
              "(case b of None \<Rightarrow> [] | Some x \<Rightarrow> x) = ?buf @ take (n - 1 - length ?buf) (first_line inp')" "no_fail (snd s')"
              "fst s' = drop (length (first_line inp')) inp'" "readies es' \<le> readies (snd s') + Suc (length (first_line inp'))"
            unfolding fst_conv snd_conv by blast
          have line: "first_line (fst s) = c # first_line inp'" using s Cons False by simp
          show ?thesis
            unfolding step if_not_P [OF False] line cut
            by (intro exI [of _ v] exI [of _ b] exI [of _ s']) (use r s \<open>es = e # es'\<close> Ready Cons in auto)
        qed
      qed
    next
      case Eintr
      have read: "read_c 1 s = (ReadErr EINTR, (inp, es'))" using s Cons Eintr by simp
      have step: "readLine_loop n buf s = readLine_loop n buf (inp, es')" by (subst readLine_loop.simps) (simp add: read del: One_nat_def)
      show ?thesis
        unfolding step using 1(2) [OF read [symmetric] refl refl] 1(3-5) s Cons Eintr by auto
    next
      case (IoFail x)
      then show ?thesis using 1(3) s Cons by simp
    qed
  qed
qed

interpretation unbuffered: line_reader "\<lambda>s. no_fail (snd s)" fst "\<lambda>s. readies (snd s)" "\<lambda>s. line_text_of (readLine (Suc (Suc n)) s)" "Suc n" for n
proof
  show "\<exists>s'. line_text_of (readLine (Suc (Suc n)) s) = Some (take (Suc n) (first_line (fst s)), s') \<and> no_fail (snd s') \<and>
      fst s' = drop (length (first_line (fst s))) (fst s) \<and> readies (snd s) \<le> readies (snd s') + Suc (length (first_line (fst s)))"
    if "no_fail (snd s)" "length (first_line (fst s)) < readies (snd s)" for s
    using readLine_loop_line [OF that, of "[]" "Suc (Suc n)"] by (auto simp: readLine_def line_text_of_def split: option.splits)
qed simp

subsection \<open>readLineBuf delivers the same lines\<close>

definition rl_ok :: "ReadLineBuf \<Rightarrow> bool" where
  "rl_ok rl \<longleftrightarrow> length (rl_buf rl) = RL_MAX_BUF \<and> rl_len rl \<le> int RL_MAX_BUF"

text \<open>An interrupted call is an error for \<^verbatim>\<open>readLineBuf\<close>, so its descriptor must not be interrupted.\<close>

definition all_ready :: "io_event list \<Rightarrow> bool" where
  "all_ready es \<longleftrightarrow> list_all is_ready es"

lemma all_ready_Cons: "all_ready (e # es) \<Longrightarrow> \<exists>k. e = Ready k \<and> all_ready es"
  by (cases e) (auto simp: all_ready_def)

lemma unread_empty: "rl_len rl \<le> int (rl_next rl) \<Longrightarrow> unread rl = []"
  by (simp add: unread_def nat_le_iff)

lemma rl_fill_eof:
  assumes "unread rl @ inp = []" and "es = Ready k # es'" and "rl_ok rl"
  shows "rl_fill rl (inp, es) = FillEof (rl\<lparr>rl_len := 0\<rparr>) ([], es')"
proof -
  have "rl_len rl \<le> int (rl_next rl)"
    using assms(1,3) by (auto simp: unread_def rl_ok_def nat_le_iff)
  then show ?thesis using assms(1,2) by (simp add: rl_fill_def)
qed

lemma rl_fill_char:
  assumes "unread rl @ inp = c # xs" and "es = Ready k # es'" and "rl_ok rl"
  shows "\<exists>rl1 inp1 es1. rl_fill rl (inp, es) = Filled rl1 (inp1, es1) \<and> rl_next rl1 < length (rl_buf rl1) \<and> rl_buf rl1 ! rl_next rl1 = c \<and>
    unread (rl1\<lparr>rl_next := rl_next rl1 + 1\<rparr>) @ inp1 = xs \<and> rl_ok (rl1\<lparr>rl_next := rl_next rl1 + 1\<rparr>) \<and> (es1 = es \<or> es1 = es')"
proof (cases "rl_len rl \<le> int (rl_next rl)")
  case True
  define m where "m = min RL_MAX_BUF (max 1 k)"
  have m: "0 < m" "m \<le> RL_MAX_BUF" by (simp_all add: m_def RL_MAX_BUF_def)
  have inp: "inp = c # xs" using assms(1) unread_empty [OF True] by simp
  define b where "b = take m inp"
  have b: "b = c # take (m - 1) xs" "b \<noteq> []" "length b \<le> RL_MAX_BUF" using inp m by (auto simp: b_def take_Cons')
  let ?rl = "rl\<lparr>rl_len := int (length b), rl_buf := b @ drop (length b) (rl_buf rl), rl_next := 0\<rparr>"
  have read: "read_c RL_MAX_BUF (inp, es) = (Bytes b, (drop m inp, es'))" by (simp add: assms(2) b_def m_def Let_def)
  have "rl_fill rl (inp, es) = Filled ?rl (drop m inp, es')" using True b(2) by (simp add: rl_fill_def read)
  moreover have "unread (?rl\<lparr>rl_next := rl_next ?rl + 1\<rparr>) = drop 1 b" by (simp add: unread_def)
  then have "unread (?rl\<lparr>rl_next := rl_next ?rl + 1\<rparr>) @ drop m inp = xs" using m(1) b(1) inp by (simp add: drop_Cons')
  moreover have "rl_ok (?rl\<lparr>rl_next := rl_next ?rl + 1\<rparr>)" using assms(3) b(3) by (simp add: rl_ok_def)
  ultimately show ?thesis using b(1,2) by (intro exI [of _ ?rl] exI [of _ "drop m inp"] exI [of _ es']) simp
next
  case False
  let ?t = "take (nat (rl_len rl)) (rl_buf rl)"
  have len: "rl_next rl < length ?t" using False assms(3) by (simp add: rl_ok_def)
  have "unread rl = ?t ! rl_next rl # drop (Suc (rl_next rl)) ?t" unfolding unread_def by (rule Cons_nth_drop_Suc [OF len, symmetric])
  then have "?t ! rl_next rl = c" "drop (Suc (rl_next rl)) ?t @ inp = xs" using assms(1) by simp_all
  then have "rl_buf rl ! rl_next rl = c" "unread (rl\<lparr>rl_next := rl_next rl + 1\<rparr>) @ inp = xs" using len by (simp_all add: unread_def)
  moreover have "rl_fill rl (inp, es) = Filled rl (inp, es)" using False by (simp add: rl_fill_def)
  ultimately show ?thesis using len assms(3) by (intro exI [of _ rl] exI [of _ inp] exI [of _ es]) (simp add: rl_ok_def)
qed

lemma readLineBuf_loop_line:
  assumes "unread rl @ inp = xs" and "rl_ok rl" and "all_ready es" and "length (first_line xs) < length es" and "length buffer \<le> n"
  shows "\<exists>rl' inp' es'. readLineBuf_loop n buffer rl (inp, es) =
      Inr (Done (int (length (buffer @ take (n - length buffer) (first_line xs))), buffer @ take (n - length buffer) (first_line xs), rl', (inp', es'))) \<and>
    rl_ok rl' \<and> all_ready es' \<and> unread rl' @ inp' = drop (length (first_line xs)) xs \<and> length es \<le> length es' + Suc (length (first_line xs))"
  using assms
proof (induction xs arbitrary: rl inp es buffer)
  case Nil
  then obtain k es' where es: "es = Ready k # es'" "all_ready es'" using all_ready_Cons by (cases es) auto
  have "readLineBuf_loop n buffer rl (inp, es) = Inr (Done (int (length buffer), buffer, rl\<lparr>rl_len := 0\<rparr>, ([], es')))"
    by (subst readLineBuf_loop.simps) (simp add: rl_fill_eof [OF Nil(1) es(1) Nil(2)])
  then show ?case using Nil(2) es by (auto simp: rl_ok_def unread_def)
next
  case (Cons c xs)
  obtain k es' where es: "es = Ready k # es'" "all_ready es'" using Cons(4,5) all_ready_Cons by (cases es) auto
  obtain rl1 inp1 es1 where f: "rl_fill rl (inp, es) = Filled rl1 (inp1, es1)" "rl_next rl1 < length (rl_buf rl1)" "rl_buf rl1 ! rl_next rl1 = c"
    "unread (rl1\<lparr>rl_next := rl_next rl1 + 1\<rparr>) @ inp1 = xs" "rl_ok (rl1\<lparr>rl_next := rl_next rl1 + 1\<rparr>)" "es1 = es \<or> es1 = es'"
    using rl_fill_char [OF Cons(2) es(1) Cons(3)] by blast
  have es1: "all_ready es1" "length es \<le> Suc (length es1)" using f(6) Cons(4) es by auto
  let ?rl = "rl1\<lparr>rl_next := rl_next rl1 + 1\<rparr>"
  define buf1 where "buf1 = (if length buffer < n then buffer @ [c] else buffer)"
  have step: "readLineBuf_loop n buffer rl (inp, es) = (if c = CHR 0x0A then Inr (Done (int (length buf1), buf1, ?rl, (inp1, es1)))
      else readLineBuf_loop n buf1 ?rl (inp1, es1))"
    using f(2) by (subst readLineBuf_loop.simps) (simp add: f(1,3) buf1_def Let_def)
  have cut: "buffer @ take (n - length buffer) (c # t) = buf1 @ take (n - length buf1) t" for t
    using Cons(6) by (auto simp: buf1_def take_Cons')
  show ?case
  proof (cases "c = CHR 0x0A")
    case True
    then show ?thesis
      using f(4,5) es1 cut [of "[]"] by (intro exI [of _ ?rl] exI [of _ inp1] exI [of _ es1]) (simp add: step)
  next
    case False
    have line: "first_line (c # xs) = c # first_line xs" using False by simp
    have len: "length (first_line xs) < length es1" "length buf1 \<le> n" using Cons(5,6) line es1(2) by (auto simp: buf1_def)
    from Cons(1) [OF f(4,5) es1(1) len] obtain rl' inp' es2 where r:
      "readLineBuf_loop n buf1 ?rl (inp1, es1) = Inr (Done (int (length (buf1 @ take (n - length buf1) (first_line xs))),
        buf1 @ take (n - length buf1) (first_line xs), rl', (inp', es2)))" "rl_ok rl'" "all_ready es2"
      "unread rl' @ inp' = drop (length (first_line xs)) xs" "length es1 \<le> length es2 + Suc (length (first_line xs))" by blast
    show ?thesis
      unfolding line cut step if_not_P [OF False] r(1) using r(2-5) es1(2) by (intro exI [of _ rl'] exI [of _ inp'] exI [of _ es2]) simp
  qed
qed

definition bufline_text_of :: "bufline_result \<Rightarrow> (string \<times> ReadLineBuf \<times> source) option" where
  "bufline_text_of r = (case r of Inr (Done (v, b, rl, s)) \<Rightarrow> if v < 0 then None else Some (b, rl, s) | _ \<Rightarrow> None)"

interpretation buffered: line_reader "\<lambda>(rl, s). rl_ok rl \<and> all_ready (snd s)" "\<lambda>(rl, s). unread rl @ fst s" "\<lambda>(rl, s). length (snd s)"
  "\<lambda>(rl, s). bufline_text_of (readLineBuf (Suc n) rl s)" "Suc n" for n
proof
  fix s :: "ReadLineBuf \<times> source"
  assume a: "case s of (rl, s) \<Rightarrow> rl_ok rl \<and> all_ready (snd s)"
    "length (first_line (case s of (rl, s) \<Rightarrow> unread rl @ fst s)) < (case s of (rl, s) \<Rightarrow> length (snd s))"
  obtain rl inp es where s: "s = (rl, inp, es)" by (cases s) auto
  from readLineBuf_loop_line [OF refl, of rl es inp "[]" "Suc n"] a show "\<exists>s'. (case s of (rl, s) \<Rightarrow> bufline_text_of (readLineBuf (Suc n) rl s)) =
      Some (take (Suc n) (first_line (case s of (rl, s) \<Rightarrow> unread rl @ fst s)), s') \<and> (case s' of (rl, s) \<Rightarrow> rl_ok rl \<and> all_ready (snd s)) \<and>
      (case s' of (rl, s) \<Rightarrow> unread rl @ fst s) = drop (length (first_line (case s of (rl, s) \<Rightarrow> unread rl @ fst s))) (case s of (rl, s) \<Rightarrow> unread rl @ fst s) \<and>
      (case s of (rl, s) \<Rightarrow> length (snd s)) \<le> (case s' of (rl, s) \<Rightarrow> length (snd s)) + Suc (length (first_line (case s of (rl, s) \<Rightarrow> unread rl @ fst s)))"
    by (auto simp: s readLineBuf_def bufline_text_of_def)
qed simp

subsection \<open>Whole blocks\<close>

lemma readn_loop_block:
  assumes "no_fail (snd s)" and "min (n - length buf) (Suc (length (fst s))) \<le> readies (snd s)" and "length buf \<le> n"
  shows "\<exists>es'. readn_loop n buf s = Done (int (length (buf @ take (n - length buf) (fst s))), buf @ take (n - length buf) (fst s),
    (drop (n - length buf) (fst s), es')) \<and> no_fail es'"
  using assms
proof (induction n buf s rule: readn_loop.induct)
  case (1 n buf s)
  obtain inp es where s: "s = (inp, es)" by (cases s)
  show ?case
  proof (cases "length buf < n")
    case False
    then show ?thesis using 1(3,5) s by (subst readn_loop.simps) simp
  next
    case True
    then obtain e es' where es: "es = e # es'" using 1(4) s by (cases es) auto
    show ?thesis
    proof (cases e)
      case (Ready k)
      define m where "m = min (n - length buf) (max 1 k)"
      have m: "0 < m" "m \<le> n - length buf" using True by (simp_all add: m_def)
      have read: "read_c (n - length buf) s = (Bytes (take m inp), (drop m inp, es'))" using s es Ready by (simp add: m_def Let_def)
      show ?thesis
      proof (cases "inp = []")
        case True
        then show ?thesis using 1(3) read s es Ready \<open>length buf < n\<close> by (subst readn_loop.simps) simp
      next
        case False
        have ne: "take m inp \<noteq> []" using False m(1) by simp
        have step: "readn_loop n buf s = readn_loop n (buf @ take m inp) (drop m inp, es')"
          using True ne by (subst readn_loop.simps) (simp add: read)
        have len: "length (take m inp) = min m (length inp)" by simp
        have "no_fail (snd (drop m inp, es'))" using 1(3) s es by simp
        moreover have "min (n - length (buf @ take m inp)) (Suc (length (fst (drop m inp, es')))) \<le> readies (snd (drop m inp, es'))"
        proof -
          have enough: "min (n - length buf) (Suc (length inp)) \<le> Suc (readies es')" using 1(4) s es Ready by simp
          have "1 \<le> length inp" using False by (simp add: Suc_le_eq)
          then have "min (n - length buf - min (length inp) m) (Suc (length inp - m)) \<le> readies es'"
            using enough m by linarith
          then show ?thesis by simp
        qed
        moreover have "length (buf @ take m inp) \<le> n" using m(2) 1(5) by auto
        ultimately obtain es2 where r: "readn_loop n (buf @ take m inp) (drop m inp, es') =
            Done (int (length ((buf @ take m inp) @ take (n - length (buf @ take m inp)) (drop m inp))),
              (buf @ take m inp) @ take (n - length (buf @ take m inp)) (drop m inp), (drop (n - length (buf @ take m inp)) (drop m inp), es2))" "no_fail es2"
          using 1(1) [OF \<open>length buf < n\<close> read [symmetric] refl ne] unfolding fst_conv snd_conv by blast
        have all: "take m inp @ take (n - length (buf @ take m inp)) (drop m inp) = take (n - length buf) inp \<and>
          drop (n - length (buf @ take m inp)) (drop m inp) = drop (n - length buf) inp"
        proof (cases "m \<le> length inp")
          case True
          have "m + (n - (length buf + m)) = n - length buf" using m(2) \<open>length buf < n\<close> by linarith
          then show ?thesis using take_add [of m "n - (length buf + m)" inp] True by (simp add: drop_drop add.commute)
        qed (use m(2) in simp)
        show ?thesis unfolding step r(1) using r(2) all s by (auto simp: append_assoc)
      qed
    next
      case Eintr
      have read: "read_c (n - length buf) s = (ReadErr EINTR, (inp, es'))" using s es Eintr by simp
      have step: "readn_loop n buf s = readn_loop n buf (inp, es')" using True by (subst readn_loop.simps) (simp add: read)
      show ?thesis unfolding step using 1(2) [OF True read [symmetric] refl refl] 1(3-5) s es Eintr by auto
    next
      case (IoFail x)
      then show ?thesis using 1(3) s es by simp
    qed
  qed
qed

lemma writen_loop_block:
  assumes "no_fail (snd s)" and "length buffer - tot \<le> readies (snd s)" and "tot \<le> length buffer"
  shows "\<exists>es'. writen_loop buffer tot s = Done (int (length buffer), (fst s @ drop tot buffer, es'))"
  using assms
proof (induction buffer tot s rule: writen_loop.induct)
  case (1 buffer tot s)
  obtain out es where s: "s = (out, es)" by (cases s)
  show ?case
  proof (cases "tot < length buffer")
    case False
    then show ?thesis using 1(5) s by (subst writen_loop.simps) simp
  next
    case True
    then obtain e es' where es: "es = e # es'" using 1(4) s by (cases es) auto
    show ?thesis
    proof (cases e)
      case (Ready k)
      define m where "m = min (length buffer - tot) (max 1 k)"
      have m: "0 < m" "m \<le> length buffer - tot" using True by (simp_all add: m_def)
      have wr: "write_c (drop tot buffer) s = (Wrote m, (out @ take m (drop tot buffer), es'))" using s es Ready by (simp add: m_def Let_def)
      have step: "writen_loop buffer tot s = writen_loop buffer (tot + m) (out @ take m (drop tot buffer), es')"
        using True m(1) by (subst writen_loop.simps) (simp add: wr)
      have "no_fail (snd (out @ take m (drop tot buffer), es'))" "length buffer - (tot + m) \<le> readies (snd (out @ take m (drop tot buffer), es'))"
        "tot + m \<le> length buffer" using 1(3,4) s es Ready m by auto
      from 1(1) [OF True wr [symmetric] refl _ this] m(1) obtain es2 where
        "writen_loop buffer (tot + m) (out @ take m (drop tot buffer), es') = Done (int (length buffer), ((out @ take m (drop tot buffer)) @ drop (tot + m) buffer, es2))"
        by auto
      moreover have "take m (drop tot buffer) @ drop (tot + m) buffer = drop tot buffer" by (metis add.commute append_take_drop_id drop_drop)
      ultimately show ?thesis unfolding step by (simp add: s)
    next
      case Eintr
      have wr: "write_c (drop tot buffer) s = (WriteErr EINTR, (out, es'))" using s es Eintr by simp
      have step: "writen_loop buffer tot s = writen_loop buffer tot (out, es')" using True by (subst writen_loop.simps) (simp add: wr)
      show ?thesis unfolding step using 1(2) [OF True wr [symmetric] refl refl] 1(3-5) s es Eintr by auto
    next
      case (IoFail x)
      then show ?thesis using 1(3) s es by simp
    qed
  qed
qed

subsection \<open>The main properties\<close>

text \<open>
  C25: \<^verbatim>\<open>readLine\<close>, which reads a byte at a time, and \<^verbatim>\<open>readLineBuf\<close>, which reads ten bytes ahead, split any input into the same lines, cut to the size of the buffer,
  however the system divides the input among the calls; \<^verbatim>\<open>readLine\<close> also when calls are interrupted.
\<close>

theorem line_readers_agree:
  assumes "no_fail es1" and "2 * length inp < readies es1" and "all_ready es2" and "2 * length inp < length es2"
  shows "read_all (\<lambda>s. line_text_of (readLine (n + 2) s)) (length inp + 1) (inp, es1) = map (take (n + 1)) (split_lines inp) \<and>
    read_all (\<lambda>(rl, s). bufline_text_of (readLineBuf (n + 1) rl s)) (length inp + 1) (readLineBufInit, (inp, es2)) = map (take (n + 1)) (split_lines inp)"
proof -
  have init: "rl_ok readLineBufInit" "unread readLineBufInit = []" by (simp_all add: rl_ok_def readLineBufInit_def unread_def RL_MAX_BUF_def)
  show ?thesis
    using unbuffered.read_all_lines [of "(inp, es1)" "length inp + 1" n] buffered.read_all_lines [of "(readLineBufInit, (inp, es2))" "length inp + 1" n]
      assms init by simp
qed

theorem line_readers_agree_witness:
  "read_all (\<lambda>(rl, s). bufline_text_of (readLineBuf (2 + 1) rl s)) (length (''long'' @ nl @ ''b'') + 1)
      (readLineBufInit, (''long'' @ nl @ ''b'', replicate 13 (Ready 3))) = [''lon'', ''b'']"
proof -
  let ?inp = "''long'' @ nl @ ''b''"
  have "no_fail (Eintr # replicate 13 (Ready 1))" "2 * length ?inp < readies (Eintr # replicate 13 (Ready 1))" "all_ready (replicate 13 (Ready 3))"
    "2 * length ?inp < length (replicate 13 (Ready 3))" by (simp_all add: eval_nat_numeral nl_def all_ready_def)
  note agree = line_readers_agree [OF this, of 2, THEN conjunct2]
  have "map (take (2 + 1)) (split_lines ?inp) = [''lon'', ''b'']" by (simp add: split_lines.simps nl_def)
  with agree show ?thesis by (rule trans)
qed

text \<open>
  C26: a block that \<^verbatim>\<open>writen\<close> puts into a pipe or socket, \<^verbatim>\<open>readn\<close> gets out again whole, however small the pieces are in which the system transfers it on
  either side and however often a call is interrupted.
\<close>

theorem writen_readn_roundtrip:
  assumes "no_fail es1" and "length data \<le> readies es1" and "no_fail es2" and "length data \<le> readies es2"
  shows "\<exists>es1' s2. writen data ([], es1) = Done (int (length data), (data, es1')) \<and> readn (length data) (data, es2) = Done (int (length data), data, s2)"
  using writen_loop_block [of "([], es1)" data 0] readn_loop_block [of "(data, es2)" "length data" "[]"] assms by (auto simp: writen_def readn_def)

theorem writen_readn_roundtrip_witness:
  "\<exists>es1' s2. writen ''abc'' ([], [Ready 1, Eintr, Ready 1, Ready 1]) = Done (3, (''abc'', es1')) \<and>
    readn 3 (''abc'', [Eintr, Ready 2, Ready 2, Ready 1]) = Done (3, ''abc'', s2)"
  using writen_readn_roundtrip [of "[Ready 1, Eintr, Ready 1, Ready 1]" "''abc''" "[Eintr, Ready 2, Ready 2, Ready 1]"] by (simp add: eval_nat_numeral)

text \<open>
  C27: \<^verbatim>\<open>getInt\<close> returns only values of type \<^verbatim>\<open>int\<close> that respect its flags, having used the whole argument; and the decimal text of every such value is
  accepted and gives the value back.
\<close>

theorem getInt_exact:
  "(getInt (Some s) flags = Done v \<longrightarrow> INT_MIN \<le> v \<and> v \<le> INT_MAX \<and> (flag_set flags GN_NONNEG \<longrightarrow> 0 \<le> v) \<and> (flag_set flags GN_GT_0 \<longrightarrow> 0 < v) \<and>
      strtoll_c (gn_base flags) s = (v, [], False)) \<and>
    (gn_base flags = 10 \<and> INT_MIN \<le> w \<and> w \<le> INT_MAX \<and> (flag_set flags GN_NONNEG \<longrightarrow> 0 \<le> w) \<and> (flag_set flags GN_GT_0 \<longrightarrow> 0 < w) \<longrightarrow>
      getInt (Some (show_dec w)) flags = Done w)"
proof (intro conjI impI, goal_cases)
  case 6
  then have "strtoll_c 10 (show_dec w) = (w, [], False)" by (intro strtoll_c_show_dec) (simp_all add: c_limits)
  moreover have "show_dec w \<noteq> []" by (simp add: show_dec_def)
  moreover have "\<not> (flag_set flags GN_NONNEG \<and> w < 0)" "\<not> (flag_set flags GN_GT_0 \<and> w \<le> 0)" using 6 by auto
  ultimately show ?case using 6 by (simp only: getInt_def getNum_def option.case prod.case if_False outcome.case) (simp add: not_less)
qed (auto simp: getInt_def getNum_def gnFail_def split: outcome.splits if_splits prod.splits)

theorem getInt_exact_witness: "getInt (Some (show_dec 42)) (GN_GT_0 + 0) = Done 42"
  using getInt_exact [of "''x''" "GN_GT_0 + 0" 0 42]
  by (simp add: gn_base_def flag_set_def GN_GT_0_def GN_NONNEG_def GN_ANY_BASE_def GN_BASE_8_def GN_BASE_16_def c_limits)

end
