(* ===== verification/Dtree_Model.thy ===== *)
theory Dtree_Model
  imports C_Prelude
begin

section \<open>The directory-tree monitor (tlpi/inotify/inotify\_dtree.c)\<close>

text \<open>
  \<^verbatim>\<open>src/literature/tlpi/inotify/inotify_dtree.c\<close> watches directory trees with \<^verbatim>\<open>inotify\<close>. It keeps an array of watch descriptors and pathnames, adds to it
  when directories appear, rewrites it when directories are renamed, and builds it anew when it has lost track.

  The state holds the array, the root directories, and the options. What the system answers at the time of a call is the record \<open>os\<close>: the result of
  \<^verbatim>\<open>inotify_add_watch\<close> on a pathname (an error number or a watch descriptor), the entries that \<^verbatim>\<open>nftw\<close> visits below a pathname (each with a mark for directories),
  whether \<^verbatim>\<open>inotify_rm_watch\<close> and \<^verbatim>\<open>inotify_init\<close> succeed, and \<^verbatim>\<open>lstat\<close>. The buffer of events is a list of events; a count of bytes becomes a count of events. Messages to the
  user and to the log are left out, the dump into a log that was never opened is not. A pathname of \<^verbatim>\<open>PATH_MAX\<close> or more bytes, which the program says it
  does not handle, leaves an array without its terminating null byte; the store counts as the fault.
\<close>

subsection \<open>State\<close>

definition ENOENT :: int where "ENOENT = 2"
definition NAME_MAX :: nat where "NAME_MAX = 255"
definition ALLOC_INCR :: nat where "ALLOC_INCR = 200"

record watch =
  w_wd :: int
  w_path :: string

record dtree =
  wlCache :: "watch list"
  rootDirPaths :: "string option list"
  ignoreRootDirs :: nat
  dirCnt :: nat
  abortOnCacheProblem :: bool
  logfp :: bool
  checkCache :: bool
  dumpCache :: bool
  verboseMask :: int
  readBufferSize :: int

record os =
  os_add :: "string \<Rightarrow> int + int"
  os_walk :: "string \<Rightarrow> (string \<times> bool) list option"
  os_rm :: "int \<Rightarrow> bool"
  os_lstat :: "string \<Rightarrow> (nat \<times> nat \<times> bool) option"
  os_init :: bool

type_synonym 'a dres = "'a outcome cres"

definition ret :: "'a \<Rightarrow> 'a dres" where "ret x = Inr (Done x)"
definition exit_c :: "int \<Rightarrow> 'a dres" where "exit_c n = Inr (Exits n)"

lemma bind_ret [simp]: "bind_e (ret x) f = f x"
  by (simp add: ret_def)

lemma ret_eq [simp]: "ret x = ret y \<longleftrightarrow> x = y"
  by (simp add: ret_def)

lemma ret_not_exit [simp]: "ret x \<noteq> exit_c n" "exit_c n \<noteq> ret x" "ret x \<noteq> Inl e" "Inl e \<noteq> ret x"
  by (simp_all add: ret_def exit_c_def)

subsection \<open>The cache\<close>

definition freeCache :: "dtree \<Rightarrow> dtree" where
  "freeCache d = d\<lparr>wlCache := []\<rparr>"

definition empty_slot :: watch where
  "empty_slot = \<lparr>w_wd = -1, w_path = []\<rparr>"

text \<open>The number of the first slot with a property, \<open>None\<close> for -1.\<close>

fun find_slot :: "(watch \<Rightarrow> bool) \<Rightarrow> watch list \<Rightarrow> nat option" where
  "find_slot P [] = None"
| "find_slot P (w # ws) = (if P w then Some 0 else map_option Suc (find_slot P ws))"

text \<open>
  The check of all pathnames. The test of the file type is in the branch of the empty slots, where it looks at the result of the last successful
  \<^verbatim>\<open>lstat\<close>, if there was one.
\<close>

fun check_loop :: "os \<Rightarrow> watch list \<Rightarrow> bool option \<Rightarrow> unit dres" where
  "check_loop os [] sb = ret ()"
| "check_loop os (w # ws) sb =
     (if 0 \<le> w_wd w then check_loop os ws (case os_lstat os (w_path w) of None \<Rightarrow> sb | Some (ino, dev, isdir) \<Rightarrow> Some isdir)
      else case sb of None \<Rightarrow> Inl UninitRead | Some isdir \<Rightarrow> if \<not> isdir then exit_c 1 else check_loop os ws sb)"

definition checkCacheConsistency :: "os \<Rightarrow> dtree \<Rightarrow> unit dres" where
  "checkCacheConsistency os d = check_loop os (wlCache d) None"

definition findWatch :: "int \<Rightarrow> dtree \<Rightarrow> nat option" where
  "findWatch wd d = find_slot (\<lambda>w. w_wd w = wd) (wlCache d)"

definition dumpCacheToLog :: "dtree \<Rightarrow> unit dres" where
  "dumpCacheToLog d = (if logfp d then ret () else Inl NullDeref)"

definition createStopFileAndAbort :: "dtree \<Rightarrow> 'a dres" where
  "createStopFileAndAbort d = bind_e (dumpCacheToLog d) (\<lambda>_. exit_c 134)"

definition findWatchChecked :: "int \<Rightarrow> dtree \<Rightarrow> nat option dres" where
  "findWatchChecked wd d = (case findWatch wd d of
      Some slot \<Rightarrow> ret (Some slot)
    | None \<Rightarrow> if abortOnCacheProblem d then createStopFileAndAbort d else ret None)"

definition markCacheSlotEmpty :: "nat \<Rightarrow> dtree \<Rightarrow> dtree" where
  "markCacheSlotEmpty slot d = d\<lparr>wlCache := (wlCache d)[slot := empty_slot]\<rparr>"

definition findEmptyCacheSlot :: "dtree \<Rightarrow> nat \<times> dtree" where
  "findEmptyCacheSlot d = (case find_slot (\<lambda>w. w_wd w = -1) (wlCache d) of
      Some j \<Rightarrow> (j, d)
    | None \<Rightarrow> (length (wlCache d), d\<lparr>wlCache := wlCache d @ replicate ALLOC_INCR empty_slot\<rparr>))"

definition addWatchToCache :: "int \<Rightarrow> string \<Rightarrow> dtree \<Rightarrow> (nat \<times> dtree) dres" where
  "addWatchToCache wd pathname d =
     (let (slot, d1) = findEmptyCacheSlot d in
      if PATH_MAX \<le> length pathname then Inl OutOfBounds
      else ret (slot, d1\<lparr>wlCache := (wlCache d1)[slot := \<lparr>w_wd = wd, w_path = pathname\<rparr>]\<rparr>))"

definition pathnameToCacheSlot :: "string \<Rightarrow> dtree \<Rightarrow> nat option" where
  "pathnameToCacheSlot pathname d = find_slot (\<lambda>w. 0 \<le> w_wd w \<and> w_path w = pathname) (wlCache d)"

definition pathnameInCache :: "string \<Rightarrow> dtree \<Rightarrow> bool" where
  "pathnameInCache pathname d \<longleftrightarrow> pathnameToCacheSlot pathname d \<noteq> None"

subsection \<open>Root directories\<close>

text \<open>Two arguments are the same object when their i-node and device numbers agree.\<close>

fun root_stats :: "os \<Rightarrow> string list \<Rightarrow> (nat \<times> nat) list option" where
  "root_stats os [] = Some []"
| "root_stats os (p # ps) = (case os_lstat os p of
      Some (ino, dev, True) \<Rightarrow> map_option (Cons (ino, dev)) (root_stats os ps)
    | _ \<Rightarrow> None)"

definition copyRootDirPaths :: "os \<Rightarrow> string list \<Rightarrow> dtree \<Rightarrow> dtree dres" where
  "copyRootDirPaths os args d = (case root_stats os args of
      None \<Rightarrow> exit_c 1
    | Some stats \<Rightarrow> if \<not> distinct stats then exit_c 1 else ret (d\<lparr>rootDirPaths := map Some args, ignoreRootDirs := 0\<rparr>))"

fun find_root :: "string \<Rightarrow> string option list \<Rightarrow> nat option" where
  "find_root p [] = None"
| "find_root p (r # rs) = (if r = Some p then Some 0 else map_option Suc (find_root p rs))"

definition findRootDirPath :: "string \<Rightarrow> dtree \<Rightarrow> nat option" where
  "findRootDirPath p d = find_root p (rootDirPaths d)"

definition isRootDirPath :: "string \<Rightarrow> dtree \<Rightarrow> bool" where
  "isRootDirPath p d \<longleftrightarrow> findRootDirPath p d \<noteq> None"

definition zapRootDirPath :: "string \<Rightarrow> dtree \<Rightarrow> dtree dres" where
  "zapRootDirPath p d = (case findRootDirPath p d of
      None \<Rightarrow> exit_c 1
    | Some j \<Rightarrow>
        let d1 = d\<lparr>rootDirPaths := (rootDirPaths d)[j := None], ignoreRootDirs := ignoreRootDirs d + 1\<rparr>
        in if ignoreRootDirs d1 = length (rootDirPaths d1) then exit_c 0 else ret d1)"

subsection \<open>Watching a subtree\<close>

text \<open>The flags of the watch, which differ for root directories, go to the system only.\<close>

definition cacheNewWatch :: "int \<Rightarrow> string \<Rightarrow> dtree \<Rightarrow> dtree dres" where
  "cacheNewWatch wd pathname d =
     (if findWatch wd d \<noteq> None then ret d
      else bind_e (addWatchToCache wd pathname (d\<lparr>dirCnt := dirCnt d + 1\<rparr>)) (\<lambda>(slot, d1). ret d1))"

definition traverseTree :: "os \<Rightarrow> string \<Rightarrow> bool \<Rightarrow> dtree \<Rightarrow> dtree dres" where
  "traverseTree os pathname isdir d =
     (if \<not> isdir then ret d
      else case os_add os pathname of
        Inl e \<Rightarrow> if e = ENOENT then ret d else exit_c 1
      | Inr wd \<Rightarrow> cacheNewWatch wd pathname d)"

fun nftw_loop :: "os \<Rightarrow> (string \<times> bool) list \<Rightarrow> dtree \<Rightarrow> dtree dres" where
  "nftw_loop os [] d = ret d"
| "nftw_loop os ((p, isdir) # es) d = bind_e (traverseTree os p isdir d) (\<lambda>d1. nftw_loop os es d1)"

definition watchDir :: "os \<Rightarrow> string \<Rightarrow> dtree \<Rightarrow> (nat \<times> dtree) dres" where
  "watchDir os pathname d =
     (let d0 = d\<lparr>dirCnt := 0\<rparr> in
      bind_e (case os_walk os pathname of None \<Rightarrow> ret d0 | Some es \<Rightarrow> nftw_loop os es d0) (\<lambda>d1. ret (dirCnt d1, d1)))"

definition watchSubtree :: "os \<Rightarrow> string \<Rightarrow> dtree \<Rightarrow> dtree dres" where
  "watchSubtree os pathname d = bind_e (watchDir os pathname d) (\<lambda>(cnt, d1). ret d1)"

subsection \<open>Renaming and removing subtrees\<close>

text \<open>The test with \<^verbatim>\<open>strncmp\<close> and the byte behind the prefix.\<close>

definition path_match :: "string \<Rightarrow> string \<Rightarrow> bool" where
  "path_match full p \<longleftrightarrow> take (length full) p = full \<and> (length p = length full \<or> length full < length p \<and> p ! length full = CHR ''/'')"

definition snprintf_path :: "nat \<Rightarrow> string \<Rightarrow> string \<Rightarrow> string" where
  "snprintf_path n dir name = take (n - 1) (dir @ CHR ''/'' # name)"

definition rewrite_slot :: "string \<Rightarrow> string \<Rightarrow> watch \<Rightarrow> watch" where
  "rewrite_slot fullPath newPrefix w =
     (if path_match fullPath (w_path w) then w\<lparr>w_path := take (PATH_MAX - 1) (newPrefix @ drop (length fullPath) (w_path w))\<rparr> else w)"

definition rewriteCachedPaths :: "string \<Rightarrow> string \<Rightarrow> string \<Rightarrow> string \<Rightarrow> dtree \<Rightarrow> dtree" where
  "rewriteCachedPaths oldPathPrefix oldName newPathPrefix newName d =
     d\<lparr>wlCache := map (rewrite_slot (snprintf_path PATH_MAX oldPathPrefix oldName) (snprintf_path PATH_MAX newPathPrefix newName)) (wlCache d)\<rparr>"

text \<open>The slots after the loop of \<^verbatim>\<open>zapSubtree\<close>, and the number of slots emptied or -1.\<close>

fun zap_loop :: "os \<Rightarrow> string \<Rightarrow> watch list \<Rightarrow> watch list \<times> int" where
  "zap_loop os pn [] = ([], 0)"
| "zap_loop os pn (w # ws) =
     (if 0 \<le> w_wd w \<and> path_match pn (w_path w) then
        if os_rm os (w_wd w) then (let (ws1, cnt) = zap_loop os pn ws in (empty_slot # ws1, if cnt = -1 then -1 else cnt + 1))
        else (w # ws, -1)
      else let (ws1, cnt) = zap_loop os pn ws in (w # ws1, cnt))"

definition zapSubtree :: "os \<Rightarrow> string \<Rightarrow> dtree \<Rightarrow> int \<times> dtree" where
  "zapSubtree os path d = (let (ws, cnt) = zap_loop os path (wlCache d) in (cnt, d\<lparr>wlCache := ws\<rparr>))"

fun watch_roots :: "os \<Rightarrow> string option list \<Rightarrow> dtree \<Rightarrow> dtree dres" where
  "watch_roots os [] d = ret d"
| "watch_roots os (r # rs) d = (case r of None \<Rightarrow> watch_roots os rs d | Some p \<Rightarrow> bind_e (watchSubtree os p d) (\<lambda>d1. watch_roots os rs d1))"

definition reinitialize :: "os \<Rightarrow> dtree \<Rightarrow> dtree dres" where
  "reinitialize os d = (if \<not> os_init os then exit_c 1 else watch_roots os (rootDirPaths d) (freeCache d))"

subsection \<open>Events\<close>

datatype ev_flag = IN_CREATE | IN_MOVED_FROM | IN_MOVED_TO | IN_DELETE_SELF | IN_MOVE_SELF | IN_ISDIR | IN_IGNORED | IN_Q_OVERFLOW | IN_UNMOUNT

record inotify_event =
  ev_wd :: int
  ev_mask :: "ev_flag list"
  ev_cookie :: nat
  ev_name :: string

abbreviation has :: "inotify_event \<Rightarrow> ev_flag \<Rightarrow> bool" where
  "has ev f \<equiv> f \<in> set (ev_mask ev)"

text \<open>How much of the buffer an event used up: a number of events, everything, or nothing because more has to be read first.\<close>

datatype consumed = Events nat | DiscardAll | ReadMore

text \<open>The path of the event's slot. The variable has no value when the watch descriptor was not looked up.\<close>

definition slot_path :: "nat option \<Rightarrow> dtree \<Rightarrow> string dres" where
  "slot_path slot d = (case slot of None \<Rightarrow> Inl UninitRead
     | Some j \<Rightarrow> if j < length (wlCache d) then ret (w_path (wlCache d ! j)) else Inl OutOfBounds)"

definition mark_slot :: "nat option \<Rightarrow> dtree \<Rightarrow> dtree dres" where
  "mark_slot slot d = (case slot of None \<Rightarrow> Inl UninitRead
     | Some j \<Rightarrow> if j < length (wlCache d) then ret (markCacheSlotEmpty j d) else Inl OutOfBounds)"

definition rebuild :: "os \<Rightarrow> dtree \<Rightarrow> (consumed \<times> dtree) dres" where
  "rebuild os d = bind_e (reinitialize os d) (\<lambda>d1. ret (DiscardAll, d1))"

definition zap_or_rebuild :: "os \<Rightarrow> string \<Rightarrow> dtree \<Rightarrow> (consumed \<times> dtree) dres" where
  "zap_or_rebuild os path d = (case zapSubtree os path d of (cnt, d1) \<Rightarrow> if cnt = -1 then rebuild os d1 else ret (Events 1, d1))"

text \<open>The branch of a directory that was moved away; \<open>rest\<close> are the events behind it in the buffer.\<close>

definition moved_from :: "os \<Rightarrow> inotify_event \<Rightarrow> inotify_event list \<Rightarrow> bool \<Rightarrow> nat option \<Rightarrow> dtree \<Rightarrow> (consumed \<times> dtree) dres" where
  "moved_from os ev rest firstTry slot d =
     (if rest \<noteq> [] \<and> has (hd rest) IN_MOVED_TO \<and> ev_cookie (hd rest) = ev_cookie ev then
        bind_e (findWatchChecked (ev_wd (hd rest)) d) (\<lambda>nextSlot.
          if nextSlot = None then rebuild os d
          else
            bind_e (slot_path slot d) (\<lambda>oldPrefix.
            bind_e (slot_path nextSlot d) (\<lambda>newPrefix.
              ret (Events 2, rewriteCachedPaths oldPrefix (ev_name ev) newPrefix (ev_name (hd rest)) d))))
      else if rest \<noteq> [] \<or> \<not> firstTry then
        bind_e (slot_path slot d) (\<lambda>dir. zap_or_rebuild os (snprintf_path (PATH_MAX + NAME_MAX) dir (ev_name ev)) d)
      else ret (ReadMore, d))"

definition event_branch :: "os \<Rightarrow> inotify_event \<Rightarrow> inotify_event list \<Rightarrow> bool \<Rightarrow> nat option \<Rightarrow> dtree \<Rightarrow> (consumed \<times> dtree) dres" where
  "event_branch os ev rest firstTry slot d =
     (if has ev IN_ISDIR \<and> (has ev IN_CREATE \<or> has ev IN_MOVED_TO) then
        bind_e (slot_path slot d) (\<lambda>dir.
          let fullPath = snprintf_path (PATH_MAX + NAME_MAX) dir (ev_name ev) in
          if pathnameInCache fullPath d then ret (Events 1, d)
          else bind_e (watchSubtree os fullPath d) (\<lambda>d1. ret (Events 1, d1)))
      else if has ev IN_DELETE_SELF then
        bind_e (slot_path slot d) (\<lambda>dir.
        bind_e (if isRootDirPath dir d then zapRootDirPath dir d else ret d) (\<lambda>d1.
        bind_e (mark_slot slot d1) (\<lambda>d2. ret (Events 1, d2))))
      else if has ev IN_MOVED_FROM \<and> has ev IN_ISDIR then moved_from os ev rest firstTry slot d
      else if has ev IN_Q_OVERFLOW then rebuild os d
      else if has ev IN_UNMOUNT then bind_e (mark_slot slot d) (\<lambda>d1. ret (Events 1, d1))
      else if has ev IN_MOVE_SELF then
        bind_e (slot_path slot d) (\<lambda>dir.
          if isRootDirPath dir d then bind_e (zapRootDirPath dir d) (\<lambda>d1. zap_or_rebuild os dir d1)
          else ret (Events 1, d))
      else ret (Events 1, d))"

text \<open>The checks at the end of the function, which the early returns leave out.\<close>

definition after_event :: "os \<Rightarrow> bool \<Rightarrow> consumed \<times> dtree \<Rightarrow> (consumed \<times> dtree) dres" where
  "after_event os overflow r = (case r of (c, d) \<Rightarrow>
     if c = ReadMore \<or> c = DiscardAll \<and> \<not> overflow then ret (c, d)
     else bind_e (if checkCache d then checkCacheConsistency os d else ret ()) (\<lambda>_.
          bind_e (if dumpCache d then dumpCacheToLog d else ret ()) (\<lambda>_. ret (c, d))))"

text \<open>
  An overflow of the queue also discards all events, but goes through the checks.
\<close>

definition is_overflow :: "inotify_event \<Rightarrow> bool" where
  "is_overflow ev \<longleftrightarrow> \<not> (has ev IN_ISDIR \<and> (has ev IN_CREATE \<or> has ev IN_MOVED_TO)) \<and> \<not> has ev IN_DELETE_SELF \<and>
     \<not> (has ev IN_MOVED_FROM \<and> has ev IN_ISDIR) \<and> has ev IN_Q_OVERFLOW"

definition processNextInotifyEvent ::
    "os \<Rightarrow> inotify_event \<Rightarrow> inotify_event list \<Rightarrow> bool \<Rightarrow> dtree \<Rightarrow> (consumed \<times> dtree) dres" where
  "processNextInotifyEvent os ev rest firstTry d =
     (if ev_wd ev \<noteq> -1 \<and> \<not> has ev IN_IGNORED then
        bind_e (findWatchChecked (ev_wd ev) d) (\<lambda>slot.
          if slot = None then rebuild os d
          else bind_e (event_branch os ev rest firstTry slot d) (after_event os (is_overflow ev)))
      else bind_e (event_branch os ev rest firstTry None d) (after_event os (is_overflow ev)))"


subsection \<open>The loop over the buffer\<close>

text \<open>An event takes 16 bytes, and its name is padded with null bytes to a multiple of 16.\<close>

definition ev_len :: "inotify_event \<Rightarrow> nat" where
  "ev_len ev = 16 + (if ev_name ev = [] then 0 else (length (ev_name ev) div 16 + 1) * 16)"

definition INOTIFY_READ_BUF_LEN :: nat where "INOTIFY_READ_BUF_LEN = 100 * (16 + NAME_MAX + 1)"

text \<open>
  A read finds a list of events in the queue of the system, is interrupted, or fails. It takes as many whole events as fit and leaves the others for a later read;
  when not even the first fits, it fails.
\<close>

datatype read_res = GotEvents "inotify_event list" | Interrupted | ReadFailed

fun take_fit :: "nat \<Rightarrow> inotify_event list \<Rightarrow> inotify_event list" where
  "take_fit n [] = []"
| "take_fit n (ev # evs) = (if ev_len ev \<le> n then ev # take_fit (n - ev_len ev) evs else [])"

lemma processNext_progress:
  assumes "processNextInotifyEvent os ev rest firstTry d = Inr (Done (c, d1))"
  shows "(\<forall>n. c = Events n \<longrightarrow> 0 < n) \<and> (c = ReadMore \<longrightarrow> firstTry)"
proof -
  have zap: "zap_or_rebuild os p d0 = Inr (Done (c0, d2)) \<Longrightarrow> (\<forall>n. c0 = Events n \<longrightarrow> 0 < n) \<and> c0 \<noteq> ReadMore" for p d0 c0 d2
    by (auto simp: zap_or_rebuild_def rebuild_def ret_def split: prod.splits if_splits)
  have branch: "event_branch os ev rest firstTry slot d0 = Inr (Done (c0, d2)) \<Longrightarrow> (\<forall>n. c0 = Events n \<longrightarrow> 0 < n) \<and> (c0 = ReadMore \<longrightarrow> firstTry)"
    for slot d0 c0 d2
    by (auto simp: event_branch_def moved_from_def rebuild_def ret_def Let_def dest: zap split: if_splits)
  have after: "after_event os ov (c0, d2) = Inr (Done (c1, d3)) \<Longrightarrow> c1 = c0" for ov c0 d2 c1 d3
    by (auto simp: after_event_def ret_def split: if_splits)
  show ?thesis
    using assms by (auto simp: processNextInotifyEvent_def rebuild_def ret_def split: if_splits dest!: after dest: branch)
qed

text \<open>
  The events in the buffer from \<^verbatim>\<open>evp\<close> on. The list of results answers the secondary reads; where it ends the timer interrupts the read. The \<open>n\<close>-th event is handled
  while the system answers as \<open>osf n\<close>. A secondary read is asked for only at the last event of the buffer, so when it is interrupted, the -1 that the program adds to the length of the
  buffer leaves that event the last one.
\<close>

function event_loop :: "(nat \<Rightarrow> os) \<Rightarrow> nat \<Rightarrow> read_res list \<Rightarrow> inotify_event list \<Rightarrow> bool \<Rightarrow> dtree \<Rightarrow> dtree dres" where
  "event_loop osf n script [] firstTry d = ret d"
| "event_loop osf n script (ev # rest) firstTry d =
     bind_e (processNextInotifyEvent (osf n) ev rest firstTry d) (\<lambda>(c, d1). case c of
        Events k \<Rightarrow> event_loop osf (Suc n) script (drop k (ev # rest)) True d1
      | DiscardAll \<Rightarrow> ret d1
      | ReadMore \<Rightarrow>
          (case script of
             [] \<Rightarrow> event_loop osf (Suc n) [] (ev # rest) False d1
           | Interrupted # script' \<Rightarrow> event_loop osf (Suc n) script' (ev # rest) False d1
           | ReadFailed # script' \<Rightarrow> exit_c 1
           | GotEvents evs # script' \<Rightarrow>
               let got = take_fit (INOTIFY_READ_BUF_LEN - sum_list (map ev_len (ev # rest))) evs in
               if got = [] then exit_c 1 else event_loop osf (Suc n) script' (ev # rest @ got) False d1))"
  by pat_completeness auto
termination
  by (relation "measures [\<lambda>(osf, n, script, evs, firstTry, d). length script, \<lambda>(osf, n, script, evs, firstTry, d). length evs,
       \<lambda>(osf, n, script, evs, firstTry, d). if firstTry then 1 else 0]")
    (auto dest: processNext_progress)

text \<open>The first read may be given a length beyond the end of the buffer with the option \<^verbatim>\<open>-b\<close>.\<close>

definition processInotifyEvents :: "(nat \<Rightarrow> os) \<Rightarrow> read_res list \<Rightarrow> dtree \<Rightarrow> dtree dres" where
  "processInotifyEvents osf script d = (case script of
      GotEvents evs # script' \<Rightarrow>
        let cnt = (if 0 < readBufferSize d then nat (readBufferSize d) else INOTIFY_READ_BUF_LEN); got = take_fit cnt evs in
        if got = [] then exit_c 1
        else if INOTIFY_READ_BUF_LEN < sum_list (map ev_len got) then Inl BufferOverflow
        else event_loop osf 0 script' got True d
    | _ \<Rightarrow> exit_c 1)"

subsection \<open>Commands\<close>

text \<open>
  A command answers on the terminal or writes a file. The word behind the command letter is read with \<^verbatim>\<open>%s\<close>; without one the array keeps its indeterminate contents.
\<close>

datatype cmd_out = Quiet | Verified nat nat | Listing "(nat \<times> int \<times> string) list" | Toggled bool | Written string "string list" | Help

definition atoi :: "string \<Rightarrow> int" where
  "atoi s = signed_take_bit 31 (fst (strtoll_c 10 s))"

definition scan_arg :: "string \<Rightarrow> string option" where
  "scan_arg s = (let w = takeWhile (\<lambda>c. \<not> isspace_c c) (dropWhile isspace_c s) in if w = [] then None else Some w)"

definition need_arg :: "string option \<Rightarrow> string dres" where
  "need_arg a = (case a of None \<Rightarrow> Inl UninitRead | Some s \<Rightarrow> ret s)"

fun verify_loop :: "os \<Rightarrow> watch list \<Rightarrow> nat \<Rightarrow> nat \<Rightarrow> cmd_out dres" where
  "verify_loop os [] cnt failures = ret (Verified cnt failures)"
| "verify_loop os (w # ws) cnt failures =
     (if 0 \<le> w_wd w then
        case os_lstat os (w_path w) of
          None \<Rightarrow> verify_loop os ws cnt (failures + 1)
        | Some (ino, dev, isdir) \<Rightarrow> if \<not> isdir then exit_c 1 else verify_loop os ws (cnt + 1) failures
      else verify_loop os ws cnt failures)"

definition used_slots :: "dtree \<Rightarrow> (nat \<times> watch) list" where
  "used_slots d = filter (\<lambda>(j, w). 0 \<le> w_wd w) (zip [0..<length (wlCache d)] (wlCache d))"

definition run_command :: "os \<Rightarrow> (string \<Rightarrow> bool) \<Rightarrow> char \<Rightarrow> string option \<Rightarrow> dtree \<Rightarrow> (cmd_out \<times> dtree) dres" where
  "run_command os fopen_ok cmd arg d =
     (if cmd = CHR ''a'' then
        bind_e (need_arg arg) (\<lambda>p. bind_e (watchSubtree os p (snd (zapSubtree os p d))) (\<lambda>d1. ret (Quiet, d1)))
      else if cmd = CHR ''c'' \<or> cmd = CHR ''C'' then bind_e (verify_loop os (wlCache d) 0 0) (\<lambda>r. ret (r, d))
      else if cmd = CHR ''l'' then ret (Listing (map (\<lambda>(j, w). (j, w_wd w, w_path w)) (used_slots d)), d)
      else if cmd = CHR ''q'' then exit_c 0
      else if cmd = CHR ''v'' then
        (case arg of
           Some s \<Rightarrow> ret (Quiet, d\<lparr>verboseMask := atoi s\<rparr>)
         | None \<Rightarrow> let v = (if verboseMask d = 0 then 1 else 0) in ret (Toggled (v \<noteq> 0), d\<lparr>verboseMask := v\<rparr>))
      else if cmd = CHR ''d'' then ret (Toggled (\<not> dumpCache d), d\<lparr>dumpCache := \<not> dumpCache d\<rparr>)
      else if cmd = CHR ''x'' then ret (Toggled (\<not> checkCache d), d\<lparr>checkCache := \<not> checkCache d\<rparr>)
      else if cmd = CHR ''w'' then
        bind_e (need_arg arg) (\<lambda>f. if fopen_ok f then ret (Written f (map (\<lambda>(j, w). w_path w) (used_slots d)), d) else Inl NullDeref)
      else if cmd = CHR ''z'' then bind_e (need_arg arg) (\<lambda>p. ret (Quiet, snd (zapSubtree os p d)))
      else if cmd = CHR ''0'' then bind_e (reinitialize os d) (\<lambda>d1. ret (Quiet, d1))
      else ret (Help, d))"

text \<open>The line as \<^verbatim>\<open>read\<close> delivers it, at most 100 bytes; nothing at the end of the input or on an error.\<close>

definition executeCommand :: "os \<Rightarrow> (string \<Rightarrow> bool) \<Rightarrow> string \<Rightarrow> dtree \<Rightarrow> (cmd_out \<times> dtree) dres" where
  "executeCommand os fopen_ok input d =
     (if input = [] then exit_c 1
      else case takeWhile (\<lambda>c. c \<noteq> CHR 0x00) (butlast input) of
        [] \<Rightarrow> ret (Quiet, d)
      | cmd # r \<Rightarrow> run_command os fopen_ok cmd (scan_arg r) d)"

subsection \<open>The program\<close>

definition dtree_init :: dtree where
  "dtree_init = \<lparr>wlCache = [], rootDirPaths = [], ignoreRootDirs = 0, dirCnt = 0, abortOnCacheProblem = False, logfp = False, checkCache = False,
     dumpCache = False, verboseMask = 0, readBufferSize = 0\<rparr>"

text \<open>The results of \<^verbatim>\<open>getopt\<close> with the option string \<^verbatim>\<open>a:dxl:v:b:\<close>, each with its argument.\<close>

fun parse_options :: "(string \<Rightarrow> bool) \<Rightarrow> (char \<times> string) list \<Rightarrow> dtree \<Rightarrow> dtree dres" where
  "parse_options fopen_ok [] d = ret d"
| "parse_options fopen_ok ((c, optarg) # os) d =
     (if c = CHR ''a'' then parse_options fopen_ok os (d\<lparr>abortOnCacheProblem := True\<rparr>)
      else if c = CHR ''x'' then parse_options fopen_ok os (d\<lparr>checkCache := True\<rparr>)
      else if c = CHR ''d'' then parse_options fopen_ok os (d\<lparr>dumpCache := True\<rparr>)
      else if c = CHR ''v'' then parse_options fopen_ok os (d\<lparr>verboseMask := atoi optarg\<rparr>)
      else if c = CHR ''b'' then parse_options fopen_ok os (d\<lparr>readBufferSize := atoi optarg\<rparr>)
      else if c = CHR ''l'' then (if fopen_ok optarg then parse_options fopen_ok os (d\<lparr>logfp := True\<rparr>) else exit_c 1)
      else exit_c 1)"

text \<open>A return of \<^verbatim>\<open>select\<close>: it fails, or there is a line of input, or there are events, or both.\<close>

datatype select_answer = SelectFailed | Ready "string option" "read_res list option"

definition dtree_round :: "(nat \<Rightarrow> os) \<Rightarrow> (string \<Rightarrow> bool) \<Rightarrow> select_answer \<Rightarrow> dtree \<Rightarrow> (cmd_out \<times> dtree) dres" where
  "dtree_round osf fopen_ok r d = (case r of
      SelectFailed \<Rightarrow> exit_c 1
    | Ready line evs \<Rightarrow>
        bind_e (case line of None \<Rightarrow> ret (Quiet, d) | Some input \<Rightarrow> executeCommand (osf 0) fopen_ok input d) (\<lambda>(out, d1).
        bind_e (case evs of None \<Rightarrow> ret d1 | Some script \<Rightarrow> processInotifyEvents (\<lambda>n. osf (Suc n)) script d1) (\<lambda>d2. ret (out, d2))))"

fun main_loop :: "(string \<Rightarrow> bool) \<Rightarrow> ((nat \<Rightarrow> os) \<times> select_answer) list \<Rightarrow> cmd_out list \<Rightarrow> dtree \<Rightarrow> (cmd_out list \<times> dtree) dres" where
  "main_loop fopen_ok [] outs d = ret (outs, d)"
| "main_loop fopen_ok ((osf, r) # rs) outs d = bind_e (dtree_round osf fopen_ok r d) (\<lambda>(out, d1). main_loop fopen_ok rs (outs @ [out]) d1)"

definition dtree_main :: "os \<Rightarrow> (string \<Rightarrow> bool) \<Rightarrow> (char \<times> string) list \<Rightarrow> string list \<Rightarrow> ((nat \<Rightarrow> os) \<times> select_answer) list \<Rightarrow>
    (cmd_out list \<times> dtree) dres" where
  "dtree_main os fopen_ok opts args rounds =
     bind_e (parse_options fopen_ok opts dtree_init) (\<lambda>d.
       if args = [] then exit_c 1
       else bind_e (copyRootDirPaths os args d) (\<lambda>d1. bind_e (reinitialize os d1) (\<lambda>d2. main_loop fopen_ok rounds [] d2)))"

end
