(* ===== verification/Dtree_Cache.thy ===== *)
theory Dtree_Cache
  imports Dtree_Model
begin

section \<open>What the watch cache of the directory monitor holds\<close>

text \<open>
  The array of slots as a set of pairs of a watch descriptor and a pathname, and the effect of the cache operations on that set. The well-formed arrays have every descriptor in
  at most one slot, blank unused slots and pathnames that fit. The recursive walk rests on a contract for adding entries, the locale \<open>path_cache\<close>.
\<close>

subsection \<open>Pathnames\<close>

lemma path_match_iff: "path_match q p \<longleftrightarrow> p = q \<or> (\<exists>r. p = q @ CHR ''/'' # r)"
proof
  assume m: "path_match q p"
  then have t: "p = q @ drop (length q) p"
    unfolding path_match_def by (metis append_take_drop_id)
  show "p = q \<or> (\<exists>r. p = q @ CHR ''/'' # r)"
  proof (cases "length p = length q")
    case True
    then show ?thesis using t by simp
  next
    case False
    then have l: "length q < length p" and c: "p ! length q = CHR ''/''" using m by (auto simp: path_match_def)
    then have "drop (length q) p = CHR ''/'' # drop (Suc (length q)) p" by (metis Cons_nth_drop_Suc)
    then show ?thesis using t by metis
  qed
next
  assume "p = q \<or> (\<exists>r. p = q @ CHR ''/'' # r)"
  then show "path_match q p" by (auto simp: path_match_def)
qed

lemma path_match_refl [simp]: "path_match p p"
  by (simp add: path_match_iff)

lemma path_match_child [simp]: "path_match p (p @ CHR ''/'' # n)"
  by (simp add: path_match_iff)

lemma path_match_trans: "path_match a b \<Longrightarrow> path_match b c \<Longrightarrow> path_match a c"
  by (auto simp: path_match_iff)

lemma path_match_antisym: "path_match a b \<Longrightarrow> path_match b a \<Longrightarrow> a = b"
  by (auto simp: path_match_iff)

lemma path_match_drop: "path_match q p \<Longrightarrow> q @ drop (length q) p = p"
  by (auto simp: path_match_iff)

subsection \<open>The slots\<close>

definition entries :: "watch list \<Rightarrow> (int \<times> string) set" where
  "entries ws = {(w_wd w, w_path w) | w. w \<in> set ws \<and> 0 \<le> w_wd w}"

lemma entries_simps [simp]:
  "entries [] = {}"
  "entries (w # ws) = (if 0 \<le> w_wd w then insert (w_wd w, w_path w) (entries ws) else entries ws)"
  "entries (ws @ ws') = entries ws \<union> entries ws'"
  by (auto simp: entries_def)

lemma entries_nonneg: "(wd, p) \<in> entries ws \<Longrightarrow> 0 \<le> wd"
  by (auto simp: entries_def)

definition slots_ok :: "watch list \<Rightarrow> bool" where
  "slots_ok ws \<longleftrightarrow> (\<forall>w\<in>set ws. (0 \<le> w_wd w \<or> w = empty_slot) \<and> length (w_path w) < PATH_MAX) \<and>
     distinct (map w_wd (filter (\<lambda>w. 0 \<le> w_wd w) ws))"

lemma slots_ok_Nil [simp]: "slots_ok []"
  by (simp add: slots_ok_def)

lemma empty_slot_simps [simp]: "w_wd empty_slot = -1" "w_path empty_slot = []"
  by (simp_all add: empty_slot_def)

lemma PATH_MAX_pos [simp]: "0 < PATH_MAX"
  by (simp add: PATH_MAX_def)

lemma entries_replicate_empty [simp]: "entries (replicate n empty_slot) = {}"
  by (auto simp: entries_def)

lemma slots_ok_append_empty [simp]: "slots_ok (ws @ replicate n empty_slot) = slots_ok ws"
  by (auto simp: slots_ok_def)

lemma used_wds: "w_wd ` {w \<in> set ws. 0 \<le> w_wd w} = fst ` entries ws"
  by (force simp: entries_def)

lemma slots_ok_Cons:
  "slots_ok (w # ws) \<longleftrightarrow> length (w_path w) < PATH_MAX \<and> (if 0 \<le> w_wd w then w_wd w \<notin> fst ` entries ws else w = empty_slot) \<and> slots_ok ws"
  using used_wds [of ws] by (auto simp: slots_ok_def)

lemma slots_ok_mid:
  "slots_ok (xs @ w # ys) \<longleftrightarrow> length (w_path w) < PATH_MAX \<and>
     (if 0 \<le> w_wd w then w_wd w \<notin> fst ` entries (xs @ ys) else w = empty_slot) \<and> slots_ok (xs @ ys)"
  using used_wds [of xs] used_wds [of ys] by (auto simp: slots_ok_def)

lemma entries_wd_unique: "slots_ok ws \<Longrightarrow> (wd, p) \<in> entries ws \<Longrightarrow> (wd, q) \<in> entries ws \<Longrightarrow> p = q"
  by (induction ws) (auto simp: slots_ok_Cons split: if_splits intro: rev_image_eqI)

subsection \<open>Searching\<close>

lemma find_slot_Some: "find_slot P ws = Some j \<Longrightarrow> j < length ws \<and> P (ws ! j)"
  by (induction ws arbitrary: j) (auto split: if_splits)

lemma find_slot_None: "find_slot P ws = None \<longleftrightarrow> (\<forall>w\<in>set ws. \<not> P w)"
  by (induction ws) auto

lemma findWatch_None: "0 \<le> wd \<Longrightarrow> findWatch wd d = None \<longleftrightarrow> wd \<notin> fst ` entries (wlCache d)"
  by (force simp: findWatch_def find_slot_None entries_def)

lemma findWatch_entry:
  assumes ok: "slots_ok (wlCache d)" and e: "(wd, p) \<in> entries (wlCache d)"
  shows "\<exists>j. findWatch wd d = Some j \<and> j < length (wlCache d) \<and> wlCache d ! j = \<lparr>w_wd = wd, w_path = p\<rparr>"
proof -
  have "findWatch wd d \<noteq> None" using findWatch_None [of wd d] e entries_nonneg [OF e] by force
  then obtain j where j: "findWatch wd d = Some j" by blast
  then have l: "j < length (wlCache d)" and w: "w_wd (wlCache d ! j) = wd" using find_slot_Some unfolding findWatch_def by auto
  then have "(wd, w_path (wlCache d ! j)) \<in> entries (wlCache d)"
    using entries_nonneg [OF e] unfolding entries_def by (auto intro: nth_mem)
  then have "w_path (wlCache d ! j) = p" using entries_wd_unique [OF ok _ e] by blast
  with j l w show ?thesis by (metis (full_types) old.unit.exhaust watch.surjective)
qed

lemma pathnameInCache_iff: "pathnameInCache p d \<longleftrightarrow> (\<exists>wd. (wd, p) \<in> entries (wlCache d))"
  by (auto simp: pathnameInCache_def pathnameToCacheSlot_def find_slot_None entries_def)

subsection \<open>Changing slots\<close>

lemma list_at: "j < length ws \<Longrightarrow> \<exists>xs ys. ws = xs @ ws ! j # ys \<and> length xs = j \<and> (\<forall>w. ws[j := w] = xs @ w # ys)"
  by (metis id_take_nth_drop length_take min.absorb4 upd_conv_take_nth_drop)

lemma fill_slot:
  assumes ok: "slots_ok ws" and j: "j < length ws" and e: "w_wd (ws ! j) = -1" and wd: "0 \<le> wd" "wd \<notin> fst ` entries ws" and p: "length p < PATH_MAX"
  shows "slots_ok (ws[j := \<lparr>w_wd = wd, w_path = p\<rparr>]) \<and> entries (ws[j := \<lparr>w_wd = wd, w_path = p\<rparr>]) = insert (wd, p) (entries ws)"
proof -
  obtain xs ys where s: "ws = xs @ ws ! j # ys" "ws[j := \<lparr>w_wd = wd, w_path = p\<rparr>] = xs @ \<lparr>w_wd = wd, w_path = p\<rparr> # ys" using list_at [OF j] by metis
  have "entries ws = entries (xs @ ys)" by (subst s(1)) (simp add: e)
  moreover have "slots_ok (xs @ ys)" using ok s(1) slots_ok_mid by metis
  ultimately show ?thesis unfolding s(2) slots_ok_mid using wd p by auto
qed

lemma clear_slot:
  assumes ok: "slots_ok ws" and j: "j < length ws" and e: "ws ! j = \<lparr>w_wd = wd, w_path = p\<rparr>" and wd: "0 \<le> wd"
  shows "slots_ok (ws[j := empty_slot]) \<and> entries (ws[j := empty_slot]) = {(w, q) \<in> entries ws. w \<noteq> wd}"
proof -
  obtain xs ys where s: "ws = xs @ ws ! j # ys" "ws[j := empty_slot] = xs @ empty_slot # ys" using list_at [OF j] by metis
  have "slots_ok (xs @ ws ! j # ys)" using ok s(1) by simp
  then have a: "slots_ok (xs @ ys)" and n: "wd \<notin> fst ` entries (xs @ ys)" unfolding slots_ok_mid using e wd by auto
  have "entries ws = insert (wd, p) (entries (xs @ ys))" by (subst s(1)) (use e wd in auto)
  then show ?thesis unfolding s(2) slots_ok_mid using a n by force
qed

definition same_setup :: "dtree \<Rightarrow> dtree \<Rightarrow> bool" where
  "same_setup d d' \<longleftrightarrow> d'\<lparr>wlCache := [], dirCnt := 0\<rparr> = d\<lparr>wlCache := [], dirCnt := 0\<rparr>"

lemma same_setup_simps [simp]: "same_setup d d" "same_setup d (d\<lparr>wlCache := ws\<rparr>)" "same_setup d (d\<lparr>dirCnt := n\<rparr>)"
  "same_setup d (d\<lparr>dirCnt := n, wlCache := ws\<rparr>)"
  by (simp_all add: same_setup_def)

lemma same_setup_trans [trans]: "same_setup a b \<Longrightarrow> same_setup b c \<Longrightarrow> same_setup a c"
  by (simp add: same_setup_def)

lemma same_setup_fields:
  "same_setup d d' \<Longrightarrow> rootDirPaths d' = rootDirPaths d \<and> checkCache d' = checkCache d \<and> dumpCache d' = dumpCache d \<and> logfp d' = logfp d"
  unfolding same_setup_def by (cases d, cases d') simp

lemma addWatchToCache_entry:
  assumes ok: "slots_ok (wlCache d)" and wd: "0 \<le> wd" "wd \<notin> fst ` entries (wlCache d)" and p: "length p < PATH_MAX"
  shows "\<exists>slot ws. addWatchToCache wd p d = ret (slot, d\<lparr>wlCache := ws\<rparr>) \<and> slots_ok ws \<and> entries ws = insert (wd, p) (entries (wlCache d))"
proof -
  define ws where "ws = wlCache (snd (findEmptyCacheSlot d))"
  define j where "j = fst (findEmptyCacheSlot d)"
  have f: "findEmptyCacheSlot d = (j, d\<lparr>wlCache := ws\<rparr>)" and j: "j < length ws" "w_wd (ws ! j) = -1" and w: "slots_ok ws" "entries ws = entries (wlCache d)"
    using ok unfolding ws_def j_def
    by (auto simp: findEmptyCacheSlot_def nth_append ALLOC_INCR_def split: option.splits dest: find_slot_Some)
  have "slots_ok (ws[j := \<lparr>w_wd = wd, w_path = p\<rparr>])" "entries (ws[j := \<lparr>w_wd = wd, w_path = p\<rparr>]) = insert (wd, p) (entries ws)"
    using fill_slot [OF w(1) j wd(1) _ p] wd(2) w(2) by auto
  moreover have "addWatchToCache wd p d = ret (j, d\<lparr>wlCache := ws[j := \<lparr>w_wd = wd, w_path = p\<rparr>]\<rparr>)"
    using p f by (simp add: addWatchToCache_def)
  ultimately show ?thesis using w(2) by blast
qed


subsection \<open>The contract of the cache towards the walk\<close>

text \<open>
  The walk of a tree offers descriptors to the cache, which must add the new ones and ignore the known ones. That is all the walk relies on.
\<close>

fun fold_e :: "('a \<Rightarrow> 's \<Rightarrow> 's dres) \<Rightarrow> 'a list \<Rightarrow> 's \<Rightarrow> 's dres" where
  "fold_e f [] s = ret s"
| "fold_e f (x # xs) s = bind_e (f x s) (\<lambda>s1. fold_e f xs s1)"

locale path_cache =
  fixes ok :: "'s \<Rightarrow> bool"
    and ents :: "'s \<Rightarrow> (int \<times> string) set"
    and add :: "int \<Rightarrow> string \<Rightarrow> 's \<Rightarrow> 's dres"
    and keeps :: "'s \<Rightarrow> 's \<Rightarrow> bool"
  assumes keeps_refl: "keeps s s"
    and keeps_trans: "keeps s s1 \<Longrightarrow> keeps s1 s2 \<Longrightarrow> keeps s s2"
    and add_absent: "ok s \<Longrightarrow> 0 \<le> wd \<Longrightarrow> wd \<notin> fst ` ents s \<Longrightarrow> length p < PATH_MAX \<Longrightarrow>
      \<exists>s1. add wd p s = ret s1 \<and> ok s1 \<and> ents s1 = insert (wd, p) (ents s) \<and> keeps s s1"
    and add_present: "ok s \<Longrightarrow> 0 \<le> wd \<Longrightarrow> wd \<in> fst ` ents s \<Longrightarrow> add wd p s = ret s"
begin

text \<open>The descriptors offered are those of a file system \<open>fs\<close>, and the cache is not wrong about any of them.\<close>

lemma add_sound:
  assumes "ok s" "0 \<le> wd" "length p < PATH_MAX" "\<forall>q. (wd, q) \<in> ents s \<longrightarrow> q = p"
  shows "\<exists>s1. add wd p s = ret s1 \<and> ok s1 \<and> ents s1 = insert (wd, p) (ents s) \<and> keeps s s1"
proof (cases "wd \<in> fst ` ents s")
  case True
  then have "insert (wd, p) (ents s) = ents s" using assms(4) by force
  then show ?thesis using add_present [OF assms(1,2) True] assms(1) keeps_refl by metis
qed (use assms add_absent in blast)

lemma walk_adds:
  assumes "ok s" and "\<forall>p\<in>set ps. fs p \<noteq> None" and inj: "inj_on fs (dom fs)"
    and "\<forall>p wd. fs p = Some wd \<longrightarrow> 0 \<le> wd \<and> length p < PATH_MAX" and "\<forall>(wd, q)\<in>ents s. wd \<in> ran fs \<longrightarrow> fs q = Some wd"
  shows "\<exists>s1. fold_e (\<lambda>p. add (the (fs p)) p) ps s = ret s1 \<and> ok s1 \<and> ents s1 = ents s \<union> {(wd, p). p \<in> set ps \<and> fs p = Some wd} \<and> keeps s s1"
  using assms
proof (induction ps arbitrary: s)
  case (Cons p ps)
  then obtain wd where wd: "fs p = Some wd" by auto
  have "\<forall>q. (wd, q) \<in> ents s \<longrightarrow> q = p"
  proof (intro allI impI)
    fix q assume "(wd, q) \<in> ents s"
    then have "fs q = Some wd" using Cons.prems(5) wd ranI by fastforce
    then show "q = p" using inj wd by (metis domI inj_onD)
  qed
  then obtain s1 where s1: "add wd p s = ret s1" "ok s1" "ents s1 = insert (wd, p) (ents s)" "keeps s s1"
    using add_sound Cons.prems(1,4) wd by metis
  then obtain s2 where "fold_e (\<lambda>p. add (the (fs p)) p) ps s1 = ret s2" "ok s2"
      "ents s2 = ents s1 \<union> {(wd, p). p \<in> set ps \<and> fs p = Some wd}" "keeps s1 s2"
    using Cons.IH [OF s1(2)] Cons.prems wd by (auto simp: s1(3))
  then show ?case using s1 wd keeps_trans by auto
qed (use keeps_refl in auto)

end

interpretation wl: path_cache "\<lambda>d. slots_ok (wlCache d)" "\<lambda>d. entries (wlCache d)" cacheNewWatch same_setup
proof unfold_locales
  fix s :: dtree and wd and p :: string assume a: "slots_ok (wlCache s)" "0 \<le> wd" "wd \<notin> fst ` entries (wlCache s)" "length p < PATH_MAX"
  then obtain slot ws where "addWatchToCache wd p (s\<lparr>dirCnt := dirCnt s + 1\<rparr>) = ret (slot, s\<lparr>dirCnt := dirCnt s + 1, wlCache := ws\<rparr>)"
      "slots_ok ws" "entries ws = insert (wd, p) (entries (wlCache s))"
    using addWatchToCache_entry [of "s\<lparr>dirCnt := dirCnt s + 1\<rparr>" wd p] by auto
  moreover have "findWatch wd s = None" using findWatch_None a by blast
  ultimately show "\<exists>s1. cacheNewWatch wd p s = ret s1 \<and> slots_ok (wlCache s1) \<and> entries (wlCache s1) = insert (wd, p) (entries (wlCache s)) \<and> same_setup s s1"
    by (simp add: cacheNewWatch_def)
qed (auto simp: cacheNewWatch_def findWatch_None intro: same_setup_trans)

subsection \<open>Walking a tree\<close>

text \<open>
  A file system as the monitor sees it: its directories with the descriptor that \<^verbatim>\<open>inotify_add_watch\<close> returns for each. The system is consistent with it when
  \<^verbatim>\<open>inotify_add_watch\<close> returns that descriptor, fails with \<^verbatim>\<open>ENOENT\<close> for other pathnames, and \<^verbatim>\<open>nftw\<close> visits the directories at and below a pathname.
\<close>

type_synonym dirs = "string \<rightharpoonup> int"

definition dirs_ok :: "dirs \<Rightarrow> bool" where
  "dirs_ok fs \<longleftrightarrow> inj_on fs (dom fs) \<and> (\<forall>p wd. fs p = Some wd \<longrightarrow> 0 \<le> wd \<and> length p < PATH_MAX)"

definition below :: "dirs \<Rightarrow> string \<Rightarrow> (int \<times> string) set" where
  "below fs q = {(wd, p). q \<in> dom fs \<and> path_match q p \<and> fs p = Some wd}"

definition walked :: "(string \<times> bool) list option \<Rightarrow> string list" where
  "walked r = map fst (filter snd (case r of None \<Rightarrow> [] | Some es \<Rightarrow> es))"

definition os_of :: "dirs \<Rightarrow> os \<Rightarrow> bool" where
  "os_of fs os \<longleftrightarrow> os_init os \<and> (\<forall>p. os_add os p = (case fs p of Some wd \<Rightarrow> Inr wd | None \<Rightarrow> Inl ENOENT)) \<and>
     (\<forall>q. set (walked (os_walk os q)) = {p. q \<in> dom fs \<and> path_match q p \<and> p \<in> dom fs})"

lemma nftw_loop_fold:
  assumes "os_of fs os" and "\<forall>p\<in>set (walked (Some es)). fs p \<noteq> None"
  shows "nftw_loop os es d = fold_e (\<lambda>p. cacheNewWatch (the (fs p)) p) (walked (Some es)) d"
  using assms(2)
proof (induction es arbitrary: d)
  case (Cons e es)
  obtain p b where e: "e = (p, b)" by force
  have ih: "nftw_loop os es d1 = fold_e (\<lambda>p. cacheNewWatch (the (fs p)) p) (walked (Some es)) d1" for d1
    using Cons by (auto simp: walked_def)
  show ?case
  proof (cases b)
    case True
    then obtain wd where "fs p = Some wd" using Cons.prems e by (auto simp: walked_def)
    moreover have "nftw_loop os es = fold_e (\<lambda>p. cacheNewWatch (the (fs p)) p) (walked (Some es))" using ih by blast
    ultimately show ?thesis using assms(1) e True by (simp add: walked_def traverseTree_def os_of_def)
  qed (use ih e in \<open>simp add: walked_def traverseTree_def\<close>)
qed (simp add: walked_def)

lemma watchSubtree_adds:
  assumes "os_of fs os" and fs: "dirs_ok fs" and "slots_ok (wlCache d)" and "\<forall>(wd, q)\<in>entries (wlCache d). wd \<in> ran fs \<longrightarrow> fs q = Some wd"
  shows "\<exists>d1. watchSubtree os q d = ret d1 \<and> slots_ok (wlCache d1) \<and> entries (wlCache d1) = entries (wlCache d) \<union> below fs q \<and> same_setup d d1"
proof -
  define d0 where "d0 = d\<lparr>dirCnt := 0\<rparr>"
  define ps where "ps = walked (os_walk os q)"
  have ps: "set ps = {p. q \<in> dom fs \<and> path_match q p \<and> p \<in> dom fs}" using assms(1) unfolding os_of_def ps_def by blast
  have loop: "(case os_walk os q of None \<Rightarrow> ret d0 | Some es \<Rightarrow> nftw_loop os es d0) = fold_e (\<lambda>p. cacheNewWatch (the (fs p)) p) ps d0"
  proof (cases "os_walk os q")
    case None
    then show ?thesis by (simp add: ps_def walked_def)
  next
    case (Some es)
    then show ?thesis using nftw_loop_fold [OF assms(1), of es] ps by (auto simp: ps_def)
  qed
  obtain d1 where "fold_e (\<lambda>p. cacheNewWatch (the (fs p)) p) ps d0 = ret d1" "slots_ok (wlCache d1)"
      "entries (wlCache d1) = entries (wlCache d0) \<union> {(wd, p). p \<in> set ps \<and> fs p = Some wd}" "same_setup d0 d1"
    using wl.walk_adds [of d0 ps fs] assms(3,4) fs ps unfolding dirs_ok_def d0_def by auto
  moreover have "{(wd, p). p \<in> set ps \<and> fs p = Some wd} = below fs q" using ps by (auto simp: below_def)
  ultimately show ?thesis
    unfolding watchSubtree_def watchDir_def d0_def [symmetric] Let_def loop
    using same_setup_trans [of d d0 d1] by (simp add: d0_def)
qed


subsection \<open>Removing and renaming\<close>

lemma zap_loop_removes:
  assumes "\<forall>(wd, p)\<in>entries ws. path_match pn p \<longrightarrow> os_rm os wd" and "slots_ok ws"
  shows "\<exists>ws1 cnt. zap_loop os pn ws = (ws1, cnt) \<and> 0 \<le> cnt \<and> slots_ok ws1 \<and> entries ws1 = {(wd, p) \<in> entries ws. \<not> path_match pn p}"
  using assms
proof (induction ws)
  case (Cons w ws)
  then obtain ws1 cnt where ih: "zap_loop os pn ws = (ws1, cnt)" "0 \<le> cnt" "slots_ok ws1" "entries ws1 = {(wd, p) \<in> entries ws. \<not> path_match pn p}"
    by (auto simp: slots_ok_Cons split: if_splits)
  have n: "fst ` entries ws1 \<subseteq> fst ` entries ws" unfolding ih(4) by force
  have sl: "slots_ok (w # ws1)" and se: "slots_ok (empty_slot # ws1)"
    using Cons.prems(2) ih(3) n unfolding slots_ok_Cons by (auto simp only: empty_slot_simps list.size PATH_MAX_pos split: if_splits)
  consider "0 \<le> w_wd w" "path_match pn (w_path w)" "os_rm os (w_wd w)" | "w_wd w < 0" | "0 \<le> w_wd w" "\<not> path_match pn (w_path w)"
    using Cons.prems(1) by (cases "0 \<le> w_wd w"; cases "path_match pn (w_path w)") auto
  then show ?case
    by cases (use ih sl se in \<open>auto split: if_splits\<close>)
qed simp

lemma zapSubtree_removes:
  assumes "\<forall>(wd, p)\<in>entries (wlCache d). path_match pn p \<longrightarrow> os_rm os wd" and "slots_ok (wlCache d)"
  shows "\<exists>ws cnt. zapSubtree os pn d = (cnt, d\<lparr>wlCache := ws\<rparr>) \<and> cnt \<noteq> -1 \<and> slots_ok ws \<and> entries ws = {(wd, p) \<in> entries (wlCache d). \<not> path_match pn p}"
proof -
  obtain ws cnt where "zap_loop os pn (wlCache d) = (ws, cnt)" "0 \<le> cnt" "slots_ok ws" "entries ws = {(wd, p) \<in> entries (wlCache d). \<not> path_match pn p}"
    using zap_loop_removes [OF assms] by blast
  then show ?thesis by (auto simp: zapSubtree_def)
qed

definition move_path :: "string \<Rightarrow> string \<Rightarrow> string \<Rightarrow> string" where
  "move_path old new p = (if path_match old p then new @ drop (length old) p else p)"

lemma rewrite_slot_moves:
  "length (move_path old new (w_path w)) < PATH_MAX \<Longrightarrow> rewrite_slot old new w = w\<lparr>w_path := move_path old new (w_path w)\<rparr>"
  by (cases w) (auto simp: rewrite_slot_def move_path_def)

lemma rewrite_map_moves:
  assumes "old \<noteq> []" and "slots_ok ws" and "\<forall>(wd, p)\<in>entries ws. length (move_path old new p) < PATH_MAX"
  shows "slots_ok (map (rewrite_slot old new) ws) \<and> entries (map (rewrite_slot old new) ws) = (\<lambda>(wd, p). (wd, move_path old new p)) ` entries ws"
  using assms
proof (induction ws)
  case (Cons w ws)
  then have ih: "slots_ok (map (rewrite_slot old new) ws)" "entries (map (rewrite_slot old new) ws) = (\<lambda>(wd, p). (wd, move_path old new p)) ` entries ws"
    by (auto simp: slots_ok_Cons split: if_splits)
  have f: "fst ` (\<lambda>(wd, p). (wd, move_path old new p)) ` entries ws = fst ` entries ws" by force
  show ?case
  proof (cases "0 \<le> w_wd w")
    case True
    then have "rewrite_slot old new w = w\<lparr>w_path := move_path old new (w_path w)\<rparr>" "length (move_path old new (w_path w)) < PATH_MAX"
      using Cons.prems(3) rewrite_slot_moves by auto
    then show ?thesis using ih True Cons.prems(2) f by (auto simp: slots_ok_Cons)
  next
    case False
    then have "w = empty_slot" using Cons.prems(2) by (simp add: slots_ok_Cons)
    moreover have "rewrite_slot old new empty_slot = empty_slot" using assms(1) by (simp add: rewrite_slot_def path_match_iff)
    ultimately show ?thesis using ih by (simp add: slots_ok_Cons)
  qed
qed simp

subsection \<open>Building the cache anew\<close>

definition graph_of :: "dirs \<Rightarrow> (int \<times> string) set" where
  "graph_of fs = {(wd, p). fs p = Some wd}"

lemma watch_roots_adds:
  assumes "os_of fs os" and "dirs_ok fs" and "slots_ok (wlCache d)" and "\<forall>(wd, q)\<in>entries (wlCache d). wd \<in> ran fs \<longrightarrow> fs q = Some wd"
  shows "\<exists>d1. watch_roots os rs d = ret d1 \<and> slots_ok (wlCache d1) \<and> entries (wlCache d1) = entries (wlCache d) \<union> (\<Union>r\<in>{r. Some r \<in> set rs}. below fs r) \<and> same_setup d d1"
  using assms(3,4)
proof (induction rs arbitrary: d)
  case (Cons r rs)
  show ?case
  proof (cases r)
    case None
    then show ?thesis using Cons by simp
  next
    case (Some q)
    obtain d1 where d1: "watchSubtree os q d = ret d1" "slots_ok (wlCache d1)" "entries (wlCache d1) = entries (wlCache d) \<union> below fs q" "same_setup d d1"
      using watchSubtree_adds [OF assms(1,2) Cons.prems] by blast
    have "\<forall>(wd, x)\<in>entries (wlCache d1). wd \<in> ran fs \<longrightarrow> fs x = Some wd" using Cons.prems(2) d1(3) by (auto simp: below_def)
    then obtain d2 where d2: "watch_roots os rs d1 = ret d2" "slots_ok (wlCache d2)"
        "entries (wlCache d2) = entries (wlCache d1) \<union> (\<Union>r\<in>{r. Some r \<in> set rs}. below fs r)" "same_setup d1 d2"
      using Cons.IH [OF d1(2)] by blast
    have "{q'. Some q' \<in> set (r # rs)} = insert q {r. Some r \<in> set rs}" using Some by auto
    then show ?thesis using d1 d2 Some same_setup_trans [OF d1(4) d2(4)] by (auto simp: Un_assoc)
  qed
qed simp

definition covers :: "string set \<Rightarrow> dirs \<Rightarrow> bool" where
  "covers roots fs \<longleftrightarrow> roots \<subseteq> dom fs \<and> (\<forall>p\<in>dom fs. \<exists>r\<in>roots. path_match r p)"

lemma reinitialize_builds:
  assumes "os_of fs os" and "dirs_ok fs" and "covers roots fs" and r: "{r. Some r \<in> set (rootDirPaths d)} = roots"
  shows "\<exists>d1. reinitialize os d = ret d1 \<and> slots_ok (wlCache d1) \<and> entries (wlCache d1) = graph_of fs \<and> same_setup d d1"
proof -
  have "graph_of fs \<subseteq> (\<Union>r\<in>roots. below fs r)"
  proof
    fix x assume "x \<in> graph_of fs"
    then obtain wd p where x: "x = (wd, p)" "fs p = Some wd" by (auto simp: graph_of_def)
    then obtain r where "r \<in> roots" "path_match r p" "r \<in> dom fs" using assms(3) unfolding covers_def by blast
    then show "x \<in> (\<Union>r\<in>roots. below fs r)" using x unfolding below_def by blast
  qed
  then have "(\<Union>r\<in>roots. below fs r) = graph_of fs" by (auto simp: below_def graph_of_def)
  then obtain d1 where "watch_roots os (rootDirPaths d) (freeCache d) = ret d1" "slots_ok (wlCache d1)" "entries (wlCache d1) = graph_of fs" "same_setup (freeCache d) d1"
    using watch_roots_adds [OF assms(1,2), of "freeCache d" "rootDirPaths d"] r by (auto simp: freeCache_def)
  moreover have "same_setup d (freeCache d)" by (simp add: freeCache_def)
  moreover have "os_init os" using assms(1) by (simp add: os_of_def)
  ultimately show ?thesis using same_setup_trans unfolding reinitialize_def by auto
qed

end
