(* ===== verification/Dtree_Track.thy ===== *)
theory Dtree_Track
  imports Dtree_Cache
begin

section \<open>The cache follows the file system\<close>

text \<open>
  The file system and the monitor as two processes with the queue of events between them. Directories and whole subtrees appear and empty directories vanish at any time, also
  while events about earlier changes are still in the queue; the system reports a change only if the directory it happens in is watched at that moment. Renames within the
  trees and out of them happen while the queue is empty and are handled at once, which is the case the program is written for. When events are lost, the cache is built anew.
  The invariant says which differences between the cache and the file system may exist and that the queue holds the events which will remove them.
\<close>

subsection \<open>Events that wait in the queue\<close>

text \<open>
  A directory has appeared in the directory with the descriptor, by creation or, with a cookie, by a rename from elsewhere; something happened to a file; a watched directory was removed;
  a watch was removed.
\<close>

datatype kevent = Arrived "nat option" int string | FileEvent ev_flag nat int string | Gone int | Ignored int

fun ev_of :: "kevent \<Rightarrow> inotify_event" where
  "ev_of (Arrived c w n) = \<lparr>ev_wd = w, ev_mask = [if c = None then IN_CREATE else IN_MOVED_TO, IN_ISDIR], ev_cookie = (case c of None \<Rightarrow> 0 | Some k \<Rightarrow> k), ev_name = n\<rparr>"
| "ev_of (FileEvent f c w n) = \<lparr>ev_wd = w, ev_mask = [f], ev_cookie = c, ev_name = n\<rparr>"
| "ev_of (Gone w) = \<lparr>ev_wd = w, ev_mask = [IN_DELETE_SELF], ev_cookie = 0, ev_name = []\<rparr>"
| "ev_of (Ignored w) = \<lparr>ev_wd = w, ev_mask = [IN_IGNORED], ev_cookie = 0, ev_name = []\<rparr>"

lemma ev_of_facts:
  "ev_wd (ev_of (Arrived c w n)) = w" "\<not> has (ev_of (Arrived c w n)) IN_IGNORED" "ev_wd (ev_of (Gone w)) = w" "\<not> has (ev_of (Gone w)) IN_IGNORED"
  by auto

definition gone :: "kevent list \<Rightarrow> int set" where
  "gone qs = {w. Gone w \<in> set qs}"

lemma gone_simps [simp]:
  "gone [] = {}" "gone (Gone w # qs) = insert w (gone qs)" "gone (Arrived c w n # qs) = gone qs" "gone (FileEvent f k w n # qs) = gone qs"
  "gone (Ignored w # qs) = gone qs" "gone (qs @ qs') = gone qs \<union> gone qs'"
  by (auto simp: gone_def)

definition drop_wd :: "int \<Rightarrow> (int \<times> string) set \<Rightarrow> (int \<times> string) set" where
  "drop_wd w E = {(x, p) \<in> E. x \<noteq> w}"

lemma drop_wd_Un [simp]: "drop_wd w (E \<union> B) = drop_wd w E \<union> drop_wd w B"
  by (auto simp: drop_wd_def)

lemma drop_wd_iff [simp]: "(x, p) \<in> drop_wd w E \<longleftrightarrow> (x, p) \<in> E \<and> x \<noteq> w"
  by (auto simp: drop_wd_def)

text \<open>Every event refers to a descriptor that is in the cache when its turn comes.\<close>

fun q_ok :: "string set \<Rightarrow> (int \<times> string) set \<Rightarrow> kevent list \<Rightarrow> bool" where
  "q_ok roots E [] \<longleftrightarrow> True"
| "q_ok roots E (Arrived c w n # qs) \<longleftrightarrow> (\<exists>par. (w, par) \<in> E \<and> length (par @ CHR ''/'' # n) < PATH_MAX) \<and> q_ok roots E qs"
| "q_ok roots E (FileEvent f c w n # qs) \<longleftrightarrow> f \<in> {IN_CREATE, IN_MOVED_FROM, IN_MOVED_TO} \<and> w \<in> fst ` E \<and> q_ok roots E qs"
| "q_ok roots E (Gone w # qs) \<longleftrightarrow> (\<exists>p. (w, p) \<in> E \<and> p \<notin> roots) \<and> q_ok roots (drop_wd w E) qs"
| "q_ok roots E (Ignored w # qs) \<longleftrightarrow> q_ok roots E qs"

text \<open>The queue holds an event that announces \<open>q\<close>, and when its turn comes no entry for \<open>q\<close> is left in the cache.\<close>

fun pending :: "(int \<times> string) set \<Rightarrow> string \<Rightarrow> kevent list \<Rightarrow> bool" where
  "pending E q [] \<longleftrightarrow> False"
| "pending E q (Arrived c w n # qs) \<longleftrightarrow> ((\<exists>par. (w, par) \<in> E \<and> q = par @ CHR ''/'' # n) \<and> q \<notin> snd ` E) \<or> pending E q qs"
| "pending E q (FileEvent f c w n # qs) \<longleftrightarrow> pending E q qs"
| "pending E q (Gone w # qs) \<longleftrightarrow> pending (drop_wd w E) q qs"
| "pending E q (Ignored w # qs) \<longleftrightarrow> pending E q qs"

lemma q_ok_mono: "q_ok roots E qs \<Longrightarrow> q_ok roots (E \<union> B) qs"
  by (induction roots E qs arbitrary: B rule: q_ok.induct) auto

lemma q_ok_append: "q_ok roots E (qs @ qs') \<longleftrightarrow> q_ok roots E qs \<and> q_ok roots {(x, p) \<in> E. x \<notin> gone qs} qs'"
proof (induction roots E qs rule: q_ok.induct)
  case (4 roots E w qs)
  have "{(x, p) \<in> drop_wd w E. x \<notin> gone qs} = {(x, p) \<in> E. x \<notin> gone (Gone w # qs)}" by auto
  then show ?case using 4 by simp
qed auto

lemma pending_mono: "pending E q qs \<Longrightarrow> q \<notin> snd ` B \<Longrightarrow> pending (E \<union> B) q qs"
proof (induction E q qs arbitrary: B rule: pending.induct)
  case (4 E q w qs)
  then have "q \<notin> snd ` drop_wd w B" by (force simp: drop_wd_def)
  then show ?case using 4 by simp
qed auto

lemma pending_append: "pending E q qs \<Longrightarrow> pending E q (qs @ qs')"
  by (induction E q qs rule: pending.induct) auto

lemma pending_new:
  "(w, par) \<in> E \<Longrightarrow> w \<notin> gone qs \<Longrightarrow> (\<forall>x. (x, par @ CHR ''/'' # n) \<in> E \<longrightarrow> x \<in> gone qs) \<Longrightarrow> pending E (par @ CHR ''/'' # n) (qs @ [Arrived c w n])"
  by (induction E "par @ CHR ''/'' # n" qs rule: pending.induct) force+

subsection \<open>The invariant between the cache and the file system\<close>

definition mirror :: "string set \<Rightarrow> dirs \<Rightarrow> (int \<times> string) set \<Rightarrow> kevent list \<Rightarrow> bool" where
  "mirror roots fs E qs \<longleftrightarrow> q_ok roots E qs \<and> gone qs \<inter> ran fs = {} \<and> (\<forall>(w, p)\<in>E. fs p = Some w \<or> w \<in> gone qs) \<and>
     (\<forall>p w. fs p = Some w \<and> (w, p) \<notin> E \<longrightarrow> (\<exists>q\<in>dom fs. path_match q p \<and> pending E q qs))"

lemma mirrorI:
  assumes "q_ok roots E qs" "gone qs \<inter> ran fs = {}" "\<And>w p. (w, p) \<in> E \<Longrightarrow> fs p = Some w \<or> w \<in> gone qs"
    "\<And>p w. fs p = Some w \<Longrightarrow> (w, p) \<notin> E \<Longrightarrow> \<exists>q\<in>dom fs. path_match q p \<and> pending E q qs"
  shows "mirror roots fs E qs"
  using assms unfolding mirror_def by auto

lemma mirror_quiet: "mirror roots fs E [] \<longleftrightarrow> E = graph_of fs"
  by (auto simp: mirror_def graph_of_def)

lemma mirror_sound: "mirror roots fs E qs \<Longrightarrow> (w, p) \<in> E \<Longrightarrow> w \<in> ran fs \<Longrightarrow> fs p = Some w"
  unfolding mirror_def by blast

text \<open>The entries after an event was handled.\<close>

fun handled :: "dirs \<Rightarrow> kevent \<Rightarrow> (int \<times> string) set \<Rightarrow> (int \<times> string) set" where
  "handled fs (Arrived c w n) E = E \<union> (\<Union>q\<in>{par @ CHR ''/'' # n | par. (w, par) \<in> E} - snd ` E. below fs q)"
| "handled fs (FileEvent f c w n) E = E"
| "handled fs (Gone w) E = drop_wd w E"
| "handled fs (Ignored w) E = E"

lemma below_closed: "(x, q) \<in> below fs r \<Longrightarrow> path_match q p \<Longrightarrow> fs p = Some y \<Longrightarrow> (y, p) \<in> below fs r"
  by (auto simp: below_def intro: path_match_trans)

lemma mirror_arrived:
  assumes m: "mirror roots fs E (Arrived c w n # qs)" and u: "\<forall>p q. (w, p) \<in> E \<longrightarrow> (w, q) \<in> E \<longrightarrow> p = q"
  shows "mirror roots fs (handled fs (Arrived c w n) E) qs"
proof -
  obtain par where par: "(w, par) \<in> E" using m by (auto simp: mirror_def)
  define q0 where "q0 = par @ CHR ''/'' # n"
  have s: "{par @ CHR ''/'' # n | par. (w, par) \<in> E} = {q0}" using par u by (auto simp: q0_def)
  define B where "B = (if q0 \<in> snd ` E then {} else below fs q0)"
  have h: "handled fs (Arrived c w n) E = E \<union> B" unfolding handled.simps s B_def by (simp add: insert_Diff_if)
  have cover: "\<exists>q\<in>dom fs. path_match q p \<and> pending (E \<union> B) q qs" if p: "fs p = Some x" "(x, p) \<notin> E \<union> B" for p x
  proof -
    obtain q where q: "q \<in> dom fs" "path_match q p" "pending E q (Arrived c w n # qs)" using m p unfolding mirror_def by blast
    have nq: "q \<notin> snd ` B" using p q(2) below_closed unfolding B_def by (auto split: if_splits)
    have "\<not> (q = q0 \<and> q \<notin> snd ` E)" using p q(1,2) by (auto simp: B_def below_def split: if_splits)
    moreover have "q = q0" if "(w, par') \<in> E" "q = par' @ CHR ''/'' # n" for par' using that par u by (auto simp: q0_def)
    ultimately have "pending E q qs" using q(3) by auto
    then show ?thesis using q pending_mono [OF _ nq] by blast
  qed
  have "\<forall>(w, p)\<in>B. fs p = Some w" by (auto simp: B_def below_def)
  then show ?thesis using m cover q_ok_mono [of roots E qs B] unfolding h mirror_def by auto
qed

lemma mirror_handled:
  assumes m: "mirror roots fs E (k # qs)" and u: "\<forall>w p q. (w, p) \<in> E \<longrightarrow> (w, q) \<in> E \<longrightarrow> p = q"
  shows "mirror roots fs (handled fs k E) qs"
proof (cases k)
  case (Arrived c w n)
  then show ?thesis using mirror_arrived m u by blast
next
  case (Gone w)
  have "\<exists>q\<in>dom fs. path_match q p \<and> pending (drop_wd w E) q qs" if p: "fs p = Some x" "(x, p) \<notin> drop_wd w E" for p x
  proof -
    have "x \<noteq> w" using m p Gone by (auto simp: mirror_def ran_def)
    then show ?thesis using m p Gone unfolding mirror_def by fastforce
  qed
  then show ?thesis using m Gone unfolding mirror_def by auto
qed (use m in \<open>auto simp: mirror_def\<close>)

lemma mirror_arrives:
  assumes m: "mirror roots fs E qs" and par: "fs par = Some w" and q: "q = par @ CHR ''/'' # n" and len: "length q < PATH_MAX"
    and sub: "q \<in> dom sub" "\<forall>p\<in>dom sub. path_match q p" and new: "\<forall>p\<in>dom fs. \<not> path_match q p" and fresh: "ran sub \<inter> fst ` E = {}"
  shows "mirror roots (fs ++ sub) E (qs @ (if (w, par) \<in> E then [Arrived c w n] else []))"
proof -
  let ?qs = "qs @ (if (w, par) \<in> E then [Arrived c w n] else [])"
  have dj: "dom fs \<inter> dom sub = {}" using sub new by blast
  then have rn: "ran (fs ++ sub) = ran fs \<union> ran sub" by (rule ran_map_add)
  have g: "gone ?qs = gone qs" by simp
  have wg: "w \<notin> gone qs" using m par unfolding mirror_def by (auto simp: ran_def)
  have gE: "gone qs \<subseteq> fst ` E"
  proof -
    have "q_ok roots E qs \<Longrightarrow> gone qs \<subseteq> fst ` E"
      by (induction roots E qs rule: q_ok.induct) (force simp: drop_wd_def)+
    then show ?thesis using m by (simp add: mirror_def)
  qed
  have "q_ok roots E ?qs" using m wg len q by (auto simp: mirror_def q_ok_append)
  moreover have "gone ?qs \<inter> ran (fs ++ sub) = {}" using m gE fresh unfolding g rn mirror_def by blast
  moreover have "(fs ++ sub) p = Some x \<or> x \<in> gone ?qs" if "(x, p) \<in> E" for x p
    using m that dj unfolding g mirror_def by (fastforce simp: map_add_def split: option.splits)
  moreover have "\<exists>q\<in>dom (fs ++ sub). path_match q p \<and> pending E q ?qs" if p: "(fs ++ sub) p = Some x" "(x, p) \<notin> E" for p x
  proof (cases "p \<in> dom sub")
    case False
    then have "fs p = Some x" using p by (auto simp: map_add_def split: option.splits)
    then show ?thesis using m p pending_append unfolding mirror_def by fastforce
  next
    case True
    then have qp: "path_match q p" using sub by blast
    show ?thesis
    proof (cases "(w, par) \<in> E")
      case True
      have "q \<notin> dom fs" using new path_match_refl by blast
      then have "\<forall>x. (x, q) \<in> E \<longrightarrow> x \<in> gone qs" using m unfolding mirror_def by blast
      then have "pending E q ?qs" using pending_new [OF True wg] True q by simp
      then show ?thesis using qp sub(1) by auto
    next
      case False
      then obtain r where r: "r \<in> dom fs" "path_match r par" "pending E r qs" using m par unfolding mirror_def by blast
      then have "path_match r p" using path_match_trans qp q path_match_child by metis
      then show ?thesis using r False by auto
    qed
  qed
  ultimately show ?thesis by (rule mirrorI)
qed

lemma mirror_vanishes:
  assumes m: "mirror roots fs E qs" and p: "fs p0 = Some w0" "p0 \<notin> roots" and leaf: "\<forall>p\<in>dom fs. path_match p0 p \<longrightarrow> p = p0" and inj: "inj_on fs (dom fs)"
  shows "mirror roots (fs(p0 := None)) E (qs @ (if (w0, p0) \<in> E then [Gone w0, Ignored w0] else []))"
proof -
  let ?qs = "qs @ (if (w0, p0) \<in> E then [Gone w0, Ignored w0] else [])"
  have wr: "w0 \<notin> ran (fs(p0 := None))" using inj p(1) by (auto simp: ran_def split: if_splits) (metis domI inj_onD)
  have rs: "ran (fs(p0 := None)) \<subseteq> ran fs" by (auto simp: ran_def split: if_splits)
  have wg: "w0 \<notin> gone qs" using m p unfolding mirror_def by (auto simp: ran_def)
  have "q_ok roots E ?qs" using m wg p(2) by (auto simp: mirror_def q_ok_append)
  moreover have "gone ?qs \<inter> ran (fs(p0 := None)) = {}" using m wr rs unfolding mirror_def by auto
  moreover have "(fs(p0 := None)) p = Some x \<or> x \<in> gone ?qs" if e: "(x, p) \<in> E" for x p
  proof (cases "p = p0")
    case True
    then have "x = w0 \<or> x \<in> gone qs" using m e p(1) unfolding mirror_def by auto
    then show ?thesis using True e by auto
  next
    case False
    then show ?thesis using m e unfolding mirror_def by auto
  qed
  moreover have "\<exists>q\<in>dom (fs(p0 := None)). path_match q p \<and> pending E q ?qs" if x: "(fs(p0 := None)) p = Some x" "(x, p) \<notin> E" for p x
  proof -
    have f: "fs p = Some x" "p \<noteq> p0" using x by (auto split: if_splits)
    then obtain q where q: "q \<in> dom fs" "path_match q p" "pending E q qs" using m x unfolding mirror_def by blast
    then have "q \<noteq> p0" using leaf f by blast
    then show ?thesis using q pending_append by (metis domIff fun_upd_apply)
  qed
  ultimately show ?thesis by (rule mirrorI)
qed


subsection \<open>Handling one event\<close>

definition setup_ok :: "string set \<Rightarrow> dtree \<Rightarrow> bool" where
  "setup_ok roots d \<longleftrightarrow> {r. Some r \<in> set (rootDirPaths d)} = roots \<and> \<not> checkCache d \<and> (dumpCache d \<longrightarrow> logfp d)"

lemma setup_ok_same: "setup_ok roots d \<Longrightarrow> same_setup d d' \<Longrightarrow> setup_ok roots d'"
  by (simp add: same_setup_fields setup_ok_def)

lemma after_event_quiet: "setup_ok roots d \<Longrightarrow> after_event os ov (c, d) = ret (c, d)"
  by (cases "dumpCache d") (simp_all add: after_event_def setup_ok_def dumpCacheToLog_def)

lemma isRootDirPath_iff: "isRootDirPath p d \<longleftrightarrow> Some p \<in> set (rootDirPaths d)"
proof -
  have "find_root p rs = None \<longleftrightarrow> Some p \<notin> set rs" for rs by (induction rs) auto
  then show ?thesis by (simp add: isRootDirPath_def findRootDirPath_def)
qed

lemma snprintf_path_fits: "length (dir @ CHR ''/'' # n) < k \<Longrightarrow> snprintf_path k dir n = dir @ CHR ''/'' # n"
  by (simp add: snprintf_path_def)

lemma entry_lookup:
  assumes "slots_ok (wlCache d)" "(w, p) \<in> entries (wlCache d)"
  shows "\<exists>j. findWatchChecked w d = ret (Some j) \<and> slot_path (Some j) d = ret p \<and> j < length (wlCache d) \<and> wlCache d ! j = \<lparr>w_wd = w, w_path = p\<rparr>"
proof -
  obtain j where j: "findWatch w d = Some j" "j < length (wlCache d)" "wlCache d ! j = \<lparr>w_wd = w, w_path = p\<rparr>" using findWatch_entry [OF assms] by blast
  then have "findWatchChecked w d = ret (Some j)" "slot_path (Some j) d = ret p" by (simp_all add: findWatchChecked_def slot_path_def)
  with j show ?thesis by blast
qed

lemma processNext_known:
  assumes "slots_ok (wlCache d)" "(w, p) \<in> entries (wlCache d)" "ev_wd ev = w" "\<not> has ev IN_IGNORED"
  shows "\<exists>j. slot_path (Some j) d = ret p \<and> j < length (wlCache d) \<and> wlCache d ! j = \<lparr>w_wd = w, w_path = p\<rparr> \<and>
    processNextInotifyEvent os ev rest ft d = bind_e (event_branch os ev rest ft (Some j) d) (after_event os (is_overflow ev))"
proof -
  have "w \<noteq> -1" using entries_nonneg [OF assms(2)] by simp
  moreover obtain j where j: "findWatchChecked w d = ret (Some j)" "slot_path (Some j) d = ret p" "j < length (wlCache d)" "wlCache d ! j = \<lparr>w_wd = w, w_path = p\<rparr>"
    using entry_lookup [OF assms(1,2)] by blast
  ultimately have "processNextInotifyEvent os ev rest ft d = bind_e (event_branch os ev rest ft (Some j) d) (after_event os (is_overflow ev))"
    using assms(3,4) by (simp add: processNextInotifyEvent_def)
  with j show ?thesis by blast
qed

lemma process_arrived:
  assumes "os_of fs os" "dirs_ok fs" and ok: "slots_ok (wlCache d)" "setup_ok roots d" and m: "mirror roots fs (entries (wlCache d)) (Arrived c w n # qs)"
  shows "\<exists>d1. processNextInotifyEvent os (ev_of (Arrived c w n)) rest ft d = ret (Events 1, d1) \<and> slots_ok (wlCache d1) \<and> same_setup d d1 \<and>
    entries (wlCache d1) = handled fs (Arrived c w n) (entries (wlCache d))"
proof -
  let ?E = "entries (wlCache d)"
  obtain par where par: "(w, par) \<in> ?E" "length (par @ CHR ''/'' # n) < PATH_MAX" using m by (auto simp: mirror_def)
  define q where "q = par @ CHR ''/'' # n"
  obtain j where j: "slot_path (Some j) d = ret par"
      "processNextInotifyEvent os (ev_of (Arrived c w n)) rest ft d =
         bind_e (event_branch os (ev_of (Arrived c w n)) rest ft (Some j) d) (after_event os (is_overflow (ev_of (Arrived c w n))))"
    using processNext_known [OF ok(1) par(1), of "ev_of (Arrived c w n)" os rest ft] ev_of_facts by blast
  have f: "snprintf_path (PATH_MAX + NAME_MAX) par n = q" using par(2) snprintf_path_fits [of par n "PATH_MAX + NAME_MAX"] by (simp add: q_def)
  have e: "event_branch os (ev_of (Arrived c w n)) rest ft (Some j) d =
      (if pathnameInCache q d then ret (Events 1, d) else bind_e (watchSubtree os q d) (\<lambda>d1. ret (Events 1, d1)))"
    using j(1) f by (simp add: event_branch_def)
  have s: "{par @ CHR ''/'' # n | par. (w, par) \<in> ?E} = {q}" using par(1) entries_wd_unique [OF ok(1)] by (auto simp: q_def)
  show ?thesis
  proof (cases "q \<in> snd ` ?E")
    case True
    then have "handled fs (Arrived c w n) ?E = ?E" unfolding handled.simps s by simp
    moreover have "pathnameInCache q d" using True pathnameInCache_iff by auto
    ultimately show ?thesis using j(2) e ok after_event_quiet by simp
  next
    case False
    then have "\<not> pathnameInCache q d" by (force simp: pathnameInCache_iff)
    moreover obtain d1 where d1: "watchSubtree os q d = ret d1" "slots_ok (wlCache d1)" "entries (wlCache d1) = ?E \<union> below fs q" "same_setup d d1"
      using watchSubtree_adds [OF assms(1,2) ok(1)] mirror_sound [OF m] by blast
    moreover have "handled fs (Arrived c w n) ?E = ?E \<union> below fs q" unfolding handled.simps s using False by (simp add: insert_Diff_if)
    ultimately show ?thesis using j(2) e after_event_quiet [OF setup_ok_same [OF ok(2) d1(4)]] by simp
  qed
qed

lemma process_gone:
  assumes ok: "slots_ok (wlCache d)" "setup_ok roots d" and m: "mirror roots fs (entries (wlCache d)) (Gone w # qs)"
  shows "\<exists>d1. processNextInotifyEvent os (ev_of (Gone w)) rest ft d = ret (Events 1, d1) \<and> slots_ok (wlCache d1) \<and> same_setup d d1 \<and>
    entries (wlCache d1) = handled fs (Gone w) (entries (wlCache d))"
proof -
  obtain p where p: "(w, p) \<in> entries (wlCache d)" "p \<notin> roots" using m by (auto simp: mirror_def)
  obtain j where j: "slot_path (Some j) d = ret p" "j < length (wlCache d)" "wlCache d ! j = \<lparr>w_wd = w, w_path = p\<rparr>"
      "processNextInotifyEvent os (ev_of (Gone w)) rest ft d =
         bind_e (event_branch os (ev_of (Gone w)) rest ft (Some j) d) (after_event os (is_overflow (ev_of (Gone w))))"
    using processNext_known [OF ok(1) p(1), of "ev_of (Gone w)" os rest ft] ev_of_facts by blast
  have "\<not> isRootDirPath p d" using p(2) ok(2) by (auto simp: isRootDirPath_iff setup_ok_def)
  then have "event_branch os (ev_of (Gone w)) rest ft (Some j) d = ret (Events 1, markCacheSlotEmpty j d)"
    using j by (simp add: event_branch_def mark_slot_def)
  moreover have "same_setup d (markCacheSlotEmpty j d)" by (simp add: markCacheSlotEmpty_def)
  moreover have "slots_ok (wlCache (markCacheSlotEmpty j d)) \<and> entries (wlCache (markCacheSlotEmpty j d)) = drop_wd w (entries (wlCache d))"
    using clear_slot [OF ok(1) j(2,3)] entries_nonneg [OF p(1)] by (simp add: markCacheSlotEmpty_def drop_wd_def)
  ultimately show ?thesis using j(4) after_event_quiet setup_ok_same [OF ok(2)] by (metis bind_ret handled.simps(3))
qed

lemma process_event:
  assumes "os_of fs os" "dirs_ok fs" and ok: "slots_ok (wlCache d)" "setup_ok roots d" and m: "mirror roots fs (entries (wlCache d)) (k # qs)"
  shows "\<exists>d1. processNextInotifyEvent os (ev_of k) rest ft d = ret (Events 1, d1) \<and> slots_ok (wlCache d1) \<and> same_setup d d1 \<and>
    entries (wlCache d1) = handled fs k (entries (wlCache d))"
proof (cases k)
  case (Arrived c w n)
  then show ?thesis using process_arrived assms by blast
next
  case (Gone w)
  then show ?thesis using process_gone assms by blast
next
  case (Ignored w)
  then show ?thesis using after_event_quiet [OF ok(2)] ok by (simp add: processNextInotifyEvent_def event_branch_def)
next
  case (FileEvent f c w n)
  then obtain p where p: "(w, p) \<in> entries (wlCache d)" and f: "f \<in> {IN_CREATE, IN_MOVED_FROM, IN_MOVED_TO}" using m by (auto simp: mirror_def)
  have "processNextInotifyEvent os (ev_of k) rest ft d = ret (Events 1, d)"
    using processNext_known [OF ok(1) p, of "ev_of k" os rest ft] FileEvent f after_event_quiet [OF ok(2)] by (auto simp: event_branch_def)
  then show ?thesis using ok FileEvent by simp
qed


subsection \<open>Renames\<close>

definition rename_dirs :: "string \<Rightarrow> string \<Rightarrow> dirs \<Rightarrow> dirs" where
  "rename_dirs old new fs = (\<lambda>p. if path_match new p then fs (old @ drop (length new) p) else if path_match old p then None else fs p)"

definition leave_dirs :: "string \<Rightarrow> dirs \<Rightarrow> dirs" where
  "leave_dirs old fs = (\<lambda>p. if path_match old p then None else fs p)"

lemma dirs_ok_graph:
  "dirs_ok fs \<longleftrightarrow> (\<forall>w p q. (w, p) \<in> graph_of fs \<longrightarrow> (w, q) \<in> graph_of fs \<longrightarrow> p = q) \<and> (\<forall>(w, p)\<in>graph_of fs. 0 \<le> w \<and> length p < PATH_MAX)"
proof -
  have "inj_on fs (dom fs) \<longleftrightarrow> (\<forall>w p q. fs p = Some w \<longrightarrow> fs q = Some w \<longrightarrow> p = q)"
    unfolding inj_on_def dom_def by (simp, metis not_None_eq)
  then show ?thesis unfolding dirs_ok_def graph_of_def split_beta by auto
qed

lemma path_match_swap: "path_match a p \<Longrightarrow> path_match b (b @ drop (length a) p)"
  by (auto simp: path_match_iff)

lemma rename_dirs_graph:
  assumes new: "\<forall>p\<in>dom fs. \<not> path_match new p"
  shows "graph_of (rename_dirs old new fs) = (\<lambda>(w, p). (w, move_path old new p)) ` graph_of fs"
proof (intro set_eqI iffI)
  fix x assume "x \<in> graph_of (rename_dirs old new fs)"
  then obtain w p where x: "x = (w, p)" "rename_dirs old new fs p = Some w" by (auto simp: graph_of_def)
  show "x \<in> (\<lambda>(w, p). (w, move_path old new p)) ` graph_of fs"
  proof (cases "path_match new p")
    case True
    then have "fs (old @ drop (length new) p) = Some w" using x by (simp add: rename_dirs_def)
    moreover have "move_path old new (old @ drop (length new) p) = p"
      using path_match_swap [OF True] path_match_drop [OF True] by (simp add: move_path_def)
    ultimately show ?thesis using x(1) by (force simp: graph_of_def)
  next
    case False
    then have "fs p = Some w" "move_path old new p = p" using x by (auto simp: rename_dirs_def move_path_def split: if_splits)
    then show ?thesis using x(1) by (force simp: graph_of_def)
  qed
next
  fix x assume "x \<in> (\<lambda>(w, p). (w, move_path old new p)) ` graph_of fs"
  then obtain w p where x: "x = (w, move_path old new p)" "fs p = Some w" by (auto simp: graph_of_def)
  have "rename_dirs old new fs (move_path old new p) = Some w"
  proof (cases "path_match old p")
    case True
    then show ?thesis using x(2) path_match_swap [OF True] path_match_drop [OF True] by (simp add: rename_dirs_def move_path_def)
  next
    case False
    then show ?thesis using x(2) new by (auto simp: rename_dirs_def move_path_def)
  qed
  then show "x \<in> graph_of (rename_dirs old new fs)" using x(1) by (simp add: graph_of_def)
qed

lemma rename_dirs_ok:
  assumes "dirs_ok fs" "\<forall>p\<in>dom fs. \<not> path_match new p" "\<forall>p\<in>dom fs. length (move_path old new p) < PATH_MAX"
  shows "dirs_ok (rename_dirs old new fs)"
  using assms(1,3) unfolding dirs_ok_graph rename_dirs_graph [OF assms(2)] by (auto simp: graph_of_def)

lemma dom_graph: "dom fs = snd ` graph_of fs"
  by (force simp: graph_of_def)

lemma rename_dirs_covers:
  assumes "covers roots fs" and n: "\<forall>p\<in>dom fs. \<not> path_match new p" and "\<forall>r\<in>roots. \<not> path_match old r" and par: "par \<in> dom fs" "path_match par new"
  shows "covers roots (rename_dirs old new fs)"
  unfolding covers_def
proof (intro conjI subsetI ballI)
  fix r assume r: "r \<in> roots"
  then have "r \<in> dom fs" "\<not> path_match new r" "\<not> path_match old r" using assms by (auto simp: covers_def)
  then show "r \<in> dom (rename_dirs old new fs)" by (auto simp: rename_dirs_def dom_def)
next
  fix p assume "p \<in> dom (rename_dirs old new fs)"
  then obtain p0 where p0: "p0 \<in> dom fs" "p = move_path old new p0" unfolding dom_graph rename_dirs_graph [OF n] by force
  show "\<exists>r\<in>roots. path_match r p"
  proof (cases "path_match old p0")
    case True
    then have "path_match new p" using p0 path_match_swap by (simp add: move_path_def)
    then show ?thesis using assms(1) par path_match_trans unfolding covers_def by metis
  qed (use p0 assms(1) in \<open>auto simp: covers_def move_path_def\<close>)
qed

definition moved_pair :: "nat \<Rightarrow> int \<Rightarrow> string \<Rightarrow> int \<Rightarrow> string \<Rightarrow> inotify_event \<times> inotify_event" where
  "moved_pair c w1 n1 w2 n2 = (\<lparr>ev_wd = w1, ev_mask = [IN_MOVED_FROM, IN_ISDIR], ev_cookie = c, ev_name = n1\<rparr>,
     \<lparr>ev_wd = w2, ev_mask = [IN_MOVED_TO, IN_ISDIR], ev_cookie = c, ev_name = n2\<rparr>)"

lemma process_rename:
  assumes ok: "slots_ok (wlCache d)" "setup_ok roots d" and par: "(w1, par1) \<in> entries (wlCache d)" "(w2, par2) \<in> entries (wlCache d)"
    and old: "old = par1 @ CHR ''/'' # n1" "length old < PATH_MAX" and new: "new = par2 @ CHR ''/'' # n2" "length new < PATH_MAX"
    and len: "\<forall>(w, p)\<in>entries (wlCache d). length (move_path old new p) < PATH_MAX" and ev: "(mf, mt) = moved_pair c w1 n1 w2 n2"
  shows "\<exists>d1. processNextInotifyEvent os mf (mt # rest) ft d = ret (Events 2, d1) \<and> slots_ok (wlCache d1) \<and> same_setup d d1 \<and>
    entries (wlCache d1) = (\<lambda>(w, p). (w, move_path old new p)) ` entries (wlCache d)"
proof -
  have mf: "ev_wd mf = w1" "\<not> has mf IN_IGNORED" using ev by (auto simp: moved_pair_def)
  obtain j where j: "slot_path (Some j) d = ret par1"
      "processNextInotifyEvent os mf (mt # rest) ft d = bind_e (event_branch os mf (mt # rest) ft (Some j) d) (after_event os (is_overflow mf))"
    using processNext_known [OF ok(1) par(1) mf] by blast
  obtain j2 where j2: "findWatchChecked w2 d = ret (Some j2)" "slot_path (Some j2) d = ret par2" using entry_lookup [OF ok(1) par(2)] by blast
  define d1 where "d1 = rewriteCachedPaths par1 n1 par2 n2 d"
  have "event_branch os mf (mt # rest) ft (Some j) d = ret (Events 2, d1)"
    using ev j(1) j2 unfolding d1_def by (simp add: event_branch_def moved_from_def moved_pair_def)
  moreover have d1: "d1 = d\<lparr>wlCache := map (rewrite_slot old new) (wlCache d)\<rparr>"
    unfolding d1_def rewriteCachedPaths_def using old new snprintf_path_fits by metis
  moreover have "same_setup d d1" unfolding d1 by simp
  moreover have "old \<noteq> []" using old(1) by simp
  ultimately show ?thesis using j(2) rewrite_map_moves [OF _ ok(1) len] after_event_quiet [OF setup_ok_same [OF ok(2)]] by simp
qed

lemma process_left:
  assumes ok: "slots_ok (wlCache d)" "setup_ok roots d" and par: "(w1, par1) \<in> entries (wlCache d)"
    and old: "old = par1 @ CHR ''/'' # n1" "length old < PATH_MAX" and rm: "\<forall>(w, p)\<in>entries (wlCache d). path_match old p \<longrightarrow> os_rm os w"
    and mf: "mf = fst (moved_pair c w1 n1 w2 n2)"
  shows "\<exists>d1. processNextInotifyEvent os mf [] False d = ret (Events 1, d1) \<and> slots_ok (wlCache d1) \<and> same_setup d d1 \<and>
    entries (wlCache d1) = {(w, p) \<in> entries (wlCache d). \<not> path_match old p}"
proof -
  have mf1: "ev_wd mf = w1" "\<not> has mf IN_IGNORED" using mf by (auto simp: moved_pair_def)
  obtain j where j: "slot_path (Some j) d = ret par1"
      "processNextInotifyEvent os mf [] False d = bind_e (event_branch os mf [] False (Some j) d) (after_event os (is_overflow mf))"
    using processNext_known [OF ok(1) par mf1] by blast
  obtain ws cnt where z: "zapSubtree os old d = (cnt, d\<lparr>wlCache := ws\<rparr>)" "cnt \<noteq> -1" "slots_ok ws"
      "entries ws = {(w, p) \<in> entries (wlCache d). \<not> path_match old p}"
    using zapSubtree_removes [OF rm ok(1)] by blast
  have "snprintf_path (PATH_MAX + NAME_MAX) par1 n1 = old" using old snprintf_path_fits [of par1 n1 "PATH_MAX + NAME_MAX"] by simp
  then have "event_branch os mf [] False (Some j) d = ret (Events 1, d\<lparr>wlCache := ws\<rparr>)"
    using mf j(1) z by (simp add: event_branch_def moved_from_def moved_pair_def zap_or_rebuild_def)
  then show ?thesis using j(2) z after_event_quiet [OF setup_ok_same [OF ok(2)]] by simp
qed


subsection \<open>The file system and the monitor together\<close>

type_synonym dt_state = "dirs \<times> dtree \<times> kevent list"

inductive dt_step :: "string set \<Rightarrow> dt_state \<Rightarrow> dt_state \<Rightarrow> bool" for roots where
  arrives: "fs par = Some w \<Longrightarrow> q = par @ CHR ''/'' # n \<Longrightarrow> q \<in> dom sub \<Longrightarrow> \<forall>p\<in>dom sub. path_match q p \<Longrightarrow> \<forall>p\<in>dom fs. \<not> path_match q p \<Longrightarrow>
    dirs_ok sub \<Longrightarrow> ran sub \<inter> (ran fs \<union> fst ` entries (wlCache d)) = {} \<Longrightarrow>
    dt_step roots (fs, d, qs) (fs ++ sub, d, qs @ (if (w, par) \<in> entries (wlCache d) then [Arrived c w n] else []))"
| vanishes: "fs p = Some w \<Longrightarrow> p \<notin> roots \<Longrightarrow> \<forall>p'\<in>dom fs. path_match p p' \<longrightarrow> p' = p \<Longrightarrow>
    dt_step roots (fs, d, qs) (fs(p := None), d, qs @ (if (w, p) \<in> entries (wlCache d) then [Gone w, Ignored w] else []))"
| file_change: "fs par = Some w \<Longrightarrow> (w, par) \<in> entries (wlCache d) \<Longrightarrow> f \<in> {IN_CREATE, IN_MOVED_FROM, IN_MOVED_TO} \<Longrightarrow>
    dt_step roots (fs, d, qs) (fs, d, qs @ [FileEvent f c w n])"
| handles: "os_of fs os \<Longrightarrow> processNextInotifyEvent os (ev_of k) (map ev_of (take m qs)) ft d = ret (Events j, d1) \<Longrightarrow>
    dt_step roots (fs, d, k # qs) (fs, d1, drop j (k # qs))"
| renamed: "fs par1 = Some w1 \<Longrightarrow> old = par1 @ CHR ''/'' # n1 \<Longrightarrow> old \<in> dom fs \<Longrightarrow> fs par2 = Some w2 \<Longrightarrow> new = par2 @ CHR ''/'' # n2 \<Longrightarrow>
    length new < PATH_MAX \<Longrightarrow> \<forall>p\<in>dom fs. \<not> path_match new p \<Longrightarrow> \<forall>r\<in>roots. \<not> path_match old r \<Longrightarrow> \<forall>p\<in>dom fs. length (move_path old new p) < PATH_MAX \<Longrightarrow>
    (mf, mt) = moved_pair c w1 n1 w2 n2 \<Longrightarrow> os_of (rename_dirs old new fs) os \<Longrightarrow> processNextInotifyEvent os mf [mt] ft d = ret (Events 2, d1) \<Longrightarrow>
    dt_step roots (fs, d, []) (rename_dirs old new fs, d1, [])"
| left: "fs par1 = Some w1 \<Longrightarrow> old = par1 @ CHR ''/'' # n1 \<Longrightarrow> old \<in> dom fs \<Longrightarrow> \<forall>r\<in>roots. \<not> path_match old r \<Longrightarrow>
    \<forall>(w, p)\<in>entries (wlCache d). path_match old p \<longrightarrow> os_rm os w \<Longrightarrow> mf = fst (moved_pair c w1 n1 w2 n2) \<Longrightarrow>
    processNextInotifyEvent os mf [] False d = ret (Events 1, d1) \<Longrightarrow>
    dt_step roots (fs, d, []) (leave_dirs old fs, d1, map Ignored ws)"
| rebuilt: "dom fs' = dom fs \<Longrightarrow> dirs_ok fs' \<Longrightarrow> os_of fs' os \<Longrightarrow> reinitialize os d = ret d1 \<Longrightarrow> dt_step roots (fs, d, qs) (fs', d1, [])"

inductive dt_reach :: "string set \<Rightarrow> dt_state \<Rightarrow> bool" for roots where
  start: "dirs_ok fs \<Longrightarrow> covers roots fs \<Longrightarrow> setup_ok roots d \<Longrightarrow> os_of fs os \<Longrightarrow> reinitialize os d = ret d1 \<Longrightarrow> dt_reach roots (fs, d1, [])"
| step: "dt_reach roots s \<Longrightarrow> dt_step roots s s' \<Longrightarrow> dt_reach roots s'"

fun in_step :: "string set \<Rightarrow> dt_state \<Rightarrow> bool" where
  "in_step roots (fs, d, qs) \<longleftrightarrow> dirs_ok fs \<and> covers roots fs \<and> setup_ok roots d \<and> slots_ok (wlCache d) \<and> mirror roots fs (entries (wlCache d)) qs"

lemma in_step_rebuilt:
  assumes "dirs_ok fs" "covers roots fs" "setup_ok roots d" "os_of fs os" "reinitialize os d = ret d1"
  shows "in_step roots (fs, d1, [])"
proof -
  have "{r. Some r \<in> set (rootDirPaths d)} = roots" using assms(3) by (simp add: setup_ok_def)
  then obtain d2 where "reinitialize os d = ret d2" "slots_ok (wlCache d2)" "entries (wlCache d2) = graph_of fs" "same_setup d d2"
    using reinitialize_builds [OF assms(4,1,2)] by blast
  then show ?thesis using assms setup_ok_same mirror_quiet by auto
qed

lemma in_step_event:
  assumes "in_step roots (fs, d, k # qs)" "os_of fs os"
  shows "\<exists>d1. processNextInotifyEvent os (ev_of k) rest ft d = ret (Events 1, d1) \<and> in_step roots (fs, d1, qs)"
proof -
  have i: "dirs_ok fs" "covers roots fs" "setup_ok roots d" "slots_ok (wlCache d)" "mirror roots fs (entries (wlCache d)) (k # qs)" using assms(1) by auto
  obtain d1 where d1: "processNextInotifyEvent os (ev_of k) rest ft d = ret (Events 1, d1)" "slots_ok (wlCache d1)" "same_setup d d1"
      "entries (wlCache d1) = handled fs k (entries (wlCache d))"
    using process_event [OF assms(2) i(1,4,3,5)] by blast
  moreover have "mirror roots fs (entries (wlCache d1)) qs" unfolding d1(4) using mirror_handled [OF i(5)] entries_wd_unique [OF i(4)] by blast
  ultimately show ?thesis using i setup_ok_same by auto
qed

lemma dirs_okI:
  assumes "\<And>w p q. fs p = Some w \<Longrightarrow> fs q = Some w \<Longrightarrow> p = q" "\<And>w p. fs p = Some w \<Longrightarrow> 0 \<le> w \<and> length p < PATH_MAX"
  shows "dirs_ok fs"
  using assms unfolding dirs_ok_graph graph_of_def by auto

lemma dirs_ok_add:
  assumes "dirs_ok fs" "dirs_ok sub" "ran sub \<inter> ran fs = {}"
  shows "dirs_ok (fs ++ sub)"
proof -
  have s: "(fs ++ sub) p = Some w \<Longrightarrow> fs p = Some w \<or> sub p = Some w" for p w by auto
  have n: "fs p = Some w \<Longrightarrow> sub q = Some w \<Longrightarrow> False" for p q w using assms(3) by (meson disjoint_iff ranI)
  have u: "p = q" if "(fs ++ sub) p = Some w" "(fs ++ sub) q = Some w" for p q w
    using s [OF that(1)] s [OF that(2)] n assms(1,2) unfolding dirs_ok_graph graph_of_def by blast
  have "0 \<le> w \<and> length p < PATH_MAX" if "(fs ++ sub) p = Some w" for p w
    using s [OF that] assms(1,2) unfolding dirs_ok_def by blast
  with u show ?thesis by (rule dirs_okI)
qed

lemma covers_add:
  assumes "covers roots fs" "fs par = Some w" "q = par @ CHR ''/'' # n" "\<forall>p\<in>dom sub. path_match q p"
  shows "covers roots (fs ++ sub)"
proof -
  obtain r where r: "r \<in> roots" "path_match r par" using assms(1,2) unfolding covers_def by blast
  have "path_match r p" if "p \<in> dom sub" for p using r(2) assms(3,4) that path_match_trans path_match_child by metis
  then show ?thesis using assms(1) r(1) unfolding covers_def by auto
qed

lemma covers_sub:
  assumes "covers roots fs" "\<forall>p. fs' p = None \<or> fs' p = fs p" "\<forall>r\<in>roots. fs' r = fs r"
  shows "covers roots fs'"
proof -
  have "dom fs' \<subseteq> dom fs" using assms(2) by (metis domIff subsetI)
  moreover have "roots \<subseteq> dom fs'" using assms(1,3) unfolding covers_def by (metis domIff subset_eq)
  ultimately show ?thesis using assms(1) unfolding covers_def by blast
qed

lemma dirs_ok_sub: "dirs_ok fs \<Longrightarrow> \<forall>p. fs' p = None \<or> fs' p = fs p \<Longrightarrow> dirs_ok fs'"
proof -
  assume a: "dirs_ok fs" "\<forall>p. fs' p = None \<or> fs' p = fs p"
  then have "fs' p = Some w \<Longrightarrow> fs p = Some w" for p w by (metis option.distinct(1))
  then have "graph_of fs' \<subseteq> graph_of fs" by (auto simp: graph_of_def)
  then show "dirs_ok fs'" using a(1) unfolding dirs_ok_graph by blast
qed

lemma mirror_ignored: "mirror roots fs E (map Ignored ws) \<longleftrightarrow> E = graph_of fs"
proof -
  have "q_ok roots E (map Ignored ws)" "gone (map Ignored ws) = {}" "\<not> pending E q (map Ignored ws)" for q
    by (induction ws) (auto simp: gone_def)
  then show ?thesis by (auto simp: mirror_def graph_of_def)
qed

lemma mirror_file:
  assumes "mirror roots fs E qs" "fs par = Some w" "(w, par) \<in> E" "f \<in> {IN_CREATE, IN_MOVED_FROM, IN_MOVED_TO}"
  shows "mirror roots fs E (qs @ [FileEvent f c w n])"
proof -
  have "w \<notin> gone qs" using assms(1,2) unfolding mirror_def by (auto simp: ran_def)
  then have "q_ok roots E (qs @ [FileEvent f c w n])" using assms by (force simp: mirror_def q_ok_append)
  then show ?thesis using assms(1) pending_append unfolding mirror_def by fastforce
qed

lemma dt_step_in_step: "dt_step roots s s' \<Longrightarrow> in_step roots s \<Longrightarrow> in_step roots s'"
proof (induction rule: dt_step.induct)
  case (arrives fs par w q n sub d qs c)
  have "length q < PATH_MAX" using arrives.hyps(3,6) by (auto simp: dirs_ok_def)
  then have "mirror roots (fs ++ sub) (entries (wlCache d)) (qs @ (if (w, par) \<in> entries (wlCache d) then [Arrived c w n] else []))"
    using mirror_arrives arrives by (metis in_step.simps Int_Un_distrib Un_empty)
  then show ?case using arrives dirs_ok_add [of fs sub] covers_add [of roots fs par w q n sub] by (auto simp: Int_Un_distrib)
next
  case (vanishes fs p w d qs)
  have "dirs_ok (fs(p := None))" "covers roots (fs(p := None))"
    using vanishes.hyps(2) vanishes.prems by (auto intro!: dirs_ok_sub [of fs] covers_sub [of roots fs])
  then show ?case using vanishes mirror_vanishes by (simp add: dirs_ok_def)
next
  case (file_change fs par w d f qs c n)
  then show ?case using mirror_file by auto
next
  case (handles fs os k m qs ft d j d1)
  then show ?case using in_step_event [OF handles.prems handles.hyps(1), of "map ev_of (take m qs)" ft] by auto
next
  case (renamed fs par1 w1 old n1 par2 w2 new n2 mf mt c os ft d d1)
  have i: "dirs_ok fs" "covers roots fs" "setup_ok roots d" "slots_ok (wlCache d)" "entries (wlCache d) = graph_of fs"
    using renamed.prems by (auto simp: mirror_quiet)
  have "length old < PATH_MAX" using renamed.hyps(3) i(1) by (auto simp: dirs_ok_def)
  moreover have "(w1, par1) \<in> entries (wlCache d)" "(w2, par2) \<in> entries (wlCache d)" using renamed.hyps(1,4) i(5) by (auto simp: graph_of_def)
  moreover have "\<forall>(w, p)\<in>entries (wlCache d). length (move_path old new p) < PATH_MAX" using renamed.hyps(9) i(5) by (auto simp: graph_of_def)
  ultimately have d1: "slots_ok (wlCache d1)" "same_setup d d1" "entries (wlCache d1) = (\<lambda>(w, p). (w, move_path old new p)) ` entries (wlCache d)"
    using process_rename [OF i(4,3) _ _ renamed.hyps(2) _ renamed.hyps(5,6) _ renamed.hyps(10), of os "[]" ft] renamed.hyps(12) by auto
  have "path_match par2 new" "par2 \<in> dom fs" using renamed.hyps(4,5) by auto
  then have "covers roots (rename_dirs old new fs)" using rename_dirs_covers [OF i(2) renamed.hyps(7,8)] by blast
  moreover have "dirs_ok (rename_dirs old new fs)" using rename_dirs_ok [OF i(1) renamed.hyps(7,9)] .
  moreover have "entries (wlCache d1) = graph_of (rename_dirs old new fs)" unfolding d1(3) i(5) rename_dirs_graph [OF renamed.hyps(7)] ..
  ultimately show ?case using d1(1) setup_ok_same [OF i(3) d1(2)] by (simp add: mirror_quiet)
next
  case (left fs par1 w1 old n1 d os mf c w2 n2 d1 ws)
  have i: "dirs_ok fs" "covers roots fs" "setup_ok roots d" "slots_ok (wlCache d)" "entries (wlCache d) = graph_of fs"
    using left.prems by (auto simp: mirror_quiet)
  have "length old < PATH_MAX" "(w1, par1) \<in> entries (wlCache d)" using left.hyps(1,3) i(1,5) by (auto simp: dirs_ok_def graph_of_def)
  then have d1: "slots_ok (wlCache d1)" "same_setup d d1" "entries (wlCache d1) = {(w, p) \<in> entries (wlCache d). \<not> path_match old p}"
    using process_left [OF i(4,3) _ left.hyps(2) _ left.hyps(5,6)] left.hyps(7) by auto
  have "entries (wlCache d1) = graph_of (leave_dirs old fs)" unfolding d1(3) i(5) by (auto simp: graph_of_def leave_dirs_def split: if_splits)
  moreover have "dirs_ok (leave_dirs old fs)" "covers roots (leave_dirs old fs)"
    using dirs_ok_sub [OF i(1)] covers_sub [OF i(2)] left.hyps(4) by (auto simp: leave_dirs_def)
  ultimately show ?case using d1 setup_ok_same [OF i(3)] by (simp add: mirror_ignored)
next
  case (rebuilt fs' fs os d d1 qs)
  then show ?case using in_step_rebuilt [of fs' roots d os d1] by (auto simp: covers_def)
qed

lemma dt_reach_in_step: "dt_reach roots s \<Longrightarrow> in_step roots s"
  by (induction rule: dt_reach.induct) (auto intro: in_step_rebuilt dt_step_in_step simp del: in_step.simps)

end
