(* ===== verification/Dtree_Props.thy ===== *)
theory Dtree_Props
  imports Dtree_Track
begin

section \<open>Properties of the directory monitor\<close>

text \<open>
  The cache agrees with the file system once the queue is empty, a lost event is repaired by the rebuilding of the cache, and a rename is recognised also when its two events arrive
  with different reads. The systems of the examples are given by a list of directories with their descriptors.
\<close>

subsection \<open>Systems for examples\<close>

definition os_for :: "(string \<times> int) list \<Rightarrow> os" where
  "os_for l = \<lparr>os_add = (\<lambda>p. case map_of l p of None \<Rightarrow> Inl ENOENT | Some w \<Rightarrow> Inr w),
     os_walk = (\<lambda>q. if q \<in> fst ` set l then Some (map (\<lambda>(p, w). (p, True)) (filter (\<lambda>(p, w). path_match q p) l)) else None),
     os_rm = (\<lambda>w. True), os_lstat = (\<lambda>p. None), os_init = True\<rparr>"

lemma os_for_os: "os_of (map_of l) (os_for l)"
proof -
  have "set (walked (os_walk (os_for l) q)) = {p. q \<in> dom (map_of l) \<and> path_match q p \<and> p \<in> dom (map_of l)}" for q
    by (auto simp: walked_def os_for_def dom_map_of_conv_image_fst split_beta image_iff) (metis fst_conv)+
  then show ?thesis by (simp add: os_of_def os_for_def option.case_eq_if)
qed

subsection \<open>Catching up\<close>

lemma catch_up:
  assumes "in_step roots (fs, d, qs)" and "\<And>n. os_of fs (osf n)"
  shows "\<exists>d1. event_loop osf n script (map ev_of qs) True d = ret d1 \<and> in_step roots (fs, d1, [])"
  using assms(1)
proof (induction qs arbitrary: d n)
  case (Cons k qs)
  obtain d1 where d1: "processNextInotifyEvent (osf n) (ev_of k) (map ev_of qs) True d = ret (Events 1, d1)" "in_step roots (fs, d1, qs)"
    using in_step_event [OF Cons.prems assms(2)] by blast
  then show ?case using Cons.IH [OF d1(2), of "Suc n"] by (simp add: ret_def)
qed (simp add: ret_def)

lemma dt_reach_listing:
  assumes "in_step roots (fs, d, [])"
  shows "distinct (map w_path (filter (\<lambda>w. 0 \<le> w_wd w) (wlCache d))) \<and> set (map w_path (filter (\<lambda>w. 0 \<le> w_wd w) (wlCache d))) = dom fs"
proof -
  have ok: "slots_ok (wlCache d)" and e: "entries (wlCache d) = graph_of fs" using assms by (auto simp: mirror_quiet)
  let ?us = "filter (\<lambda>w. 0 \<le> w_wd w) (wlCache d)"
  have g: "fs (w_path w) = Some (w_wd w)" if "w \<in> set ?us" for w
    using that e unfolding entries_def graph_of_def by auto
  have "inj_on w_wd (set ?us)" "distinct ?us" using ok by (auto simp: slots_ok_def distinct_map)
  then have "inj_on w_path (set ?us)" using g by (intro inj_onI) (metis inj_onD option.inject)
  then have "distinct (map w_path ?us)" using \<open>distinct ?us\<close> by (simp add: distinct_map)
  moreover have "w_path ` set ?us = snd ` entries (wlCache d)" unfolding entries_def by force
  ultimately show ?thesis using dom_graph [of fs] e by simp
qed

lemma used_slots_paths: "map (\<lambda>(j, w). w_path w) (used_slots d) = map w_path (filter (\<lambda>w. 0 \<le> w_wd w) (wlCache d))"
proof -
  have "map (\<lambda>(j, w). w_path w) (filter (\<lambda>(j, w). 0 \<le> w_wd w) (zip js ws)) = map w_path (filter (\<lambda>w. 0 \<le> w_wd w) ws)" if "length js = length ws" for js :: "nat list" and ws
    using that by (induction js ws rule: list_induct2) auto
  from this [of "[0..<length (wlCache d)]" "wlCache d"] show ?thesis unfolding used_slots_def by simp
qed

subsection \<open>A rename in two reads\<close>

lemma event_loop_const: "\<forall>k. osf k = os \<Longrightarrow> event_loop osf n script evs ft d = event_loop osf m script evs ft d"
proof (induction osf n script evs ft d arbitrary: m rule: event_loop.induct)
  case (2 osf n script ev rest ft d)
  have s: "osf n = osf m" using "2.prems" by simp
  show ?case
    unfolding event_loop.simps(2) [of osf n script ev rest ft d] event_loop.simps(2) [of osf m script ev rest ft d] s [symmetric]
  proof (rule bind_e_cong [OF refl], clarify, goal_cases)
    case (1 c d1)
    note p = 1
    show ?case
    proof (cases c)
      case (Events k)
      then show ?thesis using "2.IH"(1) [OF p refl Events "2.prems"] by simp
    next
      case ReadMore
      show ?thesis
      proof (cases script)
        case Nil
        then show ?thesis using "2.IH"(2) [OF p refl ReadMore Nil "2.prems"] ReadMore by (simp del: event_loop.simps)
      next
        case (Cons r script')
        show ?thesis
        proof (cases r)
          case (GotEvents evs)
          let ?got = "take_fit (INOTIFY_READ_BUF_LEN - sum_list (map ev_len (ev # rest))) evs"
          have "?got \<noteq> [] \<Longrightarrow> event_loop osf (Suc n) script' (ev # rest @ ?got) False d1 = event_loop osf (Suc m) script' (ev # rest @ ?got) False d1"
            using "2.IH"(3) [OF p refl ReadMore Cons GotEvents refl _ "2.prems"] .
          then show ?thesis unfolding ReadMore Cons GotEvents Let_def
            by (simp only: consumed.case list.case read_res.case split: if_split) simp
        next
          case Interrupted
          then show ?thesis using "2.IH"(4) [OF p refl ReadMore Cons Interrupted "2.prems"] unfolding ReadMore Cons
            by (simp only: consumed.case list.case read_res.case)
        next
          case ReadFailed
          then show ?thesis unfolding ReadMore Cons by (simp only: consumed.case list.case read_res.case)
        qed
      qed
    qed simp
  qed
qed simp

lemma hanging_moved_from:
  assumes "slots_ok (wlCache d)" "(ev_wd ev, p) \<in> entries (wlCache d)" "ev_mask ev = [IN_MOVED_FROM, IN_ISDIR]"
  shows "processNextInotifyEvent os ev [] True d = ret (ReadMore, d)"
    and "rest \<noteq> [] \<Longrightarrow> processNextInotifyEvent os ev rest ft d = processNextInotifyEvent os ev rest True d"
proof -
  have i: "\<not> has ev IN_IGNORED" using assms(3) by simp
  show "processNextInotifyEvent os ev [] True d = ret (ReadMore, d)"
    using processNext_known [OF assms(1,2) refl i, of os "[]" True] assms(3) by (auto simp: event_branch_def moved_from_def after_event_def)
  have "event_branch os ev rest ft slot d = event_branch os ev rest True slot d" if "rest \<noteq> []" for slot
  proof -
    have "moved_from os ev rest ft slot d = moved_from os ev rest True slot d" using that by (simp add: moved_from_def)
    then show ?thesis unfolding event_branch_def by (simp only:)
  qed
  then show "processNextInotifyEvent os ev rest ft d = processNextInotifyEvent os ev rest True d" if "rest \<noteq> []"
    unfolding processNextInotifyEvent_def using that by (simp only: not_False_eq_True)
qed


lemma split_rename:
  assumes "slots_ok (wlCache d)" "(ev_wd ev, p) \<in> entries (wlCache d)" "ev_mask ev = [IN_MOVED_FROM, IN_ISDIR]" "evs \<noteq> []"
    and fit: "take_fit (INOTIFY_READ_BUF_LEN - ev_len ev) evs = evs"
  shows "event_loop (\<lambda>_. os) n (GotEvents evs # script) [ev] True d = event_loop (\<lambda>_. os) n script (ev # evs) True d"
proof -
  note h = hanging_moved_from [OF assms(1-3)]
  have "event_loop (\<lambda>_. os) n (GotEvents evs # script) [ev] True d = event_loop (\<lambda>_. os) (Suc n) script (ev # evs) False d"
    unfolding event_loop.simps(2) [of "\<lambda>_. os" n _ ev "[]"] h(1) using assms(4) fit by (simp add: Let_def del: event_loop.simps)
  also have "\<dots> = event_loop (\<lambda>_. os) (Suc n) script (ev # evs) True d"
    unfolding event_loop.simps(2) [of "\<lambda>_. os" "Suc n" script ev evs] h(2) [OF assms(4), of os False] ..
  also have "\<dots> = event_loop (\<lambda>_. os) n script (ev # evs) True d" by (rule event_loop_const) simp
  finally show ?thesis .
qed


subsection \<open>Losing events\<close>

lemma rebuild_graph:
  assumes "os_of fs os" "dirs_ok fs" "covers roots fs" "setup_ok roots d"
  shows "\<exists>d1. rebuild os d = ret (DiscardAll, d1) \<and> setup_ok roots d1 \<and> entries (wlCache d1) = graph_of fs"
proof -
  have "{r. Some r \<in> set (rootDirPaths d)} = roots" using assms(4) by (simp add: setup_ok_def)
  then obtain d1 where "reinitialize os d = ret d1" "entries (wlCache d1) = graph_of fs" "same_setup d d1"
    using reinitialize_builds [OF assms(1-3)] by blast
  then show ?thesis using setup_ok_same [OF assms(4)] by (simp add: rebuild_def)
qed

definition lost_track :: "inotify_event \<Rightarrow> dtree \<Rightarrow> bool" where
  "lost_track ev d \<longleftrightarrow> (ev_wd ev = -1 \<and> ev_mask ev = [IN_Q_OVERFLOW]) \<or>
     (0 \<le> ev_wd ev \<and> \<not> has ev IN_IGNORED \<and> ev_wd ev \<notin> fst ` entries (wlCache d) \<and> \<not> abortOnCacheProblem d)"

subsection \<open>An example\<close>

text \<open>The race that the comment in the program describes: the directory inside the new directory is there before the first event is handled.\<close>

definition race_dirs :: "(string \<times> int) list" where
  "race_dirs = [(''t'', 1), (''t/a'', 2), (''t/a/b'', 3)]"

lemma race_dirs_ok: "dirs_ok (map_of race_dirs)" "covers {''t''} (map_of race_dirs)"
  by (auto simp: dirs_ok_def covers_def race_dirs_def PATH_MAX_def inj_on_def path_match_def split: if_splits)

lemma race_graph: "graph_of (map_of race_dirs) = {(1, ''t''), (2, ''t/a''), (3, ''t/a/b'')}"
  by (auto simp: graph_of_def race_dirs_def split: if_splits)

lemma start_reach: "\<exists>d. dt_reach {''t''} ([''t'' \<mapsto> 1], d, []) \<and> entries (wlCache d) = {(1, ''t'')}"
proof -
  have f: "dirs_ok [''t'' \<mapsto> 1]" "covers {''t''} [''t'' \<mapsto> 1]" by (simp_all add: dirs_ok_def covers_def PATH_MAX_def)
  have o: "os_of [''t'' \<mapsto> 1] (os_for [(''t'', 1)])" using os_for_os [of "[(''t'', 1)]"] by simp
  have s: "setup_ok {''t''} (dtree_init\<lparr>rootDirPaths := [Some ''t'']\<rparr>)" by (auto simp: setup_ok_def dtree_init_def)
  have "{r. Some r \<in> set (rootDirPaths (dtree_init\<lparr>rootDirPaths := [Some ''t'']\<rparr>))} = {''t''}" by auto
  from reinitialize_builds [OF o f this] obtain d where d: "reinitialize (os_for [(''t'', 1)]) (dtree_init\<lparr>rootDirPaths := [Some ''t'']\<rparr>) = ret d" "entries (wlCache d) = graph_of [''t'' \<mapsto> 1]"
    by (elim exE conjE)
  have "graph_of [''t'' \<mapsto> 1] = {(1, ''t'')}" by (auto simp: graph_of_def split: if_splits)
  moreover have "dt_reach {''t''} ([''t'' \<mapsto> 1], d, [])" using dt_reach.start [OF f s o d(1)] .
  ultimately show ?thesis using d(2) by metis
qed

lemma race_reach: "\<exists>d. dt_reach {''t''} (map_of race_dirs, d, [Arrived None 1 ''a'']) \<and> entries (wlCache d) = {(1, ''t'')}"
proof -
  obtain d where d: "dt_reach {''t''} ([''t'' \<mapsto> 1], d, [])" "entries (wlCache d) = {(1, ''t'')}" using start_reach by blast
  have "dt_step {''t''} ([''t'' \<mapsto> 1], d, []) ([''t'' \<mapsto> 1] ++ [''t/a'' \<mapsto> 2], d, [] @ (if (1, ''t'') \<in> entries (wlCache d) then [Arrived None 1 ''a''] else []))"
    by (rule dt_step.arrives [of _ _ _ "''t/a''"]) (auto simp: dirs_ok_def PATH_MAX_def d(2) path_match_def)
  then have r: "dt_reach {''t''} ([''t'' \<mapsto> 1, ''t/a'' \<mapsto> 2], d, [Arrived None 1 ''a''])" using dt_reach.step [OF d(1)] d(2) by simp
  have "dt_step {''t''} ([''t'' \<mapsto> 1, ''t/a'' \<mapsto> 2], d, [Arrived None 1 ''a''])
      ([''t'' \<mapsto> 1, ''t/a'' \<mapsto> 2] ++ [''t/a/b'' \<mapsto> 3], d, [Arrived None 1 ''a''] @ (if (2, ''t/a'') \<in> entries (wlCache d) then [Arrived None 2 ''b''] else []))"
    by (rule dt_step.arrives [of _ _ _ "''t/a/b''"]) (auto simp: dirs_ok_def PATH_MAX_def d(2) path_match_def)
  moreover have "[''t'' \<mapsto> 1, ''t/a'' \<mapsto> 2] ++ [''t/a/b'' \<mapsto> 3] = map_of race_dirs" by (auto simp: race_dirs_def)
  ultimately show ?thesis using dt_reach.step [OF r] d(2) by auto
qed

subsection \<open>The properties\<close>





text \<open>
  The command \<^verbatim>\<open>w\<close>, meant for a comparison with \<^verbatim>\<open>find DIR -type d\<close>, writes every directory of the watched trees exactly once and nothing else, whenever no events are waiting.
\<close>

theorem dtree_listing:
  assumes "dt_reach roots (fs, d, [])" and "fopen_ok f"
  shows "\<exists>ps. run_command os fopen_ok CHR ''w'' (Some f) d = ret (Written f ps, d) \<and> distinct ps \<and> set ps = dom fs"
  using dt_reach_listing [OF dt_reach_in_step [OF assms(1)]] assms(2) by (auto simp: run_command_def need_arg_def used_slots_paths)

theorem dtree_listing_witness:
  "\<exists>d ps. dt_reach {''t''} ([''t'' \<mapsto> 1], d, []) \<and> run_command (os_for [(''t'', 1)]) (\<lambda>_. True) CHR ''w'' (Some ''f'') d = ret (Written ''f'' ps, d) \<and>
     distinct ps \<and> set ps = {''t''}"
proof -
  obtain d where d: "dt_reach {''t''} ([''t'' \<mapsto> 1], d, [])" using start_reach by blast
  then show ?thesis using dtree_listing [OF d, of "\<lambda>_. True" "''f''" "os_for [(''t'', 1)]"] by auto
qed

text \<open>
  C29: A rename whose two events arrive with different reads is handled as if they had come together: when the first read ends with the event of a directory that was moved away and the
  secondary read brings further events, the result is that of one buffer with all of them.
\<close>

theorem dtree_split_rename:
  assumes "slots_ok (wlCache d)" and "(ev_wd ev, p) \<in> entries (wlCache d)" and "ev_mask ev = [IN_MOVED_FROM, IN_ISDIR]" and "evs \<noteq> []"
    and "take_fit (INOTIFY_READ_BUF_LEN - ev_len ev) evs = evs"
  shows "event_loop (\<lambda>_. os) n (GotEvents evs # script) [ev] True d = event_loop (\<lambda>_. os) n script (ev # evs) True d"
  using split_rename [OF assms] .


theorem dtree_split_rename_witness:
  "let d = dtree_init\<lparr>wlCache := [\<lparr>w_wd = 1, w_path = ''t''\<rparr>]\<rparr>; mf = \<lparr>ev_wd = 1, ev_mask = [IN_MOVED_FROM, IN_ISDIR], ev_cookie = 5, ev_name = ''a''\<rparr>;
       mt = \<lparr>ev_wd = 1, ev_mask = [IN_MOVED_TO, IN_ISDIR], ev_cookie = 5, ev_name = ''b''\<rparr> in
   event_loop (\<lambda>_. os_for race_dirs) 0 [GotEvents [mt]] [mf] True d = event_loop (\<lambda>_. os_for race_dirs) 0 [] [mf, mt] True d"
  unfolding Let_def
  by (rule dtree_split_rename [where p = "''t''"])
    (simp_all add: slots_ok_def dtree_init_def PATH_MAX_def INOTIFY_READ_BUF_LEN_def NAME_MAX_def ev_len_def)

end
