(* ===== verification/Spool_Queue.thy ===== *)
theory Spool_Queue
  imports C_Prelude
begin

section \<open>The lists of the print spooler (apue.3e/printer/printd.c)\<close>

text \<open>
  The daemon of \<^verbatim>\<open>src/literature/apue3e/apue.3e/printer/printd.c\<close> keeps two doubly linked lists on the heap: the jobs that wait for the printer, and the threads that serve clients.
  The heap is a map from addresses to list nodes; addresses are never given out twice, so that a pointer to memory that was freed is recognised: following it counts as
  an access outside every object. The lists are changed under locks, so each operation is one step.

  The list of jobs keeps what it promises, a sequence with insertion at both ends and removal anywhere; the contract that the rest of the daemon relies on is the locale
  \<open>job_store\<close>. The list of threads does not: the function that adds a thread forgets to move the head.
\<close>

subsection \<open>Nodes\<close>

record 'a dnode =
  nd_next :: "nat option"
  nd_prev :: "nat option"
  nd_item :: 'a

type_synonym 'a dheap = "nat \<rightharpoonup> 'a dnode"

definition deref :: "'a dheap \<Rightarrow> nat option \<Rightarrow> 'a dnode cres" where
  "deref h p = (case p of None \<Rightarrow> Inl NullDeref | Some a \<Rightarrow> (case h a of None \<Rightarrow> Inl OutOfBounds | Some n \<Rightarrow> Inr n))"

definition set_next :: "nat option \<Rightarrow> nat option \<Rightarrow> 'a dheap \<Rightarrow> 'a dheap cres" where
  "set_next p v h = bind_c (deref h p) (\<lambda>n. Inr (h(the p \<mapsto> n\<lparr>nd_next := v\<rparr>)))"

definition set_prev :: "nat option \<Rightarrow> nat option \<Rightarrow> 'a dheap \<Rightarrow> 'a dheap cres" where
  "set_prev p v h = bind_c (deref h p) (\<lambda>n. Inr (h(the p \<mapsto> n\<lparr>nd_prev := v\<rparr>)))"

subsection \<open>The list of jobs\<close>

record 'a joblist =
  jl_heap :: "'a dheap"
  jobhead :: "nat option"
  jobtail :: "nat option"
  jl_brk :: nat

definition jobs_init :: "'a joblist" where
  "jobs_init = \<lparr>jl_heap = Map.empty, jobhead = None, jobtail = None, jl_brk = 0\<rparr>"

definition add_job :: "'a \<Rightarrow> 'a joblist \<Rightarrow> 'a joblist cres" where
  "add_job x s =
     (let jp = jl_brk s;
          h0 = (jl_heap s)(jp \<mapsto> \<lparr>nd_next = None, nd_prev = jobtail s, nd_item = x\<rparr>);
          s0 = s\<lparr>jl_brk := jp + 1\<rparr>
      in if jobtail s = None then Inr (s0\<lparr>jl_heap := h0, jobhead := Some jp, jobtail := Some jp\<rparr>)
         else bind_c (set_next (jobtail s) (Some jp) h0) (\<lambda>h1. Inr (s0\<lparr>jl_heap := h1, jobtail := Some jp\<rparr>)))"

definition replace_job :: "nat option \<Rightarrow> 'a joblist \<Rightarrow> 'a joblist cres" where
  "replace_job jp s =
     bind_c (set_prev jp None (jl_heap s)) (\<lambda>h0.
     bind_c (set_next jp (jobhead s) h0) (\<lambda>h1.
       if jobhead s = None then Inr (s\<lparr>jl_heap := h1, jobtail := jp, jobhead := jp\<rparr>)
       else bind_c (set_prev (jobhead s) jp h1) (\<lambda>h2. Inr (s\<lparr>jl_heap := h2, jobhead := jp\<rparr>))))"

definition remove_job :: "nat option \<Rightarrow> 'a joblist \<Rightarrow> 'a joblist cres" where
  "remove_job target s =
     bind_c (deref (jl_heap s) target) (\<lambda>t.
     bind_c (if nd_next t \<noteq> None then bind_c (set_prev (nd_next t) (nd_prev t) (jl_heap s)) (\<lambda>h. Inr (s\<lparr>jl_heap := h\<rparr>))
             else Inr (s\<lparr>jobtail := nd_prev t\<rparr>)) (\<lambda>s1.
     bind_c (deref (jl_heap s1) target) (\<lambda>t1.
       if nd_prev t1 \<noteq> None then bind_c (set_next (nd_prev t1) (nd_next t1) (jl_heap s1)) (\<lambda>h. Inr (s1\<lparr>jl_heap := h\<rparr>))
       else Inr (s1\<lparr>jobhead := nd_next t1\<rparr>))))"

definition free_job :: "nat option \<Rightarrow> 'a joblist \<Rightarrow> 'a joblist cres" where
  "free_job jp s = (case jp of None \<Rightarrow> Inr s
     | Some a \<Rightarrow> if jl_heap s a = None then Inl OutOfBounds else Inr (s\<lparr>jl_heap := (jl_heap s)(a := None)\<rparr>))"

definition last_ptr :: "nat option \<Rightarrow> (nat \<times> 'a) list \<Rightarrow> nat option" where
  "last_ptr p xs = (if xs = [] then p else Some (fst (last xs)))"

definition first_ptr :: "(nat \<times> 'a) list \<Rightarrow> nat option" where
  "first_ptr xs = (case xs of [] \<Rightarrow> None | (a, x) # _ \<Rightarrow> Some a)"

lemma first_ptr_simps [simp]: "first_ptr [] = None" "first_ptr ((a, x) # xs) = Some a"
  by (simp_all add: first_ptr_def)

lemma last_ptr_simps [simp]: "last_ptr p [] = p" "last_ptr p ((a, x) # xs) = last_ptr (Some a) xs" "last_ptr p (xs @ [(b, y)]) = Some b"
  by (simp_all add: last_ptr_def)

text \<open>A part of a list: the nodes from \<open>q\<close> up to the pointer \<open>r\<close>.\<close>

fun dseg :: "'a dheap \<Rightarrow> nat option \<Rightarrow> nat option \<Rightarrow> (nat \<times> 'a) list \<Rightarrow> nat option \<Rightarrow> nat option \<Rightarrow> bool" where
  "dseg h p q [] t r \<longleftrightarrow> q = r \<and> t = p"
| "dseg h p q ((a, x) # xs) t r \<longleftrightarrow> q = Some a \<and> (\<exists>n. h a = Some \<lparr>nd_next = n, nd_prev = p, nd_item = x\<rparr> \<and> dseg h (Some a) n xs t r)"

lemma dseg_append: "dseg h p q (xs @ ys) t r \<longleftrightarrow> (\<exists>m s. dseg h p q xs s m \<and> dseg h s m ys t r)"
  by (induction xs arbitrary: p q) (auto, blast+)

lemma dseg_cong: "(\<And>a. a \<in> fst ` set xs \<Longrightarrow> h a = h' a) \<Longrightarrow> dseg h p q xs t r = dseg h' p q xs t r"
  by (induction h p q xs t r rule: dseg.induct) auto

lemma dseg_upd [simp]: "a \<notin> fst ` set xs \<Longrightarrow> dseg (h(a := v)) p q xs t r = dseg h p q xs t r"
  by (rule dseg_cong) auto

lemma dseg_in_heap: "dseg h p q xs t r \<Longrightarrow> a \<in> fst ` set xs \<Longrightarrow> a \<in> dom h"
  by (induction h p q xs t r rule: dseg.induct) auto

lemma dseg_last: "dseg h p q xs t r \<Longrightarrow> t = last_ptr p xs"
  by (induction h p q xs t r rule: dseg.induct) auto

lemma dseg_first: "dseg h p q xs t r \<Longrightarrow> q = (if xs = [] then r else first_ptr xs)"
  by (induction h p q xs t r rule: dseg.induct) auto

text \<open>Moving the pointer at the end of a part, and the pointer back from its first node.\<close>

lemma dseg_set_end:
  assumes "dseg h p q (xs @ [(b, y)]) t r" and "distinct (map fst (xs @ [(b, y)]))" and "h b = Some n"
  shows "dseg (h(b \<mapsto> n\<lparr>nd_next := r'\<rparr>)) p q (xs @ [(b, y)]) t r'"
proof -
  obtain m s where ms: "dseg h p q xs s m" "dseg h s m [(b, y)] t r" using assms(1) dseg_append by metis
  have "dseg (h(b \<mapsto> n\<lparr>nd_next := r'\<rparr>)) p q xs s m" using ms(1) assms(2) by simp
  moreover have "dseg (h(b \<mapsto> n\<lparr>nd_next := r'\<rparr>)) s m [(b, y)] t r'" using ms(2) assms(3) by auto
  ultimately show ?thesis using dseg_append by metis
qed

lemma dseg_set_start:
  assumes "dseg h p q ((b, y) # xs) t r" and "distinct (map fst ((b, y) # xs))" and "h b = Some n"
  shows "dseg (h(b \<mapsto> n\<lparr>nd_prev := p'\<rparr>)) p' q ((b, y) # xs) t r"
  using assms by auto

subsection \<open>The list is a sequence\<close>

definition job_rep :: "'a joblist \<Rightarrow> (nat \<times> 'a) list \<Rightarrow> bool" where
  "job_rep s xs \<longleftrightarrow> dseg (jl_heap s) None (jobhead s) xs (jobtail s) None \<and> distinct (map fst xs) \<and> (\<forall>a\<in>dom (jl_heap s). a < jl_brk s)"

lemma job_rep_init: "job_rep jobs_init []"
  by (simp add: job_rep_def jobs_init_def)

lemma set_next_heap: "h a = Some n \<Longrightarrow> set_next (Some a) v h = Inr (h(a \<mapsto> n\<lparr>nd_next := v\<rparr>))"
  by (simp add: set_next_def deref_def)

lemma set_prev_heap: "h a = Some n \<Longrightarrow> set_prev (Some a) v h = Inr (h(a \<mapsto> n\<lparr>nd_prev := v\<rparr>))"
  by (simp add: set_prev_def deref_def)

lemma add_job_appends:
  assumes "job_rep s xs"
  shows "\<exists>s1. add_job x s = Inr s1 \<and> job_rep s1 (xs @ [(jl_brk s, x)]) \<and> (\<forall>a. a \<notin> fst ` set xs \<longrightarrow> a \<noteq> jl_brk s \<longrightarrow> jl_heap s1 a = jl_heap s a) \<and> jl_brk s1 = jl_brk s + 1"
proof -
  let ?jp = "jl_brk s"
  let ?n = "\<lparr>nd_next = None, nd_prev = jobtail s, nd_item = x\<rparr>"
  have r: "dseg (jl_heap s) None (jobhead s) xs (jobtail s) None" "distinct (map fst xs)" "\<forall>a\<in>dom (jl_heap s). a < jl_brk s" using assms by (auto simp: job_rep_def)
  have new: "?jp \<notin> fst ` set xs" using r(1,3) dseg_in_heap by fastforce
  show ?thesis
  proof (cases xs rule: rev_cases)
    case Nil
    then show ?thesis using r by (auto simp: add_job_def job_rep_def Let_def intro: less_SucI)
  next
    case (snoc ys e)
    obtain b y where b: "e = (b, y)" by force
    have tl: "jobtail s = Some b" using dseg_last [OF r(1)] snoc b by simp
    obtain n where n: "jl_heap s b = Some n" using dseg_in_heap [OF r(1), of b] snoc b by auto
    have nb: "b \<noteq> ?jp" using new snoc b by auto
    define h1 where "h1 = (jl_heap s)(?jp \<mapsto> ?n, b \<mapsto> n\<lparr>nd_next := Some ?jp\<rparr>)"
    have "dseg ((jl_heap s)(?jp \<mapsto> ?n)) None (jobhead s) (ys @ [(b, y)]) (Some b) None" using r(1) new snoc b tl by simp
    then have "dseg h1 None (jobhead s) (ys @ [(b, y)]) (Some b) (Some ?jp)"
      unfolding h1_def using dseg_set_end r(2) snoc b n nb by fastforce
    moreover have "dseg h1 (Some b) (Some ?jp) [(?jp, x)] (Some ?jp) None" using nb tl by (simp add: h1_def)
    ultimately have "dseg h1 None (jobhead s) (xs @ [(?jp, x)]) (Some ?jp) None" unfolding dseg_append [of _ _ _ xs] using snoc b by blast
    moreover have "add_job x s = Inr (s\<lparr>jl_brk := ?jp + 1, jl_heap := h1, jobtail := Some ?jp\<rparr>)"
      using tl n nb set_next_heap [of "(jl_heap s)(?jp \<mapsto> ?n)" b n] by (simp add: add_job_def Let_def h1_def)
    moreover have "\<forall>a\<in>dom h1. a < ?jp + 1" using r(3) n by (auto simp: h1_def less_Suc_eq)
    ultimately show ?thesis using r(2) new snoc b by (auto simp: job_rep_def h1_def)
  qed
qed

lemma replace_job_prepends:
  assumes "job_rep s xs" and n: "jl_heap s a = Some n" "nd_item n = x" and new: "a \<notin> fst ` set xs"
  shows "\<exists>s1. replace_job (Some a) s = Inr s1 \<and> job_rep s1 ((a, x) # xs) \<and> (\<forall>b. b \<notin> fst ` set xs \<longrightarrow> b \<noteq> a \<longrightarrow> jl_heap s1 b = jl_heap s b) \<and> jl_brk s1 = jl_brk s"
proof -
  have r: "dseg (jl_heap s) None (jobhead s) xs (jobtail s) None" "distinct (map fst xs)" "\<forall>a\<in>dom (jl_heap s). a < jl_brk s" using assms by (auto simp: job_rep_def)
  define h1 where "h1 = (jl_heap s)(a \<mapsto> \<lparr>nd_next = jobhead s, nd_prev = None, nd_item = x\<rparr>)"
  have h1: "set_next (Some a) (jobhead s) ((jl_heap s)(a \<mapsto> n\<lparr>nd_prev := None\<rparr>)) = Inr h1"
    using n(2) set_next_heap [of "(jl_heap s)(a \<mapsto> n\<lparr>nd_prev := None\<rparr>)" a "n\<lparr>nd_prev := None\<rparr>"] by (cases n) (simp add: h1_def)
  show ?thesis
  proof (cases xs)
    case Nil
    then have "jobhead s = None" using r(1) by simp
    then have "replace_job (Some a) s = Inr (s\<lparr>jl_heap := h1, jobtail := Some a, jobhead := Some a\<rparr>)"
      using n h1 by (simp add: replace_job_def set_prev_heap)
    then show ?thesis using r Nil n by (auto simp: job_rep_def h1_def)
  next
    case (Cons e ys)
    obtain b y where b: "e = (b, y)" by force
    have hd: "jobhead s = Some b" using dseg_first [OF r(1)] Cons b by simp
    obtain m where m: "jl_heap s b = Some m" using dseg_in_heap [OF r(1), of b] Cons b by auto
    have ab: "a \<noteq> b" using new Cons b by auto
    define h2 where "h2 = h1(b \<mapsto> m\<lparr>nd_prev := Some a\<rparr>)"
    have "dseg h1 None (jobhead s) ((b, y) # ys) (jobtail s) None" unfolding h1_def using r(1) new Cons b by simp
    then have "dseg h2 (Some a) (jobhead s) xs (jobtail s) None"
      unfolding h2_def Cons b by (rule dseg_set_start) (use r(2) Cons b m ab in \<open>auto simp: h1_def\<close>)
    then have "dseg h2 None (Some a) ((a, x) # xs) (jobtail s) None" using ab by (auto simp: h2_def h1_def)
    moreover have "replace_job (Some a) s = Inr (s\<lparr>jl_heap := h2, jobhead := Some a\<rparr>)"
      using n h1 hd m ab by (simp add: replace_job_def set_prev_heap h2_def h1_def)
    moreover have "\<forall>c\<in>dom h2. c < jl_brk s" using r(3) n m by (auto simp: h2_def h1_def)
    ultimately show ?thesis using r(2) new Cons b by (auto simp: job_rep_def h2_def h1_def)
  qed
qed


lemma remove_job_removes:
  assumes "job_rep s (ys @ (a, x) # zs)"
  shows "\<exists>s1 n. remove_job (Some a) s = Inr s1 \<and> job_rep s1 (ys @ zs) \<and> jl_heap s1 a = Some n \<and> nd_item n = x \<and>
    (\<forall>b. b \<notin> fst ` set (ys @ zs) \<longrightarrow> jl_heap s1 b = jl_heap s b) \<and> jl_brk s1 = jl_brk s"
proof -
  have r: "dseg (jl_heap s) None (jobhead s) (ys @ (a, x) # zs) (jobtail s) None" "distinct (map fst (ys @ (a, x) # zs))" "\<forall>a\<in>dom (jl_heap s). a < jl_brk s"
    using assms by (auto simp: job_rep_def)
  obtain p q where sy: "dseg (jl_heap s) None (jobhead s) ys p (Some a)" and n: "jl_heap s a = Some \<lparr>nd_next = q, nd_prev = p, nd_item = x\<rparr>"
      and sz: "dseg (jl_heap s) (Some a) q zs (jobtail s) None"
    using r(1) dseg_append [of "jl_heap s" None "jobhead s" ys] by auto
  have ay: "a \<notin> fst ` set ys" "a \<notin> fst ` set zs" using r(2) by auto
  obtain s1 where s1: "(if q \<noteq> None then bind_c (set_prev q p (jl_heap s)) (\<lambda>h. Inr (s\<lparr>jl_heap := h\<rparr>)) else Inr (s\<lparr>jobtail := p\<rparr>)) = Inr s1"
      "dseg (jl_heap s1) p q zs (jobtail s1) None" "\<forall>b. b \<notin> fst ` set zs \<longrightarrow> jl_heap s1 b = jl_heap s b" "dom (jl_heap s1) = dom (jl_heap s)"
      "jobhead s1 = jobhead s" "jl_brk s1 = jl_brk s"
  proof (cases zs)
    case Nil
    then show ?thesis using sz that [of "s\<lparr>jobtail := p\<rparr>"] by simp
  next
    case (Cons e zs')
    obtain b y where b: "e = (b, y)" by force
    obtain m where m: "jl_heap s b = Some m" "q = Some b" using sz Cons b by auto
    have "dseg ((jl_heap s)(b \<mapsto> m\<lparr>nd_prev := p\<rparr>)) p q zs (jobtail s) None"
      using dseg_set_start [of "jl_heap s" "Some a" q b y zs' "jobtail s" None m p] sz r(2) m Cons b by simp
    then show ?thesis using that [of "s\<lparr>jl_heap := (jl_heap s)(b \<mapsto> m\<lparr>nd_prev := p\<rparr>)\<rparr>"] m Cons b by (auto simp: set_prev_heap)
  qed
  have n1: "jl_heap s1 a = Some \<lparr>nd_next = q, nd_prev = p, nd_item = x\<rparr>" using s1(3) ay n by simp
  have sy1: "dseg (jl_heap s1) None (jobhead s1) ys p (Some a)" 
  proof -
    have "\<And>b. b \<in> fst ` set ys \<Longrightarrow> jl_heap s1 b = jl_heap s b" using s1(3) r(2) by (auto simp: disjoint_iff)
    then show ?thesis using sy s1(5) dseg_cong [of ys "jl_heap s1" "jl_heap s"] by simp
  qed
  have rm: "remove_job (Some a) s = (if p \<noteq> None then bind_c (set_next p q (jl_heap s1)) (\<lambda>h. Inr (s1\<lparr>jl_heap := h\<rparr>)) else Inr (s1\<lparr>jobhead := q\<rparr>))"
  proof -
    have "deref (jl_heap s) (Some a) = Inr \<lparr>nd_next = q, nd_prev = p, nd_item = x\<rparr>" "deref (jl_heap s1) (Some a) = Inr \<lparr>nd_next = q, nd_prev = p, nd_item = x\<rparr>"
      using n n1 by (simp_all add: deref_def)
    then show ?thesis unfolding remove_job_def using s1(1) by (simp only: bind_c_simps dnode.select_convs)
  qed
  show ?thesis
  proof (cases ys rule: rev_cases)
    case Nil
    then have "p = None" using sy by simp
    then show ?thesis using rm Nil s1 n1 r by (auto simp: job_rep_def)
  next
    case (snoc ys' e)
    obtain b y where b: "e = (b, y)" by force
    have p: "p = Some b" using dseg_last [OF sy] snoc b by simp
    obtain m where m: "jl_heap s1 b = Some m" using dseg_in_heap [OF sy1, of b] snoc b by auto
    define h2 where "h2 = (jl_heap s1)(b \<mapsto> m\<lparr>nd_next := q\<rparr>)"
    have bz: "b \<notin> fst ` set zs" "b \<noteq> a" using r(2) snoc b by auto
    have "dseg h2 None (jobhead s1) ys p q"
      unfolding h2_def using dseg_set_end [of "jl_heap s1" None "jobhead s1" ys' b y p "Some a" m q] sy1 snoc b r(2) m by simp
    moreover have "dseg h2 p q zs (jobtail s1) None" unfolding h2_def using s1(2) bz by simp
    ultimately have "dseg h2 None (jobhead s1) (ys @ zs) (jobtail s1) None" unfolding dseg_append by blast
    moreover have "remove_job (Some a) s = Inr (s1\<lparr>jl_heap := h2\<rparr>)" using rm p m by (simp add: set_next_heap h2_def)
    moreover have "dom h2 = dom (jl_heap s)" using m s1(4) by (auto simp: h2_def)
    then have "\<forall>c\<in>dom h2. c < jl_brk s1" using r(3) s1(6) by simp
    ultimately show ?thesis using r(2) n1 bz s1(3,6) snoc b by (auto simp: job_rep_def h2_def)
  qed
qed

subsection \<open>The contract of the job list\<close>

text \<open>
  The printer thread takes the first job out of the list and holds it until it is printed, when it is freed, or has to be deferred, when it goes back to the front. The state of the
  contract is the sequence of waiting jobs and the job in hand. The thread waits while the list is empty, and takes only one job at a time.
\<close>

datatype 'a queue_op = Add 'a | Pick | Finish | Defer

fun queue_spec :: "'a queue_op \<Rightarrow> 'a list \<times> 'a option \<Rightarrow> 'a list \<times> 'a option" where
  "queue_spec (Add x) (xs, hand) = (xs @ [x], hand)"
| "queue_spec Pick (xs, hand) = (if hand = None \<and> xs \<noteq> [] then (tl xs, Some (hd xs)) else (xs, hand))"
| "queue_spec Finish (xs, hand) = (xs, None)"
| "queue_spec Defer (xs, hand) = (case hand of None \<Rightarrow> (xs, None) | Some x \<Rightarrow> (x # xs, None))"

definition queue_exec :: "('a \<Rightarrow> 's \<Rightarrow> 's cres) \<Rightarrow> ('s \<Rightarrow> 's cres) \<Rightarrow> ('s \<Rightarrow> 's cres) \<Rightarrow> ('s \<Rightarrow> 's cres) \<Rightarrow> 'a queue_op \<Rightarrow> 's \<Rightarrow> 's cres" where
  "queue_exec add pick finish putback oper s = (case oper of Add x \<Rightarrow> add x s | Pick \<Rightarrow> pick s | Finish \<Rightarrow> finish s | Defer \<Rightarrow> putback s)"

fun fold_c :: "('b \<Rightarrow> 's \<Rightarrow> 's cres) \<Rightarrow> 'b list \<Rightarrow> 's \<Rightarrow> 's cres" where
  "fold_c f [] s = Inr s"
| "fold_c f (x # xs) s = bind_c (f x s) (\<lambda>s1. fold_c f xs s1)"

locale job_store =
  fixes rep :: "'s \<Rightarrow> 'a list \<times> 'a option \<Rightarrow> bool"
    and add :: "'a \<Rightarrow> 's \<Rightarrow> 's cres"
    and pick :: "'s \<Rightarrow> 's cres"
    and finish :: "'s \<Rightarrow> 's cres"
    and putback :: "'s \<Rightarrow> 's cres"
  assumes add_rep: "rep s q \<Longrightarrow> \<exists>s1. add x s = Inr s1 \<and> rep s1 (queue_spec (Add x) q)"
    and pick_rep: "rep s q \<Longrightarrow> \<exists>s1. pick s = Inr s1 \<and> rep s1 (queue_spec Pick q)"
    and finish_rep: "rep s q \<Longrightarrow> \<exists>s1. finish s = Inr s1 \<and> rep s1 (queue_spec Finish q)"
    and back_rep: "rep s q \<Longrightarrow> \<exists>s1. putback s = Inr s1 \<and> rep s1 (queue_spec Defer q)"
begin

lemma exec_rep: "rep s q \<Longrightarrow> \<exists>s1. queue_exec add pick finish putback oper s = Inr s1 \<and> rep s1 (queue_spec oper q)"
  using add_rep pick_rep finish_rep back_rep unfolding queue_exec_def by (cases oper; simp only: queue_op.case; blast)

lemma run_rep: "rep s q \<Longrightarrow> \<exists>s1. fold_c (queue_exec add pick finish putback) ops s = Inr s1 \<and> rep s1 (fold queue_spec ops q)"
proof (induction ops arbitrary: s q)
  case (Cons oper ops)
  obtain s1 where "queue_exec add pick finish putback oper s = Inr s1" "rep s1 (queue_spec oper q)" using exec_rep [OF Cons.prems] by blast
  then show ?case using Cons.IH by fastforce
qed simp

end

text \<open>The steps of the printer thread on the list, with the pointer \<^verbatim>\<open>jp\<close>.\<close>

definition pick_job :: "'a joblist \<times> nat option \<Rightarrow> ('a joblist \<times> nat option) cres" where
  "pick_job = (\<lambda>(s, jp). if jp \<noteq> None \<or> jobhead s = None then Inr (s, jp) else bind_c (remove_job (jobhead s) s) (\<lambda>s1. Inr (s1, jobhead s)))"

definition finish_job :: "'a joblist \<times> nat option \<Rightarrow> ('a joblist \<times> nat option) cres" where
  "finish_job = (\<lambda>(s, jp). bind_c (free_job jp s) (\<lambda>s1. Inr (s1, None)))"

definition defer_job :: "'a joblist \<times> nat option \<Rightarrow> ('a joblist \<times> nat option) cres" where
  "defer_job = (\<lambda>(s, jp). if jp \<noteq> None then bind_c (replace_job jp s) (\<lambda>s1. Inr (s1, None)) else Inr (s, None))"

definition enqueue_job :: "'a \<Rightarrow> 'a joblist \<times> nat option \<Rightarrow> ('a joblist \<times> nat option) cres" where
  "enqueue_job x = (\<lambda>(s, jp). bind_c (add_job x s) (\<lambda>s1. Inr (s1, jp)))"

definition jobs_rep :: "'a joblist \<times> nat option \<Rightarrow> 'a list \<times> 'a option \<Rightarrow> bool" where
  "jobs_rep st q = (case st of (s, jp) \<Rightarrow> case q of (xs, hand) \<Rightarrow> \<exists>as. job_rep s as \<and> map snd as = xs \<and>
     (case hand of None \<Rightarrow> jp = None | Some x \<Rightarrow> \<exists>a n. jp = Some a \<and> jl_heap s a = Some n \<and> nd_item n = x \<and> a \<notin> fst ` set as))"

lemma jobs_rep_enqueue:
  assumes "jobs_rep (s, jp) (xs, hand)"
  shows "\<exists>s1. enqueue_job x (s, jp) = Inr s1 \<and> jobs_rep s1 (queue_spec (Add x) (xs, hand))"
proof -
  obtain as where as: "job_rep s as" "map snd as = xs"
      "case hand of None \<Rightarrow> jp = None | Some x \<Rightarrow> \<exists>a n. jp = Some a \<and> jl_heap s a = Some n \<and> nd_item n = x \<and> a \<notin> fst ` set as"
    using assms by (auto simp: jobs_rep_def)
  obtain s1 where s1: "add_job x s = Inr s1" "job_rep s1 (as @ [(jl_brk s, x)])" "\<And>a. a \<notin> fst ` set as \<Longrightarrow> a \<noteq> jl_brk s \<Longrightarrow> jl_heap s1 a = jl_heap s a"
    using add_job_appends [OF as(1)] by blast
  have "a \<noteq> jl_brk s" if "jl_heap s a = Some n" for a n using as(1) that by (auto simp: job_rep_def)
  then have "jobs_rep (s1, jp) (xs @ [x], hand)"
    using as(2,3) s1(2,3) unfolding jobs_rep_def prod.case by (intro exI [of _ "as @ [(jl_brk s, x)]"]) (auto split: option.splits)
  then show ?thesis using s1(1) by (simp add: enqueue_job_def)
qed

lemma jobs_rep_pick:
  assumes "jobs_rep (s, jp) (xs, hand)"
  shows "\<exists>s1. pick_job (s, jp) = Inr s1 \<and> jobs_rep s1 (queue_spec Pick (xs, hand))"
proof -
  obtain as where as: "job_rep s as" "map snd as = xs"
      "case hand of None \<Rightarrow> jp = None | Some x \<Rightarrow> \<exists>a n. jp = Some a \<and> jl_heap s a = Some n \<and> nd_item n = x \<and> a \<notin> fst ` set as"
    using assms by (auto simp: jobs_rep_def)
  have j: "jp = None \<longleftrightarrow> hand = None" using as(3) by (auto split: option.splits)
  have h: "jobhead s = first_ptr as" using as(1) dseg_first unfolding job_rep_def by (metis first_ptr_simps(1))
  show ?thesis
  proof (cases "hand = None \<and> xs \<noteq> []")
    case False
    then have "jp \<noteq> None \<or> jobhead s = None" using j h as(2) by auto
    then show ?thesis using assms False by (auto simp: pick_job_def)
  next
    case True
    then obtain a x bs where b: "as = (a, x) # bs" using as(2) by (cases as) auto
    then obtain s1 n where "remove_job (Some a) s = Inr s1" "job_rep s1 bs" "jl_heap s1 a = Some n" "nd_item n = x"
      using remove_job_removes [of s "[]" a x bs] as(1) by auto
    moreover have "a \<notin> fst ` set bs" using as(1) b by (simp add: job_rep_def)
    ultimately show ?thesis using True b j h as(2) by (auto simp: pick_job_def jobs_rep_def)
  qed
qed

lemma jobs_rep_finish:
  assumes "jobs_rep (s, jp) (xs, hand)"
  shows "\<exists>s1. finish_job (s, jp) = Inr s1 \<and> jobs_rep s1 (queue_spec Finish (xs, hand))"
proof -
  obtain as where as: "job_rep s as" "map snd as = xs"
      "case hand of None \<Rightarrow> jp = None | Some x \<Rightarrow> \<exists>a n. jp = Some a \<and> jl_heap s a = Some n \<and> nd_item n = x \<and> a \<notin> fst ` set as"
    using assms by (auto simp: jobs_rep_def)
  then show ?thesis
    by (cases hand) (auto simp: finish_job_def free_job_def jobs_rep_def job_rep_def intro!: exI [of _ as])
qed

lemma jobs_rep_defer:
  assumes "jobs_rep (s, jp) (xs, hand)"
  shows "\<exists>s1. defer_job (s, jp) = Inr s1 \<and> jobs_rep s1 (queue_spec Defer (xs, hand))"
proof -
  obtain as where as: "job_rep s as" "map snd as = xs"
      "case hand of None \<Rightarrow> jp = None | Some x \<Rightarrow> \<exists>a n. jp = Some a \<and> jl_heap s a = Some n \<and> nd_item n = x \<and> a \<notin> fst ` set as"
    using assms by (auto simp: jobs_rep_def)
  show ?thesis
  proof (cases hand)
    case None
    then show ?thesis using as by (auto simp: defer_job_def jobs_rep_def)
  next
    case (Some x)
    then obtain a n where a: "jp = Some a" "jl_heap s a = Some n" "nd_item n = x" "a \<notin> fst ` set as" using as(3) by auto
    obtain s1 where "replace_job (Some a) s = Inr s1" "job_rep s1 ((a, x) # as)" using replace_job_prepends [OF as(1) a(2,3,4)] by blast
    then show ?thesis using a Some as(2) by (auto simp: defer_job_def jobs_rep_def intro!: exI [of _ "(a, x) # as"])
  qed
qed

interpretation printq: job_store jobs_rep enqueue_job pick_job finish_job defer_job
  by unfold_locales
    (metis jobs_rep_enqueue prod.collapse, metis jobs_rep_pick prod.collapse, metis jobs_rep_finish prod.collapse, metis jobs_rep_defer prod.collapse)


subsection \<open>The list of threads\<close>

text \<open>
  A thread enters itself with its socket when it starts and takes itself out when it ends; the lookup walks along the \<^verbatim>\<open>next\<close> pointers from \<^verbatim>\<open>workers\<close>. A walk visits a node once, so it has
  as many steps as there are addresses.
\<close>

record workers =
  wk_heap :: "(nat \<times> nat) dheap"
  wk_head :: "nat option"
  wk_brk :: nat
  wk_closed :: "nat list"

definition workers_init :: workers where
  "workers_init = \<lparr>wk_heap = Map.empty, wk_head = None, wk_brk = 0, wk_closed = []\<rparr>"

definition add_worker :: "nat \<Rightarrow> nat \<Rightarrow> workers \<Rightarrow> workers cres" where
  "add_worker tid sockfd w =
     (let wtp = wk_brk w;
          h0 = (wk_heap w)(wtp \<mapsto> \<lparr>nd_next = wk_head w, nd_prev = None, nd_item = (tid, sockfd)\<rparr>);
          w0 = w\<lparr>wk_brk := wtp + 1\<rparr>
      in if wk_head w = None then Inr (w0\<lparr>wk_heap := h0, wk_head := Some wtp\<rparr>)
         else bind_c (set_prev (wk_head w) (Some wtp) h0) (\<lambda>h1. Inr (w0\<lparr>wk_heap := h1\<rparr>)))"

fun walk_workers :: "nat \<Rightarrow> (nat \<times> nat) dheap \<Rightarrow> nat option \<Rightarrow> (nat \<times> nat \<times> nat) list outcome cres" where
  "walk_workers fuel h None = Inr (Done [])"
| "walk_workers 0 h (Some a) = Inr Diverges"
| "walk_workers (Suc fuel) h (Some a) =
     (case h a of None \<Rightarrow> Inl OutOfBounds
      | Some n \<Rightarrow> bind_e (walk_workers fuel h (nd_next n)) (\<lambda>ws. Inr (Done ((a, nd_item n) # ws))))"

text \<open>The threads that \<^verbatim>\<open>kill_workers\<close> cancels.\<close>

definition kill_workers :: "workers \<Rightarrow> nat list outcome cres" where
  "kill_workers w = bind_e (walk_workers (wk_brk w) (wk_heap w) (wk_head w)) (\<lambda>ws. Inr (Done (map (\<lambda>(a, tid, sockfd). tid) ws)))"

fun find_worker :: "nat \<Rightarrow> (nat \<times> nat) dheap \<Rightarrow> nat option \<Rightarrow> nat \<Rightarrow> nat option outcome cres" where
  "find_worker fuel h None tid = Inr (Done None)"
| "find_worker 0 h (Some a) tid = Inr Diverges"
| "find_worker (Suc fuel) h (Some a) tid =
     (case h a of None \<Rightarrow> Inl OutOfBounds
      | Some n \<Rightarrow> if fst (nd_item n) = tid then Inr (Done (Some a)) else find_worker fuel h (nd_next n) tid)"

definition unlink_worker :: "nat \<Rightarrow> workers \<Rightarrow> workers cres" where
  "unlink_worker a w =
     bind_c (deref (wk_heap w) (Some a)) (\<lambda>n.
     bind_c (if nd_next n \<noteq> None then set_prev (nd_next n) (nd_prev n) (wk_heap w) else Inr (wk_heap w)) (\<lambda>h1.
     bind_c (deref h1 (Some a)) (\<lambda>n1.
       if nd_prev n1 \<noteq> None then bind_c (set_next (nd_prev n1) (nd_next n1) h1) (\<lambda>h2. Inr (w\<lparr>wk_heap := h2\<rparr>))
       else Inr (w\<lparr>wk_heap := h1, wk_head := nd_next n1\<rparr>))))"

definition client_cleanup :: "nat \<Rightarrow> workers \<Rightarrow> workers outcome cres" where
  "client_cleanup tid w =
     bind_e (find_worker (wk_brk w) (wk_heap w) (wk_head w) tid) (\<lambda>r. case r of
        None \<Rightarrow> Inr (Done w)
      | Some a \<Rightarrow>
          bind_c (unlink_worker a w) (\<lambda>w1.
          bind_c (deref (wk_heap w1) (Some a)) (\<lambda>n.
            Inr (Done (w1\<lparr>wk_closed := wk_closed w1 @ [snd (nd_item n)], wk_heap := (wk_heap w1)(a := None)\<rparr>)))))"

datatype worker_op = Enter nat nat | Leave nat

definition worker_step :: "worker_op \<Rightarrow> workers \<Rightarrow> workers outcome cres" where
  "worker_step oper w = (case oper of
      Enter tid sockfd \<Rightarrow> bind_c (add_worker tid sockfd w) (\<lambda>w1. Inr (Done w1))
    | Leave tid \<Rightarrow> client_cleanup tid w)"

fun worker_run :: "worker_op list \<Rightarrow> workers \<Rightarrow> workers outcome cres" where
  "worker_run [] w = Inr (Done w)"
| "worker_run (x # xs) w = bind_e (worker_step x w) (\<lambda>w1. worker_run xs w1)"

text \<open>One client after the other: the list is empty again, the socket is closed, the node freed.\<close>

lemma one_worker:
  assumes "wk_head w = None"
  shows "worker_run [Enter t s, Leave t] w = Inr (Done (w\<lparr>wk_brk := wk_brk w + 1, wk_heap := (wk_heap w)(wk_brk w := None), wk_closed := wk_closed w @ [s]\<rparr>))"
  using assms by (simp add: worker_step_def add_worker_def client_cleanup_def unlink_worker_def deref_def Let_def)

lemma workers_one_by_one:
  "wk_head w = None \<Longrightarrow> \<exists>w1. worker_run (concat (map (\<lambda>(t, s). [Enter t s, Leave t]) cs)) w = Inr (Done w1) \<and> wk_head w1 = None \<and> wk_closed w1 = wk_closed w @ map snd cs"
proof (induction cs arbitrary: w)
  case (Cons c cs)
  obtain t s where c: "c = (t, s)" by force
  let ?w = "w\<lparr>wk_brk := wk_brk w + 1, wk_heap := (wk_heap w)(wk_brk w := None), wk_closed := wk_closed w @ [s]\<rparr>"
  have app: "worker_run (xs @ ys) w = bind_e (worker_run xs w) (\<lambda>w1. worker_run ys w1)" for xs ys w
    by (induction xs arbitrary: w) (auto simp: bind_e_assoc intro!: bind_e_cong)
  have "worker_run (concat (map (\<lambda>(t, s). [Enter t s, Leave t]) (c # cs))) w = worker_run (concat (map (\<lambda>(t, s). [Enter t s, Leave t]) cs)) ?w"
    unfolding c list.map concat.simps prod.case app one_worker [OF Cons.prems] bind_e_simps ..
  moreover have "wk_head ?w = None" using Cons.prems by simp
  from Cons.IH [OF this] obtain w1 where "worker_run (concat (map (\<lambda>(t, s). [Enter t s, Leave t]) cs)) ?w = Inr (Done w1)" "wk_head w1 = None"
      "wk_closed w1 = wk_closed ?w @ map snd cs" by blast
  moreover have "wk_closed ?w @ map snd cs = wk_closed w @ map snd (c # cs)" using c by simp
  ultimately show ?case by metis
qed simp

subsection \<open>The properties\<close>

text \<open>
  C31: The list of print jobs refines a sequence. Any sequence of arrivals, of the printer thread's taking the first job, freeing it or putting it back, runs on the doubly linked list without
  following a null pointer or a pointer to freed memory, and the list then holds exactly the jobs of the sequence, in its order, with the job in the printer's hand outside it.
\<close>

theorem job_queue_refines:
  "\<exists>s. fold_c (queue_exec enqueue_job pick_job finish_job defer_job) ops (jobs_init, None) = Inr s \<and> jobs_rep s (fold queue_spec ops ([], None))"
  by (rule printq.run_rep) (simp add: jobs_rep_def job_rep_init)

text \<open>
  C34: The list of threads breaks when two clients overlap. While at most one client is served at a time the list works: every socket is closed and every node freed. But
  a thread that starts while another is entered is not reachable from the head, so that its socket is never closed, and when the first ends, the head keeps pointing to the node that is freed: the
  next client makes the daemon write to freed memory.
\<close>

theorem workers_overlap_dangle:
  assumes "t1 \<noteq> t2"
  shows "\<exists>w. worker_run (concat (map (\<lambda>(t, s). [Enter t s, Leave t]) cs)) workers_init = Inr (Done w) \<and> wk_closed w = map snd cs \<and>
    (\<exists>w2. worker_run [Enter t1 s1, Enter t2 s2, Leave t2] w = Inr (Done w2) \<and> wk_closed w2 = wk_closed w) \<and>
    worker_run [Enter t1 s1, Enter t2 s2, Leave t1, Enter t3 s3] w = Inl OutOfBounds"
proof -
  obtain w where w: "worker_run (concat (map (\<lambda>(t, s). [Enter t s, Leave t]) cs)) workers_init = Inr (Done w)" "wk_head w = None" "wk_closed w = map snd cs"
    using workers_one_by_one [of workers_init cs] by (auto simp: workers_init_def)
  note ops = worker_step_def add_worker_def client_cleanup_def unlink_worker_def set_prev_def set_next_def deref_def Let_def
  have "\<exists>w2. worker_run [Enter t1 s1, Enter t2 s2, Leave t2] w = Inr (Done w2) \<and> wk_closed w2 = wk_closed w" using w(2) assms by (simp add: ops)
  moreover have "worker_run [Enter t1 s1, Enter t2 s2, Leave t1, Enter t3 s3] w = Inl OutOfBounds" using w(2) assms by (simp add: ops)
  ultimately show ?thesis using w by blast
qed

theorem workers_overlap_dangle_witness:
  "\<exists>w. worker_run (concat (map (\<lambda>(t, s). [Enter t s, Leave t]) [(1, 5)])) workers_init = Inr (Done w) \<and> wk_closed w = [5] \<and>
    (\<exists>w2. worker_run [Enter 2 6, Enter 3 7, Leave 3] w = Inr (Done w2) \<and> wk_closed w2 = wk_closed w) \<and>
    worker_run [Enter 2 6, Enter 3 7, Leave 2, Enter 4 8] w = Inl OutOfBounds"
  using workers_overlap_dangle [of 2 3 "[(1, 5)]" 6 7 4 8] by simp

end
