(* ===== verification/Spool_Request.thy ===== *)
theory Spool_Request
  imports Io_Library
begin

section \<open>Submitting a file to the print spooler (print.c, util.c, print.h)\<close>

text \<open>
  The client \<^verbatim>\<open>print.c\<close> of \<^verbatim>\<open>src/literature/apue3e/apue.3e/printer/\<close>, the functions of \<^verbatim>\<open>util.c\<close> that it shares with the daemon, and the two functions for sockets from
  \<^verbatim>\<open>src/literature/apue3e/apue.3e/sockets/\<close> that they call. A request and a response travel as the bytes of a C structure; integers in a request are nonnegative and below
  \<open>2 ^ 32\<close>. Bytes of a structure that the program does not set are arguments. The resolver is an argument too.
\<close>

subsection \<open>Integers in network order\<close>

definition be32 :: "nat \<Rightarrow> string" where
  "be32 n = [char_of (n div 2 ^ 24), char_of (n div 2 ^ 16), char_of (n div 2 ^ 8), char_of n]"

definition un_be :: "string \<Rightarrow> nat" where
  "un_be s = foldl (\<lambda>a c. a * 256 + of_char c) 0 s"

definition le32 :: "nat \<Rightarrow> string" where "le32 n = rev (be32 n)"
definition un_le :: "string \<Rightarrow> nat" where "un_le s = un_be (rev s)"

definition htonl :: "nat \<Rightarrow> nat" where "htonl n = un_le (be32 n)"
definition ntohl :: "nat \<Rightarrow> nat" where "ntohl n = un_be (le32 n)"

lemma be32_length [simp]: "length (be32 n) = 4" "length (le32 n) = 4"
  by (simp_all add: be32_def le32_def)

lemma un_be_be32: "un_be (be32 n) = n mod 2 ^ 32"
proof -
  have d: "n div 2 ^ 24 = n div 2 ^ 16 div 256" "n div 2 ^ 16 = n div 2 ^ 8 div 256" "n div 2 ^ 8 = n div 256" by (simp_all add: div_mult2_eq [symmetric])
  have m: "n mod 2 ^ 32 = 256 * (256 * (256 * (n div 256 div 256 div 256 mod 256) + n div 256 div 256 mod 256) + n div 256 mod 256) + n mod 256"
  proof -
    have s: "x mod (256 * k) = 256 * (x div 256 mod k) + x mod 256" for x k :: nat by (simp add: mod_mult2_eq)
    have "(2 ^ 32 :: nat) = 256 * (256 * (256 * 256))" by simp
    then show ?thesis using s [of n "256 * (256 * 256)"] s [of "n div 256" "256 * 256"] s [of "n div 256 div 256" 256] by (simp only:)
  qed
  show ?thesis unfolding m un_be_def be32_def d by (simp add: of_char_of take_bit_eq_mod)
qed

lemma un_le_le32: "un_le (le32 n) = n mod 2 ^ 32"
  by (simp add: un_le_def le32_def un_be_be32)

lemma un_be_less: "un_be s < 256 ^ length s"
proof (induction s rule: rev_induct)
  case (snoc c s)
  have "un_be s * 256 + of_char c < (un_be s + 1) * 256" by simp
  also have "\<dots> \<le> 256 ^ length s * 256" using snoc by (intro mult_le_mono1) simp
  finally show ?case by (simp add: un_be_def)
qed (simp add: un_be_def)

lemma htonl_less: "htonl n < 2 ^ 32"
  using un_be_less [of "rev (be32 n)"] by (simp add: htonl_def un_le_def)

lemma ntohl_less: "ntohl n < 2 ^ 32"
  using un_be_less [of "le32 n"] by (simp add: ntohl_def)

lemma htonl_bytes: "n < 2 ^ 32 \<Longrightarrow> le32 (htonl n) = be32 n"
proof -
  assume n: "n < 2 ^ 32"
  have r: "le32 (un_le s) = s" if l: "length s = 4" for s
  proof -
    obtain a b c d where s: "s = [a, b, c, d]" using l by (auto simp: numeral_eq_Suc length_Suc_conv)
    have q: "(x * 256 + of_char y) div 256 = (x :: nat)" for x and y :: char by simp
    have e: "char_of (x * 256 + of_char y :: nat) = y" for x and y by (simp add: char_of_eq_iff take_bit_eq_mod)
    have d: "k div 2 ^ 24 = k div 256 div 256 div 256" "k div 2 ^ 16 = k div 256 div 256" "k div 2 ^ 8 = k div 256" for k :: nat by (simp_all add: div_mult2_eq [symmetric])
    show ?thesis unfolding le32_def be32_def un_le_def un_be_def s d by (simp only: rev.simps append.simps foldl_Nil foldl_Cons q e)
  qed
  show ?thesis unfolding htonl_def by (rule r) simp
qed

subsection \<open>print.h\<close>

definition USERNM_MAX :: nat where "USERNM_MAX = 64"
definition JOBNM_MAX :: nat where "JOBNM_MAX = 256"
definition MSGLEN_MAX :: nat where "MSGLEN_MAX = 512"
definition IOBUFSZ :: nat where "IOBUFSZ = 8192"
definition PR_TEXT :: nat where "PR_TEXT = 1"
definition ETIME :: int where "ETIME = 62"

record printreq =
  rq_size :: nat
  rq_flags :: nat
  rq_usernm :: string
  rq_jobnm :: string

record printresp =
  rs_retcode :: nat
  rs_jobid :: nat
  rs_msg :: string

definition sizeof_req :: nat where "sizeof_req = 4 + 4 + USERNM_MAX + JOBNM_MAX"
definition sizeof_resp :: nat where "sizeof_resp = 4 + 4 + MSGLEN_MAX"

lemmas print_sizes = USERNM_MAX_def JOBNM_MAX_def MSGLEN_MAX_def sizeof_req_def sizeof_resp_def IOBUFSZ_def

text \<open>The structures as they lie in memory, on a little-endian machine.\<close>

definition preq_bytes :: "printreq \<Rightarrow> string" where
  "preq_bytes r = le32 (rq_size r) @ le32 (rq_flags r) @ rq_usernm r @ rq_jobnm r"

definition req_of :: "string \<Rightarrow> printreq" where
  "req_of s = \<lparr>rq_size = un_le (take 4 s), rq_flags = un_le (take 4 (drop 4 s)), rq_usernm = take USERNM_MAX (drop 8 s), rq_jobnm = take JOBNM_MAX (drop (8 + USERNM_MAX) s)\<rparr>"

definition resp_bytes :: "printresp \<Rightarrow> string" where
  "resp_bytes r = le32 (rs_retcode r) @ le32 (rs_jobid r) @ rs_msg r"

definition resp_of :: "string \<Rightarrow> printresp" where
  "resp_of s = \<lparr>rs_retcode = un_le (take 4 s), rs_jobid = un_le (take 4 (drop 4 s)), rs_msg = take MSGLEN_MAX (drop 8 s)\<rparr>"

definition req_ok :: "printreq \<Rightarrow> bool" where
  "req_ok r \<longleftrightarrow> rq_size r < 2 ^ 32 \<and> rq_flags r < 2 ^ 32 \<and> length (rq_usernm r) = USERNM_MAX \<and> length (rq_jobnm r) = JOBNM_MAX"

lemma preq_bytes_length: "req_ok r \<Longrightarrow> length (preq_bytes r) = sizeof_req"
  by (simp add: req_ok_def preq_bytes_def sizeof_req_def)

lemma req_of_bytes: "req_ok r \<Longrightarrow> req_of (preq_bytes r @ s) = r"
  by (cases r) (simp add: req_ok_def preq_bytes_def req_of_def un_le_le32)

lemma resp_of_bytes:
  "rs_retcode r < 2 ^ 32 \<Longrightarrow> rs_jobid r < 2 ^ 32 \<Longrightarrow> length (rs_msg r) = MSGLEN_MAX \<Longrightarrow> resp_of (resp_bytes r) = r"
  by (cases r) (simp add: resp_bytes_def resp_of_def un_le_le32)

text \<open>An array read as a C string; without a null byte the reading runs past it.\<close>

definition array_str :: "string \<Rightarrow> string cres" where
  "array_str a = (if CHR 0x00 \<in> set a then Inr (takeWhile (\<lambda>c. c \<noteq> CHR 0x00) a) else Inl OutOfBounds)"

subsection \<open>Reading with a timeout\<close>

text \<open>When the descriptor has nothing to offer, \<^verbatim>\<open>select\<close> gives up after the timeout.\<close>

definition tread :: "nat \<Rightarrow> source \<Rightarrow> (int + string) \<times> source" where
  "tread nbytes s = (case read_c nbytes s of
      (Blocked, s1) \<Rightarrow> (Inl ETIME, s1)
    | (ReadErr e, s1) \<Rightarrow> (Inl e, s1)
    | (Bytes b, s1) \<Rightarrow> (Inr b, s1))"

function treadn_loop :: "nat \<Rightarrow> string \<Rightarrow> source \<Rightarrow> (int + string) \<times> source" where
  "treadn_loop nbytes buf s =
     (if length buf < nbytes then
        (case tread (nbytes - length buf) s of
           (Inl e, s1) \<Rightarrow> if buf = [] then (Inl e, s1) else (Inr buf, s1)
         | (Inr b, s1) \<Rightarrow> if b = [] then (Inr buf, s1) else treadn_loop nbytes (buf @ b) s1)
      else (Inr buf, s))"
  by pat_completeness auto
termination
  by (relation "measure (\<lambda>(n, buf, s). n - length buf)") (auto simp: diff_less_mono2)

declare treadn_loop.simps [simp del]

definition treadn :: "nat \<Rightarrow> source \<Rightarrow> (int + string) \<times> source" where
  "treadn nbytes s = treadn_loop nbytes [] s"

subsection \<open>The configuration file\<close>

definition MAXCFGLINE :: nat where "MAXCFGLINE = 512"
definition MAXKWLEN :: nat where "MAXKWLEN = 16"

text \<open>The conversion \<^verbatim>\<open>%15s %511s\<close>: two words, of which the first is cut after 15 characters and the second may be what was cut off.\<close>

definition sscanf2 :: "string \<Rightarrow> (string \<times> string) option" where
  "sscanf2 line =
     (let l = dropWhile isspace_c (takeWhile (\<lambda>c. c \<noteq> CHR 0x00) line);
          w1 = take (MAXKWLEN - 1) (takeWhile (\<lambda>c. \<not> isspace_c c) l);
          w2 = take (MAXCFGLINE - 1) (takeWhile (\<lambda>c. \<not> isspace_c c) (dropWhile isspace_c (drop (length w1) l)))
      in if w1 = [] \<or> w2 = [] then None else Some (w1, w2))"

definition fgets_c :: "nat \<Rightarrow> string \<Rightarrow> string" where
  "fgets_c n s = first_line (take (n - 1) s)"

function config_loop :: "string \<Rightarrow> string \<Rightarrow> string option" where
  "config_loop keyword s =
     (if s = [] then None
      else let line = fgets_c MAXCFGLINE s in
        case sscanf2 line of
          Some (key, val) \<Rightarrow> if key = keyword then Some val else config_loop keyword (drop (length line) s)
        | None \<Rightarrow> config_loop keyword (drop (length line) s))"
  by pat_completeness auto
termination
proof -
  have "s \<noteq> [] \<Longrightarrow> length s - length (fgets_c MAXCFGLINE s) < length s" for s
    by (rule diff_less) (simp_all add: fgets_c_def MAXCFGLINE_def)
  then show ?thesis by (relation "measure (\<lambda>(k, s). length s)") auto
qed

declare config_loop.simps [simp del]

definition scan_configfile :: "string option \<Rightarrow> string \<Rightarrow> string option outcome" where
  "scan_configfile file keyword = (case file of None \<Rightarrow> Exits 2 | Some s \<Rightarrow> Done (config_loop keyword s))"

definition get_printserver :: "string option \<Rightarrow> string option outcome" where
  "get_printserver file = scan_configfile file ''printserver''"

text \<open>An address with the canonical name of its host. The resolver gives a list of them for a host and a service.\<close>

record addrinfo =
  ai_addr :: nat
  ai_canonname :: "string option"

type_synonym resolver = "string \<Rightarrow> string \<Rightarrow> addrinfo list option"

definition get_printaddr :: "string option \<Rightarrow> resolver \<Rightarrow> addrinfo list option outcome" where
  "get_printaddr file getaddrlist = (case scan_configfile file ''printer'' of
      Done (Some p) \<Rightarrow> Done (getaddrlist p ''ipp'')
    | Done None \<Rightarrow> Done None
    | Exits n \<Rightarrow> Exits n
    | Diverges \<Rightarrow> Diverges)"


subsection \<open>Connecting (clconn2.c, initsrv2.c)\<close>

definition MAXSLEEP :: nat where "MAXSLEEP = 128"

datatype conn_try = NoSocket | Refused | ConnOk nat

text \<open>The descriptor or -1, the seconds slept, and the answers that are left; a call without an answer waits for ever.\<close>

function connect_loop :: "nat \<Rightarrow> nat \<Rightarrow> conn_try list \<Rightarrow> (nat option \<times> nat \<times> conn_try list) outcome" where
  "connect_loop numsec slept tries =
     (if numsec \<le> MAXSLEEP \<and> 0 < numsec then
        (case tries of
           [] \<Rightarrow> Diverges
         | NoSocket # ts \<Rightarrow> Done (None, slept, ts)
         | ConnOk fd # ts \<Rightarrow> Done (Some fd, slept, ts)
         | Refused # ts \<Rightarrow> connect_loop (2 * numsec) (if numsec \<le> MAXSLEEP div 2 then slept + numsec else slept) ts)
      else Done (None, slept, tries))"
  by pat_completeness auto
termination
  by (relation "measure (\<lambda>(n, _, _). Suc MAXSLEEP - n)") (auto simp: MAXSLEEP_def)

declare connect_loop.simps [simp del]

definition connect_retry :: "conn_try list \<Rightarrow> (nat option \<times> nat \<times> conn_try list) outcome" where
  "connect_retry tries = connect_loop 1 0 tries"

text \<open>The answers of \<^verbatim>\<open>socket\<close>, \<^verbatim>\<open>setsockopt\<close>, \<^verbatim>\<open>bind\<close> and \<^verbatim>\<open>listen\<close>; the descriptor, and the descriptors closed.\<close>

definition initserver :: "nat option \<Rightarrow> bool \<Rightarrow> bool \<Rightarrow> bool \<Rightarrow> bool \<Rightarrow> nat option \<times> nat list" where
  "initserver sock stream setsockopt_ok bind_ok listen_ok = (case sock of
      None \<Rightarrow> (None, [])
    | Some fd \<Rightarrow> if setsockopt_ok \<and> bind_ok \<and> (stream \<longrightarrow> listen_ok) then (Some fd, []) else (None, [fd]))"

lemma initserver_no_leak: "initserver sock stream a b c = (None, cl) \<Longrightarrow> cl = (case sock of None \<Rightarrow> [] | Some fd \<Rightarrow> [fd])"
  by (auto simp: initserver_def split: option.splits if_splits)

lemma connect_retry_gives_up: "connect_retry (Refused # Refused # Refused # Refused # Refused # Refused # Refused # Refused # ts) = Done (None, 127, ts)"
  by (simp add: connect_retry_def connect_loop.simps MAXSLEEP_def)

subsection \<open>The client (print.c)\<close>

text \<open>\<^verbatim>\<open>strncpy\<close> fills what it copies with null bytes; \<^verbatim>\<open>strcpy\<close> leaves the rest of the array, the arguments \<open>gu\<close> and \<open>gj\<close>, as it was.\<close>

definition user_field :: "string option \<Rightarrow> string \<Rightarrow> string" where
  "user_field pw gu = (case pw of
      None \<Rightarrow> ''unknown'' @ CHR 0x00 # drop 8 gu
    | Some nm \<Rightarrow> take (USERNM_MAX - 1) nm @ replicate (USERNM_MAX - 1 - length nm) (CHR 0x00) @ [CHR 0x00])"

definition job_field :: "string \<Rightarrow> string \<Rightarrow> string" where
  "job_field fname gj =
     (if JOBNM_MAX \<le> length fname then ''... '' @ take (JOBNM_MAX - 5) (drop (length fname - JOBNM_MAX + 5) fname) @ [CHR 0x00]
      else fname @ CHR 0x00 # drop (length fname + 1) gj)"

definition client_request :: "string option \<Rightarrow> string \<Rightarrow> nat \<Rightarrow> bool \<Rightarrow> string \<Rightarrow> string \<Rightarrow> printreq" where
  "client_request pw fname nbytes txt gu gj =
     \<lparr>rq_size = htonl (nbytes mod 2 ^ 32), rq_flags = (if txt then htonl PR_TEXT else 0), rq_usernm = user_field pw gu, rq_jobnm = job_field fname gj\<rparr>"

text \<open>A failed \<^verbatim>\<open>read\<close> of the file makes the client write as many bytes as -1 is, converted to \<^verbatim>\<open>size_t\<close>.\<close>

function send_loop :: "source \<Rightarrow> source \<Rightarrow> source outcome cres" where
  "send_loop file sock = (case read_c IOBUFSZ file of
      (Blocked, f1) \<Rightarrow> Inr Diverges
    | (ReadErr e, f1) \<Rightarrow> Inl OutOfBounds
    | (Bytes b, f1) \<Rightarrow>
        if b = [] then Inr (Done sock)
        else (case apue_writen b sock of
            Done (nw, s1) \<Rightarrow> if nw \<noteq> int (length b) then Inr (Exits 1) else send_loop f1 s1
          | Exits n \<Rightarrow> Inr (Exits n)
          | Diverges \<Rightarrow> Inr Diverges))"
  by pat_completeness auto
termination
  by (relation "measure (\<lambda>(f, s). length (snd f))") (auto dest!: sym [of _ "read_c _ _"] read_c_events)

declare send_loop.simps [simp del]

text \<open>What the client prints and its exit status, and the socket it has written to. The descriptor is read from \<open>reply\<close>.\<close>

definition read_reply :: "source \<Rightarrow> (string \<times> int) outcome cres" where
  "read_reply reply = (case apue_readn sizeof_resp reply of
      Done (nr, b, s1) \<Rightarrow>
        if nr \<noteq> int sizeof_resp then Inr (Exits 1)
        else if rs_retcode (resp_of b) \<noteq> 0 then bind_c (array_str (rs_msg (resp_of b))) (\<lambda>m. Inr (Done (''rejected: '' @ m @ nl, 1)))
        else Inr (Done (''job ID '' @ show_nat 10 (ntohl (rs_jobid (resp_of b))) @ nl, 0))
    | Exits n \<Rightarrow> Inr (Exits n)
    | Diverges \<Rightarrow> Inr Diverges)"

definition submit_file :: "string option \<Rightarrow> string \<Rightarrow> nat \<Rightarrow> bool \<Rightarrow> string \<Rightarrow> string \<Rightarrow> source \<Rightarrow> source \<Rightarrow> source \<Rightarrow> ((string \<times> int) \<times> source) outcome cres" where
  "submit_file pw fname nbytes txt gu gj file sock reply =
     (case apue_writen (preq_bytes (client_request pw fname nbytes txt gu gj)) sock of
        Done (nw, s1) \<Rightarrow>
          if nw \<noteq> int sizeof_req then Inr (Exits 1)
          else bind_e (send_loop file s1) (\<lambda>s2. bind_e (read_reply reply) (\<lambda>r. Inr (Done (r, s2))))
      | Exits n \<Rightarrow> Inr (Exits n)
      | Diverges \<Rightarrow> Inr Diverges)"

text \<open>What the client finds: the options that \<^verbatim>\<open>getopt\<close> returns, the operands, the file, if it can be opened, with its size, and whether it is regular, the configuration, and the answers to the attempts to connect.\<close>

fun try_addresses :: "addrinfo list \<Rightarrow> conn_try list \<Rightarrow> nat option outcome" where
  "try_addresses [] tries = Done None"
| "try_addresses (a # as) tries = (case connect_retry tries of
      Done (Some fd, slept, ts) \<Rightarrow> Done (Some fd)
    | Done (None, slept, ts) \<Rightarrow> try_addresses as ts
    | Exits n \<Rightarrow> Exits n
    | Diverges \<Rightarrow> Diverges)"

definition print_main :: "char list \<Rightarrow> string list \<Rightarrow> (source \<times> nat \<times> bool) option \<Rightarrow> string option \<Rightarrow> resolver \<Rightarrow> conn_try list \<Rightarrow> string option \<Rightarrow>
    string \<Rightarrow> string \<Rightarrow> source \<Rightarrow> source \<Rightarrow> ((string \<times> int) \<times> source) outcome cres" where
  "print_main opts args fileinfo config getaddrlist tries pw gu gj sock reply =
     (if CHR ''?'' \<in> set opts then Inr (Exits 1)
      else case args of
        [fname] \<Rightarrow>
          (case fileinfo of
             None \<Rightarrow> Inr (Exits 1)
           | Some (file, nbytes, regular) \<Rightarrow>
               if \<not> regular then Inr (Exits 1)
               else bind_e (Inr (get_printserver config)) (\<lambda>host. case host of
                   None \<Rightarrow> Inr (Exits 1)
                 | Some h \<Rightarrow> (case getaddrlist h ''print'' of
                       None \<Rightarrow> Inr (Exits 1)
                     | Some as \<Rightarrow> bind_e (Inr (try_addresses as tries)) (\<lambda>c. case c of
                           None \<Rightarrow> Inr (Exits 1)
                         | Some fd \<Rightarrow> submit_file pw fname nbytes (CHR ''t'' \<in> set opts) gu gj file sock reply))))
      | _ \<Rightarrow> Inr (Exits 1))"

subsection \<open>What the client sends\<close>

lemma user_field_length: "length gu = USERNM_MAX \<Longrightarrow> length (user_field pw gu) = USERNM_MAX"
  by (auto simp: user_field_def USERNM_MAX_def split: option.splits)

lemma job_field_length: "length gj = JOBNM_MAX \<Longrightarrow> length (job_field fname gj) = JOBNM_MAX"
  by (auto simp: job_field_def JOBNM_MAX_def)

lemma array_str_append: "CHR 0x00 \<notin> set a \<Longrightarrow> array_str (a @ CHR 0x00 # b) = Inr a"
  by (auto simp: array_str_def takeWhile_append)

lemma user_field_str:
  assumes "case pw of None \<Rightarrow> True | Some nm \<Rightarrow> CHR 0x00 \<notin> set nm"
  shows "array_str (user_field pw gu) = Inr (case pw of None \<Rightarrow> ''unknown'' | Some nm \<Rightarrow> take (USERNM_MAX - 1) nm)"
proof (cases pw)
  case None
  then show ?thesis using array_str_append [of "''unknown''"] by (simp add: user_field_def)
next
  case (Some nm)
  have z: "\<exists>r. replicate k (CHR 0x00) @ [CHR 0x00] = CHR 0x00 # r" for k by (cases k) auto
  have "CHR 0x00 \<notin> set (take (USERNM_MAX - 1) nm)" using assms Some in_set_takeD by fastforce
  then show ?thesis using Some array_str_append z [of "USERNM_MAX - 1 - length nm"] by (fastforce simp: user_field_def)
qed

lemma job_field_str:
  assumes "CHR 0x00 \<notin> set fname"
  shows "array_str (job_field fname gj) = Inr (if length fname < JOBNM_MAX then fname else ''... '' @ drop (length fname - (JOBNM_MAX - 5)) fname)"
proof (cases "length fname < JOBNM_MAX")
  case True
  then show ?thesis using array_str_append [OF assms] by (simp add: job_field_def)
next
  case False
  let ?d = "drop (length fname - (JOBNM_MAX - 5)) fname"
  have e: "take (JOBNM_MAX - 5) (drop (length fname - JOBNM_MAX + 5) fname) = ?d" using False by (simp add: JOBNM_MAX_def)
  have "CHR 0x00 \<notin> set ?d" using assms in_set_dropD by fastforce
  then show ?thesis using False array_str_append [of "''... '' @ ?d" "[]"] unfolding job_field_def e by simp
qed

lemma client_request_ok:
  assumes "length gu = USERNM_MAX" "length gj = JOBNM_MAX"
  shows "req_ok (client_request pw fname nbytes txt gu gj)"
  using assms htonl_less user_field_length job_field_length by (auto simp: req_ok_def client_request_def)

end
