(* ===== verification/Spool_Ipp.thy ===== *)
theory Spool_Ipp
  imports Spool_Request
begin

section \<open>Talking to the printer (printd.c, ipp.h)\<close>

text \<open>
  The message that the daemon sends to the printer, an IPP request inside an HTTP request, and its reading of the printer's response. The message is built in buffers of 512 bytes without checks;
  a write past their end is a fault. The response is searched in a buffer on the heap whose bytes are unknown until something was read into them; reading an unknown byte is a fault as well.
\<close>

subsection \<open>The request\<close>

definition IBUFSZ :: nat where "IBUFSZ = 512"
definition HBUFSZ :: nat where "HBUFSZ = 512"
definition IPP_PORT :: nat where "IPP_PORT = 631"
definition OP_PRINT_JOB :: nat where "OP_PRINT_JOB = 2"
definition TAG_OPERATION_ATTR :: nat where "TAG_OPERATION_ATTR = 1"
definition TAG_END_OF_ATTR :: nat where "TAG_END_OF_ATTR = 3"
definition TAG_NAMEWOLANG :: nat where "TAG_NAMEWOLANG = 0x42"
definition TAG_URI :: nat where "TAG_URI = 0x45"
definition TAG_CHARSET :: nat where "TAG_CHARSET = 0x47"
definition TAG_NATULANG :: nat where "TAG_NATULANG = 0x48"
definition TAG_MIMETYPE :: nat where "TAG_MIMETYPE = 0x49"

lemmas ipp_consts = IBUFSZ_def HBUFSZ_def IPP_PORT_def OP_PRINT_JOB_def TAG_OPERATION_ATTR_def TAG_END_OF_ATTR_def TAG_NAMEWOLANG_def TAG_URI_def TAG_CHARSET_def
  TAG_NATULANG_def TAG_MIMETYPE_def

definition be16 :: "nat \<Rightarrow> string" where
  "be16 n = [char_of (n div 256), char_of n]"

text \<open>The bytes of an option, and \<^verbatim>\<open>add_option\<close>, which appends them to the buffer and a null byte behind them.\<close>

definition option_bytes :: "nat \<times> string \<times> string \<Rightarrow> string" where
  "option_bytes = (\<lambda>(tag, optname, optval). char_of tag # be16 (length optname) @ optname @ be16 (length optval) @ optval)"

definition add_option :: "string \<Rightarrow> nat \<times> string \<times> string \<Rightarrow> string cres" where
  "add_option ibuf opt =
     (if IBUFSZ < length ibuf + length (option_bytes opt) + 1 then Inl BufferOverflow else Inr (ibuf @ option_bytes opt))"

definition mime_type :: "nat \<Rightarrow> string" where
  "mime_type flags = (if odd flags then ''text/plain'' else ''application/postscript'')"

definition printer_uri :: "string \<Rightarrow> string cres" where
  "printer_uri printer_name = (if 64 < length printer_name + 12 then Inl BufferOverflow else Inr (''http://'' @ printer_name @ ''/ipp''))"

definition ipp_start :: "int \<Rightarrow> string" where
  "ipp_start jobid = [char_of (1 :: nat), char_of (1 :: nat)] @ be16 OP_PRINT_JOB @ be32 (nat (jobid mod 2 ^ 32)) @ [char_of TAG_OPERATION_ATTR]"

definition ipp_request :: "string \<Rightarrow> int \<Rightarrow> printreq \<Rightarrow> string cres" where
  "ipp_request printer_name jobid req =
     bind_c (add_option (ipp_start jobid) (TAG_CHARSET, ''attributes-charset'', ''utf-8'')) (\<lambda>b1.
     bind_c (add_option b1 (TAG_NATULANG, ''attributes-natural-language'', ''en-us'')) (\<lambda>b2.
     bind_c (printer_uri printer_name) (\<lambda>str.
     bind_c (add_option b2 (TAG_URI, ''printer-uri'', str)) (\<lambda>b3.
     bind_c (array_str (rq_usernm req)) (\<lambda>usernm.
     bind_c (add_option b3 (TAG_NAMEWOLANG, ''requesting-user-name'', usernm)) (\<lambda>b4.
     bind_c (array_str (rq_jobnm req)) (\<lambda>jobnm.
     bind_c (add_option b4 (TAG_NAMEWOLANG, ''job-name'', jobnm)) (\<lambda>b5.
     bind_c (add_option b5 (TAG_MIMETYPE, ''document-format'', mime_type (rq_flags req))) (\<lambda>b6.
       Inr (b6 @ [char_of TAG_END_OF_ATTR]))))))))))"

definition crlf :: string where "crlf = [CHR 0x0D, CHR 0x0A]"

definition http_lines :: "string \<Rightarrow> nat \<Rightarrow> string" where
  "http_lines printer_name len = ''POST /ipp HTTP/1.1'' @ crlf @ ''Content-Length: '' @ show_nat 10 len @ crlf @ ''Content-Type: application/ipp'' @ crlf @
     ''Host: '' @ printer_name @ '':'' @ show_nat 10 IPP_PORT @ crlf"

definition http_header :: "string \<Rightarrow> nat \<Rightarrow> string cres" where
  "http_header printer_name len = (if HBUFSZ < length (http_lines printer_name len @ crlf) then Inl BufferOverflow else Inr (http_lines printer_name len @ crlf))"

text \<open>The two headers and the byte that makes the printer take PostScript for text; \<open>fsize\<close> is the size of the file as \<^verbatim>\<open>fstat\<close> gave it.\<close>

definition print_headers :: "string \<Rightarrow> int \<Rightarrow> printreq \<Rightarrow> nat \<Rightarrow> (string \<times> string) cres" where
  "print_headers printer_name jobid req fsize =
     bind_c (ipp_request printer_name jobid req) (\<lambda>ibuf.
     bind_c (http_header printer_name (fsize + length ibuf + (if odd (rq_flags req) then 1 else 0))) (\<lambda>hbuf. Inr (hbuf, ibuf)))"

subsection \<open>What the request means\<close>

function parse_attrs :: "string \<Rightarrow> ((nat \<times> string \<times> string) list \<times> string) option" where
  "parse_attrs [] = None"
| "parse_attrs (t # s) =
     (if of_char t = TAG_END_OF_ATTR then Some ([], s)
      else let n = un_be (take 2 s); s1 = drop 2 s; m = un_be (take 2 (drop n s1)); s2 = drop 2 (drop n s1) in
        if length s < 2 \<or> length s1 < n + 2 \<or> length s2 < m then None
        else map_option (\<lambda>(os, r). ((of_char t, take n s1, take m s2) # os, r)) (parse_attrs (drop m s2)))"
  by pat_completeness auto
termination
  by (relation "measure length") auto

declare parse_attrs.simps(2) [simp del]

definition parse_request :: "string \<Rightarrow> (nat \<times> (nat \<times> string \<times> string) list \<times> string) option" where
  "parse_request s =
     (if take 4 s = [char_of (1 :: nat), char_of (1 :: nat)] @ be16 OP_PRINT_JOB \<and> length (take 9 s) = 9 \<and> s ! 8 = char_of TAG_OPERATION_ATTR
      then map_option (\<lambda>(os, r). (un_be (take 4 (drop 4 s)), os, r)) (parse_attrs (drop 9 s)) else None)"

definition request_options :: "string \<Rightarrow> string \<Rightarrow> string \<Rightarrow> nat \<Rightarrow> (nat \<times> string \<times> string) list" where
  "request_options printer_name usernm jobnm flags =
     [(TAG_CHARSET, ''attributes-charset'', ''utf-8''), (TAG_NATULANG, ''attributes-natural-language'', ''en-us''),
      (TAG_URI, ''printer-uri'', ''http://'' @ printer_name @ ''/ipp''), (TAG_NAMEWOLANG, ''requesting-user-name'', usernm),
      (TAG_NAMEWOLANG, ''job-name'', jobnm), (TAG_MIMETYPE, ''document-format'', mime_type flags)]"

definition request_bytes :: "int \<Rightarrow> (nat \<times> string \<times> string) list \<Rightarrow> string" where
  "request_bytes jobid os = ipp_start jobid @ concat (map option_bytes os) @ [char_of TAG_END_OF_ATTR]"

lemma be16_length [simp]: "length (be16 n) = 2"
  by (simp add: be16_def)

lemma un_be_be16: "n < 65536 \<Longrightarrow> un_be (be16 n) = n"
  by (simp add: un_be_def be16_def of_char_of take_bit_eq_mod)

lemma parse_attrs_one:
  assumes "tag < 256" "tag \<noteq> TAG_END_OF_ATTR" "length nm < 65536" "length v < 65536"
  shows "parse_attrs (option_bytes (tag, nm, v) @ s) = map_option (\<lambda>(os, r). ((tag, nm, v) # os, r)) (parse_attrs s)"
  using assms by (simp add: option_bytes_def parse_attrs.simps(2) of_char_of take_bit_eq_mod un_be_be16 Let_def)

lemma parse_attrs_all:
  assumes "\<forall>(tag, nm, v)\<in>set os. tag < 256 \<and> tag \<noteq> TAG_END_OF_ATTR \<and> length nm < 65536 \<and> length v < 65536"
  shows "parse_attrs (concat (map option_bytes os) @ char_of TAG_END_OF_ATTR # s) = Some (os, s)"
  using assms
proof (induction os)
  case Nil
  then show ?case by (simp add: parse_attrs.simps(2) of_char_of take_bit_eq_mod TAG_END_OF_ATTR_def)
next
  case (Cons opt os)
  then show ?case by (cases opt) (simp add: parse_attrs_one)
qed

lemma parse_request_bytes:
  assumes "\<forall>(tag, nm, v)\<in>set os. tag < 256 \<and> tag \<noteq> TAG_END_OF_ATTR \<and> length nm < 65536 \<and> length v < 65536"
  shows "parse_request (request_bytes jobid os @ s) = Some (nat (jobid mod 2 ^ 32), os, s)"
proof -
  let ?r = "concat (map option_bytes os) @ char_of TAG_END_OF_ATTR # s"
  have e: "request_bytes jobid os @ s = ([char_of (1 :: nat), char_of (1 :: nat)] @ be16 OP_PRINT_JOB) @ be32 (nat (jobid mod 2 ^ 32)) @ char_of TAG_OPERATION_ATTR # ?r"
    by (simp add: request_bytes_def ipp_start_def)
  have "nat (jobid mod 2 ^ 32) < 2 ^ 32" by (simp add: nat_less_iff)
  then show ?thesis using parse_attrs_all [OF assms, of s] unfolding parse_request_def e by (simp add: un_be_be32 nth_append)
qed

lemma add_option_Inr: "add_option b opt = Inr b1 \<longleftrightarrow> length b + length (option_bytes opt) + 1 \<le> IBUFSZ \<and> b1 = b @ option_bytes opt"
  by (auto simp: add_option_def)

lemma printer_uri_Inr: "printer_uri p = Inr str \<longleftrightarrow> length p + 12 \<le> 64 \<and> str = ''http://'' @ p @ ''/ipp''"
  by (auto simp: printer_uri_def)

text \<open>The request is complete exactly when everything fits; otherwise a buffer overflows.\<close>

lemma ipp_request_exact:
  assumes "array_str (rq_usernm req) = Inr u" "array_str (rq_jobnm req) = Inr j"
  shows "ipp_request p jobid req =
    (let b = request_bytes jobid (request_options p u j (rq_flags req)) in if length p + 12 \<le> 64 \<and> length b \<le> IBUFSZ then Inr b else Inl BufferOverflow)"
proof -
  let ?b = "request_bytes jobid (request_options p u j (rq_flags req))"
  have i: "ipp_request p jobid req = Inr b \<longleftrightarrow> length p + 12 \<le> 64 \<and> length ?b \<le> IBUFSZ \<and> b = ?b" for b
    unfolding ipp_request_def assms by (auto simp: add_option_Inr printer_uri_Inr request_bytes_def request_options_def)
  have e: "ipp_request p jobid req = Inl e \<Longrightarrow> e = BufferOverflow" for e
    unfolding ipp_request_def assms by (auto simp: bind_c_eq_Inl add_option_def printer_uri_def split: if_splits)
  show ?thesis
  proof (cases "ipp_request p jobid req")
    case (Inl e)
    then show ?thesis using i e by (auto simp: Let_def)
  next
    case (Inr b)
    then show ?thesis using i by (auto simp: Let_def)
  qed
qed


definition request_fits :: "string \<Rightarrow> int \<Rightarrow> printreq \<Rightarrow> string \<Rightarrow> string \<Rightarrow> bool" where
  "request_fits p jobid req u j \<longleftrightarrow> length p + 12 \<le> 64 \<and> length (request_bytes jobid (request_options p u j (rq_flags req))) \<le> IBUFSZ"

lemma http_header_fits: "length p + 12 \<le> 64 \<Longrightarrow> n < 10 ^ 19 \<Longrightarrow> http_header p n = Inr (http_lines p n @ crlf)"
proof -
  assume "length p + 12 \<le> 64" "n < 10 ^ 19"
  moreover have "length (show_nat 10 631) \<le> 3" using length_nat_digits_le [of 10 631 3] by (simp add: show_nat_def)
  ultimately show ?thesis using length_nat_digits_le [of 10 n 19] by (simp add: http_header_def http_lines_def ipp_consts crlf_def show_nat_def)
qed

lemma request_options_small:
  assumes "request_fits p jobid req u j"
  shows "\<forall>(tag, nm, v)\<in>set (request_options p u j (rq_flags req)). tag < 256 \<and> tag \<noteq> TAG_END_OF_ATTR \<and> length nm < 65536 \<and> length v < 65536"
  using assms by (auto simp: request_fits_def request_options_def request_bytes_def option_bytes_def ipp_consts mime_type_def)

lemma print_headers_exact:
  assumes "array_str (rq_usernm req) = Inr u" "array_str (rq_jobnm req) = Inr j" and "length file < 2 ^ 62"
  shows "print_headers p jobid req (length file) =
    (let b = request_bytes jobid (request_options p u j (rq_flags req)); body = b @ (if odd (rq_flags req) then [CHR 0x08] else []) @ file
     in if request_fits p jobid req u j then Inr (http_lines p (length body) @ crlf, b) else Inl BufferOverflow)"
proof -
  let ?b = "request_bytes jobid (request_options p u j (rq_flags req))"
  let ?n = "length file + length ?b + (if odd (rq_flags req) then 1 else 0)"
  show ?thesis
  proof (cases "request_fits p jobid req u j")
    case True
    have "length ?b \<le> 512" using True by (simp add: request_fits_def IBUFSZ_def)
    then have "?n < 10 ^ 19" using assms(3) by simp
    then have "http_header p ?n = Inr (http_lines p ?n @ crlf)" using http_header_fits True by (simp add: request_fits_def)
    moreover have "?n = length (?b @ (if odd (rq_flags req) then [CHR 0x08] else []) @ file)" by simp
    moreover have "ipp_request p jobid req = Inr ?b" using True ipp_request_exact [OF assms(1,2)] by (simp add: request_fits_def Let_def)
    ultimately show ?thesis unfolding print_headers_def Let_def if_P [OF True] by (simp only: bind_c_simps)
  next
    case False
    then show ?thesis using ipp_request_exact [OF assms(1,2)] by (auto simp: print_headers_def request_fits_def Let_def)
  qed
qed

subsection \<open>The response\<close>

type_synonym pbuf = "char option list"

definition getc_at :: "pbuf \<Rightarrow> nat \<Rightarrow> char cres" where
  "getc_at buf i = (if i < length buf then (case buf ! i of None \<Rightarrow> Inl UninitRead | Some c \<Rightarrow> Inr c) else Inl OutOfBounds)"

definition putc_at :: "pbuf \<Rightarrow> nat \<Rightarrow> char \<Rightarrow> pbuf cres" where
  "putc_at buf i c = (if i < length buf then Inr (buf[i := Some c]) else Inl OutOfBounds)"

definition fill_at :: "pbuf \<Rightarrow> nat \<Rightarrow> string \<Rightarrow> pbuf" where
  "fill_at buf off b = take off buf @ map Some b @ drop (off + length b) buf"

function skip_while :: "(char \<Rightarrow> bool) \<Rightarrow> pbuf \<Rightarrow> nat \<Rightarrow> nat cres" where
  "skip_while P buf i = bind_c (getc_at buf i) (\<lambda>c. if P c then skip_while P buf (Suc i) else Inr i)"
  by pat_completeness auto
termination
  by (relation "measure (\<lambda>(P, buf, i). length buf - i)") (auto simp: getc_at_def split: if_splits)

declare skip_while.simps [simp del]

definition isdigit_c :: "char \<Rightarrow> bool" where
  "isdigit_c c \<longleftrightarrow> 48 \<le> (of_char c :: nat) \<and> (of_char c :: nat) \<le> 57"

definition tolower_c :: "char \<Rightarrow> char" where
  "tolower_c c = (let n = of_char c in if 65 \<le> n \<and> n \<le> 90 then char_of (n + 32 :: nat) else c)"

fun ncasecmp :: "pbuf \<Rightarrow> nat \<Rightarrow> string \<Rightarrow> bool cres" where
  "ncasecmp buf i [] = Inr True"
| "ncasecmp buf i (p # ps) = bind_c (getc_at buf i) (\<lambda>c. if tolower_c c = tolower_c p then ncasecmp buf (Suc i) ps else Inr False)"

fun get_chars :: "pbuf \<Rightarrow> nat \<Rightarrow> nat \<Rightarrow> string cres" where
  "get_chars buf i 0 = Inr []"
| "get_chars buf i (Suc n) = bind_c (getc_at buf i) (\<lambda>c. bind_c (get_chars buf (Suc i) n) (\<lambda>cs. Inr (c # cs)))"

text \<open>\<^verbatim>\<open>atoi\<close> on a run of digits.\<close>

definition digits_int :: "string \<Rightarrow> int" where
  "digits_int ds = signed_take_bit 31 (fst (strtoll_c 10 ds))"

text \<open>The end of the data in the buffer, or nothing for -1.\<close>

definition readmore :: "source \<Rightarrow> pbuf \<Rightarrow> nat \<Rightarrow> (nat \<times> pbuf \<times> source) option" where
  "readmore s buf off =
     (let buf1 = (if length buf \<le> off then buf @ replicate IOBUFSZ None else buf) in
      case tread (length buf1 - off) s of
        (Inr b, s1) \<Rightarrow> if b = [] then None else Some (off + length b, fill_at buf1 off b, s1)
      | (Inl e, s1) \<Rightarrow> None)"

lemma readmore_events: "readmore s buf off = Some (nr, buf1, s1) \<Longrightarrow> length (snd s1) < length (snd s)"
  by (cases "read_c (length (if length buf \<le> off then buf @ replicate IOBUFSZ None else buf) - off) s")
    (auto simp: readmore_def tread_def Let_def split: read_answer.splits if_splits dest: read_c_events)

text \<open>
  What a part of the function leads to: it goes on, jumps to \<^verbatim>\<open>out\<close> after a failed read, or spins for ever.
\<close>

datatype 'a parse = Next 'a | Out | Spins

text \<open>
  The position in the buffer, \<^verbatim>\<open>i\<close>, which is always \<^verbatim>\<open>cp - bp\<close>, and the number of bytes that the function believes to be in it, \<^verbatim>\<open>datsz\<close>. After reading more it adds
  to it what \<^verbatim>\<open>readmore\<close> returns, the end of the data, and not what was read.
\<close>

type_synonym pstate = "source \<times> pbuf \<times> nat \<times> nat"

definition more_header :: "pstate \<Rightarrow> pstate option" where
  "more_header = (\<lambda>(s, buf, i, datsz). if datsz \<le> i then
      (case readmore s buf i of None \<Rightarrow> None | Some (nr, buf1, s1) \<Rightarrow> Some (s1, buf1, i, datsz + nr))
    else Some (s, buf, i, datsz))"

function skip_to_C :: "pbuf \<Rightarrow> nat \<Rightarrow> nat \<Rightarrow> nat cres" where
  "skip_to_C buf i datsz = bind_c (getc_at buf i) (\<lambda>c. if c \<noteq> CHR ''C'' \<and> c \<noteq> CHR ''c'' \<and> i < datsz then skip_to_C buf (Suc i) datsz else Inr i)"
  by pat_completeness auto
termination
  by (relation "measure (\<lambda>(buf, i, d). length buf - i)") (auto simp: getc_at_def split: if_splits)

declare skip_to_C.simps [simp del]

lemma skip_to_C_bound: "skip_to_C buf i datsz = Inr k \<Longrightarrow> i \<le> k \<and> k < length buf"
proof (induction buf i datsz rule: skip_to_C.induct)
  case (1 buf i datsz)
  from 1(2) obtain c where c: "getc_at buf i = Inr c" by (subst (asm) skip_to_C.simps) auto
  show ?case
  proof (cases "c \<noteq> CHR ''C'' \<and> c \<noteq> CHR ''c'' \<and> i < datsz")
    case True
    then have "skip_to_C buf (Suc i) datsz = Inr k" using 1(2) c by (subst (asm) skip_to_C.simps) simp
    then show ?thesis using 1(1) [OF c True] by simp
  next
    case False
    then have "k = i" using 1(2) c by (subst (asm) skip_to_C.simps) auto
    then show ?thesis using c by (auto simp: getc_at_def split: if_splits)
  qed
qed

function find_length :: "pstate \<Rightarrow> pstate parse cres" where
  "find_length (s, buf, i, datsz) =
     bind_c (skip_to_C buf i datsz) (\<lambda>k.
       case more_header (s, buf, k, datsz) of
         None \<Rightarrow> Inr Out
       | Some (s1, buf1, k1, datsz1) \<Rightarrow>
           bind_c (ncasecmp buf1 k ''Content-Length:'') (\<lambda>eq. if eq then Inr (Next (s1, buf1, k + 15, datsz1)) else find_length (s1, buf1, Suc k, datsz1)))"
  by pat_completeness auto
termination
proof (relation "measures [\<lambda>(s, buf, i, d). length (snd s), \<lambda>(s, buf, i, d). length buf - i]", simp, goal_cases)
  case (1 s buf i datsz k v s1 r buf1 r' k1 datsz1 eq)
  have k: "i \<le> k" "k < length buf" using skip_to_C_bound [OF 1(1)] by auto
  show ?case
  proof (cases "datsz \<le> k")
    case True
    then obtain nr buf2 where "readmore s buf k = Some (nr, buf2, s1)" using 1 by (auto simp: more_header_def split: option.splits)
    then show ?thesis using readmore_events by simp
  next
    case False
    then have "s1 = s" "buf1 = buf" using 1 by (auto simp: more_header_def)
    then show ?thesis using k by simp
  qed
qed

declare find_length.simps [simp del]

text \<open>The value of the length, behind which a null byte is stored.\<close>

definition read_length :: "pstate \<Rightarrow> (int \<times> pstate) cres" where
  "read_length = (\<lambda>(s, buf, i, datsz).
     bind_c (skip_while isspace_c buf i) (\<lambda>a.
     bind_c (skip_while isdigit_c buf a) (\<lambda>b.
     bind_c (get_chars buf a (b - a)) (\<lambda>ds.
     bind_c (putc_at buf b (CHR 0x00)) (\<lambda>buf1. Inr (digits_int ds, (s, buf1, Suc b, datsz)))))))"

text \<open>The search for the empty line. The loop looks at three bytes at a time and stops two bytes before the end of the data; if the line is not there, it goes on without reading more.\<close>

function scan_blank :: "pbuf \<Rightarrow> nat \<Rightarrow> nat \<Rightarrow> nat option cres" where
  "scan_blank buf i datsz =
     (if i + 2 < datsz then
        bind_c (getc_at buf i) (\<lambda>c0. if c0 \<noteq> CHR 0x0A then scan_blank buf (Suc i) datsz else
        bind_c (getc_at buf (i + 1)) (\<lambda>c1. if c1 \<noteq> CHR 0x0D then scan_blank buf (Suc i) datsz else
        bind_c (getc_at buf (i + 2)) (\<lambda>c2. if c2 \<noteq> CHR 0x0A then scan_blank buf (Suc i) datsz else Inr (Some (i + 3)))))
      else Inr None)"
  by pat_completeness auto
termination
  by (relation "measure (\<lambda>(buf, i, d). d - i)") auto

declare scan_blank.simps [simp del]

function find_blank :: "pstate \<Rightarrow> pstate parse cres" where
  "find_blank (s, buf, i, datsz) =
     bind_c (scan_blank buf i datsz) (\<lambda>r. case r of
        Some k \<Rightarrow> (case more_header (s, buf, k, datsz) of None \<Rightarrow> Inr Out | Some st \<Rightarrow> Inr (Next st))
      | None \<Rightarrow>
          if datsz \<le> i then (case readmore s buf i of None \<Rightarrow> Inr Out | Some (nr, buf1, s1) \<Rightarrow> find_blank (s1, buf1, i, datsz + nr))
          else Inr Spins)"
  by pat_completeness auto
termination
  by (relation "measure (\<lambda>(s, buf, i, d). length (snd s))") (auto dest: readmore_events)

declare find_blank.simps [simp del]

text \<open>The body: if less than the announced length is there, more is read, over the part of the body that is in the buffer already.\<close>

definition read_body :: "int \<Rightarrow> pstate \<Rightarrow> pstate option" where
  "read_body len = (\<lambda>(s, buf, i, datsz). if int datsz - int i < len then
      (case readmore s buf i of None \<Rightarrow> None | Some (nr, buf1, s1) \<Rightarrow> Some (s1, buf1, i, datsz + nr))
    else Some (s, buf, i, datsz))"

definition ipp_verdict :: "int \<Rightarrow> pstate \<Rightarrow> bool cres" where
  "ipp_verdict jobid = (\<lambda>(s, buf, i, datsz).
     bind_c (get_chars buf (i + 2) 2) (\<lambda>st.
     bind_c (get_chars buf (i + 4) 4) (\<lambda>rid.
       Inr (signed_take_bit 31 (int (un_be rid)) = jobid \<and> un_be st \<le> 0xff))))"

text \<open>What the body of the outer loop does with the bytes of one read: the next read, the end of the loop with a verdict, a jump out of it, or an endless loop.\<close>

datatype verdict = Again pbuf | Verdict bool | FailedRead | Hangs

definition status_line :: "pbuf \<Rightarrow> (string \<times> nat \<times> pbuf) option cres" where
  "status_line buf =
     bind_c (skip_while isspace_c buf 8) (\<lambda>a.
     bind_c (skip_while isdigit_c buf a) (\<lambda>b.
       if a = b then Inr None
       else bind_c (get_chars buf a (b - a)) (\<lambda>code.
         bind_c (putc_at buf b (CHR 0x00)) (\<lambda>buf1.
         bind_c (skip_while (\<lambda>c. c \<noteq> CHR 0x0D \<and> c \<noteq> CHR 0x0A) buf1 (Suc b)) (\<lambda>e.
         bind_c (putc_at buf1 e (CHR 0x00)) (\<lambda>buf2. Inr (Some (code, e, buf2))))))))"

definition parse_response :: "int \<Rightarrow> source \<Rightarrow> pbuf \<Rightarrow> nat \<Rightarrow> (verdict \<times> source) cres" where
  "parse_response jobid s buf nr =
     bind_c (status_line buf) (\<lambda>r. case r of
        None \<Rightarrow>
          bind_c (skip_while (\<lambda>c. c \<noteq> CHR 0x00 \<and> c \<noteq> CHR ''%'') buf 0) (\<lambda>e.
          bind_c (getc_at buf e) (\<lambda>c. if c = CHR ''%'' then Inl BadConversion else Inr (Again buf, s)))
      | Some (code, i, buf1) \<Rightarrow>
          let c = digits_int code in
          if 100 \<le> c \<and> c \<le> 199 then Inr (Again buf1, s)
          else if \<not> (200 \<le> c \<and> c \<le> 299) then bind_c (putc_at buf1 nr (CHR 0x00)) (\<lambda>buf2. Inr (Verdict False, s))
          else
            bind_c (find_length (s, buf1, i, nr)) (\<lambda>p1. case p1 of Out \<Rightarrow> Inr (FailedRead, s) | Spins \<Rightarrow> Inr (Hangs, s) | Next st1 \<Rightarrow>
            bind_c (read_length st1) (\<lambda>(len, st2). case more_header st2 of None \<Rightarrow> Inr (FailedRead, s) | Some st3 \<Rightarrow>
            bind_c (find_blank st3) (\<lambda>p4. case p4 of Out \<Rightarrow> Inr (FailedRead, s) | Spins \<Rightarrow> Inr (Hangs, s) | Next st4 \<Rightarrow>
              (case read_body len st4 of None \<Rightarrow> Inr (FailedRead, s) | Some st5 \<Rightarrow>
               bind_c (ipp_verdict jobid st5) (\<lambda>v. Inr (Verdict v, fst st5)))))))"

text \<open>
  After a failed read the function returns 0. The message that it logs then contains the variable \<^verbatim>\<open>jobid\<close>, to which nothing was assigned; messages to the log are left out here.
\<close>

function printer_loop :: "int \<Rightarrow> source \<Rightarrow> pbuf \<Rightarrow> bool outcome cres" where
  "printer_loop jobid s buf = (case tread (length buf) s of
      (Inl e, s1) \<Rightarrow> Inr (Done False)
    | (Inr b, s1) \<Rightarrow>
        if b = [] then Inr (Done False)
        else bind_c (parse_response jobid s1 (fill_at buf 0 b) (length b)) (\<lambda>(v, s2). case v of
            Again buf1 \<Rightarrow> printer_loop jobid s1 buf1
          | Verdict r \<Rightarrow> Inr (Done r)
          | FailedRead \<Rightarrow> Inr (Done False)
          | Hangs \<Rightarrow> Inr Diverges))"
  by pat_completeness auto
termination
  by (relation "measure (\<lambda>(j, s, buf). length (snd s))")
    (auto simp: tread_def split: read_answer.splits prod.splits dest!: sym [of _ "read_c _ _"] read_c_events)

declare printer_loop.simps [simp del]

definition printer_status :: "int \<Rightarrow> source \<Rightarrow> bool outcome cres" where
  "printer_status jobid sock = printer_loop jobid sock (replicate IOBUFSZ None)"

end
