(* ===== verification/Spool_Status.thy ===== *)
theory Spool_Status
  imports Spool_Ipp
begin

section \<open>What the daemon makes of the printer's response\<close>

text \<open>
  The search of a response that is in the buffer as a whole, step by step: the status, the length, the empty line, and the IPP header behind it. Then the two outcomes that matter: a response that
  arrives with one read is understood; a header that arrives in pieces makes the search run for ever.
\<close>

subsection \<open>Searching in known text\<close>

definition known :: "string \<Rightarrow> nat \<Rightarrow> pbuf" where
  "known t k = map Some t @ replicate k None"

lemma getc_known [simp]: "i < length t \<Longrightarrow> getc_at (known t k) i = Inr (t ! i)"
  by (simp add: getc_at_def known_def nth_append)

lemma putc_known [simp]: "i < length t \<Longrightarrow> putc_at (known t k) i c = Inr (known (t[i := c]) k)"
  by (simp add: putc_at_def known_def list_update_append map_update)

lemma skip_while_known:
  assumes "i \<le> j" "j < length t" "\<forall>m. i \<le> m \<and> m < j \<longrightarrow> P (t ! m)" "\<not> P (t ! j)"
  shows "skip_while P (known t k) i = Inr j"
  using assms
proof (induction "j - i" arbitrary: i)
  case 0
  then show ?case by (subst skip_while.simps) simp
next
  case (Suc n)
  then have "P (t ! i)" "i < length t" by auto
  then show ?case using Suc by (subst skip_while.simps) auto
qed

lemma get_chars_known: "i + n \<le> length t \<Longrightarrow> get_chars (known t k) i n = Inr (take n (drop i t))"
proof (induction n arbitrary: i)
  case (Suc n)
  then have "take (Suc n) (drop i t) = t ! i # take n (drop (Suc i) t)" by (subst Cons_nth_drop_Suc [symmetric]) auto
  then show ?case using Suc by simp
qed simp

lemma ncasecmp_known:
  "i + length ps \<le> length t \<Longrightarrow> ncasecmp (known t k) i ps = Inr (map tolower_c (take (length ps) (drop i t)) = map tolower_c ps)"
proof (induction ps arbitrary: i)
  case (Cons p ps)
  then have "take (length (p # ps)) (drop i t) = t ! i # take (length ps) (drop (Suc i) t)" by (subst Cons_nth_drop_Suc [symmetric]) auto
  then show ?case using Cons by simp
qed simp

declare ncasecmp.simps [simp del]

lemma skip_to_C_known:
  assumes "i \<le> j" "j < length t" "\<forall>m. i \<le> m \<and> m < j \<longrightarrow> t ! m \<noteq> CHR ''C'' \<and> t ! m \<noteq> CHR ''c''" "t ! j = CHR ''C'' \<or> t ! j = CHR ''c''"
  shows "skip_to_C (known t k) i (length t) = Inr j"
  using assms
proof (induction "j - i" arbitrary: i)
  case 0
  then show ?case by (subst skip_to_C.simps) auto
next
  case (Suc n)
  then have "t ! i \<noteq> CHR ''C''" "t ! i \<noteq> CHR ''c''" "i < length t" by auto
  then show ?case using Suc by (subst skip_to_C.simps) auto
qed

definition clen :: string where "clen = ''Content-Length:''"

text \<open>The name of the length field stands at a position, in any mixture of cases.\<close>

definition length_at :: "string \<Rightarrow> nat \<Rightarrow> bool" where
  "length_at t k \<longleftrightarrow> k + 15 \<le> length t \<and> map tolower_c (take 15 (drop k t)) = map tolower_c clen"

lemma tolower_c_C: "tolower_c c = tolower_c (CHR ''C'') \<longleftrightarrow> c = CHR ''C'' \<or> c = CHR ''c''"
proof -
  have l: "tolower_c (CHR ''C'') = CHR ''c''" by code_simp
  show ?thesis
  proof
    assume a: "tolower_c c = tolower_c (CHR ''C'')"
    show "c = CHR ''C'' \<or> c = CHR ''c''"
    proof (cases "65 \<le> (of_char c :: nat) \<and> (of_char c :: nat) \<le> 90")
      case True
      then have "char_of (of_char c + 32 :: nat) = CHR ''c''" using a l by (simp add: tolower_c_def)
      then have "(of_char c + 32) mod 256 = (of_char (CHR ''c'') :: nat)" by (metis of_char_of)
      then have "of_char c = (of_char (CHR ''C'') :: nat)" using True by simp
      then show ?thesis using of_char_eq_iff by blast
    next
      case False
      then show ?thesis using a l by (auto simp: tolower_c_def)
    qed
  qed (use l in \<open>auto simp: tolower_c_def\<close>)
qed

lemma length_at_first: "length_at t k \<Longrightarrow> t ! k = CHR ''C'' \<or> t ! k = CHR ''c''"
proof -
  assume a: "length_at t k"
  then have "take 15 (drop k t) ! 0 = t ! k" "length (take 15 (drop k t)) = 15" by (auto simp: length_at_def)
  then have "tolower_c (t ! k) = map tolower_c (take 15 (drop k t)) ! 0" by simp
  then have "tolower_c (t ! k) = tolower_c (CHR ''C'')" using a by (simp add: length_at_def clen_def)
  then show ?thesis using tolower_c_C by blast
qed

lemma find_length_known:
  assumes "i \<le> j" "length_at t j" "\<forall>m. i \<le> m \<and> m < j \<longrightarrow> \<not> length_at t m"
  shows "find_length (s, known t k, i, length t) = Inr (Next (s, known t k, j + 15, length t))"
  using assms
proof (induction "j - i" arbitrary: i rule: less_induct)
  case less
  have jl: "j + 15 \<le> length t" using less.prems(2) by (simp add: length_at_def)
  define m where "m = (LEAST m. i \<le> m \<and> (t ! m = CHR ''C'' \<or> t ! m = CHR ''c''))"
  have ex: "i \<le> j \<and> (t ! j = CHR ''C'' \<or> t ! j = CHR ''c'')" using less.prems(1) length_at_first [OF less.prems(2)] by blast
  have m: "i \<le> m" "t ! m = CHR ''C'' \<or> t ! m = CHR ''c''" using LeastI [of "\<lambda>m. i \<le> m \<and> (t ! m = CHR ''C'' \<or> t ! m = CHR ''c'')", OF ex] by (auto simp: m_def)
  have mj: "m \<le> j" unfolding m_def by (rule Least_le) (rule ex)
  have before: "\<forall>n. i \<le> n \<and> n < m \<longrightarrow> t ! n \<noteq> CHR ''C'' \<and> t ! n \<noteq> CHR ''c''" unfolding m_def using not_less_Least by blast
  have sk: "skip_to_C (known t k) i (length t) = Inr m" by (rule skip_to_C_known) (use m mj jl before in auto)
  have mh: "more_header (s, known t k, m, length t) = Some (s, known t k, m, length t)" using mj jl by (simp add: more_header_def)
  have "length clen = 15" by (simp add: clen_def)
  then have "ncasecmp (known t k) m clen = Inr (length_at t m)" using ncasecmp_known [of m clen t k] mj jl by (simp add: length_at_def)
  then have nc: "ncasecmp (known t k) m ''Content-Length:'' = Inr (length_at t m)" by (simp only: clen_def)
  show ?case
  proof (cases "m = j")
    case True
    then show ?thesis using sk mh nc less.prems(2) by (subst find_length.simps) simp
  next
    case False
    then have "\<not> length_at t m" "m < j" using less.prems(3) m(1) mj by auto
    moreover have "find_length (s, known t k, Suc m, length t) = Inr (Next (s, known t k, j + 15, length t))"
      by (rule less.hyps) (use \<open>m < j\<close> m(1) less.prems in auto)
    ultimately show ?thesis using sk mh nc by (subst find_length.simps) simp
  qed
qed

text \<open>The end of the header: a line feed, a carriage return, a line feed.\<close>

definition blank_at :: "string \<Rightarrow> nat \<Rightarrow> bool" where
  "blank_at t k \<longleftrightarrow> k + 2 < length t \<and> t ! k = CHR 0x0A \<and> t ! (k + 1) = CHR 0x0D \<and> t ! (k + 2) = CHR 0x0A"

lemma scan_blank_known:
  assumes "i \<le> j" "blank_at t j" "\<forall>m. i \<le> m \<and> m < j \<longrightarrow> \<not> blank_at t m"
  shows "scan_blank (known t k) i (length t) = Inr (Some (j + 3))"
  using assms
proof (induction "j - i" arbitrary: i)
  case 0
  then have "i = j" by simp
  then show ?case using 0 by (subst scan_blank.simps) (auto simp: blank_at_def)
next
  case (Suc n)
  then have l: "i + 2 < length t" "i < j" by (auto simp: blank_at_def)
  have "scan_blank (known t k) (Suc i) (length t) = Inr (Some (j + 3))" using Suc by auto
  moreover have "\<not> blank_at t i" using Suc.prems l(2) by auto
  ultimately show ?case using l by (subst scan_blank.simps) (auto simp: blank_at_def)
qed

lemma scan_blank_none:
  assumes "\<forall>m\<ge>i. \<not> blank_at t m"
  shows "scan_blank (known t k) i (length t) = Inr None"
  using assms
proof (induction "length t - i" arbitrary: i rule: less_induct)
  case less
  show ?case
  proof (cases "i + 2 < length t")
    case True
    then have "scan_blank (known t k) (Suc i) (length t) = Inr None" using less by auto
    moreover have "\<not> blank_at t i" using less.prems by auto
    ultimately show ?thesis using True by (subst scan_blank.simps) (auto simp: blank_at_def)
  next
    case False
    then show ?thesis by (subst scan_blank.simps) simp
  qed
qed


subsection \<open>A whole header\<close>

text \<open>
  The parts of a response: the version with the blanks behind it, the code, the character behind it, the reason, the end of that line, header fields, the name of the length field, blanks, the length,
  the character behind it, and the rest.
\<close>

definition response :: "string \<Rightarrow> string \<Rightarrow> char \<Rightarrow> string \<Rightarrow> char \<Rightarrow> string \<Rightarrow> string \<Rightarrow> string \<Rightarrow> string \<Rightarrow> char \<Rightarrow> string \<Rightarrow> string" where
  "response v code x reason y hs cl sp ds w rest = v @ code @ x # reason @ y # hs @ cl @ sp @ ds @ w # rest"

definition status_ok :: "string \<Rightarrow> string \<Rightarrow> char \<Rightarrow> string \<Rightarrow> char \<Rightarrow> bool" where
  "status_ok v code x reason y \<longleftrightarrow> 8 \<le> length v \<and> list_all isspace_c (drop 8 v) \<and> code \<noteq> [] \<and> list_all isdigit_c code \<and> \<not> isdigit_c x \<and>
     list_all (\<lambda>c. c \<noteq> CHR 0x0D \<and> c \<noteq> CHR 0x0A) reason \<and> (y = CHR 0x0D \<or> y = CHR 0x0A) \<and> 200 \<le> digits_int code \<and> digits_int code \<le> 299"

definition length_ok :: "string \<Rightarrow> string \<Rightarrow> string \<Rightarrow> string \<Rightarrow> char \<Rightarrow> string \<Rightarrow> bool" where
  "length_ok hs cl sp ds w rest \<longleftrightarrow> length cl = 15 \<and> map tolower_c cl = map tolower_c clen \<and> (\<forall>m<length hs. \<not> length_at (hs @ cl @ sp @ ds @ w # rest) m) \<and>
     list_all isspace_c sp \<and> ds \<noteq> [] \<and> list_all isdigit_c ds \<and> \<not> isdigit_c w \<and> rest \<noteq> []"

lemma isdigit_not_space: "isdigit_c c \<Longrightarrow> \<not> isspace_c c"
  by (auto simp: isdigit_c_def isspace_c_def)

lemma skip_while_part:
  assumes "list_all P b" "\<not> P c"
  shows "skip_while P (known (a @ b @ c # d) k) (length a) = Inr (length a + length b)"
proof (rule skip_while_known)
  show "\<forall>m. length a \<le> m \<and> m < length a + length b \<longrightarrow> P ((a @ b @ c # d) ! m)" using assms(1) by (auto simp: nth_append list_all_length)
qed (use assms(2) in \<open>auto simp: nth_append\<close>)

lemma get_chars_part: "get_chars (known (a @ b @ d) k) (length a) (length b) = Inr b"
  by (subst get_chars_known) simp_all

lemma putc_part: "putc_at (known (a @ c # d) k) (length a) c' = Inr (known (a @ c' # d) k)"
  by simp

lemma status_line_known:
  assumes "status_ok v code x reason y"
  shows "status_line (known (v @ code @ x # reason @ y # rest) k) =
    Inr (Some (code, length v + length code + 1 + length reason, known (v @ code @ CHR 0x00 # reason @ CHR 0x00 # rest) k))"
proof -
  have s: "8 \<le> length v" "list_all isspace_c (drop 8 v)" "code \<noteq> []" "list_all isdigit_c code" "\<not> isdigit_c x"
      "list_all (\<lambda>c. c \<noteq> CHR 0x0D \<and> c \<noteq> CHR 0x0A) reason" "y = CHR 0x0D \<or> y = CHR 0x0A"
    using assms by (auto simp: status_ok_def)
  obtain c cs where c: "code = c # cs" using s(3) by (cases code) auto
  have v: "v = take 8 v @ drop 8 v" "length (take 8 v) = 8" using s(1) by auto
  have vz: "take 8 v @ drop 8 v @ z = v @ z" for z by (metis append.assoc append_take_drop_id)
  have "\<not> isspace_c c" using s(4) c isdigit_not_space by auto
  then have a: "skip_while isspace_c (known (v @ code @ x # reason @ y # rest) k) 8 = Inr (length v)"
    using skip_while_part [OF s(2), of c "take 8 v" "cs @ x # reason @ y # rest" k] v(2) s(1) c vz by simp
  have b: "skip_while isdigit_c (known (v @ code @ x # reason @ y # rest) k) (length v) = Inr (length v + length code)"
    using skip_while_part [OF s(4,5)] .
  have g: "get_chars (known (v @ code @ x # reason @ y # rest) k) (length v) (length v + length code - length v) = Inr code"
    using get_chars_part [of v code "x # reason @ y # rest" k] by simp
  have p: "putc_at (known (v @ code @ x # reason @ y # rest) k) (length v + length code) (CHR 0x00) = Inr (known (v @ code @ CHR 0x00 # reason @ y # rest) k)"
    using putc_part [of "v @ code" x "reason @ y # rest" k] by simp
  have e: "skip_while (\<lambda>c. c \<noteq> CHR 0x0D \<and> c \<noteq> CHR 0x0A) (known (v @ code @ CHR 0x00 # reason @ y # rest) k) (Suc (length v + length code)) =
      Inr (length v + length code + 1 + length reason)"
    using skip_while_part [OF s(6), of y "v @ code @ [CHR 0x00]" rest k] s(7) by auto
  have q: "putc_at (known (v @ code @ CHR 0x00 # reason @ y # rest) k) (length v + length code + 1 + length reason) (CHR 0x00) =
      Inr (known (v @ code @ CHR 0x00 # reason @ CHR 0x00 # rest) k)"
    using putc_part [of "v @ code @ CHR 0x00 # reason" y rest k] by (simp add: add.assoc)
  show ?thesis unfolding status_line_def a bind_c_simps b g p e q using s(3) by simp
qed

lemma length_at_shift: "length_at (a @ t) (length a + m) = length_at t m"
  by (simp add: length_at_def)

lemma blank_at_shift: "blank_at (a @ t) (length a + m) = blank_at t m"
  by (simp add: blank_at_def nth_append)

lemma find_length_part:
  assumes "length_ok hs cl sp ds w rest"
  shows "find_length (s, known (a @ CHR 0x00 # hs @ cl @ sp @ ds @ w # rest) k, length a, length (a @ CHR 0x00 # hs @ cl @ sp @ ds @ w # rest)) =
    Inr (Next (s, known (a @ CHR 0x00 # hs @ cl @ sp @ ds @ w # rest) k, length a + 1 + length hs + 15, length (a @ CHR 0x00 # hs @ cl @ sp @ ds @ w # rest)))"
proof -
  let ?u = "hs @ cl @ sp @ ds @ w # rest"
  let ?t = "a @ CHR 0x00 # ?u"
  have sh: "length_at ?t (length a + 1 + m) = length_at ?u m" for m using length_at_shift [of "a @ [CHR 0x00]" ?u m] by simp
  have "length_at ?t (length a + 1 + length hs)" using assms unfolding sh by (simp add: length_at_def length_ok_def)
  moreover have "\<forall>m. length a \<le> m \<and> m < length a + 1 + length hs \<longrightarrow> \<not> length_at ?t m"
  proof (intro allI impI)
    fix m assume m: "length a \<le> m \<and> m < length a + 1 + length hs"
    show "\<not> length_at ?t m"
    proof (cases "m = length a")
      case True
      then show ?thesis using length_at_first [of ?t m] by (auto simp: nth_append)
    next
      case False
      then have "m = length a + 1 + (m - length a - 1)" "m - length a - 1 < length hs" using m by auto
      then show ?thesis using assms sh [of "m - length a - 1"] by (auto simp: length_ok_def)
    qed
  qed
  ultimately show ?thesis by (intro find_length_known) auto
qed

lemma read_length_part:
  assumes "length_ok hs cl sp ds w rest"
  shows "read_length (s, known (a @ sp @ ds @ w # rest) k, length a, n) = Inr (digits_int ds, (s, known (a @ sp @ ds @ CHR 0x00 # rest) k, length a + length sp + length ds + 1, n))"
proof -
  have l: "list_all isspace_c sp" "ds \<noteq> []" "list_all isdigit_c ds" "\<not> isdigit_c w" using assms by (auto simp: length_ok_def)
  obtain c cs where c: "ds = c # cs" using l(2) by (cases ds) auto
  have "\<not> isspace_c c" using l(3) c isdigit_not_space by auto
  then have x: "skip_while isspace_c (known (a @ sp @ ds @ w # rest) k) (length a) = Inr (length a + length sp)"
    using skip_while_part [OF l(1), of c a "cs @ w # rest" k] c by simp
  have y: "skip_while isdigit_c (known (a @ sp @ ds @ w # rest) k) (length a + length sp) = Inr (length a + length sp + length ds)"
    using skip_while_part [OF l(3,4), of "a @ sp" rest k] by simp
  have g: "get_chars (known (a @ sp @ ds @ w # rest) k) (length a + length sp) (length a + length sp + length ds - (length a + length sp)) = Inr ds"
    using get_chars_part [of "a @ sp" ds "w # rest" k] by simp
  have p: "putc_at (known (a @ sp @ ds @ w # rest) k) (length a + length sp + length ds) (CHR 0x00) = Inr (known (a @ sp @ ds @ CHR 0x00 # rest) k)"
    using putc_part [of "a @ sp @ ds" w rest k] by (simp add: add.assoc)
  show ?thesis unfolding read_length_def prod.case x bind_c_simps y g p by simp
qed


subsection \<open>The response in one read\<close>

text \<open>The state in which the search for the empty line starts.\<close>

lemma parse_to_length:
  assumes st: "status_ok v code x reason y" and ln: "length_ok hs cl sp ds w rest"
  shows "\<exists>a. length a + length rest = length (response v code x reason y hs cl sp ds w rest) \<and>
    parse_response jobid s (known (response v code x reason y hs cl sp ds w rest) k) (length (response v code x reason y hs cl sp ds w rest)) =
    bind_c (find_blank (s, known (a @ rest) k, length a, length (a @ rest))) (\<lambda>p4. case p4 of Out \<Rightarrow> Inr (FailedRead, s) | Spins \<Rightarrow> Inr (Hangs, s) | Next st4 \<Rightarrow>
      (case read_body (digits_int ds) st4 of None \<Rightarrow> Inr (FailedRead, s) | Some st5 \<Rightarrow> bind_c (ipp_verdict jobid st5) (\<lambda>r. Inr (Verdict r, fst st5))))"
proof -
  let ?u = "hs @ cl @ sp @ ds @ w # rest"
  let ?a0 = "v @ code @ CHR 0x00 # reason"
  let ?a1 = "?a0 @ CHR 0x00 # hs @ cl"
  let ?a2 = "?a1 @ sp @ ds @ [CHR 0x00]"
  let ?n = "length (response v code x reason y hs cl sp ds w rest)"
  have n: "?n = length (?a0 @ CHR 0x00 # ?u)" "?n = length (?a2 @ rest)" by (simp_all add: response_def)
  have cl: "length cl = 15" "rest \<noteq> []" using ln by (auto simp: length_ok_def)
  have a: "status_line (known (response v code x reason y hs cl sp ds w rest) k) = Inr (Some (code, length ?a0, known (?a0 @ CHR 0x00 # ?u) k))"
    using status_line_known [OF st, of ?u k] by (simp add: response_def)
  have b: "find_length (s, known (?a0 @ CHR 0x00 # ?u) k, length ?a0, ?n) = Inr (Next (s, known (?a1 @ sp @ ds @ w # rest) k, length ?a1, ?n))"
    using find_length_part [OF ln, of s ?a0 k] cl(1) unfolding n(1) by simp
  have c: "read_length (s, known (?a1 @ sp @ ds @ w # rest) k, length ?a1, ?n) = Inr (digits_int ds, (s, known (?a2 @ rest) k, length ?a2, ?n))"
    using read_length_part [OF ln, of s ?a1 k ?n] by simp
  have d: "more_header (s, known (?a2 @ rest) k, length ?a2, ?n) = Some (s, known (?a2 @ rest) k, length ?a2, ?n)"
    using cl(2) unfolding n(2) by (cases rest) (simp_all add: more_header_def)
  have code: "\<not> (100 \<le> digits_int code \<and> digits_int code \<le> 199)" "\<not> \<not> (200 \<le> digits_int code \<and> digits_int code \<le> 299)" using st by (auto simp: status_ok_def)
  show ?thesis
    unfolding parse_response_def a bind_c_simps option.case prod.case Let_def if_not_P [OF code(1)] if_not_P [OF code(2)] b parse.case c d
    using n(2) by (intro exI [of _ ?a2]) (simp only: length_append)
qed

lemma first_read:
  assumes "t \<noteq> []" "length t \<le> IOBUFSZ" "length t \<le> max 1 m"
  shows "printer_status jobid (t, Ready m # es) = bind_c (parse_response jobid ([], es) (known t (IOBUFSZ - length t)) (length t)) (\<lambda>(v, s2). case v of
            Again buf1 \<Rightarrow> printer_loop jobid ([], es) buf1 | Verdict r \<Rightarrow> Inr (Done r) | FailedRead \<Rightarrow> Inr (Done False) | Hangs \<Rightarrow> Inr Diverges)"
proof -
  have "tread (length (replicate IOBUFSZ None)) (t, Ready m # es) = (Inr t, ([], es))" using assms(2,3) by (simp add: tread_def Let_def)
  moreover have "fill_at (replicate IOBUFSZ None) 0 t = known t (IOBUFSZ - length t)" by (simp add: fill_at_def known_def)
  ultimately show ?thesis using assms(1) unfolding printer_status_def by (subst printer_loop.simps) simp
qed

lemma find_blank_known:
  assumes "\<forall>m<length hs2. \<not> blank_at (hs2 @ [CHR 0x0A, CHR 0x0D, CHR 0x0A] @ body) m" "body \<noteq> []"
  shows "find_blank (s, known (a @ hs2 @ [CHR 0x0A, CHR 0x0D, CHR 0x0A] @ body) k, length a, length (a @ hs2 @ [CHR 0x0A, CHR 0x0D, CHR 0x0A] @ body)) =
    Inr (Next (s, known (a @ hs2 @ [CHR 0x0A, CHR 0x0D, CHR 0x0A] @ body) k, length a + length hs2 + 3, length (a @ hs2 @ [CHR 0x0A, CHR 0x0D, CHR 0x0A] @ body)))"
proof -
  let ?r = "hs2 @ [CHR 0x0A, CHR 0x0D, CHR 0x0A] @ body"
  have "blank_at ?r (length hs2)" by (simp add: blank_at_def nth_append)
  then have "blank_at (a @ ?r) (length a + length hs2)" by (simp add: blank_at_shift)
  moreover have "\<forall>m. length a \<le> m \<and> m < length a + length hs2 \<longrightarrow> \<not> blank_at (a @ ?r) m"
    using assms(1) blank_at_shift [of a ?r] by (metis le_add_diff_inverse nat_add_left_cancel_less)
  ultimately have "scan_blank (known (a @ ?r) k) (length a) (length (a @ ?r)) = Inr (Some (length a + length hs2 + 3))" by (intro scan_blank_known) auto
  moreover have "length a + length hs2 + 3 < length (a @ ?r)" using assms(2) by (cases body) auto
  ultimately show ?thesis by (subst find_blank.simps) (simp add: more_header_def)
qed

lemma response_understood:
  assumes st: "status_ok v code x reason y" and ln: "length_ok hs cl sp ds w rest" and r: "rest = hs2 @ [CHR 0x0A, CHR 0x0D, CHR 0x0A] @ body"
    and bl: "\<forall>m<length hs2. \<not> blank_at rest m" and body: "8 \<le> length body" "digits_int ds \<le> int (length body)"
    and t: "t = response v code x reason y hs cl sp ds w rest" "length t \<le> IOBUFSZ" "length t \<le> max 1 m"
  shows "printer_status jobid (t, Ready m # es) = Inr (Done (signed_take_bit 31 (int (un_be (take 4 (drop 4 body)))) = jobid \<and> un_be (take 2 (drop 2 body)) \<le> 0xff))"
proof -
  obtain a where a: "length a + length rest = length t"
      "parse_response jobid ([], es) (known t (IOBUFSZ - length t)) (length t) =
       bind_c (find_blank (([], es), known (a @ rest) (IOBUFSZ - length t), length a, length (a @ rest))) (\<lambda>p4. case p4 of Out \<Rightarrow> Inr (FailedRead, ([], es)) | Spins \<Rightarrow> Inr (Hangs, ([], es)) | Next st4 \<Rightarrow>
         (case read_body (digits_int ds) st4 of None \<Rightarrow> Inr (FailedRead, ([], es)) | Some st5 \<Rightarrow> bind_c (ipp_verdict jobid st5) (\<lambda>r. Inr (Verdict r, fst st5))))"
    using parse_to_length [OF st ln, of jobid "([], es)" "IOBUFSZ - length t"] t(1) by auto
  let ?i = "length a + length hs2 + 3"
  let ?st = "(([], es), known (a @ rest) (IOBUFSZ - length t), ?i, length (a @ rest))"
  have f: "find_blank (([], es), known (a @ rest) (IOBUFSZ - length t), length a, length (a @ rest)) = Inr (Next ?st)"
    using find_blank_known [of hs2 body "([], es)" a] bl body(1) unfolding r by (cases body) auto
  have b: "read_body (digits_int ds) ?st = Some ?st" using body(2) r by (simp add: read_body_def)
  have g: "get_chars (known (a @ rest) k) (?i + 2) 2 = Inr (take 2 (drop 2 body))" "get_chars (known (a @ rest) k) (?i + 4) 4 = Inr (take 4 (drop 4 body))" for k
    using body(1) r by (subst get_chars_known; simp)+
  have ne: "t \<noteq> []" using t(1) by (simp add: response_def)
  show ?thesis unfolding first_read [OF ne t(2,3)] a(2) f bind_c_simps parse.case b option.case ipp_verdict_def prod.case g by simp
qed

lemma response_hangs:
  assumes st: "status_ok v code x reason y" and ln: "length_ok hs cl sp ds w rest" and bl: "\<forall>m. \<not> blank_at rest m"
    and t: "t = response v code x reason y hs cl sp ds w rest" "length t \<le> IOBUFSZ" "length t \<le> max 1 m"
  shows "printer_status jobid (t, Ready m # es) = Inr Diverges"
proof -
  obtain a where a: "length a + length rest = length t"
      "parse_response jobid ([], es) (known t (IOBUFSZ - length t)) (length t) =
       bind_c (find_blank (([], es), known (a @ rest) (IOBUFSZ - length t), length a, length (a @ rest))) (\<lambda>p4. case p4 of Out \<Rightarrow> Inr (FailedRead, ([], es)) | Spins \<Rightarrow> Inr (Hangs, ([], es)) | Next st4 \<Rightarrow>
         (case read_body (digits_int ds) st4 of None \<Rightarrow> Inr (FailedRead, ([], es)) | Some st5 \<Rightarrow> bind_c (ipp_verdict jobid st5) (\<lambda>r. Inr (Verdict r, fst st5))))"
    using parse_to_length [OF st ln, of jobid "([], es)" "IOBUFSZ - length t"] t(1) by auto
  have "\<forall>m\<ge>length a. \<not> blank_at (a @ rest) m" using bl blank_at_shift by (metis le_add_diff_inverse)
  moreover have "rest \<noteq> []" using ln by (simp add: length_ok_def)
  ultimately have f: "find_blank (([], es), known (a @ rest) (IOBUFSZ - length t), length a, length (a @ rest)) = Inr Spins"
    using scan_blank_none [of "length a" "a @ rest"] by (subst find_blank.simps) simp
  have ne: "t \<noteq> []" using t(1) by (simp add: response_def)
  show ?thesis unfolding first_read [OF ne t(2,3)] a(2) f bind_c_simps parse.case by simp
qed


subsection \<open>The properties\<close>

text \<open>
  The message to the printer. When the user's name and the job's name are terminated, the headers are complete exactly if the name of the printer and the names of the user and the job are short enough for the
  512 bytes of the buffer, and a buffer overflows otherwise. The IPP request then decodes to the job number and the six options with exactly these values, followed by the document, with a backspace in front
  of a text, and the length in the HTTP header is the number of bytes that follow it.
\<close>

theorem printer_message_exact:
  assumes "array_str (rq_usernm req) = Inr u" and "array_str (rq_jobnm req) = Inr j" and "length file < 2 ^ 62"
  shows "let b = request_bytes jobid (request_options p u j (rq_flags req));
             doc = (if odd (rq_flags req) then [CHR 0x08] else []) @ file
         in print_headers p jobid req (length file) = (if request_fits p jobid req u j then Inr (http_lines p (length (b @ doc)) @ crlf, b) else Inl BufferOverflow) \<and>
           (request_fits p jobid req u j \<longrightarrow> parse_request (b @ doc) = Some (nat (jobid mod 2 ^ 32), request_options p u j (rq_flags req), doc))"
  using print_headers_exact [OF assms] parse_request_bytes [OF request_options_small] unfolding Let_def by blast

theorem printer_message_exact_witness:
  "let req = \<lparr>rq_size = 3, rq_flags = 1, rq_usernm = ''ann'' @ [CHR 0x00], rq_jobnm = ''memo'' @ [CHR 0x00]\<rparr>; b = request_bytes 7 (request_options ''lp0'' ''ann'' ''memo'' 1)
   in request_fits ''lp0'' 7 req ''ann'' ''memo'' \<and> print_headers ''lp0'' 7 req (length ''abc'') = Inr (http_lines ''lp0'' (length (b @ CHR 0x08 # ''abc'')) @ crlf, b) \<and>
      parse_request (b @ CHR 0x08 # ''abc'') = Some (7, request_options ''lp0'' ''ann'' ''memo'' 1, CHR 0x08 # ''abc'')"
proof -
  let ?req = "\<lparr>rq_size = 3, rq_flags = 1, rq_usernm = ''ann'' @ [CHR 0x00], rq_jobnm = ''memo'' @ [CHR 0x00]\<rparr>"
  have f: "request_fits ''lp0'' 7 ?req ''ann'' ''memo''"
    by (simp add: request_fits_def request_bytes_def request_options_def option_bytes_def ipp_start_def ipp_consts mime_type_def)
  show ?thesis using printer_message_exact [of ?req "''ann''" "''memo''" "''abc''" 7 "''lp0''"] f by (simp add: array_str_def Let_def)
qed

text \<open>
  C32: A response of the printer that arrives with one read, with its header fields in any order and case, and with the announced length of an IPP body behind the empty line, is accepted exactly when
  the IPP status is a success and the request number is that of the job.
\<close>

theorem printer_status_understands:
  assumes "status_ok v code x reason y" and "length_ok hs cl sp ds w rest" and "rest = hs2 @ [CHR 0x0A, CHR 0x0D, CHR 0x0A] @ body"
    and "\<forall>m<length hs2. \<not> blank_at rest m" and "8 \<le> length body" and "digits_int ds \<le> int (length body)"
    and "t = response v code x reason y hs cl sp ds w rest" and "length t \<le> IOBUFSZ" and "length t \<le> max 1 m"
  shows "printer_status jobid (t, Ready m # es) = Inr (Done (signed_take_bit 31 (int (un_be (take 4 (drop 4 body)))) = jobid \<and> un_be (take 2 (drop 2 body)) \<le> 0xff))"
  using response_understood [OF assms] .

lemma sample_status: "status_ok ''HTTP/1.1 '' ''200'' CHR '' '' ''OK'' (CHR 0x0D)"
  by (simp add: status_ok_def isspace_c_def isdigit_c_def digits_int_def strtol_eval digit_val_def saturate_def LLONG_MIN_def LLONG_MAX_def signed_take_bit_eq_take_bit_minus)

lemma sample_length: "rest \<noteq> [] \<Longrightarrow> length_ok [CHR 0x0A] clen '' '' ''8'' (CHR 0x0D) rest"
  by (simp add: length_ok_def length_at_def clen_def isspace_c_def isdigit_c_def tolower_c_def)

theorem printer_status_understands_witness:
  "printer_status 7 (response ''HTTP/1.1 '' ''200'' CHR '' '' ''OK'' (CHR 0x0D) [CHR 0x0A] clen '' '' ''8'' (CHR 0x0D)
       ([CHR 0x0A, CHR 0x0D, CHR 0x0A] @ [CHR 0x01, CHR 0x01, CHR 0x00, CHR 0x00] @ be32 7), [Ready 100]) = Inr (Done True)"
proof -
  let ?body = "[CHR 0x01, CHR 0x01, CHR 0x00, CHR 0x00] @ be32 7"
  let ?rest = "[CHR 0x0A, CHR 0x0D, CHR 0x0A] @ ?body"
  have d: "digits_int ''8'' \<le> int (length ?body)"
    by (simp add: digits_int_def strtol_eval isspace_c_def digit_val_def saturate_def LLONG_MIN_def LLONG_MAX_def signed_take_bit_eq_take_bit_minus)
  have "printer_status 7 (response ''HTTP/1.1 '' ''200'' CHR '' '' ''OK'' (CHR 0x0D) [CHR 0x0A] clen '' '' ''8'' (CHR 0x0D) ?rest, [Ready 100]) =
      Inr (Done (signed_take_bit 31 (int (un_be (take 4 (drop 4 ?body)))) = 7 \<and> un_be (take 2 (drop 2 ?body)) \<le> 0xff))"
    by (rule printer_status_understands [OF sample_status sample_length, where ?hs2.0 = "[]"]) (use d in \<open>simp_all add: response_def clen_def print_sizes\<close>)
  moreover have "un_be (take 4 (drop 4 ?body)) = 7" "un_be (take 2 (drop 2 ?body)) = 0" by (simp_all add: un_be_be32) (simp add: un_be_def)
  ultimately show ?thesis by (simp add: signed_take_bit_eq_take_bit_minus)
qed

text \<open>
  A response whose header arrives in pieces stops the printing. If the first read ends after the length field but before the empty line, the search runs for ever without reading the rest, and with it the only
  thread that talks to the printer.
\<close>

theorem printer_status_hangs:
  assumes "status_ok v code x reason y" and "length_ok hs cl sp ds w rest" and "\<forall>m. \<not> blank_at rest m"
    and "t = response v code x reason y hs cl sp ds w rest" and "length t \<le> IOBUFSZ" and "length t \<le> max 1 m"
  shows "printer_status jobid (t, Ready m # es) = Inr Diverges"
  using response_hangs [OF assms] .

theorem printer_status_hangs_witness:
  "printer_status 7 (response ''HTTP/1.1 '' ''200'' CHR '' '' ''OK'' (CHR 0x0D) [CHR 0x0A] clen '' '' ''8'' (CHR 0x0D) [CHR 0x0A, CHR 0x0D], [Ready 100, Ready 100]) = Inr Diverges"
  by (rule printer_status_hangs [OF sample_status sample_length]) (simp_all add: blank_at_def response_def clen_def print_sizes)

end
