(* ===== verification/Spool_Daemon.thy ===== *)
theory Spool_Daemon
  imports Spool_Queue Spool_Status
begin

section \<open>The print daemon (printd.c)\<close>

text \<open>
  The threads of \<^verbatim>\<open>printd.c\<close>: one for each client, which spools a file, one for the printer, and one for signals. The state holds the spool directories, as maps from file names to contents, the job list with the
  job in the printer thread's hand, the list of client threads, the next job number and the file that keeps it. A client thread is cut into steps at the points where it touches what it
  shares with the others; between them it only talks to its client and writes its own files. Answers of the system are arguments. Messages to the log are left out.
\<close>

subsection \<open>State\<close>

definition EIO :: int where "EIO = 5"
definition FILENMSZ :: nat where "FILENMSZ = 64"
definition jobfile_path :: string where "jobfile_path = ''/var/spool/printer/jobno''"
definition reqs_path :: string where "reqs_path = ''/var/spool/printer/reqs/''"

type_synonym job = "int \<times> printreq"

record printd =
  pd_data :: "string \<rightharpoonup> string"
  pd_reqs :: "string \<rightharpoonup> string"
  pd_jobs :: "job joblist \<times> nat option"
  pd_workers :: workers
  pd_nextjob :: int
  pd_jobfile :: string
  pd_reread :: bool
  pd_printer :: "nat \<times> string"

subsection \<open>Start\<close>

text \<open>
  The job number is read over the pathname that is still in the buffer. A number that fills the buffer up to bytes that were never set is a fault.
\<close>

definition init_request :: "bool \<Rightarrow> bool \<Rightarrow> printd \<Rightarrow> printd outcome cres" where
  "init_request locked readable d =
     (if \<not> locked \<or> \<not> readable then Inr (Exits 2)
      else
        let b = take FILENMSZ (pd_jobfile d); name = b @ drop (length b) (jobfile_path @ [CHR 0x00]); (v, rest, er) = strtoll_c 10 name in
        if b = [] then Inr (Done (d\<lparr>pd_nextjob := 1\<rparr>))
        else if rest = [] then Inl UninitRead
        else Inr (Done (d\<lparr>pd_nextjob := signed_take_bit 31 v\<rparr>)))"

definition init_printer :: "string option \<Rightarrow> resolver \<Rightarrow> printd \<Rightarrow> printd outcome cres" where
  "init_printer config getaddrlist d = (case get_printaddr config getaddrlist of
      Done (Some (a # as)) \<Rightarrow> Inr (Done (d\<lparr>pd_printer := (ai_addr a, case ai_canonname a of None \<Rightarrow> ''printer'' | Some n \<Rightarrow> n)\<rparr>))
    | Exits n \<Rightarrow> Inr (Exits n)
    | _ \<Rightarrow> Inr (Exits 1))"

text \<open>The number is written over the start of the file, which is never cut. A failure ends the daemon.\<close>

definition update_jobno :: "bool \<Rightarrow> printd \<Rightarrow> printd outcome" where
  "update_jobno written d =
     (if \<not> written then Exits 2 else let buf = show_dec (pd_nextjob d) in Done (d\<lparr>pd_jobfile := buf @ drop (length buf) (pd_jobfile d)\<rparr>))"

definition get_newjobno :: "printd \<Rightarrow> (int \<times> printd) cres" where
  "get_newjobno d =
     (let jobid = pd_nextjob d in
      if jobid = INT_MAX then Inl SignedOverflow
      else Inr (jobid, d\<lparr>pd_nextjob := if jobid + 1 \<le> 0 then 1 else jobid + 1\<rparr>))"

definition enqueue :: "bool \<Rightarrow> job \<Rightarrow> printd \<Rightarrow> printd outcome cres" where
  "enqueue malloc_ok j d = (if \<not> malloc_ok then Inr (Exits 2) else bind_c (enqueue_job j (pd_jobs d)) (\<lambda>js. Inr (Done (d\<lparr>pd_jobs := js\<rparr>))))"

text \<open>
  The names that \<^verbatim>\<open>readdir\<close> delivers, in any order, with what happens to each: a file that cannot be opened is left alone; one that cannot be read, or is too short, goes, with its data. Without memory for a
  job the daemon ends.
\<close>

datatype dir_entry = Opened | NotOpened | NotRead | NoMemory

definition drop_job :: "string \<Rightarrow> printd \<Rightarrow> printd" where
  "drop_job name d = d\<lparr>pd_reqs := (pd_reqs d)(name := None), pd_data := (pd_data d)(name := None)\<rparr>"

fun build_qonstart :: "(string \<times> dir_entry) list \<Rightarrow> printd \<Rightarrow> printd outcome cres" where
  "build_qonstart [] d = Inr (Done d)"
| "build_qonstart ((name, en) # names) d =
     (if name = ''.'' \<or> name = ''..'' then build_qonstart names d
      else if FILENMSZ < length reqs_path + length name + 1 then Inl BufferOverflow
      else case pd_reqs d name of
        None \<Rightarrow> build_qonstart names d
      | Some c \<Rightarrow>
          if en = NotOpened then build_qonstart names d
          else if en = NotRead \<or> length c < sizeof_req then build_qonstart names (drop_job name d)
          else bind_e (enqueue (en \<noteq> NoMemory) (signed_take_bit 31 (fst (strtoll_c 10 name)), req_of c) d) (\<lambda>d1. build_qonstart names d1))"

subsection \<open>A client\<close>

datatype fwrite = FullWrite | ShortWrite nat | WriteFails int

datatype stored = StoreDone nat string | StoreFails int

text \<open>The comparison with \<^verbatim>\<open>%!PS\<close> reads the buffer beyond what has arrived when all of it agrees.\<close>

definition ps_flag :: "string \<Rightarrow> nat \<Rightarrow> nat cres" where
  "ps_flag b flags =
     (if take 4 b = ''%!PS'' then Inr flags
      else if length b < 4 \<and> take (length b) ''%!PS'' = b then Inl UninitRead
      else Inr (if even flags then flags + PR_TEXT else flags))"

function store_loop :: "fwrite list \<Rightarrow> bool \<Rightarrow> nat \<Rightarrow> string \<Rightarrow> source \<Rightarrow> stored cres" where
  "store_loop ws first flags acc s = (case tread IOBUFSZ s of
      (Inl e, s1) \<Rightarrow> Inr (StoreDone flags acc)
    | (Inr b, s1) \<Rightarrow>
        if b = [] then Inr (StoreDone flags acc)
        else bind_c (if first then ps_flag b flags else Inr flags) (\<lambda>fl. case ws of
            [] \<Rightarrow> store_loop [] False fl (acc @ b) s1
          | FullWrite # ws1 \<Rightarrow> store_loop ws1 False fl (acc @ b) s1
          | ShortWrite n # ws1 \<Rightarrow> if n < length b then Inr (StoreFails EIO) else store_loop ws1 False fl (acc @ b) s1
          | WriteFails e # ws1 \<Rightarrow> Inr (StoreFails e)))"
  by pat_completeness auto
termination
  by (relation "measure (\<lambda>(_, _, _, _, s). length (snd s))")
    (auto simp: tread_def split: read_answer.splits prod.splits dest!: sym [of _ "read_c _ _"] read_c_events)

declare store_loop.simps [simp del]

text \<open>What the system answers to a client's thread, and the bytes of the response that are never set.\<close>

record cl_env =
  ce_malloc_worker :: bool
  ce_malloc_job :: bool
  ce_creat_data :: "int option"
  ce_writes :: "fwrite list"
  ce_creat_req :: "int option"
  ce_write_req :: fwrite
  ce_strerror :: "nat \<Rightarrow> string"
  ce_garbage :: string

text \<open>The number of the error is converted to network order before its text is looked up.\<close>

definition error_response :: "cl_env \<Rightarrow> int \<Rightarrow> string" where
  "error_response ce e =
     (let code = htonl (nat (e mod 2 ^ 32)); m = take MSGLEN_MAX (ce_strerror ce code)
      in resp_bytes \<lparr>rs_retcode = code, rs_jobid = 0, rs_msg = m @ replicate (MSGLEN_MAX - length m) (CHR 0x00)\<rparr>)"

definition ok_response :: "cl_env \<Rightarrow> int \<Rightarrow> string" where
  "ok_response ce jobid =
     (let m = ''request ID '' @ show_dec jobid @ [CHR 0x00]
      in resp_bytes \<lparr>rs_retcode = 0, rs_jobid = htonl (nat (jobid mod 2 ^ 32)), rs_msg = m @ drop (length m) (ce_garbage ce)\<rparr>)"

datatype client =
    Connected nat source
  | Joined source
  | HasRequest printreq source
  | Numbered printreq source int
  | DataStored printreq int
  | Filed printreq int
  | Answered printreq int
  | Leaving nat
  | Over nat

definition fails :: "cl_env \<Rightarrow> int \<Rightarrow> printd \<Rightarrow> (client \<times> string \<times> printd) outcome cres" where
  "fails ce e d = Inr (Done (Leaving 1, error_response ce e, d))"

definition goes_on :: "client \<Rightarrow> printd \<Rightarrow> (client \<times> string \<times> printd) outcome cres" where
  "goes_on c d = Inr (Done (c, [], d))"

definition receive_request :: "cl_env \<Rightarrow> source \<Rightarrow> printd \<Rightarrow> (client \<times> string \<times> printd) outcome cres" where
  "receive_request ce s d = (case treadn sizeof_req s of
      (Inl e, s1) \<Rightarrow> fails ce e d
    | (Inr b, s1) \<Rightarrow>
        if length b \<noteq> sizeof_req then fails ce EIO d
        else goes_on (HasRequest ((req_of b)\<lparr>rq_size := ntohl (rq_size (req_of b)), rq_flags := ntohl (rq_flags (req_of b))\<rparr>) s1) d)"

definition store_data :: "cl_env \<Rightarrow> printreq \<Rightarrow> source \<Rightarrow> int \<Rightarrow> printd \<Rightarrow> (client \<times> string \<times> printd) outcome cres" where
  "store_data ce req s jobid d = (case ce_creat_data ce of
      Some e \<Rightarrow> fails ce e d
    | None \<Rightarrow> bind_c (store_loop (ce_writes ce) True (rq_flags req) [] s) (\<lambda>r. case r of
        StoreDone fl data \<Rightarrow> goes_on (DataStored (req\<lparr>rq_flags := fl\<rparr>) jobid) (d\<lparr>pd_data := (pd_data d)(show_dec jobid \<mapsto> data)\<rparr>)
      | StoreFails e \<Rightarrow> fails ce e (d\<lparr>pd_data := (pd_data d)(show_dec jobid := None)\<rparr>)))"

definition write_control :: "cl_env \<Rightarrow> printreq \<Rightarrow> int \<Rightarrow> printd \<Rightarrow> (client \<times> string \<times> printd) outcome cres" where
  "write_control ce req jobid d =
     (let without = (\<lambda>e. fails ce e (drop_job (show_dec jobid) d));
          complete = goes_on (Filed req jobid) (d\<lparr>pd_reqs := (pd_reqs d)(show_dec jobid \<mapsto> preq_bytes req)\<rparr>)
      in case ce_creat_req ce of
        Some e \<Rightarrow> fails ce e (d\<lparr>pd_data := (pd_data d)(show_dec jobid := None)\<rparr>)
      | None \<Rightarrow> (case ce_write_req ce of
          FullWrite \<Rightarrow> complete
        | ShortWrite n \<Rightarrow> if n < sizeof_req then without EIO else complete
        | WriteFails e \<Rightarrow> without e))"

definition client_step :: "cl_env \<Rightarrow> nat \<Rightarrow> client \<Rightarrow> printd \<Rightarrow> (client \<times> string \<times> printd) outcome cres" where
  "client_step ce tid c d = (case c of
      Connected sockfd s \<Rightarrow> if \<not> ce_malloc_worker ce then goes_on (Leaving 1) d else bind_c (add_worker tid sockfd (pd_workers d)) (\<lambda>w. goes_on (Joined s) (d\<lparr>pd_workers := w\<rparr>))
    | Joined s \<Rightarrow> receive_request ce s d
    | HasRequest req s \<Rightarrow> bind_c (get_newjobno d) (\<lambda>(jobid, d1). goes_on (Numbered req s jobid) d1)
    | Numbered req s jobid \<Rightarrow> store_data ce req s jobid d
    | DataStored req jobid \<Rightarrow> write_control ce req jobid d
    | Filed req jobid \<Rightarrow> Inr (Done (Answered req jobid, ok_response ce jobid, d))
    | Answered req jobid \<Rightarrow> bind_e (enqueue (ce_malloc_job ce) (jobid, req) d) (\<lambda>d1. goes_on (Leaving 0) d1)
    | Leaving n \<Rightarrow> bind_e (client_cleanup tid (pd_workers d)) (\<lambda>w. goes_on (Over n) (d\<lparr>pd_workers := w\<rparr>))
    | Over n \<Rightarrow> goes_on (Over n) d)"

text \<open>The thread on its own, from the connection to its end: eight steps are enough. The result is its exit value, what it sent to its client, and the state.\<close>

fun client_run :: "nat \<Rightarrow> cl_env \<Rightarrow> nat \<Rightarrow> client \<Rightarrow> printd \<Rightarrow> (client \<times> string \<times> printd) outcome cres" where
  "client_run 0 ce tid c d = Inr (Done (c, [], d))"
| "client_run (Suc n) ce tid c d =
     bind_e (client_step ce tid c d) (\<lambda>(c1, out1, d1). bind_e (client_run n ce tid c1 d1) (\<lambda>(c2, out2, d2). Inr (Done (c2, out1 @ out2, d2))))"

definition client_thread :: "cl_env \<Rightarrow> nat \<Rightarrow> nat \<Rightarrow> source \<Rightarrow> printd \<Rightarrow> (client \<times> string \<times> printd) outcome cres" where
  "client_thread ce tid sockfd s d = client_run 8 ce tid (Connected sockfd s) d"

subsection \<open>The printer\<close>

text \<open>The thread waits while there is no job, which is a step that changes nothing.\<close>

definition printer_take :: "bool \<Rightarrow> string option \<Rightarrow> resolver \<Rightarrow> printd \<Rightarrow> printd outcome cres" where
  "printer_take written config getaddrlist d =
     (if jobhead (fst (pd_jobs d)) = None then Inr (Done d)
      else bind_c (pick_job (pd_jobs d)) (\<lambda>js.
        bind_e (Inr (update_jobno written (d\<lparr>pd_jobs := js\<rparr>))) (\<lambda>d1.
        if pd_reread d1 then init_printer config getaddrlist (d1\<lparr>pd_reread := False\<rparr>) else Inr (Done d1))))"

record pr_env =
  pe_open :: bool
  pe_fstat :: bool
  pe_connect :: "conn_try list"
  pe_writev :: bool
  pe_back :: bool
  pe_file :: "io_event list"
  pe_sock :: "io_event list"
  pe_reply :: source

datatype attempt = Cancelled | Deferred | PrintDone

text \<open>Whether the whole document was sent, and the socket.\<close>

function doc_loop :: "source \<Rightarrow> source \<Rightarrow> (bool \<times> source) outcome" where
  "doc_loop file sock = (case read_c IOBUFSZ file of
      (Blocked, f1) \<Rightarrow> Diverges
    | (ReadErr e, f1) \<Rightarrow> Done (False, sock)
    | (Bytes b, f1) \<Rightarrow>
        if b = [] then Done (True, sock)
        else (case apue_writen b sock of
            Done (nw, s1) \<Rightarrow> if nw \<noteq> int (length b) then Done (False, s1) else doc_loop f1 s1
          | Exits n \<Rightarrow> Exits n
          | Diverges \<Rightarrow> Diverges))"
  by pat_completeness auto
termination
  by (relation "measure (\<lambda>(f, s). length (snd f))") (auto dest!: sym [of _ "read_c _ _"] read_c_events)

declare doc_loop.simps [simp del]

text \<open>The attempt to print a job, and the bytes that reached the printer.\<close>

definition print_attempt :: "pr_env \<Rightarrow> job \<Rightarrow> printd \<Rightarrow> (attempt \<times> string) outcome cres" where
  "print_attempt pe j d = (case j of (jobid, req) \<Rightarrow>
     case pd_data d (show_dec jobid) of
       None \<Rightarrow> Inr (Done (Cancelled, []))
     | Some data \<Rightarrow>
         if \<not> pe_open pe \<or> \<not> pe_fstat pe then Inr (Done (Cancelled, []))
         else bind_e (Inr (connect_retry (pe_connect pe))) (\<lambda>(fd, slept, ts).
           if fd = None then Inr (Done (Deferred, []))
           else bind_c (print_headers (snd (pd_printer d)) jobid req (length data)) (\<lambda>(hbuf, ibuf).
             if \<not> pe_writev pe then Inr (Done (Deferred, []))
             else if odd (rq_flags req) \<and> \<not> pe_back pe then Inr (Done (Deferred, hbuf @ ibuf))
             else bind_e (Inr (doc_loop (data, pe_file pe) (hbuf @ ibuf @ (if odd (rq_flags req) then [CHR 0x08] else []), pe_sock pe))) (\<lambda>(sent, sock).
               if \<not> sent then Inr (Done (Deferred, fst sock))
               else bind_e (printer_status jobid (pe_reply pe)) (\<lambda>ok. Inr (Done (if ok then PrintDone else Deferred, fst sock)))))))"

definition printer_finish :: "attempt \<Rightarrow> job \<Rightarrow> printd \<Rightarrow> printd cres" where
  "printer_finish a j d = (case a of
      Cancelled \<Rightarrow> bind_c (finish_job (pd_jobs d)) (\<lambda>js. Inr (d\<lparr>pd_jobs := js\<rparr>))
    | Deferred \<Rightarrow> bind_c (defer_job (pd_jobs d)) (\<lambda>js. Inr (d\<lparr>pd_jobs := js\<rparr>))
    | PrintDone \<Rightarrow> bind_c (finish_job (pd_jobs d)) (\<lambda>js.
        Inr (drop_job (show_dec (fst j)) (d\<lparr>pd_jobs := js\<rparr>))))"

definition hand_job :: "printd \<Rightarrow> job cres" where
  "hand_job d = bind_c (deref (jl_heap (fst (pd_jobs d))) (snd (pd_jobs d))) (\<lambda>n. Inr (nd_item n))"

definition printer_work :: "pr_env \<Rightarrow> printd \<Rightarrow> (attempt \<times> string \<times> printd) outcome cres" where
  "printer_work pe d =
     bind_c (hand_job d) (\<lambda>j.
     bind_e (print_attempt pe j d) (\<lambda>(a, out). bind_c (printer_finish a j d) (\<lambda>d1. Inr (Done (a, out, d1)))))"

definition printer_thread :: "bool \<Rightarrow> string option \<Rightarrow> resolver \<Rightarrow> pr_env \<Rightarrow> printd \<Rightarrow> (attempt \<times> string \<times> printd) outcome cres" where
  "printer_thread written config getaddrlist pe d = bind_e (printer_take written config getaddrlist d) (\<lambda>d1. printer_work pe d1)"

subsection \<open>Signals\<close>

datatype posix_signal = SIGHUP | SIGTERM | OtherSignal | SigwaitFails

definition signal_thread :: "posix_signal \<Rightarrow> printd \<Rightarrow> printd outcome cres" where
  "signal_thread sg d = (case sg of
      SIGHUP \<Rightarrow> Inr (Done (d\<lparr>pd_reread := True\<rparr>))
    | SIGTERM \<Rightarrow> bind_e (kill_workers (pd_workers d)) (\<lambda>ts. Inr (Exits 0))
    | OtherSignal \<Rightarrow> bind_e (kill_workers (pd_workers d)) (\<lambda>ts. Inr (Exits 2))
    | SigwaitFails \<Rightarrow> Inr (Exits 2))"

subsection \<open>The main thread up to its loop\<close>

text \<open>
  The arguments: whether there were none on the command line, the addresses of the host for the service \<^verbatim>\<open>print\<close>, the answers of the calls of \<^verbatim>\<open>initserver\<close> for each, the entry of the spooler's user, if
  it exists, with the user's number, whether the change of identity succeeds, the lock of the job file and whether it can be read, the configuration, whether threads can be created, and the names in the directory of requests.
\<close>

fun open_servers :: "(nat option \<times> bool \<times> bool \<times> bool) list \<Rightarrow> nat list" where
  "open_servers [] = []"
| "open_servers ((sock, a, b, c) # as) = (case fst (initserver sock True a b c) of None \<Rightarrow> open_servers as | Some fd \<Rightarrow> fd # open_servers as)"

definition printd_start :: "bool \<Rightarrow> (nat option \<times> bool \<times> bool \<times> bool) list option \<Rightarrow> nat option \<Rightarrow> bool \<Rightarrow> bool \<Rightarrow> bool \<Rightarrow> string option \<Rightarrow> resolver \<Rightarrow> bool \<Rightarrow> (string \<times> dir_entry) list \<Rightarrow> printd \<Rightarrow>
    (nat list \<times> printd) outcome cres" where
  "printd_start noargs addrs pw setids locked readable config getaddrlist threads names d =
     (if \<not> noargs then Inr (Exits 1)
      else case addrs of
        None \<Rightarrow> Inr (Exits 2)
      | Some as \<Rightarrow>
          if open_servers as = [] then Inr (Exits 2)
          else case pw of
            None \<Rightarrow> Inr (Exits 2)
          | Some uid \<Rightarrow>
              if uid = 0 \<or> \<not> setids then Inr (Exits 2)
              else bind_e (init_request locked readable d) (\<lambda>d1.
                bind_e (init_printer config getaddrlist d1) (\<lambda>d2.
                  if \<not> threads then Inr (Exits 2)
                  else bind_e (build_qonstart names d2) (\<lambda>d3. Inr (Done (open_servers as, d3))))))"

text \<open>
  A turn of the loop that accepts connections. A thread is created for whatever \<^verbatim>\<open>accept\<close> returns, also for -1, which \<^verbatim>\<open>tread\<close> then enters into a descriptor set: a write before its first bit.
\<close>

definition accept_client :: "bool \<Rightarrow> (nat \<times> source) option \<Rightarrow> client outcome cres" where
  "accept_client selected conn =
     (if \<not> selected then Inr (Exits 2) else case conn of None \<Rightarrow> Inl OutOfBounds | Some (sockfd, s) \<Rightarrow> Inr (Done (Connected sockfd s)))"

text \<open>The state that a daemon starts with: the files that are there, and nothing else.\<close>

definition fresh_daemon :: "printd \<Rightarrow> printd" where
  "fresh_daemon d = d\<lparr>pd_jobs := (jobs_init, None), pd_workers := workers_init, pd_nextjob := 0, pd_reread := False, pd_printer := (0, [])\<rparr>"

end
