(* ===== verification/Spool_Session.thy ===== *)
theory Spool_Session
  imports Spool_Daemon
begin

section \<open>A file on its way to the spool\<close>

text \<open>
  The transfer between the client and the daemon, in pieces of any size: the client's writing of a request and a file, the daemon's reading of both, and the response. The first group of lemmas says what each
  function transfers over a descriptor whose calls all succeed; then the thread of a client is followed from its start to its end.
\<close>

subsection \<open>Whole transfers\<close>

lemma ready_event:
  assumes "all_ready es" and "0 < length es"
  obtains k es' where "es = Ready k # es'" "all_ready es'"
  using assms all_ready_Cons by (cases es) auto

lemma read_ready: "read_c n (inp, Ready k # es) = (Bytes (take (min n (max 1 k)) inp), (drop (min n (max 1 k)) inp, es))"
  by (simp add: Let_def)

lemma apue_writen_loop_block:
  assumes "all_ready es" and "length buf - w \<le> length es" and "w \<le> length buf"
  shows "\<exists>es'. apue_writen_loop buf w (out, es) = Done (int (length buf), (out @ drop w buf, es')) \<and> all_ready es' \<and> length es \<le> length es' + (length buf - w)"
  using assms
proof (induction "length buf - w" arbitrary: w out es rule: less_induct)
  case less
  show ?case
  proof (cases "w < length buf")
    case False
    then show ?thesis using less.prems by (subst apue_writen_loop.simps) simp
  next
    case True
    obtain k es1 where es: "es = Ready k # es1" "all_ready es1" using less.prems True by (metis diff_is_0_eq less_le_not_le list.size(3) neq0_conv not_le ready_event)
    define m where "m = min (length buf - w) (max 1 k)"
    have m: "0 < m" "m \<le> length buf - w" using True by (simp_all add: m_def)
    have "apue_writen_loop buf w (out, es) = apue_writen_loop buf (w + m) (out @ take m (drop w buf), es1)"
    proof -
      have wr: "write_c (drop w buf) (out, es) = (Wrote m, (out @ take m (drop w buf), es1))" using es by (simp add: m_def Let_def)
      show ?thesis using True m(1) by (subst apue_writen_loop.simps) (simp add: wr)
    qed
    moreover have "length buf - (w + m) < length buf - w" "length buf - (w + m) \<le> length es1" "w + m \<le> length buf" using m less.prems(2) es by auto
    moreover from this obtain es2 where "apue_writen_loop buf (w + m) (out @ take m (drop w buf), es1) = Done (int (length buf), ((out @ take m (drop w buf)) @ drop (w + m) buf, es2))"
        "all_ready es2" "length es1 \<le> length es2 + (length buf - (w + m))"
      using less.hyps es(2) by blast
    moreover have "take m (drop w buf) @ drop (w + m) buf = drop w buf" by (metis add.commute append_take_drop_id drop_drop)
    ultimately show ?thesis using es m by auto
  qed
qed

lemma apue_writen_block:
  assumes "all_ready es" and "length buf \<le> length es"
  obtains es' where "apue_writen buf (out, es) = Done (int (length buf), (out @ buf, es'))" "all_ready es'" "length es \<le> length es' + length buf"
  using apue_writen_loop_block [of es buf 0 out] assms by (auto simp: apue_writen_def)

lemma apue_readn_loop_block:
  assumes "all_ready es" and "n - length buf \<le> length es" and "length buf + length inp = n"
  shows "\<exists>s. apue_readn_loop n buf (inp, es) = Done (int n, buf @ inp, s)"
  using assms
proof (induction "length inp" arbitrary: buf inp es rule: less_induct)
  case less
  show ?case
  proof (cases "inp = []")
    case True
    then show ?thesis using less.prems by (subst apue_readn_loop.simps) simp
  next
    case False
    then have pos: "0 < length inp" by simp
    obtain k es1 where es: "es = Ready k # es1" "all_ready es1" using less.prems pos by (metis add_diff_cancel_left' le_zero_eq length_greater_0_conv neq0_conv list.size(3) ready_event)
    define m where "m = min (n - length buf) (max 1 k)"
    have m: "0 < m" "m \<le> length inp" using less.prems(3) pos by (auto simp: m_def)
    have "apue_readn_loop n buf (inp, es) = apue_readn_loop n (buf @ take m inp) (drop m inp, es1)"
    proof -
      have rd: "read_c (n - length buf) (inp, es) = (Bytes (take m inp), (drop m inp, es1))" unfolding es(1) read_ready m_def ..
      show ?thesis using less.prems(3) pos m False by (subst apue_readn_loop.simps) (simp add: rd)
    qed
    moreover have "\<exists>s. apue_readn_loop n (buf @ take m inp) (drop m inp, es1) = Done (int n, (buf @ take m inp) @ drop m inp, s)"
      by (rule less.hyps) (use m less.prems es in auto)
    ultimately show ?thesis by simp
  qed
qed

lemma send_loop_block:
  assumes "all_ready fes" and "length doc < length fes" and "all_ready ses" and "length doc \<le> length ses"
  shows "\<exists>ses'. send_loop (doc, fes) (out, ses) = Inr (Done (out @ doc, ses')) \<and> doc_loop (doc, fes) (out, ses) = Done (True, (out @ doc, ses'))"
  using assms
proof (induction "length doc" arbitrary: doc fes out ses rule: less_induct)
  case less
  obtain k fes1 where fes: "fes = Ready k # fes1" "all_ready fes1" using less.prems ready_event by (metis le_less_trans zero_le)
  define m where "m = min IOBUFSZ (max 1 k)"
  have read: "read_c IOBUFSZ (doc, fes) = (Bytes (take m doc), (drop m doc, fes1))" using fes by (simp add: m_def Let_def)
  have m: "0 < m" by (simp add: m_def IOBUFSZ_def)
  show ?case
  proof (cases "doc = []")
    case True
    then show ?thesis using read by (subst send_loop.simps, subst doc_loop.simps) simp
  next
    case False
    then have pos: "0 < length doc" by simp
    have "length doc \<le> length fes1" using less.prems(2) fes(1) by simp
    then have shrink: "length doc - m < length fes1" using pos m by linarith
    have "length (take m doc) \<le> length ses" using less.prems(4) by simp
    from apue_writen_block [OF less.prems(3) this, of out] obtain ses1 where
      w: "apue_writen (take m doc) (out, ses) = Done (int (length (take m doc)), (out @ take m doc, ses1))" "all_ready ses1" "length ses \<le> length ses1 + length (take m doc)"
      by blast
    have "\<exists>ses'. send_loop (drop m doc, fes1) (out @ take m doc, ses1) = Inr (Done ((out @ take m doc) @ drop m doc, ses')) \<and>
        doc_loop (drop m doc, fes1) (out @ take m doc, ses1) = Done (True, ((out @ take m doc) @ drop m doc, ses'))"
      by (rule less.hyps) (use False shrink m w fes less.prems in auto)
    moreover have "send_loop (doc, fes) (out, ses) = send_loop (drop m doc, fes1) (out @ take m doc, ses1)"
        "doc_loop (doc, fes) (out, ses) = doc_loop (drop m doc, fes1) (out @ take m doc, ses1)"
      using False m w(1) by (simp_all add: read send_loop.simps [of "(doc, fes)"] doc_loop.simps [of "(doc, fes)"])
    ultimately show ?thesis by simp
  qed
qed

lemma treadn_loop_block:
  assumes "all_ready es" and "n - length buf \<le> length es" and "n \<le> length buf + length inp" and "length buf \<le> n"
  shows "\<exists>es'. treadn_loop n buf (inp, es) = (Inr (buf @ take (n - length buf) inp), (drop (n - length buf) inp, es')) \<and> set es' \<subseteq> set es \<and> length es \<le> length es' + (n - length buf)"
  using assms
proof (induction "n - length buf" arbitrary: buf inp es rule: less_induct)
  case less
  show ?case
  proof (cases "length buf < n")
    case False
    then show ?thesis using less.prems by (subst treadn_loop.simps) simp
  next
    case True
    obtain k es1 where es: "es = Ready k # es1" "all_ready es1" using less.prems True by (metis diff_is_0_eq less_le_not_le list.size(3) neq0_conv not_le ready_event)
    define m where "m = min (n - length buf) (max 1 k)"
    have m: "0 < m" "m \<le> n - length buf" "m \<le> length inp" using True less.prems(3) by (auto simp: m_def)
    have ne: "take m inp \<noteq> []" using m by auto
    have "treadn_loop n buf (inp, es) = treadn_loop n (buf @ take m inp) (drop m inp, es1)"
    proof -
      have rd: "tread (n - length buf) (inp, es) = (Inr (take m inp), (drop m inp, es1))" unfolding es(1) tread_def read_ready m_def by simp
      show ?thesis using True ne by (subst treadn_loop.simps) (simp add: rd)
    qed
    moreover have "\<exists>es'. treadn_loop n (buf @ take m inp) (drop m inp, es1) = (Inr ((buf @ take m inp) @ take (n - length (buf @ take m inp)) (drop m inp)),
        (drop (n - length (buf @ take m inp)) (drop m inp), es')) \<and> set es' \<subseteq> set es1 \<and> length es1 \<le> length es' + (n - length (buf @ take m inp))"
      by (rule less.hyps) (use m less.prems es in auto)
    moreover have "take m inp @ take (n - length (buf @ take m inp)) (drop m inp) = take (n - length buf) inp" "drop (n - length (buf @ take m inp)) (drop m inp) = drop (n - length buf) inp"
      using m take_add [of m "n - length buf - m" inp] by (simp_all add: drop_drop)
    ultimately show ?thesis using es m by auto
  qed
qed

lemma store_loop_rest:
  assumes "all_ready es" and "length inp \<le> length es"
  shows "store_loop [] False fl acc (inp, es) = Inr (StoreDone fl (acc @ inp))"
  using assms
proof (induction "length inp" arbitrary: inp es acc rule: less_induct)
  case less
  show ?case
  proof (cases es)
    case Nil
    then show ?thesis using less.prems by (subst store_loop.simps) (simp add: tread_def)
  next
    case (Cons e es1)
    then obtain k where es: "es = Ready k # es1" "all_ready es1" using less.prems all_ready_Cons by metis
    define m where "m = min IOBUFSZ (max 1 k)"
    have m: "0 < m" by (simp add: m_def IOBUFSZ_def)
    have t: "tread IOBUFSZ (inp, es) = (Inr (take m inp), (drop m inp, es1))" using es by (simp add: tread_def m_def Let_def)
    show ?thesis
    proof (cases "inp = []")
      case True
      then show ?thesis using t by (subst store_loop.simps) simp
    next
      case False
      then have "store_loop [] False fl acc (inp, es) = store_loop [] False fl (acc @ take m inp) (drop m inp, es1)" using m by (subst store_loop.simps) (simp add: t)
      moreover have "store_loop [] False fl (acc @ take m inp) (drop m inp, es1) = Inr (StoreDone fl ((acc @ take m inp) @ drop m inp))"
        by (rule less.hyps) (use False m es less.prems in auto)
      ultimately show ?thesis by simp
    qed
  qed
qed

subsection \<open>What the daemon makes of a request\<close>

text \<open>The flags that a document gets, and the request in the order of the host.\<close>

definition doc_flags :: "string \<Rightarrow> nat \<Rightarrow> nat" where
  "doc_flags doc fl = (if doc = [] \<or> take 4 doc = ''%!PS'' \<or> odd fl then fl else fl + PR_TEXT)"

definition spooled :: "printreq \<Rightarrow> string \<Rightarrow> printreq" where
  "spooled req doc = req\<lparr>rq_size := ntohl (rq_size req), rq_flags := doc_flags doc (ntohl (rq_flags req))\<rparr>"

text \<open>The first four bytes are judged at once: the document does not begin like \<^verbatim>\<open>%!PS\<close>, or every read delivers four bytes and there are four.\<close>

definition ps_decidable :: "string \<Rightarrow> io_event list \<Rightarrow> bool" where
  "ps_decidable doc es \<longleftrightarrow> doc = [] \<or> hd doc \<noteq> CHR ''%'' \<or> (4 \<le> length doc \<and> (\<forall>k. Ready k \<in> set es \<longrightarrow> 4 \<le> k))"

lemma ps_flag_first:
  assumes "ps_decidable doc (Ready k # es)" and "doc \<noteq> []" and "m = min IOBUFSZ (max 1 k)"
  shows "ps_flag (take m doc) fl = Inr (doc_flags doc fl)"
proof -
  have m: "0 < m" using assms(3) by (simp add: IOBUFSZ_def)
  show ?thesis
  proof (cases "hd doc = CHR ''%''")
    case True
    then have k: "4 \<le> length doc" "4 \<le> k" using assms(1,2) by (auto simp: ps_decidable_def)
    then have "4 \<le> m" using assms(3) by (simp add: IOBUFSZ_def)
    then have "take 4 (take m doc) = take 4 doc" "\<not> length (take m doc) < 4" using k by (simp_all add: min_def)
    then show ?thesis using assms(2) by (auto simp: ps_flag_def doc_flags_def)
  next
    case False
    then obtain c ds where doc: "doc = c # ds" "c \<noteq> CHR ''%''" using assms(2) by (cases doc) auto
    obtain m' where m': "m = Suc m'" using m by (cases m) auto
    have "take 4 (take m doc) \<noteq> ''%!PS''" "take 4 doc \<noteq> ''%!PS''" "take (length (take m doc)) ''%!PS'' \<noteq> take m doc" using doc m' by (auto simp: numeral_eq_Suc)
    then show ?thesis using assms(2) by (simp add: ps_flag_def doc_flags_def)
  qed
qed

lemma store_loop_all:
  assumes "all_ready es" and "length doc \<le> length es" and "ps_decidable doc es"
  shows "store_loop [] True fl [] (doc, es) = Inr (StoreDone (doc_flags doc fl) doc)"
proof (cases es)
  case Nil
  then show ?thesis using assms by (subst store_loop.simps) (simp add: tread_def doc_flags_def)
next
  case (Cons e es1)
  then obtain k where es: "es = Ready k # es1" "all_ready es1" using assms(1) all_ready_Cons by metis
  define m where "m = min IOBUFSZ (max 1 k)"
  have m: "0 < m" by (simp add: m_def IOBUFSZ_def)
  have t: "tread IOBUFSZ (doc, es) = (Inr (take m doc), (drop m doc, es1))" using es by (simp add: tread_def m_def Let_def)
  show ?thesis
  proof (cases "doc = []")
    case True
    then show ?thesis using t by (subst store_loop.simps) (simp add: doc_flags_def)
  next
    case False
    then have pos: "0 < length doc" by simp
    have "ps_flag (take m doc) fl = Inr (doc_flags doc fl)" using ps_flag_first assms(3) False es(1) m_def by blast
    then have "store_loop [] True fl [] (doc, es) = store_loop [] False (doc_flags doc fl) (take m doc) (drop m doc, es1)" using m False by (subst store_loop.simps) (simp add: t)
    moreover have "length (drop m doc) \<le> length es1" using assms(2) es(1) m pos by simp
    ultimately show ?thesis using store_loop_rest [OF es(2)] by simp
  qed
qed

lemma ps_decidable_subset: "ps_decidable doc es \<Longrightarrow> set es' \<subseteq> set es \<Longrightarrow> ps_decidable doc es'"
  by (auto simp: ps_decidable_def)

lemma all_ready_subset: "all_ready es \<Longrightarrow> set es' \<subseteq> set es \<Longrightarrow> all_ready es'"
  by (auto simp: all_ready_def list_all_iff)

subsection \<open>The thread of a client\<close>

text \<open>The system fails none of the thread's calls.\<close>

definition env_ok :: "cl_env \<Rightarrow> bool" where
  "env_ok ce \<longleftrightarrow> ce_malloc_worker ce \<and> ce_malloc_job ce \<and> ce_creat_data ce = None \<and> ce_writes ce = [] \<and> ce_creat_req ce = None \<and> ce_write_req ce = FullWrite \<and>
     length (ce_garbage ce) = MSGLEN_MAX"

lemma client_run_step:
  "client_step ce tid c d = Inr (Done (c1, out1, d1)) \<Longrightarrow> client_run n ce tid c1 d1 = Inr (Done (c2, out2, d2)) \<Longrightarrow> client_run (Suc n) ce tid c d = Inr (Done (c2, out1 @ out2, d2))"
  by simp

text \<open>The steps up to the response, when no call fails.\<close>

lemma client_answers:
  assumes env: "env_ok ce" and w1: "add_worker tid sockfd (pd_workers d) = Inr w1" and num: "0 < pd_nextjob d" "pd_nextjob d < INT_MAX"
    and req: "req_ok req" and es: "all_ready es" "sizeof_req + length doc \<le> length es" "ps_decidable doc es"
    and d4: "d4 = d\<lparr>pd_workers := w1, pd_nextjob := pd_nextjob d + 1, pd_data := (pd_data d)(show_dec (pd_nextjob d) \<mapsto> doc),
      pd_reqs := (pd_reqs d)(show_dec (pd_nextjob d) \<mapsto> preq_bytes (spooled req doc))\<rparr>"
  obtains c1 c2 c3 d1 d2 d3 where "client_step ce tid (Connected sockfd (preq_bytes req @ doc, es)) d = Inr (Done (c1, [], d1))" "client_step ce tid c1 d1 = Inr (Done (c2, [], d1))"
    "client_step ce tid c2 d1 = Inr (Done (c3, [], d2))" "client_step ce tid c3 d2 = Inr (Done (DataStored (spooled req doc) (pd_nextjob d), [], d3))"
    "client_step ce tid (DataStored (spooled req doc) (pd_nextjob d)) d3 = Inr (Done (Filed (spooled req doc) (pd_nextjob d), [], d4))"
    "client_step ce tid (Filed (spooled req doc) (pd_nextjob d)) d4 = Inr (Done (Answered (spooled req doc) (pd_nextjob d), ok_response ce (pd_nextjob d), d4))"
    "\<And>r k. c1 \<noteq> Filed r k" "\<And>r k. c2 \<noteq> Filed r k" "\<And>r k. c3 \<noteq> Filed r k"
proof -
  let ?n = "pd_nextjob d" and ?name = "show_dec (pd_nextjob d)"
  have len: "length (preq_bytes req) = sizeof_req" using preq_bytes_length [OF req] .
  obtain es1 where t: "treadn sizeof_req (preq_bytes req @ doc, es) = (Inr (preq_bytes req), (doc, es1))" "set es1 \<subseteq> set es" "length es \<le> length es1 + sizeof_req"
    using treadn_loop_block [of es sizeof_req "[]" "preq_bytes req @ doc"] es len unfolding treadn_def by auto
  define r1 where "r1 = req\<lparr>rq_size := ntohl (rq_size req), rq_flags := ntohl (rq_flags req)\<rparr>"
  define d1 where "d1 = d\<lparr>pd_workers := w1\<rparr>"
  define d2 where "d2 = d1\<lparr>pd_nextjob := ?n + 1\<rparr>"
  define d3 where "d3 = d2\<lparr>pd_data := (pd_data d)(?name \<mapsto> doc)\<rparr>"
  note ds = d1_def d2_def d3_def d4
  note cs = client_step_def goes_on_def client.case
  have s1: "client_step ce tid (Connected sockfd (preq_bytes req @ doc, es)) d = Inr (Done (Joined (preq_bytes req @ doc, es), [], d1))"
    using env w1 by (simp add: cs env_ok_def ds)
  have s2: "client_step ce tid (Joined (preq_bytes req @ doc, es)) d1 = Inr (Done (HasRequest r1 (doc, es1), [], d1))"
    using t(1) len req_of_bytes [OF req, of "[]"] by (simp add: cs receive_request_def r1_def)
  have s3: "client_step ce tid (HasRequest r1 (doc, es1)) d1 = Inr (Done (Numbered r1 (doc, es1) ?n, [], d2))"
    using num by (simp add: cs get_newjobno_def ds Let_def)
  have sl: "store_loop [] True (rq_flags r1) [] (doc, es1) = Inr (StoreDone (doc_flags doc (rq_flags r1)) doc)"
    using store_loop_all [of es1 doc] es t(2,3) all_ready_subset ps_decidable_subset by (metis add_le_cancel_left add.commute le_trans)
  have s4: "client_step ce tid (Numbered r1 (doc, es1) ?n) d2 = Inr (Done (DataStored (spooled req doc) ?n, [], d3))"
    using env sl by (simp add: cs store_data_def env_ok_def spooled_def r1_def ds)
  have s5: "client_step ce tid (DataStored (spooled req doc) ?n) d3 = Inr (Done (Filed (spooled req doc) ?n, [], d4))"
    using env by (simp add: cs write_control_def env_ok_def ds)
  have s6: "client_step ce tid (Filed (spooled req doc) ?n) d4 = Inr (Done (Answered (spooled req doc) ?n, ok_response ce ?n, d4))" by (simp add: cs)
  show thesis by (rule that [OF s1 s2 s3 s4 s5 s6]) simp_all
qed

lemma client_thread_stores:
  assumes env: "env_ok ce" and idle: "wk_head (pd_workers d) = None" and num: "0 < pd_nextjob d" "pd_nextjob d < INT_MAX" and q: "jobs_rep (pd_jobs d) (xs, hand)"
    and req: "req_ok req" and es: "all_ready es" "sizeof_req + length doc \<le> length es" "ps_decidable doc es"
  obtains d' where "client_thread ce tid sockfd (preq_bytes req @ doc, es) d = Inr (Done (Over 0, ok_response ce (pd_nextjob d), d'))"
    "pd_data d' = (pd_data d)(show_dec (pd_nextjob d) \<mapsto> doc)" "pd_reqs d' = (pd_reqs d)(show_dec (pd_nextjob d) \<mapsto> preq_bytes (spooled req doc))"
    "jobs_rep (pd_jobs d') (xs @ [(pd_nextjob d, spooled req doc)], hand)" "pd_nextjob d' = pd_nextjob d + 1" "pd_jobfile d' = pd_jobfile d"
    "wk_head (pd_workers d') = None"
proof -
  let ?n = "pd_nextjob d" and ?w = "pd_workers d"
  obtain w1 where w1: "add_worker tid sockfd ?w = Inr w1" "client_cleanup tid w1 = Inr (Done (?w\<lparr>wk_brk := wk_brk ?w + 1, wk_heap := (wk_heap ?w)(wk_brk ?w := None), wk_closed := wk_closed ?w @ [sockfd]\<rparr>))"
    using one_worker [OF idle, of tid sockfd] by (auto simp: worker_step_def)
  obtain js where js: "enqueue_job (?n, spooled req doc) (pd_jobs d) = Inr js" "jobs_rep js (xs @ [(?n, spooled req doc)], hand)"
    using printq.add_rep [OF q] by (metis queue_spec.simps(1))
  define d4 where "d4 = d\<lparr>pd_workers := w1, pd_nextjob := ?n + 1, pd_data := (pd_data d)(show_dec ?n \<mapsto> doc), pd_reqs := (pd_reqs d)(show_dec ?n \<mapsto> preq_bytes (spooled req doc))\<rparr>"
  define d5 where "d5 = d4\<lparr>pd_jobs := js\<rparr>"
  define d6 where "d6 = d5\<lparr>pd_workers := ?w\<lparr>wk_brk := wk_brk ?w + 1, wk_heap := (wk_heap ?w)(wk_brk ?w := None), wk_closed := wk_closed ?w @ [sockfd]\<rparr>\<rparr>"
  have s7: "client_step ce tid (Answered (spooled req doc) ?n) d4 = Inr (Done (Leaving 0, [], d5))"
    using env js(1) by (simp add: client_step_def goes_on_def enqueue_def env_ok_def d4_def d5_def)
  have s8: "client_step ce tid (Leaving 0) d5 = Inr (Done (Over 0, [], d6))" using w1(2) by (simp add: client_step_def goes_on_def d4_def d5_def d6_def)
  have "client_run 8 ce tid (Connected sockfd (preq_bytes req @ doc, es)) d = Inr (Done (Over 0, [] @ [] @ [] @ [] @ [] @ ok_response ce ?n @ [] @ [] @ [], d6))"
  proof (rule client_answers [OF env w1(1) num req es d4_def], goal_cases)
    case (1 c1 c2 c3 d1 d2 d3)
    note first = 1(1-6)
    show ?case
      unfolding eval_nat_numeral BitM.simps
      by (rule client_run_step [OF first(1) client_run_step [OF first(2) client_run_step [OF first(3) client_run_step [OF first(4) client_run_step [OF first(5) client_run_step [OF first(6)
        client_run_step [OF s7 client_run_step [OF s8 client_run.simps(1)]]]]]]]])
  qed
  then show thesis using that [of d6] js(2) idle by (simp add: client_thread_def d4_def d5_def d6_def)
qed

end
