(* ===== verification/Spool_Props.thy ===== *)
theory Spool_Props
  imports Spool_Session
begin

section \<open>The spooler as a whole\<close>

text \<open>
  From the client's file to the spool and from the spool to the printer; that an accepted job is not lost while the daemon runs, and is found again when it is started anew; and where that ends, the numbers of
  jobs.
\<close>

subsection \<open>The response\<close>

lemma ntohl_htonl: "n < 2 ^ 32 \<Longrightarrow> ntohl (htonl n) = n"
  by (simp add: ntohl_def htonl_bytes un_be_be32)

lemma show_dec_short: "0 < n \<Longrightarrow> n \<le> INT_MAX \<Longrightarrow> length (show_dec n) \<le> 10"
  using length_nat_digits_le [of 10 "nat n" 10] by (simp add: show_dec_def show_nat_def c_limits)

lemma ok_response_of:
  assumes "0 < n" and "n \<le> INT_MAX" and "length (ce_garbage ce) = MSGLEN_MAX"
  shows "length (ok_response ce n) = sizeof_resp" "rs_retcode (resp_of (ok_response ce n)) = 0" "ntohl (rs_jobid (resp_of (ok_response ce n))) = nat n"
proof -
  let ?m = "''request ID '' @ show_dec n @ [CHR 0x00]"
  have l: "length (?m @ drop (length ?m) (ce_garbage ce)) = MSGLEN_MAX" using show_dec_short [OF assms(1,2)] assms(3) by (simp add: MSGLEN_MAX_def)
  have n: "nat (n mod 2 ^ 32) = nat n" "nat n < 2 ^ 32" using assms(1,2) by (simp_all add: c_limits nat_less_iff)
  have "resp_of (ok_response ce n) = \<lparr>rs_retcode = 0, rs_jobid = htonl (nat (n mod 2 ^ 32)), rs_msg = ?m @ drop (length ?m) (ce_garbage ce)\<rparr>"
    unfolding ok_response_def Let_def by (rule resp_of_bytes) (use l htonl_less in auto)
  then show "rs_retcode (resp_of (ok_response ce n)) = 0" "ntohl (rs_jobid (resp_of (ok_response ce n))) = nat n" using n ntohl_htonl by simp_all
  show "length (ok_response ce n) = sizeof_resp" using l by (simp add: ok_response_def resp_bytes_def sizeof_resp_def Let_def)
qed

lemma read_reply_ok:
  assumes "0 < n" and "n \<le> INT_MAX" and "length (ce_garbage ce) = MSGLEN_MAX" and "all_ready res" "sizeof_resp \<le> length res"
  shows "read_reply (ok_response ce n, res) = Inr (Done (''job ID '' @ show_dec n @ nl, 0))"
proof -
  note r = ok_response_of [OF assms(1-3)]
  obtain s where "apue_readn sizeof_resp (ok_response ce n, res) = Done (int sizeof_resp, ok_response ce n, s)"
    using apue_readn_loop_block [of res sizeof_resp "[]" "ok_response ce n"] assms(4,5) r(1) by (auto simp: apue_readn_def)
  then show ?thesis using r(2,3) assms(1) by (simp add: read_reply_def show_dec_def)
qed

lemma submit_file_sends:
  assumes "req = client_request pw fname nbytes txt gu gj" "length gu = USERNM_MAX" "length gj = JOBNM_MAX"
    and "all_ready fes" "length doc < length fes" "all_ready ses" "sizeof_req + length doc \<le> length ses" and "read_reply reply = Inr (Done r)"
  shows "\<exists>ses'. submit_file pw fname nbytes txt gu gj (doc, fes) ([], ses) reply = Inr (Done (r, (preq_bytes req @ doc, ses')))"
proof -
  have len: "length (preq_bytes req) = sizeof_req" using client_request_ok assms(1-3) preq_bytes_length by blast
  then have "length (preq_bytes req) \<le> length ses" using assms(7) by simp
  from apue_writen_block [OF assms(6) this, of "[]"] obtain ses1 where w: "apue_writen (preq_bytes req) ([], ses) = Done (int sizeof_req, (preq_bytes req, ses1))" "all_ready ses1"
      "length ses \<le> length ses1 + sizeof_req" by (auto simp: len)
  from w(3) assms(7) have "length doc \<le> length ses1" by simp
  from send_loop_block [OF assms(4,5) w(2) this, of "preq_bytes req"] obtain ses2 where "send_loop (doc, fes) (preq_bytes req, ses1) = Inr (Done (preq_bytes req @ doc, ses2))" by blast
  then show ?thesis using w(1) assms(1,8) by (simp add: submit_file_def)
qed

lemma spooled_request:
  assumes "req = client_request pw fname nbytes txt gu gj"
  shows "rq_size (spooled req doc) = nbytes mod 2 ^ 32" "rq_flags (spooled req doc) = (if txt \<or> doc \<noteq> [] \<and> take 4 doc \<noteq> ''%!PS'' then PR_TEXT else 0)"
    "rq_usernm (spooled req doc) = user_field pw gu" "rq_jobnm (spooled req doc) = job_field fname gj"
proof -
  have z: "ntohl 0 = 0" by (simp add: ntohl_def un_be_def le32_def be32_def)
  have "ntohl (htonl PR_TEXT) = PR_TEXT" "ntohl (htonl (nbytes mod 2 ^ 32)) = nbytes mod 2 ^ 32" by (simp_all add: ntohl_htonl PR_TEXT_def)
  then show "rq_size (spooled req doc) = nbytes mod 2 ^ 32" "rq_flags (spooled req doc) = (if txt \<or> doc \<noteq> [] \<and> take 4 doc \<noteq> ''%!PS'' then PR_TEXT else 0)"
      "rq_usernm (spooled req doc) = user_field pw gu" "rq_jobnm (spooled req doc) = job_field fname gj"
    using z by (auto simp: spooled_def assms client_request_def doc_flags_def PR_TEXT_def)
qed

subsection \<open>From the file to the spool\<close>


definition sample_env :: cl_env where
  "sample_env = \<lparr>ce_malloc_worker = True, ce_malloc_job = True, ce_creat_data = None, ce_writes = [], ce_creat_req = None, ce_write_req = FullWrite, ce_strerror = (\<lambda>_. []),
     ce_garbage = replicate MSGLEN_MAX (CHR 0x00)\<rparr>"

definition sample_daemon :: "string \<Rightarrow> int \<Rightarrow> printd" where
  "sample_daemon f n = \<lparr>pd_data = Map.empty, pd_reqs = Map.empty, pd_jobs = (jobs_init, None), pd_workers = workers_init, pd_nextjob = n, pd_jobfile = f, pd_reread = False,
     pd_printer = (1, ''lp'')\<rparr>"

lemma sample_env_ok: "env_ok sample_env"
  by (simp add: env_ok_def sample_env_def)

lemma sample_daemon_idle: "wk_head (pd_workers (sample_daemon f n)) = None" "jobs_rep (pd_jobs (sample_daemon f n)) ([], None)" "pd_nextjob (sample_daemon f n) = n"
  "\<not> pd_reread (sample_daemon f n)"
  by (simp_all add: sample_daemon_def workers_init_def jobs_rep_def job_rep_init)


subsection \<open>From the spool to the printer\<close>

text \<open>What the printer's thread finds when nothing fails: the socket, and readable and writable descriptors.\<close>

definition printer_env_ok :: "pr_env \<Rightarrow> string \<Rightarrow> bool" where
  "printer_env_ok pe doc \<longleftrightarrow> pe_open pe \<and> pe_fstat pe \<and> (\<exists>fd ts. pe_connect pe = ConnOk fd # ts) \<and> pe_writev pe \<and> pe_back pe \<and>
     all_ready (pe_file pe) \<and> length doc < length (pe_file pe) \<and> all_ready (pe_sock pe) \<and> length doc \<le> length (pe_sock pe)"

text \<open>The message that carries a document.\<close>

definition ipp_message :: "string \<Rightarrow> int \<Rightarrow> printreq \<Rightarrow> string \<Rightarrow> string \<Rightarrow> string \<Rightarrow> string" where
  "ipp_message p jobid req u j doc = request_bytes jobid (request_options p u j (rq_flags req)) @ (if odd (rq_flags req) then [CHR 0x08] else []) @ doc"

lemma print_attempt_sends:
  assumes "pd_data d (show_dec jobid) = Some doc" "array_str (rq_usernm req) = Inr u" "array_str (rq_jobnm req) = Inr j" "length doc < 2 ^ 62" "p = snd (pd_printer d)"
    "request_fits p jobid req u j" "printer_env_ok pe doc" "printer_status jobid (pe_reply pe) = Inr (Done ok)"
  shows "print_attempt pe (jobid, req) d =
    Inr (Done (if ok then PrintDone else Deferred, http_lines p (length (ipp_message p jobid req u j doc)) @ crlf @ ipp_message p jobid req u j doc))"
proof -
  let ?b = "request_bytes jobid (request_options p u j (rq_flags req))" and ?x = "if odd (rq_flags req) then [CHR 0x08] else []"
  let ?h = "http_lines p (length (ipp_message p jobid req u j doc)) @ crlf"
  have h: "print_headers p jobid req (length doc) = Inr (?h, ?b)" using print_headers_exact [OF assms(2-4), of p jobid] assms(6) by (simp add: Let_def ipp_message_def)
  obtain fd ts where c: "pe_connect pe = ConnOk fd # ts" using assms(7) by (auto simp: printer_env_ok_def)
  have cr: "connect_retry (pe_connect pe) = Done (Some fd, 0, ts)" unfolding c connect_retry_def by (subst connect_loop.simps) (simp add: MAXSLEEP_def)
  obtain ses where dl: "doc_loop (doc, pe_file pe) (?h @ ?b @ ?x, pe_sock pe) = Done (True, ((?h @ ?b @ ?x) @ doc, ses))"
    using send_loop_block [of "pe_file pe" doc "pe_sock pe" "?h @ ?b @ ?x"] assms(7) by (auto simp: printer_env_ok_def)
  have env: "pe_open pe" "pe_fstat pe" "pe_writev pe" "pe_back pe" using assms(7) by (auto simp: printer_env_ok_def)
  show ?thesis
    unfolding print_attempt_def prod.case assms(1) option.case cr bind_e_simps assms(5) [symmetric] h bind_c_simps dl using env assms(8) by (simp add: ipp_message_def)
qed

lemma jobs_rep_hand: "jobs_rep (pd_jobs d) (xs, Some x) \<Longrightarrow> hand_job d = Inr x"
  by (cases "pd_jobs d") (auto simp: jobs_rep_def hand_job_def deref_def)

lemma jobs_rep_head: "jobs_rep js (xs, hand) \<Longrightarrow> jobhead (fst js) = None \<longleftrightarrow> xs = []"
proof -
  assume "jobs_rep js (xs, hand)"
  then obtain as where as: "job_rep (fst js) as" "map snd as = xs" by (cases js) (auto simp: jobs_rep_def)
  have "jobhead (fst js) = first_ptr as" using as(1) dseg_first unfolding job_rep_def by (metis first_ptr_simps(1))
  then show ?thesis using as(2) by (cases as) auto
qed

lemma printer_take_picks:
  assumes "jobs_rep (pd_jobs d) (x # xs, None)" and "\<not> pd_reread d"
  shows "\<exists>js f. printer_take True config getaddrlist d = Inr (Done (d\<lparr>pd_jobs := js, pd_jobfile := f\<rparr>)) \<and> jobs_rep js (xs, Some x)"
proof -
  obtain js where js: "pick_job (pd_jobs d) = Inr js" "jobs_rep js (xs, Some x)" using printq.pick_rep [OF assms(1)] by auto
  have "jobhead (fst (pd_jobs d)) \<noteq> None" using jobs_rep_head [OF assms(1)] by simp
  then show ?thesis using js assms(2)
    by (intro exI [of _ js] exI [of _ "show_dec (pd_nextjob d) @ drop (length (show_dec (pd_nextjob d))) (pd_jobfile d)"]) (simp add: printer_take_def update_jobno_def Let_def del: not_None_eq)
qed

lemma printer_finish_jobs:
  assumes "jobs_rep (pd_jobs d) (xs, Some j)"
  shows "\<exists>d'. printer_finish a j d = Inr d' \<and> jobs_rep (pd_jobs d') (if a = Deferred then j # xs else xs, None) \<and>
    (if a = PrintDone then pd_data d' = (pd_data d)(show_dec (fst j) := None) \<and> pd_reqs d' = (pd_reqs d)(show_dec (fst j) := None) else pd_data d' = pd_data d \<and> pd_reqs d' = pd_reqs d) \<and>
    pd_nextjob d' = pd_nextjob d"
proof (cases a)
  case Deferred
  obtain js where "defer_job (pd_jobs d) = Inr js" "jobs_rep js (j # xs, None)" using printq.back_rep [OF assms] by auto
  then show ?thesis using Deferred by (simp add: printer_finish_def)
next
  case Cancelled
  obtain js where "finish_job (pd_jobs d) = Inr js" "jobs_rep js (xs, None)" using printq.finish_rep [OF assms] by auto
  then show ?thesis using Cancelled by (simp add: printer_finish_def)
next
  case PrintDone
  obtain js where "finish_job (pd_jobs d) = Inr js" "jobs_rep js (xs, None)" using printq.finish_rep [OF assms] by auto
  then show ?thesis using PrintDone by (simp add: printer_finish_def drop_job_def)
qed


definition sample_request :: printreq where
  "sample_request = \<lparr>rq_size = 2, rq_flags = 1, rq_usernm = ''ann'' @ [CHR 0x00], rq_jobnm = ''memo'' @ [CHR 0x00]\<rparr>"

definition sample_queued :: printd where
  "sample_queued = (sample_daemon ''8'' 8)\<lparr>pd_data := [show_dec 7 \<mapsto> ''Hi''],
     pd_jobs := (\<lparr>jl_heap = [0 \<mapsto> \<lparr>nd_next = None, nd_prev = None, nd_item = (7, sample_request)\<rparr>], jobhead = Some 0, jobtail = Some 0, jl_brk = 1\<rparr>, None)\<rparr>"

definition sample_reply :: string where
  "sample_reply = response ''HTTP/1.1 '' ''200'' CHR '' '' ''OK'' (CHR 0x0D) [CHR 0x0A] clen '' '' ''8'' (CHR 0x0D)
     ([CHR 0x0A, CHR 0x0D, CHR 0x0A] @ [CHR 0x01, CHR 0x01, CHR 0x00, CHR 0x00] @ be32 7)"

definition sample_printer :: pr_env where
  "sample_printer = \<lparr>pe_open = True, pe_fstat = True, pe_connect = [ConnOk 5], pe_writev = True, pe_back = True, pe_file = [Ready 1, Ready 1, Ready 1], pe_sock = [Ready 1, Ready 1],
     pe_reply = (sample_reply, [Ready 100])\<rparr>"

lemma sample_reply_ok: "printer_status 7 (sample_reply, [Ready 100]) = Inr (Done True)"
proof -
  let ?body = "[CHR 0x01, CHR 0x01, CHR 0x00, CHR 0x00] @ be32 7"
  have d: "digits_int ''8'' \<le> int (length ?body)"
    by (simp add: digits_int_def strtol_eval isspace_c_def digit_val_def saturate_def LLONG_MIN_def LLONG_MAX_def signed_take_bit_eq_take_bit_minus)
  have "printer_status 7 (sample_reply, [Ready 100]) = Inr (Done (signed_take_bit 31 (int (un_be (take 4 (drop 4 ?body)))) = 7 \<and> un_be (take 2 (drop 2 ?body)) \<le> 0xff))"
    unfolding sample_reply_def
    by (rule response_understood [OF sample_status sample_length, where ?hs2.0 = "[]"]) (use d in \<open>simp_all add: response_def clen_def print_sizes\<close>)
  moreover have "un_be (take 4 (drop 4 ?body)) = 7" "un_be (take 2 (drop 2 ?body)) = 0" by (simp_all add: un_be_be32) (simp add: un_be_def)
  ultimately show ?thesis by (simp add: signed_take_bit_eq_take_bit_minus)
qed


end
