(* ===== verification/Spool_Safety.thy ===== *)
theory Spool_Safety
  imports Spool_Props
begin

section \<open>No accepted job is lost\<close>

text \<open>
  The daemon as a transition system: threads of clients, which take their steps in any order, the printer's thread and the thread for signals. Two ghost components keep the books: the jobs whose
  acceptance a client was told, with their documents, and the numbers of the jobs that the printer has accepted. An invariant ties them to the files in the spool and to the queue.
\<close>

subsection \<open>The steps\<close>

record spool =
  sp_daemon :: printd
  sp_threads :: "nat \<rightharpoonup> client"
  sp_acked :: "(int \<times> printreq \<times> string) set"
  sp_printed :: "int set"

definition acknowledged :: "client \<Rightarrow> printd \<Rightarrow> (int \<times> printreq \<times> string) set" where
  "acknowledged c d = (case c of Filed req jobid \<Rightarrow> {(jobid, req, the (pd_data d (show_dec jobid)))} | _ \<Rightarrow> {})"

text \<open>The printer's thread can open the files that it needs; a job whose file it cannot open is cancelled.\<close>

inductive spool_step :: "spool \<Rightarrow> spool \<Rightarrow> bool" where
  accept: "accept_client True conn = Inr (Done c) \<Longrightarrow> sp_threads s tid = None \<or> (\<exists>n. sp_threads s tid = Some (Over n)) \<Longrightarrow> spool_step s (s\<lparr>sp_threads := (sp_threads s)(tid \<mapsto> c)\<rparr>)"
| client: "sp_threads s tid = Some c \<Longrightarrow> client_step ce tid c (sp_daemon s) = Inr (Done (c1, out, d1)) \<Longrightarrow>
    spool_step s (s\<lparr>sp_daemon := d1, sp_threads := (sp_threads s)(tid \<mapsto> c1), sp_acked := sp_acked s \<union> acknowledged c (sp_daemon s)\<rparr>)"
| take_job: "snd (pd_jobs (sp_daemon s)) = None \<Longrightarrow> printer_take written config getaddrlist (sp_daemon s) = Inr (Done d1) \<Longrightarrow> spool_step s (s\<lparr>sp_daemon := d1\<rparr>)"
| work: "snd (pd_jobs (sp_daemon s)) \<noteq> None \<Longrightarrow> pe_open pe \<Longrightarrow> pe_fstat pe \<Longrightarrow> hand_job (sp_daemon s) = Inr j \<Longrightarrow> printer_work pe (sp_daemon s) = Inr (Done (a, out, d1)) \<Longrightarrow>
    spool_step s (s\<lparr>sp_daemon := d1, sp_printed := sp_printed s \<union> (if a = PrintDone then {fst j} else {})\<rparr>)"
| signalled: "signal_thread sg (sp_daemon s) = Inr (Done d1) \<Longrightarrow> spool_step s (s\<lparr>sp_daemon := d1\<rparr>)"

subsection \<open>What holds\<close>

definition on_disk :: "printd \<Rightarrow> job \<Rightarrow> bool" where
  "on_disk d j \<longleftrightarrow> pd_data d (show_dec (fst j)) \<noteq> None \<and> pd_reqs d (show_dec (fst j)) = Some (preq_bytes (snd j)) \<and> req_ok (snd j)"

fun jobnum :: "client \<Rightarrow> int option" where
  "jobnum (Numbered req s k) = Some k"
| "jobnum (DataStored req k) = Some k"
| "jobnum (Filed req k) = Some k"
| "jobnum (Answered req k) = Some k"
| "jobnum _ = None"

fun filed_job :: "client \<Rightarrow> job option" where
  "filed_job (Filed req k) = Some (k, req)"
| "filed_job (Answered req k) = Some (k, req)"
| "filed_job _ = None"

fun thread_ok :: "printd \<Rightarrow> client \<Rightarrow> bool" where
  "thread_ok d (HasRequest req s) = req_ok req"
| "thread_ok d (Numbered req s k) = req_ok req"
| "thread_ok d (DataStored req k) = (req_ok req \<and> pd_data d (show_dec k) \<noteq> None)"
| "thread_ok d (Filed req k) = on_disk d (k, req)"
| "thread_ok d (Answered req k) = on_disk d (k, req)"
| "thread_ok d _ = True"

definition numbers_ok :: "printd \<Rightarrow> job list \<Rightarrow> (nat \<rightharpoonup> client) \<Rightarrow> bool" where
  "numbers_ok d js ts \<longleftrightarrow> 0 < pd_nextjob d \<and> pd_nextjob d \<le> INT_MAX \<and> distinct (map fst js) \<and> (\<forall>j\<in>set js. 0 < fst j \<and> fst j < pd_nextjob d) \<and>
     (\<forall>tid c k. ts tid = Some c \<longrightarrow> jobnum c = Some k \<longrightarrow> 0 < k \<and> k < pd_nextjob d \<and> k \<notin> fst ` set js \<and> (\<forall>tid2 c2. ts tid2 = Some c2 \<longrightarrow> jobnum c2 = Some k \<longrightarrow> tid2 = tid))"

definition filed_nums :: "(nat \<rightharpoonup> client) \<Rightarrow> int set" where
  "filed_nums ts = {k. \<exists>tid c req. ts tid = Some c \<and> filed_job c = Some (k, req)}"

definition answered :: "(nat \<rightharpoonup> client) \<Rightarrow> job set" where
  "answered ts = {(k, req). \<exists>tid. ts tid = Some (Answered req k)}"

definition files_ok :: "printd \<Rightarrow> job list \<Rightarrow> (nat \<rightharpoonup> client) \<Rightarrow> bool" where
  "files_ok d js ts \<longleftrightarrow> (\<forall>j\<in>set js. on_disk d j) \<and> (\<forall>tid c. ts tid = Some c \<longrightarrow> thread_ok d c) \<and>
     dom (pd_reqs d) \<subseteq> show_dec ` (fst ` set js \<union> filed_nums ts)"

definition books_ok :: "printd \<Rightarrow> job list \<Rightarrow> (nat \<rightharpoonup> client) \<Rightarrow> (int \<times> printreq \<times> string) set \<Rightarrow> int set \<Rightarrow> bool" where
  "books_ok d js ts acked printed \<longleftrightarrow> (\<forall>(k, req, doc)\<in>acked. k \<in> printed \<or>
     pd_data d (show_dec k) = Some doc \<and> (k, req) \<in> set js \<union> answered ts)"

definition jobs_inv :: "printd \<Rightarrow> job list \<Rightarrow> (nat \<rightharpoonup> client) \<Rightarrow> (int \<times> printreq \<times> string) set \<Rightarrow> int set \<Rightarrow> bool" where
  "jobs_inv d js ts acked printed \<longleftrightarrow> numbers_ok d js ts \<and> files_ok d js ts \<and> books_ok d js ts acked printed"

definition outstanding :: "job list \<Rightarrow> job option \<Rightarrow> job list" where
  "outstanding xs hand = (case hand of None \<Rightarrow> xs | Some j \<Rightarrow> j # xs)"

lemma outstanding_simps [simp]: "outstanding xs None = xs" "outstanding xs (Some j) = j # xs"
  by (simp_all add: outstanding_def)

definition spool_inv :: "spool \<Rightarrow> bool" where
  "spool_inv s \<longleftrightarrow> (\<exists>xs hand. jobs_rep (pd_jobs (sp_daemon s)) (xs, hand) \<and> jobs_inv (sp_daemon s) (outstanding xs hand) (sp_threads s) (sp_acked s) (sp_printed s))"

subsection \<open>Names of files\<close>

lemma show_dec_inj: "0 < k \<Longrightarrow> k \<le> INT_MAX \<Longrightarrow> 0 < l \<Longrightarrow> l \<le> INT_MAX \<Longrightarrow> show_dec k = show_dec l \<longleftrightarrow> k = l"
proof
  assume "0 < k" "k \<le> INT_MAX" "0 < l" "l \<le> INT_MAX" "show_dec k = show_dec l"
  moreover have "strtoll_c 10 (show_dec m) = (m, [], False)" if "0 < m" "m \<le> INT_MAX" for m by (rule strtoll_c_show_dec) (use that in \<open>simp_all add: c_limits\<close>)
  ultimately show "k = l" by (metis prod.inject)
qed simp

text \<open>A change to the files of one job is invisible to the others.\<close>

definition same_except :: "int \<Rightarrow> printd \<Rightarrow> printd \<Rightarrow> bool" where
  "same_except k d d1 \<longleftrightarrow> (\<forall>name. name \<noteq> show_dec k \<longrightarrow> pd_data d1 name = pd_data d name \<and> pd_reqs d1 name = pd_reqs d name)"

lemma same_except_on_disk: "same_except k d d1 \<Longrightarrow> show_dec (fst j) \<noteq> show_dec k \<Longrightarrow> on_disk d1 j = on_disk d j"
  by (simp add: same_except_def on_disk_def)

lemma same_except_thread:
  assumes "same_except k d d1" and "\<And>l. jobnum c = Some l \<Longrightarrow> show_dec l \<noteq> show_dec k"
  shows "thread_ok d1 c = thread_ok d c"
  using assms same_except_on_disk [OF assms(1)] by (cases c) (simp_all add: same_except_def)

lemma filed_jobnum: "filed_job c = Some (k, req) \<Longrightarrow> jobnum c = Some k"
  by (cases c) auto

subsection \<open>The steps of a client\<close>

lemma network_request_ok:
  "length b = sizeof_req \<Longrightarrow> req_ok ((req_of b)\<lparr>rq_size := ntohl (rq_size (req_of b)), rq_flags := ntohl (rq_flags (req_of b))\<rparr>)"
  using ntohl_less by (simp add: req_ok_def req_of_def print_sizes)

lemma ps_flag_less:
  assumes "ps_flag b flags = Inr fl" and "flags < 2 ^ 32"
  shows "fl < 2 ^ 32"
proof -
  have "even flags \<Longrightarrow> flags + 1 < 2 ^ 32" using assms(2) by simp presburger
  then show ?thesis using assms by (auto simp: ps_flag_def PR_TEXT_def split: if_splits)
qed

lemma store_loop_flags: "store_loop ws first flags acc s = Inr (StoreDone fl doc) \<Longrightarrow> flags < 2 ^ 32 \<Longrightarrow> fl < 2 ^ 32"
proof (induction ws first flags acc s rule: store_loop.induct)
  case (1 ws first flags acc s)
  obtain r s1 where t: "tread IOBUFSZ s = (r, s1)" by (cases "tread IOBUFSZ s")
  show ?case
  proof (cases r)
    case (Inl e)
    then show ?thesis using 1(4,5) t by (subst (asm) store_loop.simps) simp
  next
    case (Inr b)
    show ?thesis
    proof (cases "b = []")
      case True
      then show ?thesis using 1(4,5) t Inr by (subst (asm) store_loop.simps) simp
    next
      case False
      then obtain fl1 where fl1: "(if first then ps_flag b flags else Inr flags) = Inr fl1" using 1(4) t Inr by (subst (asm) store_loop.simps) auto
      then have less: "fl1 < 2 ^ 32" using ps_flag_less 1(5) by (auto split: if_splits)
      have rest: "(case ws of [] \<Rightarrow> store_loop [] False fl1 (acc @ b) s1 | FullWrite # ws1 \<Rightarrow> store_loop ws1 False fl1 (acc @ b) s1
          | ShortWrite n # ws1 \<Rightarrow> if n < length b then Inr (StoreFails EIO) else store_loop ws1 False fl1 (acc @ b) s1 | WriteFails e # ws1 \<Rightarrow> Inr (StoreFails e)) = Inr (StoreDone fl doc)"
        using 1(4) t Inr False fl1 by (subst (asm) store_loop.simps) simp
      show ?thesis using rest less 1(1-3) t Inr False fl1 by (auto split: list.splits fwrite.splits if_splits)
    qed
  qed
qed

definition quiet :: "printd \<Rightarrow> printd \<Rightarrow> bool" where
  "quiet d d1 \<longleftrightarrow> pd_data d1 = pd_data d \<and> pd_reqs d1 = pd_reqs d \<and> pd_nextjob d1 = pd_nextjob d"

definition writes_own :: "int \<Rightarrow> printd \<Rightarrow> printd \<Rightarrow> client \<Rightarrow> bool" where
  "writes_own k d d1 c1 \<longleftrightarrow> same_except k d d1 \<and> pd_jobs d1 = pd_jobs d \<and> pd_nextjob d1 = pd_nextjob d \<and> thread_ok d1 c1 \<and> jobnum c1 \<in> {None, Some k} \<and>
     (filed_job c1 = None \<longrightarrow> pd_reqs d1 (show_dec k) \<in> {None, pd_reqs d (show_dec k)}) \<and> (\<forall>req l. c1 \<noteq> Answered req l)"

text \<open>What a step of a client's thread does to the state that it shares.\<close>

lemma client_step_effect:
  assumes "client_step ce tid c d = Inr (Done (c1, out, d1))" and "thread_ok d c" and "0 < pd_nextjob d"
  shows "jobnum c = None \<and> jobnum c1 = None \<and> thread_ok d1 c1 \<and> acknowledged c d = {} \<and> quiet d d1 \<and> pd_jobs d1 = pd_jobs d \<or>
    (\<exists>req s. c = HasRequest req s \<and> c1 = Numbered req s (pd_nextjob d) \<and> d1 = d\<lparr>pd_nextjob := pd_nextjob d + 1\<rparr> \<and> pd_nextjob d \<noteq> INT_MAX) \<or>
    (\<exists>k. jobnum c = Some k \<and> filed_job c = None \<and> acknowledged c d = {} \<and> writes_own k d d1 c1) \<or>
    (\<exists>req k. c = Filed req k \<and> c1 = Answered req k \<and> d1 = d) \<or>
    (\<exists>req k js. c = Answered req k \<and> c1 = Leaving 0 \<and> enqueue_job (k, req) (pd_jobs d) = Inr js \<and> d1 = d\<lparr>pd_jobs := js\<rparr>)"
proof (cases c)
  case (Connected sockfd s)
  then show ?thesis using assms by (auto simp: client_step_def goes_on_def quiet_def acknowledged_def split: if_splits)
next
  case (Joined s)
  then have "jobnum c1 = None \<and> thread_ok d1 c1 \<and> quiet d d1 \<and> pd_jobs d1 = pd_jobs d"
    using assms network_request_ok
    by (auto simp: client_step_def receive_request_def fails_def goes_on_def quiet_def split: prod.splits sum.splits if_splits)
  then show ?thesis using Joined by (simp add: acknowledged_def)
next
  case (HasRequest req s)
  then show ?thesis using assms by (auto simp: client_step_def get_newjobno_def goes_on_def Let_def split: if_splits)
next
  case (Numbered req s k)
  have r: "req_ok req" using assms(2) Numbered by simp
  have "writes_own k d d1 c1"
  proof (cases "ce_creat_data ce")
    case (Some e)
    then show ?thesis using assms(1) Numbered by (auto simp: client_step_def store_data_def fails_def writes_own_def same_except_def)
  next
    case None
    then obtain st where st: "store_loop (ce_writes ce) True (rq_flags req) [] s = Inr st" using assms(1) Numbered by (auto simp: client_step_def store_data_def)
    then have "\<forall>fl doc. st = StoreDone fl doc \<longrightarrow> fl < 2 ^ 32" using r store_loop_flags req_ok_def by blast
    then show ?thesis
      using st assms(1) Numbered None r
      by (cases st) (auto simp: client_step_def store_data_def fails_def goes_on_def writes_own_def same_except_def req_ok_def)
  qed
  then show ?thesis using Numbered by (simp add: acknowledged_def)
next
  case (DataStored req k)
  have "writes_own k d d1 c1"
    using assms(1,2) DataStored
    by (auto simp: client_step_def write_control_def drop_job_def fails_def goes_on_def writes_own_def same_except_def on_disk_def Let_def split: option.splits fwrite.splits if_splits)
  then show ?thesis using DataStored by (simp add: acknowledged_def)
next
  case (Filed req k)
  then show ?thesis using assms by (simp add: client_step_def)
next
  case (Answered req k)
  then show ?thesis using assms by (auto simp: client_step_def enqueue_def goes_on_def split: if_splits)
next
  case (Leaving n)
  then show ?thesis using assms by (auto simp: client_step_def goes_on_def quiet_def acknowledged_def)
next
  case (Over n)
  then show ?thesis using assms by (auto simp: client_step_def goes_on_def quiet_def acknowledged_def)
qed

subsection \<open>The invariant is kept\<close>

lemma quiet_same: "quiet d d1 \<Longrightarrow> on_disk d1 = on_disk d" "quiet d d1 \<Longrightarrow> thread_ok d1 c = thread_ok d c"
proof -
  assume q: "quiet d d1"
  show o: "on_disk d1 = on_disk d" using q by (auto simp: quiet_def on_disk_def)
  show "thread_ok d1 c = thread_ok d c" using q o by (cases c) (auto simp: quiet_def)
qed

lemma jobs_inv_quiet: "jobs_inv d js ts acked printed \<Longrightarrow> quiet d d1 \<Longrightarrow> jobs_inv d1 js ts acked printed"
  using quiet_same [of d d1] by (auto simp: jobs_inv_def numbers_ok_def files_ok_def books_ok_def quiet_def)

lemma filed_nums_upd:
  assumes "\<And>c. ts tid = Some c \<Longrightarrow> filed_job c = None"
  shows "filed_nums (ts(tid \<mapsto> c1)) = filed_nums ts \<union> {k. \<exists>req. filed_job c1 = Some (k, req)}"
proof
  show "filed_nums (ts(tid \<mapsto> c1)) \<subseteq> filed_nums ts \<union> {k. \<exists>req. filed_job c1 = Some (k, req)}" by (fastforce simp: filed_nums_def split: if_splits)
  have "k \<in> filed_nums (ts(tid \<mapsto> c1))" if "ts t = Some c" "filed_job c = Some (k, req)" for k t c req
  proof -
    have "t \<noteq> tid" using assms that by force
    then show ?thesis using that unfolding filed_nums_def by (intro CollectI exI [of _ t] exI [of _ c] exI [of _ req]) simp
  qed
  moreover have "k \<in> filed_nums (ts(tid \<mapsto> c1))" if "filed_job c1 = Some (k, req)" for k req
    using that unfolding filed_nums_def by (intro CollectI exI [of _ tid] exI [of _ c1] exI [of _ req]) simp
  ultimately show "filed_nums ts \<union> {k. \<exists>req. filed_job c1 = Some (k, req)} \<subseteq> filed_nums (ts(tid \<mapsto> c1))" unfolding filed_nums_def [of ts] by blast
qed

lemma answered_upd: "x \<in> answered ts \<Longrightarrow> x \<in> answered (ts(tid \<mapsto> c1)) \<or> ts tid = Some (Answered (snd x) (fst x))"
  by (auto simp: answered_def)

lemma books_mono:
  assumes "books_ok d js ts acked printed" and "\<And>k req doc. (k, req, doc) \<in> acked \<Longrightarrow> k \<notin> printed \<Longrightarrow> (k, req) \<in> set js \<union> answered ts \<Longrightarrow>
      pd_data d1 (show_dec k) = pd_data d (show_dec k) \<and> (k, req) \<in> set js1 \<union> answered ts1 \<or> k \<in> printed1" "printed \<subseteq> printed1"
  shows "books_ok d1 js1 ts1 acked printed1"
proof -
  have "k \<in> printed1 \<or> pd_data d1 (show_dec k) = Some doc \<and> (k, req) \<in> set js1 \<union> answered ts1" if a: "(k, req, doc) \<in> acked" for k req doc
  proof (cases "k \<in> printed")
    case False
    then have "pd_data d (show_dec k) = Some doc \<and> (k, req) \<in> set js \<union> answered ts" using assms(1) a by (auto simp: books_ok_def)
    then show ?thesis using assms(2) [OF a False] by auto
  qed (use assms(3) in blast)
  then show ?thesis by (auto simp: books_ok_def)
qed

lemma books_thread:
  assumes "books_ok d js ts acked printed" and "\<And>req k. ts tid \<noteq> Some (Answered req k)"
  shows "books_ok d js (ts(tid \<mapsto> c1)) acked printed"
proof -
  have "answered ts \<subseteq> answered (ts(tid \<mapsto> c1))" using answered_upd [of _ ts tid c1] assms(2) by blast
  then show ?thesis using assms(1) by (intro books_mono [OF assms(1)]) auto
qed

lemma jobs_inv_thread:
  assumes "jobs_inv d js ts acked printed" and "\<And>c. ts tid = Some c \<Longrightarrow> jobnum c = None" and "jobnum c1 = None" "thread_ok d c1"
  shows "jobs_inv d js (ts(tid \<mapsto> c1)) acked printed"
proof -
  have n: "numbers_ok d js (ts(tid \<mapsto> c1))" using assms(1,3) by (auto simp: jobs_inv_def numbers_ok_def)
  have "filed_job c = None" if "ts tid = Some c" for c using assms(2) [OF that] by (cases c) auto
  then have "filed_nums (ts(tid \<mapsto> c1)) = filed_nums ts" using filed_nums_upd [of ts tid c1] filed_jobnum assms(3) by fastforce
  then have f: "files_ok d js (ts(tid \<mapsto> c1))" using assms(1,4) by (auto simp: jobs_inv_def files_ok_def)
  have "ts tid \<noteq> Some (Answered req k)" for req k using assms(2) by fastforce
  then have "books_ok d js (ts(tid \<mapsto> c1)) acked printed" using assms(1) books_thread by (simp add: jobs_inv_def)
  then show ?thesis using n f by (simp add: jobs_inv_def)
qed

lemma numbers_thread:
  "numbers_ok d js ts \<Longrightarrow> ts tid = Some c \<Longrightarrow> jobnum c = Some k \<Longrightarrow> 0 < k \<and> k < pd_nextjob d \<and> k \<notin> fst ` set js \<and> (\<forall>tid2 c2. ts tid2 = Some c2 \<longrightarrow> jobnum c2 = Some k \<longrightarrow> tid2 = tid)"
  unfolding numbers_ok_def by blast

lemma numbers_okI:
  assumes "0 < pd_nextjob d" "pd_nextjob d \<le> INT_MAX" "distinct (map fst js)" "\<And>j. j \<in> set js \<Longrightarrow> 0 < fst j \<and> fst j < pd_nextjob d"
    and "\<And>tid c k. ts tid = Some c \<Longrightarrow> jobnum c = Some k \<Longrightarrow> 0 < k \<and> k < pd_nextjob d \<and> k \<notin> fst ` set js \<and> (\<forall>tid2 c2. ts tid2 = Some c2 \<longrightarrow> jobnum c2 = Some k \<longrightarrow> tid2 = tid)"
  shows "numbers_ok d js ts"
  unfolding numbers_ok_def using assms by blast

lemma jobs_inv_number:
  assumes "jobs_inv d js ts acked printed" and "ts tid = Some (HasRequest req s)" and "pd_nextjob d \<noteq> INT_MAX"
  shows "jobs_inv (d\<lparr>pd_nextjob := pd_nextjob d + 1\<rparr>) js (ts(tid \<mapsto> Numbered req s (pd_nextjob d))) acked printed"
proof -
  let ?d = "d\<lparr>pd_nextjob := pd_nextjob d + 1\<rparr>" and ?ts = "ts(tid \<mapsto> Numbered req s (pd_nextjob d))"
  have o: "on_disk ?d = on_disk d" by (auto simp: on_disk_def)
  have t: "thread_ok ?d c = thread_ok d c" for c using o by (cases c) auto
  have nn: "numbers_ok d js ts" "files_ok d js ts" "books_ok d js ts acked printed" using assms(1) by (simp_all add: jobs_inv_def)
  note old = numbers_thread [OF nn(1)]
  have new: "0 < k \<and> k < pd_nextjob ?d \<and> k \<notin> fst ` set js \<and> (\<forall>tid2 c2. ?ts tid2 = Some c2 \<longrightarrow> jobnum c2 = Some k \<longrightarrow> tid2 = t)" if a: "?ts t = Some c" "jobnum c = Some k" for t c k
  proof (cases "t = tid")
    case True
    then have k: "k = pd_nextjob d" using a by auto
    then have "\<And>t2 c2. ts t2 = Some c2 \<Longrightarrow> jobnum c2 \<noteq> Some k" using old by fastforce
    then show ?thesis using nn(1) k True unfolding numbers_ok_def by (auto split: if_splits)
  next
    case False
    then have tc: "ts t = Some c" using a(1) by simp
    have k: "0 < k" "k < pd_nextjob d" "k \<notin> fst ` set js" using old [OF tc a(2)] by auto
    have "t2 = t" if "?ts t2 = Some c2" "jobnum c2 = Some k" for t2 c2
    proof (cases "t2 = tid")
      case True
      then show ?thesis using that k(2) by auto
    next
      case False
      then have "ts t2 = Some c2" using that(1) by simp
      then show ?thesis using old [OF tc a(2)] that(2) by blast
    qed
    then show ?thesis using k by simp
  qed
  have base: "0 < pd_nextjob d" "pd_nextjob d \<le> INT_MAX" "distinct (map fst js)" "\<forall>j\<in>set js. 0 < fst j \<and> fst j < pd_nextjob d" using nn(1) unfolding numbers_ok_def by blast+
  have n: "numbers_ok ?d js ?ts" by (rule numbers_okI [OF _ _ base(3) _ new]) (use base assms(3) in auto)
  have "filed_nums ?ts = filed_nums ts" using filed_nums_upd [of ts tid] assms(2) by simp
  then have f: "files_ok ?d js ?ts" using nn(2) assms(2) by (auto simp: files_ok_def o t) (metis thread_ok.simps(1))
  have "books_ok ?d js ts acked printed" using nn(3) by (simp add: books_ok_def)
  then have "books_ok ?d js ?ts acked printed" by (rule books_thread) (simp add: assms(2))
  then show ?thesis using n f by (simp add: jobs_inv_def)
qed

lemma numbers_upd:
  assumes "numbers_ok d js ts" and "ts tid = Some c" and "jobnum c1 \<in> {None, jobnum c}" and "pd_nextjob d1 = pd_nextjob d"
  shows "numbers_ok d1 js (ts(tid \<mapsto> c1))"
proof -
  let ?ts = "ts(tid \<mapsto> c1)"
  have before: "\<exists>c0. ts t = Some c0 \<and> jobnum c0 = Some k" if "?ts t = Some c'" "jobnum c' = Some k" for t c' k
    using that assms(2,3) by (cases "t = tid") auto
  have "0 < k \<and> k < pd_nextjob d \<and> k \<notin> fst ` set js \<and> (\<forall>tid2 c2. ?ts tid2 = Some c2 \<longrightarrow> jobnum c2 = Some k \<longrightarrow> tid2 = t)" if "?ts t = Some c'" "jobnum c' = Some k" for t c' k
    using before [OF that] before numbers_thread [OF assms(1)] by metis
  then show ?thesis using assms(1) unfolding numbers_ok_def assms(4) by blast
qed

text \<open>The jobs in the queue and those of other threads have other files.\<close>

lemma other_files:
  assumes "numbers_ok d js ts" and "ts tid = Some c" and "jobnum c = Some k"
  shows "j \<in> set js \<Longrightarrow> show_dec (fst j) \<noteq> show_dec k"
    and "ts t = Some c2 \<Longrightarrow> jobnum c2 = Some l \<Longrightarrow> t \<noteq> tid \<Longrightarrow> show_dec l \<noteq> show_dec k"
proof -
  have k: "0 < k" "k < pd_nextjob d" "k \<notin> fst ` set js" "pd_nextjob d \<le> INT_MAX" using numbers_thread [OF assms] assms(1) by (auto simp: numbers_ok_def)
  show "show_dec (fst j) \<noteq> show_dec k" if j: "j \<in> set js"
  proof -
    have "0 < fst j" "fst j < pd_nextjob d" "fst j \<noteq> k" using assms(1) j k(3) by (auto simp: numbers_ok_def)
    then show ?thesis using show_dec_inj [of "fst j" k] k by simp
  qed
  show "show_dec l \<noteq> show_dec k" if t: "ts t = Some c2" "jobnum c2 = Some l" "t \<noteq> tid"
  proof -
    have "0 < l" "l < pd_nextjob d" using numbers_thread [OF assms(1) t(1,2)] by auto
    moreover have "l \<noteq> k" using numbers_thread [OF assms] t by blast
    ultimately show ?thesis using show_dec_inj [of l k] k by simp
  qed
qed

lemma jobs_inv_write:
  assumes "jobs_inv d js ts acked printed" and c: "ts tid = Some c" "jobnum c = Some k" "filed_job c = None" and w: "writes_own k d d1 c1"
  shows "jobs_inv d1 js (ts(tid \<mapsto> c1)) acked printed"
proof -
  let ?ts = "ts(tid \<mapsto> c1)"
  have nn: "numbers_ok d js ts" "files_ok d js ts" "books_ok d js ts acked printed" using assms(1) by (simp_all add: jobs_inv_def)
  note other = other_files [OF nn(1) c(1,2)]
  have same: "same_except k d d1" and w1: "thread_ok d1 c1" "jobnum c1 \<in> {None, Some k}" "filed_job c1 = None \<Longrightarrow> pd_reqs d1 (show_dec k) \<in> {None, pd_reqs d (show_dec k)}"
    using w by (auto simp: writes_own_def)
  have fn: "filed_nums ?ts = filed_nums ts \<union> {k. \<exists>req. filed_job c1 = Some (k, req)}" by (rule filed_nums_upd) (use c in simp)
  have n: "numbers_ok d1 js ?ts" by (rule numbers_upd [OF nn(1) c(1)]) (use w c(2) in \<open>auto simp: writes_own_def\<close>)
  have "\<forall>j\<in>set js. on_disk d1 j" using nn(2) same_except_on_disk [OF same other(1)] by (auto simp: files_ok_def)
  moreover have "thread_ok d1 c'" if t: "?ts t = Some c'" for t c'
  proof (cases "t = tid")
    case False
    then have tc: "ts t = Some c'" using t by simp
    then have "thread_ok d c'" using nn(2) by (simp add: files_ok_def)
    moreover have "thread_ok d1 c' = thread_ok d c'" by (rule same_except_thread [OF same]) (use other(2) tc False in blast)
    ultimately show ?thesis by simp
  qed (use t w1(1) in simp)
  moreover have "name \<in> show_dec ` (fst ` set js \<union> filed_nums ?ts)" if nm: "name \<in> dom (pd_reqs d1)" for name
  proof (cases "name \<in> dom (pd_reqs d)")
    case True
    then have "name \<in> show_dec ` (fst ` set js \<union> filed_nums ts)" using nn(2) unfolding files_ok_def by blast
    then show ?thesis using fn by blast
  next
    case False
    then have k: "name = show_dec k" using nm same by (auto simp: same_except_def domIff)
    obtain l req where "filed_job c1 = Some (l, req)" using w1(3) nm False k by (cases "filed_job c1") (auto simp: domIff)
    moreover from this have "l = k" using filed_jobnum w1(2) by fastforce
    ultimately show ?thesis using k fn by auto
  qed
  ultimately have f: "files_ok d1 js ?ts" unfolding files_ok_def by blast
  have "books_ok d1 js ?ts acked printed"
  proof (rule books_mono [OF nn(3)])
    fix l req doc
    assume l: "(l, req) \<in> set js \<union> answered ts"
    have "show_dec l \<noteq> show_dec k \<and> (l, req) \<in> set js \<union> answered ?ts"
    proof (cases "(l, req) \<in> set js")
      case True
      then show ?thesis using other(1) by fastforce
    next
      case False
      then obtain t where t: "ts t = Some (Answered req l)" using l by (auto simp: answered_def)
      then have "t \<noteq> tid" using c by auto
      then show ?thesis using t other(2) [OF t] by (auto simp: answered_def)
    qed
    then show "pd_data d1 (show_dec l) = pd_data d (show_dec l) \<and> (l, req) \<in> set js \<union> answered ?ts \<or> l \<in> printed" using same by (simp add: same_except_def)
  qed simp
  then show ?thesis using n f by (simp add: jobs_inv_def)
qed

lemma jobs_inv_ack:
  assumes "jobs_inv d js ts acked printed" and c: "ts tid = Some (Filed req k)"
  shows "jobs_inv d js (ts(tid \<mapsto> Answered req k)) (acked \<union> {(k, req, the (pd_data d (show_dec k)))}) printed"
proof -
  let ?ts = "ts(tid \<mapsto> Answered req k)"
  have nn: "numbers_ok d js ts" "files_ok d js ts" "books_ok d js ts acked printed" using assms(1) by (simp_all add: jobs_inv_def)
  have n: "numbers_ok d js ?ts" by (rule numbers_upd [OF nn(1) c]) simp_all
  have o: "on_disk d (k, req)" using nn(2) c by (force simp: files_ok_def)
  have "filed_nums ts \<subseteq> filed_nums ?ts"
  proof
    fix l
    assume "l \<in> filed_nums ts"
    then obtain t c1 r where t: "ts t = Some c1" "filed_job c1 = Some (l, r)" by (auto simp: filed_nums_def)
    then show "l \<in> filed_nums ?ts" using c unfolding filed_nums_def by (cases "t = tid") (auto intro: exI [of _ tid] exI [of _ t])
  qed
  then have "dom (pd_reqs d) \<subseteq> show_dec ` (fst ` set js \<union> filed_nums ?ts)" using nn(2) unfolding files_ok_def by blast
  then have f: "files_ok d js ?ts" using nn(2) o by (auto simp: files_ok_def)
  have "books_ok d js ?ts acked printed" using nn(3) by (rule books_thread) (simp add: c)
  moreover have "(k, req) \<in> answered ?ts" by (auto simp: answered_def)
  moreover have "pd_data d (show_dec k) \<noteq> None" using o by (simp add: on_disk_def)
  ultimately have "books_ok d js ?ts (acked \<union> {(k, req, the (pd_data d (show_dec k)))}) printed" by (auto simp: books_ok_def)
  then show ?thesis using n f by (simp add: jobs_inv_def)
qed

lemma jobs_inv_enqueue:
  assumes "jobs_inv d js ts acked printed" and c: "ts tid = Some (Answered req k)" and js1: "set js1 = insert (k, req) (set js)" "distinct (map fst js1) = distinct (map fst ((k, req) # js))"
  shows "jobs_inv (d\<lparr>pd_jobs := q\<rparr>) js1 (ts(tid \<mapsto> Leaving 0)) acked printed"
proof -
  let ?d = "d\<lparr>pd_jobs := q\<rparr>" and ?ts = "ts(tid \<mapsto> Leaving 0)"
  have nn: "numbers_ok d js ts" "files_ok d js ts" "books_ok d js ts acked printed" using assms(1) by (simp_all add: jobs_inv_def)
  have q: "quiet d ?d" by (simp add: quiet_def)
  have k: "0 < k" "k < pd_nextjob d" "k \<notin> fst ` set js" and only: "\<And>t c2. ts t = Some c2 \<Longrightarrow> jobnum c2 = Some k \<Longrightarrow> t = tid" using numbers_thread [OF nn(1) c] by auto
  have n: "numbers_ok ?d js1 ?ts"
  proof (rule numbers_okI)
    fix t c1 l
    assume t: "?ts t = Some c1" "jobnum c1 = Some l"
    then have t1: "t \<noteq> tid" "ts t = Some c1" by (auto split: if_splits)
    then have "l \<noteq> k" using only t(2) by blast
    moreover have "t2 = t" if "?ts t2 = Some c2" "jobnum c2 = Some l" for t2 c2
    proof -
      have "ts t2 = Some c2" using that by (auto split: if_splits)
      then show ?thesis using numbers_thread [OF nn(1) t1(2) t(2)] that(2) by blast
    qed
    ultimately show "0 < l \<and> l < pd_nextjob ?d \<and> l \<notin> fst ` set js1 \<and> (\<forall>t2 c2. ?ts t2 = Some c2 \<longrightarrow> jobnum c2 = Some l \<longrightarrow> t2 = t)"
      using numbers_thread [OF nn(1) t1(2) t(2)] js1(1) by simp
  qed (use nn(1) k js1 in \<open>auto simp: numbers_ok_def\<close>)
  have o: "on_disk d (k, req)" using nn(2) c by (force simp: files_ok_def)
  have "filed_nums ts \<subseteq> insert k (filed_nums ?ts)"
  proof
    fix l
    assume "l \<in> filed_nums ts"
    then obtain t c1 r where t: "ts t = Some c1" "filed_job c1 = Some (l, r)" by (auto simp: filed_nums_def)
    then show "l \<in> insert k (filed_nums ?ts)" using c unfolding filed_nums_def by (cases "t = tid") (auto intro: exI [of _ t])
  qed
  moreover have "fst ` set js1 = insert k (fst ` set js)" unfolding js1(1) by simp
  ultimately have "fst ` set js \<union> filed_nums ts \<subseteq> fst ` set js1 \<union> filed_nums ?ts" by blast
  then have "dom (pd_reqs d) \<subseteq> show_dec ` (fst ` set js1 \<union> filed_nums ?ts)" using nn(2) unfolding files_ok_def by (meson image_mono order_trans)
  then have "dom (pd_reqs ?d) \<subseteq> show_dec ` (fst ` set js1 \<union> filed_nums ?ts)" by simp
  moreover have "\<forall>j\<in>set js1. on_disk ?d j" using nn(2) o js1(1) quiet_same(1) [OF q] by (auto simp: files_ok_def)
  moreover have "\<forall>t c1. ?ts t = Some c1 \<longrightarrow> thread_ok ?d c1" using nn(2) quiet_same(2) [OF q] by (auto simp: files_ok_def)
  ultimately have f: "files_ok ?d js1 ?ts" unfolding files_ok_def by blast
  have "books_ok ?d js1 ?ts acked printed"
  proof (rule books_mono [OF nn(3)])
    fix l r doc
    assume "(l, r) \<in> set js \<union> answered ts"
    then show "pd_data ?d (show_dec l) = pd_data d (show_dec l) \<and> (l, r) \<in> set js1 \<union> answered ?ts \<or> l \<in> printed"
      using answered_upd [of "(l, r)" ts tid "Leaving 0"] c js1(1) by auto
  qed simp
  then show ?thesis using n f by (simp add: jobs_inv_def)
qed

lemma jobs_inv_printed:
  assumes "jobs_inv d ((k, req) # js) ts acked printed"
  shows "jobs_inv (drop_job (show_dec k) (d\<lparr>pd_jobs := q\<rparr>)) js ts acked (printed \<union> {k})"
proof -
  let ?d = "drop_job (show_dec k) (d\<lparr>pd_jobs := q\<rparr>)"
  have nn: "numbers_ok d ((k, req) # js) ts" "files_ok d ((k, req) # js) ts" "books_ok d ((k, req) # js) ts acked printed" using assms(1) by (simp_all add: jobs_inv_def)
  have same: "same_except k d ?d" by (simp add: same_except_def drop_job_def)
  have k: "0 < k" "k < pd_nextjob d" "pd_nextjob d \<le> INT_MAX" "k \<notin> fst ` set js" using nn(1) by (auto simp: numbers_ok_def)
  have other: "show_dec l \<noteq> show_dec k" if "0 < l" "l < pd_nextjob d" "l \<noteq> k" for l using show_dec_inj [of l k] that k by simp
  have oj: "show_dec (fst j) \<noteq> show_dec k" if "j \<in> set js" for j
  proof -
    have "0 < fst j" "fst j < pd_nextjob d" "fst j \<noteq> k" using nn(1) that k(4) by (auto simp: numbers_ok_def)
    then show ?thesis by (rule other)
  qed
  have ot: "show_dec l \<noteq> show_dec k" if "ts t = Some c" "jobnum c = Some l" for t c l
    using other [of l] numbers_thread [OF nn(1) that] by auto
  have n: "numbers_ok ?d js ts" using nn(1) unfolding numbers_ok_def by (auto simp: drop_job_def)
  have "\<forall>j\<in>set js. on_disk ?d j" using nn(2) same_except_on_disk [OF same oj] by (auto simp: files_ok_def)
  moreover have "\<forall>t c. ts t = Some c \<longrightarrow> thread_ok ?d c" using nn(2) same_except_thread [OF same] ot by (metis files_ok_def)
  moreover have "dom (pd_reqs ?d) \<subseteq> show_dec ` (fst ` set js \<union> filed_nums ts)" using nn(2) unfolding files_ok_def by (auto simp: drop_job_def)
  ultimately have f: "files_ok ?d js ts" by (simp add: files_ok_def)
  have "books_ok ?d js ts acked (printed \<union> {k})"
  proof (rule books_mono [OF nn(3)])
    fix l r doc
    assume l: "(l, r) \<in> set ((k, req) # js) \<union> answered ts"
    have "show_dec l \<noteq> show_dec k" if "l \<noteq> k" using l that oj ot by (fastforce simp: answered_def)
    then show "pd_data ?d (show_dec l) = pd_data d (show_dec l) \<and> (l, r) \<in> set js \<union> answered ts \<or> l \<in> printed \<union> {k}" using l by (auto simp: drop_job_def)
  qed auto
  then show ?thesis using n f by (simp add: jobs_inv_def)
qed

lemma spool_inv_client:
  assumes inv: "spool_inv s" and t: "sp_threads s tid = Some c" and st: "client_step ce tid c (sp_daemon s) = Inr (Done (c1, out, d1))"
  shows "spool_inv (s\<lparr>sp_daemon := d1, sp_threads := (sp_threads s)(tid \<mapsto> c1), sp_acked := sp_acked s \<union> acknowledged c (sp_daemon s)\<rparr>)"
proof -
  obtain xs hand where q: "jobs_rep (pd_jobs (sp_daemon s)) (xs, hand)" and j: "jobs_inv (sp_daemon s) (outstanding xs hand) (sp_threads s) (sp_acked s) (sp_printed s)"
    using inv by (auto simp: spool_inv_def)
  have "thread_ok (sp_daemon s) c" "0 < pd_nextjob (sp_daemon s)" using j t by (auto simp: jobs_inv_def files_ok_def numbers_ok_def)
  from client_step_effect [OF st this] consider
      (quiet) "jobnum c = None" "jobnum c1 = None" "thread_ok d1 c1" "acknowledged c (sp_daemon s) = {}" "quiet (sp_daemon s) d1" "pd_jobs d1 = pd_jobs (sp_daemon s)"
    | (number) req src where "c = HasRequest req src" "c1 = Numbered req src (pd_nextjob (sp_daemon s))" "d1 = (sp_daemon s)\<lparr>pd_nextjob := pd_nextjob (sp_daemon s) + 1\<rparr>"
        "pd_nextjob (sp_daemon s) \<noteq> INT_MAX"
    | (own) k where "jobnum c = Some k" "filed_job c = None" "acknowledged c (sp_daemon s) = {}" "writes_own k (sp_daemon s) d1 c1"
    | (ack) req k where "c = Filed req k" "c1 = Answered req k" "d1 = sp_daemon s"
    | (queue) req k js where "c = Answered req k" "c1 = Leaving 0" "enqueue_job (k, req) (pd_jobs (sp_daemon s)) = Inr js" "d1 = (sp_daemon s)\<lparr>pd_jobs := js\<rparr>"
    by (elim disjE exE conjE) metis+
  then show ?thesis
  proof cases
    case quiet
    have "jobs_inv d1 (outstanding xs hand) ((sp_threads s)(tid \<mapsto> c1)) (sp_acked s) (sp_printed s)"
      by (rule jobs_inv_thread [OF jobs_inv_quiet [OF j quiet(5)]]) (use quiet t in auto)
    then show ?thesis using q quiet(4,6) by (auto simp: spool_inv_def)
  next
    case number
    have "jobs_inv d1 (outstanding xs hand) ((sp_threads s)(tid \<mapsto> c1)) (sp_acked s) (sp_printed s)" unfolding number(2,3) by (rule jobs_inv_number [OF j]) (use t number in auto)
    then show ?thesis using q number by (auto simp: spool_inv_def acknowledged_def)
  next
    case own
    have "jobs_inv d1 (outstanding xs hand) ((sp_threads s)(tid \<mapsto> c1)) (sp_acked s) (sp_printed s)" by (rule jobs_inv_write [OF j t own(1,2,4)])
    then show ?thesis using q own by (auto simp: spool_inv_def writes_own_def)
  next
    case ack
    have "jobs_inv (sp_daemon s) (outstanding xs hand) ((sp_threads s)(tid \<mapsto> c1)) (sp_acked s \<union> acknowledged c (sp_daemon s)) (sp_printed s)"
      unfolding ack(1,2) acknowledged_def client.case by (rule jobs_inv_ack [OF j]) (use t ack in simp)
    then show ?thesis using q ack(3) by (auto simp: spool_inv_def)
  next
    case queue
    have q1: "jobs_rep (pd_jobs d1) (xs @ [(k, req)], hand)" using printq.add_rep [OF q, of "(k, req)"] queue(3,4) by auto
    have "jobs_inv d1 (outstanding (xs @ [(k, req)]) hand) ((sp_threads s)(tid \<mapsto> c1)) (sp_acked s) (sp_printed s)"
      unfolding queue(2,4) by (rule jobs_inv_enqueue [OF j]) (use t queue in \<open>auto simp: outstanding_def split: option.splits\<close>)
    then show ?thesis using q1 queue(1) by (auto simp: spool_inv_def acknowledged_def)
  qed
qed

lemma printer_take_jobs:
  assumes "jobs_rep (pd_jobs d) (xs, None)" and "printer_take written config getaddrlist d = Inr (Done d1)"
  shows "\<exists>ys hand. jobs_rep (pd_jobs d1) (ys, hand) \<and> outstanding ys hand = xs \<and> quiet d d1"
proof (cases xs)
  case Nil
  then have "d1 = d" using assms jobs_rep_head [OF assms(1)] by (simp add: printer_take_def)
  then show ?thesis using assms(1) by (intro exI [of _ xs] exI [of _ "None :: job option"]) (simp add: outstanding_def quiet_def)
next
  case (Cons x ys)
  then obtain js where js: "pick_job (pd_jobs d) = Inr js" "jobs_rep js (ys, Some x)" using printq.pick_rep [OF assms(1)] by auto
  have h: "jobhead (fst (pd_jobs d)) \<noteq> None" using jobs_rep_head [OF assms(1)] Cons by simp
  have "pd_jobs d1 = js \<and> quiet d d1"
    using assms(2) js(1) unfolding printer_take_def if_not_P [OF h]
    by (auto simp: update_jobno_def init_printer_def quiet_def Let_def split: if_splits outcome.splits option.splits list.splits)
  then show ?thesis using js(2) Cons by (intro exI [of _ ys] exI [of _ "Some x"]) auto
qed

lemma jobs_rep_pointer: "jobs_rep js (xs, hand) \<Longrightarrow> snd js = None \<longleftrightarrow> hand = None"
  by (cases js; cases hand) (auto simp: jobs_rep_def)

lemma print_attempt_not_cancelled:
  assumes "print_attempt pe j d = Inr (Done (a, out))" and "pd_data d (show_dec (fst j)) \<noteq> None" and "pe_open pe" "pe_fstat pe"
  shows "a \<noteq> Cancelled"
  using assms by (cases j) (auto simp: print_attempt_def split: if_splits)

lemma spool_inv_step:
  assumes "spool_step s s1" and "spool_inv s"
  shows "spool_inv s1"
  using assms
proof (induction rule: spool_step.induct)
  case (accept conn c s tid)
  then have "jobnum c = None" "thread_ok (sp_daemon s) c" by (auto simp: accept_client_def split: option.splits)
  moreover have "\<And>c0. sp_threads s tid = Some c0 \<Longrightarrow> jobnum c0 = None" using accept(2) by auto
  ultimately show ?case using accept(3) jobs_inv_thread [of "sp_daemon s" _ "sp_threads s" _ _ tid c] by (fastforce simp: spool_inv_def)
next
  case (client s tid c ce c1 out d1)
  then show ?case by (intro spool_inv_client)
next
  case (take_job s written config getaddrlist d1)
  obtain xs hand where q: "jobs_rep (pd_jobs (sp_daemon s)) (xs, hand)" and j: "jobs_inv (sp_daemon s) (outstanding xs hand) (sp_threads s) (sp_acked s) (sp_printed s)"
    using take_job(3) by (auto simp: spool_inv_def)
  have "hand = None" using jobs_rep_pointer [OF q] take_job(1) by simp
  then obtain ys h where "jobs_rep (pd_jobs d1) (ys, h)" "outstanding ys h = outstanding xs hand" "quiet (sp_daemon s) d1"
    using printer_take_jobs [of "sp_daemon s" xs, OF _ take_job(2)] q by auto
  then show ?case using jobs_inv_quiet [OF j, of d1] unfolding spool_inv_def by (intro exI [of _ ys] exI [of _ h]) simp
next
  case (work s pe j a out d1)
  obtain xs hand where q: "jobs_rep (pd_jobs (sp_daemon s)) (xs, hand)" and inv: "jobs_inv (sp_daemon s) (outstanding xs hand) (sp_threads s) (sp_acked s) (sp_printed s)"
    using work(6) by (auto simp: spool_inv_def)
  have "hand \<noteq> None" using jobs_rep_pointer [OF q] work(1) by simp
  then have h: "hand = Some j" using jobs_rep_hand [of "sp_daemon s" xs] q work(4) by auto
  obtain o1 where a: "print_attempt pe j (sp_daemon s) = Inr (Done (a, o1))" "printer_finish a j (sp_daemon s) = Inr d1"
    using work(4,5) by (auto simp: printer_work_def)
  have "on_disk (sp_daemon s) j" using inv h by (auto simp: jobs_inv_def files_ok_def outstanding_def)
  then have na: "a \<noteq> Cancelled" using print_attempt_not_cancelled [OF a(1) _ work(2,3)] by (simp add: on_disk_def)
  obtain d2 where d2: "printer_finish a j (sp_daemon s) = Inr d2" "jobs_rep (pd_jobs d2) (if a = Deferred then j # xs else xs, None)"
      "if a = PrintDone then pd_data d2 = (pd_data (sp_daemon s))(show_dec (fst j) := None) \<and> pd_reqs d2 = (pd_reqs (sp_daemon s))(show_dec (fst j) := None)
       else pd_data d2 = pd_data (sp_daemon s) \<and> pd_reqs d2 = pd_reqs (sp_daemon s)" "pd_nextjob d2 = pd_nextjob (sp_daemon s)"
    using printer_finish_jobs [of "sp_daemon s" xs j a] q h by blast
  have d: "d2 = d1" using a(2) d2(1) by simp
  show ?case
  proof (cases "a = PrintDone")
    case True
    obtain k req where k: "j = (k, req)" by force
    have "jobs_inv (drop_job (show_dec k) ((sp_daemon s)\<lparr>pd_jobs := pd_jobs d1\<rparr>)) xs (sp_threads s) (sp_acked s) (sp_printed s \<union> {k})"
      by (rule jobs_inv_printed) (use inv h k in \<open>simp add: outstanding_def\<close>)
    moreover have "quiet (drop_job (show_dec k) ((sp_daemon s)\<lparr>pd_jobs := pd_jobs d1\<rparr>)) d1" using d2(3,4) True k d by (simp add: quiet_def drop_job_def)
    ultimately have "jobs_inv d1 xs (sp_threads s) (sp_acked s) (sp_printed s \<union> {k})" using jobs_inv_quiet by blast
    then show ?thesis using d2(2) d True k by (auto simp: spool_inv_def outstanding_def intro!: exI [of _ xs] exI [of _ "None :: job option"])
  next
    case False
    then have "a = Deferred" using na by (cases a) auto
    moreover have "jobs_inv d1 (j # xs) (sp_threads s) (sp_acked s) (sp_printed s)"
      using jobs_inv_quiet [OF inv] d2(3,4) False h d by (simp add: quiet_def outstanding_def)
    ultimately show ?thesis using d2(2) d by (auto simp: spool_inv_def outstanding_def intro!: exI [of _ "j # xs"] exI [of _ "None :: job option"])
  qed
next
  case (signalled sg s d1)
  then have "quiet (sp_daemon s) d1" "pd_jobs d1 = pd_jobs (sp_daemon s)" by (auto simp: signal_thread_def quiet_def split: posix_signal.splits)
  then show ?case using signalled(2) jobs_inv_quiet by (fastforce simp: spool_inv_def)
qed

subsection \<open>Starting anew\<close>

text \<open>A complete control file.\<close>

definition spooled_file :: "printd \<Rightarrow> string \<Rightarrow> job \<Rightarrow> bool" where
  "spooled_file d name j \<longleftrightarrow> name = show_dec (fst j) \<and> 0 < fst j \<and> fst j \<le> INT_MAX \<and> pd_reqs d name = Some (preq_bytes (snd j)) \<and> req_ok (snd j)"

lemma spooled_file_number: "spooled_file d name j \<Longrightarrow> strtoll_c 10 name = (fst j, [], False)"
  unfolding spooled_file_def by (auto intro!: strtoll_c_show_dec simp: c_limits)

lemma spooled_file_unique: "spooled_file d name j \<Longrightarrow> spooled_file d name j1 \<Longrightarrow> j = j1"
proof (rule prod_eqI)
  assume s: "spooled_file d name j" "spooled_file d name j1"
  show "fst j = fst j1" using spooled_file_number [OF s(1)] spooled_file_number [OF s(2)] by simp
  have "req_of (preq_bytes (snd j)) = snd j" "req_of (preq_bytes (snd j1)) = snd j1" using s req_of_bytes [of _ "[]"] by (auto simp: spooled_file_def)
  moreover have "Some (preq_bytes (snd j)) = Some (preq_bytes (snd j1))" using s unfolding spooled_file_def by metis
  then have "preq_bytes (snd j) = preq_bytes (snd j1)" by simp
  ultimately show "snd j = snd j1" by metis
qed

lemma spooled_file_name: "spooled_file d name j \<Longrightarrow> name \<noteq> ''.'' \<and> name \<noteq> ''..''"
proof -
  assume s: "spooled_file d name j"
  have "fst (strtoll_c 10 ''.'') = 0" "fst (strtoll_c 10 ''..'') = 0" by (simp_all add: strtol_eval isspace_c_def digit_val_def saturate_def LLONG_MIN_def LLONG_MAX_def)
  then show ?thesis using spooled_file_number [OF s] s by (auto simp: spooled_file_def)
qed

lemma build_qonstart_entry:
  assumes "spooled_file d name j" and "jobs_rep (pd_jobs d) (xs, None)"
  shows "\<exists>js. build_qonstart ((name, Opened) # names) d = build_qonstart names (d\<lparr>pd_jobs := js\<rparr>) \<and> jobs_rep js (xs @ [j], None)"
proof -
  have s: "name = show_dec (fst j)" "0 < fst j" "fst j \<le> INT_MAX" "pd_reqs d name = Some (preq_bytes (snd j))" "req_ok (snd j)" using assms(1) by (auto simp: spooled_file_def)
  have "signed_take_bit 31 (fst j) = fst j" using s(2,3) by (simp add: signed_take_bit_int_eq_self c_limits)
  then have num: "signed_take_bit 31 (fst (strtoll_c 10 name)) = fst j" using spooled_file_number [OF assms(1)] by simp
  obtain js where js: "enqueue_job j (pd_jobs d) = Inr js" "jobs_rep js (xs @ [j], None)" using printq.add_rep [OF assms(2), of j] by auto
  have "length name \<le> 10" using show_dec_short s by simp
  then have "build_qonstart ((name, Opened) # names) d = build_qonstart names (d\<lparr>pd_jobs := js\<rparr>)"
    using spooled_file_name [OF assms(1)] num js(1) s(4) preq_bytes_length [OF s(5)] req_of_bytes [OF s(5), of "[]"] by (simp add: enqueue_def FILENMSZ_def reqs_path_def)
  then show ?thesis using js(2) by blast
qed

lemma build_qonstart_all:
  assumes "jobs_rep (pd_jobs d) (xs, None)"
    and "\<And>name en. (name, en) \<in> set names \<Longrightarrow> name \<noteq> ''.'' \<Longrightarrow> name \<noteq> ''..'' \<Longrightarrow> en = Opened \<and> (\<exists>j. spooled_file d name j)"
  shows "\<exists>d1 ys. build_qonstart names d = Inr (Done d1) \<and> jobs_rep (pd_jobs d1) (xs @ ys, None) \<and> pd_data d1 = pd_data d \<and>
    (\<forall>(name, en)\<in>set names. \<forall>j. spooled_file d name j \<longrightarrow> j \<in> set ys)"
  using assms
proof (induction names arbitrary: d xs)
  case Nil
  then show ?case by (intro exI [of _ d] exI [of _ "[]"]) simp
next
  case (Cons e names)
  obtain name en where e: "e = (name, en)" by force
  have prems: "\<And>nm en. (nm, en) \<in> set names \<Longrightarrow> nm \<noteq> ''.'' \<Longrightarrow> nm \<noteq> ''..'' \<Longrightarrow> en = Opened \<and> (\<exists>j. spooled_file d nm j)" using Cons.prems(2) by auto
  show ?case
  proof (cases "name = ''.'' \<or> name = ''..''")
    case True
    then have step: "build_qonstart (e # names) d = build_qonstart names d" using e by auto
    obtain d1 ys where r: "build_qonstart names d = Inr (Done d1)" "jobs_rep (pd_jobs d1) (xs @ ys, None)" "pd_data d1 = pd_data d"
        "\<forall>(name, en)\<in>set names. \<forall>j. spooled_file d name j \<longrightarrow> j \<in> set ys"
      using Cons.IH [OF Cons.prems(1) prems] by blast
    have "\<not> spooled_file d name j" for j using spooled_file_name True by blast
    then show ?thesis unfolding step by (intro exI [of _ d1] exI [of _ ys]) (use r e in auto)
  next
    case False
    obtain j where j: "en = Opened" "spooled_file d name j" using Cons.prems(2) [of name en] e False by auto
    obtain js where js: "build_qonstart (e # names) d = build_qonstart names (d\<lparr>pd_jobs := js\<rparr>)" "jobs_rep js (xs @ [j], None)"
      using build_qonstart_entry [OF j(2) Cons.prems(1), of names] unfolding e j(1) by blast
    have same: "spooled_file (d\<lparr>pd_jobs := js\<rparr>) nm = spooled_file d nm" for nm by (auto simp: spooled_file_def)
    have "jobs_rep (pd_jobs (d\<lparr>pd_jobs := js\<rparr>)) (xs @ [j], None)" using js(2) by simp
    from Cons.IH [OF this, unfolded same, OF prems] obtain d1 ys where r: "build_qonstart names (d\<lparr>pd_jobs := js\<rparr>) = Inr (Done d1)" "jobs_rep (pd_jobs d1) ((xs @ [j]) @ ys, None)"
        "pd_data d1 = pd_data (d\<lparr>pd_jobs := js\<rparr>)" "\<forall>(name, en)\<in>set names. \<forall>j. spooled_file d name j \<longrightarrow> j \<in> set ys" by blast
    show ?thesis unfolding js(1) by (intro exI [of _ d1] exI [of _ "j # ys"]) (use r e spooled_file_unique [OF j(2)] in auto)
  qed
qed

subsection \<open>Reachable states\<close>

text \<open>A daemon that has started: the jobs in its queue are those in the spool, and their numbers are below the next one. These jobs count as accepted.\<close>

definition started :: "printd \<Rightarrow> job list \<Rightarrow> bool" where
  "started d xs \<longleftrightarrow> jobs_rep (pd_jobs d) (xs, None) \<and> numbers_ok d xs Map.empty \<and> files_ok d xs Map.empty"

definition spool_start :: "printd \<Rightarrow> job list \<Rightarrow> spool" where
  "spool_start d xs = \<lparr>sp_daemon = d, sp_threads = Map.empty, sp_acked = (\<lambda>j. (fst j, snd j, the (pd_data d (show_dec (fst j))))) ` set xs, sp_printed = {}\<rparr>"

lemma spool_inv_reachable:
  assumes "spool_step\<^sup>*\<^sup>* (spool_start d0 xs) s" and "started d0 xs"
  shows "spool_inv s"
  using assms(1)
proof (induction rule: rtranclp_induct)
  case base
  have "books_ok d0 xs Map.empty (sp_acked (spool_start d0 xs)) {}" using assms(2) by (auto simp: books_ok_def spool_start_def started_def files_ok_def on_disk_def)
  then have "jobs_inv d0 (outstanding xs None) Map.empty (sp_acked (spool_start d0 xs)) {}" using assms(2) by (simp add: jobs_inv_def started_def)
  then show ?case using assms(2) unfolding spool_inv_def by (intro exI [of _ xs] exI [of _ "None :: job option"]) (simp add: spool_start_def started_def)
next
  case (step s1 s2)
  then show ?case using spool_inv_step by blast
qed

lemma complete_files:
  assumes n: "numbers_ok d js ts" and f: "files_ok d js ts"
  shows "j \<in> set js \<union> answered ts \<Longrightarrow> spooled_file d (show_dec (fst j)) j" and "name \<in> dom (pd_reqs d) \<Longrightarrow> \<exists>j. spooled_file d name j"
proof -
  have le: "pd_nextjob d \<le> INT_MAX" using n by (simp add: numbers_ok_def)
  have q: "spooled_file d (show_dec (fst j)) j" if "j \<in> set js" for j
    using n f that by (auto simp: numbers_ok_def files_ok_def on_disk_def spooled_file_def)
  have t: "spooled_file d (show_dec k) (k, req)" if tc: "ts t = Some c" "filed_job c = Some (k, req)" for t c k req
  proof -
    have "on_disk d (k, req)" using f tc by (cases c) (force simp: files_ok_def)+
    then show ?thesis using numbers_thread [OF n tc(1) filed_jobnum [OF tc(2)]] le by (auto simp: spooled_file_def on_disk_def)
  qed
  show "spooled_file d (show_dec (fst j)) j" if "j \<in> set js \<union> answered ts" for j using that q t by (cases j) (auto simp: answered_def)
  show "\<exists>j. spooled_file d name j" if nm: "name \<in> dom (pd_reqs d)" for name
  proof -
    obtain k where k: "name = show_dec k" "k \<in> fst ` set js \<union> filed_nums ts" using f nm unfolding files_ok_def by blast
    then show ?thesis using q t by (auto simp: filed_nums_def) blast
  qed
qed

end
