(* ===== verification/Spool_Reuse.thy ===== *)
theory Spool_Reuse
  imports Spool_Safety
begin

section \<open>Runs of the spooler, and the numbers of jobs\<close>

text \<open>
  A run in which a client is told that its job is accepted; and what goes wrong after a restart: the file with the next job number is written only when the printer's thread takes a job, so that a number that was
  given out can be given out again.
\<close>

subsection \<open>A run\<close>

definition sample_net :: printreq where
  "sample_net = client_request (Some ''ann'') ''memo'' 2 False (replicate USERNM_MAX CHR ''x'') (replicate JOBNM_MAX CHR ''y'')"

lemma sample_net_ok: "req_ok sample_net"
  unfolding sample_net_def by (rule client_request_ok) simp_all

lemma sample_started: "0 < n \<Longrightarrow> n \<le> INT_MAX \<Longrightarrow> started (sample_daemon f n) []"
  by (simp add: started_def sample_daemon_idle numbers_ok_def files_ok_def) (simp add: sample_daemon_def)

definition solo :: "printd \<Rightarrow> client \<Rightarrow> (int \<times> printreq \<times> string) set \<Rightarrow> spool" where
  "solo d c a = \<lparr>sp_daemon = d, sp_threads = [1 \<mapsto> c], sp_acked = a, sp_printed = {}\<rparr>"

lemma solo_step:
  assumes "client_step ce 1 c d = Inr (Done (c1, out, d1))"
  shows "spool_step (solo d c a) (solo d1 c1 (a \<union> acknowledged c d))"
  using spool_step.client [of "solo d c a" 1 c ce c1 out d1] assms by (simp add: solo_def)

lemma solo_silent:
  assumes "client_step ce 1 c d = Inr (Done (c1, out, d1))" "\<And>r k. c \<noteq> Filed r k"
  shows "spool_step (solo d c a) (solo d1 c1 a)"
proof -
  have "acknowledged c d = {}" using assms(2) by (cases c) (auto simp: acknowledged_def)
  then show ?thesis using solo_step [OF assms(1), of a] by simp
qed

lemma sample_run:
  assumes "d = sample_daemon ''7'' 7"
  shows "\<exists>s. spool_step\<^sup>*\<^sup>* (spool_start d []) s \<and> (7, spooled sample_net ''Hi'', ''Hi'') \<in> sp_acked s \<and> sp_printed s = {} \<and> dom (pd_reqs (sp_daemon s)) = {show_dec 7}"
proof -
  let ?src = "(preq_bytes sample_net @ ''Hi'', replicate 330 (Ready 1))"
  let ?q = "spooled sample_net ''Hi''"
  have d: "pd_nextjob d = 7" "pd_reqs d = Map.empty" "wk_head (pd_workers d) = None" using assms by (simp_all add: sample_daemon_def workers_init_def)
  obtain w1 where w: "add_worker 1 4 (pd_workers d) = Inr w1" using d(3) by (simp add: add_worker_def Let_def)
  define d4 where "d4 = d\<lparr>pd_workers := w1, pd_nextjob := pd_nextjob d + 1, pd_data := (pd_data d)(show_dec (pd_nextjob d) \<mapsto> ''Hi''),
      pd_reqs := (pd_reqs d)(show_dec (pd_nextjob d) \<mapsto> preq_bytes ?q)\<rparr>"
  have es: "all_ready (replicate 330 (Ready 1))" "sizeof_req + length ''Hi'' \<le> length (replicate 330 (Ready 1))" "ps_decidable ''Hi'' (replicate 330 (Ready 1))"
    by (simp_all add: all_ready_def list_all_iff print_sizes ps_decidable_def)
  have num: "0 < pd_nextjob d" "pd_nextjob d < INT_MAX" using d(1) by (simp_all add: c_limits)
  show ?thesis
  proof (rule client_answers [OF sample_env_ok w num sample_net_ok es d4_def], goal_cases)
    case (1 c1 c2 c3 d1 d2 d3)
    have "spool_step (spool_start d []) (solo d (Connected 4 ?src) {})"
      using spool_step.accept [of "Some (4, ?src)" "Connected 4 ?src" "spool_start d []" 1] by (simp add: spool_start_def accept_client_def solo_def)
    moreover have "spool_step (solo d (Connected 4 ?src) {}) (solo d1 c1 {})" by (rule solo_silent [OF 1(1)]) simp
    moreover have "spool_step (solo d1 c1 {}) (solo d1 c2 {})" by (rule solo_silent [OF 1(2) 1(7)])
    moreover have "spool_step (solo d1 c2 {}) (solo d2 c3 {})" by (rule solo_silent [OF 1(3) 1(8)])
    moreover have "spool_step (solo d2 c3 {}) (solo d3 (DataStored ?q 7) {})" using solo_silent [OF 1(4) 1(9)] d(1) by simp
    moreover have "spool_step (solo d3 (DataStored ?q 7) {}) (solo d4 (Filed ?q 7) {})" using solo_silent [OF 1(5)] d(1) by simp
    moreover have "spool_step (solo d4 (Filed ?q 7) {}) (solo d4 (Answered ?q 7) {(7, ?q, ''Hi'')})"
      using solo_step [OF 1(6), of "{}"] d(1) by (simp add: acknowledged_def d4_def)
    ultimately have "spool_step\<^sup>*\<^sup>* (spool_start d []) (solo d4 (Answered ?q 7) {(7, ?q, ''Hi'')})" by (meson converse_rtranclp_into_rtranclp rtranclp.rtrancl_refl)
    then show ?case using d(1,2) by (intro exI [of _ "solo d4 (Answered ?q 7) {(7, ?q, ''Hi'')}"]) (simp add: d4_def solo_def)
  qed
qed

text \<open>
  C4: No job that a client was told is accepted is lost. Whatever the threads do, in whatever order, from a daemon that has started and whose steps are free of faults: as long as the printer's thread can open the files of the spool, a job whose
  acceptance was sent to its client is printed, or its document and its control file are in the spool unchanged and the job is in the queue, in the printer's hand, or about to be queued by its thread. And if the daemon is
  killed at such a moment and started anew, then, in whatever order the directory is listed, the job is in the new queue, and its document is still there.
\<close>

theorem spool_no_job_lost:
  assumes "started d0 xs0" and "spool_step\<^sup>*\<^sup>* (spool_start d0 xs0) s" and "(jobid, req, doc) \<in> sp_acked s" and "jobid \<notin> sp_printed s" and "d = sp_daemon s"
    and "fst ` set names = dom (pd_reqs d) \<union> {''.'', ''..''}" and "snd ` set names = {Opened}"
  shows "pd_data d (show_dec jobid) = Some doc \<and> pd_reqs d (show_dec jobid) = Some (preq_bytes req) \<and>
    (\<exists>xs hand. jobs_rep (pd_jobs d) (xs, hand) \<and> (jobid, req) \<in> set (outstanding xs hand) \<union> answered (sp_threads s)) \<and>
    (\<exists>d1 ys. build_qonstart names (fresh_daemon d) = Inr (Done d1) \<and> jobs_rep (pd_jobs d1) (ys, None) \<and> (jobid, req) \<in> set ys \<and> pd_data d1 (show_dec jobid) = Some doc)"
proof -
  obtain xs hand where q: "jobs_rep (pd_jobs d) (xs, hand)" and inv: "jobs_inv d (outstanding xs hand) (sp_threads s) (sp_acked s) (sp_printed s)"
    using spool_inv_reachable [OF assms(2,1)] assms(5) by (auto simp: spool_inv_def)
  have n: "numbers_ok d (outstanding xs hand) (sp_threads s)" and f: "files_ok d (outstanding xs hand) (sp_threads s)" using inv by (auto simp: jobs_inv_def)
  have b: "pd_data d (show_dec jobid) = Some doc" "(jobid, req) \<in> set (outstanding xs hand) \<union> answered (sp_threads s)" using inv assms(3,4) by (auto simp: jobs_inv_def books_ok_def)
  note complete = complete_files [OF n f]
  have j: "spooled_file d (show_dec jobid) (jobid, req)" using complete(1) [OF b(2)] by simp
  have same: "spooled_file (fresh_daemon d) nm = spooled_file d nm" for nm by (auto simp: spooled_file_def fresh_daemon_def)
  have "jobs_rep (pd_jobs (fresh_daemon d)) ([], None)" by (simp add: fresh_daemon_def jobs_rep_def job_rep_init)
  moreover have "en = Opened \<and> (\<exists>j. spooled_file (fresh_daemon d) nm j)" if "(nm, en) \<in> set names" "nm \<noteq> ''.''" "nm \<noteq> ''..''" for nm en
  proof -
    have "nm \<in> fst ` set names" "en \<in> snd ` set names" using that(1) by force+
    then show ?thesis using assms(6,7) that(2,3) complete(2) unfolding same by auto
  qed
  ultimately obtain d1 ys where r: "build_qonstart names (fresh_daemon d) = Inr (Done d1)" "jobs_rep (pd_jobs d1) ([] @ ys, None)" "pd_data d1 = pd_data (fresh_daemon d)"
      "\<forall>(name, en)\<in>set names. \<forall>j. spooled_file (fresh_daemon d) name j \<longrightarrow> j \<in> set ys"
    using build_qonstart_all [of "fresh_daemon d" "[]" names] by blast
  have "show_dec jobid \<in> fst ` set names" using j assms(6) by (auto simp: spooled_file_def)
  then have "(jobid, req) \<in> set ys" using r(4) j unfolding same by force
  then show ?thesis using r b q j by (auto simp: spooled_file_def fresh_daemon_def)
qed

theorem spool_no_job_lost_witness:
  "\<exists>s d1 ys. spool_step\<^sup>*\<^sup>* (spool_start (sample_daemon ''7'' 7) []) s \<and> (7, spooled sample_net ''Hi'', ''Hi'') \<in> sp_acked s \<and> pd_data (sp_daemon s) (show_dec 7) = Some ''Hi'' \<and>
    build_qonstart [(''.'', Opened), (show_dec 7, Opened), (''..'', Opened)] (fresh_daemon (sp_daemon s)) = Inr (Done d1) \<and>
    jobs_rep (pd_jobs d1) (ys, None) \<and> (7, spooled sample_net ''Hi'') \<in> set ys \<and> pd_data d1 (show_dec 7) = Some ''Hi''"
proof -
  let ?names = "[(''.'', Opened), (show_dec 7, Opened), (''..'', Opened)]"
  obtain s where s: "spool_step\<^sup>*\<^sup>* (spool_start (sample_daemon ''7'' 7) []) s" "(7, spooled sample_net ''Hi'', ''Hi'') \<in> sp_acked s" "sp_printed s = {}" "dom (pd_reqs (sp_daemon s)) = {show_dec 7}"
    using sample_run [OF refl] by blast
  have "started (sample_daemon ''7'' 7) []" by (rule sample_started) (simp_all add: c_limits)
  moreover have "7 \<notin> sp_printed s" "fst ` set ?names = dom (pd_reqs (sp_daemon s)) \<union> {''.'', ''..''}" "snd ` set ?names = {Opened}" using s(3,4) by auto
  ultimately show ?thesis using spool_no_job_lost [OF _ s(1,2) _ refl, of ?names] s(1,2) by blast
qed

subsection \<open>The number in the file\<close>

lemma spooled_ok: "req_ok req \<Longrightarrow> req_ok (spooled req doc)"
proof -
  assume r: "req_ok req"
  have "even f \<Longrightarrow> f < 2 ^ 32 \<Longrightarrow> f + 1 < 2 ^ 32" for f :: nat by simp presburger
  then have "doc_flags doc (ntohl (rq_flags req)) < 2 ^ 32" using ntohl_less [of "rq_flags req"] by (simp add: doc_flags_def PR_TEXT_def)
  then show ?thesis using r ntohl_less by (simp add: req_ok_def spooled_def)
qed

lemma init_request_number:
  assumes "pd_jobfile d = show_dec n" and "0 < n" and "n \<le> INT_MAX"
  shows "init_request True True d = Inr (Done (d\<lparr>pd_nextjob := n\<rparr>))"
proof -
  let ?path = "jobfile_path @ [CHR 0x00]"
  have len: "length (show_dec n) \<le> 10" "show_dec n \<noteq> []" using show_dec_short assms(2,3) by (simp_all add: show_dec_def)
  have "length (show_dec n) < length ?path" using len(1) by (simp add: jobfile_path_def)
  then obtain c cs where c: "drop (length (show_dec n)) ?path = c # cs" by (metis Cons_nth_drop_Suc)
  have "list_all (\<lambda>c. \<not> digit_val c < 10) ?path" by (simp add: jobfile_path_def digit_val_def)
  moreover have "c \<in> set ?path" using c by (metis in_set_dropD list.set_intros(1))
  ultimately have "\<not> digit_val c < 10" unfolding list_all_iff by blast
  then have "strtoll_c 10 (show_dec n @ c # cs) = (n, c # cs, False)" using strtoll_c_show_dec_rest assms(2,3) by (simp add: c_limits)
  moreover have "signed_take_bit 31 n = n" using assms(2,3) by (simp add: signed_take_bit_int_eq_self c_limits)
  ultimately show ?thesis using len assms(1) c by (simp add: init_request_def FILENMSZ_def Let_def)
qed

text \<open>
  C33: After a restart the daemon gives a job number out a second time. A client is told the number of its job; the daemon is killed before the printer's thread has taken the job, and started again: it puts the job
  into its queue, but reads the same number from its file. The next client is told the same number, and its document replaces the first one, which is lost, while the queue holds both jobs under that number.
\<close>

theorem job_number_reuse:
  assumes "env_ok ce" and "wk_head (pd_workers d) = None" and "jobs_rep (pd_jobs d) ([], None)" and "pd_reqs d = Map.empty" and "pd_jobfile d = show_dec n" and "pd_nextjob d = n" and "0 < n" and "n < INT_MAX"
    and "req_ok req1" and "all_ready es1" and "sizeof_req + length doc1 \<le> length es1" and "ps_decidable doc1 es1"
    and "req_ok req2" and "all_ready es2" and "sizeof_req + length doc2 \<le> length es2" and "ps_decidable doc2 es2"
    and "open_servers addrs \<noteq> []" and "uid \<noteq> 0" and "get_printaddr config getaddrlist = Done (Some (a # as))"
  shows "\<exists>d1 d2 d3. client_thread ce tid1 fd1 (preq_bytes req1 @ doc1, es1) d = Inr (Done (Over 0, ok_response ce n, d1)) \<and> pd_data d1 (show_dec n) = Some doc1 \<and> dom (pd_reqs d1) = {show_dec n} \<and>
    printd_start True (Some addrs) (Some uid) True True True config getaddrlist True [(show_dec n, Opened)] (fresh_daemon d1) = Inr (Done (open_servers addrs, d2)) \<and>
    client_thread ce tid2 fd2 (preq_bytes req2 @ doc2, es2) d2 = Inr (Done (Over 0, ok_response ce n, d3)) \<and> pd_data d3 (show_dec n) = Some doc2 \<and>
    jobs_rep (pd_jobs d3) ([(n, spooled req1 doc1), (n, spooled req2 doc2)], None)"
proof -
  have num: "0 < pd_nextjob d" "pd_nextjob d < INT_MAX" using assms(6-8) by simp_all
  obtain d1 where d1: "client_thread ce tid1 fd1 (preq_bytes req1 @ doc1, es1) d = Inr (Done (Over 0, ok_response ce n, d1))" "pd_data d1 = (pd_data d)(show_dec n \<mapsto> doc1)"
      "pd_reqs d1 = [show_dec n \<mapsto> preq_bytes (spooled req1 doc1)]" "pd_jobfile d1 = show_dec n"
    by (rule client_thread_stores [OF assms(1,2) num assms(3,9-12), of tid1 fd1]) (use assms(4-6) in simp)
  define e where "e = (fresh_daemon d1)\<lparr>pd_nextjob := n, pd_printer := (ai_addr a, case ai_canonname a of None \<Rightarrow> ''printer'' | Some nm \<Rightarrow> nm)\<rparr>"
  have e: "init_request True True (fresh_daemon d1) = Inr (Done ((fresh_daemon d1)\<lparr>pd_nextjob := n\<rparr>))" by (rule init_request_number) (use d1(4) assms(7,8) in \<open>simp_all add: fresh_daemon_def\<close>)
  have p: "init_printer config getaddrlist ((fresh_daemon d1)\<lparr>pd_nextjob := n\<rparr>) = Inr (Done e)" using assms(19) by (simp add: init_printer_def e_def)
  have "spooled_file e (show_dec n) (n, spooled req1 doc1)" using assms(7,8) d1(3) spooled_ok [OF assms(9)] by (simp add: spooled_file_def e_def fresh_daemon_def)
  moreover have "jobs_rep (pd_jobs e) ([], None)" by (simp add: e_def fresh_daemon_def jobs_rep_def job_rep_init)
  ultimately obtain js where js: "build_qonstart [(show_dec n, Opened)] e = Inr (Done (e\<lparr>pd_jobs := js\<rparr>))" "jobs_rep js ([(n, spooled req1 doc1)], None)"
    using build_qonstart_entry [of e "show_dec n" "(n, spooled req1 doc1)" "[]" "[]"] by auto
  define d2 where "d2 = e\<lparr>pd_jobs := js\<rparr>"
  have start: "printd_start True (Some addrs) (Some uid) True True True config getaddrlist True [(show_dec n, Opened)] (fresh_daemon d1) = Inr (Done (open_servers addrs, d2))"
    using assms(17,18) e p js(1) by (simp add: printd_start_def d2_def del: build_qonstart.simps)
  have d2: "wk_head (pd_workers d2) = None" "pd_nextjob d2 = n" "jobs_rep (pd_jobs d2) ([(n, spooled req1 doc1)], None)"
    using js(2) by (simp_all add: d2_def e_def fresh_daemon_def workers_init_def)
  have num2: "0 < pd_nextjob d2" "pd_nextjob d2 < INT_MAX" using d2(2) assms(7,8) by simp_all
  obtain d3 where "client_thread ce tid2 fd2 (preq_bytes req2 @ doc2, es2) d2 = Inr (Done (Over 0, ok_response ce n, d3))" "pd_data d3 = (pd_data d2)(show_dec n \<mapsto> doc2)"
      "jobs_rep (pd_jobs d3) ([(n, spooled req1 doc1)] @ [(n, spooled req2 doc2)], None)"
    by (rule client_thread_stores [OF assms(1) d2(1) num2 d2(3) assms(13-16), of tid2 fd2]) (use d2(2) in simp)
  then show ?thesis using d1 start by (intro exI [of _ d1] exI [of _ d2] exI [of _ d3]) simp
qed

theorem job_number_reuse_witness:
  "\<exists>d1 d2 d3. client_thread sample_env 1 4 (preq_bytes sample_net @ ''Hi'', replicate 330 (Ready 1)) (sample_daemon (show_dec 7) 7) = Inr (Done (Over 0, ok_response sample_env 7, d1)) \<and>
    pd_data d1 (show_dec 7) = Some ''Hi'' \<and> dom (pd_reqs d1) = {show_dec 7} \<and>
    printd_start True (Some [(Some 3, True, True, True)]) (Some 9) True True True (Some ''printer lp'') (\<lambda>h s. Some [\<lparr>ai_addr = 1, ai_canonname = None\<rparr>]) True [(show_dec 7, Opened)] (fresh_daemon d1) =
      Inr (Done (open_servers [(Some 3, True, True, True)], d2)) \<and>
    client_thread sample_env 2 5 (preq_bytes sample_net @ ''Bye'', replicate 331 (Ready 1)) d2 = Inr (Done (Over 0, ok_response sample_env 7, d3)) \<and> pd_data d3 (show_dec 7) = Some ''Bye'' \<and>
    jobs_rep (pd_jobs d3) ([(7, spooled sample_net ''Hi''), (7, spooled sample_net ''Bye'')], None)"
proof (rule job_number_reuse [OF sample_env_ok sample_daemon_idle(1,2)])
  show "get_printaddr (Some ''printer lp'') (\<lambda>h s. Some [\<lparr>ai_addr = 1, ai_canonname = None\<rparr>]) = Done (Some [\<lparr>ai_addr = 1, ai_canonname = None\<rparr>])"
    by (simp add: get_printaddr_def scan_configfile_def config_loop.simps fgets_c_def MAXCFGLINE_def MAXKWLEN_def sscanf2_def isspace_c_def Let_def)
qed (simp_all add: sample_daemon_def c_limits all_ready_def list_all_iff print_sizes ps_decidable_def sample_net_ok initserver_def)

end
