(* ===== verification/Sysv_Sem.thy ===== *)
theory Sysv_Sem
  imports Io_Library
begin

section \<open>System V semaphores (tlpi/lib/binary\_sems.c, event\_flags.c, tlpi/svsem/svsem\_op.c)\<close>

text \<open>
  A set of semaphores as the kernel keeps it: the values, and for every process and semaphore the sum that is added when the process ends. \<^verbatim>\<open>semop\<close> performs all of its operations or none; when one of them cannot be performed the
  caller waits. On top of it the two small libraries of the textbook, and the program that performs the operations named on its command line.
\<close>

subsection \<open>The kernel\<close>

record semset =
  ss_val :: "int list"
  ss_adj :: "nat \<Rightarrow> nat \<Rightarrow> int"

record sembuf =
  sem_num :: nat
  sem_op :: int
  sem_undo :: bool
  sem_nowait :: bool

definition SEMVMX :: int where "SEMVMX = 32767"
definition EAGAIN :: int where "EAGAIN = 11"
definition EFBIG :: int where "EFBIG = 27"
definition E2BIG :: int where "E2BIG = 7"
definition SEMOPM :: nat where "SEMOPM = 500"

definition new_set :: "nat \<Rightarrow> semset" where
  "new_set n = \<lparr>ss_val = replicate n 0, ss_adj = (\<lambda>p k. 0)\<rparr>"

datatype 'a semres = Performed 'a | Waits | SemErr int

text \<open>The range of what is added when a process ends.\<close>

definition adj_ok :: "int \<Rightarrow> bool" where
  "adj_ok v \<longleftrightarrow> - SEMVMX - 1 \<le> v \<and> v \<le> SEMVMX"

text \<open>The operations of one call, in their order, on the values.\<close>

fun perform :: "nat \<Rightarrow> sembuf list \<Rightarrow> semset \<Rightarrow> semset semres" where
  "perform pid [] s = Performed s"
| "perform pid (b # bs) s =
     (if length (ss_val s) \<le> sem_num b then SemErr EFBIG
      else let v = ss_val s ! sem_num b; wait = (if sem_nowait b then SemErr EAGAIN else Waits) in
        if sem_op b = 0 then (if v \<noteq> 0 then wait else perform pid bs s)
        else if v + sem_op b < 0 then wait
        else if SEMVMX < v + sem_op b then SemErr ERANGE
        else if sem_undo b \<and> \<not> adj_ok (ss_adj s pid (sem_num b) - sem_op b) then SemErr ERANGE
        else perform pid bs
          (s\<lparr>ss_val := (ss_val s)[sem_num b := v + sem_op b],
             ss_adj := (if sem_undo b then (ss_adj s)(pid := (ss_adj s pid)(sem_num b := ss_adj s pid (sem_num b) - sem_op b)) else ss_adj s)\<rparr>))"

definition semop :: "nat \<Rightarrow> sembuf list \<Rightarrow> semset \<Rightarrow> semset semres" where
  "semop pid bs s = (if bs = [] then SemErr EINVAL else if SEMOPM < length bs then SemErr E2BIG else perform pid bs s)"

text \<open>\<^verbatim>\<open>SETVAL\<close> forgets what processes would undo.\<close>

definition setval :: "nat \<Rightarrow> int \<Rightarrow> semset \<Rightarrow> (int + semset)" where
  "setval n v s =
     (if length (ss_val s) \<le> n then Inl EINVAL
      else if v < 0 \<or> SEMVMX < v then Inl ERANGE
      else Inr (s\<lparr>ss_val := (ss_val s)[n := v], ss_adj := (\<lambda>p k. if k = n then 0 else ss_adj s p k)\<rparr>))"

definition getval :: "nat \<Rightarrow> semset \<Rightarrow> (int + int)" where
  "getval n s = (if length (ss_val s) \<le> n then Inl EINVAL else Inr (ss_val s ! n))"

text \<open>The end of a process; a value does not leave its range.\<close>

definition sem_exit :: "nat \<Rightarrow> semset \<Rightarrow> semset" where
  "sem_exit pid s = s\<lparr>ss_val := map (\<lambda>k. max 0 (min SEMVMX (ss_val s ! k + ss_adj s pid k))) [0..<length (ss_val s)], ss_adj := (ss_adj s)(pid := (\<lambda>k. 0))\<rparr>"

definition sem_ok :: "semset \<Rightarrow> bool" where
  "sem_ok s \<longleftrightarrow> (\<forall>v\<in>set (ss_val s). 0 \<le> v \<and> v \<le> SEMVMX)"

lemma perform_ok: "perform pid bs s = Performed s1 \<Longrightarrow> sem_ok s \<Longrightarrow> sem_ok s1 \<and> length (ss_val s1) = length (ss_val s)"
proof (induction bs arbitrary: s)
  case (Cons b bs)
  let ?v = "ss_val s ! sem_num b + sem_op b"
  let ?s = "s\<lparr>ss_val := (ss_val s)[sem_num b := ?v], ss_adj := (if sem_undo b then (ss_adj s)(pid := (ss_adj s pid)(sem_num b := ss_adj s pid (sem_num b) - sem_op b)) else ss_adj s)\<rparr>"
  have "sem_ok ?s" if "0 \<le> ?v" "?v \<le> SEMVMX" using Cons.prems(2) that set_update_subset_insert [of "ss_val s" "sem_num b" ?v] by (auto simp: sem_ok_def)
  then show ?case using Cons.prems Cons.IH [of s] Cons.IH [of ?s] by (auto simp: Let_def not_less split: if_splits)
qed simp

lemma sem_exit_ok: "sem_ok (sem_exit pid s)"
  by (auto simp: sem_ok_def sem_exit_def SEMVMX_def)

subsection \<open>binary\_sems.c\<close>

definition initSemAvailable :: "nat \<Rightarrow> semset \<Rightarrow> (int + semset)" where
  "initSemAvailable semNum s = setval semNum 1 s"

definition initSemInUse :: "nat \<Rightarrow> semset \<Rightarrow> (int + semset)" where
  "initSemInUse semNum s = setval semNum 0 s"

text \<open>One attempt of \<^verbatim>\<open>reserveSem\<close>; \<open>intr\<close> says that a signal handler interrupts it. While it waits the loop goes round.\<close>

definition reserveSem :: "bool \<Rightarrow> bool \<Rightarrow> bool \<Rightarrow> nat \<Rightarrow> nat \<Rightarrow> semset \<Rightarrow> semset semres" where
  "reserveSem bsUseSemUndo bsRetryOnEintr intr pid semNum s =
     (if intr then (if bsRetryOnEintr then Waits else SemErr EINTR)
      else semop pid [\<lparr>sem_num = semNum, sem_op = -1, sem_undo = bsUseSemUndo, sem_nowait = False\<rparr>] s)"

definition releaseSem :: "bool \<Rightarrow> nat \<Rightarrow> nat \<Rightarrow> semset \<Rightarrow> semset semres" where
  "releaseSem bsUseSemUndo pid semNum s = semop pid [\<lparr>sem_num = semNum, sem_op = 1, sem_undo = bsUseSemUndo, sem_nowait = False\<rparr>] s"

subsection \<open>event\_flags.c\<close>

definition waitForEventFlag :: "bool \<Rightarrow> nat \<Rightarrow> nat \<Rightarrow> semset \<Rightarrow> semset semres" where
  "waitForEventFlag intr pid semNum s = (if intr then Waits else semop pid [\<lparr>sem_num = semNum, sem_op = 0, sem_undo = False, sem_nowait = False\<rparr>] s)"

definition clearEventFlag :: "nat \<Rightarrow> semset \<Rightarrow> (int + semset)" where
  "clearEventFlag semNum s = setval semNum 1 s"

definition setEventFlag :: "nat \<Rightarrow> semset \<Rightarrow> (int + semset)" where
  "setEventFlag semNum s = setval semNum 0 s"

definition getFlagState :: "nat \<Rightarrow> semset \<Rightarrow> (int + bool)" where
  "getFlagState semNum s = (case getval semNum s of Inl e \<Rightarrow> Inl e | Inr v \<Rightarrow> Inr (v = 0))"

subsection \<open>svsem\_op.c\<close>

definition MAX_SEMOPS :: nat where "MAX_SEMOPS = 1000"

definition is_digit :: "char \<Rightarrow> bool" where
  "is_digit c \<longleftrightarrow> 48 \<le> (of_char c :: nat) \<and> (of_char c :: nat) \<le> 57"

text \<open>The flags behind an operation, and the text behind them.\<close>

fun parse_flags :: "string \<Rightarrow> bool \<times> bool \<Rightarrow> (bool \<times> bool) \<times> string" where
  "parse_flags (c # cs) (u, n) =
     (if c = CHR ''n'' then parse_flags cs (u, True) else if c = CHR ''u'' then parse_flags cs (True, n) else ((u, n), c # cs))"
| "parse_flags [] f = (f, [])"

text \<open>The members of \<^verbatim>\<open>struct sembuf\<close> are 16 bits wide; numbers are cut to them.\<close>

definition to_ushort :: "int \<Rightarrow> nat" where "to_ushort v = nat (v mod 65536)"
definition to_short :: "int \<Rightarrow> int" where "to_short v = signed_take_bit 15 v"

definition head_ok :: "(char \<Rightarrow> bool) \<Rightarrow> string \<Rightarrow> bool" where
  "head_ok P s \<longleftrightarrow> (case s of [] \<Rightarrow> False | c # _ \<Rightarrow> P c)"

definition parse_one :: "string \<Rightarrow> sembuf option" where
  "parse_one remaining =
     (if \<not> head_ok is_digit remaining then None
      else let (v, sign, _) = strtoll_c 10 remaining in
        case sign of
          [] \<Rightarrow> None
        | sg # after \<Rightarrow>
            if sg \<notin> {CHR ''+'', CHR ''-'', CHR ''=''} then None
            else if \<not> head_ok is_digit after then None
            else let (w, flags, _) = strtoll_c 10 after; amount = to_short w; value = (if sg = CHR ''-'' then to_short (- amount) else amount);
                 ((u, n), rest) = parse_flags flags (False, False) in
              if sg = CHR ''='' \<and> value \<noteq> 0 then None
              else if rest \<noteq> [] \<and> hd rest \<noteq> CHR '','' then None
              else Some \<lparr>sem_num = to_ushort v, sem_op = value, sem_undo = u, sem_nowait = n\<rparr>)"

text \<open>The loop goes on behind the first comma. An argument with too many operations, or a bad one, ends the program.\<close>

function parseOps_loop :: "nat \<Rightarrow> string \<Rightarrow> sembuf list outcome" where
  "parseOps_loop numOps remaining =
     (if MAX_SEMOPS \<le> numOps then Exits 1
      else case parse_one remaining of
        None \<Rightarrow> Exits 1
      | Some b \<Rightarrow>
          if CHR '','' \<in> set remaining then
            (case parseOps_loop (Suc numOps) (tl (dropWhile (\<lambda>c. c \<noteq> CHR '','') remaining)) of Done bs \<Rightarrow> Done (b # bs) | r \<Rightarrow> r)
          else Done [b])"
  by pat_completeness auto
termination
  by (relation "measure (\<lambda>(n, r). MAX_SEMOPS - n)") auto

declare parseOps_loop.simps [simp del]

definition parseOps :: "string \<Rightarrow> sembuf list outcome" where
  "parseOps arg = parseOps_loop 0 arg"

text \<open>
  The program on the set with the number \<open>semid\<close>: each argument is one call. A call that waits stops the program there; what it prints is left out.
\<close>

fun svsem_loop :: "nat \<Rightarrow> int \<Rightarrow> string \<Rightarrow> string list \<Rightarrow> semset \<Rightarrow> semset outcome" where
  "svsem_loop pid semid idarg [] s = Done s"
| "svsem_loop pid semid idarg (a # as) s = (case parseOps a of
      Done bs \<Rightarrow> (case getInt (Some idarg) 0 of
          Done k \<Rightarrow> (case (if k = semid then semop pid bs s else SemErr EINVAL) of
              Performed s1 \<Rightarrow> svsem_loop pid semid idarg as s1 | Waits \<Rightarrow> Diverges | SemErr e \<Rightarrow> Exits 1)
        | Exits n \<Rightarrow> Exits n
        | Diverges \<Rightarrow> Diverges)
    | Exits n \<Rightarrow> Exits n
    | Diverges \<Rightarrow> Diverges)"

definition svsem_main :: "nat \<Rightarrow> int \<Rightarrow> string list \<Rightarrow> semset \<Rightarrow> semset outcome" where
  "svsem_main pid semid args s = (case args of [] \<Rightarrow> Exits 1 | a # as \<Rightarrow> if a = ''--help'' then Exits 1 else svsem_loop pid semid a as s)"

subsection \<open>What an argument means\<close>

text \<open>An operation: the semaphore, the amount, the two flags; its text, and the structure that the program makes of it.\<close>

type_synonym semspec = "nat \<times> int \<times> bool \<times> bool"

definition op_text :: "semspec \<Rightarrow> string" where
  "op_text = (\<lambda>(k, v, u, n). show_dec (int k) @ (if v = 0 then ''='' else if v < 0 then ''-'' else ''+'') @ show_dec \<bar>v\<bar> @ (if u then ''u'' else []) @ (if n then ''n'' else []))"

definition op_sembuf :: "semspec \<Rightarrow> sembuf" where
  "op_sembuf = (\<lambda>(k, v, u, n). \<lparr>sem_num = k mod 65536, sem_op = to_short v, sem_undo = u, sem_nowait = n\<rparr>)"

fun ops_text :: "semspec list \<Rightarrow> string" where
  "ops_text [] = []"
| "ops_text [x] = op_text x"
| "ops_text (x # y # xs) = op_text x @ CHR '','' # ops_text (y # xs)"

definition op_small :: "semspec \<Rightarrow> bool" where
  "op_small = (\<lambda>(k, v, u, n). int k \<le> LLONG_MAX \<and> \<bar>v\<bar> \<le> LLONG_MAX)"

lemma show_dec_digits: "0 \<le> v \<Longrightarrow> c \<in> set (show_dec v) \<Longrightarrow> is_digit c"
proof -
  assume "0 \<le> v" "c \<in> set (show_dec v)"
  then obtain d where "c = digit_char d" "d < 10" using nat_digits_lt [of 10 _ "nat v"] by (auto simp: show_dec_def show_nat_def)
  then show ?thesis by (simp add: digit_char_def is_digit_def of_char_of take_bit_eq_mod)
qed

lemma head_ok_show: "0 \<le> v \<Longrightarrow> head_ok is_digit (show_dec v @ s)"
proof -
  assume v: "0 \<le> v"
  obtain c cs where c: "show_dec v = c # cs" using v by (cases "show_dec v") (auto simp: show_dec_def)
  then have "is_digit c" using show_dec_digits [OF v, of c] by simp
  then show ?thesis using c by (simp add: head_ok_def)
qed

lemma strtoll_number:
  assumes "0 \<le> v" and "v \<le> LLONG_MAX" and "s = [] \<or> \<not> digit_val (hd s) < 10"
  shows "strtoll_c 10 (show_dec v @ s) = (v, s, False)"
proof (cases s)
  case Nil
  have "strtoll_c 10 (show_dec v) = (v, [], False)" by (rule strtoll_c_show_dec) (use assms in \<open>simp_all add: c_limits\<close>)
  then show ?thesis using Nil by simp
next
  case (Cons c cs)
  then show ?thesis using strtoll_c_show_dec_rest assms by simp
qed

lemma to_short_minus: "to_short (- to_short a) = to_short (- a)"
proof -
  have "signed_take_bit 15 (- signed_take_bit 15 a) = signed_take_bit 15 (- a)" by (metis signed_take_bit_minus)
  then show ?thesis by (simp add: to_short_def)
qed

lemma parse_one_text:
  assumes "op_small x" and "rest = [] \<or> hd rest = CHR '',''"
  shows "parse_one (op_text x @ rest) = Some (op_sembuf x)"
proof -
  obtain k v u n where x: "x = (k, v, u, n)" by (cases x)
  let ?sg = "if v = 0 then CHR ''='' else if v < 0 then CHR ''-'' else CHR ''+''"
  let ?fl = "(if u then ''u'' else []) @ (if n then ''n'' else [])"
  have small: "int k \<le> LLONG_MAX" "\<bar>v\<bar> \<le> LLONG_MAX" using assms(1) x by (simp_all add: op_small_def)
  have t: "op_text x @ rest = show_dec (int k) @ ?sg # (show_dec \<bar>v\<bar> @ ?fl @ rest)" using x by (simp add: op_text_def)
  have s1: "strtoll_c 10 (show_dec (int k) @ ?sg # (show_dec \<bar>v\<bar> @ ?fl @ rest)) = (int k, ?sg # (show_dec \<bar>v\<bar> @ ?fl @ rest), False)"
    by (rule strtoll_number) (use small in \<open>simp_all add: digit_val_def\<close>)
  have s2: "strtoll_c 10 (show_dec \<bar>v\<bar> @ ?fl @ rest) = (\<bar>v\<bar>, ?fl @ rest, False)"
    by (rule strtoll_number) (use small assms(2) in \<open>auto simp: digit_val_def\<close>)
  have fl: "parse_flags (?fl @ rest) (False, False) = ((u, n), rest)" using assms(2) by (cases rest) auto
  have "to_short (if ?sg = CHR ''-'' then - to_short \<bar>v\<bar> else \<bar>v\<bar>) = to_short v" using to_short_minus [of "\<bar>v\<bar>"] by auto
  then have val: "(if ?sg = CHR ''-'' then to_short (- to_short \<bar>v\<bar>) else to_short \<bar>v\<bar>) = to_short v" by (auto split: if_splits)
  have "to_short 0 = 0" by (simp add: to_short_def)
  moreover have "head_ok is_digit (show_dec (int k) @ ?sg # (show_dec \<bar>v\<bar> @ ?fl @ rest))" "head_ok is_digit (show_dec \<bar>v\<bar> @ ?fl @ rest)" by (rule head_ok_show; simp)+
  moreover have "to_ushort (int k) = k mod 65536" by (simp add: to_ushort_def nat_mod_distrib)
  ultimately show ?thesis
    unfolding t parse_one_def s1 Let_def prod.case list.case s2 fl val using assms(2) x by (auto simp: op_sembuf_def)
qed

lemma op_text_no_comma: "CHR '','' \<notin> set (op_text x)"
proof -
  have "CHR '','' \<notin> set (show_dec v)" if "0 \<le> v" for v using show_dec_digits [OF that, of "CHR '',''"] by (auto simp: is_digit_def)
  then show ?thesis by (cases x) (auto simp: op_text_def)
qed

lemma parseOps_loop_text:
  assumes "xs \<noteq> []" and "numOps + length xs \<le> MAX_SEMOPS" and "\<forall>x\<in>set xs. op_small x"
  shows "parseOps_loop numOps (ops_text xs) = Done (map op_sembuf xs)"
  using assms
proof (induction xs arbitrary: numOps rule: ops_text.induct)
  case (2 x)
  then have "parse_one (op_text x) = Some (op_sembuf x)" using parse_one_text [of x "[]"] by simp
  then show ?case using 2 op_text_no_comma [of x] by (subst parseOps_loop.simps) simp
next
  case (3 x y xs)
  let ?r = "CHR '','' # ops_text (y # xs)"
  have p: "parse_one (op_text x @ ?r) = Some (op_sembuf x)" by (rule parse_one_text) (use 3 in simp_all)
  have "\<And>c. c \<in> set (op_text x) \<Longrightarrow> c \<noteq> CHR '',''" using op_text_no_comma [of x] by auto
  then have dr: "tl (dropWhile (\<lambda>c. c \<noteq> CHR '','') (op_text x @ ?r)) = ops_text (y # xs)" by (simp add: dropWhile_append2)
  have IH: "parseOps_loop (Suc numOps) (ops_text (y # xs)) = Done (map op_sembuf (y # xs))" by (rule 3(1)) (use 3 in simp_all)
  have lim: "\<not> MAX_SEMOPS \<le> numOps" using 3(3) by simp
  have whole: "ops_text (x # y # xs) = op_text x @ ?r" by simp
  show ?case unfolding whole by (subst parseOps_loop.simps) (simp only: lim p dr IH option.case outcome.case if_False list.map, simp)
qed simp

subsection \<open>The properties\<close>

text \<open>
  C38: \<^verbatim>\<open>parseOps\<close> reads what its usage describes: the text of up to 1000 operations gives exactly these operations, with the semaphore's number cut to 16 bits and the amount to a signed 16-bit number. So
  operations whose numbers fit come back unchanged, and nothing tells the user about those that do not.
\<close>

theorem parseOps_roundtrip:
  assumes "xs \<noteq> []" and "length xs \<le> MAX_SEMOPS" and "\<forall>x\<in>set xs. op_small x"
  shows "parseOps (ops_text xs) = Done (map op_sembuf xs) \<and>
    (k < 65536 \<and> -32768 \<le> v \<and> v \<le> 32767 \<longrightarrow> op_sembuf (k, v, u, n) = \<lparr>sem_num = k, sem_op = v, sem_undo = u, sem_nowait = n\<rparr>)"
proof -
  have "parseOps (ops_text xs) = Done (map op_sembuf xs)" using parseOps_loop_text [of xs 0] assms by (simp add: parseOps_def)
  moreover have "to_short v = v" if "-32768 \<le> v" "v \<le> 32767" using that by (simp add: to_short_def signed_take_bit_int_eq_self)
  ultimately show ?thesis by (simp add: op_sembuf_def)
qed

theorem parseOps_roundtrip_witness:
  "parseOps (ops_text [(0, 1, False, False), (1, -2, True, True), (65536, 65537, False, False), (2, 0, False, True)]) =
    Done [\<lparr>sem_num = 0, sem_op = 1, sem_undo = False, sem_nowait = False\<rparr>, \<lparr>sem_num = 1, sem_op = -2, sem_undo = True, sem_nowait = True\<rparr>,
      \<lparr>sem_num = 0, sem_op = 1, sem_undo = False, sem_nowait = False\<rparr>, \<lparr>sem_num = 2, sem_op = 0, sem_undo = False, sem_nowait = True\<rparr>]"
proof -
  let ?xs = "[(0, 1, False, False), (1, -2, True, True), (65536, 65537, False, False), (2, 0, False, True)] :: semspec list"
  have "parseOps (ops_text ?xs) = Done (map op_sembuf ?xs)"
    using parseOps_roundtrip [of ?xs 0 0 False False] by (simp add: MAX_SEMOPS_def op_small_def c_limits del: ops_text.simps)
  moreover have "to_short 1 = 1" "to_short (- 2) = - 2" "to_short 65537 = 1" "to_short 0 = 0" by (simp_all add: to_short_def signed_take_bit_eq_take_bit_minus)
  ultimately show ?thesis by (simp add: op_sembuf_def del: ops_text.simps)
qed

end
