(* ===== verification/Shm_Transfer.thy ===== *)
theory Shm_Transfer
  imports Sysv_Sem
begin

section \<open>Transfer through shared memory (tlpi/svshm/svshm\_xfr\_writer.c, svshm\_xfr\_reader.c)\<close>

text \<open>
  A writer copies its input, block by block, into a segment of shared memory, and a reader copies the blocks to its output. Two binary semaphores say whose turn it is. Every access to shared state is a step; the two
  processes take their steps in any order. A read of the input delivers any number of bytes that it may; reads and writes may fail, which ends the process. What a process does with the
  shared count and the buffer between two calls on the semaphores is one or two steps: the read that fills the buffer and stores the count, the test of the count, the write.
\<close>

subsection \<open>State\<close>

definition WRITE_SEM :: nat where "WRITE_SEM = 0"
definition READ_SEM :: nat where "READ_SEM = 1"
definition XFR_BUF_SIZE :: nat where "XFR_BUF_SIZE = 1024"

lemmas xfr_consts = WRITE_SEM_def READ_SEM_def XFR_BUF_SIZE_def

datatype xfr_wpc = WReserve | WRead | WRelease | WTest | WFinal | WCleanup | WExit nat
datatype xfr_rpc = RReserve | RTest | RWrite | RRelease | RFinish | RExit nat

record xfr =
  x_sems :: "semset option"
  x_seg :: bool
  x_cnt :: int
  x_buf :: string
  x_in :: string
  x_out :: string
  w_pc :: xfr_wpc
  w_bytes :: int
  w_xfrs :: int
  r_pc :: xfr_rpc
  r_bytes :: int
  r_xfrs :: int

text \<open>The writer's initialisation of the set, which may exist already.\<close>

definition writer_init :: "semset \<Rightarrow> semset option" where
  "writer_init s = (case initSemAvailable WRITE_SEM s of Inl e \<Rightarrow> None | Inr s1 \<Rightarrow> (case initSemInUse READ_SEM s1 of Inl e \<Rightarrow> None | Inr s2 \<Rightarrow> Some s2))"

definition xfr_start :: "semset option \<Rightarrow> int \<Rightarrow> string \<Rightarrow> string \<Rightarrow> xfr" where
  "xfr_start sems c b inp = \<lparr>x_sems = sems, x_seg = True, x_cnt = c, x_buf = b, x_in = inp, x_out = [], w_pc = WReserve, w_bytes = 0, w_xfrs = 0, r_pc = RReserve, r_bytes = 0, r_xfrs = 0\<rparr>"

definition add_int :: "int \<Rightarrow> int \<Rightarrow> int cres" where
  "add_int a b = (if a + b < INT_MIN \<or> INT_MAX < a + b then Inl SignedOverflow else Inr (a + b))"

text \<open>A call on the semaphores: the process goes on, waits, or ends.\<close>

definition on_sems :: "(semset \<Rightarrow> semset semres) \<Rightarrow> (xfr \<Rightarrow> xfr) \<Rightarrow> (xfr \<Rightarrow> xfr) \<Rightarrow> xfr \<Rightarrow> xfr option" where
  "on_sems f next quit x = (case x_sems x of
      None \<Rightarrow> Some (quit x)
    | Some s \<Rightarrow> (case f s of Performed s1 \<Rightarrow> Some (next (x\<lparr>x_sems := Some s1\<rparr>)) | Waits \<Rightarrow> None | SemErr e \<Rightarrow> Some (quit x)))"

subsection \<open>The writer\<close>

text \<open>\<open>k\<close> is the number of bytes that \<^verbatim>\<open>read\<close> would like to deliver, \<open>fails\<close> says that it fails, \<open>intr\<close> that a signal handler runs.\<close>

definition writer_step :: "bool \<Rightarrow> nat \<Rightarrow> bool \<Rightarrow> xfr \<Rightarrow> xfr option cres" where
  "writer_step intr k fails x = (case w_pc x of
      WReserve \<Rightarrow> Inr (on_sems (reserveSem False True intr 0 WRITE_SEM) (\<lambda>y. y\<lparr>w_pc := WRead\<rparr>) (\<lambda>y. y\<lparr>w_pc := WExit 1\<rparr>) x)
    | WRead \<Rightarrow>
        if fails then Inr (Some (x\<lparr>x_cnt := -1, w_pc := WExit 1\<rparr>))
        else let b = take (min XFR_BUF_SIZE (max 1 k)) (x_in x) in
          Inr (Some (x\<lparr>x_cnt := int (length b), x_buf := b @ drop (length b) (x_buf x), x_in := drop (length b) (x_in x), w_pc := WRelease\<rparr>))
    | WRelease \<Rightarrow> Inr (on_sems (releaseSem False 0 READ_SEM) (\<lambda>y. y\<lparr>w_pc := WTest\<rparr>) (\<lambda>y. y\<lparr>w_pc := WExit 1\<rparr>) x)
    | WTest \<Rightarrow>
        if x_cnt x = 0 then Inr (Some (x\<lparr>w_pc := WFinal\<rparr>))
        else bind_c (add_int (w_xfrs x) 1) (\<lambda>n. bind_c (add_int (w_bytes x) (x_cnt x)) (\<lambda>b. Inr (Some (x\<lparr>w_xfrs := n, w_bytes := b, w_pc := WReserve\<rparr>))))
    | WFinal \<Rightarrow> Inr (on_sems (reserveSem False True intr 0 WRITE_SEM) (\<lambda>y. y\<lparr>w_pc := WCleanup\<rparr>) (\<lambda>y. y\<lparr>w_pc := WExit 1\<rparr>) x)
    | WCleanup \<Rightarrow> Inr (Some (if x_sems x = None then x\<lparr>w_pc := WExit 1\<rparr> else if \<not> x_seg x then x\<lparr>x_sems := None, w_pc := WExit 1\<rparr> else x\<lparr>x_sems := None, x_seg := False, w_pc := WExit 0\<rparr>))
    | WExit n \<Rightarrow> Inr None)"

subsection \<open>The reader\<close>

text \<open>A write that fails has written \<open>j\<close> bytes or fewer, not the whole block.\<close>

definition reader_step :: "bool \<Rightarrow> nat \<Rightarrow> bool \<Rightarrow> xfr \<Rightarrow> xfr option cres" where
  "reader_step intr j fails x = (case r_pc x of
      RReserve \<Rightarrow> Inr (on_sems (reserveSem False True intr 1 READ_SEM) (\<lambda>y. y\<lparr>r_pc := RTest\<rparr>) (\<lambda>y. y\<lparr>r_pc := RExit 1\<rparr>) x)
    | RTest \<Rightarrow>
        if x_cnt x = 0 then Inr (Some (x\<lparr>r_pc := RFinish\<rparr>))
        else bind_c (add_int (r_bytes x) (x_cnt x)) (\<lambda>b. Inr (Some (x\<lparr>r_bytes := b, r_pc := RWrite\<rparr>)))
    | RWrite \<Rightarrow>
        if x_cnt x < 0 \<or> int (length (x_buf x)) < x_cnt x then Inl OutOfBounds
        else if fails then Inr (Some (x\<lparr>x_out := x_out x @ take (min j (nat (x_cnt x - 1))) (x_buf x), r_pc := RExit 1\<rparr>))
        else Inr (Some (x\<lparr>x_out := x_out x @ take (nat (x_cnt x)) (x_buf x), r_pc := RRelease\<rparr>))
    | RRelease \<Rightarrow> bind_c (add_int (r_xfrs x) 1) (\<lambda>n. Inr (on_sems (releaseSem False 1 WRITE_SEM) (\<lambda>y. y\<lparr>r_xfrs := n, r_pc := RReserve\<rparr>) (\<lambda>y. y\<lparr>r_pc := RExit 1\<rparr>) x))
    | RFinish \<Rightarrow> Inr (on_sems (releaseSem False 1 WRITE_SEM) (\<lambda>y. y\<lparr>r_pc := RExit 0\<rparr>) (\<lambda>y. y\<lparr>r_pc := RExit 1\<rparr>) x)
    | RExit n \<Rightarrow> Inr None)"

text \<open>The two processes side by side. \<open>ok\<close> says that no read or write fails.\<close>

inductive xfr_step :: "bool \<Rightarrow> xfr \<Rightarrow> xfr \<Rightarrow> bool" for ok where
  writer: "writer_step intr k fails x = Inr (Some y) \<Longrightarrow> (ok \<longrightarrow> \<not> fails) \<Longrightarrow> xfr_step ok x y"
| reader: "reader_step intr j fails x = Inr (Some y) \<Longrightarrow> (ok \<longrightarrow> \<not> fails) \<Longrightarrow> xfr_step ok x y"

definition xfr_fault :: "xfr \<Rightarrow> bool" where
  "xfr_fault x \<longleftrightarrow> (\<exists>intr k fails e. writer_step intr k fails x = Inl e \<or> reader_step intr k fails x = Inl e)"

subsection \<open>Whose turn it is\<close>

datatype turn = SemW | TurnW | SemR | TurnR

definition w_holds :: "xfr_wpc \<Rightarrow> bool" where
  "w_holds p \<longleftrightarrow> p \<in> {WRead, WRelease, WCleanup, WExit 1}"

definition r_holds :: "xfr_rpc \<Rightarrow> bool" where
  "r_holds p \<longleftrightarrow> p \<in> {RTest, RWrite, RRelease, RFinish, RExit 1}"

definition vals_of :: "turn \<Rightarrow> int list" where
  "vals_of t = (case t of SemW \<Rightarrow> [1, 0] | SemR \<Rightarrow> [0, 1] | _ \<Rightarrow> [0, 0])"

definition sems_ok :: "turn \<Rightarrow> xfr \<Rightarrow> bool" where
  "sems_ok t x \<longleftrightarrow> (case x_sems x of None \<Rightarrow> w_pc x = WExit 0 \<and> t = TurnW \<and> \<not> x_seg x | Some s \<Rightarrow> w_pc x \<noteq> WExit 0 \<and> x_seg x \<and> ss_val s = vals_of t) \<and>
     (w_holds (w_pc x) \<or> w_pc x = WExit 0 \<longleftrightarrow> t = TurnW) \<and> (r_holds (r_pc x) \<longleftrightarrow> t = TurnR)"

lemma reserve_val:
  "ss_val s = [a, b] \<Longrightarrow> reserveSem False True False p 0 s = (if a - 1 < 0 then Waits else if SEMVMX < a - 1 then SemErr ERANGE else Performed (s\<lparr>ss_val := [a - 1, b]\<rparr>))"
  "ss_val s = [a, b] \<Longrightarrow> reserveSem False True False p (Suc 0) s = (if b - 1 < 0 then Waits else if SEMVMX < b - 1 then SemErr ERANGE else Performed (s\<lparr>ss_val := [a, b - 1]\<rparr>))"
  by (simp_all add: reserveSem_def semop_def SEMOPM_def Let_def)

lemma release_val:
  "ss_val s = [a, b] \<Longrightarrow> releaseSem False p 0 s = (if a + 1 < 0 then Waits else if SEMVMX < a + 1 then SemErr ERANGE else Performed (s\<lparr>ss_val := [a + 1, b]\<rparr>))"
  "ss_val s = [a, b] \<Longrightarrow> releaseSem False p (Suc 0) s = (if b + 1 < 0 then Waits else if SEMVMX < b + 1 then SemErr ERANGE else Performed (s\<lparr>ss_val := [a, b + 1]\<rparr>))"
  by (simp_all add: releaseSem_def semop_def SEMOPM_def Let_def)

lemma reserve_intr: "reserveSem False True True p n s = Waits"
  by (simp add: reserveSem_def)

subsection \<open>The invariant\<close>

text \<open>A block is in the buffer that has not been written out.\<close>

definition has_block :: "turn \<Rightarrow> xfr \<Rightarrow> bool" where
  "has_block t x \<longleftrightarrow> w_pc x = WRelease \<or> t = SemR \<or> r_pc x \<in> {RTest, RWrite, RExit 1}"

definition counted :: "xfr \<Rightarrow> bool" where
  "counted x \<longleftrightarrow> w_pc x \<in> {WRelease, WTest}"

definition xfr_data_ok :: "string \<Rightarrow> turn \<Rightarrow> xfr \<Rightarrow> bool" where
  "xfr_data_ok inp t x \<longleftrightarrow> (if r_pc x = RExit 1 then \<exists>d. d \<noteq> [] \<and> inp = x_out x @ d @ x_in x else inp = x_out x @ (if has_block t x then take (nat (x_cnt x)) (x_buf x) else []) @ x_in x) \<and> length (x_buf x) = XFR_BUF_SIZE \<and>
     (has_block t x \<or> w_pc x = WTest \<or> r_pc x = RRelease \<longrightarrow> 0 \<le> x_cnt x \<and> x_cnt x \<le> int XFR_BUF_SIZE)"

definition phase_ok :: "turn \<Rightarrow> xfr \<Rightarrow> bool" where
  "phase_ok t x \<longleftrightarrow>
     (w_pc x = WReserve \<and> t \<in> {SemR, TurnR} \<longrightarrow> 0 < x_cnt x) \<and> (r_pc x \<in> {RWrite, RRelease, RExit 1} \<longrightarrow> 0 < x_cnt x) \<and>
     (w_pc x \<in> {WRelease, WTest} \<and> x_cnt x = 0 \<longrightarrow> x_in x = []) \<and> (w_pc x \<in> {WFinal, WCleanup, WExit 0} \<longrightarrow> x_cnt x = 0 \<and> x_in x = []) \<and>
     (r_pc x \<in> {RFinish, RExit 0} \<longrightarrow> x_cnt x = 0 \<and> x_in x = [] \<and> w_pc x \<in> {WTest, WFinal, WCleanup, WExit 0}) \<and>
     (w_pc x \<in> {WTest, WFinal} \<and> t = SemW \<and> x_cnt x = 0 \<longrightarrow> r_pc x = RExit 0) \<and> (w_pc x \<in> {WCleanup, WExit 0} \<longrightarrow> r_pc x = RExit 0) \<and>
     (r_pc x = RExit 0 \<longrightarrow> t \<in> {SemW, TurnW}) \<and> (\<forall>n. w_pc x = WExit n \<longrightarrow> n \<le> 1) \<and> (\<forall>n. r_pc x = RExit n \<longrightarrow> n \<le> 1)"

definition counts_ok :: "string \<Rightarrow> turn \<Rightarrow> xfr \<Rightarrow> bool" where
  "counts_ok inp t x \<longleftrightarrow> w_bytes x = int (length inp) - int (length (x_in x)) - (if counted x then x_cnt x else 0) \<and>
     (r_pc x \<noteq> RExit 1 \<longrightarrow> r_bytes x = int (length (x_out x)) + (if r_pc x = RWrite then x_cnt x else 0)) \<and>
     w_xfrs x + (if counted x \<and> x_cnt x \<noteq> 0 then 1 else 0) = r_xfrs x + (if x_cnt x \<noteq> 0 \<and> (has_block t x \<or> r_pc x = RRelease) then 1 else 0) \<and>
     0 \<le> r_xfrs x \<and> r_xfrs x + (if r_pc x = RRelease then 1 else 0) \<le> int (length (x_out x)) \<and> 0 \<le> w_xfrs x"

definition turn_inv :: "string \<Rightarrow> turn \<Rightarrow> xfr \<Rightarrow> bool" where
  "turn_inv inp t x \<longleftrightarrow> sems_ok t x \<and> xfr_data_ok inp t x \<and> phase_ok t x \<and> counts_ok inp t x"

lemmas xfr_defs = turn_inv_def sems_ok_def xfr_data_ok_def phase_ok_def counts_ok_def has_block_def counted_def w_holds_def r_holds_def vals_of_def

lemma start_inv:
  assumes "length (ss_val s) = 2" "writer_init s = Some s1" "length b = XFR_BUF_SIZE"
  shows "turn_inv inp SemW (xfr_start (Some s1) c b inp)"
proof -
  obtain u v where "ss_val s = [u, v]" using assms(1) by (auto simp: numeral_eq_Suc length_Suc_conv)
  then have "ss_val s1 = [1, 0]" using assms(2) by (auto simp: writer_init_def initSemAvailable_def initSemInUse_def setval_def xfr_consts SEMVMX_def)
  then show ?thesis using assms(3) by (simp add: xfr_defs xfr_start_def)
qed

lemma take_turn:
  assumes "x_sems x = Some s" "ss_val s = vals_of t"
  shows "on_sems (reserveSem False True intr p WRITE_SEM) nx q x = (if intr \<or> t \<noteq> SemW then None else Some (nx (x\<lparr>x_sems := Some (s\<lparr>ss_val := [0, 0]\<rparr>)\<rparr>)))"
    and "on_sems (reserveSem False True intr p READ_SEM) nx q x = (if intr \<or> t \<noteq> SemR then None else Some (nx (x\<lparr>x_sems := Some (s\<lparr>ss_val := [0, 0]\<rparr>)\<rparr>)))"
  using assms by (cases intr; cases t; simp add: on_sems_def vals_of_def xfr_consts reserve_val reserve_intr SEMVMX_def)+

lemma give_turn:
  assumes "x_sems x = Some s" "ss_val s = vals_of t" "t = TurnW \<or> t = TurnR"
  shows "on_sems (releaseSem False p WRITE_SEM) nx q x = Some (nx (x\<lparr>x_sems := Some (s\<lparr>ss_val := [1, 0]\<rparr>)\<rparr>))"
    and "on_sems (releaseSem False p READ_SEM) nx q x = Some (nx (x\<lparr>x_sems := Some (s\<lparr>ss_val := [0, 1]\<rparr>)\<rparr>))"
  using assms by (auto simp: on_sems_def vals_of_def xfr_consts release_val SEMVMX_def)

lemma turn_sems:
  assumes "turn_inv inp t x" "w_pc x \<noteq> WExit 0"
  obtains s where "x_sems x = Some s" "ss_val s = vals_of t"
  using assms by (auto simp: xfr_defs split: option.splits)

lemma turn_holder:
  assumes "turn_inv inp t x"
  shows "w_pc x \<in> {WRead, WRelease, WCleanup} \<Longrightarrow> t = TurnW" and "r_pc x \<in> {RTest, RWrite, RRelease, RFinish} \<Longrightarrow> t = TurnR"
    and "w_pc x = WExit 0 \<Longrightarrow> r_pc x = RExit 0"
proof -
  have s: "w_holds (w_pc x) \<or> w_pc x = WExit 0 \<longleftrightarrow> t = TurnW" "r_holds (r_pc x) \<longleftrightarrow> t = TurnR" using assms unfolding turn_inv_def sems_ok_def by blast+
  show "t = TurnW" if "w_pc x \<in> {WRead, WRelease, WCleanup}" using s(1) that by (auto simp: w_holds_def)
  show "t = TurnR" if "r_pc x \<in> {RTest, RWrite, RRelease, RFinish}" using s(2) that by (auto simp: r_holds_def)
  show "r_pc x = RExit 0" if "w_pc x = WExit 0" using assms that unfolding turn_inv_def phase_ok_def by blast
qed

lemma turn_invI: "sems_ok t x \<Longrightarrow> xfr_data_ok inp t x \<Longrightarrow> phase_ok t x \<Longrightarrow> counts_ok inp t x \<Longrightarrow> \<exists>t. turn_inv inp t x"
  by (auto simp: turn_inv_def)

lemma turn_invD: "turn_inv inp t x \<Longrightarrow> sems_ok t x" "turn_inv inp t x \<Longrightarrow> xfr_data_ok inp t x" "turn_inv inp t x \<Longrightarrow> phase_ok t x" "turn_inv inp t x \<Longrightarrow> counts_ok inp t x"
  by (simp_all add: turn_inv_def)

lemmas hold_defs = sems_ok_def w_holds_def r_holds_def vals_of_def
lemmas block_defs = has_block_def counted_def

lemma writer_reserve_inv:
  assumes inv: "turn_inv inp t x" and pc: "w_pc x = WReserve" and st: "writer_step intr k fails x = Inr (Some y)"
  shows "\<exists>t. turn_inv inp t y"
proof -
  note i = turn_invD [OF inv]
  obtain s where s: "x_sems x = Some s" "ss_val s = vals_of t" using turn_sems [OF inv] pc by auto
  have y: "t = SemW" "y = x\<lparr>x_sems := Some (s\<lparr>ss_val := [0, 0]\<rparr>), w_pc := WRead\<rparr>" using st pc by (auto simp: writer_step_def take_turn [OF s] split: if_splits)
  show ?thesis
  proof (rule turn_invI [of TurnW])
    show "sems_ok TurnW y" using i(1) pc y(1) s unfolding y(2) by (simp add: hold_defs)
    show "xfr_data_ok inp TurnW y" using i(1,2) pc y(1) unfolding y(2) by (simp add: hold_defs xfr_data_ok_def block_defs)
    show "phase_ok TurnW y" using i(3) pc y(1) unfolding y(2) by (simp add: phase_ok_def)
    show "counts_ok inp TurnW y" using i(1,4) pc y(1) unfolding y(2) by (simp add: hold_defs counts_ok_def block_defs)
  qed
qed

lemma writer_read_inv:
  assumes inv: "turn_inv inp t x" and pc: "w_pc x = WRead" and st: "writer_step intr k fails x = Inr (Some y)"
  shows "\<exists>t. turn_inv inp t y"
proof -
  note i = turn_invD [OF inv]
  have t: "t = TurnW" using turn_holder(1) [OF inv] pc by simp
  have rp: "r_pc x = RReserve"
  proof -
    have "\<not> r_holds (r_pc x)" using inv t unfolding turn_inv_def sems_ok_def by blast
    moreover have "r_pc x \<noteq> RExit 0" "\<And>n. r_pc x = RExit n \<Longrightarrow> n \<le> 1" using inv pc by (auto simp: turn_inv_def phase_ok_def)
    ultimately show ?thesis by (cases "r_pc x") (auto simp: r_holds_def le_Suc_eq)
  qed
  show ?thesis
  proof (cases fails)
    case True
    then have y: "y = x\<lparr>x_cnt := -1, w_pc := WExit 1\<rparr>" using st pc by (simp add: writer_step_def)
    show ?thesis
    proof (rule turn_invI [of TurnW])
      show "sems_ok TurnW y" using i(1) pc t rp unfolding y by (simp add: hold_defs split: option.splits)
      show "xfr_data_ok inp TurnW y" using i(2) pc t rp unfolding y by (simp add: xfr_data_ok_def block_defs)
      show "phase_ok TurnW y" using i(3) pc t rp unfolding y by (simp add: phase_ok_def)
      show "counts_ok inp TurnW y" using i(4) pc t rp unfolding y by (simp add: counts_ok_def block_defs)
    qed
  next
    case False
    define b where "b = take (min XFR_BUF_SIZE (max 1 k)) (x_in x)"
    have b: "length b \<le> XFR_BUF_SIZE" "b = [] \<Longrightarrow> x_in x = []" by (auto simp: b_def XFR_BUF_SIZE_def)
    have b2: "b @ drop (length b) (x_in x) = x_in x" unfolding b_def by (metis append_eq_conv_conj append_take_drop_id)
    have y: "y = x\<lparr>x_cnt := int (length b), x_buf := b @ drop (length b) (x_buf x), x_in := drop (length b) (x_in x), w_pc := WRelease\<rparr>"
      using st pc False by (simp add: writer_step_def b_def Let_def)
    have len: "length b \<le> length (x_in x)" by (simp add: b_def)
    have old: "inp = x_out x @ x_in x" "length (x_buf x) = XFR_BUF_SIZE" using inv pc t rp by (simp_all add: turn_inv_def xfr_data_ok_def has_block_def)
    have "inp = x_out x @ b @ drop (length b) (x_in x)" unfolding b2 by (rule old(1))
    then have "xfr_data_ok inp TurnW y" using old(2) b(1) rp unfolding y by (simp add: xfr_data_ok_def has_block_def)
    moreover have "counts_ok inp t x" using inv unfolding turn_inv_def by blast
    then have "counts_ok inp TurnW y" using pc t len rp unfolding y counts_ok_def has_block_def counted_def by simp
    moreover have "sems_ok TurnW y" using inv pc t unfolding y by (simp add: turn_inv_def sems_ok_def w_holds_def r_holds_def split: option.splits)
    moreover have "phase_ok TurnW y" using b(2) rp unfolding y by (simp add: phase_ok_def)
    ultimately show ?thesis unfolding turn_inv_def by blast
  qed
qed

lemma writer_release_inv:
  assumes inv: "turn_inv inp t x" and pc: "w_pc x = WRelease" and st: "writer_step intr k fails x = Inr (Some y)"
  shows "\<exists>t. turn_inv inp t y"
proof -
  note i = turn_invD [OF inv]
  obtain s where s: "x_sems x = Some s" "ss_val s = vals_of t" using turn_sems [OF inv] pc by auto
  have t: "t = TurnW" using turn_holder(1) [OF inv] pc by simp
  have y: "y = x\<lparr>x_sems := Some (s\<lparr>ss_val := [0, 1]\<rparr>), w_pc := WTest\<rparr>" using st pc t by (simp add: writer_step_def give_turn [OF s])
  show ?thesis
  proof (rule turn_invI [of SemR])
    show "sems_ok SemR y" using i(1) pc t s unfolding y by (simp add: hold_defs)
    show "xfr_data_ok inp SemR y" using i(2) pc t unfolding y by (simp add: xfr_data_ok_def block_defs)
    show "phase_ok SemR y" using i(3) pc t unfolding y by (auto simp: phase_ok_def)
    show "counts_ok inp SemR y" using i(4) pc t unfolding y by (simp add: counts_ok_def block_defs)
  qed
qed

lemma writer_test_inv:
  assumes inv: "turn_inv inp t x" and pc: "w_pc x = WTest" and st: "writer_step intr k fails x = Inr (Some y)"
  shows "\<exists>t. turn_inv inp t y"
proof -
  note i = turn_invD [OF inv]
  show ?thesis
  proof (cases "x_cnt x = 0")
    case True
    then have y: "y = x\<lparr>w_pc := WFinal\<rparr>" using st pc by (simp add: writer_step_def)
    show ?thesis
    proof (rule turn_invI [of t])
      show "sems_ok t y" using i(1) pc unfolding y by (simp add: hold_defs split: option.splits)
      show "xfr_data_ok inp t y" using i(2) pc unfolding y by (simp add: xfr_data_ok_def block_defs)
      show "phase_ok t y" using i(3) pc True unfolding y by (simp add: phase_ok_def)
      show "counts_ok inp t y" using i(4) pc True unfolding y by (simp add: counts_ok_def block_defs)
    qed
  next
    case False
    then have y: "y = x\<lparr>w_xfrs := w_xfrs x + 1, w_bytes := w_bytes x + x_cnt x, w_pc := WReserve\<rparr>" using st pc by (auto simp: writer_step_def add_int_def split: if_splits)
    have cnt: "0 < x_cnt x" using i(2) pc False by (simp add: xfr_data_ok_def)
    show ?thesis
    proof (rule turn_invI [of t])
      show "sems_ok t y" using i(1) pc unfolding y by (simp add: hold_defs split: option.splits)
      show "xfr_data_ok inp t y" using i(2) pc unfolding y by (simp add: xfr_data_ok_def block_defs)
      show "phase_ok t y" using i(3) pc cnt unfolding y by (simp add: phase_ok_def)
      show "counts_ok inp t y" using i(4) pc cnt unfolding y by (simp add: counts_ok_def block_defs)
    qed
  qed
qed

lemma writer_final_inv:
  assumes inv: "turn_inv inp t x" and pc: "w_pc x = WFinal" and st: "writer_step intr k fails x = Inr (Some y)"
  shows "\<exists>t. turn_inv inp t y"
proof -
  note i = turn_invD [OF inv]
  obtain s where s: "x_sems x = Some s" "ss_val s = vals_of t" using turn_sems [OF inv] pc by auto
  have y: "t = SemW" "y = x\<lparr>x_sems := Some (s\<lparr>ss_val := [0, 0]\<rparr>), w_pc := WCleanup\<rparr>" using st pc by (auto simp: writer_step_def take_turn [OF s] split: if_splits)
  have rp: "r_pc x = RExit 0" using i(3) pc y(1) by (simp add: phase_ok_def)
  show ?thesis
  proof (rule turn_invI [of TurnW])
    show "sems_ok TurnW y" using i(1) pc y(1) s unfolding y(2) by (simp add: hold_defs)
    show "xfr_data_ok inp TurnW y" using i(2) pc y(1) unfolding y(2) by (simp add: xfr_data_ok_def block_defs)
    show "phase_ok TurnW y" using i(3) pc y(1) rp unfolding y(2) by (simp add: phase_ok_def)
    show "counts_ok inp TurnW y" using i(4) pc y(1) unfolding y(2) by (simp add: counts_ok_def block_defs)
  qed
qed

lemma writer_cleanup_inv:
  assumes inv: "turn_inv inp t x" and pc: "w_pc x = WCleanup" and st: "writer_step intr k fails x = Inr (Some y)"
  shows "\<exists>t. turn_inv inp t y"
proof -
  note i = turn_invD [OF inv]
  obtain s where s: "x_sems x = Some s" "ss_val s = vals_of t" using turn_sems [OF inv] pc by auto
  have "x_seg x" using i(1) s by (simp add: sems_ok_def)
  then have y: "y = x\<lparr>x_sems := None, x_seg := False, w_pc := WExit 0\<rparr>" using st pc s by (simp add: writer_step_def)
  have t: "t = TurnW" "r_pc x = RExit 0" using turn_holder(1) [OF inv] i(3) pc by (simp_all add: phase_ok_def)
  show ?thesis
  proof (rule turn_invI [of TurnW])
    show "sems_ok TurnW y" using t unfolding y by (simp add: hold_defs)
    show "xfr_data_ok inp TurnW y" using i(2) pc t unfolding y by (simp add: xfr_data_ok_def block_defs)
    show "phase_ok TurnW y" using i(3) pc t unfolding y by (simp add: phase_ok_def)
    show "counts_ok inp TurnW y" using i(4) pc t unfolding y by (simp add: counts_ok_def block_defs)
  qed
qed

lemma writer_inv: "turn_inv inp t x \<Longrightarrow> writer_step intr k fails x = Inr (Some y) \<Longrightarrow> \<exists>t. turn_inv inp t y"
  using writer_reserve_inv writer_read_inv writer_release_inv writer_test_inv writer_final_inv writer_cleanup_inv
  by (cases "w_pc x") (blast | simp add: writer_step_def)+


lemma reader_turn:
  assumes "turn_inv inp t x" "t = TurnR \<or> t = SemR"
  shows "w_pc x \<in> {WReserve, WTest, WFinal}"
proof -
  have "w_holds (w_pc x) \<or> w_pc x = WExit 0 \<longleftrightarrow> t = TurnW" "\<And>n. w_pc x = WExit n \<Longrightarrow> n \<le> 1" using assms(1) unfolding turn_inv_def sems_ok_def phase_ok_def by blast+
  then have "\<not> w_holds (w_pc x)" "w_pc x \<noteq> WExit 0" "\<And>n. w_pc x = WExit n \<Longrightarrow> n \<le> 1" using assms(2) by auto
  then show ?thesis by (cases "w_pc x") (auto simp: w_holds_def le_Suc_eq)
qed

lemma reader_reserve_inv:
  assumes inv: "turn_inv inp t x" and pc: "r_pc x = RReserve" and st: "reader_step intr j fails x = Inr (Some y)"
  shows "\<exists>t. turn_inv inp t y"
proof -
  note i = turn_invD [OF inv]
  have "w_pc x \<noteq> WExit 0" using turn_holder(3) [OF inv] pc by auto
  then obtain s where s: "x_sems x = Some s" "ss_val s = vals_of t" by (rule turn_sems [OF inv])
  have y: "t = SemR" "y = x\<lparr>x_sems := Some (s\<lparr>ss_val := [0, 0]\<rparr>), r_pc := RTest\<rparr>" using st pc by (auto simp: reader_step_def take_turn [OF s] split: if_splits)
  have w: "w_pc x \<in> {WReserve, WTest, WFinal}" using reader_turn [OF inv] y(1) by simp
  show ?thesis
  proof (rule turn_invI [of TurnR])
    show "sems_ok TurnR y" using i(1) pc y(1) s w unfolding y(2) by (auto simp: hold_defs)
    show "xfr_data_ok inp TurnR y" using i(2) pc y(1) w unfolding y(2) by (auto simp: xfr_data_ok_def block_defs)
    show "phase_ok TurnR y" using i(3) pc y(1) w unfolding y(2) by (auto simp: phase_ok_def)
    show "counts_ok inp TurnR y" using i(4) pc y(1) unfolding y(2) by (simp add: counts_ok_def block_defs)
  qed
qed

lemma reader_test_inv:
  assumes inv: "turn_inv inp t x" and pc: "r_pc x = RTest" and st: "reader_step intr j fails x = Inr (Some y)"
  shows "\<exists>t. turn_inv inp t y"
proof -
  note i = turn_invD [OF inv]
  have t: "t = TurnR" using turn_holder(2) [OF inv] pc by simp
  have w: "w_pc x \<in> {WReserve, WTest, WFinal}" using reader_turn [OF inv] t by simp
  show ?thesis
  proof (cases "x_cnt x = 0")
    case True
    then have y: "y = x\<lparr>r_pc := RFinish\<rparr>" using st pc by (simp add: reader_step_def)
    show ?thesis
    proof (rule turn_invI [of TurnR])
      show "sems_ok TurnR y" using i(1) pc t unfolding y by (simp add: hold_defs split: option.splits)
      show "xfr_data_ok inp TurnR y" using i(2) pc t True unfolding y by (simp add: xfr_data_ok_def block_defs)
      show "phase_ok TurnR y" using i(3) pc t w True unfolding y by (auto simp: phase_ok_def)
      show "counts_ok inp TurnR y" using i(4) pc t True unfolding y by (simp add: counts_ok_def block_defs)
    qed
  next
    case False
    then have y: "y = x\<lparr>r_bytes := r_bytes x + x_cnt x, r_pc := RWrite\<rparr>" using st pc by (auto simp: reader_step_def add_int_def split: if_splits)
    have cnt: "0 < x_cnt x" using i(2) pc t False by (simp add: xfr_data_ok_def has_block_def)
    show ?thesis
    proof (rule turn_invI [of TurnR])
      show "sems_ok TurnR y" using i(1) pc t unfolding y by (simp add: hold_defs split: option.splits)
      show "xfr_data_ok inp TurnR y" using i(2) pc t unfolding y by (simp add: xfr_data_ok_def block_defs)
      show "phase_ok TurnR y" using i(3) pc t cnt unfolding y by (simp add: phase_ok_def)
      show "counts_ok inp TurnR y" using i(4) pc t unfolding y by (simp add: counts_ok_def block_defs)
    qed
  qed
qed

lemma reader_write_inv:
  assumes inv: "turn_inv inp t x" and pc: "r_pc x = RWrite" and st: "reader_step intr j fails x = Inr (Some y)"
  shows "\<exists>t. turn_inv inp t y"
proof -
  note i = turn_invD [OF inv]
  have t: "t = TurnR" using turn_holder(2) [OF inv] pc by simp
  have cnt: "0 < x_cnt x" "x_cnt x \<le> int XFR_BUF_SIZE" using i(2,3) pc by (auto simp: xfr_data_ok_def has_block_def phase_ok_def)
  have len: "length (x_buf x) = XFR_BUF_SIZE" using i(2) by (simp add: xfr_data_ok_def)
  have old: "inp = x_out x @ take (nat (x_cnt x)) (x_buf x) @ x_in x" using i(2) pc by (simp add: xfr_data_ok_def has_block_def)
  show ?thesis
  proof (cases fails)
    case True
    define m where "m = min j (nat (x_cnt x - 1))"
    have m: "m < nat (x_cnt x)" using cnt by (auto simp: m_def)
    have y: "y = x\<lparr>x_out := x_out x @ take m (x_buf x), r_pc := RExit 1\<rparr>" using st pc True cnt len by (simp add: reader_step_def m_def)
    have "take (nat (x_cnt x)) (x_buf x) = take m (x_buf x) @ drop m (take (nat (x_cnt x)) (x_buf x))"
      using m append_take_drop_id [of m "take (nat (x_cnt x)) (x_buf x)"] by (simp add: min_absorb1)
    then have "inp = (x_out x @ take m (x_buf x)) @ drop m (take (nat (x_cnt x)) (x_buf x)) @ x_in x" using old by (metis append.assoc)
    moreover have "drop m (take (nat (x_cnt x)) (x_buf x)) \<noteq> []" using m cnt len by simp
    ultimately have split_out: "\<exists>d. d \<noteq> [] \<and> inp = (x_out x @ take m (x_buf x)) @ d @ x_in x" by blast
    show ?thesis
    proof (rule turn_invI [of TurnR])
      show "sems_ok TurnR y" using i(1) pc t unfolding y by (simp add: hold_defs split: option.splits)
      show "xfr_data_ok inp TurnR y" using split_out len cnt unfolding y by (simp add: xfr_data_ok_def)
      show "phase_ok TurnR y" using i(3) pc t cnt unfolding y by (simp add: phase_ok_def)
      show "counts_ok inp TurnR y" using i(4) pc t unfolding y by (simp add: counts_ok_def block_defs)
    qed
  next
    case False
    then have y: "y = x\<lparr>x_out := x_out x @ take (nat (x_cnt x)) (x_buf x), r_pc := RRelease\<rparr>" using st pc cnt len by (simp add: reader_step_def)
    have n: "int (length (take (nat (x_cnt x)) (x_buf x))) = x_cnt x" using cnt len by simp
    show ?thesis
    proof (rule turn_invI [of TurnR])
      show "sems_ok TurnR y" using i(1) pc t unfolding y by (simp add: hold_defs split: option.splits)
      show "xfr_data_ok inp TurnR y" using old len cnt reader_turn [OF inv] t unfolding y by (auto simp: xfr_data_ok_def block_defs)
      show "phase_ok TurnR y" using i(3) pc t cnt unfolding y by (simp add: phase_ok_def)
      show "counts_ok inp TurnR y" using i(4) pc t n cnt unfolding y by (simp add: counts_ok_def block_defs)
    qed
  qed
qed

lemma reader_release_inv:
  assumes inv: "turn_inv inp t x" and pc: "r_pc x = RRelease" and st: "reader_step intr j fails x = Inr (Some y)"
  shows "\<exists>t. turn_inv inp t y"
proof -
  note i = turn_invD [OF inv]
  have t: "t = TurnR" using turn_holder(2) [OF inv] pc by simp
  have w: "w_pc x \<in> {WReserve, WTest, WFinal}" using reader_turn [OF inv] t by simp
  have "w_pc x \<noteq> WExit 0" using w by auto
  then obtain s where s: "x_sems x = Some s" "ss_val s = vals_of t" by (rule turn_sems [OF inv])
  have y: "y = x\<lparr>x_sems := Some (s\<lparr>ss_val := [1, 0]\<rparr>), r_xfrs := r_xfrs x + 1, r_pc := RReserve\<rparr>"
    using st pc t by (auto simp: reader_step_def add_int_def give_turn [OF s] split: if_splits)
  have cnt: "0 < x_cnt x" using i(3) pc by (simp add: phase_ok_def)
  show ?thesis
  proof (rule turn_invI [of SemW])
    show "sems_ok SemW y" using i(1) pc t s w unfolding y by (auto simp: hold_defs)
    show "xfr_data_ok inp SemW y" using i(2) pc t w unfolding y by (auto simp: xfr_data_ok_def block_defs)
    show "phase_ok SemW y" using i(3) pc t w cnt unfolding y by (auto simp: phase_ok_def)
    show "counts_ok inp SemW y" using i(4) pc t w cnt unfolding y by (auto simp: counts_ok_def block_defs)
  qed
qed

lemma reader_finish_inv:
  assumes inv: "turn_inv inp t x" and pc: "r_pc x = RFinish" and st: "reader_step intr j fails x = Inr (Some y)"
  shows "\<exists>t. turn_inv inp t y"
proof -
  note i = turn_invD [OF inv]
  have t: "t = TurnR" using turn_holder(2) [OF inv] pc by simp
  have w: "w_pc x \<in> {WTest, WFinal}" using reader_turn [OF inv] t i(3) pc by (auto simp: phase_ok_def)
  have "w_pc x \<noteq> WExit 0" using w by auto
  then obtain s where s: "x_sems x = Some s" "ss_val s = vals_of t" by (rule turn_sems [OF inv])
  have y: "y = x\<lparr>x_sems := Some (s\<lparr>ss_val := [1, 0]\<rparr>), r_pc := RExit 0\<rparr>" using st pc t by (simp add: reader_step_def give_turn [OF s])
  show ?thesis
  proof (rule turn_invI [of SemW])
    show "sems_ok SemW y" using i(1) pc t s w unfolding y by (auto simp: hold_defs)
    show "xfr_data_ok inp SemW y" using i(2) pc t w unfolding y by (auto simp: xfr_data_ok_def block_defs)
    show "phase_ok SemW y" using i(3) pc t w unfolding y by (auto simp: phase_ok_def)
    show "counts_ok inp SemW y" using i(4) pc t w unfolding y by (auto simp: counts_ok_def block_defs)
  qed
qed

lemma reader_inv: "turn_inv inp t x \<Longrightarrow> reader_step intr j fails x = Inr (Some y) \<Longrightarrow> \<exists>t. turn_inv inp t y"
  using reader_reserve_inv reader_test_inv reader_write_inv reader_release_inv reader_finish_inv
  by (cases "r_pc x") (blast | simp add: reader_step_def)+

lemma step_inv: "xfr_step ok x y \<Longrightarrow> turn_inv inp t x \<Longrightarrow> \<exists>t. turn_inv inp t y"
  by (erule xfr_step.cases) (blast intro: writer_inv reader_inv)+

lemma steps_inv: "(xfr_step ok)\<^sup>*\<^sup>* x y \<Longrightarrow> turn_inv inp t x \<Longrightarrow> \<exists>t. turn_inv inp t y"
  by (induction arbitrary: rule: rtranclp_induct) (auto dest: step_inv)


subsection \<open>Safety\<close>

lemma turn_prefix:
  assumes "turn_inv inp t x"
  shows "\<exists>d. inp = x_out x @ d" and "length (x_out x) + length (x_in x) \<le> length inp"
proof -
  have "\<exists>d. inp = x_out x @ d @ x_in x" using turn_invD(2) [OF assms] unfolding xfr_data_ok_def by (auto split: if_splits)
  then show "\<exists>d. inp = x_out x @ d" "length (x_out x) + length (x_in x) \<le> length inp" by auto
qed

lemma turn_end:
  assumes inv: "turn_inv inp t x" and pc: "w_pc x = WExit 0"
  shows "r_pc x = RExit 0" "x_out x = inp" "w_bytes x = int (length inp)" "r_bytes x = int (length inp)" "w_xfrs x = r_xfrs x" "x_sems x = None" "\<not> x_seg x"
proof -
  note i = turn_invD [OF inv]
  have "x_cnt x = 0 \<and> x_in x = [] \<and> r_pc x = RExit 0" using i(3) pc unfolding phase_ok_def by blast
  then have c: "x_cnt x = 0" "x_in x = []" and rp: "r_pc x = RExit 0" by auto
  show "r_pc x = RExit 0" by (rule rp)
  show out: "x_out x = inp" using i(2) c rp by (simp add: xfr_data_ok_def split: if_splits)
  show "w_bytes x = int (length inp)" using i(4) c pc by (simp add: counts_ok_def counted_def)
  show "r_bytes x = int (length inp)" using i(4) c rp out by (simp add: counts_ok_def)
  show "w_xfrs x = r_xfrs x" using i(4) c by (simp add: counts_ok_def)
  show "x_sems x = None" "\<not> x_seg x" using i(1) pc by (auto simp: sems_ok_def split: option.splits)
qed


text \<open>A schedule, as a list of turns, in which each read delivers what there is.\<close>

fun xfr_run :: "bool list \<Rightarrow> xfr \<Rightarrow> xfr option" where
  "xfr_run [] x = Some x"
| "xfr_run (w # ws) x = (case (if w then writer_step False XFR_BUF_SIZE False x else reader_step False 0 False x) of Inr (Some y) \<Rightarrow> xfr_run ws y | _ \<Rightarrow> None)"

lemma xfr_run_steps: "xfr_run ws x = Some y \<Longrightarrow> (xfr_step True)\<^sup>*\<^sup>* x y"
proof (induction ws arbitrary: x)
  case (Cons w ws)
  then obtain z where z: "(if w then writer_step False XFR_BUF_SIZE False x else reader_step False 0 False x) = Inr (Some z)" "xfr_run ws z = Some y"
    by (auto split: sum.splits option.splits)
  have "xfr_step True x z" using z(1) xfr_step.writer [of False XFR_BUF_SIZE False x z True] xfr_step.reader [of False 0 False x z True] by (cases w) auto
  then show ?case using Cons.IH [OF z(2)] by (rule converse_rtranclp_into_rtranclp)
qed simp

definition xfr_sched :: "bool list" where
  "xfr_sched = [True, True, True, False, True, False, False, False, True, True, True, False, False, True, False, True, True]"

lemma xfr_run_hi:
  "xfr_run xfr_sched (xfr_start (Some (new_set 2\<lparr>ss_val := [1, 0]\<rparr>)) 0 (replicate XFR_BUF_SIZE CHR ''z'') ''hi'') =
     Some \<lparr>x_sems = None, x_seg = False, x_cnt = 0, x_buf = ''hi'' @ replicate (XFR_BUF_SIZE - 2) CHR ''z'', x_in = [], x_out = ''hi'', w_pc = WExit 0, w_bytes = 2, w_xfrs = 1, r_pc = RExit 0, r_bytes = 2, r_xfrs = 1\<rparr>"
  by (simp add: xfr_sched_def writer_step_def reader_step_def xfr_start_def xfr_consts on_sems_def new_set_def reserve_val release_val SEMVMX_def add_int_def INT_MIN_def INT_MAX_def)

lemma writer_init_new:
  "length (ss_val (new_set 2)) = 2" "writer_init (new_set 2) = Some (new_set 2\<lparr>ss_val := [1, 0]\<rparr>)" "length (replicate XFR_BUF_SIZE CHR ''z'') = XFR_BUF_SIZE"
  by (simp_all add: new_set_def writer_init_def initSemAvailable_def initSemInUse_def setval_def xfr_consts SEMVMX_def numeral_2_eq_2 fun_eq_iff)


subsection \<open>Termination\<close>

lemma turn_no_fault:
  assumes inv: "turn_inv inp t x" and len: "int (length inp) \<le> INT_MAX"
  shows "writer_step intr k fails x \<noteq> Inl e" "reader_step intr k fails x \<noteq> Inl e"
proof -
  note i = turn_invD [OF inv]
  have io: "int (length (x_out x)) + int (length (x_in x)) \<le> int (length inp)" using turn_prefix(2) [OF inv] by simp
  have room: "int (length (x_out x)) + 1 \<le> int (length inp)" if "x_cnt x \<noteq> 0" "has_block t x"
  proof -
    have "\<exists>d. d \<noteq> [] \<and> inp = x_out x @ d @ x_in x"
    proof (cases "r_pc x = RExit 1")
      case False
      have "0 \<le> x_cnt x" "length (x_buf x) = XFR_BUF_SIZE" using i(2) that by (simp_all add: xfr_data_ok_def)
      then have "take (nat (x_cnt x)) (x_buf x) \<noteq> []" using that(1) by (auto simp: XFR_BUF_SIZE_def)
      then show ?thesis using i(2) that False by (auto simp: xfr_data_ok_def)
    qed (use i(2) in \<open>simp add: xfr_data_ok_def\<close>)
    then obtain d where "d \<noteq> []" "inp = x_out x @ d @ x_in x" by blast
    then show ?thesis by (cases d) auto
  qed
  show "writer_step intr k fails x \<noteq> Inl e"
  proof (cases "w_pc x = WTest \<and> x_cnt x \<noteq> 0")
    case True
    have "w_bytes x + x_cnt x = int (length inp) - int (length (x_in x))" using i(4) True by (simp add: counts_ok_def counted_def)
    moreover have "w_xfrs x + 1 \<le> int (length inp)" "0 \<le> w_xfrs x" using i(4) True room io by (auto simp: counts_ok_def counted_def split: if_splits)
    ultimately show ?thesis using True io len by (simp add: writer_step_def add_int_def INT_MIN_def)
  next
    case False
    then show ?thesis by (auto simp: writer_step_def Let_def split: xfr_wpc.splits)
  qed
  show "reader_step intr k fails x \<noteq> Inl e"
  proof (cases "r_pc x")
    case RTest
    have "x_cnt x + int (length (x_out x)) \<le> int (length inp)" "0 \<le> x_cnt x" using i(2) RTest by (auto simp: xfr_data_ok_def has_block_def)
    then show ?thesis using i(4) RTest len by (simp add: reader_step_def add_int_def counts_ok_def INT_MIN_def)
  next
    case RWrite
    then show ?thesis using i(2) by (simp add: reader_step_def xfr_data_ok_def has_block_def)
  next
    case RRelease
    then show ?thesis using i(4) io len by (auto simp: reader_step_def add_int_def counts_ok_def INT_MIN_def)
  qed (simp_all add: reader_step_def)
qed

fun w_weight :: "int \<Rightarrow> xfr_wpc \<Rightarrow> nat" where
  "w_weight c WReserve = 10"
| "w_weight c WRead = 9"
| "w_weight c WRelease = (if c = 0 then 8 else 16)"
| "w_weight c WTest = (if c = 0 then 3 else 11)"
| "w_weight c WFinal = 2"
| "w_weight c WCleanup = 1"
| "w_weight c (WExit n) = 0"

fun r_weight :: "xfr_rpc \<Rightarrow> nat" where
  "r_weight RReserve = 0"
| "r_weight RTest = 3"
| "r_weight RWrite = 2"
| "r_weight RRelease = 1"
| "r_weight RFinish = 1"
| "r_weight (RExit n) = 0"

definition sem_weight :: "xfr \<Rightarrow> nat" where
  "sem_weight x = (case x_sems x of None \<Rightarrow> 0 | Some s \<Rightarrow> if ss_val s = [0, 1] then 4 else 0)"

definition xfr_weight :: "xfr \<Rightarrow> nat" where
  "xfr_weight x = 8 * length (x_in x) + w_weight (x_cnt x) (w_pc x) + r_weight (r_pc x) + sem_weight x"


lemma writer_weight:
  assumes inv: "turn_inv inp t x" and st: "writer_step intr k fails x = Inr (Some y)"
  shows "xfr_weight y < xfr_weight x"
proof (cases "w_pc x = WRead \<and> \<not> fails")
  case True
  define b where "b = take (min XFR_BUF_SIZE (max 1 k)) (x_in x)"
  have y: "y = x\<lparr>x_cnt := int (length b), x_buf := b @ drop (length b) (x_buf x), x_in := drop (length b) (x_in x), w_pc := WRelease\<rparr>"
    using st True by (simp add: writer_step_def b_def Let_def)
  have "length b \<le> length (x_in x)" by (simp add: b_def)
  then have "b \<noteq> [] \<longrightarrow> 7 + 8 * (length (x_in x) - length b) < 8 * length (x_in x)" by (cases b) auto
  then show ?thesis using True unfolding y by (simp add: xfr_weight_def sem_weight_def)
next
  case no_read: False
  show ?thesis
  proof (cases "w_pc x \<in> {WReserve, WRelease, WFinal, WCleanup}")
    case True
    then have "w_pc x \<noteq> WExit 0" by auto
    then obtain s where s: "x_sems x = Some s" "ss_val s = vals_of t" by (rule turn_sems [OF inv])
    have "w_pc x = WRelease \<Longrightarrow> t = TurnW" using turn_holder(1) [OF inv] by simp
    then show ?thesis using st True s
      by (auto simp: writer_step_def take_turn [OF s] give_turn [OF s] xfr_weight_def sem_weight_def vals_of_def split: if_splits)
  next
    case False
    then show ?thesis using st no_read by (cases "w_pc x") (auto simp: writer_step_def add_int_def xfr_weight_def sem_weight_def split: if_splits)
  qed
qed

lemma reader_weight:
  assumes inv: "turn_inv inp t x" and st: "reader_step intr j fails x = Inr (Some y)"
  shows "xfr_weight y < xfr_weight x"
proof (cases "r_pc x \<in> {RReserve, RRelease, RFinish}")
  case True
  then have "w_pc x \<noteq> WExit 0" using turn_holder(3) [OF inv] by auto
  then obtain s where s: "x_sems x = Some s" "ss_val s = vals_of t" by (rule turn_sems [OF inv])
  have "r_pc x \<in> {RRelease, RFinish} \<Longrightarrow> t = TurnR" using turn_holder(2) [OF inv] by auto
  then show ?thesis using st True s
    by (auto simp: reader_step_def add_int_def take_turn [OF s] give_turn [OF s] xfr_weight_def sem_weight_def vals_of_def split: if_splits)
next
  case False
  then show ?thesis using st by (cases "r_pc x") (auto simp: reader_step_def add_int_def xfr_weight_def sem_weight_def split: if_splits)
qed

lemma step_weight: "xfr_step ok x y \<Longrightarrow> turn_inv inp t x \<Longrightarrow> xfr_weight y < xfr_weight x"
  by (erule xfr_step.cases) (blast intro: writer_weight reader_weight)+

lemma steps_weight:
  assumes "(xfr_step ok ^^ n) x y" "turn_inv inp t x"
  shows "n + xfr_weight y \<le> xfr_weight x \<and> (\<exists>t. turn_inv inp t y)"
  using assms(1)
proof (induction n arbitrary: y)
  case (Suc n)
  then obtain z where z: "(xfr_step ok ^^ n) x z" "xfr_step ok z y" by auto
  obtain t1 where t1: "turn_inv inp t1 z" using Suc.IH [OF z(1)] by auto
  show ?case using Suc.IH [OF z(1)] step_weight [OF z(2) t1] step_inv [OF z(2) t1] by auto
qed (use assms(2) in auto)

text \<open>Where nothing fails, neither process ends with an error, and one of the two can go on until both are done.\<close>

definition no_exit1 :: "xfr \<Rightarrow> bool" where
  "no_exit1 x \<longleftrightarrow> w_pc x \<noteq> WExit 1 \<and> r_pc x \<noteq> RExit 1"

lemma no_exit1_step:
  assumes "xfr_step True x y" "turn_inv inp t x" "no_exit1 x"
  shows "no_exit1 y"
  using assms(1)
proof (cases rule: xfr_step.cases)
  case (writer intr k fails)
  have "w_pc y \<noteq> WExit 1 \<and> r_pc y = r_pc x"
  proof (cases "w_pc x \<in> {WReserve, WRelease, WFinal, WCleanup}")
    case True
    then have "w_pc x \<noteq> WExit 0" by auto
    then obtain s where s: "x_sems x = Some s" "ss_val s = vals_of t" by (rule turn_sems [OF assms(2)])
    have seg: "x_seg x" using turn_invD(1) [OF assms(2)] s by (simp add: sems_ok_def)
    have "w_pc x = WRelease \<Longrightarrow> t = TurnW" using turn_holder(1) [OF assms(2)] by simp
    then show ?thesis using writer True s seg by (auto simp: writer_step_def take_turn [OF s] give_turn [OF s] split: if_splits)
  next
    case False
    then show ?thesis using writer assms(3) by (cases "w_pc x") (auto simp: writer_step_def add_int_def Let_def no_exit1_def split: if_splits)
  qed
  then show ?thesis using assms(3) by (simp add: no_exit1_def)
next
  case (reader intr j fails)
  have "r_pc y \<noteq> RExit 1 \<and> w_pc y = w_pc x"
  proof (cases "r_pc x \<in> {RReserve, RRelease, RFinish}")
    case True
    then have "w_pc x \<noteq> WExit 0" using turn_holder(3) [OF assms(2)] by auto
    then obtain s where s: "x_sems x = Some s" "ss_val s = vals_of t" by (rule turn_sems [OF assms(2)])
    have "r_pc x \<in> {RRelease, RFinish} \<Longrightarrow> t = TurnR" using turn_holder(2) [OF assms(2)] by auto
    then show ?thesis using reader True s by (auto simp: reader_step_def add_int_def take_turn [OF s] give_turn [OF s] split: if_splits)
  next
    case False
    then show ?thesis using reader assms(3) by (cases "r_pc x") (auto simp: reader_step_def add_int_def no_exit1_def split: if_splits)
  qed
  then show ?thesis using assms(3) by (simp add: no_exit1_def)
qed


lemma ok_steps:
  assumes "(xfr_step True)\<^sup>*\<^sup>* x y" "turn_inv inp t x" "no_exit1 x"
  shows "no_exit1 y \<and> (\<exists>t. turn_inv inp t y)"
  using assms(1)
proof (induction rule: rtranclp_induct)
  case (step y z)
  then obtain t1 where "turn_inv inp t1 y" by auto
  then show ?case using step no_exit1_step step_inv by blast
qed (use assms in blast)

lemma on_turn_goes:
  assumes inv: "turn_inv inp t x" and n: "no_exit1 x" and len: "int (length inp) \<le> INT_MAX" and stuck: "\<nexists>y. xfr_step True x y"
  shows "w_pc x = WExit 0"
proof (rule ccontr)
  assume w: "w_pc x \<noteq> WExit 0"
  then obtain s where s: "x_sems x = Some s" "ss_val s = vals_of t" by (rule turn_sems [OF inv])
  note i = turn_invD [OF inv]
  have le: "\<And>n. w_pc x = WExit n \<Longrightarrow> n \<le> 1" "\<And>n. r_pc x = RExit n \<Longrightarrow> n \<le> 1" using i(3) unfolding phase_ok_def by blast+
  have wx: "w_pc x \<noteq> WExit m" for m using le(1) [of m] w n by (cases m) (auto simp: no_exit1_def)
  have wn: "writer_step False 0 False x = Inr None" using stuck turn_no_fault(1) [OF inv len] xfr_step.writer by (metis option.exhaust sum.exhaust)
  have rn: "reader_step False 0 False x = Inr None" using stuck turn_no_fault(2) [OF inv len] xfr_step.reader by (metis option.exhaust sum.exhaust)
  have h: "w_holds (w_pc x) \<longleftrightarrow> t = TurnW" "r_holds (r_pc x) \<longleftrightarrow> t = TurnR" using i(1) w unfolding sems_ok_def by blast+
  have "\<not> w_holds (w_pc x)" using wn n w turn_holder(1) [OF inv]
    by (auto simp: w_holds_def writer_step_def no_exit1_def give_turn [OF s] Let_def split: if_splits)
  moreover have "\<not> r_holds (r_pc x)" using rn n turn_holder(2) [OF inv]
    by (auto simp: r_holds_def reader_step_def no_exit1_def give_turn [OF s] add_int_def split: if_splits)
  ultimately have t: "t = SemW \<or> t = SemR" using h by (cases t) auto
  have wp: "w_pc x = WReserve \<or> w_pc x = WTest \<or> w_pc x = WFinal" using \<open>\<not> w_holds (w_pc x)\<close> wx by (cases "w_pc x") (auto simp: w_holds_def)
  moreover have "w_pc x \<noteq> WTest" using wn by (auto simp: writer_step_def add_int_def split: if_splits)
  ultimately have "t \<noteq> SemW" using wn by (auto simp: writer_step_def take_turn [OF s])
  then have tr: "t = SemR" using t by simp
  have "r_pc x \<noteq> RExit 0" using i(3) tr unfolding phase_ok_def by blast
  moreover have "r_pc x \<noteq> RExit m" if "r_pc x \<noteq> RExit 0" for m using le(2) [of m] that n by (cases m) (auto simp: no_exit1_def)
  ultimately have "r_pc x = RReserve" using \<open>\<not> r_holds (r_pc x)\<close> by (cases "r_pc x") (auto simp: r_holds_def)
  then show False using rn tr by (simp add: reader_step_def take_turn [OF s])
qed

text \<open>
  C35: For an input of at most INT\_MAX bytes, no interleaving goes on for more than eight steps per byte of input and ten more, and none leads to an access outside the buffer or an overflow of a counter. Where no read and
  no write fails the two processes never wait for each other: whenever neither can go on, both have ended with success and the output is the input.
\<close>

theorem xfr_finishes:
  assumes "length (ss_val s) = 2" "writer_init s = Some s1" "length b = XFR_BUF_SIZE" "int (length inp) \<le> INT_MAX" "start = xfr_start (Some s1) c b inp"
  shows "(\<forall>ok n x. (xfr_step ok ^^ n) start x \<longrightarrow> n \<le> 8 * length inp + 10 \<and> \<not> xfr_fault x) \<and>
    (\<forall>x. (xfr_step True)\<^sup>*\<^sup>* start x \<and> (\<nexists>y. xfr_step True x y) \<longrightarrow> w_pc x = WExit 0 \<and> r_pc x = RExit 0 \<and> x_out x = inp)"
proof (intro conjI allI impI)
  have inv: "turn_inv inp SemW start" unfolding assms(5) by (rule start_inv [OF assms(1-3)])
  have "sem_weight start = 0" using turn_invD(1) [OF inv] by (simp add: assms(5) sem_weight_def sems_ok_def vals_of_def xfr_start_def)
  then have w: "xfr_weight start = 8 * length inp + 10" by (simp add: xfr_weight_def assms(5) xfr_start_def)
  fix ok n x assume "(xfr_step ok ^^ n) start x"
  then have x: "n + xfr_weight x \<le> xfr_weight start" "\<exists>t. turn_inv inp t x" using steps_weight [OF _ inv] by blast+
  show "n \<le> 8 * length inp + 10" using x(1) w by simp
  show "\<not> xfr_fault x" using x(2) turn_no_fault [OF _ assms(4)] unfolding xfr_fault_def by blast
next
  have inv: "turn_inv inp SemW start" unfolding assms(5) by (rule start_inv [OF assms(1-3)])
  have n: "no_exit1 start" by (simp add: no_exit1_def assms(5) xfr_start_def)
  fix x assume x: "(xfr_step True)\<^sup>*\<^sup>* start x \<and> (\<nexists>y. xfr_step True x y)"
  then obtain t where t: "turn_inv inp t x" "no_exit1 x" using ok_steps [OF _ inv n] by blast
  then show e: "w_pc x = WExit 0" using on_turn_goes [OF t assms(4)] x by blast
  show "r_pc x = RExit 0" "x_out x = inp" using turn_end [OF t(1) e] by blast+
qed


lemma both_ended: "w_pc x = WExit n \<Longrightarrow> r_pc x = RExit m \<Longrightarrow> \<not> xfr_step ok x y"
  by (auto elim!: xfr_step.cases simp: writer_step_def reader_step_def)

theorem xfr_finishes_witness:
  "\<exists>x. (xfr_step True)\<^sup>*\<^sup>* (xfr_start (Some (new_set 2\<lparr>ss_val := [1, 0]\<rparr>)) 0 (replicate XFR_BUF_SIZE CHR ''z'') ''hi'') x \<and> (\<nexists>y. xfr_step True x y) \<and> w_pc x = WExit 0 \<and> x_out x = ''hi''"
proof -
  let ?start = "xfr_start (Some (new_set 2\<lparr>ss_val := [1, 0]\<rparr>)) 0 (replicate XFR_BUF_SIZE CHR ''z'') ''hi''"
  obtain x where x: "xfr_run xfr_sched ?start = Some x" "w_pc x = WExit 0" "r_pc x = RExit 0" using xfr_run_hi by simp
  have stuck: "(xfr_step True)\<^sup>*\<^sup>* ?start x" "\<nexists>y. xfr_step True x y" using xfr_run_steps [OF x(1)] both_ended [OF x(2,3)] by blast+
  have "int (length ''hi'') \<le> INT_MAX" by (simp add: INT_MAX_def)
  from xfr_finishes [OF writer_init_new this refl] show ?thesis using stuck by blast
qed

end
