(* ===== verification/Sem_Interface.thy ===== *)
theory Sem_Interface
  imports Sysv_Sem
begin

section \<open>A semaphore interface on System V semaphores (apue.3e/lib/semaph.c)\<close>

text \<open>
  Several processes share one semaphore, named by a key. It is a set of three: the value, a counter of the processes that use it, which starts at a large number and goes down, and a lock. A set that is removed and created again gets a new identifier.
  Every system call is a step. A process that waits in a call is asleep; when the set is removed it is woken with another error than the one a call on a removed set gives. A process may end at any point, and the kernel then undoes what it has done with SEM\_UNDO.
\<close>

subsection \<open>State\<close>

definition BIGCOUNT :: int where "BIGCOUNT = 10000"
definition IPC_PRIVATE :: int where "IPC_PRIVATE = 0"
definition EIDRM :: int where "EIDRM = 43"

definition op_lock :: "sembuf list" where
  "op_lock = [\<lparr>sem_num = 2, sem_op = 0, sem_undo = False, sem_nowait = False\<rparr>, \<lparr>sem_num = 2, sem_op = 1, sem_undo = True, sem_nowait = False\<rparr>]"

definition op_endcreate :: "sembuf list" where
  "op_endcreate = [\<lparr>sem_num = 1, sem_op = -1, sem_undo = True, sem_nowait = False\<rparr>, \<lparr>sem_num = 2, sem_op = -1, sem_undo = True, sem_nowait = False\<rparr>]"

definition op_open :: "sembuf list" where
  "op_open = [\<lparr>sem_num = 1, sem_op = -1, sem_undo = True, sem_nowait = False\<rparr>]"

definition op_close :: "sembuf list" where
  "op_close = [\<lparr>sem_num = 2, sem_op = 0, sem_undo = False, sem_nowait = False\<rparr>, \<lparr>sem_num = 2, sem_op = 1, sem_undo = True, sem_nowait = False\<rparr>,
     \<lparr>sem_num = 1, sem_op = 1, sem_undo = True, sem_nowait = False\<rparr>]"

definition op_unlock :: "sembuf list" where
  "op_unlock = [\<lparr>sem_num = 2, sem_op = -1, sem_undo = True, sem_nowait = False\<rparr>]"

definition op_op :: "int \<Rightarrow> sembuf list" where
  "op_op v = [\<lparr>sem_num = 0, sem_op = v, sem_undo = True, sem_nowait = False\<rparr>]"

text \<open>Where a process is: in one of the functions, with the identifier that it was given, between calls, or at its end.\<close>

datatype spc =
    Idle | CGet | CLock nat | CCount nat | CSet0 nat | CSet1 nat | CEnd nat | OGet | OOpen nat | Using nat
  | UOp nat int | XClose nat | XCount nat | XRm nat | XUnlock nat | RRm nat | EndedBy string int | Dead

record sv =
  sv_id :: nat
  sv_set :: "semset option"
  sv_pc :: "nat \<Rightarrow> spc"
  sv_asleep :: "nat \<Rightarrow> bool"

definition sv_live :: "nat \<Rightarrow> sv \<Rightarrow> semset option" where
  "sv_live i s = (if i = sv_id s then sv_set s else None)"

definition go :: "nat \<Rightarrow> spc \<Rightarrow> sv \<Rightarrow> sv" where
  "go p q s = s\<lparr>sv_pc := (sv_pc s)(p := q), sv_asleep := (sv_asleep s)(p := False)\<rparr>"

text \<open>The end of a process, by \<^verbatim>\<open>err_sys\<close> or otherwise.\<close>

definition die :: "nat \<Rightarrow> spc \<Rightarrow> sv \<Rightarrow> sv" where
  "die p q s = (go p q s)\<lparr>sv_set := map_option (sem_exit p) (sv_set s)\<rparr>"

definition err_sys :: "string \<Rightarrow> nat \<Rightarrow> int \<Rightarrow> sv \<Rightarrow> sv" where
  "err_sys msg p e s = die p (EndedBy msg e) s"

subsection \<open>The calls\<close>

definition do_semop :: "nat \<Rightarrow> sembuf list \<Rightarrow> (int \<Rightarrow> sv \<Rightarrow> sv) \<Rightarrow> spc \<Rightarrow> nat \<Rightarrow> sv \<Rightarrow> sv option" where
  "do_semop i ops err nxt p s = (case sv_live i s of
      None \<Rightarrow> Some (err (if sv_asleep s p then EIDRM else EINVAL) s)
    | Some st \<Rightarrow> (case semop p ops st of
          Performed st1 \<Rightarrow> Some (go p nxt (s\<lparr>sv_set := Some st1\<rparr>))
        | SemErr e \<Rightarrow> Some (err e s)
        | Waits \<Rightarrow> if sv_asleep s p then None else Some (s\<lparr>sv_asleep := (sv_asleep s)(p := True)\<rparr>)))"

definition do_getval :: "nat \<Rightarrow> nat \<Rightarrow> string \<Rightarrow> (int \<Rightarrow> sv \<Rightarrow> sv) \<Rightarrow> nat \<Rightarrow> sv \<Rightarrow> sv" where
  "do_getval i k msg cont p s = (case sv_live i s of
      None \<Rightarrow> err_sys msg p EINVAL s
    | Some st \<Rightarrow> (case getval k st of Inl e \<Rightarrow> err_sys msg p e s | Inr v \<Rightarrow> cont v s))"

definition do_setval :: "nat \<Rightarrow> nat \<Rightarrow> int \<Rightarrow> string \<Rightarrow> spc \<Rightarrow> nat \<Rightarrow> sv \<Rightarrow> sv" where
  "do_setval i k v msg nxt p s = (case sv_live i s of
      None \<Rightarrow> err_sys msg p EINVAL s
    | Some st \<Rightarrow> (case setval k v st of Inl e \<Rightarrow> err_sys msg p e s | Inr st1 \<Rightarrow> go p nxt (s\<lparr>sv_set := Some st1\<rparr>)))"

text \<open>\<open>full\<close> says that \<^verbatim>\<open>semget\<close> fails; the functions then return -1.\<close>

definition call_create :: "int \<Rightarrow> spc" where
  "call_create key = (if key = IPC_PRIVATE then Idle else if key = -1 then Idle else CGet)"

definition sem_create_step :: "bool \<Rightarrow> int \<Rightarrow> nat \<Rightarrow> sv \<Rightarrow> sv option" where
  "sem_create_step full initval p s = (case sv_pc s p of
      CGet \<Rightarrow> Some (if full then go p Idle s
        else case sv_set s of
            None \<Rightarrow> go p (CLock (Suc (sv_id s))) (s\<lparr>sv_id := Suc (sv_id s), sv_set := Some (new_set 3)\<rparr>)
          | Some st \<Rightarrow> go p (CLock (sv_id s)) s)
    | CLock i \<Rightarrow> do_semop i op_lock (\<lambda>e t. if e = EINVAL then go p CGet t else err_sys ''can't lock'' p e t) (CCount i) p s
    | CCount i \<Rightarrow> Some (do_getval i 1 ''can't GETVAL'' (\<lambda>semval. go p (if semval = 0 then CSet0 i else CEnd i)) p s)
    | CSet0 i \<Rightarrow> Some (do_setval i 0 initval ''can SETVAL[0]'' (CSet1 i) p s)
    | CSet1 i \<Rightarrow> Some (do_setval i 1 BIGCOUNT ''can SETVAL[1]'' (CEnd i) p s)
    | CEnd i \<Rightarrow> do_semop i op_endcreate (err_sys ''can't end create'' p) (Using i) p s
    | _ \<Rightarrow> None)"

definition call_open :: "int \<Rightarrow> spc" where
  "call_open key = (if key = IPC_PRIVATE then Idle else if key = -1 then Idle else OGet)"

definition sem_open_step :: "bool \<Rightarrow> nat \<Rightarrow> sv \<Rightarrow> sv option" where
  "sem_open_step full p s = (case sv_pc s p of
      OGet \<Rightarrow> Some (if full \<or> sv_set s = None then go p Idle s else go p (OOpen (sv_id s)) s)
    | OOpen i \<Rightarrow> do_semop i op_open (err_sys ''can't open'' p) (Using i) p s
    | _ \<Rightarrow> None)"

definition sem_rm :: "nat \<Rightarrow> nat \<Rightarrow> sv \<Rightarrow> sv" where
  "sem_rm i p s = (case sv_live i s of None \<Rightarrow> err_sys ''can't IPC_RMID'' p EINVAL s | Some st \<Rightarrow> go p Idle (s\<lparr>sv_set := None\<rparr>))"

definition sem_close_step :: "nat \<Rightarrow> sv \<Rightarrow> sv option" where
  "sem_close_step p s = (case sv_pc s p of
      XClose i \<Rightarrow> do_semop i op_close (err_sys ''can't semop'' p) (XCount i) p s
    | XCount i \<Rightarrow> Some (do_getval i 1 ''can't GETVAL''
        (\<lambda>semval t. if BIGCOUNT < semval then err_sys ''sem[1] > BIGCOUNT'' p 0 t else if semval = BIGCOUNT then go p (XRm i) t else go p (XUnlock i) t) p s)
    | XRm i \<Rightarrow> Some (sem_rm i p s)
    | XUnlock i \<Rightarrow> do_semop i op_unlock (err_sys ''can't unlock'' p) Idle p s
    | _ \<Rightarrow> None)"

definition sem_op_step :: "nat \<Rightarrow> sv \<Rightarrow> sv option" where
  "sem_op_step p s = (case sv_pc s p of
      UOp i v \<Rightarrow> if to_short v = 0 then Some (err_sys ''can't have value == 0'' p 0 s)
        else do_semop i (op_op (to_short v)) (err_sys ''sem_op error'' p) (Using i) p s
    | _ \<Rightarrow> None)"

definition sem_wait :: "nat \<Rightarrow> spc" where "sem_wait i = UOp i (-1)"
definition sem_signal :: "nat \<Rightarrow> spc" where "sem_signal i = UOp i 1"

text \<open>One system call of a process that is inside a function.\<close>

definition sem_call :: "bool \<Rightarrow> int \<Rightarrow> nat \<Rightarrow> sv \<Rightarrow> sv option" where
  "sem_call full initval p s = (case sem_create_step full initval p s of Some t \<Rightarrow> Some t
     | None \<Rightarrow> (case sem_open_step full p s of Some t \<Rightarrow> Some t
     | None \<Rightarrow> (case sem_close_step p s of Some t \<Rightarrow> Some t
     | None \<Rightarrow> (case sem_op_step p s of Some t \<Rightarrow> Some t
     | None \<Rightarrow> (case sv_pc s p of RRm i \<Rightarrow> Some (sem_rm i p s) | _ \<Rightarrow> None)))))"

text \<open>\<open>n\<close> processes. \<open>opens\<close> says that they call \<^verbatim>\<open>sem_open\<close>, \<open>rms\<close> that they call \<^verbatim>\<open>sem_rm\<close>, \<open>ends\<close> that they end without closing.\<close>

inductive sv_step :: "bool \<Rightarrow> bool \<Rightarrow> bool \<Rightarrow> nat \<Rightarrow> int \<Rightarrow> int \<Rightarrow> sv \<Rightarrow> sv \<Rightarrow> bool" for opens rms ends n key initval where
  sv_create: "p < n \<Longrightarrow> sv_pc s p = Idle \<Longrightarrow> sv_step opens rms ends n key initval s (go p (call_create key) s)"
| sv_open: "opens \<Longrightarrow> p < n \<Longrightarrow> sv_pc s p = Idle \<Longrightarrow> sv_step opens rms ends n key initval s (go p (call_open key) s)"
| sv_op: "p < n \<Longrightarrow> sv_pc s p = Using i \<Longrightarrow> sv_step opens rms ends n key initval s (go p (UOp i v) s)"
| sv_close: "p < n \<Longrightarrow> sv_pc s p = Using i \<Longrightarrow> sv_step opens rms ends n key initval s (go p (XClose i) s)"
| sv_rm: "rms \<Longrightarrow> p < n \<Longrightarrow> sv_pc s p = Using i \<Longrightarrow> sv_step opens rms ends n key initval s (go p (RRm i) s)"
| sv_call: "p < n \<Longrightarrow> sem_call full initval p s = Some t \<Longrightarrow> sv_step opens rms ends n key initval s t"
| sv_end: "ends \<Longrightarrow> p < n \<Longrightarrow> sv_pc s p \<noteq> Dead \<Longrightarrow> (\<forall>m e. sv_pc s p \<noteq> EndedBy m e) \<Longrightarrow> sv_step opens rms ends n key initval s (die p Dead s)"

definition sv_start :: sv where
  "sv_start = \<lparr>sv_id = 0, sv_set = None, sv_pc = (\<lambda>p. Idle), sv_asleep = (\<lambda>p. False)\<rparr>"

subsection \<open>The effects of the operations\<close>

definition undo :: "nat \<Rightarrow> nat \<Rightarrow> int \<Rightarrow> semset \<Rightarrow> nat \<Rightarrow> nat \<Rightarrow> int" where
  "undo p k v st = (ss_adj st)(p := (ss_adj st p)(k := ss_adj st p k - v))"

lemma lock_eq:
  assumes "ss_val st = [a, b, c]" "ss_adj st p 2 = 0"
  shows "semop p op_lock st = (if c \<noteq> 0 then Waits else Performed (st\<lparr>ss_val := [a, b, 1], ss_adj := undo p 2 1 st\<rparr>))"
  using assms by (simp add: semop_def op_lock_def SEMOPM_def Let_def adj_ok_def SEMVMX_def undo_def)

lemma endcreate_eq:
  assumes "ss_val st = [a, b, 1]" "0 < b" "b \<le> BIGCOUNT" "ss_adj st p 1 = 0" "ss_adj st p 2 = -1"
  shows "semop p op_endcreate st = Performed (st\<lparr>ss_val := [a, b - 1, 0], ss_adj := (ss_adj st)(p := (ss_adj st p)(1 := 1, 2 := 0))\<rparr>)"
  using assms by (simp add: semop_def op_endcreate_def SEMOPM_def Let_def adj_ok_def SEMVMX_def BIGCOUNT_def)

lemma close_eq:
  assumes "ss_val st = [a, b, c]" "0 \<le> b" "b < BIGCOUNT" "ss_adj st p 1 = 1" "ss_adj st p 2 = 0"
  shows "semop p op_close st = (if c \<noteq> 0 then Waits else Performed (st\<lparr>ss_val := [a, b + 1, 1], ss_adj := (ss_adj st)(p := (ss_adj st p)(2 := -1, 1 := 0))\<rparr>))"
  using assms by (simp add: semop_def op_close_def SEMOPM_def Let_def adj_ok_def SEMVMX_def BIGCOUNT_def)

lemma unlock_eq:
  assumes "ss_val st = [a, b, 1]" "ss_adj st p 2 = -1"
  shows "semop p op_unlock st = Performed (st\<lparr>ss_val := [a, b, 0], ss_adj := (ss_adj st)(p := (ss_adj st p)(2 := 0))\<rparr>)"
  using assms by (simp add: semop_def op_unlock_def SEMOPM_def Let_def adj_ok_def SEMVMX_def)

lemma op_result:
  assumes "ss_val st = [a, b, c]" "v \<noteq> 0"
  shows "semop p (op_op v) st = Waits \<or> semop p (op_op v) st = SemErr ERANGE \<or>
    semop p (op_op v) st = Performed (st\<lparr>ss_val := [a + v, b, c], ss_adj := undo p 0 v st\<rparr>)"
  using assms by (simp add: semop_def op_op_def SEMOPM_def Let_def undo_def)

lemma exit_eq:
  assumes "ss_val st = [a, b, c]"
  shows "sem_exit p st = st\<lparr>ss_val := [max 0 (min SEMVMX (a + ss_adj st p 0)), max 0 (min SEMVMX (b + ss_adj st p 1)), max 0 (min SEMVMX (c + ss_adj st p 2))],
    ss_adj := (ss_adj st)(p := (\<lambda>k. 0))\<rparr>"
  using assms by (simp add: sem_exit_def numeral_2_eq_2 upt_rec)

subsection \<open>The invariant\<close>

fun lock_id :: "spc \<Rightarrow> nat option" where
  "lock_id (CCount i) = Some i"
| "lock_id (CSet0 i) = Some i"
| "lock_id (CSet1 i) = Some i"
| "lock_id (CEnd i) = Some i"
| "lock_id (XCount i) = Some i"
| "lock_id (XRm i) = Some i"
| "lock_id (XUnlock i) = Some i"
| "lock_id _ = None"

fun user_id :: "spc \<Rightarrow> nat option" where
  "user_id (Using i) = Some i"
| "user_id (UOp i v) = Some i"
| "user_id (XClose i) = Some i"
| "user_id _ = None"

fun early :: "spc \<Rightarrow> bool" where
  "early (CSet0 i) = True"
| "early (CSet1 i) = True"
| "early _ = False"

fun late :: "spc \<Rightarrow> bool" where
  "late (CEnd i) = True"
| "late (XCount i) = True"
| "late (XRm i) = True"
| "late (XUnlock i) = True"
| "late _ = False"

fun removing :: "spc \<Rightarrow> bool" where
  "removing (XRm i) = True"
| "removing _ = False"

text \<open>Not in \<^verbatim>\<open>sem_open\<close> or \<^verbatim>\<open>sem_rm\<close>, and not ended by an error, except for the three that can happen.\<close>

fun plain :: "spc \<Rightarrow> bool" where
  "plain OGet = False"
| "plain (OOpen i) = False"
| "plain (RRm i) = False"
| "plain (EndedBy m e) \<longleftrightarrow> m = ''can't lock'' \<and> e = EIDRM \<or> m = ''sem_op error'' \<and> e = ERANGE \<or> m = ''can't have value == 0''"
| "plain _ = True"

definition users :: "(nat \<Rightarrow> spc) \<Rightarrow> nat set" where
  "users f = {p. user_id (f p) \<noteq> None}"

text \<open>The set, where \<open>h\<close> holds the lock: not initialised, or with its counter in step with the users.\<close>

definition count_ok :: "(nat \<Rightarrow> spc) \<Rightarrow> int \<Rightarrow> bool" where
  "count_ok f b \<longleftrightarrow> (if b = 0 then users f = {} \<and> (\<forall>p. \<not> late (f p)) else b = BIGCOUNT - int (card (users f)) \<and> (\<forall>p. \<not> early (f p)))"

definition set_ok :: "nat option \<Rightarrow> (nat \<Rightarrow> spc) \<Rightarrow> semset \<Rightarrow> bool" where
  "set_ok h f st \<longleftrightarrow> (\<exists>a b. ss_val st = [a, b, if h = None then 0 else 1] \<and> count_ok f b) \<and>
     (\<forall>p. ss_adj st p 2 = (if h = Some p then -1 else 0)) \<and> (\<forall>p. ss_adj st p 1 = (if p \<in> users f then 1 else 0))"

definition pcs_ok :: "nat \<Rightarrow> nat option \<Rightarrow> sv \<Rightarrow> bool" where
  "pcs_ok n h s \<longleftrightarrow> (\<forall>p i. lock_id (sv_pc s p) = Some i \<or> user_id (sv_pc s p) = Some i \<longrightarrow> p < n \<and> i = sv_id s \<and> sv_set s \<noteq> None) \<and>
     (\<forall>p. lock_id (sv_pc s p) \<noteq> None \<longleftrightarrow> h = Some p) \<and> (\<forall>p. plain (sv_pc s p)) \<and> (\<forall>p. removing (sv_pc s p) \<longrightarrow> users (sv_pc s) = {})"

definition sv_inv :: "nat \<Rightarrow> nat option \<Rightarrow> sv \<Rightarrow> bool" where
  "sv_inv n h s \<longleftrightarrow> pcs_ok n h s \<and> (\<forall>st. sv_set s = Some st \<longrightarrow> set_ok h (sv_pc s) st)"

lemma users_upd: "users (f(p := q)) = (if user_id q \<noteq> None then insert p (users f) else users f - {p})"
  by (auto simp: users_def)

lemma users_fin: "pcs_ok n h s \<Longrightarrow> finite (users (sv_pc s)) \<and> users (sv_pc s) \<subseteq> {..<n}"
  by (auto simp: pcs_ok_def users_def intro: finite_subset [of _ "{..<n}"])

lemma users_card: "pcs_ok n h s \<Longrightarrow> card (users (sv_pc s)) \<le> n"
  using users_fin card_mono [of "{..<n}" "users (sv_pc s)"] by fastforce

text \<open>A move that leaves the lock and the counter alone.\<close>

lemma go_neutral:
  assumes inv: "sv_inv n h s" and same: "lock_id q = lock_id (sv_pc s p)" "user_id q = user_id (sv_pc s p)" and q: "\<not> early q" "\<not> late q" "\<not> removing q" "plain q"
  shows "sv_inv n h (go p q s)"
proof -
  have u: "users ((sv_pc s)(p := q)) = users (sv_pc s)" using same(2) by (auto simp: users_def)
  have "pcs_ok n h (go p q s)" using inv same q by (auto simp: sv_inv_def pcs_ok_def go_def u)
  moreover have "count_ok ((sv_pc s)(p := q)) b" if "count_ok (sv_pc s) b" for b using that q by (auto simp: count_ok_def u split: if_splits)
  then have "set_ok h (sv_pc (go p q s)) st" if "set_ok h (sv_pc s) st" for st using that by (auto simp: set_ok_def go_def u)
  ultimately show ?thesis using inv by (simp add: sv_inv_def go_def)
qed

lemma inv_asleep: "sv_inv n h (s\<lparr>sv_asleep := f\<rparr>) = sv_inv n h s"
  by (simp add: sv_inv_def pcs_ok_def)

text \<open>A move of the process that holds the lock, or that takes it while nobody does.\<close>

lemma pcs_go:
  assumes inv: "pcs_ok n h s" and "p < n" and id: "lock_id q = None \<or> lock_id q = Some (sv_id s)" "user_id q = None \<or> user_id q = Some (sv_id s)"
    and q: "plain q" "removing q \<Longrightarrow> users ((sv_pc s)(p := q)) = {}" and h: "h = None \<or> h = Some p" "sv_set s \<noteq> None"
  shows "pcs_ok n (if lock_id q \<noteq> None then Some p else None) (go p q (s\<lparr>sv_set := Some st\<rparr>))"
proof -
  have none: "lock_id (sv_pc s r) = None" if "r \<noteq> p" for r using inv h(1) that by (auto simp: pcs_ok_def)
  then have "\<not> removing (sv_pc s r)" if "r \<noteq> p" for r using that by (cases "sv_pc s r") fastforce+
  then show ?thesis using assms none by (auto simp: pcs_ok_def go_def)
qed

lemma holder_facts:
  assumes inv: "sv_inv n h s" and l: "lock_id (sv_pc s p) = Some i"
  obtains st a b where "i = sv_id s" "sv_set s = Some st" "h = Some p" "ss_val st = [a, b, 1]" "count_ok (sv_pc s) b" "set_ok h (sv_pc s) st"
    "ss_adj st p 2 = -1" "ss_adj st p 1 = 0" "p \<notin> users (sv_pc s)" "sv_live i s = Some st"
proof -
  have p: "pcs_ok n h s" using inv by (simp add: sv_inv_def)
  have i: "i = sv_id s" "sv_set s \<noteq> None" using p l unfolding pcs_ok_def by blast+
  then obtain st where st: "sv_set s = Some st" by blast
  have h: "h = Some p" using p l unfolding pcs_ok_def by (metis option.distinct(1))
  have ok: "set_ok h (sv_pc s) st" using inv st by (simp add: sv_inv_def)
  have u: "p \<notin> users (sv_pc s)" using l by (cases "sv_pc s p") (auto simp: users_def)
  obtain a b where v: "ss_val st = [a, b, 1]" "count_ok (sv_pc s) b" using ok h by (auto simp: set_ok_def)
  have "ss_adj st p 2 = -1" "ss_adj st p 1 = 0" using ok h u by (auto simp: set_ok_def)
  then show thesis using that i(1) st h v ok u by (simp add: sv_live_def)
qed

lemma user_facts:
  assumes inv: "sv_inv n h s" and l: "user_id (sv_pc s p) = Some i"
  obtains st a b where "i = sv_id s" "sv_set s = Some st" "h \<noteq> Some p" "ss_val st = [a, b, if h = None then 0 else 1]" "count_ok (sv_pc s) b" "set_ok h (sv_pc s) st"
    "ss_adj st p 2 = 0" "ss_adj st p 1 = 1" "p \<in> users (sv_pc s)" "sv_live i s = Some st"
proof -
  have p: "pcs_ok n h s" using inv by (simp add: sv_inv_def)
  have i: "i = sv_id s" "sv_set s \<noteq> None" using p l unfolding pcs_ok_def by blast+
  then obtain st where st: "sv_set s = Some st" by blast
  have "lock_id (sv_pc s p) = None" using l by (cases "sv_pc s p") auto
  then have h: "h \<noteq> Some p" using p unfolding pcs_ok_def by blast
  have ok: "set_ok h (sv_pc s) st" using inv st by (simp add: sv_inv_def)
  have u: "p \<in> users (sv_pc s)" using l by (auto simp: users_def)
  obtain a b where v: "ss_val st = [a, b, if h = None then 0 else 1]" "count_ok (sv_pc s) b" using ok by (auto simp: set_ok_def)
  have "ss_adj st p 2 = 0" "ss_adj st p 1 = 1" using ok h u by (auto simp: set_ok_def)
  then show thesis using that i(1) st h v ok u by (simp add: sv_live_def)
qed

text \<open>The end of a process gives back the lock and the place that it holds.\<close>

lemma die_inv:
  assumes inv: "sv_inv n h s" and q: "lock_id q = None" "user_id q = None" "\<not> early q" "\<not> late q" "\<not> removing q" "plain q" and n: "int n < BIGCOUNT"
  shows "\<exists>h. sv_inv n h (die p q s)"
proof -
  let ?h = "if h = Some p then None else h" and ?f = "(sv_pc s)(p := q)"
  have p: "pcs_ok n h s" using inv by (simp add: sv_inv_def)
  note fin = users_fin [OF p] and crd = users_card [OF p]
  have u: "users ?f = users (sv_pc s) - {p}" using q(2) by (simp add: users_upd)
  have "pcs_ok n ?h (die p q s)" using p q by (auto simp: pcs_ok_def die_def go_def u)
  moreover have "set_ok ?h ?f (sem_exit p st)" if st: "sv_set s = Some st" for st
  proof -
    have ok: "set_ok h (sv_pc s) st" using inv st by (simp add: sv_inv_def)
    then obtain a b where v: "ss_val st = [a, b, if h = None then 0 else 1]" and c: "count_ok (sv_pc s) b" by (auto simp: set_ok_def)
    have adj: "ss_adj st r 2 = (if h = Some r then -1 else 0)" "ss_adj st r 1 = (if r \<in> users (sv_pc s) then 1 else 0)" for r using ok by (auto simp: set_ok_def)
    have b: "0 \<le> b" "b \<le> BIGCOUNT" "p \<in> users (sv_pc s) \<Longrightarrow> b < BIGCOUNT"
      using c crd n fin by (auto simp: count_ok_def BIGCOUNT_def card_gt_0_iff split: if_splits)
    have "count_ok ?f (b + ss_adj st p 1)"
    proof (cases "p \<in> users (sv_pc s)")
      case True
      then have "b = BIGCOUNT - int (card (users (sv_pc s)))" "\<forall>p. \<not> early (sv_pc s p)" using c by (auto simp: count_ok_def split: if_splits)
      moreover have "card (users ?f) = card (users (sv_pc s)) - 1" "0 < card (users (sv_pc s))" using u True fin by (auto simp: card_gt_0_iff)
      ultimately show ?thesis using True q b adj(2) [of p] by (simp add: count_ok_def)
    next
      case False
      then show ?thesis using c q u adj(2) [of p] by (auto simp: count_ok_def)
    qed
    moreover have "max 0 (min SEMVMX (b + ss_adj st p 1)) = b + ss_adj st p 1" using b adj(2) [of p] by (auto simp: SEMVMX_def BIGCOUNT_def)
    moreover have "max 0 (min SEMVMX ((if h = None then 0 else 1) + ss_adj st p 2)) = (if ?h = None then 0 else 1)" using adj(1) [of p] by (auto simp: SEMVMX_def)
    ultimately show ?thesis using adj u unfolding exit_eq [OF v] set_ok_def by auto
  qed
  ultimately show ?thesis by (intro exI [of _ ?h]) (auto simp: sv_inv_def die_def go_def)
qed

text \<open>A move of the process that holds the lock, given what becomes of the set.\<close>

lemma holder_move:
  assumes inv: "sv_inv n h s" and p: "p < n" and l: "lock_id (sv_pc s p) = Some i" and id: "lock_id q = None \<or> lock_id q = Some i" "user_id q = None \<or> user_id q = Some i"
    and q: "plain q" "removing q \<Longrightarrow> users (sv_pc s) = {}"
    and st: "ss_val st1 = [a1, b1, if lock_id q \<noteq> None then 1 else 0]" "count_ok ((sv_pc s)(p := q)) b1" "ss_adj st1 p 2 = (if lock_id q \<noteq> None then -1 else 0)"
    and adj: "\<And>st r. sv_set s = Some st \<Longrightarrow> r \<noteq> p \<Longrightarrow> ss_adj st1 r = ss_adj st r" "ss_adj st1 p 1 = (if user_id q \<noteq> None then 1 else 0)"
  shows "sv_inv n (if lock_id q \<noteq> None then Some p else None) (go p q (s\<lparr>sv_set := Some st1\<rparr>))"
proof -
  obtain st where f: "i = sv_id s" "sv_set s = Some st" "h = Some p" "set_ok h (sv_pc s) st" "p \<notin> users (sv_pc s)" by (rule holder_facts [OF inv l])
  have pc: "pcs_ok n h s" using inv by (simp add: sv_inv_def)
  have "removing q \<Longrightarrow> users ((sv_pc s)(p := q)) = {}" using q(2) by (cases q) (auto simp: users_upd)
  then have "pcs_ok n (if lock_id q \<noteq> None then Some p else None) (go p q (s\<lparr>sv_set := Some st1\<rparr>))" using pcs_go [OF pc p] id f q(1) by simp
  moreover have "ss_adj st1 r 2 = (if (if lock_id q \<noteq> None then Some p else None) = Some r then -1 else 0)" for r
    using f st(3) adj(1) [OF f(2), of r] by (cases "r = p") (auto simp: set_ok_def)
  moreover have "ss_adj st1 r 1 = (if r \<in> users ((sv_pc s)(p := q)) then 1 else 0)" for r
    using f adj(2) adj(1) [OF f(2), of r] by (cases "r = p") (auto simp: set_ok_def users_upd)
  ultimately show ?thesis using st(1,2) by (simp add: sv_inv_def set_ok_def go_def)
qed

lemma set_same: "sv_set s = Some st \<Longrightarrow> s\<lparr>sv_set := Some st\<rparr> = s"
  by simp

lemma create_count_inv:
  assumes inv: "sv_inv n h s" and p: "p < n" and pc: "sv_pc s p = CCount i" and st: "sem_create_step full initval p s = Some t"
  shows "\<exists>h. sv_inv n h t"
proof -
  have l: "lock_id (sv_pc s p) = Some i" using pc by simp
  obtain set a b where f: "i = sv_id s" "sv_set s = Some set" "h = Some p" "ss_val set = [a, b, 1]" "count_ok (sv_pc s) b" "ss_adj set p 2 = -1" "ss_adj set p 1 = 0"
    "p \<notin> users (sv_pc s)" "sv_live i s = Some set" by (rule holder_facts [OF inv l])
  let ?q = "if b = 0 then CSet0 i else CEnd i"
  have t: "t = go p ?q (s\<lparr>sv_set := Some set\<rparr>)" using st pc f(4,9) unfolding set_same [OF f(2)] by (auto simp: sem_create_step_def do_getval_def getval_def)
  have "count_ok ((sv_pc s)(p := ?q)) b" using f(5,8) by (auto simp: count_ok_def users_upd)
  then show ?thesis using holder_move [OF inv p l, of ?q set a b] f unfolding t by auto
qed

lemma create_set_inv:
  assumes inv: "sv_inv n h s" and p: "p < n" and pc: "sv_pc s p = CSet0 i \<or> sv_pc s p = CSet1 i" and st: "sem_create_step full initval p s = Some t"
    and v: "0 \<le> initval" "initval \<le> SEMVMX" and n: "int n < BIGCOUNT"
  shows "\<exists>h. sv_inv n h t"
proof -
  have l: "lock_id (sv_pc s p) = Some i" using pc by auto
  obtain set a b where f: "i = sv_id s" "sv_set s = Some set" "h = Some p" "ss_val set = [a, b, 1]" "count_ok (sv_pc s) b" "set_ok h (sv_pc s) set" "ss_adj set p 2 = -1" "ss_adj set p 1 = 0"
    "p \<notin> users (sv_pc s)" "sv_live i s = Some set" by (rule holder_facts [OF inv l])
  have "\<exists>p. early (sv_pc s p)" using pc by (auto intro: exI [of _ p])
  then have b: "b = 0" "users (sv_pc s) = {}" "\<forall>p. \<not> late (sv_pc s p)" using f(5) by (auto simp: count_ok_def split: if_splits)
  have alone: "\<not> early (sv_pc s r)" if "r \<noteq> p" for r
  proof -
    have "lock_id (sv_pc s r) = None" using inv f(3) that by (auto simp: sv_inv_def pcs_ok_def)
    then show ?thesis by (cases "sv_pc s r") auto
  qed
  have adj0: "ss_adj set r 1 = 0" for r using f(6) b(2) by (auto simp: set_ok_def)
  show ?thesis
  proof (cases "sv_pc s p = CSet0 i")
    case True
    let ?set = "set\<lparr>ss_val := [initval, b, 1], ss_adj := (\<lambda>r k. if k = 0 then 0 else ss_adj set r k)\<rparr>"
    have t: "t = go p (CSet1 i) (s\<lparr>sv_set := Some ?set\<rparr>)" using st True f v by (simp add: sem_create_step_def do_setval_def setval_def)
    have "count_ok ((sv_pc s)(p := CSet1 i)) b" using b by (auto simp: count_ok_def users_upd)
    moreover have "set_ok (Some p) ((sv_pc s)(p := CSet1 i)) ?set" using calculation f b by (auto simp: set_ok_def users_upd)
    moreover have "pcs_ok n (Some p) t" using pcs_go [of n h s p "CSet1 i" ?set] inv p f unfolding t by (simp add: sv_inv_def)
    ultimately show ?thesis unfolding t by (intro exI [of _ "Some p"]) (simp add: sv_inv_def go_def)
  next
    case False
    then have pc1: "sv_pc s p = CSet1 i" using pc by simp
    let ?set = "set\<lparr>ss_val := [a, BIGCOUNT, 1], ss_adj := (\<lambda>r k. if k = 1 then 0 else ss_adj set r k)\<rparr>"
    have t: "t = go p (CEnd i) (s\<lparr>sv_set := Some ?set\<rparr>)" using st pc1 f v by (simp add: sem_create_step_def do_setval_def setval_def BIGCOUNT_def SEMVMX_def)
    have "count_ok ((sv_pc s)(p := CEnd i)) BIGCOUNT" using b alone by (simp add: count_ok_def users_upd BIGCOUNT_def)
    moreover have "set_ok (Some p) ((sv_pc s)(p := CEnd i)) ?set" using calculation f b by (auto simp: set_ok_def users_upd)
    moreover have "pcs_ok n (Some p) t" using pcs_go [of n h s p "CEnd i" ?set] inv p f unfolding t by (simp add: sv_inv_def)
    ultimately show ?thesis unfolding t by (intro exI [of _ "Some p"]) (simp add: sv_inv_def go_def)
  qed
qed

lemma create_end_inv:
  assumes inv: "sv_inv n h s" and p: "p < n" and pc: "sv_pc s p = CEnd i" and st: "sem_create_step full initval p s = Some t" and n: "int n < BIGCOUNT"
  shows "\<exists>h. sv_inv n h t"
proof -
  have l: "lock_id (sv_pc s p) = Some i" using pc by simp
  obtain set a b where f: "i = sv_id s" "sv_set s = Some set" "h = Some p" "ss_val set = [a, b, 1]" "count_ok (sv_pc s) b" "ss_adj set p 2 = -1" "ss_adj set p 1 = 0"
    "p \<notin> users (sv_pc s)" "sv_live i s = Some set" by (rule holder_facts [OF inv l])
  have pk: "pcs_ok n h s" using inv by (simp add: sv_inv_def)
  have late: "\<exists>p. late (sv_pc s p)" using pc by (auto intro: exI [of _ p])
  then have b: "b = BIGCOUNT - int (card (users (sv_pc s)))" "\<forall>p. \<not> early (sv_pc s p)" using f(5) by (auto simp: count_ok_def split: if_splits)
  have "insert p (users (sv_pc s)) \<subseteq> {..<n}" using users_fin [OF pk] p by auto
  then have "card (insert p (users (sv_pc s))) \<le> n" using card_mono [of "{..<n}"] by fastforce
  then have c: "card (insert p (users (sv_pc s))) = Suc (card (users (sv_pc s)))" "Suc (card (users (sv_pc s))) \<le> n" using users_fin [OF pk] f(8) by auto
  have bb: "0 < b - 1" "b \<le> BIGCOUNT" using b(1) c(2) n by auto
  let ?set = "set\<lparr>ss_val := [a, b - 1, 0], ss_adj := (ss_adj set)(p := (ss_adj set p)(1 := 1, 2 := 0))\<rparr>"
  have t: "t = go p (Using i) (s\<lparr>sv_set := Some ?set\<rparr>)" using st pc f bb by (simp add: sem_create_step_def do_semop_def endcreate_eq)
  have "count_ok ((sv_pc s)(p := Using i)) (b - 1)" using b c bb by (simp add: count_ok_def users_upd)
  then show ?thesis using holder_move [OF inv p l, of "Using i" ?set a "b - 1"] f unfolding t by auto
qed

lemma create_lock_inv:
  assumes inv: "sv_inv n h s" and p: "p < n" and pc: "sv_pc s p = CGet \<or> sv_pc s p = CLock i" and st: "sem_create_step full initval p s = Some t" and n: "int n < BIGCOUNT"
  shows "\<exists>h. sv_inv n h t"
proof -
  have pk: "pcs_ok n h s" using inv by (simp add: sv_inv_def)
  have neutral: "\<exists>h. sv_inv n h (go p q s)" if "q = Idle \<or> q = CGet \<or> (\<exists>j. q = CLock j)" for q using go_neutral [OF inv, of q p] pc that by auto
  have nl: "lock_id (sv_pc s p) = None" "user_id (sv_pc s p) = None" using pc by auto
  have "h \<noteq> Some p" using pk nl(1) unfolding pcs_ok_def by blast
  then have hp: "h \<noteq> Some p" "p \<notin> users (sv_pc s)" using nl(2) by (auto simp: users_def)
  show ?thesis
  proof (cases "sv_pc s p = CGet")
    case True
    show ?thesis
    proof (cases "full \<or> sv_set s \<noteq> None")
      case False
      let ?s = "s\<lparr>sv_id := Suc (sv_id s), sv_set := Some (new_set 3)\<rparr>"
      have none: "lock_id (sv_pc s r) = None" "user_id (sv_pc s r) = None" for r using pk False unfolding pcs_ok_def by (metis option.exhaust)+
      have u: "users (sv_pc s) = {}" and h: "h = None" using pk none unfolding users_def pcs_ok_def by auto
      have late: "\<not> late (sv_pc s r)" for r using none(1) [of r] by (cases "sv_pc s r") auto
      have "sv_inv n None ?s" using pk none u late h by (simp add: sv_inv_def pcs_ok_def set_ok_def new_set_def numeral_3_eq_3 count_ok_def)
      then have "sv_inv n None (go p (CLock (Suc (sv_id s))) ?s)" using go_neutral [of n None ?s "CLock (Suc (sv_id s))" p] True by simp
      moreover have "t = go p (CLock (Suc (sv_id s))) ?s" using st True False by (simp add: sem_create_step_def)
      ultimately show ?thesis by blast
    qed (use st True neutral in \<open>auto simp: sem_create_step_def\<close>)
  next
    case False
    then have pc1: "sv_pc s p = CLock i" using pc by simp
    show ?thesis
    proof (cases "sv_live i s")
      case None
      have "sv_asleep s p \<Longrightarrow> t = die p (EndedBy ''can't lock'' EIDRM) s" "\<not> sv_asleep s p \<Longrightarrow> t = go p CGet s"
        using st pc1 None by (auto simp: sem_create_step_def do_semop_def err_sys_def EIDRM_def EINVAL_def)
      then show ?thesis using neutral [of CGet] die_inv [OF inv _ _ _ _ _ _ n, of "EndedBy ''can't lock'' EIDRM" p] by (cases "sv_asleep s p") auto
    next
      case (Some set)
      then have id: "i = sv_id s" "sv_set s = Some set" by (auto simp: sv_live_def split: if_splits)
      then have ok: "set_ok h (sv_pc s) set" using inv by (simp add: sv_inv_def)
      then obtain a b where v: "ss_val set = [a, b, if h = None then 0 else 1]" "count_ok (sv_pc s) b" by (auto simp: set_ok_def)
      have adj: "ss_adj set p 2 = 0" using ok hp by (auto simp: set_ok_def)
      show ?thesis
      proof (cases "h = None")
        case True
        let ?set = "set\<lparr>ss_val := [a, b, 1], ss_adj := undo p 2 1 set\<rparr>"
        have t: "t = go p (CCount i) (s\<lparr>sv_set := Some ?set\<rparr>)" using st pc1 Some v True by (simp add: sem_create_step_def do_semop_def lock_eq [OF v(1) adj])
        have "count_ok ((sv_pc s)(p := CCount i)) b" using v(2) hp by (auto simp: count_ok_def users_upd)
        then have "set_ok (Some p) ((sv_pc s)(p := CCount i)) ?set" using ok hp True by (auto simp: set_ok_def users_upd undo_def)
        moreover have "pcs_ok n (Some p) t" using pcs_go [OF pk p, of "CCount i" ?set] id True unfolding t by simp
        ultimately show ?thesis unfolding t by (intro exI [of _ "Some p"]) (simp add: sv_inv_def go_def)
      next
        case False
        then have "t = s\<lparr>sv_asleep := (sv_asleep s)(p := True)\<rparr>" using st pc1 Some v by (auto simp: sem_create_step_def do_semop_def lock_eq [OF v(1) adj] split: if_splits)
        then show ?thesis using inv inv_asleep by blast
      qed
    qed
  qed
qed

lemma create_inv:
  assumes "sv_inv n h s" "p < n" "sem_create_step full initval p s = Some t" "0 \<le> initval" "initval \<le> SEMVMX" "int n < BIGCOUNT"
  shows "\<exists>h. sv_inv n h t"
proof (cases "sv_pc s p")
  case CGet
  then show ?thesis using create_lock_inv [OF assms(1,2) _ assms(3,6)] by blast
next
  case (CLock i)
  then show ?thesis using create_lock_inv [OF assms(1,2) _ assms(3,6)] by blast
next
  case (CCount i)
  then show ?thesis by (rule create_count_inv [OF assms(1,2) _ assms(3)])
next
  case (CSet0 i)
  then show ?thesis using create_set_inv [OF assms(1,2) _ assms(3-6)] by blast
next
  case (CSet1 i)
  then show ?thesis using create_set_inv [OF assms(1,2) _ assms(3-6)] by blast
next
  case (CEnd i)
  then show ?thesis by (rule create_end_inv [OF assms(1,2) _ assms(3,6)])
qed (use assms(3) in \<open>simp_all add: sem_create_step_def\<close>)

lemma close_wait_inv:
  assumes inv: "sv_inv n h s" and p: "p < n" and pc: "sv_pc s p = XClose i" and st: "sem_close_step p s = Some t" and n: "int n < BIGCOUNT"
  shows "\<exists>h. sv_inv n h t"
proof -
  have l: "user_id (sv_pc s p) = Some i" using pc by simp
  obtain set a b where f: "i = sv_id s" "sv_set s = Some set" "h \<noteq> Some p" "ss_val set = [a, b, if h = None then 0 else 1]" "count_ok (sv_pc s) b" "set_ok h (sv_pc s) set"
    "ss_adj set p 2 = 0" "ss_adj set p 1 = 1" "p \<in> users (sv_pc s)" "sv_live i s = Some set" by (rule user_facts [OF inv l])
  have pk: "pcs_ok n h s" using inv by (simp add: sv_inv_def)
  have b: "b = BIGCOUNT - int (card (users (sv_pc s)))" "\<forall>p. \<not> early (sv_pc s p)" using f(5,9) by (auto simp: count_ok_def split: if_splits)
  have c: "card (users (sv_pc s) - {p}) = card (users (sv_pc s)) - 1" "0 < card (users (sv_pc s))" using users_fin [OF pk] f(9) by (auto simp: card_gt_0_iff)
  have bb: "0 \<le> b" "b < BIGCOUNT" using b(1) c(2) users_card [OF pk] n by auto
  note eq = close_eq [OF f(4) bb f(8,7)]
  show ?thesis
  proof (cases "h = None")
    case True
    let ?set = "set\<lparr>ss_val := [a, b + 1, 1], ss_adj := (ss_adj set)(p := (ss_adj set p)(2 := -1, 1 := 0))\<rparr>"
    have t: "t = go p (XCount i) (s\<lparr>sv_set := Some ?set\<rparr>)" using st pc f(10) True by (simp add: sem_close_step_def do_semop_def eq)
    have "count_ok ((sv_pc s)(p := XCount i)) (b + 1)" using b c bb by (simp add: count_ok_def users_upd)
    then have "set_ok (Some p) ((sv_pc s)(p := XCount i)) ?set" using f(6) True by (auto simp: set_ok_def users_upd)
    moreover have "pcs_ok n (Some p) t" using pcs_go [OF pk p, of "XCount i" ?set] f(1,2) True unfolding t by simp
    ultimately show ?thesis unfolding t by (intro exI [of _ "Some p"]) (simp add: sv_inv_def go_def)
  next
    case False
    then have "t = s\<lparr>sv_asleep := (sv_asleep s)(p := True)\<rparr>" using st pc f(10) by (auto simp: sem_close_step_def do_semop_def eq split: if_splits)
    then show ?thesis using inv inv_asleep by blast
  qed
qed

lemma close_held_inv:
  assumes inv: "sv_inv n h s" and p: "p < n" and pc: "sv_pc s p = XCount i \<or> sv_pc s p = XUnlock i" and st: "sem_close_step p s = Some t" and n: "int n < BIGCOUNT"
  shows "\<exists>h. sv_inv n h t"
proof -
  have l: "lock_id (sv_pc s p) = Some i" using pc by auto
  obtain set a b where f: "i = sv_id s" "sv_set s = Some set" "h = Some p" "ss_val set = [a, b, 1]" "count_ok (sv_pc s) b" "ss_adj set p 2 = -1" "ss_adj set p 1 = 0"
    "p \<notin> users (sv_pc s)" "sv_live i s = Some set" by (rule holder_facts [OF inv l])
  have pk: "pcs_ok n h s" using inv by (simp add: sv_inv_def)
  have "\<exists>p. late (sv_pc s p)" using pc by (auto intro: exI [of _ p])
  then have b: "b = BIGCOUNT - int (card (users (sv_pc s)))" "\<forall>p. \<not> early (sv_pc s p)" "b \<noteq> 0" using f(5) by (auto simp: count_ok_def split: if_splits)
  show ?thesis
  proof (cases "sv_pc s p = XCount i")
    case True
    let ?q = "if b = BIGCOUNT then XRm i else XUnlock i"
    have t: "t = go p ?q (s\<lparr>sv_set := Some set\<rparr>)" using st True f(4,9) b(1) unfolding set_same [OF f(2)] by (auto simp: sem_close_step_def do_getval_def getval_def)
    have "removing ?q \<Longrightarrow> users (sv_pc s) = {}" using b(1) users_fin [OF pk] by (auto split: if_splits)
    moreover have "count_ok ((sv_pc s)(p := ?q)) b" using f(8) b by (auto simp: count_ok_def users_upd)
    ultimately show ?thesis using holder_move [OF inv p l, of ?q set a b] f unfolding t by auto
  next
    case False
    then have pc1: "sv_pc s p = XUnlock i" using pc by simp
    let ?set = "set\<lparr>ss_val := [a, b, 0], ss_adj := (ss_adj set)(p := (ss_adj set p)(2 := 0))\<rparr>"
    have t: "t = go p Idle (s\<lparr>sv_set := Some ?set\<rparr>)" using st pc1 f(9) by (simp add: sem_close_step_def do_semop_def unlock_eq [OF f(4,6)])
    have "count_ok ((sv_pc s)(p := Idle)) b" using f(8) b by (auto simp: count_ok_def users_upd)
    then show ?thesis using holder_move [OF inv p l, of Idle ?set a b] f unfolding t by auto
  qed
qed

lemma close_rm_inv:
  assumes inv: "sv_inv n h s" and pc: "sv_pc s p = XRm i" and st: "sem_close_step p s = Some t"
  shows "sv_inv n None t \<and> sv_set t = None \<and> users (sv_pc s) = {}"
proof -
  have l: "lock_id (sv_pc s p) = Some i" using pc by simp
  obtain set where f: "i = sv_id s" "sv_set s = Some set" "h = Some p" "sv_live i s = Some set" by (rule holder_facts [OF inv l])
  have pk: "pcs_ok n h s" using inv by (simp add: sv_inv_def)
  have t: "t = go p Idle (s\<lparr>sv_set := None\<rparr>)" using st pc f(4) by (simp add: sem_close_step_def sem_rm_def)
  have "removing (sv_pc s p)" using pc by simp
  then have u: "users (sv_pc s) = {}" using pk unfolding pcs_ok_def by blast
  have none: "lock_id (sv_pc s r) = None" if "r \<noteq> p" for r using pk f(3) that by (auto simp: pcs_ok_def)
  have "user_id (sv_pc s r) = None" for r using u by (auto simp: users_def)
  moreover have "users ((sv_pc s)(p := Idle)) = {}" using u by (simp add: users_upd)
  ultimately show ?thesis using pk none u unfolding t by (auto simp: sv_inv_def pcs_ok_def go_def)
qed

lemma close_inv:
  assumes "sv_inv n h s" "p < n" "sem_close_step p s = Some t" "int n < BIGCOUNT"
  shows "\<exists>h. sv_inv n h t"
proof (cases "sv_pc s p")
  case (XClose i)
  then show ?thesis by (rule close_wait_inv [OF assms(1,2) _ assms(3,4)])
next
  case (XCount i)
  then show ?thesis using close_held_inv [OF assms(1,2) _ assms(3,4)] by blast
next
  case (XUnlock i)
  then show ?thesis using close_held_inv [OF assms(1,2) _ assms(3,4)] by blast
next
  case (XRm i)
  then show ?thesis using close_rm_inv [OF assms(1) _ assms(3)] by blast
qed (use assms(3) in \<open>simp_all add: sem_close_step_def\<close>)

lemma op_inv:
  assumes inv: "sv_inv n h s" and p: "p < n" and st: "sem_op_step p s = Some t" and n: "int n < BIGCOUNT"
  shows "\<exists>h. sv_inv n h t"
proof -
  obtain i v where pc: "sv_pc s p = UOp i v" using st by (cases "sv_pc s p") (auto simp: sem_op_step_def)
  have l: "user_id (sv_pc s p) = Some i" using pc by simp
  obtain set a b where f: "i = sv_id s" "sv_set s = Some set" "h \<noteq> Some p" "ss_val set = [a, b, if h = None then 0 else 1]" "count_ok (sv_pc s) b" "set_ok h (sv_pc s) set"
    "ss_adj set p 2 = 0" "ss_adj set p 1 = 1" "p \<in> users (sv_pc s)" "sv_live i s = Some set" by (rule user_facts [OF inv l])
  show ?thesis
  proof (cases "to_short v = 0")
    case True
    then have "t = die p (EndedBy ''can't have value == 0'' 0) s" using st pc by (simp add: sem_op_step_def err_sys_def)
    then show ?thesis using die_inv [OF inv _ _ _ _ _ _ n, of "EndedBy ''can't have value == 0'' 0" p] by simp
  next
    case False
    let ?set = "set\<lparr>ss_val := [a + to_short v, b, if h = None then 0 else 1], ss_adj := undo p 0 (to_short v) set\<rparr>"
    consider "semop p (op_op (to_short v)) set = Waits" | "semop p (op_op (to_short v)) set = SemErr ERANGE" | "semop p (op_op (to_short v)) set = Performed ?set"
      using op_result [OF f(4) False] by blast
    then show ?thesis
    proof cases
      case 1
      then have "t = s\<lparr>sv_asleep := (sv_asleep s)(p := True)\<rparr>" using st pc f(10) False by (auto simp: sem_op_step_def do_semop_def split: if_splits)
      then show ?thesis using inv inv_asleep by blast
    next
      case 2
      then have "t = die p (EndedBy ''sem_op error'' ERANGE) s" using st pc f(10) False by (simp add: sem_op_step_def do_semop_def err_sys_def)
      then show ?thesis using die_inv [OF inv _ _ _ _ _ _ n, of "EndedBy ''sem_op error'' ERANGE" p] by simp
    next
      case 3
      then have t: "t = go p (Using i) (s\<lparr>sv_set := Some ?set\<rparr>)" using st pc f(10) False by (simp add: sem_op_step_def do_semop_def)
      have "sv_inv n h (s\<lparr>sv_set := Some ?set\<rparr>)" using inv f(2,5,6) by (simp add: sv_inv_def pcs_ok_def set_ok_def undo_def)
      then show ?thesis using go_neutral [of n h "s\<lparr>sv_set := Some ?set\<rparr>" "Using i" p] pc unfolding t by auto
    qed
  qed
qed

lemma call_inv:
  assumes inv: "sv_inv n h s" and p: "p < n" and st: "sem_call full initval p s = Some t" and v: "0 \<le> initval" "initval \<le> SEMVMX" "int n < BIGCOUNT"
  shows "\<exists>h. sv_inv n h t"
proof -
  have "plain (sv_pc s p)" using inv by (simp add: sv_inv_def pcs_ok_def)
  then have o: "sem_open_step full p s = None" "\<And>i. sv_pc s p \<noteq> RRm i" by (auto simp: sem_open_step_def split: spc.splits)
  consider "sem_create_step full initval p s = Some t" | "sem_close_step p s = Some t" | "sem_op_step p s = Some t"
    using st o by (auto simp: sem_call_def split: option.splits spc.splits)
  then show ?thesis by cases (use create_inv [OF inv p _ v] close_inv [OF inv p _ v(3)] op_inv [OF inv p _ v(3)] in blast)+
qed

lemma sv_step_inv:
  assumes "sv_step False False ends n key initval s t" "sv_inv n h s" "0 \<le> initval" "initval \<le> SEMVMX" "int n < BIGCOUNT"
  shows "\<exists>h. sv_inv n h t"
  using assms(1)
proof (cases rule: sv_step.cases)
  case (sv_create p)
  moreover have "call_create key = Idle \<or> call_create key = CGet" by (simp add: call_create_def)
  ultimately show ?thesis using go_neutral [OF assms(2), of Idle p] go_neutral [OF assms(2), of CGet p] by auto
next
  case (sv_op p i v)
  then show ?thesis using go_neutral [OF assms(2), of "UOp i v" p] by auto
next
  case (sv_close p i)
  then show ?thesis using go_neutral [OF assms(2), of "XClose i" p] by auto
next
  case (sv_call p full)
  then show ?thesis using call_inv [OF assms(2) _ _ assms(3-5)] by blast
next
  case (sv_end p)
  then show ?thesis using die_inv [OF assms(2) _ _ _ _ _ _ assms(5), of Dead p] by simp
qed simp_all

lemma sv_steps_inv:
  assumes "(sv_step False False ends n key initval)\<^sup>*\<^sup>* sv_start s" "0 \<le> initval" "initval \<le> SEMVMX" "int n < BIGCOUNT"
  shows "\<exists>h. sv_inv n h s"
  using assms(1)
proof (induction rule: rtranclp_induct)
  case base
  have "sv_inv n None sv_start" by (simp add: sv_inv_def pcs_ok_def sv_start_def)
  then show ?case by blast
next
  case (step y z)
  then show ?case using sv_step_inv [OF _ _ assms(2-4)] by blast
qed

text \<open>
  C8: Fewer than BIGCOUNT processes call \<^verbatim>\<open>sem_create\<close>, \<^verbatim>\<open>sem_op\<close> and \<^verbatim>\<open>sem_close\<close> in any interleaving, and may end at any point. At most one of them is between the lock and the unlock; while a process uses the semaphore the set that it was given exists, and its counter
  is BIGCOUNT less the number of users; the set is initialised or removed only while nobody uses it; and a process is ended by an error of the library in three cases only: the set was removed while it waited for the lock, a value of the semaphore out of range, or an operation with the amount 0.
\<close>

theorem sem_interface_safe:
  assumes "int n < BIGCOUNT" "0 \<le> initval" "initval \<le> SEMVMX" "(sv_step False False ends n key initval)\<^sup>*\<^sup>* sv_start s"
  shows "(\<forall>p q. lock_id (sv_pc s p) \<noteq> None \<and> lock_id (sv_pc s q) \<noteq> None \<longrightarrow> p = q) \<and>
    (\<forall>p i. user_id (sv_pc s p) = Some i \<longrightarrow> i = sv_id s \<and> (\<exists>st. sv_set s = Some st \<and> ss_val st ! 1 = BIGCOUNT - int (card (users (sv_pc s))))) \<and>
    (\<forall>p i. sv_pc s p \<in> {CSet0 i, CSet1 i, XRm i} \<longrightarrow> users (sv_pc s) = {}) \<and>
    (\<forall>p m e. sv_pc s p = EndedBy m e \<longrightarrow> (m, e) = (''can't lock'', EIDRM) \<or> (m, e) = (''sem_op error'', ERANGE) \<or> m = ''can't have value == 0'')"
proof -
  obtain h where inv: "sv_inv n h s" using sv_steps_inv [OF assms(4,2,3,1)] by blast
  then have pk: "pcs_ok n h s" by (simp add: sv_inv_def)
  have "p = q" if "lock_id (sv_pc s p) \<noteq> None" "lock_id (sv_pc s q) \<noteq> None" for p q using pk that unfolding pcs_ok_def by (metis option.sel)
  moreover have "i = sv_id s \<and> (\<exists>st. sv_set s = Some st \<and> ss_val st ! 1 = BIGCOUNT - int (card (users (sv_pc s))))" if u: "user_id (sv_pc s p) = Some i" for p i
  proof -
    obtain st a b where "i = sv_id s" "sv_set s = Some st" "ss_val st = [a, b, if h = None then 0 else 1]" "count_ok (sv_pc s) b" "p \<in> users (sv_pc s)" by (rule user_facts [OF inv u])
    then show ?thesis by (auto simp: count_ok_def split: if_splits)
  qed
  moreover have "users (sv_pc s) = {}" if q: "sv_pc s p \<in> {CSet0 i, CSet1 i, XRm i}" for p i
  proof (cases "removing (sv_pc s p)")
    case True
    then show ?thesis using pk unfolding pcs_ok_def by blast
  next
    case False
    then have e: "early (sv_pc s p)" "lock_id (sv_pc s p) = Some i" using q by auto
    obtain st a b where "count_ok (sv_pc s) b" by (rule holder_facts [OF inv e(2)])
    then show ?thesis using e(1) by (auto simp: count_ok_def split: if_splits)
  qed
  moreover have "(m, e) = (''can't lock'', EIDRM) \<or> (m, e) = (''sem_op error'', ERANGE) \<or> m = ''can't have value == 0''" if "sv_pc s p = EndedBy m e" for p m e
  proof -
    have "plain (sv_pc s p)" using pk by (simp add: pcs_ok_def)
    then show ?thesis using that by auto
  qed
  ultimately show ?thesis by blast
qed

subsection \<open>Runs\<close>

datatype sv_act = ACreate | AOpen | AUse int | AClose | ACall

fun sv_do :: "int \<Rightarrow> nat \<times> sv_act \<Rightarrow> sv \<Rightarrow> sv option" where
  "sv_do initval (p, ACreate) s = (if sv_pc s p = Idle then Some (go p (call_create 1) s) else None)"
| "sv_do initval (p, AOpen) s = (if sv_pc s p = Idle then Some (go p (call_open 1) s) else None)"
| "sv_do initval (p, AUse v) s = (case sv_pc s p of Using i \<Rightarrow> Some (go p (UOp i v) s) | _ \<Rightarrow> None)"
| "sv_do initval (p, AClose) s = (case sv_pc s p of Using i \<Rightarrow> Some (go p (XClose i) s) | _ \<Rightarrow> None)"
| "sv_do initval (p, ACall) s = sem_call False initval p s"

fun sv_run :: "int \<Rightarrow> (nat \<times> sv_act) list \<Rightarrow> sv \<Rightarrow> sv option" where
  "sv_run initval [] s = Some s"
| "sv_run initval (a # as) s = (case sv_do initval a s of None \<Rightarrow> None | Some t \<Rightarrow> sv_run initval as t)"

lemma sv_do_step: "sv_do initval (p, a) s = Some t \<Longrightarrow> p < n \<Longrightarrow> (a = AOpen \<longrightarrow> opens) \<Longrightarrow> sv_step opens rms ends n 1 initval s t"
  by (cases a) (auto split: if_splits spc.splits intro: sv_step.intros)

lemma sv_run_steps:
  "sv_run initval as s = Some t \<Longrightarrow> \<forall>(p, a) \<in> set as. p < n \<and> (a = AOpen \<longrightarrow> opens) \<Longrightarrow> (sv_step opens rms ends n 1 initval)\<^sup>*\<^sup>* s t"
proof (induction as arbitrary: s)
  case (Cons a as)
  obtain p b where a: "a = (p, b)" by (cases a)
  obtain u where u: "sv_do initval a s = Some u" "sv_run initval as u = Some t" using Cons.prems(1) by (auto split: option.splits)
  have "sv_step opens rms ends n 1 initval s u" using sv_do_step u(1) Cons.prems(2) unfolding a by auto
  moreover have "(sv_step opens rms ends n 1 initval)\<^sup>*\<^sup>* u t" using Cons.IH [OF u(2)] Cons.prems(2) by simp
  ultimately show ?case by (rule converse_rtranclp_into_rtranclp)
qed simp

text \<open>One process creates a semaphore, another waits for the lock while the first closes it.\<close>

definition create_race :: "(nat \<times> sv_act) list" where
  "create_race = (0, ACreate) # replicate 6 (0, ACall) @ [(0, AClose), (0, ACall), (1, ACreate), (1, ACall), (1, ACall), (0, ACall), (0, ACall), (1, ACall)]"

definition open_race :: "(nat \<times> sv_act) list" where
  "open_race = (0, ACreate) # replicate 6 (0, ACall) @ [(0, AClose), (0, ACall), (0, ACall), (1, AOpen), (1, ACall), (1, ACall), (0, ACall)]"

definition sv_view :: "sv \<Rightarrow> spc \<times> spc \<times> bool" where
  "sv_view s = (sv_pc s 0, sv_pc s 1, Option.is_none (sv_set s))"

lemma create_race_run: "map_option sv_view (sv_run 5 create_race sv_start) = Some (Idle, EndedBy ''can't lock'' EIDRM, True)"
  by code_simp

lemma open_race_run: "map_option sv_view (sv_run 5 open_race sv_start) = Some (Idle, Using 1, True)"
  by code_simp

definition create_close :: "(nat \<times> sv_act) list" where
  "create_close = (0, ACreate) # replicate 6 (0, ACall) @ (1, ACreate) # replicate 4 (1, ACall) @ [(1, AUse (-1)), (1, ACall), (0, AClose), (0, ACall)]"

lemma create_close_run: "map_option sv_view (sv_run 5 create_close sv_start) = Some (XCount 1, Using 1, False)"
  by code_simp

theorem sem_interface_safe_witness:
  "\<exists>s st. (sv_step False False True 2 1 5)\<^sup>*\<^sup>* sv_start s \<and> sv_pc s 0 = XCount 1 \<and> sv_pc s 1 = Using 1 \<and> sv_set s = Some st \<and> ss_val st ! 1 = BIGCOUNT - int (card (users (sv_pc s)))"
proof -
  obtain s where s: "sv_run 5 create_close sv_start = Some s" "sv_view s = (XCount 1, Using 1, False)" using create_close_run by auto
  have r: "(sv_step False False True 2 1 5)\<^sup>*\<^sup>* sv_start s" by (rule sv_run_steps [OF s(1)]) (simp add: create_close_def)
  have pc: "sv_pc s 0 = XCount 1" "sv_pc s 1 = Using 1" using s(2) by (simp_all add: sv_view_def)
  have "int 2 < BIGCOUNT" "0 \<le> (5::int)" "5 \<le> SEMVMX" by (simp_all add: BIGCOUNT_def SEMVMX_def)
  moreover have "user_id (sv_pc s 1) = Some 1" using pc(2) by simp
  ultimately have "\<exists>st. sv_set s = Some st \<and> ss_val st ! 1 = BIGCOUNT - int (card (users (sv_pc s)))" using sem_interface_safe [OF _ _ _ r] by blast
  then show ?thesis using r pc by blast
qed


lemma wait_removed:
  assumes "sv_set s = None"
  shows "sem_call full initval p (go p (sem_wait i) s) = Some (err_sys ''sem_op error'' p EINVAL (go p (sem_wait i) s))"
proof -
  have "sv_pc (go p (sem_wait i) s) p = UOp i (-1)" "sv_live i (go p (sem_wait i) s) = None" "\<not> sv_asleep (go p (sem_wait i) s) p"
    using assms by (simp_all add: go_def sem_wait_def sv_live_def)
  then show ?thesis by (simp add: sem_call_def sem_create_step_def sem_open_step_def sem_close_step_def sem_op_step_def do_semop_def to_short_def)
qed


end
