(* ===== verification/Par_Sort.thy ===== *)
theory Par_Sort
  imports Basic_Examples
begin

section \<open>Sorting with several threads and a barrier (apue.3e/threads/barrier.c)\<close>

text \<open>
  Several threads sort a part of an array each and meet the main thread at a barrier, which then merges the parts. The numbers of threads and of elements per thread are arguments here, \<open>K\<close> and \<open>T\<close>;
  the source has \<open>NTHR\<close> and \<open>TNUM\<close>. \<^verbatim>\<open>heapsort\<close> is not in the repository: it is an argument, with the promise of \<^verbatim>\<open>qsort\<close>. While it runs, its thread
  moves the elements of its own part about.
\<close>

subsection \<open>The program\<close>

definition NTHR :: nat where "NTHR = 8"
definition NUMNUM :: nat where "NUMNUM = 8000000"
definition TNUM :: nat where "TNUM = NUMNUM div NTHR"

definition complong :: "int cmp" where
  "complong l1 l2 = Inr (if l1 = l2 then 0 else if l1 < l2 then -1 else 1)"

text \<open>The inner loop of \<^verbatim>\<open>merge\<close>, over the positions in the parts; \<^verbatim>\<open>minidx\<close> has no value before it is first set.\<close>

fun merge_pick :: "nat \<Rightarrow> int list \<Rightarrow> nat \<Rightarrow> nat list \<Rightarrow> int \<Rightarrow> nat option \<Rightarrow> nat option cres" where
  "merge_pick T nums i [] num minidx = Inr minidx"
| "merge_pick T nums i (k # ks) num minidx =
     (if k < (i + 1) * T then
        (if length nums \<le> k then Inl OutOfBounds
         else if nums ! k < num then merge_pick T nums (Suc i) ks (nums ! k) (Some i)
         else merge_pick T nums (Suc i) ks num minidx)
      else merge_pick T nums (Suc i) ks num minidx)"

fun merge_loop :: "nat \<Rightarrow> int list \<Rightarrow> nat \<Rightarrow> nat list \<Rightarrow> nat option \<Rightarrow> int list cres" where
  "merge_loop T nums 0 idx minidx = Inr []"
| "merge_loop T nums (Suc n) idx minidx =
     bind_c (merge_pick T nums 0 idx LLONG_MAX minidx) (\<lambda>m. case m of
         None \<Rightarrow> Inl UninitRead
       | Some j \<Rightarrow>
           if length nums \<le> idx ! j then Inl OutOfBounds
           else bind_c (merge_loop T nums n (idx[j := idx ! j + 1]) m) (\<lambda>r. Inr (nums ! (idx ! j) # r)))"

definition merge_parts :: "nat \<Rightarrow> nat \<Rightarrow> int list \<Rightarrow> int list cres" where
  "merge_parts K T nums = merge_loop T nums (K * T) (map (\<lambda>i. i * T) [0..<K]) None"

text \<open>The threads. The barrier counts those that have arrived; when the last one comes, everybody goes on.\<close>

datatype tstate = NoThread | Sorting | AtBarrier | Returned
datatype mstate = Creating nat | MainWaits | PrintsSorted "int list" | MainFault c_fault | MainExits nat

record psort =
  ps_nums :: "int list"
  ps_thr :: "nat \<Rightarrow> tstate"
  ps_main :: mstate
  ps_bar :: nat

definition part :: "nat \<Rightarrow> nat \<Rightarrow> int list \<Rightarrow> int list" where
  "part T t xs = take T (drop (t * T) xs)"

definition put_part :: "nat \<Rightarrow> nat \<Rightarrow> int list \<Rightarrow> int list \<Rightarrow> int list" where
  "put_part T t ys xs = take (t * T) xs @ ys @ drop (t * T + T) xs"

definition ps_start :: "int list \<Rightarrow> psort" where
  "ps_start nums = \<lparr>ps_nums = nums, ps_thr = (\<lambda>t. NoThread), ps_main = Creating 0, ps_bar = 0\<rparr>"

definition sort_main_step :: "nat \<Rightarrow> nat \<Rightarrow> bool \<Rightarrow> psort \<Rightarrow> psort option" where
  "sort_main_step K T fails s = (case ps_main s of
      Creating i \<Rightarrow> Some (if i < K then
          if fails then s\<lparr>ps_main := MainExits 1\<rparr> else s\<lparr>ps_thr := (ps_thr s)(i := Sorting), ps_main := Creating (Suc i)\<rparr>
        else s\<lparr>ps_main := MainWaits, ps_bar := ps_bar s + 1\<rparr>)
    | MainWaits \<Rightarrow> if ps_bar s = K + 1 then Some (s\<lparr>ps_main := (case merge_parts K T (ps_nums s) of Inl e \<Rightarrow> MainFault e | Inr r \<Rightarrow> PrintsSorted r)\<rparr>) else None
    | _ \<Rightarrow> None)"

definition thr_fn :: "(int cmp \<Rightarrow> int list \<Rightarrow> int list cres) \<Rightarrow> nat \<Rightarrow> nat \<Rightarrow> nat \<Rightarrow> psort \<Rightarrow> psort option" where
  "thr_fn heapsort K T t s = (case ps_thr s t of
      Sorting \<Rightarrow> (case heapsort complong (part T t (ps_nums s)) of
          Inl e \<Rightarrow> Some (s\<lparr>ps_main := MainFault e\<rparr>)
        | Inr ys \<Rightarrow> Some (s\<lparr>ps_nums := put_part T t ys (ps_nums s), ps_thr := (ps_thr s)(t := AtBarrier), ps_bar := ps_bar s + 1\<rparr>))
    | AtBarrier \<Rightarrow> if ps_bar s = K + 1 then Some (s\<lparr>ps_thr := (ps_thr s)(t := Returned)\<rparr>) else None
    | _ \<Rightarrow> None)"

text \<open>\<open>ok\<close> says that threads can be created. The end of the process ends its threads.\<close>

definition ps_runs :: "psort \<Rightarrow> bool" where
  "ps_runs s \<longleftrightarrow> (case ps_main s of Creating i \<Rightarrow> True | MainWaits \<Rightarrow> True | _ \<Rightarrow> False)"

inductive ps_step :: "(int cmp \<Rightarrow> int list \<Rightarrow> int list cres) \<Rightarrow> nat \<Rightarrow> nat \<Rightarrow> bool \<Rightarrow> psort \<Rightarrow> psort \<Rightarrow> bool" for heapsort K T ok where
  ps_of_main: "sort_main_step K T fails s = Some s' \<Longrightarrow> (ok \<longrightarrow> \<not> fails) \<Longrightarrow> ps_step heapsort K T ok s s'"
| ps_of_thread: "t < K \<Longrightarrow> ps_runs s \<Longrightarrow> thr_fn heapsort K T t s = Some s' \<Longrightarrow> ps_step heapsort K T ok s s'"
| ps_works: "t < K \<Longrightarrow> ps_runs s \<Longrightarrow> ps_thr s t = Sorting \<Longrightarrow> mset ys = mset (part T t (ps_nums s)) \<Longrightarrow>
    ps_step heapsort K T ok s (s\<lparr>ps_nums := put_part T t ys (ps_nums s)\<rparr>)"

subsection \<open>The merge\<close>

definition part_rest :: "nat \<Rightarrow> int list \<Rightarrow> nat list \<Rightarrow> nat \<Rightarrow> int list" where
  "part_rest T nums idx i = take ((i + 1) * T - idx ! i) (drop (idx ! i) nums)"

definition parts_ok :: "nat \<Rightarrow> int list \<Rightarrow> nat list \<Rightarrow> bool" where
  "parts_ok T nums idx \<longleftrightarrow> (\<forall>i<length idx. idx ! i \<le> (i + 1) * T) \<and> length idx * T \<le> length nums"

lemma part_end: "i < (K::nat) \<Longrightarrow> (i + 1) * T \<le> K * T"
  by (rule mult_le_mono1) simp

text \<open>The inner loop finds the least of the next elements, or keeps what it had.\<close>

lemma merge_pick_least:
  assumes "\<forall>i<length ks. (a + i + 1) * T \<le> length nums"
  shows "\<exists>m. merge_pick T nums a ks num minidx = Inr m \<and>
    (m = minidx \<and> (\<forall>i<length ks. ks ! i < (a + i + 1) * T \<longrightarrow> num \<le> nums ! (ks ! i)) \<or>
     (\<exists>j<length ks. m = Some (a + j) \<and> ks ! j < (a + j + 1) * T \<and> nums ! (ks ! j) < num \<and> (\<forall>i<length ks. ks ! i < (a + i + 1) * T \<longrightarrow> nums ! (ks ! j) \<le> nums ! (ks ! i))))"
  using assms
proof (induction ks arbitrary: a num minidx)
  case (Cons k ks)
  have T: "(a + 1) * T \<le> length nums" using Cons.prems by (auto dest: spec [of _ 0])
  have tl: "\<forall>i<length ks. (Suc a + i + 1) * T \<le> length nums" using Cons.prems by (auto dest: spec [of _ "Suc i" for i])
  let ?better = "k < (a + 1) * T \<and> nums ! k < num"
  define num1 where "num1 = (if ?better then nums ! k else num)"
  define m1 where "m1 = (if ?better then Some a else minidx)"
  have step: "merge_pick T nums a (k # ks) num minidx = merge_pick T nums (Suc a) ks num1 m1"
    using T by (auto simp: num1_def m1_def)
  obtain m where m: "merge_pick T nums (Suc a) ks num1 m1 = Inr m"
    and c: "m = m1 \<and> (\<forall>i<length ks. ks ! i < (Suc a + i + 1) * T \<longrightarrow> num1 \<le> nums ! (ks ! i)) \<or>
     (\<exists>j<length ks. m = Some (Suc a + j) \<and> ks ! j < (Suc a + j + 1) * T \<and> nums ! (ks ! j) < num1 \<and> (\<forall>i<length ks. ks ! i < (Suc a + i + 1) * T \<longrightarrow> nums ! (ks ! j) \<le> nums ! (ks ! i)))"
    using Cons.IH [OF tl, of num1 m1] by blast
  have le: "num1 \<le> num" "k < (a + 1) * T \<Longrightarrow> num1 \<le> nums ! k" by (auto simp: num1_def)
  have all: "(\<forall>i<length (k # ks). (k # ks) ! i < (a + i + 1) * T \<longrightarrow> v \<le> nums ! ((k # ks) ! i)) \<longleftrightarrow>
      (k < (a + 1) * T \<longrightarrow> v \<le> nums ! k) \<and> (\<forall>i<length ks. ks ! i < (Suc a + i + 1) * T \<longrightarrow> v \<le> nums ! (ks ! i))" for v
    by (auto simp: less_Suc_eq_0_disj)
  from c show ?case
  proof
    assume c1: "m = m1 \<and> (\<forall>i<length ks. ks ! i < (Suc a + i + 1) * T \<longrightarrow> num1 \<le> nums ! (ks ! i))"
    show ?thesis
    proof (cases ?better)
      case True
      then have "m = Some (a + 0)" "num1 = nums ! k" using c1 by (auto simp: num1_def m1_def)
      then show ?thesis unfolding step m all using c1 True by (intro exI [of _ m] conjI refl disjI2 exI [of _ 0]) auto
    next
      case False
      then have "m = minidx" "num1 = num" using c1 by (auto simp: num1_def m1_def)
      then show ?thesis unfolding step m all using c1 le by auto
    qed
  next
    assume "\<exists>j<length ks. m = Some (Suc a + j) \<and> ks ! j < (Suc a + j + 1) * T \<and> nums ! (ks ! j) < num1 \<and> (\<forall>i<length ks. ks ! i < (Suc a + i + 1) * T \<longrightarrow> nums ! (ks ! j) \<le> nums ! (ks ! i))"
    then obtain j where j: "j < length ks" "m = Some (Suc a + j)" "ks ! j < (Suc a + j + 1) * T" "nums ! (ks ! j) < num1"
      "\<forall>i<length ks. ks ! i < (Suc a + i + 1) * T \<longrightarrow> nums ! (ks ! j) \<le> nums ! (ks ! i)" by blast
    then show ?thesis unfolding step m all using le by (intro exI [of _ m] conjI refl disjI2 exI [of _ "Suc j"]) auto
  qed
qed simp

lemma rest_nonempty: "parts_ok T nums idx \<Longrightarrow> i < length idx \<Longrightarrow> part_rest T nums idx i \<noteq> [] \<longleftrightarrow> idx ! i < (i + 1) * T"
  using part_end [of i "length idx" T] by (auto simp: part_rest_def parts_ok_def)

lemma rest_step:
  assumes "parts_ok T nums idx" "j < length idx" "idx ! j < (j + 1) * T"
  shows "part_rest T nums idx j = nums ! (idx ! j) # part_rest T nums (idx[j := idx ! j + 1]) j"
    and "idx ! j < length nums" and "parts_ok T nums (idx[j := idx ! j + 1])"
proof -
  show len: "idx ! j < length nums" using assms part_end [of j "length idx" T] by (auto simp: parts_ok_def)
  obtain d where d: "(j + 1) * T = idx ! j + Suc d" using less_imp_Suc_add [OF assms(3)] by auto
  show "part_rest T nums idx j = nums ! (idx ! j) # part_rest T nums (idx[j := idx ! j + 1]) j"
    using assms(2) Cons_nth_drop_Suc [OF len, symmetric] unfolding part_rest_def d by simp
  have "(idx[j := idx ! j + 1]) ! i \<le> (i + 1) * T" if "i < length idx" for i using assms that by (cases "i = j") (auto simp: parts_ok_def)
  then show "parts_ok T nums (idx[j := idx ! j + 1])" using assms(1) by (auto simp: parts_ok_def)
qed

lemma rest_other: "i \<noteq> j \<Longrightarrow> part_rest T nums (idx[j := v]) i = part_rest T nums idx i"
  by (simp add: part_rest_def)

lemma sum_one:
  fixes f g :: "nat \<Rightarrow> 'b :: comm_monoid_add"
  assumes "j < K" "f j = v + g j" "\<And>i. i \<noteq> j \<Longrightarrow> f i = g i"
  shows "(\<Sum>i<K. f i) = v + (\<Sum>i<K. g i)"
proof -
  have "(\<Sum>i<K. f i) = f j + (\<Sum>i\<in>{..<K} - {j}. f i)" using assms(1) by (simp add: sum.remove)
  also have "\<dots> = v + (g j + (\<Sum>i\<in>{..<K} - {j}. g i))" using assms(2,3) by (simp add: add.assoc)
  also have "\<dots> = v + (\<Sum>i<K. g i)" using assms(1) by (simp add: sum.remove)
  finally show ?thesis .
qed

lemma merge_loop_sorts:
  assumes "parts_ok T nums idx" "\<forall>i<length idx. sorted (part_rest T nums idx i)" "\<forall>i<length idx. \<forall>x\<in>set (part_rest T nums idx i). x < LLONG_MAX" "n = (\<Sum>i<length idx. length (part_rest T nums idx i))"
  shows "\<exists>r. merge_loop T nums n idx minidx = Inr r \<and> sorted r \<and> mset r = (\<Sum>i<length idx. mset (part_rest T nums idx i))"
  using assms
proof (induction n arbitrary: idx minidx)
  case 0
  then have "mset (part_rest T nums idx i) = {#}" if "i < length idx" for i using that by simp
  then show ?case by simp
next
  case (Suc n)
  obtain i0 where i0: "i0 < length idx" "part_rest T nums idx i0 \<noteq> []"
  proof (rule ccontr)
    assume "\<not> thesis"
    then have "\<forall>i<length idx. length (part_rest T nums idx i) = 0" using that by auto
    then show False using Suc.prems(4) by simp
  qed
  have hd: "nums ! (idx ! i) \<in> set (part_rest T nums idx i)" if "i < length idx" "idx ! i < (i + 1) * T" for i using rest_step(1) [OF Suc.prems(1) that] by simp
  have bound: "\<forall>i<length idx. (0 + i + 1) * T \<le> length nums" using Suc.prems(1) part_end [of _ "length idx" T] by (auto simp: parts_ok_def intro: le_trans)
  have i0': "idx ! i0 < (i0 + 1) * T" using i0 rest_nonempty [OF Suc.prems(1)] by simp
  then have small: "\<not> LLONG_MAX \<le> nums ! (idx ! i0)" using hd [OF i0(1)] Suc.prems(3) i0(1) by force
  obtain m where m: "merge_pick T nums 0 idx LLONG_MAX minidx = Inr m"
    and c: "m = minidx \<and> (\<forall>i<length idx. idx ! i < (0 + i + 1) * T \<longrightarrow> LLONG_MAX \<le> nums ! (idx ! i)) \<or>
      (\<exists>j<length idx. m = Some (0 + j) \<and> idx ! j < (0 + j + 1) * T \<and> nums ! (idx ! j) < LLONG_MAX \<and> (\<forall>i<length idx. idx ! i < (0 + i + 1) * T \<longrightarrow> nums ! (idx ! j) \<le> nums ! (idx ! i)))"
    using merge_pick_least [of idx 0 T nums LLONG_MAX minidx, OF bound] by (elim exE conjE) (rule that)
  then obtain j where j: "j < length idx" "m = Some j" "idx ! j < (j + 1) * T" and least: "\<And>i. i < length idx \<Longrightarrow> idx ! i < (i + 1) * T \<Longrightarrow> nums ! (idx ! j) \<le> nums ! (idx ! i)"
    using small i0(1) i0' by auto
  let ?idx = "idx[j := idx ! j + 1]" and ?x = "nums ! (idx ! j)"
  note st = rest_step [OF Suc.prems(1) j(1,3)]
  have others: "part_rest T nums ?idx i = part_rest T nums idx i" if "i \<noteq> j" for i using that by (simp add: rest_other)
  have sub: "set (part_rest T nums ?idx i) \<subseteq> set (part_rest T nums idx i)" "sorted (part_rest T nums idx i) \<Longrightarrow> sorted (part_rest T nums ?idx i)" for i
    using st(1) others [of i] by (cases "i = j"; auto)+
  have lens: "Suc n = 1 + (\<Sum>i<length idx. length (part_rest T nums ?idx i))"
    unfolding Suc.prems(4) by (rule sum_one [OF j(1)]) (use st(1) others in auto)
  have msets: "(\<Sum>i<length idx. mset (part_rest T nums idx i)) = {#?x#} + (\<Sum>i<length idx. mset (part_rest T nums ?idx i))"
    by (rule sum_one [OF j(1)]) (use st(1) others in auto)
  have "\<exists>r. merge_loop T nums n ?idx m = Inr r \<and> sorted r \<and> mset r = (\<Sum>i<length ?idx. mset (part_rest T nums ?idx i))"
    by (rule Suc.IH) (use st(3) Suc.prems(2,3) sub lens in \<open>auto simp: subset_iff\<close>)
  then obtain r where r: "merge_loop T nums n ?idx m = Inr r" "sorted r" "mset r = (\<Sum>i<length idx. mset (part_rest T nums ?idx i))" by auto
  have first: "?x \<le> y" if y: "y \<in> set r" for y
  proof -
    have "y \<in># (\<Sum>i<length idx. mset (part_rest T nums ?idx i))" using y r(3) by (metis set_mset_mset)
    then obtain i where i: "i < length idx" "y \<in> set (part_rest T nums ?idx i)" by (auto simp: set_mset_sum)
    then have in_old: "y \<in> set (part_rest T nums idx i)" using sub(1) by blast
    then have ne: "idx ! i < (i + 1) * T" using rest_nonempty [OF Suc.prems(1) i(1)] by fastforce
    have "nums ! (idx ! i) \<le> y" using in_old Suc.prems(2) i(1) rest_step(1) [OF Suc.prems(1) i(1) ne] by auto
    then show ?thesis using least [OF i(1) ne] by simp
  qed
  have run: "merge_loop T nums (Suc n) idx minidx = Inr (?x # r)" using m j(2) st(2) r(1) by simp
  show ?case unfolding run msets using r first by (intro exI [of _ "?x # r"] conjI refl) auto
qed

lemma sum_parts: "length xs = K * T \<Longrightarrow> (\<Sum>i<K. mset (part T i xs)) = mset xs"
proof (induction K arbitrary: xs)
  case (Suc K)
  let ?ys = "take (K * T) xs"
  have "part T i ?ys = part T i xs" if "i < K" for i
    using part_end [OF that, of T] by (simp add: part_def drop_take min_absorb2 take_take add.commute)
  then have "(\<Sum>i<K. mset (part T i xs)) = mset ?ys" using Suc.IH [of ?ys] Suc.prems by simp
  moreover have "part T K xs = drop (K * T) xs" using Suc.prems by (simp add: part_def)
  ultimately show ?case using append_take_drop_id [of "K * T" xs] by (metis mset_append sum.lessThan_Suc)
qed simp

lemma merge_parts_sorts:
  assumes "length nums = K * T" "\<forall>i<K. sorted (part T i nums)" "\<forall>x\<in>set nums. x < LLONG_MAX"
  shows "merge_parts K T nums = Inr (sort nums)"
proof -
  let ?idx = "map (\<lambda>i. i * T) [0..<K]"
  have part_rest: "part_rest T nums ?idx i = part T i nums" if "i < K" for i using that by (simp add: part_rest_def part_def)
  have len: "length (part T i nums) = T" if "i < K" for i using part_end [OF that, of T] assms(1) by (simp add: part_def)
  have ok: "parts_ok T nums ?idx" using assms(1) by (simp add: parts_ok_def)
  have n: "K * T = (\<Sum>i<length ?idx. length (part_rest T nums ?idx i))" using part_rest len by simp
  have sub: "set (part T i nums) \<subseteq> set nums" for i by (auto simp: part_def dest: in_set_takeD in_set_dropD)
  have "\<exists>r. merge_loop T nums (K * T) ?idx None = Inr r \<and> sorted r \<and> mset r = (\<Sum>i<length ?idx. mset (part_rest T nums ?idx i))"
    by (rule merge_loop_sorts [OF ok _ _ n]) (use part_rest assms(2,3) sub in \<open>auto simp: subset_iff\<close>)
  then obtain r where "merge_loop T nums (K * T) ?idx None = Inr r" "sorted r" "mset r = mset nums" using part_rest sum_parts [OF assms(1)] by auto
  then show ?thesis using properties_for_sort [of r nums] by (simp add: merge_parts_def)
qed

subsection \<open>The threads\<close>

lemma complong_le: "cmp_le complong a b \<longleftrightarrow> a \<le> b"
  by (auto simp: cmp_le_def complong_def)

lemma heapsort_sorts: "qsort_spec hs \<Longrightarrow> \<exists>ys. hs complong xs = Inr ys \<and> mset ys = mset xs \<and> sorted ys"
proof -
  assume hs: "qsort_spec hs"
  have "cmp_ok complong xs" by (auto simp: cmp_ok_def complong_le) (auto simp: complong_def)
  moreover have "cmp_le complong = (\<le>)" by (simp add: fun_eq_iff complong_le)
  ultimately show ?thesis using hs unfolding qsort_spec_def by metis
qed

lemma put_part_facts:
  assumes "length xs = K * T" "t < K" "mset ys = mset (part T t xs)"
  shows "length (put_part T t ys xs) = K * T" "part T t (put_part T t ys xs) = ys" "mset (put_part T t ys xs) = mset xs"
    and "u \<noteq> t \<Longrightarrow> part T u (put_part T t ys xs) = part T u xs"
proof -
  have end_t: "t * T + T \<le> K * T" using part_end [OF assms(2), of T] by (simp add: add.commute)
  have mn: "min (K * T) (t * T) = t * T" using end_t by simp
  have "length (part T t xs) = T" using end_t assms(1) by (simp add: part_def)
  then have ly: "length ys = T" using assms(3) by (metis size_mset)
  have whole: "xs = take (t * T) xs @ part T t xs @ drop (t * T + T) xs"
    unfolding part_def by (metis add.commute append_take_drop_id drop_drop)
  show "length (put_part T t ys xs) = K * T" using end_t assms(1) ly by (simp add: put_part_def)
  show "part T t (put_part T t ys xs) = ys" using mn assms(1) ly by (simp add: put_part_def part_def)
  show "mset (put_part T t ys xs) = mset xs" using arg_cong [OF whole, of mset] assms(3) unfolding put_part_def by simp
  assume "u \<noteq> t"
  then consider "u < t" | "t < u" by linarith
  then show "part T u (put_part T t ys xs) = part T u xs"
  proof cases
    case 1
    then have u: "u * T + T \<le> t * T" using part_end [of u t T] by (simp add: add.commute)
    have "length (drop (u * T) (take (t * T) xs)) = t * T - u * T" using mn assms(1) by simp
    then have "take T (drop (u * T) (take (t * T) xs @ zs)) = take T (drop (u * T) (take (t * T) xs))" for zs using u by simp
    also have "take T (drop (u * T) (take (t * T) xs)) = take T (drop (u * T) xs)" using u by (simp add: drop_take min_absorb1 le_diff_conv2)
    finally show ?thesis unfolding put_part_def part_def .
  next
    case 2
    then have u: "t * T + T \<le> u * T" using part_end [of t u T] by (simp add: add.commute)
    have "drop (u * T) (take (t * T) xs @ ys @ drop (t * T + T) xs) = drop (u * T) xs" using u mn assms(1) ly 2 by simp
    then show ?thesis unfolding put_part_def part_def by simp
  qed
qed

definition arrived :: "nat \<Rightarrow> psort \<Rightarrow> nat set" where
  "arrived K s = {t. t < K \<and> (ps_thr s t = AtBarrier \<or> ps_thr s t = Returned)}"

definition main_ok :: "nat \<Rightarrow> int list \<Rightarrow> psort \<Rightarrow> bool" where
  "main_ok K nums s = (case ps_main s of
      Creating i \<Rightarrow> i \<le> K \<and> (\<forall>t<K. ps_thr s t = NoThread \<longleftrightarrow> i \<le> t) \<and> ps_bar s = card (arrived K s)
    | MainWaits \<Rightarrow> (\<forall>t<K. ps_thr s t \<noteq> NoThread) \<and> ps_bar s = card (arrived K s) + 1
    | PrintsSorted r \<Rightarrow> r = sort nums
    | MainFault e \<Rightarrow> False
    | MainExits n \<Rightarrow> True)"

definition ps_inv :: "nat \<Rightarrow> nat \<Rightarrow> int list \<Rightarrow> psort \<Rightarrow> bool" where
  "ps_inv K T nums s \<longleftrightarrow> length (ps_nums s) = K * T \<and> mset (ps_nums s) = mset nums \<and> (\<forall>t\<in>arrived K s. sorted (part T t (ps_nums s))) \<and> main_ok K nums s"

lemma arrived_fin: "finite (arrived K s)" "card (arrived K s) \<le> K" "card (arrived K s) = K \<Longrightarrow> arrived K s = {..<K}"
proof -
  have sub: "arrived K s \<subseteq> {..<K}" by (auto simp: arrived_def)
  then show "finite (arrived K s)" by (rule finite_subset) simp
  show "card (arrived K s) \<le> K" using card_mono [OF _ sub] by simp
  show "arrived K s = {..<K}" if "card (arrived K s) = K" using card_subset_eq [OF _ sub] that by simp
qed

lemma sort_main_step_inv:
  assumes inv: "ps_inv K T nums s" and st: "sort_main_step K T fails s = Some s'" and mx: "\<forall>x\<in>set nums. x < LLONG_MAX"
  shows "ps_inv K T nums s'"
proof (cases "ps_main s")
  case (Creating i)
  have ok: "i \<le> K" "\<forall>t<K. ps_thr s t = NoThread \<longleftrightarrow> i \<le> t" "ps_bar s = card (arrived K s)" using inv Creating by (auto simp: ps_inv_def main_ok_def)
  show ?thesis
  proof (cases "i < K \<and> \<not> fails")
    case True
    then have s': "s' = s\<lparr>ps_thr := (ps_thr s)(i := Sorting), ps_main := Creating (Suc i)\<rparr>" using st Creating by (simp add: sort_main_step_def)
    have "ps_thr s i = NoThread" using ok(2) True by simp
    then have "arrived K s' = arrived K s" unfolding s' by (auto simp: arrived_def)
    then show ?thesis using inv ok True unfolding s' ps_inv_def main_ok_def by (auto simp: not_less_eq_eq)
  next
    case False
    then have "s' = s\<lparr>ps_main := MainExits 1\<rparr> \<or> i = K \<and> s' = s\<lparr>ps_main := MainWaits, ps_bar := ps_bar s + 1\<rparr>" using st Creating ok(1) by (auto simp: sort_main_step_def split: if_splits)
    then show ?thesis using inv ok by (auto simp: ps_inv_def main_ok_def arrived_def)
  qed
next
  case MainWaits
  then have bar: "ps_bar s = K + 1" and s': "s' = s\<lparr>ps_main := (case merge_parts K T (ps_nums s) of Inl e \<Rightarrow> MainFault e | Inr r \<Rightarrow> PrintsSorted r)\<rparr>"
    using st by (auto simp: sort_main_step_def split: if_splits)
  have "card (arrived K s) = K" using inv MainWaits bar by (simp add: ps_inv_def main_ok_def)
  then have "\<forall>t<K. sorted (part T t (ps_nums s))" using inv arrived_fin(3) by (auto simp: ps_inv_def)
  moreover have same: "mset (ps_nums s) = mset nums" using inv by (simp add: ps_inv_def)
  moreover have "\<forall>x\<in>set (ps_nums s). x < LLONG_MAX" using mx same by (metis set_mset_mset)
  ultimately have "merge_parts K T (ps_nums s) = Inr (sort (ps_nums s))" using merge_parts_sorts inv by (simp add: ps_inv_def)
  moreover have "sort (ps_nums s) = sort nums" using same by (metis mset_sort properties_for_sort sorted_sort)
  ultimately show ?thesis using inv unfolding s' by (simp add: ps_inv_def main_ok_def arrived_def)
qed (use st in \<open>simp_all add: sort_main_step_def\<close>)

lemma works_inv:
  assumes inv: "ps_inv K T nums s" and "t < K" "ps_thr s t = Sorting" "mset ys = mset (part T t (ps_nums s))"
  shows "ps_inv K T nums (s\<lparr>ps_nums := put_part T t ys (ps_nums s)\<rparr>)"
proof -
  have len: "length (ps_nums s) = K * T" using inv by (simp add: ps_inv_def)
  note f = put_part_facts [OF len assms(2,4)]
  have "t \<notin> arrived K s" using assms(3) by (simp add: arrived_def)
  then have "\<forall>u\<in>arrived K s. part T u (put_part T t ys (ps_nums s)) = part T u (ps_nums s)" using f(4) by metis
  then show ?thesis using inv f by (simp add: ps_inv_def main_ok_def arrived_def split: mstate.splits)
qed

lemma thr_fn_inv:
  assumes inv: "ps_inv K T nums s" and t: "t < K" and runs: "ps_runs s" and st: "thr_fn hs K T t s = Some s'" and hs: "qsort_spec hs"
  shows "ps_inv K T nums s'"
proof (cases "ps_thr s t")
  case Sorting
  obtain ys where ys: "hs complong (part T t (ps_nums s)) = Inr ys" "mset ys = mset (part T t (ps_nums s))" "sorted ys" using heapsort_sorts [OF hs] by blast
  let ?s = "s\<lparr>ps_nums := put_part T t ys (ps_nums s)\<rparr>"
  have s': "s' = ?s\<lparr>ps_thr := (ps_thr s)(t := AtBarrier), ps_bar := ps_bar s + 1\<rparr>" using st Sorting ys by (simp add: thr_fn_def)
  have inv1: "ps_inv K T nums ?s" by (rule works_inv [OF inv t Sorting ys(2)])
  have "length (ps_nums s) = K * T" using inv by (simp add: ps_inv_def)
  then have part: "part T t (ps_nums ?s) = ys" using put_part_facts(2) t ys(2) by simp
  have arr: "arrived K s' = insert t (arrived K ?s)" "t \<notin> arrived K ?s" using t Sorting unfolding s' by (auto simp: arrived_def)
  have crd: "card (arrived K s') = card (arrived K ?s) + 1" using arr arrived_fin(1) by simp
  have "main_ok K nums s'" using inv1 runs crd Sorting t unfolding s' by (auto simp: ps_inv_def main_ok_def ps_runs_def split: mstate.splits)
  then show ?thesis using inv1 part ys(3) unfolding ps_inv_def arr(1) by (simp add: s')
next
  case AtBarrier
  then have s': "s' = s\<lparr>ps_thr := (ps_thr s)(t := Returned)\<rparr>" using st by (simp add: thr_fn_def split: if_splits)
  have "arrived K s' = arrived K s" using AtBarrier unfolding s' by (auto simp: arrived_def)
  moreover have "ps_thr s' u = NoThread \<longleftrightarrow> ps_thr s u = NoThread" for u using AtBarrier unfolding s' by simp
  ultimately show ?thesis using inv unfolding ps_inv_def main_ok_def by (simp add: s' split: mstate.splits)
qed (use st in \<open>simp_all add: thr_fn_def\<close>)

lemma ps_steps_inv:
  assumes "(ps_step hs K T ok)\<^sup>*\<^sup>* (ps_start nums) s" "qsort_spec hs" "length nums = K * T" "\<forall>x\<in>set nums. x < LLONG_MAX"
  shows "ps_inv K T nums s"
  using assms(1)
proof (induction rule: rtranclp_induct)
  case base
  show ?case using assms(3) by (simp add: ps_inv_def ps_start_def main_ok_def arrived_def)
next
  case (step y z)
  from step.hyps(2) show ?case
    by (cases rule: ps_step.cases) (use step.IH sort_main_step_inv thr_fn_inv works_inv assms(2,4) in blast)+
qed

lemma ps_goes_on:
  assumes inv: "ps_inv K T nums s" and runs: "ps_runs s" and hs: "qsort_spec hs"
  shows "\<exists>s'. sort_main_step K T False s = Some s' \<or> (\<exists>t<K. thr_fn hs K T t s = Some s')"
proof (cases "ps_main s")
  case MainWaits
  show ?thesis
  proof (cases "ps_bar s = K + 1")
    case False
    then have "card (arrived K s) \<noteq> K" using inv MainWaits by (simp add: ps_inv_def main_ok_def)
    then obtain t where t: "t < K" "t \<notin> arrived K s" by (metis (mono_tags) arrived_fin(1) card_lessThan card_mono lessThan_iff subsetI arrived_fin(2) order_antisym)
    moreover have "ps_thr s t \<noteq> NoThread" using inv MainWaits t(1) by (simp add: ps_inv_def main_ok_def)
    ultimately have "ps_thr s t = Sorting" by (cases "ps_thr s t") (auto simp: arrived_def)
    then have "\<exists>s'. thr_fn hs K T t s = Some s'" using heapsort_sorts [OF hs, of "part T t (ps_nums s)"] by (auto simp: thr_fn_def)
    then show ?thesis using t(1) by blast
  qed (use MainWaits in \<open>auto intro!: exI disjI1 simp: sort_main_step_def\<close>)
next
  case (Creating i)
  then have "\<exists>s'. sort_main_step K T False s = Some s'" by (simp add: sort_main_step_def)
  then show ?thesis by blast
qed (use runs in \<open>simp_all add: ps_runs_def\<close>)

text \<open>
  C10: For any number of threads and any size of their parts, with a \<^verbatim>\<open>heapsort\<close> that keeps the promise of \<^verbatim>\<open>qsort\<close> and numbers below LONG\_MAX: however the threads interleave, while \<^verbatim>\<open>heapsort\<close> moves the elements of its part about, main never reads
  outside an array or uses a variable without a value, what it prints is the sorted array, and until it has printed it the main thread or another can go on, so the barrier opens.
\<close>

theorem par_sort_correct:
  assumes "qsort_spec heapsort" "length nums = K * T" "\<forall>x\<in>set nums. x < LLONG_MAX" "(ps_step heapsort K T ok)\<^sup>*\<^sup>* (ps_start nums) s"
  shows "(\<forall>e. ps_main s \<noteq> MainFault e) \<and> (\<forall>r. ps_main s = PrintsSorted r \<longrightarrow> r = sort nums) \<and>
    (ps_runs s \<longrightarrow> (\<exists>s'. sort_main_step K T False s = Some s' \<or> (\<exists>t<K. thr_fn heapsort K T t s = Some s')))"
proof -
  have inv: "ps_inv K T nums s" by (rule ps_steps_inv [OF assms(4,1-3)])
  have "main_ok K nums s" using inv by (simp add: ps_inv_def)
  then have "\<forall>e. ps_main s \<noteq> MainFault e" "\<forall>r. ps_main s = PrintsSorted r \<longrightarrow> r = sort nums" by (auto simp: main_ok_def)
  then show ?thesis using ps_goes_on [OF inv _ assms(1)] by blast
qed

fun ps_run :: "(int cmp \<Rightarrow> int list \<Rightarrow> int list cres) \<Rightarrow> nat \<Rightarrow> nat \<Rightarrow> nat option list \<Rightarrow> psort \<Rightarrow> psort option" where
  "ps_run hs K T [] s = Some s"
| "ps_run hs K T (None # as) s = (case sort_main_step K T False s of None \<Rightarrow> None | Some s' \<Rightarrow> ps_run hs K T as s')"
| "ps_run hs K T (Some t # as) s = (if t < K \<and> ps_runs s then (case thr_fn hs K T t s of None \<Rightarrow> None | Some s' \<Rightarrow> ps_run hs K T as s') else None)"

lemma ps_run_steps: "ps_run hs K T as s = Some s' \<Longrightarrow> (ps_step hs K T ok)\<^sup>*\<^sup>* s s'"
proof (induction hs K T as s rule: ps_run.induct)
  case (2 hs K T as s)
  then show ?case using ps_of_main [of K T False s] by (auto split: option.splits intro: converse_rtranclp_into_rtranclp)
next
  case (3 hs K T t as s)
  then show ?case using ps_of_thread [of t K s hs T] by (auto split: option.splits if_splits intro: converse_rtranclp_into_rtranclp)
qed simp

lemma sample_sort_run: "map_option ps_main (ps_run isort_c 2 2 [None, Some 0, None, None, Some 1, Some 0, None] (ps_start [3, 1, 2, 0])) = Some (PrintsSorted [0, 1, 2, 3])"
  by code_simp

theorem par_sort_correct_witness:
  "\<exists>s. (ps_step isort_c 2 2 True)\<^sup>*\<^sup>* (ps_start [3, 1, 2, 0]) s \<and> ps_main s = PrintsSorted (sort [3, 1, 2, 0])"
proof -
  obtain s where s: "ps_run isort_c 2 2 [None, Some 0, None, None, Some 1, Some 0, None] (ps_start [3, 1, 2, 0]) = Some s" "ps_main s = PrintsSorted [0, 1, 2, 3]"
    using sample_sort_run by auto
  have r: "(ps_step isort_c 2 2 True)\<^sup>*\<^sup>* (ps_start [3, 1, 2, 0]) s" by (rule ps_run_steps [OF s(1)])
  have "length [3, 1, 2, 0 :: int] = 2 * 2" "\<forall>x\<in>set [3, 1, 2, 0 :: int]. x < LLONG_MAX" by (simp_all add: LLONG_MAX_def)
  from par_sort_correct [OF isort_c_spec this r] show ?thesis using r s(2) by metis
qed

end
