(* ===== verification/Foo_Table.thy ===== *)
theory Foo_Table
  imports C_Prelude
begin

section \<open>A hash table of objects with reference counts (apue.3e/threads/mutex3.c)\<close>

text \<open>
  Objects are kept in a hash table with chaining and freed with their last reference. The programs \<^verbatim>\<open>mutex2.c\<close> and \<^verbatim>\<open>mutex3.c\<close> of the textbook have the same table and differ in their locking.
  This theory has the table, on a heap with explicit pointers whose addresses are never given out twice, and the functions of \<^verbatim>\<open>mutex3.c\<close>, where one lock protects everything, so that each function is one step. The contract of the functions is the locale \<open>ref_store\<close>.
\<close>

subsection \<open>Objects and chains\<close>

record foo =
  f_count :: int
  f_id :: int
  f_next :: "nat option"

type_synonym foo_heap = "nat \<rightharpoonup> foo"

definition NHASH :: nat where "NHASH = 29"

definition HASH :: "int \<Rightarrow> nat" where
  "HASH i = nat ((i mod 2 ^ 64) mod int NHASH)"

record foo_tab =
  ft_heap :: foo_heap
  fh :: "nat \<Rightarrow> nat option"
  ft_brk :: nat

definition foo_deref :: "foo_heap \<Rightarrow> nat option \<Rightarrow> foo cres" where
  "foo_deref h p = (case p of None \<Rightarrow> Inl NullDeref | Some a \<Rightarrow> (case h a of None \<Rightarrow> Inl OutOfBounds | Some n \<Rightarrow> Inr n))"

text \<open>The loop of \<^verbatim>\<open>foo_find\<close>, and the loop of \<^verbatim>\<open>foo_rele\<close> that looks for the predecessor. They follow pointers and might not end.\<close>

partial_function (option) foo_find_loop :: "foo_heap \<Rightarrow> int \<Rightarrow> nat option \<Rightarrow> nat option cres option" where
  "foo_find_loop h i p = (case p of
      None \<Rightarrow> Some (Inr None)
    | Some a \<Rightarrow> (case h a of None \<Rightarrow> Some (Inl OutOfBounds) | Some n \<Rightarrow> if f_id n = i then Some (Inr p) else foo_find_loop h i (f_next n)))"

partial_function (option) pred_loop :: "foo_heap \<Rightarrow> nat \<Rightarrow> nat option \<Rightarrow> nat cres option" where
  "pred_loop h fp p = (case p of
      None \<Rightarrow> Some (Inl NullDeref)
    | Some a \<Rightarrow> (case h a of None \<Rightarrow> Some (Inl OutOfBounds) | Some n \<Rightarrow> if f_next n = Some fp then Some (Inr a) else pred_loop h fp (f_next n)))"

declare foo_find_loop.simps [code]
declare pred_loop.simps [code]

text \<open>Putting an object into the table, and taking it out.\<close>

definition tab_insert :: "nat \<Rightarrow> foo_tab \<Rightarrow> foo_tab cres" where
  "tab_insert fp s = bind_c (foo_deref (ft_heap s) (Some fp)) (\<lambda>n.
     let idx = HASH (f_id n) in Inr (s\<lparr>ft_heap := (ft_heap s)(fp \<mapsto> n\<lparr>f_next := fh s idx\<rparr>), fh := (fh s)(idx := Some fp)\<rparr>))"

definition tab_unlink :: "nat \<Rightarrow> foo_tab \<Rightarrow> foo_tab cres option" where
  "tab_unlink fp s = (case foo_deref (ft_heap s) (Some fp) of
      Inl e \<Rightarrow> Some (Inl e)
    | Inr n \<Rightarrow> let idx = HASH (f_id n) in
        if fh s idx = Some fp then Some (Inr (s\<lparr>fh := (fh s)(idx := f_next n)\<rparr>))
        else (case pred_loop (ft_heap s) fp (fh s idx) of
            None \<Rightarrow> None
          | Some (Inl e) \<Rightarrow> Some (Inl e)
          | Some (Inr a) \<Rightarrow> Some (bind_c (foo_deref (ft_heap s) (Some a)) (\<lambda>m. Inr (s\<lparr>ft_heap := (ft_heap s)(a \<mapsto> m\<lparr>f_next := f_next n\<rparr>)\<rparr>)))))"

definition count_up :: "nat \<Rightarrow> foo_tab \<Rightarrow> foo_tab cres" where
  "count_up fp s = bind_c (foo_deref (ft_heap s) (Some fp)) (\<lambda>n.
     if f_count n = INT_MAX then Inl SignedOverflow else Inr (s\<lparr>ft_heap := (ft_heap s)(fp \<mapsto> n\<lparr>f_count := f_count n + 1\<rparr>)\<rparr>))"

definition count_down :: "nat \<Rightarrow> foo_tab \<Rightarrow> foo_tab cres" where
  "count_down fp s = bind_c (foo_deref (ft_heap s) (Some fp)) (\<lambda>n.
     if f_count n = INT_MIN then Inl SignedOverflow else Inr (s\<lparr>ft_heap := (ft_heap s)(fp \<mapsto> n\<lparr>f_count := f_count n - 1\<rparr>)\<rparr>))"

definition foo_free :: "nat \<Rightarrow> foo_tab \<Rightarrow> foo_tab cres" where
  "foo_free fp s = (if ft_heap s fp = None then Inl OutOfBounds else Inr (s\<lparr>ft_heap := (ft_heap s)(fp := None)\<rparr>))"

subsection \<open>What a table holds\<close>

fun foo_chain :: "foo_heap \<Rightarrow> nat option \<Rightarrow> nat list \<Rightarrow> bool" where
  "foo_chain h q [] \<longleftrightarrow> q = None"
| "foo_chain h q (a # as) \<longleftrightarrow> q = Some a \<and> (\<exists>n. h a = Some n \<and> foo_chain h (f_next n) as)"

definition bucket :: "nat \<Rightarrow> (nat \<times> int) list \<Rightarrow> nat list" where
  "bucket k xs = map fst (filter (\<lambda>x. HASH (snd x) = k) xs)"

text \<open>The objects in the table, those that were put in last first.\<close>

definition tab_rep :: "foo_tab \<Rightarrow> (nat \<times> int) list \<Rightarrow> bool" where
  "tab_rep s xs \<longleftrightarrow> distinct (map fst xs) \<and> (\<forall>(a, i)\<in>set xs. \<exists>n. ft_heap s a = Some n \<and> f_id n = i) \<and> (\<forall>k<NHASH. foo_chain (ft_heap s) (fh s k) (bucket k xs))"

lemma HASH_less: "HASH i < NHASH"
  by (simp add: HASH_def NHASH_def nat_less_iff)

lemma bucket_simps [simp]: "bucket k [] = []" "bucket k ((a, i) # xs) = (if HASH i = k then a # bucket k xs else bucket k xs)"
  by (simp_all add: bucket_def)

lemma bucket_subset: "set (bucket k xs) \<subseteq> fst ` set xs"
  by (auto simp: bucket_def)

lemma bucket_distinct: "distinct (map fst xs) \<Longrightarrow> distinct (bucket k xs)"
  by (simp add: bucket_def distinct_map inj_on_def)

lemma bucket_mem: "distinct (map fst xs) \<Longrightarrow> (a, i) \<in> set xs \<Longrightarrow> a \<in> set (bucket k xs) \<longleftrightarrow> HASH i = k"
  by (force simp: bucket_def dest: eq_key_imp_eq_value)

lemma bucket_remove: "bucket k (filter (\<lambda>x. fst x \<noteq> a) xs) = filter (\<lambda>b. b \<noteq> a) (bucket k xs)"
  by (induction xs) (auto simp: bucket_def)

lemma chain_cong: "foo_chain h q as \<Longrightarrow> (\<And>a n. a \<in> set as \<Longrightarrow> h a = Some n \<Longrightarrow> \<exists>m. h' a = Some m \<and> f_next m = f_next n) \<Longrightarrow> foo_chain h' q as"
proof (induction as arbitrary: q)
  case (Cons a as)
  obtain n where n: "q = Some a" "h a = Some n" "foo_chain h (f_next n) as" using Cons.prems(1) by auto
  obtain m where m: "h' a = Some m" "f_next m = f_next n" using Cons.prems(2) [of a n] n(2) by auto
  have "foo_chain h' (f_next n) as" by (rule Cons.IH [OF n(3)]) (use Cons.prems(2) in auto)
  then show ?case using n(1) m by simp
qed simp

lemma chain_upd [simp]: "a \<notin> set as \<Longrightarrow> foo_chain (h(a := v)) q as = foo_chain h q as"
  by (induction as arbitrary: q) auto

lemma foo_find_chain:
  assumes "foo_chain h q (bucket k xs)" "\<forall>(a, i)\<in>set xs. \<exists>n. h a = Some n \<and> f_id n = i" "HASH i = k"
  shows "foo_find_loop h i q = Some (Inr (map_option fst (find (\<lambda>x. snd x = i) xs)))"
  using assms(1,2)
proof (induction xs arbitrary: q)
  case Nil
  then show ?case by (subst foo_find_loop.simps) simp
next
  case (Cons x xs)
  obtain a j where x: "x = (a, j)" by (cases x)
  obtain n where n: "h a = Some n" "f_id n = j" using Cons.prems(2) x by auto
  show ?case
  proof (cases "HASH j = k")
    case True
    then have q: "q = Some a" "foo_chain h (f_next n) (bucket k xs)" using Cons.prems(1) x n by auto
    then have IH: "foo_find_loop h i (f_next n) = Some (Inr (map_option fst (find (\<lambda>x. snd x = i) xs)))" using Cons.IH Cons.prems(2) by simp
    show ?thesis unfolding q(1) by (subst foo_find_loop.simps) (use n x IH in auto)
  next
    case False
    then have "j \<noteq> i" using assms(3) by auto
    then show ?thesis using Cons.IH [of q] Cons.prems x False by simp
  qed
qed

lemma pred_loop_chain:
  assumes "foo_chain h q (as @ p # a # cs)" "distinct (as @ p # a # cs)"
  shows "pred_loop h a q = Some (Inr p)"
  using assms
proof (induction as arbitrary: q)
  case Nil
  then show ?case by (subst pred_loop.simps) auto
next
  case (Cons b as)
  then obtain n where n: "q = Some b" "h b = Some n" "foo_chain h (f_next n) (as @ p # a # cs)" by auto
  have "f_next n \<noteq> Some a" using n(3) Cons.prems(2) by (cases as) auto
  then show ?case unfolding n(1) by (subst pred_loop.simps) (use n Cons in auto)
qed

lemma chain_skip:
  assumes "foo_chain h q (as @ p # a # cs)" "distinct (as @ p # a # cs)" "h a = Some n" "h p = Some m"
  shows "foo_chain (h(p \<mapsto> m\<lparr>f_next := f_next n\<rparr>)) q (as @ p # cs)"
  using assms by (induction as arbitrary: q) auto

text \<open>What does not touch the links of the objects in the table leaves the table alone.\<close>

lemma tab_rep_frame:
  assumes "tab_rep s xs" "fh t = fh s" "\<And>a n. a \<in> fst ` set xs \<Longrightarrow> ft_heap s a = Some n \<Longrightarrow> \<exists>m. ft_heap t a = Some m \<and> f_next m = f_next n \<and> f_id m = f_id n"
  shows "tab_rep t xs"
proof -
  have "foo_chain (ft_heap t) (fh t k) (bucket k xs)" if "k < NHASH" for k
    by (rule chain_cong [of "ft_heap s"]) (use assms that bucket_subset [of k xs] in \<open>fastforce simp: tab_rep_def\<close>)+
  moreover have "\<exists>m. ft_heap t a = Some m \<and> f_id m = i" if x: "(a, i) \<in> set xs" for a i
  proof -
    obtain n where n: "ft_heap s a = Some n" "f_id n = i" using assms(1) x by (auto simp: tab_rep_def)
    have "a \<in> fst ` set xs" using x by force
    then show ?thesis using assms(3) [OF _ n(1)] n(2) by auto
  qed
  ultimately show ?thesis using assms(1) by (auto simp: tab_rep_def)
qed

lemma tab_insert_rep:
  assumes rep: "tab_rep s xs" and n: "ft_heap s a = Some n" and new: "a \<notin> fst ` set xs"
  shows "\<exists>s1. tab_insert a s = Inr s1 \<and> tab_rep s1 ((a, f_id n) # xs) \<and> ft_heap s1 = (ft_heap s)(a \<mapsto> n\<lparr>f_next := fh s (HASH (f_id n))\<rparr>) \<and> ft_brk s1 = ft_brk s"
proof -
  let ?k = "HASH (f_id n)"
  let ?s = "s\<lparr>ft_heap := (ft_heap s)(a \<mapsto> n\<lparr>f_next := fh s ?k\<rparr>), fh := (fh s)(?k := Some a)\<rparr>"
  have nb: "a \<notin> set (bucket k xs)" for k using new bucket_subset [of k xs] by blast
  have "foo_chain (ft_heap ?s) (fh ?s k) (bucket k ((a, f_id n) # xs))" if "k < NHASH" for k using rep that nb by (simp add: tab_rep_def)
  moreover have "\<forall>(b, i)\<in>set xs. \<exists>m. ft_heap ?s b = Some m \<and> f_id m = i" using rep new by (force simp: tab_rep_def)
  ultimately have "tab_rep ?s ((a, f_id n) # xs)" using rep new by (simp add: tab_rep_def)
  then show ?thesis using n by (simp add: tab_insert_def foo_deref_def Let_def)
qed

definition same_data :: "foo_heap \<Rightarrow> foo_heap \<Rightarrow> bool" where
  "same_data h g \<longleftrightarrow> (\<forall>b. map_option (\<lambda>n. (f_count n, f_id n)) (h b) = map_option (\<lambda>n. (f_count n, f_id n)) (g b))"

lemma tab_unlink_rep:
  assumes rep: "tab_rep s xs" and x: "(a, i) \<in> set xs"
  shows "\<exists>s1. tab_unlink a s = Some (Inr s1) \<and> tab_rep s1 (filter (\<lambda>x. fst x \<noteq> a) xs) \<and> same_data (ft_heap s1) (ft_heap s) \<and> ft_brk s1 = ft_brk s"
proof -
  let ?ys = "filter (\<lambda>x. fst x \<noteq> a) xs" and ?k = "HASH i"
  have d: "distinct (map fst xs)" "distinct (map fst ?ys)" using rep by (auto simp: tab_rep_def distinct_map_filter)
  obtain n where n: "ft_heap s a = Some n" "f_id n = i" using rep x by (auto simp: tab_rep_def)
  have ids: "\<forall>(b, j)\<in>set ?ys. \<exists>m. ft_heap s b = Some m \<and> f_id m = j" using rep by (auto simp: tab_rep_def)
  have ch: "foo_chain (ft_heap s) (fh s k) (bucket k xs)" if "k < NHASH" for k using rep that by (simp add: tab_rep_def)
  have other: "bucket k ?ys = bucket k xs" "a \<notin> set (bucket k xs)" if "k \<noteq> ?k" for k
    using bucket_mem [OF d(1) x, of k] that by (auto simp: bucket_remove intro: filter_True)
  obtain as cs where split: "bucket ?k xs = as @ a # cs" using bucket_mem [OF d(1) x, of ?k] by (metis split_list)
  have dk: "distinct (as @ a # cs)" using bucket_distinct [OF d(1), of ?k] split by simp
  have "filter (\<lambda>b. b \<noteq> a) as = as" "filter (\<lambda>b. b \<noteq> a) cs = cs" using dk by (auto intro!: filter_True)
  then have ys: "bucket ?k ?ys = as @ cs" by (simp add: bucket_remove split)
  show ?thesis
  proof (cases as rule: rev_cases)
    case Nil
    let ?s = "s\<lparr>fh := (fh s)(?k := f_next n)\<rparr>"
    have h: "fh s ?k = Some a" "foo_chain (ft_heap s) (f_next n) cs" using ch [OF HASH_less, of i] split Nil n by auto
    have "foo_chain (ft_heap ?s) (fh ?s k) (bucket k ?ys)" if "k < NHASH" for k using ch [OF that] other [of k] ys Nil h by (cases "k = ?k") auto
    then have "tab_rep ?s ?ys" using d(2) ids by (simp add: tab_rep_def)
    moreover have "tab_unlink a s = Some (Inr ?s)" using n h(1) by (simp add: tab_unlink_def foo_deref_def Let_def)
    ultimately show ?thesis by (simp add: same_data_def)
  next
    case (snoc bs p)
    have full: "foo_chain (ft_heap s) (fh s ?k) (bs @ p # a # cs)" "distinct (bs @ p # a # cs)" using ch [OF HASH_less, of i] split snoc dk by auto
    obtain m where m: "ft_heap s p = Some m"
    proof -
      have "p \<in> fst ` set xs" using bucket_subset [of ?k xs] split snoc by auto
      then show ?thesis using rep that by (force simp: tab_rep_def)
    qed
    let ?h = "(ft_heap s)(p \<mapsto> m\<lparr>f_next := f_next n\<rparr>)"
    let ?s = "s\<lparr>ft_heap := ?h\<rparr>"
    have head: "fh s ?k \<noteq> Some a" using full by (cases bs) auto
    have skip: "foo_chain ?h (fh s ?k) (bs @ p # cs)" by (rule chain_skip [OF full n(1) m])
    have pk: "p \<in> set (bucket ?k xs)" using split snoc by simp
    have "p \<notin> set (bucket k xs)" if "k \<noteq> ?k" for k
    proof -
      obtain j where j: "(p, j) \<in> set xs" using pk bucket_subset [of ?k xs] by auto
      then show ?thesis using bucket_mem [OF d(1) j] pk that by auto
    qed
    then have "foo_chain (ft_heap ?s) (fh ?s k) (bucket k ?ys)" if "k < NHASH" for k using ch [OF that] other [of k] ys snoc skip by (cases "k = ?k") auto
    moreover have "\<forall>(b, j)\<in>set ?ys. \<exists>m. ft_heap ?s b = Some m \<and> f_id m = j" using ids m by fastforce
    ultimately have "tab_rep ?s ?ys" using d(2) by (simp add: tab_rep_def)
    moreover have "tab_unlink a s = Some (Inr ?s)" using n head m pred_loop_chain [OF full] by (simp add: tab_unlink_def foo_deref_def Let_def)
    ultimately show ?thesis using m by (simp add: same_data_def)
  qed
qed

subsection \<open>mutex3.c\<close>

text \<open>\<open>mem\<close> and \<open>lk\<close> say whether memory and a lock could be had.\<close>

definition foo_alloc :: "bool \<Rightarrow> bool \<Rightarrow> int \<Rightarrow> foo_tab \<Rightarrow> (nat option \<times> foo_tab) cres" where
  "foo_alloc mem lk i s =
     (if \<not> mem then Inr (None, s)
      else let fp = ft_brk s; s0 = s\<lparr>ft_heap := (ft_heap s)(fp \<mapsto> \<lparr>f_count = 1, f_id = i, f_next = None\<rparr>), ft_brk := fp + 1\<rparr> in
        if \<not> lk then bind_c (foo_free fp s0) (\<lambda>s1. Inr (None, s1))
        else bind_c (tab_insert fp s0) (\<lambda>s1. Inr (Some fp, s1)))"

definition foo_hold :: "nat \<Rightarrow> foo_tab \<Rightarrow> foo_tab cres" where
  "foo_hold fp s = count_up fp s"

definition foo_find :: "int \<Rightarrow> foo_tab \<Rightarrow> (nat option \<times> foo_tab) cres option" where
  "foo_find i s = (case foo_find_loop (ft_heap s) i (fh s (HASH i)) of
      None \<Rightarrow> None
    | Some (Inl e) \<Rightarrow> Some (Inl e)
    | Some (Inr None) \<Rightarrow> Some (Inr (None, s))
    | Some (Inr (Some fp)) \<Rightarrow> Some (bind_c (count_up fp s) (\<lambda>s1. Inr (Some fp, s1))))"

definition foo_rele :: "nat \<Rightarrow> foo_tab \<Rightarrow> foo_tab cres option" where
  "foo_rele fp s = (case count_down fp s of
      Inl e \<Rightarrow> Some (Inl e)
    | Inr s1 \<Rightarrow> (case foo_deref (ft_heap s1) (Some fp) of
          Inl e \<Rightarrow> Some (Inl e)
        | Inr n \<Rightarrow> if f_count n = 0 then (case tab_unlink fp s1 of
                None \<Rightarrow> None
              | Some (Inl e) \<Rightarrow> Some (Inl e)
              | Some (Inr s2) \<Rightarrow> Some (foo_free fp s2))
            else Some (Inr s1)))"

subsection \<open>The contract\<close>

text \<open>
  The next address, the objects with their identities, and how many references there are to each. A client holds and releases only what it has a reference to.
\<close>

type_synonym ref_state = "nat \<times> (nat \<times> int) list \<times> (nat \<Rightarrow> nat)"

datatype ref_op = RAlloc int | RFind int | RHold nat | RRele nat

fun ref_spec :: "ref_op \<Rightarrow> ref_state \<Rightarrow> ref_state" where
  "ref_spec (RAlloc i) (n, xs, c) = (n + 1, (n, i) # xs, c(n := 1))"
| "ref_spec (RFind i) (n, xs, c) = (n, xs, case find (\<lambda>x. snd x = i) xs of None \<Rightarrow> c | Some (a, j) \<Rightarrow> c(a := c a + 1))"
| "ref_spec (RHold a) (n, xs, c) = (n, xs, c(a := c a + 1))"
| "ref_spec (RRele a) (n, xs, c) = (n, if c a = 1 then filter (\<lambda>x. fst x \<noteq> a) xs else xs, c(a := c a - 1))"

fun ref_allowed :: "ref_op \<Rightarrow> ref_state \<Rightarrow> bool" where
  "ref_allowed (RAlloc i) q = True"
| "ref_allowed (RFind i) (n, xs, c) = (\<forall>a. int (c a) < INT_MAX)"
| "ref_allowed (RHold a) (n, xs, c) = (0 < c a \<and> int (c a) < INT_MAX)"
| "ref_allowed (RRele a) (n, xs, c) = (0 < c a)"

fun ref_run :: "ref_op list \<Rightarrow> ref_state \<Rightarrow> ref_state option" where
  "ref_run [] q = Some q"
| "ref_run (p # ps) q = (if ref_allowed p q then ref_run ps (ref_spec p q) else None)"

fun exec_ops :: "(ref_op \<Rightarrow> 's \<Rightarrow> 's cres option) \<Rightarrow> ref_op list \<Rightarrow> 's \<Rightarrow> 's cres option" where
  "exec_ops f [] s = Some (Inr s)"
| "exec_ops f (p # ps) s = (case f p s of Some (Inr s1) \<Rightarrow> exec_ops f ps s1 | r \<Rightarrow> r)"

locale ref_store =
  fixes rep :: "'s \<Rightarrow> ref_state \<Rightarrow> bool"
    and exec :: "ref_op \<Rightarrow> 's \<Rightarrow> 's cres option"
  assumes exec_rep: "rep s q \<Longrightarrow> ref_allowed p q \<Longrightarrow> \<exists>s1. exec p s = Some (Inr s1) \<and> rep s1 (ref_spec p q)"
begin

lemma run_rep: "rep s q \<Longrightarrow> ref_run ps q = Some q1 \<Longrightarrow> \<exists>s1. exec_ops exec ps s = Some (Inr s1) \<and> rep s1 q1"
proof (induction ps arbitrary: s q)
  case (Cons p ps)
  then have "ref_allowed p q" "ref_run ps (ref_spec p q) = Some q1" by (auto split: if_splits)
  then show ?case using exec_rep [OF Cons.prems(1)] Cons.IH by fastforce
qed simp

end

definition tab_exec :: "ref_op \<Rightarrow> foo_tab \<Rightarrow> foo_tab cres option" where
  "tab_exec p s = (case p of
      RAlloc i \<Rightarrow> Some (bind_c (foo_alloc True True i s) (\<lambda>(r, s1). Inr s1))
    | RFind i \<Rightarrow> map_option (\<lambda>r. bind_c r (\<lambda>(r, s1). Inr s1)) (foo_find i s)
    | RHold a \<Rightarrow> Some (foo_hold a s)
    | RRele a \<Rightarrow> foo_rele a s)"

definition ref_rep :: "foo_tab \<Rightarrow> ref_state \<Rightarrow> bool" where
  "ref_rep s q = (case q of (n, xs, c) \<Rightarrow> tab_rep s xs \<and> n = ft_brk s \<and> dom (ft_heap s) = fst ` set xs \<and> (\<forall>x\<in>set xs. fst x < n) \<and>
     (\<forall>a n. ft_heap s a = Some n \<longrightarrow> 0 < c a \<and> f_count n = int (c a)) \<and> (\<forall>a. ft_heap s a = None \<longrightarrow> c a = 0))"

lemma ref_rep_count:
  assumes rep: "ref_rep s (n, xs, c)" and h: "ft_heap s a = Some m" and k: "0 < k"
  shows "ref_rep (s\<lparr>ft_heap := (ft_heap s)(a \<mapsto> m\<lparr>f_count := int k\<rparr>)\<rparr>) (n, xs, c(a := k))"
proof -
  let ?s = "s\<lparr>ft_heap := (ft_heap s)(a \<mapsto> m\<lparr>f_count := int k\<rparr>)\<rparr>"
  have "tab_rep ?s xs" by (rule tab_rep_frame [of s]) (use rep h in \<open>auto simp: ref_rep_def\<close>)
  moreover have "dom (ft_heap ?s) = dom (ft_heap s)" using h by auto
  ultimately show ?thesis using rep k unfolding ref_rep_def by auto
qed

lemma count_up_rep:
  assumes rep: "ref_rep s (n, xs, c)" and a: "0 < c a" "int (c a) < INT_MAX"
  shows "\<exists>s1. count_up a s = Inr s1 \<and> ref_rep s1 (n, xs, c(a := c a + 1))"
proof -
  obtain m where m: "ft_heap s a = Some m" "f_count m = int (c a)" using rep a(1) by (cases "ft_heap s a") (auto simp: ref_rep_def)
  have "count_up a s = Inr (s\<lparr>ft_heap := (ft_heap s)(a \<mapsto> m\<lparr>f_count := int (c a + 1)\<rparr>)\<rparr>)" using m a(2) by (simp add: count_up_def foo_deref_def add.commute)
  then show ?thesis using ref_rep_count [OF rep m(1), of "c a + 1"] by simp
qed

lemma foo_alloc_rep:
  assumes "ref_rep s (n, xs, c)"
  shows "\<exists>s1. foo_alloc True True i s = Inr (Some n, s1) \<and> ref_rep s1 (n + 1, (n, i) # xs, c(n := 1))"
proof -
  let ?o = "\<lparr>f_count = 1, f_id = i, f_next = None\<rparr>"
  let ?s = "s\<lparr>ft_heap := (ft_heap s)(n \<mapsto> ?o), ft_brk := n + 1\<rparr>"
  have n: "n = ft_brk s" "n \<notin> dom (ft_heap s)" "n \<notin> fst ` set xs" using assms by (auto simp: ref_rep_def)
  have "tab_rep ?s xs" by (rule tab_rep_frame [of s]) (use assms n in \<open>auto simp: ref_rep_def\<close>)
  then obtain s1 where s1: "tab_insert n ?s = Inr s1" "tab_rep s1 ((n, i) # xs)" "ft_heap s1 = (ft_heap ?s)(n \<mapsto> ?o\<lparr>f_next := fh ?s (HASH i)\<rparr>)" "ft_brk s1 = ft_brk ?s"
    using tab_insert_rep [of ?s xs n ?o] n(3) by auto
  have "foo_alloc True True i s = Inr (Some n, s1)" using s1(1) n(1) by (simp add: foo_alloc_def Let_def)
  moreover have "ref_rep s1 (n + 1, (n, i) # xs, c(n := 1))" using assms s1 by (auto simp: ref_rep_def split: if_splits)
  ultimately show ?thesis by blast
qed

lemma foo_find_rep:
  assumes rep: "ref_rep s (n, xs, c)" and small: "\<forall>a. int (c a) < INT_MAX"
  shows "\<exists>s1. foo_find i s = Some (Inr (map_option fst (find (\<lambda>x. snd x = i) xs), s1)) \<and> ref_rep s1 (ref_spec (RFind i) (n, xs, c))"
proof -
  have tab: "tab_rep s xs" using rep by (simp add: ref_rep_def)
  then have f: "foo_find_loop (ft_heap s) i (fh s (HASH i)) = Some (Inr (map_option fst (find (\<lambda>x. snd x = i) xs)))"
    using foo_find_chain [of "ft_heap s" "fh s (HASH i)" "HASH i" xs i] HASH_less [of i] by (simp add: tab_rep_def)
  show ?thesis
  proof (cases "find (\<lambda>x. snd x = i) xs")
    case None
    then show ?thesis using f rep by (simp add: foo_find_def)
  next
    case (Some x)
    obtain a j where x: "x = (a, j)" by (cases x)
    have "(a, j) \<in> set xs" using Some x by (metis find_Some_iff nth_mem)
    then obtain m where "ft_heap s a = Some m" using tab by (auto simp: tab_rep_def)
    then have "0 < c a" using rep by (simp add: ref_rep_def)
    then obtain s1 where "count_up a s = Inr s1" "ref_rep s1 (n, xs, c(a := c a + 1))" using count_up_rep [OF rep] small by blast
    then show ?thesis using f Some x by (simp add: foo_find_def)
  qed
qed

lemma foo_rele_rep:
  assumes rep: "ref_rep s (n, xs, c)" and a: "0 < c a"
  shows "\<exists>s1. foo_rele a s = Some (Inr s1) \<and> ref_rep s1 (ref_spec (RRele a) (n, xs, c))"
proof -
  obtain m where m: "ft_heap s a = Some m" "f_count m = int (c a)" using rep a(1) by (cases "ft_heap s a") (auto simp: ref_rep_def)
  let ?s = "s\<lparr>ft_heap := (ft_heap s)(a \<mapsto> m\<lparr>f_count := int (c a - 1)\<rparr>)\<rparr>"
  have dn: "count_down a s = Inr ?s" using m a by (simp add: count_down_def foo_deref_def INT_MIN_def of_nat_diff)
  show ?thesis
  proof (cases "c a = 1")
    case False
    then have "foo_rele a s = Some (Inr ?s)" using dn a by (simp add: foo_rele_def foo_deref_def)
    then show ?thesis using ref_rep_count [OF rep m(1), of "c a - 1"] False a by simp
  next
    case True
    have tab: "tab_rep ?s xs" by (rule tab_rep_frame [of s]) (use rep m in \<open>auto simp: ref_rep_def\<close>)
    have "dom (ft_heap s) = fst ` set xs" using rep by (simp add: ref_rep_def)
    then have "a \<in> fst ` set xs" using m(1) by blast
    then obtain i where i: "(a, i) \<in> set xs" by auto
    obtain s1 where s1: "tab_unlink a ?s = Some (Inr s1)" "tab_rep s1 (filter (\<lambda>x. fst x \<noteq> a) xs)" "same_data (ft_heap s1) (ft_heap ?s)" "ft_brk s1 = ft_brk ?s"
      using tab_unlink_rep [OF tab i] by blast
    have data: "map_option (\<lambda>n. (f_count n, f_id n)) (ft_heap s1 b) = map_option (\<lambda>n. (f_count n, f_id n)) (ft_heap ?s b)" for b using s1(3) by (simp add: same_data_def)
    let ?t = "s1\<lparr>ft_heap := (ft_heap s1)(a := None)\<rparr>"
    have "ft_heap s1 a \<noteq> None" using data [of a] by auto
    then have run: "foo_rele a s = Some (Inr ?t)" using dn True s1(1) by (auto simp: foo_rele_def foo_deref_def foo_free_def)
    have same: "map_option f_count (ft_heap ?t b) = map_option f_count (ft_heap s b)" if "b \<noteq> a" for b
    proof -
      have "map_option fst (map_option (\<lambda>n. (f_count n, f_id n)) (ft_heap s1 b)) = map_option fst (map_option (\<lambda>n. (f_count n, f_id n)) (ft_heap s b))" using data [of b] that by simp
      then show ?thesis using that by (simp add: option.map_comp comp_def)
    qed
    have "tab_rep ?t (filter (\<lambda>x. fst x \<noteq> a) xs)" by (rule tab_rep_frame [OF s1(2)]) auto
    moreover have "b \<in> dom (ft_heap ?t) \<longleftrightarrow> b \<in> dom (ft_heap s) - {a}" for b
    proof (cases "b = a")
      case False
      then have "ft_heap ?t b = None \<longleftrightarrow> ft_heap s b = None" using same [OF False] by (metis option.map_disc_iff)
      then show ?thesis using False unfolding domIff Diff_iff by (simp only: singleton_iff simp_thms not_False_eq_True)
    qed simp
    then have "dom (ft_heap ?t) = dom (ft_heap s) - {a}" by blast
    then have "dom (ft_heap ?t) = fst ` set (filter (\<lambda>x. fst x \<noteq> a) xs)" using rep by (auto simp: ref_rep_def)
    moreover have "ft_heap ?t b = Some k \<Longrightarrow> 0 < (c(a := 0)) b \<and> f_count k = int ((c(a := 0)) b)" for b k using same [of b] rep by (cases "ft_heap s b") (auto simp: ref_rep_def split: if_splits)
    moreover have "ft_heap ?t b = None \<Longrightarrow> (c(a := 0)) b = 0" for b using same [of b] rep by (cases "ft_heap s b") (auto simp: ref_rep_def split: if_splits)
    moreover have "\<forall>x\<in>set (filter (\<lambda>x. fst x \<noteq> a) xs). fst x < n" "n = ft_brk ?t" using rep s1(4) by (auto simp: ref_rep_def)
    ultimately have "ref_rep ?t (n, filter (\<lambda>x. fst x \<noteq> a) xs, c(a := 0))" unfolding ref_rep_def prod.case by blast
    then show ?thesis using run True by simp
  qed
qed

interpretation foo3: ref_store ref_rep tab_exec
proof
  fix s :: foo_tab and q :: ref_state and p
  assume rep: "ref_rep s q" and ok: "ref_allowed p q"
  obtain n xs c where q: "q = (n, xs, c)" by (cases q)
  show "\<exists>s1. tab_exec p s = Some (Inr s1) \<and> ref_rep s1 (ref_spec p q)"
  proof (cases p)
    case (RAlloc i)
    then show ?thesis using foo_alloc_rep [of s n xs c i] rep q by (auto simp: tab_exec_def)
  next
    case (RFind i)
    then obtain s1 where "foo_find i s = Some (Inr (map_option fst (find (\<lambda>x. snd x = i) xs), s1))" "ref_rep s1 (ref_spec (RFind i) q)"
      using foo_find_rep [of s n xs c i] rep ok q by auto
    then show ?thesis using RFind by (simp add: tab_exec_def)
  next
    case (RHold a)
    then show ?thesis using count_up_rep [of s n xs c a] rep ok q by (auto simp: tab_exec_def foo_hold_def)
  next
    case (RRele a)
    then show ?thesis using foo_rele_rep [of s n xs c a] rep ok q by (auto simp: tab_exec_def)
  qed
qed

definition tab_start :: foo_tab where
  "tab_start = \<lparr>ft_heap = Map.empty, fh = (\<lambda>k. None), ft_brk = 0\<rparr>"

text \<open>
  C39: Whatever sequence of allocations, searches, holds and releases clients perform that release only references they have, the functions of \<^verbatim>\<open>mutex3.c\<close> return, follow no bad pointer, keep in each object the number of references to it,
  and have freed exactly the objects without references; a search by identity then gives the object that was allocated last among those that are left.
\<close>

theorem foo3_refines:
  assumes "ref_run ops (0, [], \<lambda>a. 0) = Some (n, xs, c)"
  shows "\<exists>s. exec_ops tab_exec ops tab_start = Some (Inr s) \<and> dom (ft_heap s) = {a. 0 < c a} \<and> fst ` set xs = {a. 0 < c a} \<and>
    (\<forall>a m. ft_heap s a = Some m \<longrightarrow> f_count m = int (c a)) \<and>
    (\<forall>i. (\<forall>a. int (c a) < INT_MAX) \<longrightarrow> (\<exists>s1. foo_find i s = Some (Inr (map_option fst (find (\<lambda>x. snd x = i) xs), s1))))"
proof -
  have "ref_rep tab_start (0, [], \<lambda>a. 0)" by (simp add: ref_rep_def tab_rep_def tab_start_def)
  then obtain s where s: "exec_ops tab_exec ops tab_start = Some (Inr s)" "ref_rep s (n, xs, c)" using foo3.run_rep assms by blast
  have c: "0 < c a \<longleftrightarrow> a \<in> dom (ft_heap s)" for a using s(2) by (cases "ft_heap s a") (auto simp: ref_rep_def)
  have d: "dom (ft_heap s) = fst ` set xs" "\<forall>a m. ft_heap s a = Some m \<longrightarrow> f_count m = int (c a)" using s(2) by (auto simp: ref_rep_def)
  have e: "dom (ft_heap s) = {a. 0 < c a}" unfolding c by simp
  have f: "\<exists>s1. foo_find i s = Some (Inr (map_option fst (find (\<lambda>x. snd x = i) xs), s1))" if "\<forall>a. int (c a) < INT_MAX" for i using foo_find_rep [OF s(2) that, of i] by blast
  have "fst ` set xs = {a. 0 < c a}" using d(1) e by simp
  then show ?thesis using s(1) e d(2) f by blast
qed

theorem foo3_refines_witness:
  "\<exists>s. exec_ops tab_exec [RAlloc 7, RAlloc 36, RAlloc (-1), RFind 7, RRele 0, RRele 1] tab_start = Some (Inr s) \<and> dom (ft_heap s) = {0, 2}"
proof -
  let ?ops = "[RAlloc 7, RAlloc 36, RAlloc (-1), RFind 7, RRele 0, RRele 1]"
  let ?c = "(\<lambda>a. 0)(0 := 1, 2 := 1) :: nat \<Rightarrow> nat"
  have "ref_run ?ops (0, [], \<lambda>a. 0) = Some (3, [(2, -1), (0, 7)], ?c)" by (auto simp: INT_MAX_def fun_eq_iff)
  from foo3_refines [OF this] obtain s where "exec_ops tab_exec ?ops tab_start = Some (Inr s)" "dom (ft_heap s) = {a. 0 < ?c a}" by blast
  moreover have "{a. 0 < ?c a} = {0, 2}" by auto
  ultimately show ?thesis by blast
qed

end
