(* ===== verification/Foo_Locks.thy ===== *)
theory Foo_Locks
  imports Foo_Table
begin

section \<open>The table of objects with two kinds of locks (apue.3e/threads/mutex2.c)\<close>

text \<open>
  In \<^verbatim>\<open>mutex2.c\<close> one lock protects the chains of the table and every object has a lock for its reference count, which is why the release of a last reference has to let go of the object's lock, take both in the right order and look again.
  Any number of threads run inside the functions, a step for every lock that is taken, with what is done under it up to the next lock. Following a pointer to an object that was freed, to its lock too, is a fault.
\<close>

subsection \<open>The threads\<close>

text \<open>Where a thread is; the comments of the constructors are the calls that come next.\<close>

datatype fpc =
    FIdle | AWait nat | AHave nat | ABoth nat | AOwn nat | HWait nat | HHave nat
  | FWait int | FScan int | FHold nat | FBoth nat | FDone nat | FNone
  | RWait nat | RHave nat | RHash nat | RHashed nat | RBoth nat | RFree nat

record fl =
  fl_tab :: foo_tab
  fl_hash :: "nat option"
  fl_lock :: "nat \<Rightarrow> nat option"
  fl_pc :: "nat \<Rightarrow> fpc"
  fl_ref :: "nat \<Rightarrow> nat \<Rightarrow> nat"

definition fl_go :: "nat \<Rightarrow> fpc \<Rightarrow> fl \<Rightarrow> fl" where
  "fl_go p q s = s\<lparr>fl_pc := (fl_pc s)(p := q)\<rparr>"

definition get_ref :: "nat \<Rightarrow> nat \<Rightarrow> fl \<Rightarrow> fl" where
  "get_ref p a s = s\<lparr>fl_ref := (fl_ref s)(p := (fl_ref s p)(a := fl_ref s p a + 1))\<rparr>"

definition lose_ref :: "nat \<Rightarrow> nat \<Rightarrow> fl \<Rightarrow> fl" where
  "lose_ref p a s = s\<lparr>fl_ref := (fl_ref s)(p := (fl_ref s p)(a := fl_ref s p a - 1))\<rparr>"

text \<open>Taking a lock that is held waits; the lock of an object that is gone cannot be used.\<close>

definition take_hash :: "nat \<Rightarrow> (fl \<Rightarrow> fl cres option) \<Rightarrow> fl \<Rightarrow> fl cres option" where
  "take_hash p f s = (if fl_hash s \<noteq> None then None else f (s\<lparr>fl_hash := Some p\<rparr>))"

definition take_f :: "nat \<Rightarrow> nat \<Rightarrow> (fl \<Rightarrow> fl cres option) \<Rightarrow> fl \<Rightarrow> fl cres option" where
  "take_f p a f s =
     (if ft_heap (fl_tab s) a = None then Some (Inl OutOfBounds) else if fl_lock s a \<noteq> None then None else f (s\<lparr>fl_lock := (fl_lock s)(a := Some p)\<rparr>))"

definition drop_hash :: "fl \<Rightarrow> fl" where
  "drop_hash s = s\<lparr>fl_hash := None\<rparr>"

definition drop_f :: "nat \<Rightarrow> fl \<Rightarrow> fl cres" where
  "drop_f a s = (if ft_heap (fl_tab s) a = None then Inl OutOfBounds else Inr (s\<lparr>fl_lock := (fl_lock s)(a := None)\<rparr>))"

definition on_tab :: "(foo_tab \<Rightarrow> foo_tab cres) \<Rightarrow> fl \<Rightarrow> fl cres" where
  "on_tab f s = bind_c (f (fl_tab s)) (\<lambda>t. Inr (s\<lparr>fl_tab := t\<rparr>))"

definition count_of :: "nat \<Rightarrow> fl \<Rightarrow> int cres" where
  "count_of a s = bind_c (foo_deref (ft_heap (fl_tab s)) (Some a)) (\<lambda>n. Inr (f_count n))"

text \<open>\<^verbatim>\<open>foo_alloc\<close> from the allocation of the object on, which is local to the thread.\<close>

definition alloc2 :: "nat \<Rightarrow> int \<Rightarrow> fl \<Rightarrow> fl" where
  "alloc2 p i s = (let t = fl_tab s; fp = ft_brk t in
     fl_go p (AWait fp) (s\<lparr>fl_tab := t\<lparr>ft_heap := (ft_heap t)(fp \<mapsto> \<lparr>f_count = 1, f_id = i, f_next = None\<rparr>), ft_brk := fp + 1\<rparr>\<rparr>))"

text \<open>It gives back a null pointer when there is no memory, or when the lock of the object cannot be made and the object is freed again.\<close>

definition alloc2_fails :: "bool \<Rightarrow> int \<Rightarrow> fl \<Rightarrow> fl" where
  "alloc2_fails mem i s = (if \<not> mem then s else let t = fl_tab s; fp = ft_brk t; h = (ft_heap t)(fp \<mapsto> \<lparr>f_count = 1, f_id = i, f_next = None\<rparr>) in
     s\<lparr>fl_tab := t\<lparr>ft_heap := h(fp := None), ft_brk := fp + 1\<rparr>\<rparr>)"

definition foo_alloc2 :: "nat \<Rightarrow> fl \<Rightarrow> fl cres option" where
  "foo_alloc2 p s = (case fl_pc s p of
      AWait a \<Rightarrow> take_hash p (\<lambda>s. Some (bind_c (on_tab (tab_insert a) s) (\<lambda>s. Inr (fl_go p (AHave a) s)))) s
    | AHave a \<Rightarrow> take_f p a (\<lambda>s. Some (Inr (fl_go p (ABoth a) s))) s
    | ABoth a \<Rightarrow> Some (Inr (fl_go p (AOwn a) (drop_hash s)))
    | AOwn a \<Rightarrow> Some (bind_c (drop_f a s) (\<lambda>s. Inr (get_ref p a (fl_go p FIdle s))))
    | _ \<Rightarrow> None)"

definition foo_hold2 :: "nat \<Rightarrow> fl \<Rightarrow> fl cres option" where
  "foo_hold2 p s = (case fl_pc s p of
      HWait a \<Rightarrow> take_f p a (\<lambda>s. Some (Inr (fl_go p (HHave a) s))) s
    | HHave a \<Rightarrow> Some (bind_c (on_tab (count_up a) s) (\<lambda>s. bind_c (drop_f a s) (\<lambda>s. Inr (get_ref p a (fl_go p FIdle s)))))
    | _ \<Rightarrow> None)"

definition foo_find2 :: "nat \<Rightarrow> fl \<Rightarrow> fl cres option" where
  "foo_find2 p s = (case fl_pc s p of
      FWait i \<Rightarrow> take_hash p (\<lambda>s. Some (Inr (fl_go p (FScan i) s))) s
    | FScan i \<Rightarrow> (case foo_find_loop (ft_heap (fl_tab s)) i (fh (fl_tab s) (HASH i)) of
          None \<Rightarrow> None
        | Some (Inl e) \<Rightarrow> Some (Inl e)
        | Some (Inr None) \<Rightarrow> Some (Inr (fl_go p FNone s))
        | Some (Inr (Some a)) \<Rightarrow> Some (Inr (fl_go p (FHold a) s)))
    | FHold a \<Rightarrow> take_f p a (\<lambda>s. Some (Inr (fl_go p (FBoth a) s))) s
    | FBoth a \<Rightarrow> Some (bind_c (on_tab (count_up a) s) (\<lambda>s. bind_c (drop_f a s) (\<lambda>s. Inr (fl_go p (FDone a) s))))
    | FDone a \<Rightarrow> Some (Inr (get_ref p a (fl_go p FIdle (drop_hash s))))
    | FNone \<Rightarrow> Some (Inr (fl_go p FIdle (drop_hash s)))
    | _ \<Rightarrow> None)"

definition foo_rele2 :: "nat \<Rightarrow> fl \<Rightarrow> fl cres option" where
  "foo_rele2 p s = (case fl_pc s p of
      RWait a \<Rightarrow> take_f p a (\<lambda>s. Some (Inr (fl_go p (RHave a) s))) s
    | RHave a \<Rightarrow> Some (bind_c (count_of a s) (\<lambda>c.
        if c = 1 then bind_c (drop_f a s) (\<lambda>s. Inr (fl_go p (RHash a) s))
        else bind_c (on_tab (count_down a) s) (\<lambda>s. bind_c (drop_f a s) (\<lambda>s. Inr (fl_go p FIdle s)))))
    | RHash a \<Rightarrow> take_hash p (\<lambda>s. Some (Inr (fl_go p (RHashed a) s))) s
    | RHashed a \<Rightarrow> take_f p a (\<lambda>s. Some (Inr (fl_go p (RBoth a) s))) s
    | RBoth a \<Rightarrow> (case count_of a s of
          Inl e \<Rightarrow> Some (Inl e)
        | Inr c \<Rightarrow>
            if c \<noteq> 1 then Some (bind_c (on_tab (count_down a) s) (\<lambda>s. bind_c (drop_f a s) (\<lambda>s. Inr (fl_go p FIdle (drop_hash s)))))
            else (case tab_unlink a (fl_tab s) of
                None \<Rightarrow> None
              | Some r \<Rightarrow> Some (bind_c r (\<lambda>t. Inr (fl_go p (RFree a) (drop_hash (s\<lparr>fl_tab := t\<rparr>)))))))
    | RFree a \<Rightarrow> Some (bind_c (drop_f a s) (\<lambda>s. bind_c (on_tab (foo_free a) s) (\<lambda>s. Inr (fl_go p FIdle s))))
    | _ \<Rightarrow> None)"

definition fl_thread :: "nat \<Rightarrow> fl \<Rightarrow> fl cres option" where
  "fl_thread p s = (case foo_alloc2 p s of Some r \<Rightarrow> Some r
     | None \<Rightarrow> (case foo_hold2 p s of Some r \<Rightarrow> Some r
     | None \<Rightarrow> (case foo_find2 p s of Some r \<Rightarrow> Some r
     | None \<Rightarrow> foo_rele2 p s)))"

text \<open>A thread that is outside calls a function; it holds and releases only what it has a reference to.\<close>

inductive fl_step :: "nat \<Rightarrow> fl \<Rightarrow> fl \<Rightarrow> bool" for N where
  fl_alloc: "p < N \<Longrightarrow> fl_pc s p = FIdle \<Longrightarrow> fl_step N s (alloc2 p i s)"
| fl_alloc_fails: "p < N \<Longrightarrow> fl_pc s p = FIdle \<Longrightarrow> fl_step N s (alloc2_fails mem i s)"
| fl_hold: "p < N \<Longrightarrow> fl_pc s p = FIdle \<Longrightarrow> 0 < fl_ref s p a \<Longrightarrow> fl_step N s (fl_go p (HWait a) s)"
| fl_find: "p < N \<Longrightarrow> fl_pc s p = FIdle \<Longrightarrow> fl_step N s (fl_go p (FWait i) s)"
| fl_rele: "p < N \<Longrightarrow> fl_pc s p = FIdle \<Longrightarrow> 0 < fl_ref s p a \<Longrightarrow> fl_step N s (lose_ref p a (fl_go p (RWait a) s))"
| fl_run: "p < N \<Longrightarrow> fl_thread p s = Some (Inr t) \<Longrightarrow> fl_step N s t"

definition fl_start :: fl where
  "fl_start = \<lparr>fl_tab = tab_start, fl_hash = None, fl_lock = (\<lambda>a. None), fl_pc = (\<lambda>p. FIdle), fl_ref = (\<lambda>p a. 0)\<rparr>"

subsection \<open>The invariant\<close>

text \<open>The references that a thread accounts for: those it has, and the one it is about to get or to give up.\<close>

fun pc_claim :: "fpc \<Rightarrow> nat option" where
  "pc_claim (AWait a) = Some a"
| "pc_claim (AHave a) = Some a"
| "pc_claim (ABoth a) = Some a"
| "pc_claim (AOwn a) = Some a"
| "pc_claim (FDone a) = Some a"
| "pc_claim (RWait a) = Some a"
| "pc_claim (RHave a) = Some a"
| "pc_claim (RHash a) = Some a"
| "pc_claim (RHashed a) = Some a"
| "pc_claim (RBoth a) = Some a"
| "pc_claim (RFree a) = Some a"
| "pc_claim _ = None"

fun outside :: "fpc \<Rightarrow> nat option" where
  "outside (AWait a) = Some a"
| "outside (RFree a) = Some a"
| "outside _ = None"

fun has_hash :: "fpc \<Rightarrow> bool" where
  "has_hash (AHave a) = True"
| "has_hash (ABoth a) = True"
| "has_hash (FScan i) = True"
| "has_hash (FHold a) = True"
| "has_hash (FBoth a) = True"
| "has_hash (FDone a) = True"
| "has_hash FNone = True"
| "has_hash (RHashed a) = True"
| "has_hash (RBoth a) = True"
| "has_hash _ = False"

fun has_f :: "fpc \<Rightarrow> nat option" where
  "has_f (ABoth a) = Some a"
| "has_f (AOwn a) = Some a"
| "has_f (HHave a) = Some a"
| "has_f (FBoth a) = Some a"
| "has_f (RHave a) = Some a"
| "has_f (RBoth a) = Some a"
| "has_f (RFree a) = Some a"
| "has_f _ = None"

fun holding :: "fpc \<Rightarrow> nat option" where
  "holding (HWait a) = Some a"
| "holding (HHave a) = Some a"
| "holding _ = None"

fun pc_found :: "fpc \<Rightarrow> nat option" where
  "pc_found (FHold a) = Some a"
| "pc_found (FBoth a) = Some a"
| "pc_found _ = None"

definition claim :: "fl \<Rightarrow> nat \<Rightarrow> nat \<Rightarrow> nat" where
  "claim s p a = fl_ref s p a + (if pc_claim (fl_pc s p) = Some a then 1 else 0)"

definition claims :: "nat \<Rightarrow> fl \<Rightarrow> nat \<Rightarrow> nat" where
  "claims N s a = (\<Sum>p<N. claim s p a)"

definition cnt_ok :: "nat \<Rightarrow> fl \<Rightarrow> bool" where
  "cnt_ok N s \<longleftrightarrow> (\<forall>a. ft_heap (fl_tab s) a = None \<longrightarrow> claims N s a = 0) \<and> (\<forall>a m. ft_heap (fl_tab s) a = Some m \<longrightarrow> f_count m = int (claims N s a) \<and> 0 < claims N s a)"

definition lck_ok :: "fl \<Rightarrow> bool" where
  "lck_ok s \<longleftrightarrow> (\<forall>p. has_hash (fl_pc s p) \<longleftrightarrow> fl_hash s = Some p) \<and> (\<forall>p a. has_f (fl_pc s p) = Some a \<longleftrightarrow> fl_lock s a = Some p)"

definition tab_ok :: "fl \<Rightarrow> (nat \<times> int) list \<Rightarrow> bool" where
  "tab_ok s xs \<longleftrightarrow> tab_rep (fl_tab s) xs \<and> (\<forall>a\<in>dom (ft_heap (fl_tab s)). a < ft_brk (fl_tab s)) \<and>
     (\<forall>a. a \<in> dom (ft_heap (fl_tab s)) \<longleftrightarrow> a \<in> fst ` set xs \<or> (\<exists>p. outside (fl_pc s p) = Some a)) \<and> (\<forall>p a. outside (fl_pc s p) = Some a \<longrightarrow> a \<notin> fst ` set xs)"

definition thr_ok :: "nat \<Rightarrow> fl \<Rightarrow> (nat \<times> int) list \<Rightarrow> bool" where
  "thr_ok N s xs \<longleftrightarrow> (\<forall>p\<ge>N. fl_pc s p = FIdle) \<and> (\<forall>p a. holding (fl_pc s p) = Some a \<longrightarrow> 0 < fl_ref s p a) \<and>
     (\<forall>p a. pc_found (fl_pc s p) = Some a \<longrightarrow> a \<in> fst ` set xs) \<and> (\<forall>p a. outside (fl_pc s p) = Some a \<longrightarrow> claims N s a = 1)"

definition fl_inv :: "nat \<Rightarrow> fl \<Rightarrow> (nat \<times> int) list \<Rightarrow> bool" where
  "fl_inv N s xs \<longleftrightarrow> cnt_ok N s \<and> lck_ok s \<and> tab_ok s xs \<and> thr_ok N s xs"

lemma claims_upd:
  assumes "p < N" "\<And>r. r \<noteq> p \<Longrightarrow> claim s' r a = claim s r a"
  shows "claims N s' a + claim s p a = claims N s a + claim s' p a"
proof -
  have "(\<Sum>r\<in>{..<N} - {p}. claim s' r a) = (\<Sum>r\<in>{..<N} - {p}. claim s r a)" using assms(2) by (intro sum.cong) auto
  then show ?thesis using assms(1) by (simp add: claims_def sum.remove [of "{..<N}" p])
qed

lemma claims_ge: "p < N \<Longrightarrow> claim s p a \<le> claims N s a"
  by (simp add: claims_def sum.remove [of "{..<N}" p])

lemma claims_two: "p < N \<Longrightarrow> r < N \<Longrightarrow> p \<noteq> r \<Longrightarrow> claim s p a + claim s r a \<le> claims N s a"
  by (simp add: claims_def sum.remove [of "{..<N}" p] sum.remove [of "{..<N} - {p}" r])

lemma fl_invD: "fl_inv N s xs \<Longrightarrow> cnt_ok N s" "fl_inv N s xs \<Longrightarrow> lck_ok s" "fl_inv N s xs \<Longrightarrow> tab_ok s xs" "fl_inv N s xs \<Longrightarrow> thr_ok N s xs"
  by (simp_all add: fl_inv_def)

lemma claim_other: "fl_pc s' = (fl_pc s)(p := q) \<Longrightarrow> \<forall>r. r \<noteq> p \<longrightarrow> fl_ref s' r = fl_ref s r \<Longrightarrow> r \<noteq> p \<Longrightarrow> claim s' r a = claim s r a"
  by (simp add: claim_def)

text \<open>A step that changes nothing in the table and passes a reference on at most.\<close>

lemma neutral_inv:
  assumes inv: "fl_inv N s xs" and p: "p < N" and tab: "fl_tab s' = fl_tab s" and pc: "fl_pc s' = (fl_pc s)(p := q)" and ref: "\<forall>r. r \<noteq> p \<longrightarrow> fl_ref s' r = fl_ref s r"
    and cl: "\<forall>a. claim s' p a = claim s p a" and q: "outside q = outside (fl_pc s p)" "\<forall>a. holding q = Some a \<longrightarrow> 0 < fl_ref s' p a" "\<forall>a. pc_found q = Some a \<longrightarrow> a \<in> fst ` set xs"
    and l: "lck_ok s'"
  shows "fl_inv N s' xs"
proof -
  have c: "claims N s' a = claims N s a" for a using claims_upd [OF p claim_other [OF pc ref]] cl by (metis add_right_cancel)
  have out: "outside (fl_pc s' r) = outside (fl_pc s r)" for r using pc q(1) by simp
  have "cnt_ok N s'" using fl_invD(1) [OF inv] by (simp add: cnt_ok_def c tab)
  moreover have "tab_ok s' xs" using fl_invD(3) [OF inv] by (simp add: tab_ok_def tab out)
  moreover have "thr_ok N s' xs"
  proof -
    note t = fl_invD(4) [OF inv]
    have "fl_pc s' r = FIdle" if "N \<le> r" for r using t p that pc by (simp add: thr_ok_def)
    moreover have "0 < fl_ref s' r a" if "holding (fl_pc s' r) = Some a" for r a using t q(2) ref pc that by (cases "r = p") (auto simp: thr_ok_def)
    moreover have "a \<in> fst ` set xs" if "pc_found (fl_pc s' r) = Some a" for r a using t q(3) pc that by (cases "r = p") (auto simp: thr_ok_def)
    ultimately show ?thesis using t unfolding thr_ok_def c out by blast
  qed
  ultimately show ?thesis using l by (simp add: fl_inv_def)
qed

text \<open>A step that changes the count of an object in the table.\<close>

lemma recount_inv:
  assumes inv: "fl_inv N s xs" and p: "p < N" and h: "ft_heap (fl_tab s) a = Some m" and tab: "fl_tab s' = fl_tab s\<lparr>ft_heap := (ft_heap (fl_tab s))(a \<mapsto> m\<lparr>f_count := k\<rparr>)\<rparr>"
    and pc: "fl_pc s' = (fl_pc s)(p := q)" and ref: "\<forall>r. r \<noteq> p \<longrightarrow> fl_ref s' r = fl_ref s r" and cl: "\<forall>b. b \<noteq> a \<longrightarrow> claim s' p b = claim s p b"
    and k: "k = f_count m + int (claim s' p a) - int (claim s p a)" "0 < k"
    and q: "outside q = None" "outside (fl_pc s p) = None" "holding q = None" "pc_found q = None" and o: "\<forall>r. outside (fl_pc s r) \<noteq> Some a" and l: "lck_ok s'"
  shows "fl_inv N s' xs"
proof -
  note upd = claims_upd [OF p claim_other [OF pc ref]]
  have c: "claims N s' b = claims N s b" if "b \<noteq> a" for b using upd [of b] cl that by (metis add_right_cancel)
  have "f_count m = int (claims N s a)" using fl_invD(1) [OF inv] h by (simp add: cnt_ok_def)
  then have ca: "int (claims N s' a) = k" using upd [of a] k(1) by linarith
  have out: "outside (fl_pc s' r) = outside (fl_pc s r)" for r using pc q(1,2) by simp
  have "cnt_ok N s'" using fl_invD(1) [OF inv] ca k(2) unfolding cnt_ok_def tab by (simp add: c)
  moreover have "tab_ok s' xs"
  proof -
    have "tab_rep (fl_tab s') xs" by (rule tab_rep_frame [of "fl_tab s"]) (use fl_invD(3) [OF inv] h in \<open>auto simp: tab_ok_def tab\<close>)
    moreover have "dom (ft_heap (fl_tab s')) = dom (ft_heap (fl_tab s))" using h tab by auto
    ultimately show ?thesis using fl_invD(3) [OF inv] tab by (simp add: tab_ok_def out)
  qed
  moreover have "thr_ok N s' xs"
  proof -
    note t = fl_invD(4) [OF inv]
    have "fl_pc s' r = FIdle" if "N \<le> r" for r using t p that pc by (simp add: thr_ok_def)
    moreover have "0 < fl_ref s' r b" if "holding (fl_pc s' r) = Some b" for r b using t q(3) ref pc that by (cases "r = p") (auto simp: thr_ok_def)
    moreover have "b \<in> fst ` set xs" if "pc_found (fl_pc s' r) = Some b" for r b using t q(4) pc that by (cases "r = p") (auto simp: thr_ok_def)
    moreover have "claims N s' b = 1" if "outside (fl_pc s' r) = Some b" for r b using t o c that unfolding out thr_ok_def by metis
    ultimately show ?thesis unfolding thr_ok_def by blast
  qed
  ultimately show ?thesis using l by (simp add: fl_inv_def)
qed

text \<open>What a thread works on is there.\<close>

lemma claimed_alive:
  assumes "fl_inv N s xs" "p < N" "0 < claim s p a"
  obtains m where "ft_heap (fl_tab s) a = Some m" "f_count m = int (claims N s a)"
proof -
  have "0 < claims N s a" using claims_ge [OF assms(2), of s a] assms(3) by simp
  then show thesis using fl_invD(1) [OF assms(1)] that by (cases "ft_heap (fl_tab s) a") (auto simp: cnt_ok_def)
qed

lemma pc_claim_alive:
  assumes "fl_inv N s xs" "p < N" "pc_claim (fl_pc s p) = Some a"
  obtains m where "ft_heap (fl_tab s) a = Some m" "f_count m = int (claims N s a)"
proof -
  have "0 < claim s p a" using assms(3) by (simp add: claim_def)
  then show thesis using claimed_alive [OF assms(1,2)] that by blast
qed

lemma found_alive:
  assumes "fl_inv N s xs" "pc_found (fl_pc s p) = Some a"
  obtains m where "ft_heap (fl_tab s) a = Some m" "\<forall>r. outside (fl_pc s r) \<noteq> Some a"
proof -
  have x: "a \<in> fst ` set xs" using fl_invD(4) [OF assms(1)] assms(2) by (simp add: thr_ok_def)
  then obtain m where "ft_heap (fl_tab s) a = Some m" using fl_invD(3) [OF assms(1)] by (auto simp: tab_ok_def tab_rep_def)
  moreover have "\<forall>r. outside (fl_pc s r) \<noteq> Some a" using fl_invD(3) [OF assms(1)] x unfolding tab_ok_def by blast
  ultimately show thesis using that by blast
qed

lemma outside_thread: "fl_inv N s xs \<Longrightarrow> outside (fl_pc s r) = Some a \<Longrightarrow> r < N"
proof -
  assume inv: "fl_inv N s xs" and o: "outside (fl_pc s r) = Some a"
  then have "\<not> N \<le> r" using fl_invD(4) [OF inv] o unfolding thr_ok_def by fastforce
  then show ?thesis by simp
qed

lemma outside_claim: "outside q = Some a \<Longrightarrow> pc_claim q = Some a"
  by (cases q) auto

lemma outside_alone:
  assumes inv: "fl_inv N s xs" and o: "outside (fl_pc s r) = Some a" and p: "p < N" "0 < claim s p a"
  shows "p = r"
proof (rule ccontr)
  assume "p \<noteq> r"
  have r: "r < N" using outside_thread [OF inv o] .
  have "0 < claim s r a" using outside_claim [OF o] by (simp add: claim_def)
  then have "2 \<le> claims N s a" using claims_two [OF p(1) r \<open>p \<noteq> r\<close>, of s a] p(2) by simp
  then show False using fl_invD(4) [OF inv] o by (auto simp: thr_ok_def)
qed

lemma own_lock: "lck_ok s \<Longrightarrow> has_f (fl_pc s p) = Some a \<Longrightarrow> fl_lock s a = Some p" "lck_ok s \<Longrightarrow> has_hash (fl_pc s p) \<Longrightarrow> fl_hash s = Some p"
  by (simp_all add: lck_ok_def)

text \<open>The locks after a move.\<close>

lemma lck_go:
  assumes ok: "lck_ok s" and pc: "fl_pc s' = (fl_pc s)(p := q)"
    and hs: "fl_hash s' = (if has_hash q then Some p else if has_hash (fl_pc s p) then None else fl_hash s)" "has_hash q \<Longrightarrow> \<not> has_hash (fl_pc s p) \<Longrightarrow> fl_hash s = None"
    and fs: "\<And>a. fl_lock s' a = (if has_f q = Some a then Some p else if has_f (fl_pc s p) = Some a then None else fl_lock s a)" "\<And>a. has_f q = Some a \<Longrightarrow> has_f (fl_pc s p) \<noteq> Some a \<Longrightarrow> fl_lock s a = None"
  shows "lck_ok s'"
proof -
  have h: "has_hash (fl_pc s r) \<longleftrightarrow> fl_hash s = Some r" and f: "has_f (fl_pc s r) = Some a \<longleftrightarrow> fl_lock s a = Some r" for r a using ok by (simp_all add: lck_ok_def)
  have "has_hash (fl_pc s' r) \<longleftrightarrow> fl_hash s' = Some r" for r
  proof (cases "r = p")
    case True
    then show ?thesis using h [of p] hs(1) by (simp add: pc)
  next
    case False
    then have r: "has_hash (fl_pc s' r) \<longleftrightarrow> fl_hash s = Some r" using h [of r] by (simp add: pc)
    show ?thesis
    proof (cases "has_hash q \<or> has_hash (fl_pc s p)")
      case True
      then have "fl_hash s \<noteq> Some r" using hs(2) h [of p] False by auto
      moreover have "fl_hash s' \<noteq> Some r" using True False unfolding hs(1) by auto
      ultimately show ?thesis using r by simp
    qed (use r hs(1) in simp)
  qed
  moreover have "has_f (fl_pc s' r) = Some a \<longleftrightarrow> fl_lock s' a = Some r" for r a
  proof (cases "r = p")
    case True
    then show ?thesis using f [of p a] fs(1) [of a] by (simp add: pc)
  next
    case False
    then have r: "has_f (fl_pc s' r) = Some a \<longleftrightarrow> fl_lock s a = Some r" using f [of r a] by (simp add: pc)
    show ?thesis
    proof (cases "has_f q = Some a \<or> has_f (fl_pc s p) = Some a")
      case True
      then have "fl_lock s a \<noteq> Some r" using fs(2) [of a] f [of p a] False by auto
      moreover have "fl_lock s' a \<noteq> Some r" using True False unfolding fs(1) by auto
      ultimately show ?thesis using r by simp
    qed (use r fs(1) [of a] in simp)
  qed
  ultimately show ?thesis by (simp add: lck_ok_def)
qed

subsection \<open>The steps that change the table\<close>

lemma alloc2_inv:
  assumes inv: "fl_inv N s xs" and p: "p < N" and pc: "fl_pc s p = FIdle"
  shows "fl_inv N (alloc2 p i s) xs"
proof -
  let ?a = "ft_brk (fl_tab s)" and ?s = "alloc2 p i s"
  note c = fl_invD(1) [OF inv] and t = fl_invD(3) [OF inv] and th = fl_invD(4) [OF inv]
  have heap: "ft_heap (fl_tab ?s) = (ft_heap (fl_tab s))(?a \<mapsto> \<lparr>f_count = 1, f_id = i, f_next = None\<rparr>)" "fh (fl_tab ?s) = fh (fl_tab s)" "ft_brk (fl_tab ?s) = ?a + 1"
    "fl_pc ?s = (fl_pc s)(p := AWait ?a)" "fl_ref ?s = fl_ref s" "fl_hash ?s = fl_hash s" "fl_lock ?s = fl_lock s" by (simp_all add: alloc2_def Let_def fl_go_def)
  have new: "?a \<notin> dom (ft_heap (fl_tab s))" using t unfolding tab_ok_def by (metis less_irrefl)
  then have nx: "?a \<notin> fst ` set xs" "outside (fl_pc s r) \<noteq> Some ?a" for r using t unfolding tab_ok_def by blast+
  have cl: "claims N s ?a = 0" using c new by (auto simp: cnt_ok_def)
  have upd: "claims N ?s b + claim s p b = claims N s b + claim ?s p b" for b by (rule claims_upd [OF p]) (simp add: claim_def heap)
  have ca: "claims N ?s ?a = 1" using upd [of ?a] cl claims_ge [OF p, of s ?a] pc by (simp add: claim_def heap)
  have cb: "claims N ?s b = claims N s b" if "b \<noteq> ?a" for b using upd [of b] that pc by (simp add: claim_def heap)
  have out: "outside (fl_pc ?s r) = (if r = p then Some ?a else outside (fl_pc s r))" for r by (simp add: heap)
  have "cnt_ok N ?s" using c ca cb by (auto simp: cnt_ok_def heap)
  moreover have "lck_ok ?s" by (rule lck_go [OF fl_invD(2) [OF inv] heap(4)]) (simp_all add: heap pc)
  moreover have "tab_ok ?s xs"
  proof -
    have "tab_rep (fl_tab ?s) xs" by (rule tab_rep_frame [of "fl_tab s"]) (use t nx(1) in \<open>auto simp: tab_ok_def heap\<close>)
    moreover have "b \<in> dom (ft_heap (fl_tab ?s)) \<longleftrightarrow> b \<in> fst ` set xs \<or> (\<exists>r. outside (fl_pc ?s r) = Some b)" for b
    proof -
      have "b \<in> dom (ft_heap (fl_tab s)) \<longleftrightarrow> b \<in> fst ` set xs \<or> (\<exists>r. outside (fl_pc s r) = Some b)" using t unfolding tab_ok_def by blast
      moreover have "outside (fl_pc s p) = None" using pc by simp
      ultimately show ?thesis unfolding out heap(1) by (auto split: if_splits) (metis option.distinct(1))
    qed
    moreover have "\<forall>b\<in>dom (ft_heap (fl_tab ?s)). b < ft_brk (fl_tab ?s)" using t by (auto simp: heap tab_ok_def intro: less_SucI)
    ultimately show ?thesis using t nx(1) unfolding tab_ok_def out by (auto split: if_splits)
  qed
  moreover have "thr_ok N ?s xs"
  proof -
    have "claims N ?s b = 1" if "outside (fl_pc ?s r) = Some b" for r b
    proof (cases "r = p")
      case True
      then show ?thesis using that ca by (simp add: out)
    next
      case False
      then have "outside (fl_pc s r) = Some b" using that by (simp add: out)
      then show ?thesis using th nx(2) [of r] cb [of b] by (auto simp: thr_ok_def)
    qed
    then show ?thesis using th p by (simp add: thr_ok_def heap)
  qed
  ultimately show ?thesis by (simp add: fl_inv_def)
qed

lemma insert_inv:
  assumes inv: "fl_inv N s xs" and p: "p < N" and pc: "fl_pc s p = AWait a" and st: "fl_hash s = None"
  shows "\<exists>t i. tab_insert a (fl_tab s) = Inr t \<and> fl_inv N (fl_go p (AHave a) (s\<lparr>fl_hash := Some p, fl_tab := t\<rparr>)) ((a, i) # xs)"
proof -
  note c = fl_invD(1) [OF inv] and tb = fl_invD(3) [OF inv] and th = fl_invD(4) [OF inv]
  have "pc_claim (fl_pc s p) = Some a" using pc by simp
  then obtain m where m: "ft_heap (fl_tab s) a = Some m" "f_count m = int (claims N s a)" by (rule pc_claim_alive [OF inv p])
  have o: "outside (fl_pc s p) = Some a" using pc by simp
  have new: "a \<notin> fst ` set xs" using tb o unfolding tab_ok_def by blast
  obtain t where t: "tab_insert a (fl_tab s) = Inr t" "tab_rep t ((a, f_id m) # xs)" "ft_heap t = (ft_heap (fl_tab s))(a \<mapsto> m\<lparr>f_next := fh (fl_tab s) (HASH (f_id m))\<rparr>)" "ft_brk t = ft_brk (fl_tab s)"
  proof -
    have "tab_rep (fl_tab s) xs" using tb by (simp add: tab_ok_def)
    then show ?thesis using tab_insert_rep [OF _ m(1) new] that by blast
  qed
  let ?s = "fl_go p (AHave a) (s\<lparr>fl_hash := Some p, fl_tab := t\<rparr>)" and ?xs = "(a, f_id m) # xs"
  have cl: "claim ?s r b = claim s r b" for r b using pc by (simp add: claim_def fl_go_def)
  then have cs: "claims N ?s b = claims N s b" for b by (simp add: claims_def)
  have out: "outside (fl_pc ?s r) = (if r = p then None else outside (fl_pc s r))" for r by (simp add: fl_go_def)
  have alone: "outside (fl_pc s r) \<noteq> Some a" if "r \<noteq> p" for r
  proof
    assume "outside (fl_pc s r) = Some a"
    moreover have "0 < claim s p a" using pc by (simp add: claim_def)
    ultimately show False using outside_alone [OF inv _ p] that by blast
  qed
  have tab: "fl_tab ?s = t" by (simp add: fl_go_def)
  have "cnt_ok N ?s" using c m(1) unfolding cnt_ok_def cs tab t(3) by simp
  moreover have "lck_ok ?s" by (rule lck_go [OF fl_invD(2) [OF inv], of _ p "AHave a"]) (simp_all add: fl_go_def pc st)
  moreover have "tab_ok ?s ?xs"
  proof -
    have d: "dom (ft_heap t) = dom (ft_heap (fl_tab s))" using t(3) m(1) by auto
    have "b \<in> dom (ft_heap (fl_tab ?s)) \<longleftrightarrow> b \<in> fst ` set ?xs \<or> (\<exists>r. outside (fl_pc ?s r) = Some b)" for b
    proof -
      have "b \<in> dom (ft_heap (fl_tab s)) \<longleftrightarrow> b \<in> fst ` set xs \<or> (\<exists>r. outside (fl_pc s r) = Some b)" using tb unfolding tab_ok_def by blast
      moreover have "(\<exists>r. outside (fl_pc ?s r) = Some b) \<longleftrightarrow> (\<exists>r. outside (fl_pc s r) = Some b) \<and> b \<noteq> a" unfolding out using o alone by (metis option.distinct(1) option.inject)
      ultimately show ?thesis unfolding tab d using o by auto
    qed
    moreover have "b \<notin> fst ` set ?xs" if "outside (fl_pc ?s r) = Some b" for r b
    proof -
      have "r \<noteq> p" "outside (fl_pc s r) = Some b" using that by (auto simp: out split: if_splits)
      then show ?thesis using alone [of r] tb unfolding tab_ok_def by auto
    qed
    moreover have "tab_rep (fl_tab ?s) ?xs" "\<forall>b\<in>dom (ft_heap (fl_tab ?s)). b < ft_brk (fl_tab ?s)" using t(2,4) tb unfolding tab d tab_ok_def by simp_all
    ultimately show ?thesis unfolding tab_ok_def by blast
  qed
  moreover have "thr_ok N ?s ?xs" using th p unfolding thr_ok_def out cs by (auto simp: fl_go_def split: if_splits)
  ultimately show ?thesis using t(1) by (auto simp: fl_inv_def)
qed

lemma unlink_inv:
  assumes inv: "fl_inv N s xs" and p: "p < N" and pc: "fl_pc s p = RBoth a" and one: "claims N s a = 1"
  shows "\<exists>t. tab_unlink a (fl_tab s) = Some (Inr t) \<and> fl_inv N (fl_go p (RFree a) (drop_hash (s\<lparr>fl_tab := t\<rparr>))) (filter (\<lambda>x. fst x \<noteq> a) xs)"
proof -
  note c = fl_invD(1) [OF inv] and tb = fl_invD(3) [OF inv] and th = fl_invD(4) [OF inv] and lk = fl_invD(2) [OF inv]
  have "pc_claim (fl_pc s p) = Some a" using pc by simp
  then obtain m where m: "ft_heap (fl_tab s) a = Some m" by (rule pc_claim_alive [OF inv p])
  have alone: "outside (fl_pc s r) \<noteq> Some a" for r
  proof
    assume o: "outside (fl_pc s r) = Some a"
    have "0 < claim s p a" using pc by (simp add: claim_def)
    then have "p = r" by (rule outside_alone [OF inv o p])
    then show False using o pc by simp
  qed
  then have "a \<in> fst ` set xs" using tb m unfolding tab_ok_def by blast
  then obtain i where i: "(a, i) \<in> set xs" by auto
  have rep: "tab_rep (fl_tab s) xs" using tb by (simp add: tab_ok_def)
  obtain t where t: "tab_unlink a (fl_tab s) = Some (Inr t)" "tab_rep t (filter (\<lambda>x. fst x \<noteq> a) xs)" "same_data (ft_heap t) (ft_heap (fl_tab s))" "ft_brk t = ft_brk (fl_tab s)"
    using tab_unlink_rep [OF rep i] by blast
  let ?s = "fl_go p (RFree a) (drop_hash (s\<lparr>fl_tab := t\<rparr>))" and ?xs = "filter (\<lambda>x. fst x \<noteq> a) xs"
  have tab: "fl_tab ?s = t" by (simp add: fl_go_def drop_hash_def)
  have data: "map_option (\<lambda>n. (f_count n, f_id n)) (ft_heap t b) = map_option (\<lambda>n. (f_count n, f_id n)) (ft_heap (fl_tab s) b)" for b using t(3) by (simp add: same_data_def)
  have none: "ft_heap t b = None \<longleftrightarrow> ft_heap (fl_tab s) b = None" for b using data [of b] by (cases "ft_heap t b"; cases "ft_heap (fl_tab s) b"; simp)
  have d: "dom (ft_heap t) = dom (ft_heap (fl_tab s))" unfolding dom_def using none by simp
  have cnt: "\<exists>k. ft_heap (fl_tab s) b = Some k \<and> f_count k = f_count n" if "ft_heap t b = Some n" for b n using data [of b] that by (cases "ft_heap (fl_tab s) b") auto
  have "claim ?s r b = claim s r b" for r b using pc by (simp add: claim_def fl_go_def drop_hash_def)
  then have cs: "claims N ?s b = claims N s b" for b by (simp add: claims_def)
  have out: "outside (fl_pc ?s r) = (if r = p then Some a else outside (fl_pc s r))" for r by (simp add: fl_go_def drop_hash_def)
  have "cnt_ok N ?s" using c cnt none unfolding cnt_ok_def cs tab by metis
  moreover have "lck_ok ?s" by (rule lck_go [OF lk, of _ p "RFree a"]) (use own_lock(1) [OF lk, of p a] pc in \<open>auto simp: fl_go_def drop_hash_def\<close>)
  moreover have "tab_ok ?s ?xs"
  proof -
    have "b \<in> dom (ft_heap (fl_tab ?s)) \<longleftrightarrow> b \<in> fst ` set ?xs \<or> (\<exists>r. outside (fl_pc ?s r) = Some b)" for b
    proof -
      have "b \<in> dom (ft_heap (fl_tab s)) \<longleftrightarrow> b \<in> fst ` set xs \<or> (\<exists>r. outside (fl_pc s r) = Some b)" using tb unfolding tab_ok_def by blast
      moreover have "(\<exists>r. outside (fl_pc ?s r) = Some b) \<longleftrightarrow> b = a \<or> (\<exists>r. outside (fl_pc s r) = Some b)" 
      proof -
        have "outside (fl_pc s p) = None" using pc by simp
        then show ?thesis unfolding out by (metis option.distinct(1) option.inject)
      qed
      moreover have "b \<in> fst ` set ?xs \<longleftrightarrow> b \<in> fst ` set xs \<and> b \<noteq> a" by auto
      ultimately show ?thesis unfolding tab d using \<open>a \<in> fst ` set xs\<close> by blast
    qed
    moreover have "b \<notin> fst ` set ?xs" if "outside (fl_pc ?s r) = Some b" for r b
    proof (cases "r = p")
      case False
      then have "b \<notin> fst ` set xs" using that tb unfolding out tab_ok_def by simp
      then show ?thesis by auto
    qed (use that in \<open>auto simp: out\<close>)
    moreover have "tab_rep (fl_tab ?s) ?xs" "\<forall>b\<in>dom (ft_heap (fl_tab ?s)). b < ft_brk (fl_tab ?s)" using t(2,4) tb unfolding tab d tab_ok_def by simp_all
    ultimately show ?thesis unfolding tab_ok_def by blast
  qed
  moreover have "thr_ok N ?s ?xs"
  proof -
    have "pc_found (fl_pc s r) = None" if "r \<noteq> p" for r
    proof (rule ccontr)
      assume "pc_found (fl_pc s r) \<noteq> None"
      then have "has_hash (fl_pc s r)" by (cases "fl_pc s r") auto
      then show False using lk pc that unfolding lck_ok_def by (metis has_hash.simps(9) option.inject)
    qed
    then have "pc_found (fl_pc ?s r) = None" for r by (cases "r = p") (auto simp: fl_go_def drop_hash_def)
    moreover have "fl_pc ?s r = FIdle" if "N \<le> r" for r using th p that by (simp add: thr_ok_def fl_go_def drop_hash_def)
    moreover have "0 < fl_ref ?s r b" if "holding (fl_pc ?s r) = Some b" for r b using th that by (cases "r = p") (auto simp: thr_ok_def fl_go_def drop_hash_def)
    moreover have "claims N ?s b = 1" if "outside (fl_pc ?s r) = Some b" for r b using th one that unfolding cs out thr_ok_def by (cases "r = p") auto
    ultimately show ?thesis unfolding thr_ok_def by auto
  qed
  ultimately show ?thesis using t(1) by (auto simp: fl_inv_def)
qed

lemma free_inv:
  assumes inv: "fl_inv N s xs" and p: "p < N" and pc: "fl_pc s p = RFree a"
  shows "\<exists>t. drop_f a s = Inr (s\<lparr>fl_lock := (fl_lock s)(a := None)\<rparr>) \<and> foo_free a (fl_tab s) = Inr t \<and> fl_inv N (fl_go p FIdle (s\<lparr>fl_lock := (fl_lock s)(a := None), fl_tab := t\<rparr>)) xs"
proof -
  note c = fl_invD(1) [OF inv] and tb = fl_invD(3) [OF inv] and th = fl_invD(4) [OF inv] and lk = fl_invD(2) [OF inv]
  have pcl: "pc_claim (fl_pc s p) = Some a" using pc by simp
  then obtain m where m: "ft_heap (fl_tab s) a = Some m" by (rule pc_claim_alive [OF inv p])
  have o: "outside (fl_pc s p) = Some a" using pc by simp
  have one: "claims N s a = 1" using th o unfolding thr_ok_def by blast
  have new: "a \<notin> fst ` set xs" using tb o unfolding tab_ok_def by blast
  let ?t = "(fl_tab s)\<lparr>ft_heap := (ft_heap (fl_tab s))(a := None)\<rparr>"
  let ?s = "fl_go p FIdle (s\<lparr>fl_lock := (fl_lock s)(a := None), fl_tab := ?t\<rparr>)"
  have s: "fl_tab ?s = ?t" "fl_pc ?s = (fl_pc s)(p := FIdle)" "fl_ref ?s = fl_ref s" "fl_hash ?s = fl_hash s" "fl_lock ?s = (fl_lock s)(a := None)" by (simp_all add: fl_go_def)
  have upd: "claims N ?s b + claim s p b = claims N s b + claim ?s p b" for b by (rule claims_upd [OF p]) (simp add: claim_def s)
  have own: "claim s p a = 1" "fl_ref s p a = 0" using claims_ge [OF p, of s a] one pcl by (simp_all add: claim_def)
  have ca: "claims N ?s a = 0" using upd [of a] own one by (simp add: claim_def s)
  have cb: "claims N ?s b = claims N s b" if "b \<noteq> a" for b using upd [of b] that pc by (simp add: claim_def s)
  have alone: "outside (fl_pc s r) \<noteq> Some a" if "r \<noteq> p" for r using outside_alone [OF inv _ p, of r a] own(1) that by auto
  have out: "outside (fl_pc ?s r) = (if r = p then None else outside (fl_pc s r))" for r by (simp add: s)
  have "cnt_ok N ?s" using c ca cb unfolding cnt_ok_def s by auto
  moreover have "lck_ok ?s" by (rule lck_go [OF lk s(2)]) (use pc lk in \<open>auto simp: s lck_ok_def\<close>)
  moreover have "tab_ok ?s xs"
  proof -
    have "tab_rep (fl_tab ?s) xs" by (rule tab_rep_frame [of "fl_tab s"]) (use tb new in \<open>auto simp: tab_ok_def s\<close>)
    moreover have "b \<in> dom (ft_heap (fl_tab ?s)) \<longleftrightarrow> b \<in> fst ` set xs \<or> (\<exists>r. outside (fl_pc ?s r) = Some b)" for b
    proof -
      have "b \<in> dom (ft_heap (fl_tab s)) \<longleftrightarrow> b \<in> fst ` set xs \<or> (\<exists>r. outside (fl_pc s r) = Some b)" using tb unfolding tab_ok_def by blast
      moreover have "(\<exists>r. outside (fl_pc ?s r) = Some b) \<longleftrightarrow> (\<exists>r. outside (fl_pc s r) = Some b) \<and> b \<noteq> a" unfolding out using o alone by (metis option.distinct(1) option.inject)
      moreover have "b \<in> dom (ft_heap (fl_tab ?s)) \<longleftrightarrow> b \<in> dom (ft_heap (fl_tab s)) \<and> b \<noteq> a" by (simp add: s)
      ultimately show ?thesis using new by blast
    qed
    moreover have "\<forall>b\<in>dom (ft_heap (fl_tab ?s)). b < ft_brk (fl_tab ?s)" using tb by (simp add: tab_ok_def s)
    moreover have "b \<notin> fst ` set xs" if "outside (fl_pc ?s r) = Some b" for r b using that tb unfolding out tab_ok_def by (metis option.distinct(1))
    ultimately show ?thesis unfolding tab_ok_def by blast
  qed
  moreover have "thr_ok N ?s xs"
  proof -
    have "claims N ?s b = 1" if "outside (fl_pc ?s r) = Some b" for r b
    proof -
      have r: "r \<noteq> p" "outside (fl_pc s r) = Some b" using that by (auto simp: out split: if_splits)
      then have "b \<noteq> a" using alone by blast
      then show ?thesis using cb th r(2) by (simp add: thr_ok_def)
    qed
    then show ?thesis using th p by (simp add: thr_ok_def s)
  qed
  ultimately have "fl_inv N ?s xs" by (simp add: fl_inv_def)
  then show ?thesis using m by (auto simp: drop_f_def foo_free_def)
qed

subsection \<open>The functions\<close>

lemma take_f_inv:
  assumes inv: "fl_inv N s xs" and p: "p < N" and h: "ft_heap (fl_tab s) a \<noteq> None" and st: "take_f p a (\<lambda>s. Some (Inr (fl_go p q s))) s = Some r"
    and q: "has_f q = Some a" "has_f (fl_pc s p) = None" "has_hash q = has_hash (fl_pc s p)" "pc_claim q = pc_claim (fl_pc s p)" "outside q = outside (fl_pc s p)" "holding q = holding (fl_pc s p)" "pc_found q = pc_found (fl_pc s p)"
  shows "\<exists>t. r = Inr t \<and> fl_inv N t xs"
proof -
  let ?s = "fl_go p q (s\<lparr>fl_lock := (fl_lock s)(a := Some p)\<rparr>)"
  have r: "r = Inr ?s" and free: "fl_lock s a = None" using st h by (auto simp: take_f_def split: if_splits)
  note lk = fl_invD(2) [OF inv]
  have "lck_ok ?s" by (rule lck_go [OF lk, of _ p q]) (use q(1-3) free lk in \<open>auto simp: fl_go_def lck_ok_def\<close>)
  then have "fl_inv N ?s xs" using neutral_inv [OF inv p, of ?s q] fl_invD(4) [OF inv] q by (simp add: fl_go_def claim_def thr_ok_def)
  then show ?thesis using r by blast
qed

lemma take_hash_inv:
  assumes inv: "fl_inv N s xs" and p: "p < N" and st: "take_hash p (\<lambda>s. Some (Inr (fl_go p q s))) s = Some r"
    and q: "has_f q = has_f (fl_pc s p)" "has_hash q" "pc_claim q = pc_claim (fl_pc s p)" "outside q = outside (fl_pc s p)" "holding q = None" "pc_found q = None"
  shows "\<exists>t. r = Inr t \<and> fl_inv N t xs"
proof -
  let ?s = "fl_go p q (s\<lparr>fl_hash := Some p\<rparr>)"
  have r: "r = Inr ?s" and free: "fl_hash s = None" using st by (auto simp: take_hash_def split: if_splits)
  note lk = fl_invD(2) [OF inv]
  have "lck_ok ?s" by (rule lck_go [OF lk, of _ p q]) (use q(1,2) free lk in \<open>auto simp: fl_go_def lck_ok_def\<close>)
  then have "fl_inv N ?s xs" using neutral_inv [OF inv p, of ?s q] q by (simp add: fl_go_def claim_def)
  then show ?thesis using r by blast
qed

text \<open>A step that gives back locks and may turn the claim of the thread into a reference.\<close>

lemma leave_inv:
  assumes inv: "fl_inv N s xs" and p: "p < N" and s': "fl_tab s' = fl_tab s" "fl_pc s' = (fl_pc s)(p := q)" "\<forall>r. r \<noteq> p \<longrightarrow> fl_ref s' r = fl_ref s r"
    and ref: "\<forall>a. fl_ref s' p a + (if pc_claim q = Some a then 1 else 0) = fl_ref s p a + (if pc_claim (fl_pc s p) = Some a then 1 else 0)"
    and hs: "fl_hash s' = (if has_hash q then Some p else if has_hash (fl_pc s p) then None else fl_hash s)" "has_hash q \<longrightarrow> has_hash (fl_pc s p)"
    and fs: "fl_lock s' = (\<lambda>a. if has_f q = Some a then Some p else if has_f (fl_pc s p) = Some a then None else fl_lock s a)" "has_f q = None \<or> has_f q = has_f (fl_pc s p)"
    and q: "outside q = outside (fl_pc s p)" "\<forall>a. holding q = Some a \<longrightarrow> 0 < fl_ref s' p a" "\<forall>a. pc_found q = Some a \<longrightarrow> a \<in> fst ` set xs"
  shows "fl_inv N s' xs"
proof (rule neutral_inv [OF inv p s' _ q])
  show "\<forall>a. claim s' p a = claim s p a" using ref s'(2) by (simp add: claim_def)
  show "lck_ok s'" by (rule lck_go [OF fl_invD(2) [OF inv] s'(2) hs(1)]) (use hs(2) fs in auto)
qed

lemma alloc2_fails_inv:
  assumes inv: "fl_inv N s xs"
  shows "fl_inv N (alloc2_fails mem i s) xs"
proof (cases mem)
  case True
  let ?t = "fl_tab s"
  have b: "\<forall>a\<in>dom (ft_heap ?t). a < ft_brk ?t" using fl_invD(3) [OF inv] by (simp add: tab_ok_def)
  then have "ft_brk ?t \<notin> dom (ft_heap ?t)" by blast
  then have "(ft_heap ?t)(ft_brk ?t := None) = ft_heap ?t" by (auto simp: fun_eq_iff)
  then have e: "alloc2_fails mem i s = s\<lparr>fl_tab := ?t\<lparr>ft_brk := ft_brk ?t + 1\<rparr>\<rparr>" using True by (simp add: alloc2_fails_def Let_def)
  have c: "claims N (alloc2_fails mem i s) = claims N s" by (simp add: fun_eq_iff claims_def claim_def e)
  have r: "tab_rep (fl_tab (alloc2_fails mem i s)) xs \<longleftrightarrow> tab_rep ?t xs" by (simp add: e tab_rep_def)
  have b1: "\<forall>a\<in>dom (ft_heap ?t). a < ft_brk ?t + 1" using b by (simp add: less_SucI)
  show ?thesis using inv b1 unfolding fl_inv_def cnt_ok_def lck_ok_def tab_ok_def thr_ok_def c r by (simp add: e)
qed (use inv in \<open>simp add: alloc2_fails_def\<close>)

lemma foo_alloc2_inv:
  assumes inv: "fl_inv N s xs" and p: "p < N" and st: "foo_alloc2 p s = Some r"
  shows "\<exists>t ys. r = Inr t \<and> fl_inv N t ys"
proof (cases "fl_pc s p")
  case (AWait a)
  have "fl_hash s = None" using st AWait by (simp add: foo_alloc2_def take_hash_def split: if_splits)
  then show ?thesis using insert_inv [OF inv p AWait] st AWait by (auto simp: foo_alloc2_def take_hash_def on_tab_def)
next
  case (AHave a)
  obtain m where "ft_heap (fl_tab s) a = Some m" using pc_claim_alive [OF inv p] AHave by auto
  then show ?thesis using take_f_inv [OF inv p, of a "ABoth a" r] st AHave by (auto simp: foo_alloc2_def)
next
  case (ABoth a)
  then have r: "r = Inr (fl_go p (AOwn a) (drop_hash s))" using st by (simp add: foo_alloc2_def)
  have "fl_inv N (fl_go p (AOwn a) (drop_hash s)) xs"
    by (rule leave_inv [OF inv p]) (use ABoth own_lock(1) [OF fl_invD(2) [OF inv], of p a] in \<open>auto simp: fl_go_def drop_hash_def fun_eq_iff\<close>)
  then show ?thesis using r by blast
next
  case (AOwn a)
  obtain m where m: "ft_heap (fl_tab s) a = Some m" using pc_claim_alive [OF inv p] AOwn by auto
  let ?s = "get_ref p a (fl_go p FIdle (s\<lparr>fl_lock := (fl_lock s)(a := None)\<rparr>))"
  have r: "r = Inr ?s" using st AOwn m by (simp add: foo_alloc2_def drop_f_def)
  have "fl_inv N ?s xs" by (rule leave_inv [OF inv p]) (use AOwn in \<open>auto simp: fl_go_def get_ref_def fun_eq_iff\<close>)
  then show ?thesis using r by blast
qed (use st in \<open>simp_all add: foo_alloc2_def\<close>)

lemma foo_hold2_inv:
  assumes inv: "fl_inv N s xs" and p: "p < N" and st: "foo_hold2 p s = Some r"
  shows "r = Inl SignedOverflow \<or> (\<exists>t. r = Inr t \<and> fl_inv N t xs)"
proof (cases "fl_pc s p")
  case (HWait a)
  have "0 < claim s p a" using fl_invD(4) [OF inv] HWait by (auto simp: thr_ok_def claim_def dest: spec [of _ p])
  then obtain m where "ft_heap (fl_tab s) a = Some m" by (rule claimed_alive [OF inv p])
  then show ?thesis using take_f_inv [OF inv p, of a "HHave a" r] st HWait by (auto simp: foo_hold2_def)
next
  case (HHave a)
  have cl: "0 < claim s p a" using fl_invD(4) [OF inv] HHave by (auto simp: thr_ok_def claim_def dest: spec [of _ p])
  then obtain m where m: "ft_heap (fl_tab s) a = Some m" "f_count m = int (claims N s a)" by (rule claimed_alive [OF inv p])
  have pos: "0 < f_count m" using m(2) claims_ge [OF p, of s a] cl by simp
  have o: "\<forall>b. outside (fl_pc s b) \<noteq> Some a" using outside_alone [OF inv _ p cl] HHave by fastforce
  show ?thesis
  proof (cases "f_count m = INT_MAX")
    case False
    let ?t = "fl_tab s\<lparr>ft_heap := (ft_heap (fl_tab s))(a \<mapsto> m\<lparr>f_count := f_count m + 1\<rparr>)\<rparr>"
    let ?s = "get_ref p a (fl_go p FIdle (s\<lparr>fl_tab := ?t, fl_lock := (fl_lock s)(a := None)\<rparr>))"
    have s': "fl_tab ?s = ?t" "fl_pc ?s = (fl_pc s)(p := FIdle)" "fl_hash ?s = fl_hash s" "fl_lock ?s = (fl_lock s)(a := None)" "fl_ref ?s = (fl_ref s)(p := (fl_ref s p)(a := fl_ref s p a + 1))"
      by (simp_all add: get_ref_def fl_go_def)
    have r: "r = Inr ?s" using st HHave m(1) False by (simp add: foo_hold2_def on_tab_def count_up_def foo_deref_def drop_f_def)
    have "lck_ok ?s" by (rule lck_go [OF fl_invD(2) [OF inv] s'(2)]) (use HHave in \<open>auto simp: s'\<close>)
    then have "fl_inv N ?s xs" by (intro recount_inv [OF inv p m(1) s'(1) s'(2)]) (use HHave o pos in \<open>auto simp: s' claim_def\<close>)
    then show ?thesis using r by blast
  qed (use st HHave m in \<open>simp add: foo_hold2_def on_tab_def count_up_def foo_deref_def\<close>)
qed (use st in \<open>simp_all add: foo_hold2_def\<close>)

text \<open>A step that lowers the count and gives back the locks.\<close>

lemma count_down_inv:
  assumes inv: "fl_inv N s xs" and p: "p < N" and pc: "pc_claim (fl_pc s p) = Some a" "outside (fl_pc s p) = None" and c: "claims N s a \<noteq> 1" and h: "ft_heap (fl_tab s) a = Some m"
    and s': "fl_tab s' = fl_tab s\<lparr>ft_heap := (ft_heap (fl_tab s))(a \<mapsto> m\<lparr>f_count := f_count m - 1\<rparr>)\<rparr>" "fl_pc s' = (fl_pc s)(p := FIdle)" "fl_ref s' = fl_ref s"
    and l: "lck_ok s'"
  shows "fl_inv N s' xs"
proof -
  have m: "f_count m = int (claims N s a)" "0 < claims N s a" using fl_invD(1) [OF inv] h by (auto simp: cnt_ok_def)
  have o: "\<forall>r. outside (fl_pc s r) \<noteq> Some a" using fl_invD(4) [OF inv] c unfolding thr_ok_def by blast
  show ?thesis by (rule recount_inv [OF inv p h s'(1) s'(2) _ _ _ _ _ _ _ _ o l]) (use pc m c s' in \<open>auto simp: claim_def\<close>)
qed

lemma foo_find2_inv:
  assumes inv: "fl_inv N s xs" and p: "p < N" and st: "foo_find2 p s = Some r"
  shows "r = Inl SignedOverflow \<or> (\<exists>t. r = Inr t \<and> fl_inv N t xs)"
proof (cases "fl_pc s p")
  case (FWait i)
  then show ?thesis using take_hash_inv [OF inv p, of "FScan i" r] st by (simp add: foo_find2_def)
next
  case (FScan i)
  have rep: "tab_rep (fl_tab s) xs" using fl_invD(3) [OF inv] by (simp add: tab_ok_def)
  have f: "foo_find_loop (ft_heap (fl_tab s)) i (fh (fl_tab s) (HASH i)) = Some (Inr (map_option fst (find (\<lambda>x. snd x = i) xs)))"
    by (rule foo_find_chain [OF _ _ refl]) (use rep HASH_less [of i] in \<open>auto simp: tab_rep_def\<close>)
  note own = own_lock(2) [OF fl_invD(2) [OF inv], of p]
  show ?thesis
  proof (cases "find (\<lambda>x. snd x = i) xs")
    case None
    then have r: "r = Inr (fl_go p FNone s)" using st FScan f by (simp add: foo_find2_def)
    have "fl_inv N (fl_go p FNone s) xs" by (rule leave_inv [OF inv p]) (use FScan own in \<open>auto simp: fl_go_def\<close>)
    then show ?thesis using r by blast
  next
    case (Some x)
    define a where "a = fst x"
    have x: "a \<in> fst ` set xs" using Some unfolding a_def by (metis find_Some_iff image_eqI nth_mem)
    have r: "r = Inr (fl_go p (FHold a) s)" using st FScan f Some by (simp add: foo_find2_def a_def)
    have "fl_inv N (fl_go p (FHold a) s) xs" by (rule leave_inv [OF inv p]) (use FScan own in \<open>auto simp: fl_go_def x\<close>)
    then show ?thesis using r by blast
  qed
next
  case (FHold a)
  obtain m where "ft_heap (fl_tab s) a = Some m" using found_alive [OF inv, of p a] FHold by auto
  then show ?thesis using take_f_inv [OF inv p, of a "FBoth a" r] st FHold by (auto simp: foo_find2_def)
next
  case (FBoth a)
  have fd: "pc_found (fl_pc s p) = Some a" using FBoth by simp
  obtain m where m: "ft_heap (fl_tab s) a = Some m" and o: "\<forall>r. outside (fl_pc s r) \<noteq> Some a" by (rule found_alive [OF inv fd])
  have pos: "0 < f_count m" using fl_invD(1) [OF inv] m by (auto simp: cnt_ok_def)
  show ?thesis
  proof (cases "f_count m = INT_MAX")
    case False
    let ?t = "fl_tab s\<lparr>ft_heap := (ft_heap (fl_tab s))(a \<mapsto> m\<lparr>f_count := f_count m + 1\<rparr>)\<rparr>"
    let ?s = "fl_go p (FDone a) (s\<lparr>fl_tab := ?t, fl_lock := (fl_lock s)(a := None)\<rparr>)"
    have s': "fl_tab ?s = ?t" "fl_pc ?s = (fl_pc s)(p := FDone a)" "fl_hash ?s = fl_hash s" "fl_lock ?s = (fl_lock s)(a := None)" "fl_ref ?s = fl_ref s" by (simp_all add: fl_go_def)
    have r: "r = Inr ?s" using st FBoth m False by (simp add: foo_find2_def on_tab_def count_up_def foo_deref_def drop_f_def)
    have "lck_ok ?s" by (rule lck_go [OF fl_invD(2) [OF inv] s'(2)]) (use FBoth own_lock(2) [OF fl_invD(2) [OF inv], of p] in \<open>auto simp: s'\<close>)
    then have "fl_inv N ?s xs" by (intro recount_inv [OF inv p m s'(1) s'(2)]) (use FBoth o pos in \<open>auto simp: s' claim_def\<close>)
    then show ?thesis using r by blast
  qed (use st FBoth m in \<open>simp add: foo_find2_def on_tab_def count_up_def foo_deref_def\<close>)
next
  case (FDone a)
  let ?s = "get_ref p a (fl_go p FIdle (drop_hash s))"
  have r: "r = Inr ?s" using st FDone by (simp add: foo_find2_def)
  have "fl_inv N ?s xs" by (rule leave_inv [OF inv p]) (use FDone in \<open>auto simp: fl_go_def get_ref_def drop_hash_def fun_eq_iff\<close>)
  then show ?thesis using r by blast
next
  case FNone
  let ?s = "fl_go p FIdle (drop_hash s)"
  have r: "r = Inr ?s" using st FNone by (simp add: foo_find2_def)
  have "fl_inv N ?s xs" by (rule leave_inv [OF inv p]) (use FNone in \<open>auto simp: fl_go_def drop_hash_def fun_eq_iff\<close>)
  then show ?thesis using r by blast
qed (use st in \<open>simp_all add: foo_find2_def\<close>)

lemma foo_rele2_inv:
  assumes inv: "fl_inv N s xs" and p: "p < N" and st: "foo_rele2 p s = Some r"
  shows "\<exists>t ys. r = Inr t \<and> fl_inv N t ys"
proof (cases "fl_pc s p")
  case (RWait a)
  obtain m where "ft_heap (fl_tab s) a = Some m" using pc_claim_alive [OF inv p] RWait by auto
  then show ?thesis using take_f_inv [OF inv p, of a "RHave a" r] st RWait by (auto simp: foo_rele2_def)
next
  case (RHave a)
  have pcl: "pc_claim (fl_pc s p) = Some a" using RHave by simp
  obtain m where m: "ft_heap (fl_tab s) a = Some m" "f_count m = int (claims N s a)" by (rule pc_claim_alive [OF inv p pcl])
  show ?thesis
  proof (cases "claims N s a = 1")
    case True
    let ?s = "fl_go p (RHash a) (s\<lparr>fl_lock := (fl_lock s)(a := None)\<rparr>)"
    have r: "r = Inr ?s" using st RHave m True by (simp add: foo_rele2_def count_of_def foo_deref_def drop_f_def)
    have "fl_inv N ?s xs" by (rule leave_inv [OF inv p]) (use RHave in \<open>auto simp: fl_go_def fun_eq_iff\<close>)
    then show ?thesis using r by blast
  next
    case False
    let ?t = "fl_tab s\<lparr>ft_heap := (ft_heap (fl_tab s))(a \<mapsto> m\<lparr>f_count := f_count m - 1\<rparr>)\<rparr>"
    let ?s = "fl_go p FIdle (s\<lparr>fl_tab := ?t, fl_lock := (fl_lock s)(a := None)\<rparr>)"
    have s': "fl_tab ?s = ?t" "fl_pc ?s = (fl_pc s)(p := FIdle)" "fl_hash ?s = fl_hash s" "fl_lock ?s = (fl_lock s)(a := None)" "fl_ref ?s = fl_ref s" by (simp_all add: fl_go_def)
    have "f_count m \<noteq> 1" "f_count m \<noteq> INT_MIN" using m(2) False by (auto simp: INT_MIN_def)
    then have r: "r = Inr ?s" using st RHave m(1) by (simp add: foo_rele2_def count_of_def on_tab_def count_down_def foo_deref_def drop_f_def)
    have "lck_ok ?s" by (rule lck_go [OF fl_invD(2) [OF inv] s'(2)]) (use RHave in \<open>auto simp: s'\<close>)
    then have "fl_inv N ?s xs" by (intro count_down_inv [OF inv p pcl _ False m(1) s'(1,2,5)]) (use RHave in auto)
    then show ?thesis using r by blast
  qed
next
  case (RHash a)
  then show ?thesis using take_hash_inv [OF inv p, of "RHashed a" r] st by (auto simp: foo_rele2_def)
next
  case (RHashed a)
  obtain m where "ft_heap (fl_tab s) a = Some m" using pc_claim_alive [OF inv p] RHashed by auto
  then show ?thesis using take_f_inv [OF inv p, of a "RBoth a" r] st RHashed by (auto simp: foo_rele2_def)
next
  case (RBoth a)
  have pcl: "pc_claim (fl_pc s p) = Some a" using RBoth by simp
  obtain m where m: "ft_heap (fl_tab s) a = Some m" "f_count m = int (claims N s a)" by (rule pc_claim_alive [OF inv p pcl])
  show ?thesis
  proof (cases "claims N s a = 1")
    case True
    then obtain t where t: "tab_unlink a (fl_tab s) = Some (Inr t)" "fl_inv N (fl_go p (RFree a) (drop_hash (s\<lparr>fl_tab := t\<rparr>))) (filter (\<lambda>x. fst x \<noteq> a) xs)"
      using unlink_inv [OF inv p RBoth] by blast
    have "r = Inr (fl_go p (RFree a) (drop_hash (s\<lparr>fl_tab := t\<rparr>)))" using st RBoth m True t(1) by (simp add: foo_rele2_def count_of_def foo_deref_def)
    then show ?thesis using t(2) by blast
  next
    case False
    let ?t = "fl_tab s\<lparr>ft_heap := (ft_heap (fl_tab s))(a \<mapsto> m\<lparr>f_count := f_count m - 1\<rparr>)\<rparr>"
    let ?s = "fl_go p FIdle (drop_hash (s\<lparr>fl_tab := ?t, fl_lock := (fl_lock s)(a := None)\<rparr>))"
    have s': "fl_tab ?s = ?t" "fl_pc ?s = (fl_pc s)(p := FIdle)" "fl_hash ?s = None" "fl_lock ?s = (fl_lock s)(a := None)" "fl_ref ?s = fl_ref s" by (simp_all add: fl_go_def drop_hash_def)
    have "f_count m \<noteq> 1" "f_count m \<noteq> INT_MIN" using m(2) False by (auto simp: INT_MIN_def)
    then have r: "r = Inr ?s" using st RBoth m(1) by (simp add: foo_rele2_def count_of_def on_tab_def count_down_def foo_deref_def drop_f_def)
    have "lck_ok ?s" by (rule lck_go [OF fl_invD(2) [OF inv] s'(2)]) (use RBoth in \<open>auto simp: s'\<close>)
    then have "fl_inv N ?s xs" by (intro count_down_inv [OF inv p pcl _ False m(1) s'(1,2,5)]) (use RBoth in auto)
    then show ?thesis using r by blast
  qed
next
  case (RFree a)
  then show ?thesis using free_inv [OF inv p RFree] st by (auto simp: foo_rele2_def on_tab_def)
qed (use st in \<open>simp_all add: foo_rele2_def\<close>)

lemma fl_thread_inv:
  assumes inv: "fl_inv N s xs" and p: "p < N" and st: "fl_thread p s = Some r"
  shows "r = Inl SignedOverflow \<or> (\<exists>t ys. r = Inr t \<and> fl_inv N t ys)"
proof -
  consider "foo_alloc2 p s = Some r" | "foo_hold2 p s = Some r" | "foo_find2 p s = Some r" | "foo_rele2 p s = Some r"
    using st by (auto simp: fl_thread_def split: option.splits)
  then show ?thesis by cases (use foo_alloc2_inv [OF inv p] foo_hold2_inv [OF inv p] foo_find2_inv [OF inv p] foo_rele2_inv [OF inv p] in blast)+
qed

lemma fl_step_inv:
  assumes "fl_step N s t" "fl_inv N s xs"
  shows "\<exists>ys. fl_inv N t ys"
  using assms(1)
proof (cases rule: fl_step.cases)
  case (fl_alloc p i)
  then show ?thesis using alloc2_inv [OF assms(2)] by blast
next
  case (fl_alloc_fails p mem i)
  then show ?thesis using alloc2_fails_inv [OF assms(2)] by blast
next
  case (fl_hold p a)
  have "fl_inv N t xs" unfolding fl_hold(1) by (rule leave_inv [OF assms(2) fl_hold(2)]) (use fl_hold in \<open>auto simp: fl_go_def\<close>)
  then show ?thesis by blast
next
  case (fl_find p i)
  have "fl_inv N t xs" unfolding fl_find(1) by (rule leave_inv [OF assms(2) fl_find(2)]) (use fl_find in \<open>auto simp: fl_go_def\<close>)
  then show ?thesis by blast
next
  case (fl_rele p a)
  have "fl_inv N t xs" unfolding fl_rele(1) by (rule leave_inv [OF assms(2) fl_rele(2)]) (use fl_rele in \<open>auto simp: fl_go_def lose_ref_def\<close>)
  then show ?thesis by blast
next
  case (fl_run p)
  then show ?thesis using fl_thread_inv [OF assms(2)] by blast
qed

lemma fl_steps_inv: "(fl_step N)\<^sup>*\<^sup>* fl_start s \<Longrightarrow> \<exists>xs. fl_inv N s xs"
proof (induction rule: rtranclp_induct)
  case base
  have "fl_inv N fl_start []" by (simp add: fl_inv_def cnt_ok_def lck_ok_def tab_ok_def thr_ok_def fl_start_def tab_start_def tab_rep_def claims_def claim_def)
  then show ?case by blast
qed (use fl_step_inv in blast)

subsection \<open>No deadlock\<close>

lemmas thread_defs = fl_thread_def foo_alloc2_def foo_hold2_def foo_find2_def foo_rele2_def take_f_def take_hash_def

lemma holder_runs:
  assumes inv: "fl_inv N s xs" and p: "p < N" and f: "has_f (fl_pc s p) = Some a"
  shows "\<exists>r. fl_thread p s = Some r"
proof (cases "fl_pc s p")
  case (RBoth b)
  then have b: "b = a" "pc_claim (fl_pc s p) = Some a" using f by auto
  obtain m where m: "ft_heap (fl_tab s) a = Some m" "f_count m = int (claims N s a)" by (rule pc_claim_alive [OF inv p b(2)])
  show ?thesis
  proof (cases "claims N s a = 1")
    case True
    then show ?thesis using unlink_inv [OF inv p] RBoth b m by (auto simp: thread_defs count_of_def foo_deref_def)
  qed (use RBoth b m in \<open>auto simp: thread_defs count_of_def foo_deref_def\<close>)
qed (use f in \<open>auto simp: thread_defs\<close>)

lemma scan_runs:
  assumes inv: "fl_inv N s xs" and pc: "fl_pc s p = FScan i"
  shows "\<exists>r. fl_thread p s = Some r"
proof -
  have rep: "tab_rep (fl_tab s) xs" using fl_invD(3) [OF inv] by (simp add: tab_ok_def)
  have f: "foo_find_loop (ft_heap (fl_tab s)) i (fh (fl_tab s) (HASH i)) = Some (Inr (map_option fst (find (\<lambda>x. snd x = i) xs)))"
    by (rule foo_find_chain [OF _ _ refl]) (use rep HASH_less [of i] in \<open>auto simp: tab_rep_def\<close>)
  show ?thesis using pc f by (cases "find (\<lambda>x. snd x = i) xs") (simp_all add: thread_defs)
qed

lemma no_deadlock:
  assumes inv: "fl_inv N s xs" and p: "p < N" "fl_pc s p \<noteq> FIdle"
  shows "\<exists>q<N. fl_pc s q \<noteq> FIdle \<and> (\<exists>r. fl_thread q s = Some r)"
proof -
  have busy: "q < N" if "fl_pc s q \<noteq> FIdle" for q
  proof (rule ccontr)
    assume "\<not> q < N"
    then show False using fl_invD(4) [OF inv] that by (simp add: thr_ok_def)
  qed
  note lk = fl_invD(2) [OF inv]
  show ?thesis
  proof (cases "\<exists>a q. fl_lock s a = Some q")
    case True
    then obtain a q where "fl_lock s a = Some q" by blast
    then have f: "has_f (fl_pc s q) = Some a" using lk by (simp add: lck_ok_def)
    then have "fl_pc s q \<noteq> FIdle" by auto
    then show ?thesis using busy holder_runs [OF inv _ f] by blast
  next
    case False
    then have free: "fl_lock s a = None" for a by (cases "fl_lock s a") auto
    show ?thesis
    proof (cases "fl_hash s")
      case (Some q)
      then have h: "has_hash (fl_pc s q)" using lk by (simp add: lck_ok_def)
      then have q: "fl_pc s q \<noteq> FIdle" by auto
      have "has_f (fl_pc s q) = None" using lk free by (cases "has_f (fl_pc s q)") (auto simp: lck_ok_def)
      then have "\<exists>r. fl_thread q s = Some r" using h free scan_runs [OF inv] by (cases "fl_pc s q") (auto simp: thread_defs)
      then show ?thesis using busy q by blast
    next
      case None
      have "has_f (fl_pc s p) = None" "\<not> has_hash (fl_pc s p)" using lk free None by (cases "has_f (fl_pc s p)"; auto simp: lck_ok_def)+
      then have "\<exists>r. fl_thread p s = Some r" using free None p(2) by (cases "fl_pc s p") (auto simp: thread_defs)
      then show ?thesis using p by blast
    qed
  qed
qed

text \<open>
  C9: Any number of threads allocate, hold, find and release objects through the functions of \<^verbatim>\<open>mutex2.c\<close> in any interleaving, releasing only references they have. No thread touches an object that was freed or the lock in it, nothing is freed twice and no chain is followed
  to its end in error; the one fault that can happen is more than INT\_MAX references to one object. What a thread has a reference to exists. The threads do not block each other for ever: while one is inside a function, some thread can go on. And whenever all threads are outside, the count in every object is
  the number of references, and exactly the objects with references are left.
\<close>

theorem foo2_safe:
  assumes "(fl_step N)\<^sup>*\<^sup>* fl_start s"
  shows "(\<forall>p<N. \<forall>e. fl_thread p s = Some (Inl e) \<longrightarrow> e = SignedOverflow) \<and>
    (\<forall>p<N. \<forall>a. 0 < fl_ref s p a \<longrightarrow> ft_heap (fl_tab s) a \<noteq> None) \<and>
    ((\<exists>p<N. fl_pc s p \<noteq> FIdle) \<longrightarrow> (\<exists>q<N. fl_pc s q \<noteq> FIdle \<and> fl_thread q s \<noteq> None)) \<and>
    ((\<forall>p<N. fl_pc s p = FIdle) \<longrightarrow> (\<forall>a. (case ft_heap (fl_tab s) a of None \<Rightarrow> 0 | Some m \<Rightarrow> f_count m) = int (\<Sum>p<N. fl_ref s p a)) \<and>
      dom (ft_heap (fl_tab s)) = {a. \<exists>p<N. 0 < fl_ref s p a})"
proof -
  obtain xs where inv: "fl_inv N s xs" using fl_steps_inv [OF assms] by blast
  have "e = SignedOverflow" if "p < N" "fl_thread p s = Some (Inl e)" for p e using fl_thread_inv [OF inv that] by simp
  moreover have "ft_heap (fl_tab s) a \<noteq> None" if r: "p < N" "0 < fl_ref s p a" for p a
  proof -
    have "0 < claim s p a" using r(2) by (simp add: claim_def)
    then show ?thesis using claimed_alive [OF inv r(1)] by blast
  qed
  moreover have "\<exists>q<N. fl_pc s q \<noteq> FIdle \<and> fl_thread q s \<noteq> None" if "p < N" "fl_pc s p \<noteq> FIdle" for p using no_deadlock [OF inv that] by blast
  moreover have "(\<forall>a. (case ft_heap (fl_tab s) a of None \<Rightarrow> 0 | Some m \<Rightarrow> f_count m) = int (\<Sum>p<N. fl_ref s p a)) \<and> dom (ft_heap (fl_tab s)) = {a. \<exists>p<N. 0 < fl_ref s p a}"
    if idle: "\<forall>p<N. fl_pc s p = FIdle"
  proof -
    have cl: "claims N s a = (\<Sum>p<N. fl_ref s p a)" for a using idle by (simp add: claims_def claim_def)
    have cnt: "ft_heap (fl_tab s) a = None \<Longrightarrow> claims N s a = 0" "ft_heap (fl_tab s) a = Some m \<Longrightarrow> f_count m = int (claims N s a) \<and> 0 < claims N s a" for a m
      using fl_invD(1) [OF inv] by (simp_all add: cnt_ok_def)
    have "(case ft_heap (fl_tab s) a of None \<Rightarrow> 0 | Some m \<Rightarrow> f_count m) = int (\<Sum>p<N. fl_ref s p a)" for a using cnt [of a] unfolding cl by (cases "ft_heap (fl_tab s) a") simp_all
    note counts = this
    have "a \<in> dom (ft_heap (fl_tab s)) \<longleftrightarrow> 0 < claims N s a" for a using cnt [of a] by (cases "ft_heap (fl_tab s) a") auto
    moreover have "0 < (\<Sum>p<N. fl_ref s p a) \<longleftrightarrow> (\<exists>p<N. 0 < fl_ref s p a)" for a by (simp add: neq0_conv [symmetric] Bex_def del: neq0_conv)
    ultimately have "dom (ft_heap (fl_tab s)) = {a. \<exists>p<N. 0 < fl_ref s p a}" unfolding cl by (simp only: set_eq_iff mem_Collect_eq simp_thms)
    then show ?thesis using counts by blast
  qed
  ultimately show ?thesis by blast
qed

subsection \<open>A run\<close>

datatype fl_act = CAlloc nat int | CFind nat int | CRele nat nat | CRun nat

fun fl_do :: "fl_act \<Rightarrow> fl \<Rightarrow> fl option" where
  "fl_do (CAlloc p i) s = (if fl_pc s p = FIdle then Some (alloc2 p i s) else None)"
| "fl_do (CFind p i) s = (if fl_pc s p = FIdle then Some (fl_go p (FWait i) s) else None)"
| "fl_do (CRele p a) s = (if fl_pc s p = FIdle \<and> 0 < fl_ref s p a then Some (lose_ref p a (fl_go p (RWait a) s)) else None)"
| "fl_do (CRun p) s = (case fl_thread p s of Some (Inr t) \<Rightarrow> Some t | _ \<Rightarrow> None)"

fun act_thread :: "fl_act \<Rightarrow> nat" where
  "act_thread (CAlloc p i) = p"
| "act_thread (CFind p i) = p"
| "act_thread (CRele p a) = p"
| "act_thread (CRun p) = p"

fun fl_acts :: "fl_act list \<Rightarrow> fl \<Rightarrow> fl option" where
  "fl_acts [] s = Some s"
| "fl_acts (c # cs) s = (case fl_do c s of None \<Rightarrow> None | Some t \<Rightarrow> fl_acts cs t)"

lemma fl_do_step: "fl_do c s = Some t \<Longrightarrow> act_thread c < N \<Longrightarrow> fl_step N s t"
  by (cases c) (auto split: if_splits option.splits sum.splits intro: fl_step.intros)

lemma fl_acts_steps: "fl_acts cs s = Some t \<Longrightarrow> \<forall>c\<in>set cs. act_thread c < N \<Longrightarrow> (fl_step N)\<^sup>*\<^sup>* s t"
proof (induction cs arbitrary: s)
  case (Cons c cs)
  then obtain u where "fl_do c s = Some u" "fl_acts cs u = Some t" by (auto split: option.splits)
  then show ?case using Cons fl_do_step [of c s u N] by (auto intro: converse_rtranclp_into_rtranclp)
qed simp

text \<open>While a thread is about to release the last reference, another finds the object.\<close>

definition foo_race :: "fl_act list" where
  "foo_race = CAlloc 0 7 # replicate 4 (CRun 0) @ [CRele 0 0, CRun 0, CRun 0, CFind 1 7] @ replicate 5 (CRun 1) @ replicate 3 (CRun 0)"

definition fl_view :: "fl \<Rightarrow> fpc \<times> fpc \<times> nat \<times> nat \<times> int option" where
  "fl_view s = (fl_pc s 0, fl_pc s 1, fl_ref s 0 0, fl_ref s 1 0, map_option f_count (ft_heap (fl_tab s) 0))"

lemma foo_race_run: "map_option fl_view (fl_acts foo_race fl_start) = Some (FIdle, FIdle, 0, 1, Some 1)"
  by code_simp

theorem foo2_safe_witness:
  "\<exists>s. (fl_step 2)\<^sup>*\<^sup>* fl_start s \<and> fl_pc s 0 = FIdle \<and> fl_pc s 1 = FIdle \<and> fl_ref s 1 0 = 1 \<and> dom (ft_heap (fl_tab s)) = {a. \<exists>p<2. 0 < fl_ref s p a}"
proof -
  obtain s where s: "fl_acts foo_race fl_start = Some s" "fl_view s = (FIdle, FIdle, 0, 1, Some 1)" using foo_race_run by auto
  have r: "(fl_step 2)\<^sup>*\<^sup>* fl_start s" by (rule fl_acts_steps [OF s(1)]) (simp add: foo_race_def)
  have v: "fl_pc s 0 = FIdle" "fl_pc s 1 = FIdle" "fl_ref s 1 0 = 1" using s(2) by (simp_all add: fl_view_def)
  then have "\<forall>p<2. fl_pc s p = FIdle" by (auto simp: numeral_2_eq_2 less_Suc_eq)
  then have "dom (ft_heap (fl_tab s)) = {a. \<exists>p<2. 0 < fl_ref s p a}" using foo2_safe [OF r] by blast
  then show ?thesis using r v by blast
qed

end
