(* ===== verification/Rw_Queue.thy ===== *)
theory Rw_Queue
  imports Spool_Queue
begin

section \<open>A queue of jobs under a reader-writer lock (apue.3e/threads/rwlock.c)\<close>

text \<open>
  The queue is doubly linked, with a head and a tail, and its nodes belong to the caller. Every function holds the lock from its first access to its last, so each is one step (the functions that write ignore what \<^verbatim>\<open>pthread_rwlock_wrlock\<close> returns: it is taken to succeed, while a failing \<^verbatim>\<open>pthread_rwlock_rdlock\<close> is a branch of \<^verbatim>\<open>job_find\<close>); what a thread does with the pointer that \<^verbatim>\<open>job_find\<close> returns
  is its own affair. Nodes are those of \<open>Spool_Queue\<close>.
\<close>

record 'a rwqueue =
  rq_heap :: "'a dheap"
  q_head :: "nat option"
  q_tail :: "nat option"

text \<open>\<open>err\<close> is the result of \<^verbatim>\<open>pthread_rwlock_init\<close>.\<close>

definition queue_init :: "int \<Rightarrow> 'a rwqueue \<Rightarrow> int \<times> 'a rwqueue" where
  "queue_init err s = (if err \<noteq> 0 then err else 0, s\<lparr>q_head := None, q_tail := None\<rparr>)"

definition job_insert :: "nat option \<Rightarrow> 'a rwqueue \<Rightarrow> 'a rwqueue cres" where
  "job_insert jp s =
     bind_c (set_next jp (q_head s) (rq_heap s)) (\<lambda>h0.
     bind_c (set_prev jp None h0) (\<lambda>h1.
       if q_head s \<noteq> None then bind_c (set_prev (q_head s) jp h1) (\<lambda>h2. Inr (s\<lparr>rq_heap := h2, q_head := jp\<rparr>))
       else Inr (s\<lparr>rq_heap := h1, q_tail := jp, q_head := jp\<rparr>)))"

definition job_append :: "nat option \<Rightarrow> 'a rwqueue \<Rightarrow> 'a rwqueue cres" where
  "job_append jp s =
     bind_c (set_next jp None (rq_heap s)) (\<lambda>h0.
     bind_c (set_prev jp (q_tail s) h0) (\<lambda>h1.
       if q_tail s \<noteq> None then bind_c (set_next (q_tail s) jp h1) (\<lambda>h2. Inr (s\<lparr>rq_heap := h2, q_tail := jp\<rparr>))
       else Inr (s\<lparr>rq_heap := h1, q_head := jp, q_tail := jp\<rparr>)))"

definition job_remove :: "nat option \<Rightarrow> 'a rwqueue \<Rightarrow> 'a rwqueue cres" where
  "job_remove jp s =
     (if jp = q_head s then
        bind_c (deref (rq_heap s) jp) (\<lambda>n.
          if q_tail s = jp then Inr (s\<lparr>q_head := nd_next n, q_tail := None\<rparr>)
          else bind_c (set_prev (nd_next n) (nd_prev n) (rq_heap s)) (\<lambda>h. Inr (s\<lparr>rq_heap := h, q_head := nd_next n\<rparr>)))
      else if jp = q_tail s then
        bind_c (deref (rq_heap s) jp) (\<lambda>n.
          bind_c (set_next (nd_prev n) (nd_next n) (rq_heap s)) (\<lambda>h. Inr (s\<lparr>rq_heap := h, q_tail := nd_prev n\<rparr>)))
      else
        bind_c (deref (rq_heap s) jp) (\<lambda>n.
        bind_c (set_next (nd_prev n) (nd_next n) (rq_heap s)) (\<lambda>h0.
        bind_c (deref h0 jp) (\<lambda>n1.
        bind_c (set_prev (nd_next n1) (nd_prev n1) h0) (\<lambda>h1. Inr (s\<lparr>rq_heap := h1\<rparr>))))))"

partial_function (option) job_loop :: "'a dheap \<Rightarrow> 'a \<Rightarrow> nat option \<Rightarrow> nat option cres option" where
  "job_loop h i p = (case p of
      None \<Rightarrow> Some (Inr None)
    | Some a \<Rightarrow> (case h a of None \<Rightarrow> Some (Inl OutOfBounds) | Some n \<Rightarrow> if nd_item n = i then Some (Inr p) else job_loop h i (nd_next n)))"

definition job_find :: "int \<Rightarrow> 'a \<Rightarrow> 'a rwqueue \<Rightarrow> nat option cres option" where
  "job_find err i s = (if err \<noteq> 0 then Some (Inr None) else job_loop (rq_heap s) i (q_head s))"

subsection \<open>The queue is a sequence\<close>

definition rwq_rep :: "'a rwqueue \<Rightarrow> (nat \<times> 'a) list \<Rightarrow> bool" where
  "rwq_rep s xs \<longleftrightarrow> dseg (rq_heap s) None (q_head s) xs (q_tail s) None \<and> distinct (map fst xs)"

text \<open>The items of all nodes, which no function changes.\<close>

definition rq_items :: "'a rwqueue \<Rightarrow> nat \<rightharpoonup> 'a" where
  "rq_items s = (\<lambda>a. map_option nd_item (rq_heap s a))"

lemma job_insert_prepends:
  assumes rep: "rwq_rep s xs" and n: "rq_heap s a = Some n" and new: "a \<notin> fst ` set xs"
  shows "\<exists>s1. job_insert (Some a) s = Inr s1 \<and> rwq_rep s1 ((a, nd_item n) # xs) \<and> rq_items s1 = rq_items s"
proof -
  have r: "dseg (rq_heap s) None (q_head s) xs (q_tail s) None" "distinct (map fst xs)" using rep by (auto simp: rwq_rep_def)
  define h1 where "h1 = (rq_heap s)(a \<mapsto> \<lparr>nd_next = q_head s, nd_prev = None, nd_item = nd_item n\<rparr>)"
  have e: "set_next (Some a) (q_head s) (rq_heap s) = Inr ((rq_heap s)(a \<mapsto> n\<lparr>nd_next := q_head s\<rparr>))" using n by (simp add: set_next_heap)
  have h1: "set_prev (Some a) None ((rq_heap s)(a \<mapsto> n\<lparr>nd_next := q_head s\<rparr>)) = Inr h1"
    using set_prev_heap [of "(rq_heap s)(a \<mapsto> n\<lparr>nd_next := q_head s\<rparr>)" a "n\<lparr>nd_next := q_head s\<rparr>"] by (cases n) (simp add: h1_def)
  show ?thesis
  proof (cases xs)
    case Nil
    then have "q_head s = None" using r(1) by simp
    then have "job_insert (Some a) s = Inr (s\<lparr>rq_heap := h1, q_tail := Some a, q_head := Some a\<rparr>)" using e h1 by (simp add: job_insert_def)
    then show ?thesis using r Nil n by (auto simp: rwq_rep_def h1_def rq_items_def)
  next
    case (Cons x ys)
    obtain b y where b: "x = (b, y)" by force
    have hd: "q_head s = Some b" using dseg_first [OF r(1)] Cons b by simp
    obtain m where m: "rq_heap s b = Some m" using dseg_in_heap [OF r(1), of b] Cons b by auto
    have ab: "a \<noteq> b" using new Cons b by auto
    define h2 where "h2 = h1(b \<mapsto> m\<lparr>nd_prev := Some a\<rparr>)"
    have "dseg h1 None (q_head s) ((b, y) # ys) (q_tail s) None" unfolding h1_def using r(1) new Cons b by simp
    then have "dseg h2 (Some a) (q_head s) xs (q_tail s) None"
      unfolding h2_def Cons b by (rule dseg_set_start) (use r(2) Cons b m ab in \<open>auto simp: h1_def\<close>)
    then have "dseg h2 None (Some a) ((a, nd_item n) # xs) (q_tail s) None" using ab by (auto simp: h2_def h1_def)
    moreover have "job_insert (Some a) s = Inr (s\<lparr>rq_heap := h2, q_head := Some a\<rparr>)"
      using e h1 hd m ab by (simp add: job_insert_def set_prev_heap h2_def h1_def)
    ultimately show ?thesis using r(2) new n m by (auto simp: rwq_rep_def rq_items_def h2_def h1_def fun_eq_iff)
  qed
qed

lemma job_append_appends:
  assumes rep: "rwq_rep s xs" and n: "rq_heap s a = Some n" and new: "a \<notin> fst ` set xs"
  shows "\<exists>s1. job_append (Some a) s = Inr s1 \<and> rwq_rep s1 (xs @ [(a, nd_item n)]) \<and> rq_items s1 = rq_items s"
proof -
  have r: "dseg (rq_heap s) None (q_head s) xs (q_tail s) None" "distinct (map fst xs)" using rep by (auto simp: rwq_rep_def)
  define h1 where "h1 = (rq_heap s)(a \<mapsto> \<lparr>nd_next = None, nd_prev = q_tail s, nd_item = nd_item n\<rparr>)"
  have e: "set_next (Some a) None (rq_heap s) = Inr ((rq_heap s)(a \<mapsto> n\<lparr>nd_next := None\<rparr>))" using n by (simp add: set_next_heap)
  have h1: "set_prev (Some a) (q_tail s) ((rq_heap s)(a \<mapsto> n\<lparr>nd_next := None\<rparr>)) = Inr h1"
    using set_prev_heap [of "(rq_heap s)(a \<mapsto> n\<lparr>nd_next := None\<rparr>)" a "n\<lparr>nd_next := None\<rparr>"] by (cases n) (simp add: h1_def)
  show ?thesis
  proof (cases xs rule: rev_cases)
    case Nil
    then have "q_tail s = None" using r(1) by simp
    then have "job_append (Some a) s = Inr (s\<lparr>rq_heap := h1, q_head := Some a, q_tail := Some a\<rparr>)" using e h1 by (simp add: job_append_def)
    then show ?thesis using r Nil n by (auto simp: rwq_rep_def h1_def rq_items_def)
  next
    case (snoc ys x)
    obtain b y where b: "x = (b, y)" by force
    have tl: "q_tail s = Some b" using dseg_last [OF r(1)] snoc b by simp
    obtain m where m: "rq_heap s b = Some m" using dseg_in_heap [OF r(1), of b] snoc b by auto
    have ab: "a \<noteq> b" using new snoc b by auto
    define h2 where "h2 = h1(b \<mapsto> m\<lparr>nd_next := Some a\<rparr>)"
    have "dseg h1 None (q_head s) (ys @ [(b, y)]) (Some b) None" unfolding h1_def using r(1) new snoc b tl by simp
    then have "dseg h2 None (q_head s) (ys @ [(b, y)]) (Some b) (Some a)"
      unfolding h2_def by (rule dseg_set_end) (use r(2) snoc b m ab in \<open>auto simp: h1_def\<close>)
    moreover have "dseg h2 (Some b) (Some a) [(a, nd_item n)] (Some a) None" using ab tl by (simp add: h2_def h1_def)
    ultimately have "dseg h2 None (q_head s) (xs @ [(a, nd_item n)]) (Some a) None" unfolding dseg_append [of _ _ _ xs] using snoc b by blast
    moreover have "job_append (Some a) s = Inr (s\<lparr>rq_heap := h2, q_tail := Some a\<rparr>)"
      using e h1 tl m ab by (simp add: job_append_def set_next_heap h2_def h1_def)
    ultimately show ?thesis using r(2) new n m snoc b by (auto simp: rwq_rep_def rq_items_def h2_def h1_def fun_eq_iff)
  qed
qed

lemma job_remove_removes:
  assumes rep: "rwq_rep s (ys @ (a, x) # zs)"
  shows "\<exists>s1. job_remove (Some a) s = Inr s1 \<and> rwq_rep s1 (ys @ zs) \<and> rq_items s1 = rq_items s"
proof -
  let ?h = "rq_heap s"
  have r: "dseg ?h None (q_head s) (ys @ (a, x) # zs) (q_tail s) None" "distinct (map fst (ys @ (a, x) # zs))" using rep by (auto simp: rwq_rep_def)
  obtain p q where sy: "dseg ?h None (q_head s) ys p (Some a)" and n: "?h a = Some \<lparr>nd_next = q, nd_prev = p, nd_item = x\<rparr>" and sz: "dseg ?h (Some a) q zs (q_tail s) None"
    using r(1) dseg_append [of ?h None "q_head s" ys] by auto
  have az: "a \<notin> fst ` set ys" "a \<notin> fst ` set zs" using r(2) by auto
  have first: "q_head s = Some a \<longleftrightarrow> ys = []" using dseg_first [OF sy] az(1) by (cases ys) auto
  have last: "q_tail s = Some a \<longleftrightarrow> zs = []" using dseg_last [OF sz] az(2) by (cases zs rule: rev_cases) auto
  have back_to_p: "\<exists>m b y zs'. zs = (b, y) # zs' \<and> q = Some b \<and> ?h b = Some m \<and> dseg (?h(b \<mapsto> m\<lparr>nd_prev := p\<rparr>)) p q zs (q_tail s) None" if ne: "zs \<noteq> []"
  proof -
    obtain b y zs' where z: "zs = (b, y) # zs'" using ne by (metis list.exhaust surj_pair)
    obtain m where m: "?h b = Some m" "q = Some b" using sz z by auto
    have "dseg (?h(b \<mapsto> m\<lparr>nd_prev := p\<rparr>)) p q zs (q_tail s) None" using dseg_set_start [of ?h "Some a" q b y zs' "q_tail s" None m p] sz r(2) m z by simp
    then show ?thesis using z m by blast
  qed
  show ?thesis
  proof (cases ys rule: rev_cases)
    case Nil
    then have p: "p = None" "q_head s = Some a" using sy by auto
    show ?thesis
    proof (cases "zs = []")
      case True
      then have "job_remove (Some a) s = Inr (s\<lparr>q_head := q, q_tail := None\<rparr>)" using p(2) last n by (simp add: job_remove_def deref_def)
      moreover have "q = None" using sz True by simp
      ultimately show ?thesis using Nil True by (simp add: rwq_rep_def rq_items_def)
    next
      case False
      obtain m b y zs' where z: "zs = (b, y) # zs'" "q = Some b" "?h b = Some m" "dseg (?h(b \<mapsto> m\<lparr>nd_prev := p\<rparr>)) p q zs (q_tail s) None" using back_to_p [OF False] by (elim exE conjE)
      have "job_remove (Some a) s = Inr (s\<lparr>rq_heap := ?h(b \<mapsto> m\<lparr>nd_prev := p\<rparr>), q_head := q\<rparr>)"
        using p(2) last False n z(2,3) by (auto simp: job_remove_def deref_def set_prev_heap)
      then show ?thesis using Nil z(3,4) p(1) r(2) by (auto simp: rwq_rep_def rq_items_def fun_eq_iff)
    qed
  next
    case (snoc ys' e)
    obtain b y where b: "e = (b, y)" by force
    have p: "p = Some b" using dseg_last [OF sy] snoc b by simp
    obtain m where m: "?h b = Some m" using dseg_in_heap [OF sy, of b] snoc b by auto
    have bz: "b \<notin> fst ` set zs" "b \<noteq> a" using r(2) snoc b by auto
    have nh: "q_head s \<noteq> Some a" using first snoc by simp
    let ?hb = "?h(b \<mapsto> m\<lparr>nd_next := q\<rparr>)"
    have sy0: "dseg ?hb None (q_head s) ys p q" unfolding snoc b by (rule dseg_set_end) (use sy snoc b r(2) m in \<open>auto\<close>)
    show ?thesis
    proof (cases "zs = []")
      case True
      then have "job_remove (Some a) s = Inr (s\<lparr>rq_heap := ?hb, q_tail := p\<rparr>)" using nh last n p m by (auto simp: job_remove_def deref_def set_next_heap)
      moreover have "q = None" using sz True by simp
      ultimately show ?thesis using sy0 True r(2) m by (auto simp: rwq_rep_def rq_items_def fun_eq_iff)
    next
      case False
      obtain k c w zs' where z: "zs = (c, w) # zs'" "q = Some c" "?h c = Some k" "dseg (?h(c \<mapsto> k\<lparr>nd_prev := p\<rparr>)) p q zs (q_tail s) None" using back_to_p [OF False] by (elim exE conjE)
      have cb: "c \<noteq> b" "c \<notin> fst ` set ys" using bz(1) z(1) r(2) by auto
      let ?hc = "?hb(c \<mapsto> k\<lparr>nd_prev := p\<rparr>)"
      have "dseg ?hc None (q_head s) ys p q" using sy0 cb(2) by simp
      moreover have "?hc = (?h(c \<mapsto> k\<lparr>nd_prev := p\<rparr>))(b \<mapsto> m\<lparr>nd_next := q\<rparr>)" using cb(1) by (simp add: fun_upd_twist)
      then have "dseg ?hc p q zs (q_tail s) None" using z(4) bz(1) by simp
      ultimately have "dseg ?hc None (q_head s) (ys @ zs) (q_tail s) None" unfolding dseg_append by blast
      moreover have "job_remove (Some a) s = Inr (s\<lparr>rq_heap := ?hc\<rparr>)"
        using nh last False n p m bz(2) cb(1) z(2,3) by (auto simp: job_remove_def deref_def set_next_heap set_prev_heap)
      ultimately show ?thesis using r(2) m z(3) by (auto simp: rwq_rep_def rq_items_def fun_eq_iff)
    qed
  qed
qed

lemma job_loop_finds: "dseg h p q xs t None \<Longrightarrow> job_loop h i q = Some (Inr (map_option fst (find (\<lambda>x. snd x = i) xs)))"
proof (induction h p q xs t "None :: nat option" rule: dseg.induct)
  case (1 h p q t)
  then show ?case by (subst job_loop.simps) simp
next
  case (2 h p q a x xs t)
  obtain n where n: "q = Some a" "h a = Some \<lparr>nd_next = n, nd_prev = p, nd_item = x\<rparr>" "dseg h (Some a) n xs t None" using 2(2) by auto
  have "job_loop h i n = Some (Inr (map_option fst (find (\<lambda>x. snd x = i) xs)))" using 2(1) n(3) by blast
  then show ?case unfolding n(1) by (subst job_loop.simps) (simp add: n(2))
qed

subsection \<open>Any sequence of calls\<close>

datatype rwq_op = QInsert nat | QAppend nat | QRemove nat

fun rwq_exec :: "rwq_op \<Rightarrow> 'a rwqueue \<Rightarrow> 'a rwqueue cres" where
  "rwq_exec (QInsert a) s = job_insert (Some a) s"
| "rwq_exec (QAppend a) s = job_append (Some a) s"
| "rwq_exec (QRemove a) s = job_remove (Some a) s"

fun rwq_spec :: "rwq_op \<Rightarrow> nat list \<Rightarrow> nat list" where
  "rwq_spec (QInsert a) as = a # as"
| "rwq_spec (QAppend a) as = as @ [a]"
| "rwq_spec (QRemove a) as = remove1 a as"

text \<open>A caller puts in only nodes of its own that are in no queue, and takes out only what is in.\<close>

fun rwq_allowed :: "nat set \<Rightarrow> rwq_op \<Rightarrow> nat list \<Rightarrow> bool" where
  "rwq_allowed N (QInsert a) as = (a \<in> N \<and> a \<notin> set as)"
| "rwq_allowed N (QAppend a) as = (a \<in> N \<and> a \<notin> set as)"
| "rwq_allowed N (QRemove a) as = (a \<in> set as)"

fun rwq_run :: "nat set \<Rightarrow> rwq_op list \<Rightarrow> nat list \<Rightarrow> nat list option" where
  "rwq_run N [] as = Some as"
| "rwq_run N (p # ps) as = (if rwq_allowed N p as then rwq_run N ps (rwq_spec p as) else None)"

lemma rwq_exec_rep:
  assumes rep: "rwq_rep s (map (\<lambda>a. (a, the (rq_items s a))) as)" and ok: "rwq_allowed (dom (rq_items s)) p as"
  shows "\<exists>s1. rwq_exec p s = Inr s1 \<and> rwq_rep s1 (map (\<lambda>a. (a, the (rq_items s a))) (rwq_spec p as)) \<and> rq_items s1 = rq_items s"
proof -
  have node: "\<exists>n. rq_heap s a = Some n \<and> nd_item n = the (rq_items s a)" if "a \<in> dom (rq_items s)" for a using that by (auto simp: rq_items_def)
  show ?thesis
  proof (cases p)
    case (QInsert a)
    then obtain n where "rq_heap s a = Some n" "nd_item n = the (rq_items s a)" using node ok by auto
    moreover have "a \<notin> fst ` set (map (\<lambda>a. (a, the (rq_items s a))) as)" using ok QInsert by auto
    ultimately show ?thesis using job_insert_prepends [OF rep, of a n] QInsert by simp
  next
    case (QAppend a)
    then obtain n where "rq_heap s a = Some n" "nd_item n = the (rq_items s a)" using node ok by auto
    moreover have "a \<notin> fst ` set (map (\<lambda>a. (a, the (rq_items s a))) as)" using ok QAppend by auto
    ultimately show ?thesis using job_append_appends [OF rep, of a n] QAppend by simp
  next
    case (QRemove a)
    then have "a \<in> set as" using ok by simp
    then obtain bs cs where as: "as = bs @ a # cs" "a \<notin> set bs" by (metis split_list_first)
    then show ?thesis using job_remove_removes [of s "map (\<lambda>a. (a, the (rq_items s a))) bs" a "the (rq_items s a)" "map (\<lambda>a. (a, the (rq_items s a))) cs"] rep QRemove
      by (simp add: remove1_append)
  qed
qed

text \<open>
  C40: Whatever sequence of insertions at the head, insertions at the tail and removals its callers perform on the queue of \<^verbatim>\<open>rwlock.c\<close> with nodes of their own, no bad pointer is followed and the queue is the sequence that results; \<^verbatim>\<open>job_find\<close> then
  returns the first job of the thread, or a null pointer when there is none or the lock cannot be had.
\<close>

theorem rw_queue_refines:
  assumes "rwq_run (dom (rq_items s)) ops [] = Some as" "snd (queue_init 0 s) = s0"
  shows "\<exists>s1. fold_c rwq_exec ops s0 = Inr s1 \<and> rwq_rep s1 (map (\<lambda>a. (a, the (rq_items s a))) as) \<and>
    job_find err i s1 = Some (Inr (if err \<noteq> 0 then None else find (\<lambda>a. rq_items s a = Some i) as))"
proof -
  have run: "\<exists>s1. fold_c rwq_exec ps u = Inr s1 \<and> rwq_rep s1 (map (\<lambda>a. (a, the (rq_items s a))) as) \<and> rq_items s1 = rq_items s"
    if "rwq_run (dom (rq_items s)) ps bs = Some as" "rwq_rep u (map (\<lambda>a. (a, the (rq_items s a))) bs)" "rq_items u = rq_items s" for ps bs u
    using that
  proof (induction ps arbitrary: bs u)
    case (Cons p ps)
    then have ok: "rwq_allowed (dom (rq_items s)) p bs" "rwq_run (dom (rq_items s)) ps (rwq_spec p bs) = Some as" by (auto split: if_splits)
    obtain v where v: "rwq_exec p u = Inr v" "rwq_rep v (map (\<lambda>a. (a, the (rq_items s a))) (rwq_spec p bs))" "rq_items v = rq_items s"
      using rwq_exec_rep [of u bs p] Cons.prems(2,3) ok(1) by auto
    then show ?case using Cons.IH [OF ok(2) v(2,3)] by simp
  qed auto
  have "rwq_rep s0 []" "rq_items s0 = rq_items s" using assms(2) by (auto simp: queue_init_def rwq_rep_def rq_items_def)
  then obtain s1 where s1: "fold_c rwq_exec ops s0 = Inr s1" "rwq_rep s1 (map (\<lambda>a. (a, the (rq_items s a))) as)" "rq_items s1 = rq_items s" using run [OF assms(1), of s0] by auto
  have all: "a \<in> dom (rq_items s)" if "a \<in> set as" for a
  proof -
    have "a \<in> dom (rq_heap s1)" using s1(2) dseg_in_heap [of "rq_heap s1" None "q_head s1" _ "q_tail s1" None a] that by (force simp: rwq_rep_def)
    then show ?thesis using s1(3) by (auto simp: rq_items_def fun_eq_iff dom_def map_option_case split: option.splits)
  qed
  have same: "find (\<lambda>a. the (rq_items s a) = i) as = find (\<lambda>a. rq_items s a = Some i) as" by (rule find_cong) (use all in fastforce)+
  have "map_option fst (find (\<lambda>x. snd x = i) (map (\<lambda>a. (a, the (rq_items s a))) bs)) = find (\<lambda>a. the (rq_items s a) = i) bs" for bs by (induction bs) auto
  then have "job_loop (rq_heap s1) i (q_head s1) = Some (Inr (find (\<lambda>a. rq_items s a = Some i) as))" using job_loop_finds s1(2) same unfolding rwq_rep_def by metis
  then show ?thesis using s1 by (intro exI [of _ s1]) (simp add: job_find_def)
qed

definition three_jobs :: "nat rwqueue" where
  "three_jobs = \<lparr>rq_heap = (\<lambda>a. if a < 3 then Some \<lparr>nd_next = None, nd_prev = None, nd_item = 7 * (a mod 2)\<rparr> else None), q_head = Some 5, q_tail = None\<rparr>"

theorem rw_queue_refines_witness:
  "\<exists>s1. fold_c rwq_exec [QAppend 0, QAppend 1, QInsert 2, QRemove 0] (snd (queue_init 0 three_jobs)) = Inr s1 \<and> job_find 0 7 s1 = Some (Inr (Some 1)) \<and> job_find 0 0 s1 = Some (Inr (Some 2)) \<and>
    job_find 0 3 s1 = Some (Inr None) \<and> job_find 5 7 s1 = Some (Inr None)"
proof -
  have d: "dom (rq_items three_jobs) = {..<3}" by (auto simp: three_jobs_def rq_items_def split: if_splits)
  have run: "rwq_run (dom (rq_items three_jobs)) [QAppend 0, QAppend 1, QInsert 2, QRemove 0] [] = Some [2, 1]" unfolding d by simp
  have it: "rq_items three_jobs 1 = Some 7" "rq_items three_jobs 2 = Some 0" by (simp_all add: three_jobs_def rq_items_def)
  show ?thesis
    using rw_queue_refines [OF run refl, of 0 7] rw_queue_refines [OF run refl, of 0 0] rw_queue_refines [OF run refl, of 0 3] rw_queue_refines [OF run refl, of 5 7] it
    by auto
qed

end
