(* ===== verification/Spec2Isabelle.thy ===== *)
theory Spec2Isabelle
  imports Lab1_Main Lab1_Tools Lib_Nhh Lib_Typefile Lib_Avg Lib_Uuid Space_Search Sync_Counter Work_Queue Rw_Lock Poll_Server Select_Server Chat_Sockets Malloc_Trace Db_Api File_Examples Basic_Examples Io_Library Dtree_Props Spool_Reuse Shm_Transfer Sem_Interface Par_Sort Foo_Locks Rw_Queue
begin

text \<open>
  \<^bold>\<open>A verification of the programs of this repository.\<close>

  The repository holds the programs of a course on system programming in C: the laboratory work (a search program whose criteria are plugins in shared
  libraries), the programs of the weekly lectures (memory, threads, synchronisation, sockets), and the code of two textbooks. The model covers the
  laboratory work, the weekly programs that have state of their own, and from the textbooks the database library, the directory monitor, the print spooler, the semaphores, the examples of locking and the transfer functions. Each theory translates the C functions
  one by one; the names are those of the source unless they clash.

  \<^bold>\<open>The language.\<close> \<open>C_Prelude\<close> holds what the programs take from C and its library on x86-64 Linux: undefined behaviour as values of the type \<open>c_fault\<close> (a
  computation has type \<open>'a cres\<close>), the end of the process as \<open>outcome\<close>, \<^verbatim>\<open>strtol\<close>, the number formats of \<^verbatim>\<open>printf\<close>, string
  functions, buffers with bounds. \<^verbatim>\<open>size_t\<close> and \<^verbatim>\<open>long\<close> are 64-bit words where they can wrap. Answers of the operating system (the
  bytes of a file, the result of a system call, the order in which threads run) are arguments or nondeterminism, and allocation failures are covered where
  the code tests for them in a way that matters. \<open>Getopt\<close> is \<^verbatim>\<open>getopt\<close> and \<^verbatim>\<open>getopt_long_only\<close> as the GNU manual describes them.

  \<^bold>\<open>The search program\<close> (\<^verbatim>\<open>src/lab1nhhN3249/\<close>, \<^verbatim>\<open>src/lab1test/\<close>, \<^verbatim>\<open>src/lab1/\<close>).
  \<^item> \<open>Plugin_Api\<close>: \<^verbatim>\<open>plugin_api.h\<close>; the contract between program and plugin is the locale \<open>plugin_iface\<close>, interpreted for every plugin.
  \<^item> \<open>Lib_Nhh\<close> (\<^verbatim>\<open>libnhhN3249.c\<close>): \<^verbatim>\<open>plugin_process_file\<close> finds the little-endian bytes of the number exactly when they occur; the
    argument that it rewrites in place keeps its meaning; which arguments overflow the buffer.
  \<^item> \<open>Lib_Typefile\<close> (\<^verbatim>\<open>lib_typefile.c\<close>), \<open>Lib_Avg\<close> (\<^verbatim>\<open>lab1test/libavg.c\<close>; Shannon entropy over the reals), \<open>Lib_Uuid\<close> (\<^verbatim>\<open>lab1/libavg.c\<close>).
  \<^item> \<open>Dir_Search\<close> (\<^verbatim>\<open>count_so\<close>, \<^verbatim>\<open>get_lib\<close>, \<^verbatim>\<open>search_dir\<close>) and \<open>Lab1_Main\<close> (\<^verbatim>\<open>main\<close>) of \<^verbatim>\<open>lab1nhhN3249.c\<close>: the recursive search
    refines filtering the list of all files; descriptors and mappings are accounted for; what happens at errors. This theory puts program and
    plugins together: what a run prints.
  \<^item> \<open>Lab1_Tools\<close>: \<^verbatim>\<open>lab1call.c\<close> and \<^verbatim>\<open>lab1test.c\<close>.

  \<^bold>\<open>The weekly programs.\<close>
  \<^item> \<open>Basic_Examples\<close> (\<^verbatim>\<open>week1/examples/01_c/qsort.c\<close>, \<^verbatim>\<open>war.c\<close>, \<^verbatim>\<open>mystdlib.c\<close>, \<^verbatim>\<open>week3/02_libs/\<close>, \<^verbatim>\<open>week5/ex5.c\<close>) and \<open>File_Examples\<close>
    (\<^verbatim>\<open>week2/examples/01_files/\<close>): sorting with the promise of the C library as a hypothesis, an overflowing random-number generator, the loop
    that grows a buffer until a link fits, the directory tree.
  \<^item> \<open>Space_Search\<close> (\<^verbatim>\<open>week1/examples/01_c/search1.c\<close>, \<^verbatim>\<open>search2.c\<close>, \<^verbatim>\<open>search3/\<close>): indices, wrap-around of sizes, the planted sample is found.
  \<^item> \<open>Malloc_Trace\<close> (\<^verbatim>\<open>week3/03_preload/libmtr.c\<close>): the interposed allocator, its static buffer and its counters.
  \<^item> \<open>Sync_Counter\<close>, \<open>Work_Queue\<close>, \<open>Rw_Lock\<close> (\<^verbatim>\<open>week4/02_sync/\<close>): step relations over all interleavings, with invariants, lost updates and a deadlock.
  \<^item> \<open>Poll_Server\<close> (\<^verbatim>\<open>week5/ex6.c\<close>), \<open>Select_Server\<close> (\<^verbatim>\<open>week5/ex4.c\<close>), \<open>Chat_Sockets\<close> (\<^verbatim>\<open>week5/02_sockets/\<close>): descriptors are
    neither lost nor used after closing, messages arrive unaltered.

  \<^bold>\<open>The database library\<close> (\<^verbatim>\<open>src/literature/apue3e/apue.3e/db/\<close>). \<open>Db_Model\<close> has every function of \<^verbatim>\<open>db.c\<close> on the bytes of the index and the data file. \<open>Db_Image\<close>
  reads the index file as a list of records, \<open>Db_Chains\<close> the records as hash chains and a free list, \<open>Db_Map\<close> the two files as a finite map (\<open>db_rep\<close>). \<open>Db_Update\<close>,
  \<open>Db_Store\<close> and \<open>Db_Scan\<close> show what deletion, the branches of \<^verbatim>\<open>db_store\<close>, opening and \<^verbatim>\<open>db_nextrec\<close> do to the map. \<open>Db_Api\<close> has the interface as the locale
  \<open>kv_store\<close> and interprets it on the library: sequences of operations refine the map.

  \<^bold>\<open>The transfer functions of the textbooks\<close> (\<^verbatim>\<open>src/literature/tlpi/lib/\<close>, \<^verbatim>\<open>src/literature/apue3e/apue.3e/lib/\<close>). \<open>Io_Library\<close> has \<^verbatim>\<open>readLine\<close>, \<^verbatim>\<open>readLineBuf\<close>, \<^verbatim>\<open>readn\<close>, \<^verbatim>\<open>writen\<close> and
  \<^verbatim>\<open>getInt\<close> over descriptors that transfer less than asked for and are interrupted. The locale \<open>line_reader\<close> says what it is to deliver lines; both readers
  interpret it, so they split an input alike.

  \<^bold>\<open>The directory monitor\<close> (\<^verbatim>\<open>src/literature/tlpi/inotify/inotify_dtree.c\<close>). \<open>Dtree_Model\<close> has the cache of watch descriptors and pathnames, the handling of every kind of event, the loop over the
  buffer with its secondary reads, the commands and \<^verbatim>\<open>main\<close>. \<open>Dtree_Cache\<close> reads the array as a set of pairs; the walk of a tree rests on the locale \<open>path_cache\<close>, interpreted on the array. \<open>Dtree_Track\<close>
  puts the file system and the monitor side by side, with the queue of events between them, and shows by rule induction which differences between cache and file system can exist and that the waiting events remove
  them. \<open>Dtree_Props\<close> concludes that the cache catches up, recovers from lost events, and treats a rename in two reads like one in a single read. Renames are handled before the next change; the program documents
  that it guesses otherwise, and then relies on the recovery.

  \<^bold>\<open>The print spooler\<close> (\<^verbatim>\<open>src/literature/apue3e/apue.3e/printer/\<close>: a daemon, \<^verbatim>\<open>printd.c\<close>, its client, \<^verbatim>\<open>print.c\<close>, and what they share, \<^verbatim>\<open>util.c\<close>, with \<^verbatim>\<open>connect_retry\<close> and
  \<^verbatim>\<open>initserver\<close> from \<^verbatim>\<open>sockets/\<close>).
  \<^item> \<open>Spool_Queue\<close>: the doubly linked lists of jobs and of client threads, on a heap with explicit pointers. The list of jobs refines a sequence; the contract is the locale \<open>job_store\<close>, interpreted as
    \<open>printq\<close>, whose laws carry the proofs about the threads. The list of client threads works for one client at a time and breaks when two overlap.
  \<^item> \<open>Spool_Request\<close>: the structures that travel over the network as bytes, reading with a timeout, the configuration file, connecting, and the client. \<open>Spool_Ipp\<close> and \<open>Spool_Status\<close>: the IPP
    message to the printer, which a decoder reads back, and the search through its response.
  \<^item> \<open>Spool_Daemon\<close>: the state of the daemon and its threads. The thread of a client is a state machine (\<open>client\<close>, \<open>client_step\<close>) with a step wherever it touches shared state; the spool directories are
    maps from names to contents. \<open>Spool_Session\<close> shows what the transfers deliver, for calls that move any number of bytes; \<open>Spool_Props\<close> follows a file from the client into the spool and from the spool to the
    printer.
  \<^item> \<open>Spool_Safety\<close> runs all threads side by side (\<open>spool_step\<close>, an inductive relation) and keeps books on acknowledged and printed jobs; the invariant ties job numbers, files and queue together.
    \<open>Spool_Reuse\<close> concludes that no acknowledged job is lost, also across a restart, and shows where the daemon's job numbers fail after one.

  \<^bold>\<open>Semaphores and shared memory\<close> (\<^verbatim>\<open>src/literature/tlpi/lib/binary_sems.c\<close>, \<^verbatim>\<open>event_flags.c\<close>, \<^verbatim>\<open>tlpi/svsem/svsem_op.c\<close>, \<^verbatim>\<open>tlpi/svshm/\<close>, \<^verbatim>\<open>src/literature/apue3e/apue.3e/lib/semaph.c\<close>).
  \<^item> \<open>Sysv_Sem\<close>: a set of semaphores as the kernel keeps it, with the adjustments that are made when a process ends, the two small libraries on it, and the program that parses operations from its command line.
  \<^item> \<open>Shm_Transfer\<close>: the writer and the reader as two state machines; the invariant says whose turn it is, where the bytes of the input are and what both have counted. It gives that the output is a beginning of
    the input in every interleaving; a weight that every step lowers gives that the transfer ends, and the invariant that it does not stop before everything has arrived.
  \<^item> \<open>Sem_Interface\<close>: any number of processes inside the functions of \<^verbatim>\<open>semaph.c\<close>, a step per system call, with the end of a process at any point. The invariant ties the lock and the counter of the set
    to what the processes are doing; two runs show where the functions do not keep their promise.

  \<^bold>\<open>Threads and locks\<close> (\<^verbatim>\<open>src/literature/apue3e/apue.3e/threads/\<close>).
  \<^item> \<open>Par_Sort\<close> (\<^verbatim>\<open>barrier.c\<close>): threads that sort the parts of an array and meet at a barrier, and the merge. The merge takes the least of the heads of sorted parts, so that what it writes is the sorted array;
    the invariant counts who has arrived at the barrier and keeps the multiset of every part.
  \<^item> \<open>Foo_Table\<close> (\<^verbatim>\<open>mutex3.c\<close>): a hash table of objects with reference counts, on a heap with explicit pointers. The contract is the locale \<open>ref_store\<close>, interpreted on the functions as \<open>foo3\<close>.
  \<^item> \<open>Foo_Locks\<close> (\<^verbatim>\<open>mutex2.c\<close>): the same table with a lock for the chains and a lock in every object, for any number of threads and with a step for every lock. The invariant says that the count of an object is the number of
    references that threads have or are about to give up, and who holds which lock; it gives that nothing is used after it was freed and that the threads do not block each other.
  \<^item> \<open>Rw_Queue\<close> (\<^verbatim>\<open>rwlock.c\<close>): a doubly linked queue, which refines a sequence; it uses the lemmas on linked segments from \<open>Spool_Queue\<close>.

  \<^bold>\<open>Fuel and bounds.\<close> Loops are structural or have termination proofs. A chain of the database is followed for at most as many steps as the index file
  has bytes; a chain in a well-formed file is shorter (\<open>length_recs_le\<close>), and a longer walk is a cycle and counts as not returning. A loop over \<^verbatim>\<open>db_nextrec\<close> has the same fuel, with the same
  reason. A walk along the list of client threads visits each address at most once. The loops along the chains of \<open>Foo_Table\<close> and the queue of \<open>Rw_Queue\<close> are partial functions, and
  the theorems say that they return. Servers run over a finite list of rounds, of any length, and the transfer functions over a list of
  answers of the system, after which they wait for ever; the theorems ask for enough answers. A new database has room for 9600 operations because record offsets have seven digits and an
  operation adds at most 1035 bytes to the index file; the bound is used in \<open>db_open_cap\<close> only. Threads run any number of steps.

  \<^bold>\<open>Not modelled.\<close> The textbook programs besides the parts above: most of them show one system call each (namespaces, seccomp, access control lists, capabilities, terminals, timers), so that what they do is what the kernel does with
  the call, of which a model would have to be made up. Programs that only print or only call the system (\<^verbatim>\<open>hello\<close>, \<^verbatim>\<open>fork\<close>, \<^verbatim>\<open>vfork\<close>, signals,
  thread creation); assembly files. Diagnostics under \<^verbatim>\<open>LAB1DEBUG\<close> and the texts of \<^verbatim>\<open>strerror\<close> and \<^verbatim>\<open>dlerror\<close> are left out. Floating-point numbers are
  reals. The database is seen from one process, so that its locks are bookkeeping. Of the spooler, log messages, the lengths of its timeouts and the cancelling of threads when it ends are left out. Of the
  examples of locking, the functions that wait for a lock are taken to succeed where the code does not look at their result.
\<close>

subsection \<open>The search program with its two plugins\<close>

definition nhh_image :: so_image where
  "nhh_image = \<lparr>so_get_info = Some nhh_get_info, so_process = Some nhh_process_file\<rparr>"

definition tf_image :: so_image where
  "tf_image = \<lparr>so_get_info = Some tf_get_info, so_process = Some tf_process_file\<rparr>"

text \<open>The plugins as \<^verbatim>\<open>main\<close> has them after loading, and after it has handed them their options.\<close>

definition nhh_lib :: "c_option list \<Rightarrow> lib" where
  "nhh_lib os = \<lparr>opts_to_pass = os, longopts = map po_opt g_po_arr, longopts_len = length g_po_arr,
     ppf_func = nhh_process_file, pgi_info = nhh_get_info\<rparr>"

definition tf_lib :: "c_option list \<Rightarrow> lib" where
  "tf_lib os = \<lparr>opts_to_pass = os, longopts = map po_opt tf_po_arr, longopts_len = length tf_po_arr,
     ppf_func = tf_process_file, pgi_info = tf_get_info\<rparr>"

text \<open>An argument that no scanner takes for an option.\<close>

definition plain_arg :: "string \<Rightarrow> bool" where
  "plain_arg a \<longleftrightarrow> \<not> (2 \<le> length a \<and> hd a = CHR ''-'')"

lemma plain_arg_not_dashes: "plain_arg a \<Longrightarrow> a \<noteq> ''--''"
  by (auto simp: plain_arg_def)

lemma load_two_plugins:
  "\<exists>i1 i2. load_plugins [Some nhh_image, Some tf_image] = Inr (Inr [(nhh_lib [], i1), (tf_lib [], i2)])"
  by (simp add: load_plugin_def nhh_image_def tf_image_def nhh_get_info_def tf_get_info_def nhh_lib_def tf_lib_def
      g_po_arr_def tf_po_arr_def zero_info_def Let_def)

definition two_args :: "char \<Rightarrow> string \<Rightarrow> string \<Rightarrow> string list" where
  "two_args c s dir = [[CHR ''-'', c], ''--bit-seq'', s, ''--txt'', dir]"

lemma two_args_short:
  assumes "plain_arg s" and "plain_arg dir" and "c = CHR ''A'' \<or> c = CHR ''O''"
  shows "short_loop main_opts0 (getopt_short (two_args c s dir)) =
    Some (if c = CHR ''A'' then main_opts0\<lparr>mo_aflag := True, mo_need_lib2 := True\<rparr>
          else main_opts0\<lparr>mo_oflag := True, mo_need_lib2 := True\<rparr>)"
proof -
  have "getopt_short (s # as) = ShortNonOption s # getopt_short as" for as
    using assms(1) plain_arg_not_dashes by (auto simp: plain_arg_def)
  moreover have "getopt_short [dir] = [ShortNonOption dir]"
    using assms(2) plain_arg_not_dashes by (auto simp: plain_arg_def)
  moreover have "getopt_short (''--txt'' # as) = map ShortUnknown ''-txt'' @ getopt_short as"
    and "getopt_short (''--bit-seq'' # as) = map ShortUnknown ''-bit-seq'' @ getopt_short as" for as
    by (simp_all add: short_flags_def)
  moreover have "getopt_short ([CHR ''-'', c] # as) = ShortOpt c # getopt_short as" for as
    using assms(3) by (auto simp: short_flags_def)
  ultimately show ?thesis
    using assms(3) by (auto simp: two_args_def short_switch_def)
qed

lemma two_args_distribute:
  assumes "plain_arg s" and "plain_arg dir" and "c = CHR ''A'' \<or> c = CHR ''O''"
  shows "distribute (two_args c s dir) [nhh_lib [], tf_lib []] =
    Inr (Some [nhh_lib [bit_seq_opt (strdup_c s)], tf_lib [txt_opt]])"
proof -
  let ?n = "longopts (nhh_lib [])" and ?t = "longopts (tf_lib [])"
  have plain: "getopt_long_only lo (s # as) = LongOther # getopt_long_only lo as"
    "getopt_long_only lo [dir] = [LongOther]" for lo as
    using assms(1,2) plain_arg_not_dashes by (auto simp: plain_arg_def)
  have flag: "getopt_long_only lo ([CHR ''-'', c] # as) = LongOther # getopt_long_only lo as"
    if "find_long lo [c] = None" for lo as
    using assms(3) that by (auto simp: long_one_def Let_def)
  have nhh: "find_long ?n [c] = None" "find_long ?n ''txt'' = None" "find_long ?n ''bit-seq'' = Some 0"
    and tf: "find_long ?t [c] = None" "find_long ?t ''txt'' = Some 0" "find_long ?t ''bit-seq'' = None"
    using assms(3) by (auto simp: find_long_def exact_matches_def prefix_matches_def nhh_lib_def tf_lib_def g_po_arr_def
        tf_po_arr_def OPT_BIT_SEQ_def OPT_TEXT_def)
  have opts: "?n ! 0 = \<lparr>opt_name = OPT_BIT_SEQ, opt_has_arg = 1, opt_flag = None, opt_val = 0\<rparr>"
    "?t ! 0 = \<lparr>opt_name = OPT_TEXT, opt_has_arg = 0, opt_flag = None, opt_val = 0\<rparr>"
    by (simp_all add: nhh_lib_def tf_lib_def g_po_arr_def tf_po_arr_def required_argument_def no_argument_def)
  have n: "getopt_long_only ?n (''--bit-seq'' # s # as) = LongMatch 0 (Some s) # getopt_long_only ?n as"
      "getopt_long_only ?n (''--txt'' # as) = LongOther # getopt_long_only ?n as"
    and t: "getopt_long_only ?t (''--txt'' # as) = LongMatch 0 None # getopt_long_only ?t as"
      "getopt_long_only ?t (''--bit-seq'' # as) = LongOther # getopt_long_only ?t as" for as
    by (simp_all add: nhh tf opts long_one_def long_result_def)
  have "getopt_long_only ?n (two_args c s dir) = [LongOther, LongMatch 0 (Some s), LongOther, LongOther]"
    by (simp only: two_args_def flag [OF nhh(1)] n plain)
  moreover have "getopt_long_only ?t (two_args c s dir) = [LongOther, LongOther, LongOther, LongMatch 0 None, LongOther]"
    by (simp only: two_args_def flag [OF tf(1)] t plain)
  ultimately show ?thesis
    by (simp add: nhh_lib_def tf_lib_def pass_option_def bit_seq_opt_def txt_opt_def g_po_arr_def tf_po_arr_def
        required_argument_def no_argument_def)
qed

lemma two_queries:
  assumes "pattern_spec s = Some (v, n)" and "n \<le> 8" and "rewrite_fits (strdup_c s)"
  shows "list_all2 queried [nhh_lib [bit_seq_opt (strdup_c s)], tf_lib [txt_opt]]
    [Some (\<lambda>path f. has_bytes v n f), Some (\<lambda>path f. is_txt path = 1)]"
proof -
  have "bit_seq_query v n [bit_seq_opt (strdup_c s)]"
    using assms by (auto simp: bit_seq_query_def strdup_c_def)
  then have "queried (nhh_lib [bit_seq_opt (strdup_c s)]) (Some (\<lambda>path f. has_bytes v n f))"
    by (intro queried_intro [where good = "bit_seq_query v n"]) (simp_all add: nhh_lib_def nhh_ans.plugin_answers_axioms)
  moreover have "queried (tf_lib [txt_opt]) (Some (\<lambda>path f. is_txt path = 1))"
    by (intro queried_intro [where good = "\<lambda>os. OPT_TEXT \<in> opt_name ` set os"])
      (simp_all add: tf_lib_def tf_ans.plugin_answers_axioms txt_opt_def)
  ultimately show ?thesis by simp
qed

text \<open>A system in which the program runs: the working directory holds the two libraries and is short enough.\<close>

definition two_plugin_env :: "main_env \<Rightarrow> string \<Rightarrow> dirent list \<Rightarrow> bool" where
  "two_plugin_env env cwd es \<longleftrightarrow> me_cwd env = Some cwd \<and> length cwd < PATH_MAX \<and> me_dir env cwd = Some es \<and>
     (\<forall>path \<in> set (reg_paths cwd es). length path < SO_PATH_CAP) \<and>
     map (me_dlopen env) (so_paths cwd es) = [Some nhh_image, Some tf_image]"

lemma two_plugin_env_libs:
  assumes "two_plugin_env env cwd es"
  shows "count_so cwd (Some es) 0 = Inr 2"
    and "\<exists>r. get_lib (me_dlopen env) cwd (Some es) (replicate 2 None) = Inr (r, [Some nhh_image, Some tf_image])"
proof -
  have m: "map (me_dlopen env) (so_paths cwd es) = [Some nhh_image, Some tf_image]"
    using assms by (simp add: two_plugin_env_def)
  then have "length (so_paths cwd es) = 2" by (metis length_map length_Cons list.size(3) numeral_2_eq_2)
  then show c: "count_so cwd (Some es) 0 = Inr 2"
    using assms by (auto simp: two_plugin_env_def count_so_def count_so_loop_eq list_all_iff)
  have "\<forall>path \<in> set (so_paths cwd es). me_dlopen env path \<noteq> None"
    using m by (auto simp: map_eq_Cons_conv)
  then show "\<exists>r. get_lib (me_dlopen env) cwd (Some es) (replicate 2 None) = Inr (r, [Some nhh_image, Some tf_image])"
    using get_lib_after_count [OF c, of "me_dlopen env"] m by (auto simp: list_all_iff)
qed

lemma two_plugin_run:
  assumes env: "two_plugin_env env cwd es" and args: "plain_arg s" "plain_arg dir" "c = CHR ''A'' \<or> c = CHR ''O''"
    and pat: "pattern_spec s = Some (v, n)" "n \<le> 8" "rewrite_fits (strdup_c s)"
    and dir: "dir \<noteq> ''.''" "dir \<noteq> ''./''" "length dir < PATH_MAX" "me_dir env dir = Some tree" "paths_fit dir tree"
    and files: "\<forall>path \<in> set (files dir tree). readable (me_vfs env path)"
    and found: "found = filter (\<lambda>path. if c = CHR ''A'' then has_bytes v n (me_vfs env path) \<and> is_txt path = 1
        else has_bytes v n (me_vfs env path) \<or> is_txt path = 1) (files dir tree)"
  shows "\<exists>r. lab1_main env (prog # two_args c s dir) = Inr r \<and> mr_exit r = 0 \<and> mr_err r = [] \<and>
    mr_out r = map (\<lambda>path. path @ nl) found @ [nl @ show_dec (int (length found)) @ '' file(s) have been found'' @ nl] \<and>
    p_fds (mr_proc r) = p_fds (me_proc env)"
proof -
  let ?m = "if c = CHR ''A'' then main_opts0\<lparr>mo_aflag := True, mo_need_lib2 := True\<rparr>
          else main_opts0\<lparr>mo_oflag := True, mo_need_lib2 := True\<rparr>"
  let ?env = "\<lparr>se_vfs = me_vfs env, se_aflag = mo_aflag ?m, se_oflag = mo_oflag ?m, se_nflag = mo_nflag ?m\<rparr>"
  let ?st = "\<lparr>ss_libs = [nhh_lib [bit_seq_opt (strdup_c s)], tf_lib [txt_opt]], ss_proc = me_proc env, ss_count = 0, ss_out = []\<rparr>"
  let ?qs = "[Some (\<lambda>path f. has_bytes v n f), Some (\<lambda>path f. is_txt path = 1)]"
  have sel: "filter (selected ?env ?qs) (files dir tree) = found"
    unfolding found using args(3) by (intro filter_cong) (auto simp: selected_def reported_def main_opts0_def)
  obtain st' where run: "search_dir ?env dir (Some tree) ?st = Inr st'" and st': "answered_state ?qs ?st found st'"
    using search_dir_answer [of ?st ?qs dir tree ?env] two_queries [OF pat] dir(5) files sel by auto
  obtain rl where gl: "get_lib (me_dlopen env) cwd (Some es) (replicate 2 None) = Inr (rl, [Some nhh_image, Some tf_image])"
    using two_plugin_env_libs [OF env] by blast
  obtain i1 i2 where ld: "load_plugins [Some nhh_image, Some tf_image] = Inr (Inr [(nhh_lib [], i1), (tf_lib [], i2)])"
    using load_two_plugins by blast
  have "lab1_main env (prog # two_args c s dir) = Inr (search_report env st')"
  proof (rule lab1_main_search [where m = ?m and ps = "[(nhh_lib [], i1), (tf_lib [], i2)]"])
    show "short_loop main_opts0 (getopt_short (tl (prog # two_args c s dir))) = Some ?m"
      using two_args_short [OF args] by simp
    show "distribute (tl (prog # two_args c s dir)) (map fst [(nhh_lib [], i1), (tf_lib [], i2)]) =
        Inr (Some [nhh_lib [bit_seq_opt (strdup_c s)], tf_lib [txt_opt]])"
      using two_args_distribute [OF args] by simp
    show "search_dir ?env dir (me_dir env dir) ?st = Inr st'" using run dir(4) by simp
    show "get_lib (me_dlopen env) cwd (me_dir env cwd) (replicate 2 None) = Inr (rl, [Some nhh_image, Some tf_image])"
      using gl env by (simp add: two_plugin_env_def)
  qed (use env two_plugin_env_libs(1) [OF env] ld dir(1-3) in
      \<open>auto simp: two_args_def two_plugin_env_def main_opts0_def\<close>)
  then show ?thesis using st' by (simp add: search_report_def answered_state_def)
qed

subsection \<open>Properties of the whole program\<close>



text \<open>
  With \<^verbatim>\<open>-O\<close> in place of \<^verbatim>\<open>-A\<close> the same run prints exactly the files that have the bytes or the extension.
\<close>

theorem main_or_search:
  assumes "two_plugin_env env cwd es" and "plain_arg s" and "plain_arg dir"
    and "pattern_spec s = Some (v, n)" and "n \<le> 8" and "rewrite_fits (strdup_c s)"
    and "dir \<noteq> ''.''" and "dir \<noteq> ''./''" and "length dir < PATH_MAX" and "me_dir env dir = Some tree" and "paths_fit dir tree"
    and "\<forall>path \<in> set (files dir tree). readable (me_vfs env path)"
    and "found = filter (\<lambda>path. sublist (take n (le_bytes (word_of_int v))) (vf_data (me_vfs env path)) \<or>
      (\<exists>q. q \<noteq> [] \<and> path = q @ ''.txt'')) (files dir tree)"
  shows "\<exists>r. lab1_main env [prog, ''-O'', ''--bit-seq'', s, ''--txt'', dir] = Inr r \<and> mr_exit r = 0 \<and> mr_err r = [] \<and>
    mr_out r = map (\<lambda>path. path @ nl) found @ [nl @ show_dec (int (length found)) @ '' file(s) have been found'' @ nl] \<and>
    p_fds (mr_proc r) = p_fds (me_proc env)"
proof -
  have "(CHR ''O'' = CHR ''A'') = False" by simp
  then show ?thesis
    using two_plugin_run [OF assms(1-3) _ assms(4-12), of "CHR ''O''" found prog] assms(13)
    by (simp only: two_args_def has_bytes_def is_txt_iff if_False simp_thms)
qed

theorem main_or_search_witness:
  "\<exists>r. lab1_main \<lparr>me_cwd = Some ''/p'',
      me_dir = \<lambda>d. if d = ''/p'' then Some [Reg ''libnhhN3249.so'', Reg ''lib_typefile.so''] else Some [Reg ''a.txt'', Reg ''b.bin''],
      me_vfs = \<lambda>path. plain_file [7],
      me_dlopen = \<lambda>path. if path = ''/p/libnhhN3249.so'' then Some nhh_image else Some tf_image, me_proc = proc0\<rparr>
      [''lab1'', ''-O'', ''--bit-seq'', ''0x01'', ''--txt'', ''/d''] = Inr r \<and>
    mr_exit r = 0 \<and> mr_out r = [''/d/a.txt'' @ nl, nl @ ''1 file(s) have been found'' @ nl]"
proof -
  let ?tree = "[Reg ''a.txt'', Reg ''b.bin'']"
  let ?es = "[Reg ''libnhhN3249.so'', Reg ''lib_typefile.so'']"
  let ?env = "\<lparr>me_cwd = Some ''/p'', me_dir = \<lambda>d. if d = ''/p'' then Some ?es else Some ?tree, me_vfs = \<lambda>path. plain_file [7],
    me_dlopen = \<lambda>path. if path = ''/p/libnhhN3249.so'' then Some nhh_image else Some tf_image, me_proc = proc0\<rparr>"
  have env: "two_plugin_env ?env ''/p'' ?es"
    by (simp add: two_plugin_env_def SO_PATH_CAP_def c_limits is_lib_def get_filename_ext_def dot_ext_def strrchr_c_def)
  have base: "pattern_base ''0x01'' = 16" by (simp add: base_eval)
  have spec: "pattern_spec ''0x01'' = Some (1, 1)"
    using pattern_spec_hex [of "''0x01''" 1 False] by (simp add: base_eval strtol_eval)
  have fits: "rewrite_fits (strdup_c ''0x01'')" using base by (simp add: rewrite_fits_def strdup_c_def)
  have bytes: "take 1 (le_bytes (word_of_int 1)) = [1]"
    by (simp add: le_bytes_def upt_rec)
  have "filter (\<lambda>path. sublist [1] [7 :: byte] \<or> is_txt path = 1) (files ''/d'' ?tree) = [''/d/a.txt'']"
    by (simp add: sublist_Cons_right is_txt_def tf_get_filename_ext_def dot_ext_def strrchr_c_def)
  then have found: "[''/d/a.txt''] = filter (\<lambda>path. sublist (take 1 (le_bytes (word_of_int 1))) (vf_data (me_vfs ?env path)) \<or>
      (\<exists>q. q \<noteq> [] \<and> path = q @ ''.txt'')) (files ''/d'' ?tree)"
    unfolding bytes is_txt_iff by simp
  have one: "show_dec (int (length [''/d/a.txt''])) = ''1''" by code_simp
  show ?thesis
    using main_or_search [OF env _ _ spec _ fits _ _ _ _ _ _ found, of "''lab1''"]
    unfolding one by (auto simp: plain_arg_def c_limits FILE_PATH_CAP_def)
qed



text \<open>
  An error of a plugin on a file ends the search of its directory: nothing after the file is looked at, nothing
  is printed, and the descriptor of the directory stays open.
\<close>

theorem search_dir_stops_at_error:
  assumes "length folder + length nm + 1 < FILE_PATH_CAP"
    and "call_plugins (se_vfs env) (folder @ ''/'' @ nm) (ss_libs st) 0 0 (set_errno 0 (open_fd (ss_proc st))) = Inr (libs', None, p')"
  shows "search_dir env folder (Some (Reg nm # es)) st = Inr (st\<lparr>ss_libs := libs', ss_proc := p'\<rparr>)"
  using assms by (simp add: search_dir_def search_file_def get_abs_path_eq on_proc_def)

theorem search_dir_stops_at_error_witness:
  "search_dir \<lparr>se_vfs = \<lambda>path. if path = ''d/e'' then plain_file [] else plain_file [1], se_aflag = True, se_oflag = False,
       se_nflag = False\<rparr> ''d'' (Some [Reg ''e'', Reg ''a.txt''])
      \<lparr>ss_libs = [tf_lib [txt_opt]], ss_proc = proc0, ss_count = 0, ss_out = []\<rparr> =
    Inr \<lparr>ss_libs = [tf_lib [txt_opt]], ss_proc = proc0\<lparr>p_errno := ERANGE, p_fds := 4\<rparr>, ss_count = 0, ss_out = []\<rparr>"
proof -
  let ?env = "\<lparr>se_vfs = \<lambda>path. if path = ''d/e'' then plain_file [] else plain_file [1], se_aflag = True, se_oflag = False,
    se_nflag = False\<rparr>"
  let ?st = "\<lparr>ss_libs = [tf_lib [txt_opt]], ss_proc = proc0, ss_count = 0, ss_out = []\<rparr>"
  have "call_plugins (se_vfs ?env) (''d'' @ ''/'' @ ''e'') (ss_libs ?st) 0 0 (set_errno 0 (open_fd (ss_proc ?st))) =
      Inr ([tf_lib [txt_opt]], None, proc0\<lparr>p_errno := ERANGE, p_fds := 4\<rparr>)"
    by (simp add: tf_lib_def tf_process_file_def with_file_def plain_file_def finish_def proc_ops proc0_def)
  from search_dir_stops_at_error [OF _ this, of "[Reg ''a.txt'']"] show ?thesis
    by (simp add: FILE_PATH_CAP_def c_limits)
qed

subsection \<open>The tools with the plugins of the search program\<close>

lemma tool_ready_images: "tool_ready nhh_image" "tool_ready tf_image"
  using nhh_info.plugin_describes_axioms tf_info.plugin_describes_axioms
  by (simp_all add: tool_ready_def nhh_image_def tf_image_def nhh_get_info_def tf_get_info_def plain_table_def g_po_arr_def
      tf_po_arr_def required_argument_def no_argument_def)

lemma call_options:
  assumes "plain_arg name" and "plain_arg f"
  shows "call_collect (map po_opt g_po_arr) 1 (getopt_long_permute (map po_opt g_po_arr) [name, ''--bit-seq'', s, f]) [] =
    Inr (Inr [bit_seq_opt (strdup_c s)])"
proof -
  let ?lo = "map po_opt g_po_arr"
  have plain: "getopt_long_permute ?lo (name # as) = getopt_long_permute ?lo as" "getopt_long_permute ?lo [f] = []" for as
    using assms plain_arg_not_dashes by (auto simp: plain_arg_def)
  have "long_one ?lo ''bit-seq'' (s # as) = (LongMatch 0 (Some s), as)" for as
    by (simp add: long_one_def long_result_def find_long_def exact_matches_def g_po_arr_def OPT_BIT_SEQ_def required_argument_def)
  then have "getopt_long_permute ?lo (''--bit-seq'' # s # as) = LongMatch 0 (Some s) # getopt_long_permute ?lo as" for as
    by simp
  then have "getopt_long_permute ?lo [name, ''--bit-seq'', s, f] = [LongMatch 0 (Some s)]" by (simp only: plain)
  then show ?thesis by (simp add: pass_option_def g_po_arr_def required_argument_def bit_seq_opt_def)
qed

text \<open>
  \<^verbatim>\<open>lab1call lib --bit-seq s file\<close> on the bit-sequence plugin prints its description and then 1 or 0, 1 exactly when the
  bytes of the number \<open>s\<close> occur in a row in the file; it writes no error and leaves no descriptor open.
\<close>

theorem lab1call_finds_bytes:
  assumes "dlopen name = Some nhh_image" and "plain_arg name" and "plain_arg f" and "readable (fs f)"
    and "pattern_spec s = Some (v, n)" and "n \<le> 8" and "rewrite_fits (strdup_c s)"
  shows "\<exists>r info. snd (nhh_get_info (Some zero_info)) = Some info \<and>
    lab1call dlopen fs p [prog, name, ''--bit-seq'', s, f] = Inr r \<and> tr_err r = [] \<and> p_fds (tr_proc r) = p_fds p \<and>
    tr_out r = info_text info @ [nl, ''plugin_process_file() returned '' @
      (if sublist (take n (le_bytes (word_of_int v))) (vf_data (fs f)) then ''1'' else ''0'') @ nl]"
proof -
  have dec: "show_dec 1 = ''1''" "show_dec 0 = ''0''" by code_simp+
  have "bit_seq_query v n [bit_seq_opt (strdup_c s)]"
    using assms(5-7) by (auto simp: bit_seq_query_def strdup_c_def)
  from nhh_ans.answered [where fs = fs and f = f, OF this assms(4), of "set_errno 0 p"]
  obtain os' where run: "nhh_process_file fs f [bit_seq_opt (strdup_c s)] (set_errno 0 p) =
      Inr (if has_bytes v n (fs f) then 1 else 0, os', (set_errno 0 p)\<lparr>p_errno := 0\<rparr>)" by blast
  have table: "\<exists>info. nhh_get_info (Some zero_info) = (0, Some info) \<and> sup_opts info = g_po_arr \<and> sup_opts_len info = 1"
    by (simp add: nhh_get_info_def g_po_arr_def)
  then show ?thesis
    using assms(1) call_options [OF assms(2,3)] run
    by (auto simp: lab1call_def nhh_image_def g_po_arr_def call_result_def has_bytes_def dec proc_ops Let_def)
qed

theorem lab1call_finds_bytes_witness:
  "\<exists>r info. lab1call (\<lambda>_. Some nhh_image) (\<lambda>_. plain_file [9, 1]) proc0 [''lab1call'', ''./lib.so'', ''--bit-seq'', ''0x01'', ''f''] = Inr r \<and>
    tr_out r = info_text info @ [nl, ''plugin_process_file() returned 1'' @ nl]"
proof -
  have base: "pattern_base ''0x01'' = 16" by (simp add: base_eval)
  have spec: "pattern_spec ''0x01'' = Some (1, 1)"
    using pattern_spec_hex [of "''0x01''" 1 False] by (simp add: base_eval strtol_eval)
  have fits: "rewrite_fits (strdup_c ''0x01'')" using base by (simp add: rewrite_fits_def strdup_c_def)
  have bytes: "sublist (take 1 (le_bytes (word_of_int 1))) (vf_data (plain_file [9, 1]))"
    by (simp add: le_bytes_def upt_rec sublist_Cons_right)
  show ?thesis
    using lab1call_finds_bytes [where dlopen = "\<lambda>_. Some nhh_image" and name = "''./lib.so''" and f = "''f''" and
        fs = "\<lambda>_. plain_file [9, 1]" and p = proc0 and prog = "''lab1call''", OF _ _ _ _ spec _ fits] bytes
    by (auto simp: plain_arg_def)
qed

text \<open>
  Neither tool faults: whatever its arguments, \<^verbatim>\<open>lab1call\<close> stays inside its option arrays and never duplicates a null argument
  when the library describes options with no or one argument and its \<^verbatim>\<open>plugin_process_file\<close> does not fault on the file, and
  \<^verbatim>\<open>lab1test\<close> needs only the description.
\<close>

theorem tools_never_fault:
  assumes "\<forall>name im. dlopen name = Some im \<longrightarrow> tool_ready im"
    and "\<forall>name im process os p. dlopen name = Some im \<and> so_process im = Some process \<longrightarrow> (\<exists>r. process fs (last argv) os p = Inr r)"
  shows "(\<exists>r. lab1call dlopen fs p argv = Inr r) \<and> (\<exists>r. lab1test dlopen argv = Inr r)"
proof
  show "\<exists>r. lab1call dlopen fs p argv = Inr r" by (rule lab1call_ok) (use assms in blast)
  have "\<exists>r. lab1test_loop dlopen (tl argv) = Inr r"
    by (rule lab1test_loop_ok) (use assms(1) in \<open>auto simp: tool_ready_def\<close>)
  then show "\<exists>r. lab1test dlopen argv = Inr r" by (simp add: lab1test_def)
qed

lemma tf_process_file_total: "\<exists>r. tf_process_file fs f os p = Inr r"
  by (simp add: tf_process_file_def with_file_def finish_def Let_def split: option.split)

theorem tools_never_fault_witness:
  "(\<exists>r. lab1call (\<lambda>name. if name = ''./lib.so'' then Some tf_image else None) (\<lambda>_. plain_file [9]) proc0
      [''lab1call'', ''./lib.so'', ''--txt'', ''--txt'', ''f''] = Inr r) \<and>
   (\<exists>r. lab1test (\<lambda>name. if name = ''./lib.so'' then Some tf_image else None)
      [''lab1call'', ''./lib.so'', ''--txt'', ''--txt'', ''f''] = Inr r)"
proof -
  have "so_process tf_image = Some tf_process_file" by (simp add: tf_image_def)
  then show ?thesis
    by (intro tools_never_fault) (use tool_ready_images(2) tf_process_file_total in \<open>metis option.inject option.distinct(1)\<close>)+
qed

end
